(* ===== verification/Prelude.thy ===== *)
theory Prelude
  imports Main "HOL-Library.Word"
begin

text \<open>
  Shared vocabulary of the development.

  \<^item> The error type: one constructor per C++ exception class the engine throws, plus
    \<open>UndefinedBehaviour\<close> for an access the C++ standard leaves undefined (an out-of-range
    \<open>memcpy\<close>, a negative iterator range) and \<open>Diverges\<close> for a loop over linked nodes that has
    visited more nodes than there are and so never ends. Fallible code has type \<open>'a result\<close>.
  \<^item> Bytes: \<open>std::vector<char>\<close> is a list of \<open>8 word\<close>, \<open>std::string\<close> is HOL's \<open>string\<close>;
    \<open>le_bytes\<close> / \<open>le_word\<close> are what \<open>memcpy\<close> of an unsigned integer to and from a buffer does
    on the little-endian targets the engine is built for, and \<open>memcpy_in\<close> / \<open>memcpy_out\<close> are the
    bounds-checked block copies.
  \<^item> Decimal printing (\<open>std::to_string\<close>).

  The collections \<open>result_simps\<close> and \<open>bytes_simps\<close> carry the component proofs.
\<close>

named_theorems result_simps \<open>propagation of errors through bindE\<close>
named_theorems bytes_simps \<open>lengths and round trips of the byte codecs\<close>

section \<open>Errors as values\<close>

datatype error =
    RuntimeError string
  | OutOfRange string
  | InvalidArgument string
  | LengthError string
  | LexError string nat
  | ParseError string nat
  | DeadlockError string
  | LockTimeoutError string
  | UndefinedBehaviour string
  | Diverges

type_synonym 'a result = "error + 'a"

definition bindE :: "'a result \<Rightarrow> ('a \<Rightarrow> 'b result) \<Rightarrow> 'b result" where
  "bindE m f = (case m of Inl e \<Rightarrow> Inl e | Inr x \<Rightarrow> f x)"

lemma bindE_Inl [simp, result_simps]: "bindE (Inl e) f = Inl e"
  by (simp add: bindE_def)

lemma bindE_Inr [simp, result_simps]: "bindE (Inr x) f = f x"
  by (simp add: bindE_def)

lemma bindE_eq_Inr [result_simps]: "bindE m f = Inr y \<longleftrightarrow> (\<exists>x. m = Inr x \<and> f x = Inr y)"
  by (cases m) auto

lemma bindE_eq_Inl [result_simps]:
  "bindE m f = Inl e \<longleftrightarrow> m = Inl e \<or> (\<exists>x. m = Inr x \<and> f x = Inl e)"
  by (cases m) auto

lemma bindE_assoc: "bindE (bindE m f) g = bindE m (\<lambda>x. bindE (f x) g)"
  by (cases m) auto

lemma bindE_cong [fundef_cong]:
  "m = m' \<Longrightarrow> (\<And>x. m' = Inr x \<Longrightarrow> f x = f' x) \<Longrightarrow> bindE m f = bindE m' f'"
  by (cases m') auto

definition ok :: "'a result \<Rightarrow> bool" where
  "ok r \<longleftrightarrow> (\<exists>x. r = Inr x)"

lemma ok_simps [simp]: "ok (Inr x)" "\<not> ok (Inl e)"
  by (simp_all add: ok_def)

definition no_ub :: "'a result \<Rightarrow> bool" where
  "no_ub r \<longleftrightarrow> (\<forall>what. r \<noteq> Inl (UndefinedBehaviour what))"

lemma no_ub_simps [simp]:
  "no_ub (Inr x)" "no_ub (Inl (RuntimeError s))" "no_ub (Inl (OutOfRange s))"
  "\<not> no_ub (Inl (UndefinedBehaviour s))"
  by (simp_all add: no_ub_def)

text \<open>The C++ exceptions, which a \<open>catch\<close> of \<open>std::exception\<close> stops, as opposed to undefined behaviour and loops without end.\<close>

fun is_exception :: "error \<Rightarrow> bool" where
  "is_exception (UndefinedBehaviour _) = False"
| "is_exception Diverges = False"
| "is_exception _ = True"

definition throws_only :: "'a result \<Rightarrow> bool" where
  "throws_only r \<longleftrightarrow> (\<forall>e. r = Inl e \<longrightarrow> is_exception e)"

lemma throws_only_simps [simp]: "throws_only (Inr x)" "throws_only (Inl e) = is_exception e"
  by (simp_all add: throws_only_def)

lemma throws_only_bind: "throws_only m \<Longrightarrow> (\<And>x. m = Inr x \<Longrightarrow> throws_only (f x)) \<Longrightarrow> throws_only (bindE m f)"
  by (cases m) simp_all

section \<open>Machine integers and their little-endian bytes\<close>

type_synonym byte = "8 word"
type_synonym u8 = "8 word"
type_synonym u16 = "16 word"
type_synonym u32 = "32 word"
type_synonym u64 = "64 word"

definition int32 :: "int \<Rightarrow> bool" where
  "int32 x \<longleftrightarrow> - (2 ^ 31) \<le> x \<and> x < 2 ^ 31"

primrec le_bytes_nat :: "nat \<Rightarrow> nat \<Rightarrow> byte list" where
  "le_bytes_nat 0 v = []"
| "le_bytes_nat (Suc n) v = word_of_nat (v mod 256) # le_bytes_nat n (v div 256)"

primrec le_nat :: "byte list \<Rightarrow> nat" where
  "le_nat [] = 0"
| "le_nat (b # bs) = unat b + 256 * le_nat bs"

definition le_bytes :: "nat \<Rightarrow> 'a::len word \<Rightarrow> byte list" where
  "le_bytes n w = le_bytes_nat n (unat w)"

definition le_word :: "byte list \<Rightarrow> 'a::len word" where
  "le_word bs = word_of_nat (le_nat bs)"

definition le_int :: "int \<Rightarrow> byte list" where
  "le_int x = le_bytes 4 (word_of_int x :: u32)"

definition int_of_le :: "byte list \<Rightarrow> int" where
  "int_of_le bs = sint (le_word bs :: u32)"

lemma length_le_bytes_nat [simp]: "length (le_bytes_nat n v) = n"
  by (induction n arbitrary: v) auto

lemma length_le_bytes [simp, bytes_simps]: "length (le_bytes n w) = n"
  by (simp add: le_bytes_def)

lemma length_le_int [simp, bytes_simps]: "length (le_int x) = 4"
  by (simp add: le_int_def)

lemma le_nat_le_bytes_nat: "le_nat (le_bytes_nat n v) = v mod 256 ^ n"
proof (induction n arbitrary: v)
  case 0
  show ?case by simp
next
  case (Suc n)
  have b: "unat (word_of_nat (v mod 256) :: byte) = v mod 256"
    by (simp add: unat_of_nat take_bit_eq_mod)
  show ?case
    by (simp add: Suc b mod_mult2_eq)
qed

lemma le_nat_less: "le_nat bs < 256 ^ length bs"
proof (induction bs)
  case Nil
  show ?case by simp
next
  case (Cons b bs)
  have "unat b < 256"
    using unsigned_less [of b, where ?'a = nat] by simp
  with Cons show ?case by simp
qed

lemma le_word_le_bytes:
  assumes "2 ^ LENGTH('a::len) \<le> (256 :: nat) ^ n"
  shows "le_word (le_bytes n w) = (w :: 'a word)"
proof -
  have "unat w < 256 ^ n"
    using unsigned_less [of w, where ?'a = nat] assms by (rule less_le_trans)
  then show ?thesis
    by (simp add: le_word_def le_bytes_def le_nat_le_bytes_nat)
qed

lemma le_word_u16 [simp, bytes_simps]: "le_word (le_bytes 2 w) = (w :: u16)"
  by (rule le_word_le_bytes) simp

lemma le_word_u32 [simp, bytes_simps]: "le_word (le_bytes 4 w) = (w :: u32)"
  by (rule le_word_le_bytes) simp

lemma le_word_u64 [simp, bytes_simps]: "le_word (le_bytes 8 w) = (w :: u64)"
  by (rule le_word_le_bytes) simp

lemma le_word_u8 [simp, bytes_simps]: "le_word [b] = (b :: u8)"
  by (simp add: le_word_def)

lemma le_nat_inj:
  "length bs = length cs \<Longrightarrow> le_nat bs = le_nat cs \<Longrightarrow> bs = cs"
proof (induction bs arbitrary: cs)
  case Nil
  then show ?case by simp
next
  case (Cons b bs)
  then obtain c cs' where cs: "cs = c # cs'"
    by (cases cs) auto
  have lt: "unat b < 256" "unat c < 256"
    using unsigned_less [of b, where ?'a = nat] unsigned_less [of c, where ?'a = nat] by simp_all
  from Cons.prems cs have eq: "unat b + 256 * le_nat bs = unat c + 256 * le_nat cs'"
    by simp
  have "(unat b + 256 * le_nat bs) mod 256 = (unat c + 256 * le_nat cs') mod 256"
    by (simp only: eq)
  with lt have b: "unat b = unat c" by simp
  with eq have "le_nat bs = le_nat cs'" by simp
  with Cons cs b show ?case by (simp add: word_unat_eq_iff)
qed

lemma le_bytes_le_word:
  assumes "length bs = n" "(256 :: nat) ^ n = 2 ^ LENGTH('a::len)"
  shows "le_bytes n (le_word bs :: 'a word) = bs"
proof (rule le_nat_inj)
  show "length (le_bytes n (le_word bs :: 'a word)) = length bs"
    using assms by simp
  have "le_nat bs < 2 ^ LENGTH('a)"
    using le_nat_less [of bs] assms by simp
  then show "le_nat (le_bytes n (le_word bs :: 'a word)) = le_nat bs"
    using assms le_nat_less [of bs]
    by (simp add: le_bytes_def le_word_def le_nat_le_bytes_nat unat_of_nat take_bit_nat_eq_self)
qed

lemma int_of_le_le_int [simp, bytes_simps]: "int32 x \<Longrightarrow> int_of_le (le_int x) = x"
  by (simp add: int_of_le_def le_int_def int32_def signed_of_int signed_take_bit_int_eq_self)

lemma int32_int_of_le [simp]: "int32 (int_of_le bs)"
  using sint_greater_eq [of "le_word bs :: u32"] sint_less [of "le_word bs :: u32"]
  by (simp add: int32_def int_of_le_def)

text \<open>
  A \<open>size_t\<close> narrowed to \<open>int\<close>: the low 32 bits, read as a signed number.
\<close>

definition narrow_int :: "nat \<Rightarrow> int" where
  "narrow_int n = sint (word_of_nat n :: u32)"

lemma narrow_int_id: "n < 2 ^ 31 \<Longrightarrow> narrow_int n = int n"
  by (simp add: narrow_int_def signed_of_nat signed_take_bit_int_eq_self)

lemma narrow_int_wrap: "n < 2 ^ 31 \<Longrightarrow> narrow_int (2 ^ 32 + n) = int n"
proof -
  assume n: "n < 2 ^ 31"
  have "(word_of_nat (2 ^ 32 + n) :: u32) = word_of_nat n" by simp
  then show ?thesis using narrow_int_id [OF n] unfolding narrow_int_def by metis
qed

lemma narrow_int_neg: "2 ^ 31 \<le> n \<Longrightarrow> n < 2 ^ 32 \<Longrightarrow> narrow_int n = int n - 2 ^ 32"
proof -
  assume n: "2 ^ 31 \<le> n" "n < 2 ^ 32"
  have "(word_of_nat n :: u32) = word_of_int (int n - 2 ^ 32)" by simp
  moreover have "sint (word_of_int (int n - 2 ^ 32) :: u32) = int n - 2 ^ 32"
    using n by (subst signed_of_int, subst signed_take_bit_int_eq_self) simp_all
  ultimately show ?thesis unfolding narrow_int_def by metis
qed

lemma int32_narrow [simp]: "int32 (narrow_int n)"
  using sint_greater_eq [of "word_of_nat n :: u32"] sint_less [of "word_of_nat n :: u32"]
  by (simp add: int32_def narrow_int_def)

section \<open>Blocks of bytes\<close>

definition chunk :: "nat \<Rightarrow> nat \<Rightarrow> 'a list \<Rightarrow> 'a list" where
  "chunk off n buf = take n (drop off buf)"

definition overwrite :: "'a list \<Rightarrow> nat \<Rightarrow> 'a list \<Rightarrow> 'a list" where
  "overwrite buf off src = take off buf @ src @ drop (off + length src) buf"

text \<open>
  \<open>memcpy_out buf off n\<close> copies \<open>n\<close> bytes out of \<open>buf\<close>, \<open>memcpy_in buf off src\<close> copies \<open>src\<close>
  over \<open>buf\<close>: \<open>std::memcpy\<close> with the bounds the C++ standard requires of its caller made
  explicit.
\<close>

definition memcpy_out :: "'a list \<Rightarrow> nat \<Rightarrow> nat \<Rightarrow> 'a list result" where
  "memcpy_out buf off n =
     (if off + n \<le> length buf then Inr (chunk off n buf) else Inl (UndefinedBehaviour ''memcpy''))"

definition memcpy_in :: "'a list \<Rightarrow> nat \<Rightarrow> 'a list \<Rightarrow> 'a list result" where
  "memcpy_in buf off src =
     (if off + length src \<le> length buf then Inr (overwrite buf off src)
      else Inl (UndefinedBehaviour ''memcpy''))"

lemma memcpy_out_ok [simp, bytes_simps]:
  "off + n \<le> length buf \<Longrightarrow> memcpy_out buf off n = Inr (chunk off n buf)"
  by (simp add: memcpy_out_def)

lemma memcpy_in_ok [simp, bytes_simps]:
  "off + length src \<le> length buf \<Longrightarrow> memcpy_in buf off src = Inr (overwrite buf off src)"
  by (simp add: memcpy_in_def)

lemma length_chunk [simp, bytes_simps]: "off + n \<le> length buf \<Longrightarrow> length (chunk off n buf) = n"
  by (simp add: chunk_def)

lemma length_overwrite [simp, bytes_simps]:
  "off + length src \<le> length buf \<Longrightarrow> length (overwrite buf off src) = length buf"
  by (simp add: overwrite_def)

lemma chunk_overwrite_same [simp, bytes_simps]:
  "off + length src \<le> length buf \<Longrightarrow> n = length src \<Longrightarrow> chunk off n (overwrite buf off src) = src"
  by (simp add: chunk_def overwrite_def)

lemma nth_overwrite:
  assumes "off + length src \<le> length buf" "i < length buf"
  shows "overwrite buf off src ! i =
    (if off \<le> i \<and> i < off + length src then src ! (i - off) else buf ! i)"
  using assms by (auto simp: overwrite_def nth_append min_def)

lemma chunk_eqI:
  assumes "length buf = length buf'" "off + n \<le> length buf"
    and "\<And>i. off \<le> i \<Longrightarrow> i < off + n \<Longrightarrow> buf ! i = buf' ! i"
  shows "chunk off n buf = chunk off n buf'"
  using assms by (intro nth_equalityI) (auto simp: chunk_def)

lemma chunk_overwrite_disjoint [bytes_simps]:
  assumes "off + length src \<le> length buf" "off' + n \<le> length buf"
    and "off' + n \<le> off \<or> off + length src \<le> off'"
  shows "chunk off' n (overwrite buf off src) = chunk off' n buf"
  using assms by (intro chunk_eqI) (auto simp: nth_overwrite)

lemma chunk_overwrite_inside:
  assumes "off + n \<le> length buf" "k + length src \<le> n"
  shows "chunk off n (overwrite buf (off + k) src) = overwrite (chunk off n buf) k src"
  using assms
  by (intro nth_equalityI) (auto simp: chunk_def nth_overwrite)

lemma chunk_append1 [simp]: "off + n \<le> length xs \<Longrightarrow> chunk off n (xs @ ys) = chunk off n xs"
  by (simp add: chunk_def)

lemma chunk_append2: "length xs \<le> off \<Longrightarrow> chunk off n (xs @ ys) = chunk (off - length xs) n ys"
  by (simp add: chunk_def)

lemma chunk_whole [simp]: "n = length xs \<Longrightarrow> chunk 0 n xs = xs"
  by (simp add: chunk_def)

lemma chunk_prefix [simp]: "n = length xs \<Longrightarrow> chunk 0 n (xs @ ys) = xs"
  by (simp add: chunk_def)

lemma chunk_middle: "off = length xs \<Longrightarrow> n = length ys \<Longrightarrow> chunk off n (xs @ ys @ zs) = ys"
  by (simp add: chunk_def)

lemma overwrite_middle:
  "off = length xs \<Longrightarrow> length src = length ys \<Longrightarrow> overwrite (xs @ ys @ zs) off src = xs @ src @ zs"
  by (simp add: overwrite_def)

lemma overwrite_overwrite_adjacent:
  assumes "off + length xs + length ys \<le> length buf"
  shows "overwrite (overwrite buf off xs) (off + length xs) ys = overwrite buf off (xs @ ys)"
proof -
  from assms have "min (length buf) off = off" by simp
  then show ?thesis by (simp add: overwrite_def ac_simps)
qed

lemma chunk_chunk:
  "off + n \<le> m \<Longrightarrow> chunk off n (chunk base m buf) = chunk (base + off) n buf"
  by (simp add: chunk_def drop_take min_def add.commute)

section \<open>Strings\<close>

definition byte_of_char :: "char \<Rightarrow> byte" where
  "byte_of_char c = word_of_nat (of_char c)"

definition char_of_byte :: "byte \<Rightarrow> char" where
  "char_of_byte b = char_of (unat b)"

definition bytes_of_string :: "string \<Rightarrow> byte list" where
  "bytes_of_string s = map byte_of_char s"

definition string_of_bytes :: "byte list \<Rightarrow> string" where
  "string_of_bytes bs = map char_of_byte bs"

lemma char_of_byte_of_char [simp]: "char_of_byte (byte_of_char c) = c"
  using nat_of_char_less_256 [of c]
  by (simp add: char_of_byte_def byte_of_char_def unat_of_nat take_bit_nat_eq_self)

lemma length_bytes_of_string [simp, bytes_simps]: "length (bytes_of_string s) = length s"
  by (simp add: bytes_of_string_def)

lemma string_of_bytes_of_string [simp, bytes_simps]: "string_of_bytes (bytes_of_string s) = s"
  by (simp add: string_of_bytes_def bytes_of_string_def comp_def)

text \<open>\<open>std::to_string\<close> of an unsigned and of a signed integer.\<close>

definition digit_char :: "nat \<Rightarrow> char" where
  "digit_char d = char_of (48 + d)"

fun string_of_nat :: "nat \<Rightarrow> string" where
  "string_of_nat n =
     (if n < 10 then [digit_char n] else string_of_nat (n div 10) @ [digit_char (n mod 10)])"

declare string_of_nat.simps [simp del]

definition string_of_int :: "int \<Rightarrow> string" where
  "string_of_int i = (if i < 0 then CHR ''-'' # string_of_nat (nat (- i)) else string_of_nat (nat i))"

text \<open>A counter that has not reached its last value.\<close>

lemma max_word_Suc: "(t :: 'a::len word) \<noteq> - 1 \<Longrightarrow> s \<le> t \<longleftrightarrow> s < t + 1"
proof -
  assume "t \<noteq> - 1"
  then have "1 + t \<noteq> 0" by (simp add: add_eq_0_iff)
  then have "unat (t + 1) = Suc (unat t)" by (metis add.commute unatSuc)
  then show ?thesis by (simp add: word_le_nat_alt word_less_nat_alt less_Suc_eq_le)
qed

section \<open>Stateful code that may throw\<close>

text \<open>
  A method that changes an object and may throw: it returns the new state also when it throws, since
  what was changed before the throw stays changed.
\<close>

type_synonym ('s, 'a) effect = "'s \<Rightarrow> 'a result \<times> 's"

definition sreturn :: "'a \<Rightarrow> ('s, 'a) effect" where
  "sreturn x s = (Inr x, s)"

definition sthrow :: "error \<Rightarrow> ('s, 'a) effect" where
  "sthrow e s = (Inl e, s)"

definition sbind :: "('s, 'a) effect \<Rightarrow> ('a \<Rightarrow> ('s, 'b) effect) \<Rightarrow> ('s, 'b) effect" where
  "sbind m f s = (case m s of (Inl e, s') \<Rightarrow> (Inl e, s') | (Inr x, s') \<Rightarrow> f x s')"

definition slift :: "'a result \<Rightarrow> ('s, 'a) effect" where
  "slift r s = (r, s)"

definition sget :: "('s \<Rightarrow> 'a) \<Rightarrow> ('s, 'a) effect" where
  "sget f s = (Inr (f s), s)"

definition smodify :: "('s \<Rightarrow> 's) \<Rightarrow> ('s, unit) effect" where
  "smodify f s = (Inr (), f s)"

named_theorems method_simps \<open>evaluation of stateful code\<close>

lemma sbind_cases [method_simps]:
  "m s = (Inr x, s') \<Longrightarrow> sbind m f s = f x s'"
  "m s = (Inl e, s') \<Longrightarrow> sbind m f s = (Inl e, s')"
  by (simp_all add: sbind_def)

lemma method_prims [method_simps]:
  "sreturn x s = (Inr x, s)" "sthrow e s = (Inl e, s)" "slift r s = (r, s)" "sget f s = (Inr (f s), s)"
  "smodify g s = (Inr (), g s)"
  by (simp_all add: sreturn_def sthrow_def slift_def sget_def smodify_def)

lemma sbind_prims [simp, method_simps]:
  "sbind (sreturn x) f s = f x s" "sbind (sthrow e) f s = (Inl e, s)" "sbind (slift (Inr x)) f s = f x s"
  "sbind (slift (Inl e)) f s = (Inl e, s)" "sbind (sget g) f s = f (g s) s" "sbind (smodify h) k s = k () (h s)"
  by (simp_all add: sbind_def sreturn_def sthrow_def slift_def sget_def smodify_def)

lemma sbind_assoc: "sbind (sbind m f) g = sbind m (\<lambda>x. sbind (f x) g)"
  by (rule ext) (simp add: sbind_def split: prod.splits sum.splits)

lemma sbind_cong [fundef_cong]:
  "m s = m' s \<Longrightarrow> (\<And>x s'. m' s = (Inr x, s') \<Longrightarrow> f x s' = f' x s') \<Longrightarrow> s = t \<Longrightarrow> sbind m f s = sbind m' f' t"
  by (auto simp: sbind_def split: prod.splits sum.splits)

lemma sbind_eq_Inr [method_simps]:
  "sbind m f s = (Inr y, s'') \<longleftrightarrow> (\<exists>x s'. m s = (Inr x, s') \<and> f x s' = (Inr y, s''))"
  by (auto simp: sbind_def split: prod.splits sum.splits)

text \<open>A \<open>for\<close> loop over a container, and a loop that collects the result of each of its \<open>n\<close> rounds.\<close>

fun sfor :: "('x \<Rightarrow> ('s, unit) effect) \<Rightarrow> 'x list \<Rightarrow> ('s, unit) effect" where
  "sfor f [] = sreturn ()"
| "sfor f (x # xs) = sbind (f x) (\<lambda>_. sfor f xs)"

fun srepeat :: "nat \<Rightarrow> ('s, 'a) effect \<Rightarrow> ('s, 'a list) effect" where
  "srepeat 0 m = sreturn []"
| "srepeat (Suc n) m = sbind m (\<lambda>x. sbind (srepeat n m) (\<lambda>xs. sreturn (x # xs)))"

lemma srepeat_length: "srepeat n m s = (Inr xs, s') \<Longrightarrow> length xs = n"
  by (induction n arbitrary: xs s) (auto simp: method_simps)

text \<open>
  Code that leaves a part \<open>p\<close> of the state as it is, whether it returns or throws. \<open>keeps_rules\<close> collects the rules, so that a component's
  code is shown to keep something by \<open>intro\<close> over its text.
\<close>

definition keeps :: "('s \<Rightarrow> 'v) \<Rightarrow> ('s, 'a) effect \<Rightarrow> bool" where
  "keeps p m \<longleftrightarrow> (\<forall>s. p (snd (m s)) = p s)"

named_theorems keeps_rules \<open>code that leaves part of the state alone\<close>

lemma keepsD: "keeps p m \<Longrightarrow> m s = (r, s') \<Longrightarrow> p s' = p s"
  by (metis keeps_def snd_conv)

lemma keeps_bind [keeps_rules]: "keeps p m \<Longrightarrow> (\<And>x. keeps p (f x)) \<Longrightarrow> keeps p (sbind m f)"
  unfolding keeps_def sbind_def by (auto split: prod.splits sum.splits) (metis snd_conv)+

lemma keeps_prims [keeps_rules]:
  "keeps p (sreturn x)" "keeps p (sthrow e)" "keeps p (slift r)" "keeps p (sget g)" "(\<And>s. p (h s) = p s) \<Longrightarrow> keeps p (smodify h)"
  by (simp_all add: keeps_def method_prims)

lemma keeps_branch [keeps_rules]:
  "(b \<Longrightarrow> keeps p m) \<Longrightarrow> (\<not> b \<Longrightarrow> keeps p m') \<Longrightarrow> keeps p (if b then m else m')"
  "(\<And>y z. keeps p (f y z)) \<Longrightarrow> keeps p (case x of (y, z) \<Rightarrow> f y z)"
  "keeps p m \<Longrightarrow> (\<And>y. keeps p (g y)) \<Longrightarrow> keeps p (case opt of None \<Rightarrow> m | Some y \<Rightarrow> g y)"
  by (auto split: prod.splits option.splits)

lemma keeps_for [keeps_rules]: "(\<And>x. keeps p (f x)) \<Longrightarrow> keeps p (sfor f xs)"
  by (induction xs) (auto intro: keeps_rules)

text \<open>Vector operations with the range the C++ standard requires of their caller made explicit.\<close>

definition vec_at :: "'a list \<Rightarrow> nat \<Rightarrow> 'a result" where
  "vec_at xs i = (if i < length xs then Inr (xs ! i) else Inl (UndefinedBehaviour ''vector index''))"

definition vec_set :: "'a list \<Rightarrow> nat \<Rightarrow> 'a \<Rightarrow> 'a list result" where
  "vec_set xs i x = (if i < length xs then Inr (xs[i := x]) else Inl (UndefinedBehaviour ''vector index''))"

definition vec_insert :: "'a list \<Rightarrow> nat \<Rightarrow> 'a \<Rightarrow> 'a list result" where
  "vec_insert xs i x = (if i \<le> length xs then Inr (take i xs @ x # drop i xs) else Inl (UndefinedBehaviour ''vector iterator''))"

definition vec_erase :: "'a list \<Rightarrow> nat \<Rightarrow> 'a list result" where
  "vec_erase xs i = (if i < length xs then Inr (take i xs @ drop (Suc i) xs) else Inl (UndefinedBehaviour ''vector iterator''))"

definition vec_from :: "'a list \<Rightarrow> nat \<Rightarrow> 'a list result" where
  "vec_from xs i = (if i \<le> length xs then Inr (drop i xs) else Inl (UndefinedBehaviour ''vector iterator''))"

lemma vec_ok [simp]:
  "i < length xs \<Longrightarrow> vec_at xs i = Inr (xs ! i)"
  "i < length xs \<Longrightarrow> vec_set xs i x = Inr (xs[i := x])"
  "i \<le> length xs \<Longrightarrow> vec_insert xs i x = Inr (take i xs @ x # drop i xs)"
  "i < length xs \<Longrightarrow> vec_erase xs i = Inr (take i xs @ drop (Suc i) xs)"
  "i \<le> length xs \<Longrightarrow> vec_from xs i = Inr (drop i xs)"
  by (simp_all add: vec_at_def vec_set_def vec_insert_def vec_erase_def vec_from_def)

section \<open>Runs of a labelled transition system\<close>

inductive runs :: "('s \<Rightarrow> 'e \<Rightarrow> 's \<Rightarrow> bool) \<Rightarrow> 's \<Rightarrow> 'e list \<Rightarrow> 's \<Rightarrow> bool" for step where
  runs_Nil: "runs step s [] s"
| runs_Cons: "step s e s' \<Longrightarrow> runs step s' es s'' \<Longrightarrow> runs step s (e # es) s''"

inductive_cases runs_NilE: "runs step s [] s'"
inductive_cases runs_ConsE: "runs step s (e # es) s''"

text \<open>
  A client's view of a system that steps of others leave alone: every step outside \<open>own\<close> keeps the
  invariant \<open>inv\<close> and the view. Then whole runs do.
\<close>

locale stable_view =
  fixes step :: "'s \<Rightarrow> 'e \<Rightarrow> 's \<Rightarrow> bool" and inv :: "'s \<Rightarrow> bool" and own :: "'e \<Rightarrow> bool" and view :: "'s \<Rightarrow> 'v"
  assumes step_inv: "inv s \<Longrightarrow> \<not> own e \<Longrightarrow> step s e s' \<Longrightarrow> inv s'"
    and step_view: "inv s \<Longrightarrow> \<not> own e \<Longrightarrow> step s e s' \<Longrightarrow> view s' = view s"
begin

lemma runs_stable:
  assumes "runs step s es s'" "inv s" "\<forall>e \<in> set es. \<not> own e"
  shows "inv s' \<and> view s' = view s"
  using assms
proof induction
  case (runs_Cons s e s' es s'')
  then show ?case using step_inv [of s e s'] step_view [of s e s'] by simp
qed simp

end

end
