(* ===== verification/Keys.thy ===== *)
theory Keys
  imports Prelude
begin

text \<open>
  \<open>constants.hpp\<close> and \<open>key.hpp\<close>: the engine's size constants, record identifiers, and the
  \<open>Key\<close> variant with its three-way comparison.

  A \<open>float\<close> is its IEEE-754 binary32 bit pattern. The source compares floats by the sign of
  \<open>a - b\<close>. With gradual underflow that difference is zero only for equal values, so the sign is
  the sign of the difference of the sign-magnitude readings, and a NaN on either side compares as
  \<open>0\<close>.
\<close>

section \<open>Constants and record identifiers\<close>

definition ORDER :: nat where "ORDER = 4"
definition MIN_KEYS :: nat where "MIN_KEYS = (ORDER - 1) div 2"
definition MIN_CHILDREN :: nat where "MIN_CHILDREN = (ORDER + 1) div 2"
definition PAGE_SIZE :: nat where "PAGE_SIZE = 4096"

datatype RID = RID (rid_page_id: int) (rid_slot_id: int)

definition wf_rid :: "RID \<Rightarrow> bool" where
  "wf_rid r \<longleftrightarrow> int32 (rid_page_id r) \<and> int32 (rid_slot_id r)"

definition no_rid :: RID where
  "no_rid = RID (-1) (-1)"

lemma wf_no_rid [simp]: "wf_rid no_rid"
  by (simp add: wf_rid_def no_rid_def int32_def)

section \<open>Keys\<close>

datatype KeyTypeTag = INTEGER | FLOAT | STRING

datatype Key = KInt int | KFloat u32 | KString string

fun Key_getType :: "Key \<Rightarrow> KeyTypeTag" where
  "Key_getType (KInt _) = INTEGER"
| "Key_getType (KFloat _) = FLOAT"
| "Key_getType (KString _) = STRING"

text \<open>\<open>std::string::compare\<close>: unsigned bytes, first difference wins, then the shorter one.\<close>

fun string_compare :: "string \<Rightarrow> string \<Rightarrow> int" where
  "string_compare [] [] = 0"
| "string_compare [] (_ # _) = -1"
| "string_compare (_ # _) [] = 1"
| "string_compare (a # as) (b # bs) =
     (if (of_char a :: nat) < of_char b then -1
      else if (of_char b :: nat) < of_char a then 1
      else string_compare as bs)"

definition float_magnitude :: "u32 \<Rightarrow> int" where
  "float_magnitude w = uint w mod 2 ^ 31"

definition float_isnan :: "u32 \<Rightarrow> bool" where
  "float_isnan w \<longleftrightarrow> float_magnitude w > 0x7F800000"

definition float_reading :: "u32 \<Rightarrow> int" where
  "float_reading w = (if uint w \<ge> 2 ^ 31 then - float_magnitude w else float_magnitude w)"

definition float_compare :: "u32 \<Rightarrow> u32 \<Rightarrow> int" where
  "float_compare a b =
     (if float_isnan a \<or> float_isnan b then 0 else sgn (float_reading a - float_reading b))"

definition int_compare :: "int \<Rightarrow> int \<Rightarrow> int" where
  "int_compare a b = (if a > b then 1 else 0) - (if a < b then 1 else 0)"

fun Key_compare :: "Key \<Rightarrow> Key \<Rightarrow> int result" where
  "Key_compare (KInt a) (KInt b) = Inr (int_compare a b)"
| "Key_compare (KFloat a) (KFloat b) = Inr (float_compare a b)"
| "Key_compare (KString a) (KString b) = Inr (string_compare a b)"
| "Key_compare _ _ = Inl (RuntimeError ''Type mismatch in key comparison'')"

text \<open>
  \<open>toString\<close>. \<open>std::to_string(float)\<close> prints the exact value with six decimals (\<open>%f\<close>), ties to even: the magnitude of a finite float is
  \<open>mantissa * 2 ^ (exponent - 150)\<close>.
\<close>

definition float_millionths :: "u32 \<Rightarrow> nat" where
  "float_millionths w =
     (let m = nat (float_magnitude w); e = m div 2 ^ 23; frac = m mod 2 ^ 23;
          (mant, ex) = (if e = 0 then (frac, 1) else (frac + 2 ^ 23, e));
          n = mant * 10 ^ 6 * 2 ^ ex; d = 2 ^ 150; q = n div d; r = n mod d in
      if 2 * r > d \<or> 2 * r = d \<and> odd q then q + 1 else q)"

definition six_digits :: "nat \<Rightarrow> string" where
  "six_digits n = (let s = string_of_nat n in replicate (6 - length s) (CHR ''0'') @ s)"

definition float_to_string :: "u32 \<Rightarrow> string" where
  "float_to_string w =
     (let sign = (if uint w \<ge> 2 ^ 31 then ''-'' else []); n = float_millionths w in
      if float_isnan w then sign @ ''nan''
      else if float_magnitude w = 0x7F800000 then sign @ ''inf''
      else sign @ string_of_nat (n div 10 ^ 6) @ ''.'' @ six_digits (n mod 10 ^ 6))"

fun Key_toString :: "Key \<Rightarrow> string" where
  "Key_toString (KInt i) = string_of_int i"
| "Key_toString (KFloat w) = float_to_string w"
| "Key_toString (KString s) = s"

definition Key_less :: "Key \<Rightarrow> Key \<Rightarrow> bool result" where
  "Key_less a b = bindE (Key_compare a b) (\<lambda>c. Inr (c < 0))"

definition Key_eq :: "Key \<Rightarrow> Key \<Rightarrow> bool result" where
  "Key_eq a b = bindE (Key_compare a b) (\<lambda>c. Inr (c = 0))"

definition Key_ge :: "Key \<Rightarrow> Key \<Rightarrow> bool result" where
  "Key_ge a b = bindE (Key_compare a b) (\<lambda>c. Inr (c \<ge> 0))"

definition Key_gt :: "Key \<Rightarrow> Key \<Rightarrow> bool result" where
  "Key_gt a b = bindE (Key_compare a b) (\<lambda>c. Inr (c > 0))"

definition Key_le :: "Key \<Rightarrow> Key \<Rightarrow> bool result" where
  "Key_le a b = bindE (Key_compare a b) (\<lambda>c. Inr (c \<le> 0))"

text \<open>A key that takes part in the total order: not a NaN.\<close>

fun ordered_key :: "Key \<Rightarrow> bool" where
  "ordered_key (KFloat w) = (\<not> float_isnan w)"
| "ordered_key _ = True"

subsection \<open>String comparison is a total order\<close>

lemma string_compare_range: "string_compare a b \<in> {-1, 0, 1}"
  by (induction a b rule: string_compare.induct) auto

lemma string_compare_refl [simp]: "string_compare a a = 0"
  by (induction a) auto

lemma string_compare_eq_0 [simp]: "string_compare a b = 0 \<longleftrightarrow> a = b"
  by (induction a b rule: string_compare.induct) auto

lemma string_compare_swap: "string_compare b a = - string_compare a b"
  by (induction a b rule: string_compare.induct) auto

lemma string_compare_Nil [simp]: "\<not> string_compare a [] < 0"
  by (cases a) auto

lemma string_compare_trans:
  "string_compare a b < 0 \<Longrightarrow> string_compare b c < 0 \<Longrightarrow> string_compare a c < 0"
proof (induction a arbitrary: b c)
  case Nil
  then show ?case by (cases b; cases c) auto
next
  case (Cons x xs)
  from Cons.prems obtain y ys where b: "b = y # ys" by (cases b) auto
  from Cons.prems b obtain z zs where c: "c = z # zs" by (cases c) auto
  show ?case
    using Cons.prems Cons.IH [of ys zs] unfolding b c by (auto split: if_splits)
qed

subsection \<open>Key comparison\<close>

lemma int_compare_swap: "int_compare b a = - int_compare a b"
  by (simp add: int_compare_def)

lemma float_compare_swap: "float_compare b a = - float_compare a b"
  by (simp add: float_compare_def sgn_if)

lemma Key_compare_swap: "Key_compare b a = bindE (Key_compare a b) (\<lambda>c. Inr (- c))"
  by (cases a; cases b)
    (auto intro: int_compare_swap float_compare_swap string_compare_swap)

lemma Key_compare_ok_iff: "ok (Key_compare a b) \<longleftrightarrow> Key_getType a = Key_getType b"
  by (cases a; cases b; simp)

lemma int_compare_trans:
  "int_compare a b < 0 \<Longrightarrow> int_compare b c < 0 \<Longrightarrow> int_compare a c < 0"
  by (simp add: int_compare_def split: if_splits)

lemma float_compare_less_0:
  "float_compare a b < 0 \<longleftrightarrow>
     \<not> float_isnan a \<and> \<not> float_isnan b \<and> float_reading a < float_reading b"
  by (simp add: float_compare_def)

lemma Key_less_trans:
  assumes "Key_less a b = Inr True" "Key_less b c = Inr True"
  shows "Key_less a c = Inr True"
proof (cases a)
  case (KInt x)
  with assms obtain y z where "b = KInt y" "c = KInt z"
    by (cases b; cases c; simp add: Key_less_def)
  with assms KInt int_compare_trans show ?thesis by (simp add: Key_less_def)
next
  case (KFloat x)
  with assms obtain y z where "b = KFloat y" "c = KFloat z"
    by (cases b; cases c; simp add: Key_less_def)
  with assms KFloat show ?thesis by (simp add: Key_less_def float_compare_less_0)
next
  case (KString x)
  with assms obtain y z where "b = KString y" "c = KString z"
    by (cases b; cases c; simp add: Key_less_def)
  with assms KString string_compare_trans show ?thesis by (simp add: Key_less_def)
qed

section \<open>The order of the keys of an index\<close>

text \<open>
  The keys of one index have one type, and a NaN has no place in the order. Two keys may compare equal
  without being equal (\<open>-0.0\<close> and \<open>0.0\<close>), so keys are ordered through their rank.
\<close>

datatype key_rank = RNum int | RStr string

fun rank :: "Key \<Rightarrow> key_rank" where
  "rank (KInt i) = RNum i"
| "rank (KFloat w) = RNum (float_reading w)"
| "rank (KString s) = RStr s"

fun rank_less :: "key_rank \<Rightarrow> key_rank \<Rightarrow> bool" where
  "rank_less (RNum a) (RNum b) = (a < b)"
| "rank_less (RNum a) (RStr b) = True"
| "rank_less (RStr a) (RNum b) = False"
| "rank_less (RStr a) (RStr b) = (string_compare a b < 0)"

lemma rank_less_irrefl: "\<not> rank_less a a"
  by (cases a) auto

lemma rank_less_trans: "rank_less a b \<Longrightarrow> rank_less b c \<Longrightarrow> rank_less a c"
  by (cases a; cases b; cases c) (auto intro: string_compare_trans)

lemma rank_less_total: "a \<noteq> b \<Longrightarrow> rank_less a b \<or> rank_less b a"
proof (cases a; cases b)
  fix x y assume "a \<noteq> b" "a = RStr x" "b = RStr y"
  then show ?thesis
    using string_compare_range [of x y] string_compare_swap [of x y] by auto
qed auto

instantiation key_rank :: linorder
begin

definition less_key_rank :: "key_rank \<Rightarrow> key_rank \<Rightarrow> bool" where
  "less_key_rank a b \<longleftrightarrow> rank_less a b"

definition less_eq_key_rank :: "key_rank \<Rightarrow> key_rank \<Rightarrow> bool" where
  "less_eq_key_rank a b \<longleftrightarrow> a = b \<or> rank_less a b"

instance
  by standard
    (auto simp: less_key_rank_def less_eq_key_rank_def rank_less_irrefl
      dest: rank_less_trans rank_less_total intro: rank_less_trans)

end

definition index_key :: "KeyTypeTag \<Rightarrow> Key \<Rightarrow> bool" where
  "index_key t k \<longleftrightarrow> Key_getType k = t \<and> ordered_key k"

lemma key_order [simp]:
  assumes "index_key t a" "index_key t b"
  shows "Key_less a b = Inr (rank a < rank b)" "Key_eq a b = Inr (rank a = rank b)"
    "Key_ge a b = Inr (rank b \<le> rank a)" "Key_gt a b = Inr (rank b < rank a)"
    "Key_le a b = Inr (rank a \<le> rank b)"
proof -
  have "\<exists>c. Key_compare a b = Inr c \<and> (c < 0 \<longleftrightarrow> rank a < rank b) \<and> (c = 0 \<longleftrightarrow> rank a = rank b)"
    using assms
    by (cases a; cases b; auto simp: index_key_def less_key_rank_def int_compare_def float_compare_def sgn_if)
  then obtain c where c: "Key_compare a b = Inr c" "c < 0 \<longleftrightarrow> rank a < rank b" "c = 0 \<longleftrightarrow> rank a = rank b"
    by blast
  then show "Key_less a b = Inr (rank a < rank b)" "Key_eq a b = Inr (rank a = rank b)"
    "Key_ge a b = Inr (rank b \<le> rank a)" "Key_gt a b = Inr (rank b < rank a)"
    "Key_le a b = Inr (rank a \<le> rank b)"
    by (auto simp: Key_less_def Key_eq_def Key_ge_def Key_gt_def Key_le_def)
qed

end
