(* ===== verification/Pages.thy ===== *)
theory Pages
  imports Keys
begin

text \<open>
  \<open>page.hpp\<close> / \<open>page.cpp\<close>: the 4096-byte slotted page. Records grow down from the end of the page,
  the slot directory grows up behind the 16-byte header.

  Every \<open>memcpy\<close> whose offset depends on data is bounds-checked (\<open>memcpy_in\<close>, \<open>memcpy_out\<close>), so an
  out-of-bounds access is a value, \<open>UndefinedBehaviour\<close>. The invariant \<open>page_wf\<close> is what every
  operation keeps; under it no operation has undefined behaviour. The abstraction \<open>Page_abs\<close> reads a page as
  the list of its records with their liveness, and each operation refines one list operation.
\<close>

definition PAGE_HEADER_SIZE :: nat where "PAGE_HEADER_SIZE = 16"
definition SLOT_ENTRY_SIZE :: nat where "SLOT_ENTRY_SIZE = 5"

record SlotEntry =
  se_offset :: u16
  se_length :: u16
  se_is_active :: u8

record Page =
  pg_page_id :: u32
  pg_num_slots :: u16
  pg_free_space_offset :: u16
  pg_lsn :: u64
  pg_slot_directory :: "SlotEntry list"
  pg_data :: "byte list"

section \<open>Operations\<close>

definition Page_headerBytes :: "Page \<Rightarrow> byte list" where
  "Page_headerBytes p = le_bytes 4 (pg_page_id p) @ le_bytes 2 (pg_num_slots p)
     @ le_bytes 2 (pg_free_space_offset p) @ le_bytes 8 (pg_lsn p)"

definition Page_updateHeaderToData :: "Page \<Rightarrow> Page" where
  "Page_updateHeaderToData p = p\<lparr>pg_data := overwrite (pg_data p) 0 (Page_headerBytes p)\<rparr>"

definition Page_new :: "u32 \<Rightarrow> Page" where
  "Page_new pid = Page_updateHeaderToData
     \<lparr>pg_page_id = pid, pg_num_slots = 0, pg_free_space_offset = word_of_nat PAGE_SIZE,
      pg_lsn = 0, pg_slot_directory = [], pg_data = replicate PAGE_SIZE 0\<rparr>"

definition SlotEntry_bytes :: "SlotEntry \<Rightarrow> byte list" where
  "SlotEntry_bytes e = le_bytes 2 (se_offset e) @ le_bytes 2 (se_length e) @ [se_is_active e]"

definition SlotEntry_of_bytes :: "byte list \<Rightarrow> SlotEntry" where
  "SlotEntry_of_bytes bs =
     \<lparr>se_offset = le_word (chunk 0 2 bs), se_length = le_word (chunk 2 2 bs),
      se_is_active = le_word (chunk 4 1 bs)\<rparr>"

fun Page_writeSlots :: "byte list \<Rightarrow> nat \<Rightarrow> SlotEntry list \<Rightarrow> byte list result" where
  "Page_writeSlots d i [] = Inr d"
| "Page_writeSlots d i (e # es) =
     bindE (memcpy_in d (PAGE_HEADER_SIZE + i * SLOT_ENTRY_SIZE) (SlotEntry_bytes e))
       (\<lambda>d'. Page_writeSlots d' (Suc i) es)"

definition Page_updateSlotDirectory :: "Page \<Rightarrow> Page result" where
  "Page_updateSlotDirectory p =
     bindE (Page_writeSlots (pg_data p) 0 (pg_slot_directory p)) (\<lambda>d. Inr (p\<lparr>pg_data := d\<rparr>))"

definition Page_serialize :: "Page \<Rightarrow> (byte list \<times> Page) result" where
  "Page_serialize p =
     bindE (Page_updateSlotDirectory (Page_updateHeaderToData p))
       (\<lambda>p'. bindE (memcpy_out (pg_data p') 0 PAGE_SIZE) (\<lambda>buf. Inr (buf, p')))"

fun Page_readSlots :: "byte list \<Rightarrow> nat \<Rightarrow> nat \<Rightarrow> SlotEntry list result" where
  "Page_readSlots raw 0 i = Inr []"
| "Page_readSlots raw (Suc n) i =
     bindE (memcpy_out raw (PAGE_HEADER_SIZE + i * SLOT_ENTRY_SIZE) SLOT_ENTRY_SIZE)
       (\<lambda>bs. bindE (Page_readSlots raw n (Suc i)) (\<lambda>es. Inr (SlotEntry_of_bytes bs # es)))"

definition Page_deserialize :: "byte list \<Rightarrow> Page result" where
  "Page_deserialize raw =
     bindE (memcpy_out raw 0 PAGE_HEADER_SIZE) (\<lambda>h.
       let page_id = le_word (chunk 0 4 h); num_slots = le_word (chunk 4 2 h);
           free_space_offset = le_word (chunk 6 2 h); lsn = le_word (chunk 8 8 h) in
       bindE (memcpy_out raw 0 PAGE_SIZE) (\<lambda>d.
       bindE (Page_readSlots raw (unat (num_slots :: u16)) 0) (\<lambda>slots.
         Inr ((Page_new page_id)\<lparr>pg_num_slots := num_slots, pg_free_space_offset := free_space_offset,
               pg_lsn := lsn, pg_data := d, pg_slot_directory := slots\<rparr>))))"

text \<open>
  \<open>int record_len = record.size()\<close> narrows the size; the two sums that follow are signed, so leaving the range of \<open>int\<close> is undefined
  behaviour; a negative \<open>record_len\<close> becomes a huge \<open>size_t\<close> in the call of \<open>memcpy\<close>.
\<close>

definition Page_insertRecord :: "Page \<Rightarrow> byte list \<Rightarrow> (int \<times> Page) result" where
  "Page_insertRecord p record =
     (let record_len = narrow_int (length record);
          space_needed = record_len + int SLOT_ENTRY_SIZE;
          slot_start = int PAGE_HEADER_SIZE + (uint (pg_num_slots p) + 1) * int SLOT_ENTRY_SIZE;
          record_end = uint (pg_free_space_offset p);
          record_start = record_end - record_len in
      if \<not> int32 space_needed \<or> \<not> int32 record_start then Inl (UndefinedBehaviour ''signed overflow'')
      else if record_start < slot_start then Inr (-1, p)
      else if record_len < 0 then Inl (UndefinedBehaviour ''memcpy'')
      else
        bindE (memcpy_in (pg_data p) (nat record_start) (take (nat record_len) record)) (\<lambda>d.
          let entry = \<lparr>se_offset = word_of_int record_start, se_length = word_of_int record_len,
                       se_is_active = 1\<rparr>;
              p' = p\<lparr>pg_data := d, pg_slot_directory := pg_slot_directory p @ [entry],
                     pg_num_slots := pg_num_slots p + 1,
                     pg_free_space_offset := word_of_int record_start\<rparr> in
          Inr (uint (pg_num_slots p') - 1, p')))"

definition Page_slot :: "Page \<Rightarrow> int \<Rightarrow> SlotEntry result" where
  "Page_slot p slot_id =
     (if slot_id < 0 \<or> slot_id \<ge> uint (pg_num_slots p) then Inl (OutOfRange ''Invalid slot ID'')
      else if nat slot_id < length (pg_slot_directory p) then Inr (pg_slot_directory p ! nat slot_id)
      else Inl (UndefinedBehaviour ''slot_directory''))"

definition Page_readRecord :: "Page \<Rightarrow> int \<Rightarrow> byte list result" where
  "Page_readRecord p slot_id =
     bindE (Page_slot p slot_id) (\<lambda>entry.
       if se_is_active entry = 0 then Inl (RuntimeError ''Slot is deleted or inactive'')
       else memcpy_out (pg_data p) (unat (se_offset entry)) (unat (se_length entry)))"

definition Page_deleteRecord :: "Page \<Rightarrow> int \<Rightarrow> (bool \<times> Page) result" where
  "Page_deleteRecord p slot_id =
     bindE (Page_slot p slot_id) (\<lambda>entry.
       if se_is_active entry = 0 then Inr (False, p)
       else Inr (True, p\<lparr>pg_slot_directory :=
              (pg_slot_directory p)[nat slot_id := entry\<lparr>se_is_active := 0\<rparr>]\<rparr>))"

definition Page_patchBytes :: "Page \<Rightarrow> int \<Rightarrow> nat \<Rightarrow> byte list \<Rightarrow> Page result" where
  "Page_patchBytes p slot_id offset patch =
     bindE (Page_slot p slot_id) (\<lambda>entry.
       if offset + length patch > unat (se_length entry)
       then Inl (OutOfRange ''patchBytes: write would overrun the record's slot'')
       else bindE (memcpy_in (pg_data p) (unat (se_offset entry) + offset) patch)
              (\<lambda>d. Inr (p\<lparr>pg_data := d\<rparr>)))"

definition Page_getFreeSpace :: "Page \<Rightarrow> int" where
  "Page_getFreeSpace p = uint (pg_free_space_offset p)
     - (int PAGE_HEADER_SIZE + uint (pg_num_slots p) * int SLOT_ENTRY_SIZE)"

definition Page_setLSN :: "Page \<Rightarrow> u64 \<Rightarrow> Page" where
  "Page_setLSN p new_lsn = p\<lparr>pg_lsn := new_lsn\<rparr>"

section \<open>Invariant and abstraction\<close>

text \<open>
  \<open>slots_ok lo hi es\<close>: the records of \<open>es\<close> lie one below the other under \<open>hi\<close> and all at or
  above \<open>lo\<close>; in particular no two of them overlap.
\<close>

fun slots_ok :: "nat \<Rightarrow> nat \<Rightarrow> SlotEntry list \<Rightarrow> bool" where
  "slots_ok lo hi [] = (lo \<le> hi)"
| "slots_ok lo hi (e # es) =
     (unat (se_offset e) + unat (se_length e) \<le> hi \<and> slots_ok lo (unat (se_offset e)) es)"

definition page_wf :: "Page \<Rightarrow> bool" where
  "page_wf p \<longleftrightarrow> length (pg_data p) = PAGE_SIZE
     \<and> length (pg_slot_directory p) = unat (pg_num_slots p)
     \<and> slots_ok (unat (pg_free_space_offset p)) PAGE_SIZE (pg_slot_directory p)
     \<and> PAGE_HEADER_SIZE + unat (pg_num_slots p) * SLOT_ENTRY_SIZE \<le> unat (pg_free_space_offset p)"

definition slot_bytes :: "byte list \<Rightarrow> SlotEntry \<Rightarrow> byte list" where
  "slot_bytes d e = chunk (unat (se_offset e)) (unat (se_length e)) d"

definition Page_abs :: "Page \<Rightarrow> (bool \<times> byte list) list" where
  "Page_abs p = map (\<lambda>e. (se_is_active e \<noteq> 0, slot_bytes (pg_data p) e)) (pg_slot_directory p)"

lemmas page_consts = PAGE_SIZE_def PAGE_HEADER_SIZE_def SLOT_ENTRY_SIZE_def

lemma slots_ok_lo_le: "slots_ok lo hi es \<Longrightarrow> lo \<le> hi"
  by (induction es arbitrary: hi) (auto dest: add_leD1 order_trans)

lemma slots_ok_nth:
  "slots_ok lo hi es \<Longrightarrow> i < length es \<Longrightarrow>
     lo \<le> unat (se_offset (es ! i)) \<and> unat (se_offset (es ! i)) + unat (se_length (es ! i)) \<le> hi"
proof (induction es arbitrary: hi i)
  case (Cons e es)
  show ?case
  proof (cases i)
    case 0
    with Cons.prems slots_ok_lo_le show ?thesis by auto
  next
    case (Suc j)
    with Cons.prems Cons.IH [of "unat (se_offset e)" j] show ?thesis by auto
  qed
qed simp

lemma slots_ok_disjoint:
  "slots_ok lo hi es \<Longrightarrow> i < j \<Longrightarrow> j < length es \<Longrightarrow>
     unat (se_offset (es ! j)) + unat (se_length (es ! j)) \<le> unat (se_offset (es ! i))"
proof (induction es arbitrary: hi i j)
  case (Cons e es)
  obtain j' where j: "j = Suc j'"
    using Cons.prems by (cases j) auto
  show ?case
  proof (cases i)
    case 0
    with Cons.prems j slots_ok_nth [of lo "unat (se_offset e)" es j'] show ?thesis by auto
  next
    case (Suc i')
    with Cons.prems j Cons.IH [of "unat (se_offset e)" i' j'] show ?thesis by auto
  qed
qed simp

lemma slots_ok_snoc:
  assumes "slots_ok lo hi es" "unat (se_offset e) + unat (se_length e) \<le> lo"
  shows "slots_ok (unat (se_offset e)) hi (es @ [e])"
  using assms by (induction es arbitrary: hi) auto

lemma slots_ok_update:
  assumes "slots_ok lo hi es" "se_offset e = se_offset (es ! i)" "se_length e = se_length (es ! i)"
  shows "slots_ok lo hi (es[i := e])"
  using assms
proof (induction es arbitrary: hi i)
  case (Cons x xs)
  then show ?case by (cases i) auto
qed simp

section \<open>Serialization\<close>

lemma length_Page_headerBytes [simp, bytes_simps]: "length (Page_headerBytes p) = 16"
  by (simp add: Page_headerBytes_def)

lemma length_SlotEntry_bytes [simp, bytes_simps]: "length (SlotEntry_bytes e) = 5"
  by (simp add: SlotEntry_bytes_def)

lemma SlotEntry_of_bytes_bytes [simp, bytes_simps]: "SlotEntry_of_bytes (SlotEntry_bytes e) = e"
  by (simp add: SlotEntry_of_bytes_def SlotEntry_bytes_def chunk_append2)

lemma length_slots_bytes [simp, bytes_simps]:
  "length (concat (map SlotEntry_bytes es)) = length es * 5"
  by (induction es) auto

lemma Page_writeSlots_eq:
  "16 + (i + length es) * 5 \<le> length d \<Longrightarrow>
     Page_writeSlots d i es = Inr (overwrite d (16 + i * 5) (concat (map SlotEntry_bytes es)))"
proof (induction es arbitrary: d i)
  case Nil
  then show ?case by (simp add: overwrite_def)
next
  case (Cons e es)
  let ?d = "overwrite d (16 + i * 5) (SlotEntry_bytes e)"
  have "Page_writeSlots ?d (Suc i) es
      = Inr (overwrite ?d (16 + Suc i * 5) (concat (map SlotEntry_bytes es)))"
    using Cons.prems by (intro Cons.IH) simp
  also have "16 + Suc i * 5 = 16 + i * 5 + length (SlotEntry_bytes e)"
    by simp
  also have "overwrite ?d (16 + i * 5 + length (SlotEntry_bytes e)) (concat (map SlotEntry_bytes es))
      = overwrite d (16 + i * 5) (concat (map SlotEntry_bytes (e # es)))"
    using Cons.prems by (subst overwrite_overwrite_adjacent) auto
  finally show ?case
    using Cons.prems by (simp add: page_consts)
qed

definition Page_image :: "Page \<Rightarrow> byte list" where
  "Page_image p = Page_headerBytes p @ concat (map SlotEntry_bytes (pg_slot_directory p))
     @ drop (16 + length (pg_slot_directory p) * 5) (pg_data p)"

lemma page_wf_bounds:
  assumes "page_wf p"
  shows "length (pg_data p) = 4096" "length (pg_slot_directory p) = unat (pg_num_slots p)"
    "16 + unat (pg_num_slots p) * 5 \<le> unat (pg_free_space_offset p)"
    "unat (pg_free_space_offset p) \<le> 4096"
  using assms slots_ok_lo_le by (auto simp: page_wf_def page_consts)

lemma page_wf_slot:
  assumes "page_wf p" "i < unat (pg_num_slots p)"
  shows "16 + unat (pg_num_slots p) * 5 \<le> unat (se_offset (pg_slot_directory p ! i))"
    and "unat (se_offset (pg_slot_directory p ! i)) + unat (se_length (pg_slot_directory p ! i)) \<le> 4096"
  using assms page_wf_bounds [OF assms(1)]
    slots_ok_nth [of "unat (pg_free_space_offset p)" PAGE_SIZE "pg_slot_directory p" i]
  by (auto simp: page_wf_def page_consts)

lemma length_Page_image [simp]: "page_wf p \<Longrightarrow> length (Page_image p) = 4096"
  using page_wf_bounds [of p] by (simp add: Page_image_def)

lemma Page_serialize_eq:
  assumes "page_wf p"
  shows "Page_serialize p = Inr (Page_image p, p\<lparr>pg_data := Page_image p\<rparr>)"
proof -
  note b = page_wf_bounds [OF assms]
  let ?s = "concat (map SlotEntry_bytes (pg_slot_directory p))"
  have "overwrite (overwrite (pg_data p) 0 (Page_headerBytes p)) 16 ?s
      = overwrite (pg_data p) 0 (Page_headerBytes p @ ?s)"
    using b overwrite_overwrite_adjacent [of 0 "Page_headerBytes p" ?s "pg_data p"] by simp
  also have "\<dots> = Page_image p"
    using b by (simp add: overwrite_def Page_image_def)
  finally have img: "overwrite (overwrite (pg_data p) 0 (Page_headerBytes p)) 16 ?s = Page_image p" .
  have "Page_updateSlotDirectory (Page_updateHeaderToData p) = Inr (p\<lparr>pg_data := Page_image p\<rparr>)"
    using b img
    by (simp add: Page_updateSlotDirectory_def Page_updateHeaderToData_def Page_writeSlots_eq)
  then show ?thesis
    using assms by (simp add: Page_serialize_def PAGE_SIZE_def)
qed

lemma Page_readSlots_image:
  "16 + i * 5 = length pre \<Longrightarrow>
     Page_readSlots (pre @ concat (map SlotEntry_bytes es) @ post) (length es) i = Inr es"
proof (induction es arbitrary: pre i)
  case Nil
  show ?case by simp
next
  case (Cons e es)
  have "Page_readSlots ((pre @ SlotEntry_bytes e) @ concat (map SlotEntry_bytes es) @ post)
      (length es) (Suc i) = Inr es"
    using Cons.prems by (intro Cons.IH) simp
  then show ?case
    using Cons.prems by (simp add: page_consts chunk_middle)
qed

lemma Page_header_fields:
  "chunk 0 4 (Page_headerBytes p) = le_bytes 4 (pg_page_id p)"
  "chunk 4 2 (Page_headerBytes p) = le_bytes 2 (pg_num_slots p)"
  "chunk 6 2 (Page_headerBytes p) = le_bytes 2 (pg_free_space_offset p)"
  "chunk 8 8 (Page_headerBytes p) = le_bytes 8 (pg_lsn p)"
  by (simp_all add: Page_headerBytes_def chunk_append2)

lemma Page_deserialize_image:
  assumes "page_wf p"
  shows "Page_deserialize (Page_image p) = Inr (p\<lparr>pg_data := Page_image p\<rparr>)"
proof -
  note b = page_wf_bounds [OF assms]
  have h: "chunk 0 16 (Page_image p) = Page_headerBytes p"
    by (simp add: Page_image_def)
  have s: "Page_readSlots (Page_image p) (unat (pg_num_slots p)) 0 = Inr (pg_slot_directory p)"
    unfolding Page_image_def b(2) [symmetric] by (rule Page_readSlots_image) simp
  show ?thesis
    using assms s
    by (simp add: Page_deserialize_def page_consts h Page_header_fields Let_def Page_new_def
        Page_updateHeaderToData_def)
qed

lemma chunk_Page_image:
  assumes "page_wf p" "16 + unat (pg_num_slots p) * 5 \<le> off"
  shows "chunk off n (Page_image p) = chunk off n (pg_data p)"
  using assms page_wf_bounds [OF assms(1)]
  by (simp add: Page_image_def chunk_append2 chunk_def add.commute)

lemma page_wf_image: "page_wf p \<Longrightarrow> page_wf (p\<lparr>pg_data := Page_image p\<rparr>)"
  by (simp add: page_wf_def PAGE_SIZE_def)

lemma Page_abs_image: "page_wf p \<Longrightarrow> Page_abs (p\<lparr>pg_data := Page_image p\<rparr>) = Page_abs p"
  by (auto simp: Page_abs_def slot_bytes_def in_set_conv_nth page_wf_bounds
      intro!: chunk_Page_image page_wf_slot(1))

section \<open>Refinement of the record list\<close>

lemma length_Page_abs [simp]: "page_wf p \<Longrightarrow> length (Page_abs p) = unat (pg_num_slots p)"
  by (simp add: Page_abs_def page_wf_bounds)

lemma Page_abs_nth:
  "page_wf p \<Longrightarrow> i < unat (pg_num_slots p) \<Longrightarrow>
     Page_abs p ! i = (se_is_active (pg_slot_directory p ! i) \<noteq> 0,
                       slot_bytes (pg_data p) (pg_slot_directory p ! i))"
  by (simp add: Page_abs_def page_wf_bounds)

lemma Page_slot_eq:
  assumes "page_wf p"
  shows "Page_slot p i = (if 0 \<le> i \<and> nat i < length (Page_abs p)
     then Inr (pg_slot_directory p ! nat i) else Inl (OutOfRange ''Invalid slot ID''))"
proof -
  have "uint (pg_num_slots p) = int (unat (pg_num_slots p))" by simp
  then show ?thesis
    using assms page_wf_bounds(2) [OF assms] by (auto simp: Page_slot_def nat_less_iff)
qed

lemma page_wf_new: "page_wf (Page_new pid)"
  by (simp add: page_wf_def Page_new_def Page_updateHeaderToData_def page_consts)

lemma Page_abs_new: "Page_abs (Page_new pid) = []"
  by (simp add: Page_abs_def Page_new_def Page_updateHeaderToData_def)

lemma slot_bytes_outside:
  assumes "length d = 4096" "off + length src \<le> 4096"
    and "unat (se_offset e) + unat (se_length e) \<le> 4096"
    and "unat (se_offset e) + unat (se_length e) \<le> off \<or> off + length src \<le> unat (se_offset e)"
  shows "slot_bytes (overwrite d off src) e = slot_bytes d e"
  using assms unfolding slot_bytes_def by (intro chunk_overwrite_disjoint) auto

text \<open>A record whose size \<open>insertRecord\<close> can count: nothing is narrowed and nothing overflows.\<close>

lemma Page_insertRecord_counted:
  assumes "length r < 2 ^ 31 - 5"
  shows "Page_insertRecord p r =
     (let record_start = uint (pg_free_space_offset p) - int (length r) in
      if record_start < int PAGE_HEADER_SIZE + (uint (pg_num_slots p) + 1) * int SLOT_ENTRY_SIZE then Inr (-1, p)
      else bindE (memcpy_in (pg_data p) (nat record_start) r) (\<lambda>d.
          let p' = p\<lparr>pg_data := d, pg_slot_directory := pg_slot_directory p @
                       [\<lparr>se_offset = word_of_int record_start, se_length = word_of_int (int (length r)), se_is_active = 1\<rparr>],
                     pg_num_slots := pg_num_slots p + 1, pg_free_space_offset := word_of_int record_start\<rparr> in
          Inr (uint (pg_num_slots p') - 1, p')))"
proof -
  have n: "narrow_int (length r) = int (length r)" using assms by (intro narrow_int_id) simp
  have f: "0 \<le> uint (pg_free_space_offset p)" "uint (pg_free_space_offset p) < 65536"
    using unsigned_less [of "pg_free_space_offset p", where ?'a = int] by simp_all
  have l: "int (length r) < 2147483643" using assms by simp
  have "int32 (int (length r) + int SLOT_ENTRY_SIZE)" using l by (simp add: int32_def SLOT_ENTRY_SIZE_def)
  moreover have "- 2147483648 \<le> uint (pg_free_space_offset p) - int (length r)" "uint (pg_free_space_offset p) - int (length r) < 2147483648"
    using f l by linarith+
  then have "int32 (uint (pg_free_space_offset p) - int (length r))" unfolding int32_def by auto
  ultimately show ?thesis unfolding Page_insertRecord_def Let_def n by simp
qed

lemma Page_insertRecord_full:
  assumes "length r < 2 ^ 31 - 5" "Page_getFreeSpace p < int (length r) + int SLOT_ENTRY_SIZE"
  shows "Page_insertRecord p r = Inr (-1, p)"
  unfolding Page_insertRecord_counted [OF assms(1)]
  using assms(2) by (simp add: Page_getFreeSpace_def page_consts Let_def)

lemma Page_insertRecord_room:
  assumes wf: "page_wf p" and room: "int (length r) + int SLOT_ENTRY_SIZE \<le> Page_getFreeSpace p"
  obtains p' where "Page_insertRecord p r = Inr (int (length (Page_abs p)), p')"
    and "page_wf p'" "Page_abs p' = Page_abs p @ [(True, r)]"
    and "pg_page_id p' = pg_page_id p" "pg_lsn p' = pg_lsn p"
proof
  note b = page_wf_bounds [OF wf]
  let ?n = "unat (pg_num_slots p)" and ?f = "unat (pg_free_space_offset p)"
  let ?s = "?f - length r"
  let ?e = "\<lparr>se_offset = word_of_nat ?s, se_length = word_of_nat (length r), se_is_active = 1\<rparr> :: SlotEntry"
  let ?p = "p\<lparr>pg_data := overwrite (pg_data p) ?s r, pg_slot_directory := pg_slot_directory p @ [?e],
              pg_num_slots := pg_num_slots p + 1, pg_free_space_offset := word_of_nat ?s\<rparr>"
  have fit: "16 + (?n + 1) * 5 + length r \<le> ?f"
  proof -
    have u: "uint (pg_free_space_offset p) = int ?f" "uint (pg_num_slots p) = int ?n"
      by simp_all
    from room show ?thesis
      by (simp add: Page_getFreeSpace_def page_consts) (use u in linarith)
  qed
  have small: "?n + 1 < 65536" "?s < 65536" "length r < 65536"
    using fit b by simp_all
  have us: "unat (word_of_nat ?s :: u16) = ?s" "unat (word_of_nat (length r) :: u16) = length r"
    using small by (simp_all add: unat_of_nat take_bit_nat_eq_self)
  have un: "unat (pg_num_slots p + 1) = ?n + 1"
    using small by (simp add: unat_word_ariths)
  have ids: "int ?f - int (length r) = int ?s"
    using fit by simp
  have ok: "slots_ok ?s PAGE_SIZE (pg_slot_directory p @ [?e])"
    using wf fit us slots_ok_snoc [of ?f PAGE_SIZE "pg_slot_directory p" ?e]
    by (simp add: page_wf_def)
  show "Page_insertRecord p r = Inr (int (length (Page_abs p)), ?p)"
  proof -
    have u: "uint (pg_free_space_offset p) = int ?f" "uint (pg_num_slots p) = int ?n"
        "uint (pg_num_slots p + 1) = int (?n + 1)"
      unfolding un [symmetric] by simp_all
    have start: "uint (pg_free_space_offset p) - int (length r) = int ?s"
      unfolding u by (rule ids)
    have "int (16 + (?n + 1) * 5) \<le> int ?s"
      using fit by (simp only: of_nat_le_iff)
    then have c: "\<not> int ?s < int PAGE_HEADER_SIZE + (uint (pg_num_slots p) + 1) * int SLOT_ENTRY_SIZE"
      unfolding u page_consts by (simp only: of_nat_add of_nat_mult of_nat_1 not_less)
    have m: "memcpy_in (pg_data p) ?s r = Inr (overwrite (pg_data p) ?s r)"
      using b fit by simp
    have i: "uint (pg_num_slots p + 1) - 1 = int (length (Page_abs p))"
      unfolding u using wf by simp
    have sel: "pg_num_slots ?p = pg_num_slots p + 1" by simp
    have "length r < 2 ^ 31 - 5" using fit b by simp
    note counted = Page_insertRecord_counted [OF this]
    show ?thesis
      unfolding counted Let_def start
      by (simp only: c if_False nat_int m bindE_Inr of_int_of_nat_eq)
        (simp only: sel i)
  qed
  show wfp: "page_wf ?p"
    using wf b fit us un ok by (simp add: page_wf_def page_consts)
  have old: "slot_bytes (overwrite (pg_data p) ?s r) e = slot_bytes (pg_data p) e"
    if "e \<in> set (pg_slot_directory p)" for e
  proof -
    from that obtain i where i: "i < ?n" "e = pg_slot_directory p ! i"
      using b by (auto simp: in_set_conv_nth)
    then have "?f \<le> unat (se_offset e) \<and> unat (se_offset e) + unat (se_length e) \<le> 4096"
      using wf slots_ok_nth [of ?f PAGE_SIZE "pg_slot_directory p" i]
      by (simp add: page_wf_def page_consts)
    then show ?thesis
      using b fit by (intro slot_bytes_outside) auto
  qed
  show "Page_abs ?p = Page_abs p @ [(True, r)]"
    using b fit us old by (simp add: Page_abs_def slot_bytes_def)
qed simp_all

lemma Page_readRecord_eq:
  assumes "page_wf p"
  shows "Page_readRecord p i =
    (if 0 \<le> i \<and> nat i < length (Page_abs p)
     then (if fst (Page_abs p ! nat i) then Inr (snd (Page_abs p ! nat i))
           else Inl (RuntimeError ''Slot is deleted or inactive''))
     else Inl (OutOfRange ''Invalid slot ID''))"
  using assms page_wf_slot [OF assms, of "nat i"] page_wf_bounds(1) [OF assms]
  by (simp add: Page_readRecord_def Page_slot_eq Page_abs_nth slot_bytes_def)

lemma Page_deleteRecord_eq:
  assumes wf: "page_wf p" and i: "0 \<le> i" "nat i < length (Page_abs p)"
  obtains p' where "Page_deleteRecord p i = Inr (fst (Page_abs p ! nat i), p')"
    and "page_wf p'" "Page_abs p' = (Page_abs p)[nat i := (False, snd (Page_abs p ! nat i))]"
    and "pg_page_id p' = pg_page_id p" "pg_lsn p' = pg_lsn p"
proof (cases "fst (Page_abs p ! nat i)")
  case False
  have "(Page_abs p)[nat i := (False, snd (Page_abs p ! nat i))] = Page_abs p"
    using False by (metis list_update_id prod.collapse)
  then show thesis
    using that [of p] False wf i by (simp add: Page_deleteRecord_def Page_slot_eq Page_abs_nth)
next
  case True
  let ?e = "(pg_slot_directory p ! nat i)\<lparr>se_is_active := 0\<rparr>"
  let ?p = "p\<lparr>pg_slot_directory := (pg_slot_directory p)[nat i := ?e]\<rparr>"
  have "page_wf ?p"
    using wf by (auto simp: page_wf_def intro: slots_ok_update)
  moreover have "Page_abs ?p = (Page_abs p)[nat i := (False, snd (Page_abs p ! nat i))]"
    using wf i by (simp add: Page_abs_def map_update slot_bytes_def page_wf_bounds)
  moreover have "Page_deleteRecord p i = Inr (True, ?p)"
    using True wf i by (simp add: Page_deleteRecord_def Page_slot_eq Page_abs_nth)
  ultimately show thesis
    using that [of ?p] True by simp
qed

lemma Page_patchBytes_ok:
  assumes wf: "page_wf p" and i: "0 \<le> i" "nat i < length (Page_abs p)"
    and fit: "k + length patch \<le> length (snd (Page_abs p ! nat i))"
  obtains p' where "Page_patchBytes p i k patch = Inr p'" and "page_wf p'"
    and "Page_abs p' = (Page_abs p)[nat i :=
           (fst (Page_abs p ! nat i), overwrite (snd (Page_abs p ! nat i)) k patch)]"
    and "pg_page_id p' = pg_page_id p" "pg_lsn p' = pg_lsn p"
proof
  note b = page_wf_bounds [OF wf]
  let ?es = "pg_slot_directory p" and ?n = "nat i"
  let ?e = "?es ! ?n"
  let ?off = "unat (se_offset ?e) + k"
  let ?p = "p\<lparr>pg_data := overwrite (pg_data p) ?off patch\<rparr>"
  have n: "?n < length ?es" "?n < unat (pg_num_slots p)"
    using i wf b by simp_all
  have e: "unat (se_offset ?e) + unat (se_length ?e) \<le> 4096" "k + length patch \<le> unat (se_length ?e)"
    using page_wf_slot [OF wf n(2)] fit wf n b by (auto simp: Page_abs_nth slot_bytes_def)
  have abs_e: "snd (Page_abs p ! ?n) = slot_bytes (pg_data p) ?e"
    using wf n by (simp add: Page_abs_nth)
  show "Page_patchBytes p i k patch = Inr ?p"
    using wf i e b by (simp add: Page_patchBytes_def Page_slot_eq)
  show "page_wf ?p"
    using wf b e by (simp add: page_wf_def)
  show "Page_abs ?p = (Page_abs p)[?n := (fst (Page_abs p ! ?n), overwrite (snd (Page_abs p ! ?n)) k patch)]"
    (is "?l = ?r")
  proof (rule nth_equalityI)
    fix j assume j: "j < length ?l"
    then have j': "j < unat (pg_num_slots p)" "j < length ?es"
      using b by (simp_all add: Page_abs_def)
    have bound: "unat (se_offset (?es ! j)) + unat (se_length (?es ! j)) \<le> 4096"
      by (rule page_wf_slot(2) [OF wf j'(1)])
    show "?l ! j = ?r ! j"
    proof (cases "j = ?n")
      case True
      have "slot_bytes (overwrite (pg_data p) ?off patch) ?e = overwrite (slot_bytes (pg_data p) ?e) k patch"
        unfolding slot_bytes_def using e b by (intro chunk_overwrite_inside) auto
      with True n wf j' show ?thesis
        by (simp add: Page_abs_def abs_e [unfolded Page_abs_def] b)
    next
      case False
      have "slot_bytes (overwrite (pg_data p) ?off patch) (?es ! j) = slot_bytes (pg_data p) (?es ! j)"
      proof (rule slot_bytes_outside)
        have "slots_ok (unat (pg_free_space_offset p)) PAGE_SIZE ?es"
          using wf by (simp add: page_wf_def)
        then show "unat (se_offset (?es ! j)) + unat (se_length (?es ! j)) \<le> ?off
            \<or> ?off + length patch \<le> unat (se_offset (?es ! j))"
          using False slots_ok_disjoint [of _ _ ?es ?n j] slots_ok_disjoint [of _ _ ?es j ?n] n j' e
          by (cases "j < ?n") (force simp: not_less)+
      qed (use b e bound in auto)
      with False j' show ?thesis
        by (simp add: Page_abs_def)
    qed
  qed (simp add: Page_abs_def)
qed simp_all

section \<open>The interface a page offers to its clients\<close>

text \<open>
  What the record manager relies on: a page is a list of records with a liveness flag; insertion
  appends (or reports a full page), reads see exactly that list, deletion clears a flag and a patch
  overwrites part of one record.
\<close>

locale slotted_store =
  fixes invar :: "'p \<Rightarrow> bool"
    and records :: "'p \<Rightarrow> (bool \<times> byte list) list"
    and insert_rec :: "'p \<Rightarrow> byte list \<Rightarrow> (int \<times> 'p) result"
    and read_rec :: "'p \<Rightarrow> int \<Rightarrow> byte list result"
    and delete_rec :: "'p \<Rightarrow> int \<Rightarrow> (bool \<times> 'p) result"
    and patch_rec :: "'p \<Rightarrow> int \<Rightarrow> nat \<Rightarrow> byte list \<Rightarrow> 'p result"
  assumes insert_cases: "invar p \<Longrightarrow> length r < 2 ^ 31 - 5 \<Longrightarrow> insert_rec p r = Inr (-1, p) \<or>
      (\<exists>p'. insert_rec p r = Inr (int (length (records p)), p') \<and> invar p'
         \<and> records p' = records p @ [(True, r)])"
    and read_eq: "invar p \<Longrightarrow> read_rec p i =
      (if 0 \<le> i \<and> nat i < length (records p)
       then (if fst (records p ! nat i) then Inr (snd (records p ! nat i))
             else Inl (RuntimeError ''Slot is deleted or inactive''))
       else Inl (OutOfRange ''Invalid slot ID''))"
    and delete_out: "invar p \<Longrightarrow> \<not> (0 \<le> i \<and> nat i < length (records p)) \<Longrightarrow>
      delete_rec p i = Inl (OutOfRange ''Invalid slot ID'')"
    and delete_in: "invar p \<Longrightarrow> 0 \<le> i \<Longrightarrow> nat i < length (records p) \<Longrightarrow>
      (\<exists>p'. delete_rec p i = Inr (fst (records p ! nat i), p') \<and> invar p'
         \<and> records p' = (records p)[nat i := (False, snd (records p ! nat i))])"
    and patch_in: "invar p \<Longrightarrow> 0 \<le> i \<Longrightarrow> nat i < length (records p) \<Longrightarrow>
      k + length s \<le> length (snd (records p ! nat i)) \<Longrightarrow>
      (\<exists>p'. patch_rec p i k s = Inr p' \<and> invar p'
         \<and> records p' = (records p)[nat i := (fst (records p ! nat i), overwrite (snd (records p ! nat i)) k s)])"
begin

lemma read_other:
  assumes "invar p" "invar p'" "length (records p) \<le> length (records p')"
    and "\<And>n. n < length (records p) \<Longrightarrow> int n \<noteq> i \<Longrightarrow> records p' ! n = records p ! n"
    and "\<And>n. n < length (records p') \<Longrightarrow> int n \<noteq> i \<Longrightarrow> n < length (records p)" "j \<noteq> i"
  shows "read_rec p' j = read_rec p j"
  using assms by (auto simp: read_eq)

lemma insert_then_read:
  assumes "invar p" "length r < 2 ^ 31 - 5" "insert_rec p r = Inr (i, p')" "i \<noteq> -1"
  shows "invar p' \<and> read_rec p' i = Inr r \<and> (\<forall>j. j \<noteq> i \<longrightarrow> read_rec p' j = read_rec p j)"
proof -
  from insert_cases [OF assms(1,2)] assms(3,4)
  have p': "invar p'" "records p' = records p @ [(True, r)]" "i = int (length (records p))"
    by auto
  then show ?thesis
    using assms(1) by (auto simp: read_eq nth_append intro!: read_other [where i = i])
qed

lemma delete_then_read:
  assumes "invar p" "delete_rec p i = Inr (b, p')"
  shows "invar p' \<and> (b \<longleftrightarrow> ok (read_rec p i))
     \<and> read_rec p' i = Inl (RuntimeError ''Slot is deleted or inactive'')
     \<and> (\<forall>j. j \<noteq> i \<longrightarrow> read_rec p' j = read_rec p j)"
proof -
  from assms delete_out have i: "0 \<le> i" "nat i < length (records p)"
    by (metis Inl_Inr_False)+
  with delete_in [OF assms(1) i] assms(2)
  have p': "invar p'" "records p' = (records p)[nat i := (False, snd (records p ! nat i))]"
    and b: "b = fst (records p ! nat i)"
    by auto
  then show ?thesis
    using assms(1) i by (auto simp: read_eq nth_list_update intro!: read_other [where i = i])
qed

lemma patch_then_read:
  assumes "invar p" "read_rec p i = Inr r" "k + length s \<le> length r"
  shows "\<exists>p'. patch_rec p i k s = Inr p' \<and> invar p' \<and> read_rec p' i = Inr (overwrite r k s)
     \<and> (\<forall>j. j \<noteq> i \<longrightarrow> read_rec p' j = read_rec p j)"
proof -
  from assms(1,2) have i: "0 \<le> i" "nat i < length (records p)" "records p ! nat i = (True, r)"
    by (auto simp: read_eq split: if_splits intro: prod_eqI)
  with patch_in [OF assms(1) i(1,2), of k s] assms(3)
  obtain p' where p': "patch_rec p i k s = Inr p'" "invar p'"
      "records p' = (records p)[nat i := (True, overwrite r k s)]"
    by auto
  then show ?thesis
    using assms(1) i by (auto simp: read_eq nth_list_update intro!: exI [of _ p'] read_other [where i = i])
qed

end

interpretation pg: slotted_store page_wf Page_abs Page_insertRecord Page_readRecord
  Page_deleteRecord Page_patchBytes
proof (unfold_locales, goal_cases)
  case (1 p r)
  then show ?case
    using Page_insertRecord_full Page_insertRecord_room
    by (metis linorder_not_less)
next
  case (2 p i)
  then show ?case by (rule Page_readRecord_eq)
next
  case (3 p i)
  then show ?case by (simp add: Page_deleteRecord_def Page_slot_eq)
next
  case (4 p i)
  then show ?case by (metis Page_deleteRecord_eq)
next
  case (5 p i k s)
  then show ?case by (metis Page_patchBytes_ok)
qed

section \<open>Properties\<close>

text \<open>
  C20: Inserting a record whose size fits \<open>int\<close> (fewer than \<open>2 ^ 31 - 5\<close> bytes, so that \<open>record_len\<close> and \<open>space_needed\<close> do not overflow) into a
  well-formed page either reports a full page (\<open>-1\<close>, page unchanged), exactly when the free space is smaller than the record plus a slot entry, or returns
  the next slot id; then the page is still well-formed, reading that slot returns the record's bytes, and
  every other slot reads as before.
\<close>

theorem Page_insert_read:
  assumes "page_wf p" "length r < 2 ^ 31 - 5"
  shows "(Page_getFreeSpace p < int (length r) + int SLOT_ENTRY_SIZE \<longrightarrow>
            Page_insertRecord p r = Inr (-1, p))
     \<and> (int (length r) + int SLOT_ENTRY_SIZE \<le> Page_getFreeSpace p \<longrightarrow>
         (\<exists>p'. Page_insertRecord p r = Inr (uint (pg_num_slots p), p') \<and> page_wf p'
            \<and> Page_readRecord p' (uint (pg_num_slots p)) = Inr r
            \<and> (\<forall>j. j \<noteq> uint (pg_num_slots p) \<longrightarrow> Page_readRecord p' j = Page_readRecord p j)))"
proof (intro conjI impI)
  assume "int (length r) + int SLOT_ENTRY_SIZE \<le> Page_getFreeSpace p"
  from assms(1) this obtain p' where ins: "Page_insertRecord p r = Inr (uint (pg_num_slots p), p')"
    by (rule Page_insertRecord_room) (simp add: assms)
  have "uint (pg_num_slots p) \<noteq> -1"
    using uint_ge_0 [of "pg_num_slots p"] by linarith
  with ins pg.insert_then_read [OF assms ins]
  show "\<exists>p'. Page_insertRecord p r = Inr (uint (pg_num_slots p), p') \<and> page_wf p'
      \<and> Page_readRecord p' (uint (pg_num_slots p)) = Inr r
      \<and> (\<forall>j. j \<noteq> uint (pg_num_slots p) \<longrightarrow> Page_readRecord p' j = Page_readRecord p j)"
    by auto
qed (rule Page_insertRecord_full [OF assms(2)])

theorem Page_insert_read_witness:
  "page_wf (Page_new 7) \<and> (\<exists>p'. Page_insertRecord (Page_new 7) [1, 2, 3] = Inr (0, p') \<and> page_wf p'
     \<and> Page_readRecord p' 0 = Inr [1, 2, 3])"
proof -
  have "int (length [1, 2, 3 :: byte]) + int SLOT_ENTRY_SIZE \<le> Page_getFreeSpace (Page_new 7)"
      "uint (pg_num_slots (Page_new 7)) = 0" "length [1, 2, 3 :: byte] < 2 ^ 31 - 5"
    by (simp_all add: Page_getFreeSpace_def Page_new_def Page_updateHeaderToData_def page_consts)
  with Page_insert_read [OF page_wf_new, of "[1, 2, 3]" 7] page_wf_new [of 7]
  show ?thesis by auto
qed

text \<open>
  C23: the size of a record is narrowed to \<open>int\<close> without a check. On every well-formed page a record of \<open>2 ^ 31 - 5\<close> to \<open>2 ^ 32 - 5\<close> bytes runs into undefined
  behaviour (a signed overflow, or a \<open>memcpy\<close> of a negative length), and a record of \<open>2 ^ 32 + n\<close> bytes is treated as one of \<open>n\<close>: when \<open>n\<close> bytes fit, the call
  succeeds and the slot holds the first \<open>n\<close> bytes only.
\<close>

theorem Page_insert_narrows:
  assumes "page_wf p"
  shows "(2 ^ 31 - 5 \<le> length r \<and> length r \<le> 2 ^ 32 - 5 \<longrightarrow> \<not> no_ub (Page_insertRecord p r))
    \<and> (int n + int SLOT_ENTRY_SIZE \<le> Page_getFreeSpace p \<and> length r = 2 ^ 32 + n \<longrightarrow>
        (\<exists>p'. Page_insertRecord p r = Inr (uint (pg_num_slots p), p') \<and> Page_readRecord p' (uint (pg_num_slots p)) = Inr (take n r)))"
proof (intro conjI impI)
  note b = page_wf_bounds [OF assms]
  assume len: "2 ^ 31 - 5 \<le> length r \<and> length r \<le> 2 ^ 32 - 5"
  show "\<not> no_ub (Page_insertRecord p r)"
  proof (cases "length r < 2 ^ 31")
    case True
    then have "narrow_int (length r) = int (length r)" by (rule narrow_int_id)
    then show ?thesis using len by (simp add: Page_insertRecord_def Let_def int32_def SLOT_ENTRY_SIZE_def)
  next
    case False
    have "narrow_int (length r) = int (length r) - 2 ^ 32" using len False by (intro narrow_int_neg) auto
    moreover have "int (16 + unat (pg_num_slots p) * 5) \<le> int (unat (pg_free_space_offset p))" using b by (simp only: of_nat_le_iff)
    ultimately show ?thesis using len False by (simp add: Page_insertRecord_def Let_def page_consts)
  qed
next
  assume n: "int n + int SLOT_ENTRY_SIZE \<le> Page_getFreeSpace p \<and> length r = 2 ^ 32 + n"
  have "uint (pg_free_space_offset p) < 65536" using unsigned_less [of "pg_free_space_offset p", where ?'a = int] by simp
  then have "int n < 65536" using n uint_ge_0 [of "pg_num_slots p"] unfolding Page_getFreeSpace_def page_consts by linarith
  then have le: "n < 2 ^ 31" by simp
  have len: "length (take n r) = n" using n by simp
  have "narrow_int (length r) = int n" using n narrow_int_wrap [OF le] by metis
  then have "Page_insertRecord p r = Page_insertRecord p (take n r)"
    using le len by (simp add: Page_insertRecord_def narrow_int_id Let_def)
  moreover have "int (length (take n r)) + int SLOT_ENTRY_SIZE \<le> Page_getFreeSpace p" using n len by simp
  then obtain p' where ins: "Page_insertRecord p (take n r) = Inr (uint (pg_num_slots p), p')"
    by (rule Page_insertRecord_room [OF assms]) (simp add: assms)
  have small: "length (take n r) < 2 ^ 31 - 5" using \<open>int n < 65536\<close> len by simp
  have "uint (pg_num_slots p) \<noteq> -1" using uint_ge_0 [of "pg_num_slots p"] by linarith
  with pg.insert_then_read [OF assms small ins] have "Page_readRecord p' (uint (pg_num_slots p)) = Inr (take n r)" by simp
  ultimately show "\<exists>p'. Page_insertRecord p r = Inr (uint (pg_num_slots p), p') \<and> Page_readRecord p' (uint (pg_num_slots p)) = Inr (take n r)" using ins by auto
qed

theorem Page_insert_narrows_witness:
  "\<not> no_ub (Page_insertRecord (Page_new 7) (replicate (2 ^ 31) 1))
    \<and> (\<exists>p'. Page_insertRecord (Page_new 7) (replicate (2 ^ 32 + 3) 1) = Inr (0, p') \<and> Page_readRecord p' 0 = Inr (replicate 3 1))"
proof -
  have "int 3 + int SLOT_ENTRY_SIZE \<le> Page_getFreeSpace (Page_new 7)" "uint (pg_num_slots (Page_new 7)) = 0"
    by (simp_all add: Page_getFreeSpace_def Page_new_def Page_updateHeaderToData_def page_consts)
  then show ?thesis
    using Page_insert_narrows [OF page_wf_new, of "replicate (2 ^ 31) 1" 7 0] Page_insert_narrows [OF page_wf_new, of "replicate (2 ^ 32 + 3) 1" 7 3]
    by simp
qed

text \<open>
  Deleting a slot of a well-formed page reports whether the slot was live, makes reading it
  an error, and changes no other slot.
\<close>

theorem Page_delete_read:
  assumes "page_wf p" "Page_deleteRecord p i = Inr (b, p')"
  shows "page_wf p' \<and> (b \<longleftrightarrow> ok (Page_readRecord p i))
     \<and> Page_readRecord p' i = Inl (RuntimeError ''Slot is deleted or inactive'')
     \<and> (\<forall>j. j \<noteq> i \<longrightarrow> Page_readRecord p' j = Page_readRecord p j)"
  using assms by (rule pg.delete_then_read)

text \<open>A page holding one three-byte record, and the same page with the record deleted.\<close>

definition sample_page :: Page where
  "sample_page = (case Page_insertRecord (Page_new 7) [1, 2, 3] of Inr (_, p) \<Rightarrow> p)"

lemma sample_page_wf: "page_wf sample_page" and sample_page_abs: "Page_abs sample_page = [(True, [1, 2, 3])]"
proof -
  have "int (length [1, 2, 3 :: byte]) + int SLOT_ENTRY_SIZE \<le> Page_getFreeSpace (Page_new 7)"
    by (simp add: Page_getFreeSpace_def Page_new_def Page_updateHeaderToData_def page_consts)
  with page_wf_new [of 7] obtain p'
    where "Page_insertRecord (Page_new 7) [1, 2, 3] = Inr (int (length (Page_abs (Page_new 7))), p')"
      "page_wf p'" "Page_abs p' = Page_abs (Page_new 7) @ [(True, [1, 2, 3])]"
    by (rule Page_insertRecord_room)
  then show "page_wf sample_page" "Page_abs sample_page = [(True, [1, 2, 3])]"
    by (simp_all add: sample_page_def Page_abs_new)
qed

theorem Page_delete_read_witness:
  "\<exists>p'. page_wf sample_page \<and> Page_deleteRecord sample_page 0 = Inr (True, p')
     \<and> Page_readRecord p' 0 = Inl (RuntimeError ''Slot is deleted or inactive'')"
proof -
  obtain p' where d: "Page_deleteRecord sample_page 0 = Inr (True, p')"
    using pg.delete_in [OF sample_page_wf, of 0] by (auto simp: sample_page_abs)
  with Page_delete_read [OF sample_page_wf d] sample_page_wf show ?thesis by blast
qed

text \<open>
  Patching bytes inside a live record of a well-formed page succeeds, overwrites exactly
  those bytes of that record, and changes no other slot (the in-place delete stamp of MVCC relies on
  this).
\<close>

theorem Page_patch_read:
  assumes "page_wf p" "Page_readRecord p i = Inr r" "k + length s \<le> length r"
  shows "\<exists>p'. Page_patchBytes p i k s = Inr p' \<and> page_wf p'
     \<and> Page_readRecord p' i = Inr (overwrite r k s)
     \<and> (\<forall>j. j \<noteq> i \<longrightarrow> Page_readRecord p' j = Page_readRecord p j)"
  using assms by (rule pg.patch_then_read)

theorem Page_patch_read_witness:
  "\<exists>p'. Page_patchBytes sample_page 0 1 [9] = Inr p' \<and> Page_readRecord p' 0 = Inr [1, 9, 3]"
proof -
  have "Page_readRecord sample_page 0 = Inr [1, 2, 3]"
    by (simp add: Page_readRecord_eq sample_page_wf sample_page_abs)
  from Page_patch_read [OF sample_page_wf this, of 1 "[9]"] show ?thesis
    by (auto simp: overwrite_def)
qed

text \<open>
  Serializing a well-formed page gives a 4096-byte buffer from which deserializing rebuilds
  the page: same header, same slot directory, every slot reading the same bytes.
\<close>

theorem Page_serialize_roundtrip:
  assumes "page_wf p"
  shows "\<exists>buf p'. Page_serialize p = Inr (buf, p') \<and> length buf = PAGE_SIZE
     \<and> Page_deserialize buf = Inr p' \<and> page_wf p'
     \<and> pg_page_id p' = pg_page_id p \<and> pg_lsn p' = pg_lsn p
     \<and> pg_slot_directory p' = pg_slot_directory p
     \<and> (\<forall>i. Page_readRecord p' i = Page_readRecord p i)"
proof (intro exI conjI allI)
  show "Page_serialize p = Inr (Page_image p, p\<lparr>pg_data := Page_image p\<rparr>)"
    using assms by (rule Page_serialize_eq)
  show "Page_deserialize (Page_image p) = Inr (p\<lparr>pg_data := Page_image p\<rparr>)"
    using assms by (rule Page_deserialize_image)
  show "page_wf (p\<lparr>pg_data := Page_image p\<rparr>)"
    using assms by (rule page_wf_image)
  show "Page_readRecord (p\<lparr>pg_data := Page_image p\<rparr>) i = Page_readRecord p i" for i
    using assms page_wf_image [OF assms] Page_abs_image [OF assms] by (simp only: Page_readRecord_eq)
qed (use assms in \<open>simp_all add: PAGE_SIZE_def\<close>)

theorem Page_serialize_roundtrip_witness:
  "\<exists>buf p'. Page_serialize sample_page = Inr (buf, p') \<and> Page_deserialize buf = Inr p'
     \<and> Page_readRecord p' 0 = Inr [1, 2, 3]"
proof -
  have "Page_readRecord sample_page 0 = Inr [1, 2, 3]"
    by (simp add: Page_readRecord_eq sample_page_wf sample_page_abs)
  with Page_serialize_roundtrip [OF sample_page_wf] show ?thesis by fastforce
qed



end
