(* ===== verification/Eviction.thy ===== *)
theory Eviction
  imports Pages
begin

text \<open>
  \<open>evictionpolicy.hpp\<close> / \<open>evictionpolicy.cpp\<close>: choosing the buffer frame to evict, by clock
  sweep or by LRU-2. \<open>BufferFrame\<close> is the frame of \<open>bufferpool.hpp\<close>. The contract the buffer pool
  relies on is the locale \<open>eviction_policy\<close>, interpreted for both policies.
\<close>

record BufferFrame =
  fr_page :: "Page option"
  fr_page_id :: int
  fr_dirty :: bool
  fr_pin_count :: int
  fr_before_image :: "byte list"
  fr_before_image_valid :: bool

definition BufferFrame_new :: BufferFrame where
  "BufferFrame_new = \<lparr>fr_page = None, fr_page_id = -1, fr_dirty = False, fr_pin_count = 0,
     fr_before_image = [], fr_before_image_valid = False\<rparr>"

definition ensureSized :: "'a \<Rightarrow> nat \<Rightarrow> 'a list \<Rightarrow> 'a list" where
  "ensureSized x n xs = (if length xs < n then xs @ replicate (n - length xs) x else xs)"

section \<open>Clock sweep\<close>

record ClockSweepPolicy =
  cs_ref_bits :: "bool list"
  cs_clock_hand :: nat

definition ClockSweepPolicy_new :: ClockSweepPolicy where
  "ClockSweepPolicy_new = \<lparr>cs_ref_bits = [], cs_clock_hand = 0\<rparr>"

definition ClockSweepPolicy_recordAccess :: "ClockSweepPolicy \<Rightarrow> nat \<Rightarrow> ClockSweepPolicy" where
  "ClockSweepPolicy_recordAccess p idx =
     p\<lparr>cs_ref_bits := (ensureSized False (idx + 1) (cs_ref_bits p))[idx := True]\<rparr>"

definition ClockSweepPolicy_reset :: "ClockSweepPolicy \<Rightarrow> nat \<Rightarrow> ClockSweepPolicy" where
  "ClockSweepPolicy_reset p idx =
     p\<lparr>cs_ref_bits := (ensureSized False (idx + 1) (cs_ref_bits p))[idx := False]\<rparr>"

text \<open>The sweep with the given number of attempts left.\<close>

fun clock_sweep :: "nat \<Rightarrow> BufferFrame list \<Rightarrow> ClockSweepPolicy \<Rightarrow> nat option \<times> ClockSweepPolicy" where
  "clock_sweep 0 frames p = (None, p)"
| "clock_sweep (Suc attempts) frames p =
     (let i = cs_clock_hand p; p = p\<lparr>cs_clock_hand := (cs_clock_hand p + 1) mod length frames\<rparr> in
      if fr_pin_count (frames ! i) > 0 then clock_sweep attempts frames p
      else if cs_ref_bits p ! i then clock_sweep attempts frames (p\<lparr>cs_ref_bits := (cs_ref_bits p)[i := False]\<rparr>)
      else (Some i, p))"

definition first_unpinned :: "BufferFrame list \<Rightarrow> int" where
  "first_unpinned frames =
     (case filter (\<lambda>i. fr_pin_count (frames ! i) = 0 \<and> fr_page (frames ! i) \<noteq> None) [0..<length frames] of
        [] \<Rightarrow> -1 | i # _ \<Rightarrow> int i)"

definition ClockSweepPolicy_selectVictim :: "ClockSweepPolicy \<Rightarrow> BufferFrame list \<Rightarrow> int \<times> ClockSweepPolicy" where
  "ClockSweepPolicy_selectVictim p frames =
     (let n = length frames;
          p = p\<lparr>cs_ref_bits := ensureSized False n (cs_ref_bits p)\<rparr>;
          p = (if cs_clock_hand p \<ge> n then p\<lparr>cs_clock_hand := 0\<rparr> else p) in
      case clock_sweep (n * 2) frames p of
        (Some i, p) \<Rightarrow> (int i, p)
      | (None, p) \<Rightarrow> (first_unpinned frames, p))"

section \<open>LRU-2\<close>

record LRU2Policy =
  lr_history :: "(u64 \<times> u64) list"
  lr_logical_clock :: u64

definition LRU2Policy_new :: LRU2Policy where
  "LRU2Policy_new = \<lparr>lr_history = [], lr_logical_clock = 0\<rparr>"

definition LRU2Policy_recordAccess :: "LRU2Policy \<Rightarrow> nat \<Rightarrow> LRU2Policy" where
  "LRU2Policy_recordAccess p idx =
     (let h = ensureSized (0, 0) (idx + 1) (lr_history p); now = lr_logical_clock p + 1 in
      \<lparr>lr_history = h[idx := (now, fst (h ! idx))], lr_logical_clock = now\<rparr>)"

definition LRU2Policy_reset :: "LRU2Policy \<Rightarrow> nat \<Rightarrow> LRU2Policy" where
  "LRU2Policy_reset p idx =
     p\<lparr>lr_history := (ensureSized (0, 0) (idx + 1) (lr_history p))[idx := (0, 0)]\<rparr>"

text \<open>The four locals of the selection loop.\<close>

record lru2_scan =
  ls_best_never_twice :: int
  ls_oldest_first_time :: u64
  ls_best_with_history :: int
  ls_best_second_time :: u64

definition lru2_step :: "BufferFrame list \<Rightarrow> (u64 \<times> u64) list \<Rightarrow> lru2_scan \<Rightarrow> nat \<Rightarrow> lru2_scan" where
  "lru2_step frames history s i =
     (if fr_pin_count (frames ! i) > 0 then s
      else if snd (history ! i) = 0 then
        (if ls_best_never_twice s = -1 \<or> fst (history ! i) < ls_oldest_first_time s
         then s\<lparr>ls_best_never_twice := int i, ls_oldest_first_time := fst (history ! i)\<rparr> else s)
      else if ls_best_with_history s = -1 \<or> snd (history ! i) < ls_best_second_time s
      then s\<lparr>ls_best_with_history := int i, ls_best_second_time := snd (history ! i)\<rparr> else s)"

definition LRU2Policy_selectVictim :: "LRU2Policy \<Rightarrow> BufferFrame list \<Rightarrow> int \<times> LRU2Policy" where
  "LRU2Policy_selectVictim p frames =
     (let n = length frames;
          p = p\<lparr>lr_history := ensureSized (0, 0) n (lr_history p)\<rparr>;
          s = foldl (lru2_step frames (lr_history p))
                \<lparr>ls_best_never_twice = -1, ls_oldest_first_time = 0,
                 ls_best_with_history = -1, ls_best_second_time = 0\<rparr> [0..<n] in
      (if ls_best_never_twice s \<noteq> -1 then ls_best_never_twice s else ls_best_with_history s, p))"

section \<open>The policy interface\<close>

datatype EvictionPolicy = Clock ClockSweepPolicy | LRU2 LRU2Policy

fun EvictionPolicy_recordAccess :: "EvictionPolicy \<Rightarrow> nat \<Rightarrow> EvictionPolicy" where
  "EvictionPolicy_recordAccess (Clock p) idx = Clock (ClockSweepPolicy_recordAccess p idx)"
| "EvictionPolicy_recordAccess (LRU2 p) idx = LRU2 (LRU2Policy_recordAccess p idx)"

fun EvictionPolicy_reset :: "EvictionPolicy \<Rightarrow> nat \<Rightarrow> EvictionPolicy" where
  "EvictionPolicy_reset (Clock p) idx = Clock (ClockSweepPolicy_reset p idx)"
| "EvictionPolicy_reset (LRU2 p) idx = LRU2 (LRU2Policy_reset p idx)"

fun EvictionPolicy_selectVictim :: "EvictionPolicy \<Rightarrow> BufferFrame list \<Rightarrow> int \<times> EvictionPolicy" where
  "EvictionPolicy_selectVictim (Clock p) frames = (let (i, p) = ClockSweepPolicy_selectVictim p frames in (i, Clock p))"
| "EvictionPolicy_selectVictim (LRU2 p) frames = (let (i, p) = LRU2Policy_selectVictim p frames in (i, LRU2 p))"

text \<open>What a victim is: an unpinned frame, or \<open>-1\<close> exactly if there is none.\<close>

definition unpinned :: "BufferFrame list \<Rightarrow> nat \<Rightarrow> bool" where
  "unpinned frames i \<longleftrightarrow> i < length frames \<and> \<not> fr_pin_count (frames ! i) > 0"

definition victim_ok :: "BufferFrame list \<Rightarrow> int \<Rightarrow> bool" where
  "victim_ok frames v \<longleftrightarrow> (v = -1 \<and> (\<forall>i. \<not> unpinned frames i)) \<or> (0 \<le> v \<and> unpinned frames (nat v))"

locale eviction_policy =
  fixes select :: "'p \<Rightarrow> BufferFrame list \<Rightarrow> int \<times> 'p"
  assumes select_ok: "victim_ok frames (fst (select p frames))"
begin

lemma select_frame:
  assumes "select p frames = (v, p')"
  shows "v < 0 \<Longrightarrow> \<forall>i < length frames. fr_pin_count (frames ! i) > 0"
    and "\<not> v < 0 \<Longrightarrow> nat v < length frames \<and> \<not> fr_pin_count (frames ! nat v) > 0"
  using select_ok [of frames p] assms by (auto simp: victim_ok_def unpinned_def)

end

section \<open>The sweep finds a victim within two rounds\<close>

lemma length_ensureSized [simp]: "length (ensureSized x n xs) = max n (length xs)"
  by (simp add: ensureSized_def)

definition clock_stops :: "BufferFrame list \<Rightarrow> ClockSweepPolicy \<Rightarrow> bool" where
  "clock_stops frames p \<longleftrightarrow> \<not> fr_pin_count (frames ! cs_clock_hand p) > 0 \<and> \<not> cs_ref_bits p ! cs_clock_hand p"

definition clock_next :: "BufferFrame list \<Rightarrow> ClockSweepPolicy \<Rightarrow> ClockSweepPolicy" where
  "clock_next frames p =
     \<lparr>cs_ref_bits = (if fr_pin_count (frames ! cs_clock_hand p) > 0 then cs_ref_bits p
        else (cs_ref_bits p)[cs_clock_hand p := False]),
      cs_clock_hand = (cs_clock_hand p + 1) mod length frames\<rparr>"

lemma clock_sweep_Suc:
  "clock_sweep (Suc k) frames p =
    (if clock_stops frames p then (Some (cs_clock_hand p), p\<lparr>cs_clock_hand := (cs_clock_hand p + 1) mod length frames\<rparr>)
     else clock_sweep k frames (clock_next frames p))"
  by (cases p) (auto simp: clock_stops_def clock_next_def Let_def)

declare clock_sweep.simps(2) [simp del]

definition clock_wf :: "BufferFrame list \<Rightarrow> ClockSweepPolicy \<Rightarrow> bool" where
  "clock_wf frames p \<longleftrightarrow> cs_clock_hand p < length frames \<and> length frames \<le> length (cs_ref_bits p)"

lemma clock_next_wf: "clock_wf frames p \<Longrightarrow> clock_wf frames (clock_next frames p)"
  by (auto simp: clock_wf_def clock_next_def intro: mod_less_divisor)

lemma clock_next_bits:
  "clock_wf frames p \<Longrightarrow> i < length frames \<Longrightarrow> cs_ref_bits (clock_next frames p) ! i \<Longrightarrow> cs_ref_bits p ! i"
  by (auto simp: clock_wf_def clock_next_def nth_list_update split: if_splits)

lemma clock_next_clears:
  "clock_wf frames p \<Longrightarrow> unpinned frames (cs_clock_hand p) \<Longrightarrow> \<not> cs_ref_bits (clock_next frames p) ! cs_clock_hand p"
  by (auto simp: clock_wf_def clock_next_def unpinned_def)

lemma clock_sweep_some:
  "clock_sweep k frames p = (Some i, p') \<Longrightarrow> clock_wf frames p \<Longrightarrow> unpinned frames i"
proof (induction k arbitrary: p)
  case (Suc k)
  show ?case
  proof (cases "clock_stops frames p")
    case True
    then show ?thesis
      using Suc.prems by (auto simp: clock_sweep_Suc unpinned_def clock_stops_def clock_wf_def)
  next
    case False
    then show ?thesis
      using Suc.prems Suc.IH clock_next_wf by (simp add: clock_sweep_Suc)
  qed
qed simp

lemma clock_sweep_none:
  assumes "clock_sweep k frames p = (None, p')" "clock_wf frames p"
  shows "clock_wf frames p' \<and> cs_clock_hand p' = (cs_clock_hand p + k) mod length frames
    \<and> (\<forall>i < length frames. cs_ref_bits p' ! i \<longrightarrow> cs_ref_bits p ! i)
    \<and> (\<forall>j < k. unpinned frames ((cs_clock_hand p + j) mod length frames) \<longrightarrow>
          \<not> cs_ref_bits p' ! ((cs_clock_hand p + j) mod length frames))"
  using assms
proof (induction k arbitrary: p)
  case 0
  then show ?case by (auto simp: clock_wf_def)
next
  case (Suc k)
  let ?n = "length frames" and ?q = "clock_next frames p"
  have wf: "clock_wf frames ?q" and hand: "cs_clock_hand ?q = (cs_clock_hand p + 1) mod ?n" "cs_clock_hand p < ?n"
    using Suc.prems(2) clock_next_wf by (auto simp: clock_next_def clock_wf_def)
  have run: "clock_sweep k frames ?q = (None, p')"
    using Suc.prems(1) by (auto simp: clock_sweep_Suc split: if_splits)
  note IH = Suc.IH [OF run wf]
  have mono: "cs_ref_bits p' ! i \<longrightarrow> cs_ref_bits p ! i" if "i < ?n" for i
    using IH that clock_next_bits [OF Suc.prems(2) that] by blast
  have "\<not> cs_ref_bits p' ! ((cs_clock_hand p + j) mod ?n)"
    if "j < Suc k" "unpinned frames ((cs_clock_hand p + j) mod ?n)" for j
  proof (cases j)
    case 0
    with that hand IH clock_next_clears [OF Suc.prems(2)] show ?thesis
      by (auto simp: unpinned_def)
  next
    case (Suc m)
    then have "(cs_clock_hand p + j) mod ?n = (cs_clock_hand ?q + m) mod ?n"
      by (simp add: hand mod_add_left_eq)
    with IH that Suc show ?thesis by simp
  qed
  moreover have "(cs_clock_hand ?q + k) mod ?n = (cs_clock_hand p + Suc k) mod ?n"
    by (simp add: hand mod_add_left_eq)
  ultimately show ?case using IH mono by simp
qed

lemma clock_sweep_hits:
  assumes "clock_wf frames p" "unpinned frames ((cs_clock_hand p + j) mod length frames)"
    and "\<not> cs_ref_bits p ! ((cs_clock_hand p + j) mod length frames)" "j < k"
  shows "fst (clock_sweep k frames p) \<noteq> None"
  using assms
proof (induction k arbitrary: p j)
  case (Suc k)
  let ?n = "length frames" and ?q = "clock_next frames p"
  have wf: "clock_wf frames ?q" and hand: "cs_clock_hand ?q = (cs_clock_hand p + 1) mod ?n" "cs_clock_hand p < ?n"
    using Suc.prems(1) clock_next_wf by (auto simp: clock_next_def clock_wf_def)
  show ?case
  proof (cases "clock_stops frames p")
    case True
    then show ?thesis by (simp add: clock_sweep_Suc)
  next
    case False
    have "j \<noteq> 0"
    proof
      assume "j = 0"
      with False Suc.prems hand show False by (simp add: clock_stops_def unpinned_def)
    qed
    then obtain m where m: "j = Suc m" by (cases j) auto
    then have eq: "(cs_clock_hand p + j) mod ?n = (cs_clock_hand ?q + m) mod ?n"
      by (simp add: hand mod_add_left_eq)
    have "\<not> cs_ref_bits ?q ! ((cs_clock_hand p + j) mod ?n)"
      using clock_next_bits [OF Suc.prems(1)] Suc.prems(2,3) by (auto simp: unpinned_def)
    with Suc.IH [OF wf, of m] Suc.prems(2,4) m eq have "fst (clock_sweep k frames ?q) \<noteq> None" by simp
    with False show ?thesis by (simp add: clock_sweep_Suc)
  qed
qed simp

lemma clock_sweep_add:
  "clock_sweep (a + b) frames p =
    (case clock_sweep a frames p of (None, q) \<Rightarrow> clock_sweep b frames q | (Some i, q) \<Rightarrow> (Some i, q))"
  by (induction a arbitrary: p) (auto simp: clock_sweep_Suc)

lemma clock_sweep_finds:
  assumes "clock_wf frames p" "unpinned frames i"
  shows "fst (clock_sweep (length frames * 2) frames p) \<noteq> None"
proof -
  let ?n = "length frames"
  have at: "\<exists>j < ?n. (h + j) mod ?n = i" if "h < ?n" for h
  proof (cases "h \<le> i")
    case True
    with assms(2) show ?thesis by (intro exI [of _ "i - h"]) (auto simp: unpinned_def)
  next
    case False
    with assms(2) that show ?thesis
      by (intro exI [of _ "?n + i - h"]) (auto simp: unpinned_def)
  qed
  obtain r q where rq: "clock_sweep ?n frames p = (r, q)" by fastforce
  show ?thesis
  proof (cases r)
    case None
    with rq have first: "clock_sweep ?n frames p = (None, q)" by simp
    note r = clock_sweep_none [OF first assms(1)]
    obtain j where j: "j < ?n" "(cs_clock_hand p + j) mod ?n = i"
      using at assms(1) by (auto simp: clock_wf_def)
    with r assms(2) have clear: "\<not> cs_ref_bits q ! i" by auto
    have "cs_clock_hand q < ?n" using r by (simp add: clock_wf_def)
    then obtain m where "m < ?n" "(cs_clock_hand q + m) mod ?n = i"
      using at by blast
    with clock_sweep_hits [of frames q m ?n] r clear assms(2) first show ?thesis
      by (simp add: mult_2_right clock_sweep_add)
  next
    case (Some v)
    with rq show ?thesis by (simp add: mult_2_right clock_sweep_add)
  qed
qed

lemma clock_select_ok: "victim_ok frames (fst (ClockSweepPolicy_selectVictim p frames))"
proof (cases "frames = []")
  case True
  then show ?thesis
    by (simp add: ClockSweepPolicy_selectVictim_def victim_ok_def unpinned_def first_unpinned_def Let_def)
next
  case False
  let ?p0 = "p\<lparr>cs_ref_bits := ensureSized False (length frames) (cs_ref_bits p)\<rparr>"
  let ?p = "if cs_clock_hand ?p0 \<ge> length frames then ?p0\<lparr>cs_clock_hand := 0\<rparr> else ?p0"
  have wf: "clock_wf frames ?p" using False by (auto simp: clock_wf_def)
  have sel: "ClockSweepPolicy_selectVictim p frames = (case clock_sweep (length frames * 2) frames ?p of
        (Some i, p) \<Rightarrow> (int i, p) | (None, p) \<Rightarrow> (first_unpinned frames, p))"
    unfolding ClockSweepPolicy_selectVictim_def Let_def by simp
  show ?thesis
  proof (cases "clock_sweep (length frames * 2) frames ?p")
    case (Pair r q)
    show ?thesis
    proof (cases r)
      case None
      then have "\<not> unpinned frames i" for i
        using clock_sweep_finds [OF wf, of i] Pair by auto
      moreover from this have "filter (\<lambda>i. fr_pin_count (frames ! i) = 0 \<and> fr_page (frames ! i) \<noteq> None) [0..<length frames] = []"
        unfolding filter_empty_conv unpinned_def by (metis atLeastLessThan_iff less_irrefl set_upt)
      then have "first_unpinned frames = -1"
        unfolding first_unpinned_def by simp
      ultimately show ?thesis using None Pair by (simp add: sel victim_ok_def)
    next
      case (Some i)
      with clock_sweep_some [OF _ wf] Pair show ?thesis by (auto simp: sel victim_ok_def)
    qed
  qed
qed

section \<open>LRU-2 takes the frame with the oldest second access\<close>

text \<open>What the loop has computed after frames \<open>0, \<dots>, k - 1\<close>.\<close>

definition lru2_inv :: "BufferFrame list \<Rightarrow> (u64 \<times> u64) list \<Rightarrow> nat \<Rightarrow> lru2_scan \<Rightarrow> bool" where
  "lru2_inv frames h k s \<longleftrightarrow>
     (if ls_best_never_twice s = -1 then \<forall>i < k. unpinned frames i \<longrightarrow> snd (h ! i) \<noteq> 0
      else \<exists>b < k. ls_best_never_twice s = int b \<and> unpinned frames b \<and> snd (h ! b) = 0
        \<and> ls_oldest_first_time s = fst (h ! b)
        \<and> (\<forall>i < k. unpinned frames i \<longrightarrow> snd (h ! i) = 0 \<longrightarrow> fst (h ! b) \<le> fst (h ! i)))
     \<and> (if ls_best_with_history s = -1 then \<forall>i < k. unpinned frames i \<longrightarrow> snd (h ! i) = 0
      else \<exists>b < k. ls_best_with_history s = int b \<and> unpinned frames b \<and> snd (h ! b) \<noteq> 0
        \<and> ls_best_second_time s = snd (h ! b)
        \<and> (\<forall>i < k. unpinned frames i \<longrightarrow> snd (h ! i) \<noteq> 0 \<longrightarrow> snd (h ! b) \<le> snd (h ! i)))"

lemma lru2_step_inv:
  assumes "lru2_inv frames h k s" "k < length frames"
  shows "lru2_inv frames h (Suc k) (lru2_step frames h s k)"
proof (cases "fr_pin_count (frames ! k) > 0")
  case True
  then have "\<not> unpinned frames k" by (simp add: unpinned_def)
  with True assms show ?thesis
    by (auto simp: lru2_inv_def lru2_step_def less_Suc_eq)
next
  case False
  then have u: "unpinned frames k" using assms(2) by (simp add: unpinned_def)
  show ?thesis
    using assms False u
    by (auto simp: lru2_inv_def lru2_step_def less_Suc_eq not_less split: if_splits
        intro: less_imp_le order_trans)
qed

definition lru2_init :: lru2_scan where
  "lru2_init = \<lparr>ls_best_never_twice = -1, ls_oldest_first_time = 0, ls_best_with_history = -1, ls_best_second_time = 0\<rparr>"

lemma lru2_fold_inv:
  "k \<le> length frames \<Longrightarrow> lru2_inv frames h k (foldl (lru2_step frames h) lru2_init [0..<k])"
proof (induction k)
  case 0
  show ?case by (simp add: lru2_inv_def lru2_init_def)
next
  case (Suc k)
  then have "lru2_inv frames h k (foldl (lru2_step frames h) lru2_init [0..<k])" by simp
  from lru2_step_inv [OF this] Suc.prems show ?case by simp
qed

text \<open>The LRU-2 choice: a frame accessed fewer than twice, the least recent of them, or else the oldest second access.\<close>

definition lru2_choice :: "BufferFrame list \<Rightarrow> (u64 \<times> u64) list \<Rightarrow> nat \<Rightarrow> bool" where
  "lru2_choice frames h b \<longleftrightarrow> unpinned frames b \<and>
     (\<forall>i. unpinned frames i \<longrightarrow>
        (if snd (h ! b) = 0 then snd (h ! i) = 0 \<longrightarrow> fst (h ! b) \<le> fst (h ! i)
         else snd (h ! i) \<noteq> 0 \<and> snd (h ! b) \<le> snd (h ! i)))"

lemma lru2_select:
  "(case LRU2Policy_selectVictim p frames of (v, q) \<Rightarrow>
     (v = -1 \<and> (\<forall>i. \<not> unpinned frames i)) \<or> (0 \<le> v \<and> lru2_choice frames (lr_history q) (nat v)))"
proof -
  let ?h = "ensureSized (0, 0) (length frames) (lr_history p)"
  let ?s = "foldl (lru2_step frames ?h) lru2_init [0..<length frames]"
  have inv: "lru2_inv frames ?h (length frames) ?s" by (rule lru2_fold_inv) simp
  have sel: "LRU2Policy_selectVictim p frames =
      (if ls_best_never_twice ?s \<noteq> -1 then ls_best_never_twice ?s else ls_best_with_history ?s, p\<lparr>lr_history := ?h\<rparr>)"
    by (simp add: LRU2Policy_selectVictim_def lru2_init_def Let_def)
  show ?thesis
  proof (cases "ls_best_never_twice ?s = -1")
    case False
    with inv sel show ?thesis
      by (auto simp: lru2_inv_def lru2_choice_def unpinned_def)
  next
    case never: True
    show ?thesis
    proof (cases "ls_best_with_history ?s = -1")
      case True
      with never inv sel show ?thesis by (auto simp: lru2_inv_def unpinned_def)
    next
      case False
      with never inv sel show ?thesis
        by (auto simp: lru2_inv_def lru2_choice_def unpinned_def)
    qed
  qed
qed

section \<open>Both policies keep the contract\<close>

interpretation ck: eviction_policy ClockSweepPolicy_selectVictim
  by unfold_locales (rule clock_select_ok)

interpretation lru: eviction_policy LRU2Policy_selectVictim
proof
  fix frames p
  show "victim_ok frames (fst (LRU2Policy_selectVictim p frames))"
    using lru2_select [of frames p] by (auto simp: victim_ok_def lru2_choice_def split: prod.splits)
qed

interpretation ev: eviction_policy EvictionPolicy_selectVictim
proof
  fix frames p
  show "victim_ok frames (fst (EvictionPolicy_selectVictim p frames))"
    using ck.select_ok lru.select_ok by (cases p) (auto simp: split_beta)
qed

section \<open>Properties\<close>

text \<open>
  the clock sweep returns an unpinned frame whenever there is one, within two rounds of the hand
  and whatever the reference bits were, and \<open>-1\<close> only if every frame is pinned; so the linear scan
  after the sweep never has to find a victim.
\<close>
theorem ClockSweep_victim:
  "let v = fst (ClockSweepPolicy_selectVictim p frames) in
     (if \<exists>i < length frames. fr_pin_count (frames ! i) \<le> 0
      then 0 \<le> v \<and> nat v < length frames \<and> fr_pin_count (frames ! nat v) \<le> 0 else v = -1)"
  using ck.select_ok [of frames p] unfolding victim_ok_def unpinned_def Let_def by (simp add: not_less) (metis not_le)

text \<open>
  LRU-2 evicts an unpinned frame that was accessed fewer than twice, the least recently accessed of
  those, and only if there is none the one whose second most recent access is the oldest; it returns
  \<open>-1\<close> exactly if every frame is pinned.
\<close>
theorem LRU2_victim:
  assumes "LRU2Policy_selectVictim p frames = (v, q)"
  shows "if v = -1 then \<forall>i < length frames. fr_pin_count (frames ! i) > 0
    else 0 \<le> v \<and> lru2_choice frames (lr_history q) (nat v)"
  using lru2_select [of frames p] assms by (auto simp: unpinned_def)

theorem LRU2_victim_witness:
  "0 \<le> fst (LRU2Policy_selectVictim LRU2Policy_new [BufferFrame_new])"
  using LRU2_victim [OF surjective_pairing, of LRU2Policy_new "[BufferFrame_new]"]
  by (auto simp: BufferFrame_new_def split: if_splits)

end
