(* ===== verification/Wal.thy ===== *)
theory Wal
  imports Keys "HOL-Library.Monad_Syntax"
begin

unbundle bit_operations_syntax

text \<open>
  \<open>wal.hpp\<close> / \<open>wal.cpp\<close>: the write-ahead log file and the transaction manager on top of it.

  The log file is a list of bytes; \<open>ww_durable\<close> is the length of the prefix that is known to have
  left the process (everything up to the last \<open>flush\<close>), so a crash leaves any prefix of the file at
  least that long. The code flushes the stream and does not call \<open>fsync\<close>: a crash here is one of the process, not of the
  operating system or the machine. A record on file is a frame: length prefix, body, CRC-32. \<open>WALWriter_scan\<close>
  is the reader that stops at the first frame that is short, oversized, or fails its checksum.
\<close>

datatype WALStore = HEAP | INDEX

datatype WALRecordType = BEGIN | UPDATE | COMMIT | ABORT | CLR

record WALRecord =
  wr_lsn :: u64
  wr_prev_lsn :: u64
  wr_txn_id :: u64
  wr_type :: WALRecordType
  wr_store :: WALStore
  wr_table_id :: u32
  wr_page_id :: int
  wr_old_data :: "byte list"
  wr_new_data :: "byte list"

definition WALRecord_default :: WALRecord where
  "WALRecord_default = \<lparr>wr_lsn = 0, wr_prev_lsn = 0, wr_txn_id = 0, wr_type = BEGIN, wr_store = HEAP,
     wr_table_id = 0, wr_page_id = -1, wr_old_data = [], wr_new_data = []\<rparr>"

section \<open>CRC-32\<close>

definition crc_bit :: "u32 \<Rightarrow> u32" where
  "crc_bit c = (if bit c 0 then 0xEDB88320 XOR drop_bit 1 c else drop_bit 1 c)"

definition crc32_table :: "u32 list" where
  "crc32_table = map (\<lambda>i. (crc_bit ^^ 8) (word_of_nat i)) [0..<256]"

definition crc32_step :: "u32 \<Rightarrow> byte \<Rightarrow> u32" where
  "crc32_step crc b = crc32_table ! unat ((crc XOR ucast b) AND 0xFF) XOR drop_bit 8 crc"

definition crc32 :: "byte list \<Rightarrow> u32" where
  "crc32 data = foldl crc32_step 0xFFFFFFFF data XOR 0xFFFFFFFF"

section \<open>Record bodies\<close>

definition MAX_RECORD_BODY_SIZE :: nat where "MAX_RECORD_BODY_SIZE = 64 * 1024"

fun type_tag :: "WALRecordType \<Rightarrow> u8" where
  "type_tag BEGIN = 0" | "type_tag UPDATE = 1" | "type_tag COMMIT = 2" | "type_tag ABORT = 3"
| "type_tag CLR = 4"

fun store_tag :: "WALStore \<Rightarrow> u8" where
  "store_tag HEAP = 0" | "store_tag INDEX = 1"

definition type_of_tag :: "u8 \<Rightarrow> WALRecordType option" where
  "type_of_tag t = (if t > 4 then None
     else Some (if t = 0 then BEGIN else if t = 1 then UPDATE else if t = 2 then COMMIT
                else if t = 3 then ABORT else CLR))"

definition store_of_tag :: "u8 \<Rightarrow> WALStore option" where
  "store_of_tag t = (if t > 1 then None else Some (if t = 0 then HEAP else INDEX))"

definition appendBytes :: "byte list \<Rightarrow> byte list" where
  "appendBytes bs = le_bytes 4 (word_of_nat (length bs) :: u32) @ bs"

definition serializeRecord :: "WALRecord \<Rightarrow> byte list" where
  "serializeRecord r =
     le_bytes 8 (wr_lsn r) @ le_bytes 8 (wr_prev_lsn r) @ le_bytes 8 (wr_txn_id r)
     @ [type_tag (wr_type r)] @ [store_tag (wr_store r)]
     @ le_bytes 4 (wr_table_id r) @ le_int (wr_page_id r)
     @ appendBytes (wr_old_data r) @ appendBytes (wr_new_data r)"

text \<open>The reading lambdas of \<open>deserializeRecord\<close>: \<open>n\<close> bytes at \<open>offset\<close>, and the new offset.\<close>

definition readN :: "byte list \<Rightarrow> nat \<Rightarrow> nat \<Rightarrow> (byte list \<times> nat) option" where
  "readN buf n offset = (if length buf - offset < n then None else Some (chunk offset n buf, offset + n))"

definition readBytes :: "byte list \<Rightarrow> nat \<Rightarrow> (byte list \<times> nat) option" where
  "readBytes buf offset = do {
     (l, offset) \<leftarrow> readN buf 4 offset;
     readN buf (unat (le_word l :: u32)) offset
   }"

definition deserializeRecord :: "byte list \<Rightarrow> WALRecord option" where
  "deserializeRecord buf = do {
     (lsn, offset) \<leftarrow> readN buf 8 0;
     (prev, offset) \<leftarrow> readN buf 8 offset;
     (txn, offset) \<leftarrow> readN buf 8 offset;
     (tt, offset) \<leftarrow> readN buf 1 offset;
     (st, offset) \<leftarrow> readN buf 1 offset;
     (table, offset) \<leftarrow> readN buf 4 offset;
     (page, offset) \<leftarrow> readN buf 4 offset;
     (old, offset) \<leftarrow> readBytes buf offset;
     (new, offset) \<leftarrow> readBytes buf offset;
     ty \<leftarrow> type_of_tag (le_word tt);
     sto \<leftarrow> store_of_tag (le_word st);
     Some \<lparr>wr_lsn = le_word lsn, wr_prev_lsn = le_word prev, wr_txn_id = le_word txn, wr_type = ty,
       wr_store = sto, wr_table_id = le_word table, wr_page_id = int_of_le page,
       wr_old_data = old, wr_new_data = new\<rparr>
   }"

section \<open>The log file\<close>

record WALWriter =
  ww_file :: "byte list"
  ww_durable :: nat
  ww_next_lsn :: u64

definition frame :: "WALRecord \<Rightarrow> byte list" where
  "frame r = (let body = serializeRecord r in
     le_bytes 4 (word_of_nat (length body) :: u32) @ body @ le_bytes 4 (crc32 body))"

text \<open>
  \<open>scan_from off rest\<close> is the loop of \<open>WALWriter::scan\<close> with \<open>rest\<close> still unread and
  \<open>valid_end_offset = off\<close>.
\<close>

function scan_from :: "nat \<Rightarrow> byte list \<Rightarrow> WALRecord list \<times> nat" where
  "scan_from off rest =
     (if length rest < 4 then ([], off)
      else
        let body_len = unat (le_word (take 4 rest) :: u32) in
        if body_len > MAX_RECORD_BODY_SIZE then ([], off)
        else if length rest < 4 + body_len then ([], off)
        else if length rest < 4 + body_len + 4 then ([], off)
        else
          let body = chunk 4 body_len rest; stored_crc = le_word (chunk (4 + body_len) 4 rest) in
          if crc32 body \<noteq> stored_crc then ([], off)
          else case deserializeRecord body of
            None \<Rightarrow> ([], off)
          | Some r \<Rightarrow>
              let n = 4 + body_len + 4; (rs, valid_end) = scan_from (off + n) (drop n rest) in
              (r # rs, valid_end))"
  by pat_completeness auto
termination
  by (relation "measure (\<lambda>(off, rest). length rest)") auto

declare scan_from.simps [simp del]

definition WALWriter_scan :: "byte list \<Rightarrow> WALRecord list \<times> nat" where
  "WALWriter_scan file = scan_from 0 file"

definition WALWriter_open :: "byte list \<Rightarrow> WALWriter" where
  "WALWriter_open file =
     (let (records, valid_end) = WALWriter_scan file in
      \<lparr>ww_file = take valid_end file, ww_durable = valid_end,
       ww_next_lsn = (if records = [] then 1 else wr_lsn (last records) + 1)\<rparr>)"

definition WALWriter_append :: "WALWriter \<Rightarrow> WALRecord \<Rightarrow> u64 \<times> WALWriter" where
  "WALWriter_append w record =
     (let r = record\<lparr>wr_lsn := ww_next_lsn w\<rparr> in
      (wr_lsn r, w\<lparr>ww_next_lsn := ww_next_lsn w + 1, ww_file := ww_file w @ frame r\<rparr>))"

definition WALWriter_flush :: "WALWriter \<Rightarrow> WALWriter" where
  "WALWriter_flush w = w\<lparr>ww_durable := length (ww_file w)\<rparr>"

definition WALWriter_flushUpTo :: "WALWriter \<Rightarrow> u64 \<Rightarrow> WALWriter" where
  "WALWriter_flushUpTo w lsn = WALWriter_flush w"

definition WALWriter_readAll :: "WALWriter \<Rightarrow> WALRecord list \<times> WALWriter" where
  "WALWriter_readAll w = (let w' = WALWriter_flush w in (fst (WALWriter_scan (ww_file w')), w'))"

definition WALWriter_currentLSN :: "WALWriter \<Rightarrow> u64" where
  "WALWriter_currentLSN w = ww_next_lsn w - 1"

section \<open>Transactions\<close>

record TransactionManager =
  tm_next_txn_id :: u64
  tm_last_lsn_per_txn :: "u64 \<rightharpoonup> u64"

type_synonym Log = "TransactionManager \<times> WALWriter"

definition TransactionManager_new :: "WALWriter \<Rightarrow> TransactionManager \<times> WALWriter" where
  "TransactionManager_new w =
     (let (records, w') = WALWriter_readAll w in
      (\<lparr>tm_next_txn_id =
          foldl (\<lambda>next r. if wr_txn_id r \<ge> next then wr_txn_id r + 1 else next) 1 records,
        tm_last_lsn_per_txn = Map.empty\<rparr>, w'))"

definition tm_prev_lsn :: "TransactionManager \<Rightarrow> u64 \<Rightarrow> u64" where
  "tm_prev_lsn tm txn = (case tm_last_lsn_per_txn tm txn of None \<Rightarrow> 0 | Some l \<Rightarrow> l)"

definition TransactionManager_begin ::
  "TransactionManager \<Rightarrow> WALWriter \<Rightarrow> u64 \<times> TransactionManager \<times> WALWriter" where
  "TransactionManager_begin tm w =
     (let txn = tm_next_txn_id tm;
          (lsn, w') = WALWriter_append w
            (WALRecord_default\<lparr>wr_txn_id := txn, wr_type := BEGIN, wr_prev_lsn := 0\<rparr>) in
      (txn, tm\<lparr>tm_next_txn_id := txn + 1,
               tm_last_lsn_per_txn := (tm_last_lsn_per_txn tm)(txn \<mapsto> lsn)\<rparr>, w'))"

definition TransactionManager_end ::
  "WALRecordType \<Rightarrow> TransactionManager \<Rightarrow> WALWriter \<Rightarrow> u64 \<Rightarrow> TransactionManager \<times> WALWriter" where
  "TransactionManager_end ty tm w txn =
     (let (lsn, w') = WALWriter_append w
            (WALRecord_default\<lparr>wr_txn_id := txn, wr_type := ty, wr_prev_lsn := tm_prev_lsn tm txn\<rparr>) in
      (tm\<lparr>tm_last_lsn_per_txn := (tm_last_lsn_per_txn tm)(txn := None)\<rparr>, WALWriter_flush w'))"

definition TransactionManager_commit ::
  "TransactionManager \<Rightarrow> WALWriter \<Rightarrow> u64 \<Rightarrow> TransactionManager \<times> WALWriter" where
  "TransactionManager_commit = TransactionManager_end COMMIT"

definition TransactionManager_abort ::
  "TransactionManager \<Rightarrow> WALWriter \<Rightarrow> u64 \<Rightarrow> TransactionManager \<times> WALWriter" where
  "TransactionManager_abort = TransactionManager_end ABORT"

definition TransactionManager_peekNextTxnId :: "TransactionManager \<Rightarrow> u64" where
  "TransactionManager_peekNextTxnId tm = tm_next_txn_id tm"

definition TransactionManager_appendRecord ::
  "TransactionManager \<Rightarrow> WALWriter \<Rightarrow> u64 \<Rightarrow> WALRecordType \<Rightarrow> WALStore \<Rightarrow> int \<Rightarrow> byte list \<Rightarrow>
   byte list \<Rightarrow> u32 \<Rightarrow> u64 \<times> TransactionManager \<times> WALWriter" where
  "TransactionManager_appendRecord tm w txn ty st page old new table =
     (let (lsn, w') = WALWriter_append w
            (WALRecord_default\<lparr>wr_txn_id := txn, wr_type := ty, wr_store := st, wr_table_id := table,
               wr_page_id := page, wr_old_data := old, wr_new_data := new,
               wr_prev_lsn := tm_prev_lsn tm txn\<rparr>) in
      (lsn, tm\<lparr>tm_last_lsn_per_txn := (tm_last_lsn_per_txn tm)(txn \<mapsto> lsn)\<rparr>, w'))"

lemma xor_cancel_left: "a XOR b = a XOR c \<longleftrightarrow> b = c" for a :: "'a::len word"
proof
  assume "a XOR b = a XOR c"
  then have "a XOR (a XOR b) = a XOR (a XOR c)" by simp
  then show "b = c" by (simp flip: xor.assoc)
qed simp

section \<open>CRC: the table-driven loop equals the bitwise one\<close>

lemma crc_bit_xor: "crc_bit (a XOR b) = crc_bit a XOR crc_bit b"
  by (auto simp: crc_bit_def bit_xor_iff drop_bit_xor ac_simps xor.left_commute)

lemma crc_bits_xor: "(crc_bit ^^ n) (a XOR b) = (crc_bit ^^ n) a XOR (crc_bit ^^ n) b"
  by (induction n arbitrary: a b) (simp_all add: crc_bit_xor)

lemma crc_bits_high: "\<forall>i < n. \<not> bit c i \<Longrightarrow> (crc_bit ^^ n) c = drop_bit n c"
proof (induction n arbitrary: c)
  case 0
  show ?case by simp
next
  case (Suc n)
  have "(crc_bit ^^ n) (drop_bit 1 c) = drop_bit n (drop_bit 1 c)"
    using Suc.prems by (intro Suc.IH) (simp add: bit_drop_bit_eq)
  then show ?case
    using Suc.prems
    by (simp only: funpow_Suc_right comp_apply) (simp add: crc_bit_def [of c])
qed

lemma low_byte_split: "x = (x AND 0xFF) XOR (x AND NOT 0xFF)" for x :: u32
  by (rule bit_eqI) (auto simp: bit_simps)

lemma low_byte_less: "unat (x AND 0xFF) < 256" for x :: u32
proof -
  have "x AND 0xFF = take_bit 8 x"
    by (simp add: take_bit_eq_mask mask_numeral)
  then have "unat (x AND 0xFF) = take_bit 8 (unat x)"
    by (simp add: unsigned_take_bit_eq)
  then show ?thesis
    by (simp add: take_bit_eq_mod)
qed

lemma crc32_step_bitwise: "crc32_step crc b = (crc_bit ^^ 8) (crc XOR ucast b)"
proof -
  let ?x = "crc XOR ucast b"
  have mask: "(0xFF :: u32) = mask 8"
    by (simp add: mask_numeral)
  have low: "crc32_table ! unat (?x AND 0xFF) = (crc_bit ^^ 8) (?x AND 0xFF)"
    using low_byte_less [of ?x] by (simp add: crc32_table_def)
  have "\<forall>i < 8. \<not> bit (?x AND NOT 0xFF) i"
    unfolding mask by (simp add: bit_simps)
  then have high: "(crc_bit ^^ 8) (?x AND NOT 0xFF) = drop_bit 8 (?x AND NOT 0xFF)"
    by (rule crc_bits_high)
  have dr: "drop_bit 8 (?x AND NOT 0xFF) = drop_bit 8 crc"
    unfolding mask by (rule bit_eqI) (auto simp: bit_simps dest: bit_imp_le_length)
  have "(crc_bit ^^ 8) ?x = (crc_bit ^^ 8) ((?x AND 0xFF) XOR (?x AND NOT 0xFF))"
    using low_byte_split [of ?x] by simp
  also have "\<dots> = (crc_bit ^^ 8) (?x AND 0xFF) XOR drop_bit 8 crc"
    by (simp only: crc_bits_xor high dr)
  finally show ?thesis
    by (simp only: crc32_step_def low)
qed

lemma crc_bit_top: "bit (crc_bit c) 31 = bit c 0"
  by (auto simp: crc_bit_def bit_simps dest: bit_imp_le_length)

lemma crc_bit_inj: "crc_bit a = crc_bit b \<Longrightarrow> a = b"
proof -
  assume eq: "crc_bit a = crc_bit b"
  then have b0: "bit a 0 = bit b 0"
    using crc_bit_top [of a] crc_bit_top [of b] by simp
  with eq have "drop_bit 1 a = drop_bit 1 b"
    by (auto simp: crc_bit_def xor_cancel_left split: if_splits)
  then have "bit a (Suc n) = bit b (Suc n)" for n
    by (metis Suc_eq_plus1_left bit_drop_bit_eq comp_apply)
  with b0 show "a = b"
    by (intro bit_eqI) (metis not0_implies_Suc)
qed

lemma crc_bits_inj: "(crc_bit ^^ n) a = (crc_bit ^^ n) b \<Longrightarrow> a = b"
  by (induction n) (auto dest: crc_bit_inj)

lemma crc32_step_inj_crc: "crc32_step c b = crc32_step c' b \<Longrightarrow> c = c'"
  unfolding crc32_step_bitwise
  by (drule crc_bits_inj) (simp add: xor_cancel_left xor.commute [of _ "ucast b"])

lemma crc32_step_inj_byte: "crc32_step c b = crc32_step c b' \<Longrightarrow> b = b'"
proof -
  assume "crc32_step c b = crc32_step c b'"
  then have "c XOR ucast b = c XOR ucast b'"
    unfolding crc32_step_bitwise by (rule crc_bits_inj)
  then have "(ucast b :: u32) = ucast b'"
    by (simp only: xor_cancel_left)
  then have "unat (ucast b :: u32) = unat (ucast b' :: u32)"
    by (rule arg_cong)
  moreover have "unat (ucast x :: u32) = unat x" for x :: byte
    using unsigned_less [of x, where ?'a = nat]
    by (simp add: unsigned_ucast_eq take_bit_nat_eq_self)
  ultimately show "b = b'"
    by (simp add: word_unat_eq_iff)
qed

lemma crc32_foldl_inj: "foldl crc32_step c ys = foldl crc32_step c' ys \<Longrightarrow> c = c'"
  by (induction ys arbitrary: c c') (auto dest: crc32_step_inj_crc)

section \<open>Bodies round-trip\<close>

lemma readN_middle:
  "off = length pre \<Longrightarrow> n = length xs \<Longrightarrow> readN (pre @ xs @ post) n off = Some (xs, off + n)"
  by (simp add: readN_def chunk_middle)

definition WALRecord_fits :: "WALRecord \<Rightarrow> bool" where
  "WALRecord_fits r \<longleftrightarrow> int32 (wr_page_id r) \<and> length (wr_old_data r) < 2 ^ 32 \<and> length (wr_new_data r) < 2 ^ 32"

lemma type_of_tag_tag [simp]: "type_of_tag (type_tag t) = Some t"
  by (cases t) (simp_all add: type_of_tag_def)

lemma store_of_tag_tag [simp]: "store_of_tag (store_tag t) = Some t"
  by (cases t) (simp_all add: store_of_tag_def)

lemma length_appendBytes [simp, bytes_simps]: "length (appendBytes bs) = 4 + length bs"
  by (simp add: appendBytes_def)

lemma readBytes_middle:
  assumes "off = length pre" "length bs < 2 ^ 32"
  shows "readBytes (pre @ appendBytes bs @ post) off = Some (bs, off + 4 + length bs)"
proof -
  let ?l = "le_bytes 4 (word_of_nat (length bs) :: u32)"
  have len: "unat (word_of_nat (length bs) :: u32) = length bs"
    using assms(2) by (simp add: unat_of_nat take_bit_nat_eq_self)
  have 1: "readN (pre @ ?l @ bs @ post) 4 off = Some (?l, off + 4)"
    using assms(1) by (intro readN_middle) auto
  have 2: "readN ((pre @ ?l) @ bs @ post) (length bs) (off + 4) = Some (bs, off + 4 + length bs)"
    using assms(1) by (intro readN_middle) auto
  show ?thesis
    using 1 2 by (simp add: readBytes_def appendBytes_def len)
qed

lemma length_serializeRecord [simp, bytes_simps]:
  "length (serializeRecord r) = 42 + length (wr_old_data r) + length (wr_new_data r)"
  by (simp add: serializeRecord_def)

lemma deserializeRecord_serialize:
  assumes "WALRecord_fits r"
  shows "deserializeRecord (serializeRecord r) = Some r"
proof -
  let ?a = "le_bytes 8 (wr_lsn r)" and ?b = "le_bytes 8 (wr_prev_lsn r)" and ?c = "le_bytes 8 (wr_txn_id r)"
  let ?d = "[type_tag (wr_type r)]" and ?e = "[store_tag (wr_store r)]"
  let ?f = "le_bytes 4 (wr_table_id r)" and ?g = "le_int (wr_page_id r)"
  let ?o = "appendBytes (wr_old_data r)" and ?n = "appendBytes (wr_new_data r)"
  let ?s = "serializeRecord r"
  have o: "length (wr_old_data r) < 2 ^ 32" and n: "length (wr_new_data r) < 2 ^ 32"
    and p: "int32 (wr_page_id r)"
    using assms by (simp_all add: WALRecord_fits_def)
  have s: "?s = ?a @ ?b @ ?c @ ?d @ ?e @ ?f @ ?g @ ?o @ ?n"
    by (simp add: serializeRecord_def)
  have reads:
    "readN ?s 8 0 = Some (?a, 8)" "readN ?s 8 8 = Some (?b, 16)" "readN ?s 8 16 = Some (?c, 24)"
    "readN ?s 1 24 = Some (?d, 25)" "readN ?s 1 25 = Some (?e, 26)" "readN ?s 4 26 = Some (?f, 30)"
    "readN ?s 4 30 = Some (?g, 34)"
    unfolding s by (simp_all add: readN_def chunk_def)
  have old: "readBytes ?s 34 = Some (wr_old_data r, 38 + length (wr_old_data r))"
    using readBytes_middle [of 34 "?a @ ?b @ ?c @ ?d @ ?e @ ?f @ ?g" "wr_old_data r" ?n] o
    by (simp add: s)
  have new: "readBytes ?s (38 + length (wr_old_data r))
      = Some (wr_new_data r, 42 + length (wr_old_data r) + length (wr_new_data r))"
    using readBytes_middle [of "38 + length (wr_old_data r)"
        "?a @ ?b @ ?c @ ?d @ ?e @ ?f @ ?g @ ?o" "wr_new_data r" "[]"] n
    by (simp add: s)
  show ?thesis
    unfolding deserializeRecord_def by (simp add: reads old new p del: One_nat_def)
qed

section \<open>Scanning a log\<close>

text \<open>Records the engine appends: the body is no larger than the reader accepts.\<close>

definition loggable :: "WALRecord \<Rightarrow> bool" where
  "loggable r \<longleftrightarrow> int32 (wr_page_id r)
     \<and> 42 + length (wr_old_data r) + length (wr_new_data r) \<le> MAX_RECORD_BODY_SIZE"

lemma loggable_fits: "loggable r \<Longrightarrow> WALRecord_fits r"
  by (simp add: loggable_def WALRecord_fits_def MAX_RECORD_BODY_SIZE_def)

lemma length_frame [simp, bytes_simps]: "length (frame r) = 8 + length (serializeRecord r)"
  by (simp add: frame_def Let_def)

lemma unat_u32: "n < 2 ^ 32 \<Longrightarrow> unat (word_of_nat n :: u32) = n"
  by (simp add: unat_of_nat take_bit_nat_eq_self)

lemma frame_len_prefix:
  assumes "loggable r" "4 \<le> k"
  shows "unat (le_word (take 4 (take k (frame r) @ rest)) :: u32) = length (serializeRecord r)"
proof -
  have "take 4 (take k (frame r) @ rest) = le_bytes 4 (word_of_nat (length (serializeRecord r)) :: u32)"
    using assms(2) by (simp add: frame_def Let_def)
  moreover have "length (serializeRecord r) < 2 ^ 32"
    using assms(1) by (simp add: loggable_def MAX_RECORD_BODY_SIZE_def)
  ultimately show ?thesis
    by (simp only: le_word_u32 unat_u32)
qed

lemma scan_from_frame:
  assumes "loggable r"
  shows "scan_from off (frame r @ rest) =
    (let (rs, e) = scan_from (off + length (frame r)) rest in (r # rs, e))"
proof -
  let ?b = "serializeRecord r"
  have len: "unat (le_word (take 4 (frame r @ rest)) :: u32) = length ?b"
    using frame_len_prefix [OF assms, of "length (frame r)" rest] by simp
  have small: "\<not> length ?b > MAX_RECORD_BODY_SIZE"
    using assms by (simp add: loggable_def)
  have body: "chunk 4 (length ?b) (frame r @ rest) = ?b"
    and crc: "chunk (4 + length ?b) 4 (frame r @ rest) = le_bytes 4 (crc32 ?b)"
    by (simp_all add: frame_def Let_def chunk_def)
  have d: "deserializeRecord ?b = Some r"
    using assms by (intro deserializeRecord_serialize loggable_fits)
  show ?thesis
    by (subst scan_from.simps) (simp only: len Let_def small body crc d, simp add: Let_def add.commute)
qed

lemma scan_from_torn:
  assumes "loggable r" "k < length (frame r)"
  shows "scan_from off (take k (frame r)) = ([], off)"
proof (cases "k < 4")
  case True
  then show ?thesis by (subst scan_from.simps) simp
next
  case False
  then have len: "unat (le_word (take 4 (take k (frame r))) :: u32) = length (serializeRecord r)"
    using frame_len_prefix [OF assms(1), of k "[]"] by simp
  show ?thesis
    using assms(2) by (subst scan_from.simps) (simp only: Let_def len, simp)
qed

lemma scan_from_frames:
  assumes "\<forall>r \<in> set rs. loggable r"
  shows "scan_from off (concat (map frame rs) @ tail) =
    (let (rs', e) = scan_from (off + length (concat (map frame rs))) tail in (rs @ rs', e))"
  using assms
proof (induction rs arbitrary: off)
  case (Cons r rs)
  then show ?case
    by (simp add: scan_from_frame Let_def split_beta add.assoc)
qed (simp add: split_beta)

lemma scan_from_Nil [simp]: "scan_from off [] = ([], off)"
  by (subst scan_from.simps) simp

section \<open>The writer as a list of records\<close>

definition log_bytes :: "WALRecord list \<Rightarrow> byte list" where
  "log_bytes rs = concat (map frame rs)"

text \<open>
  \<open>wal_log w rs\<close>: the file of \<open>w\<close> holds exactly the records \<open>rs\<close>, numbered \<open>1, 2, \<dots>\<close> by their
  LSNs, and a whole number of them is durable.
\<close>

definition wal_log :: "WALWriter \<Rightarrow> WALRecord list \<Rightarrow> bool" where
  "wal_log w rs \<longleftrightarrow> ww_file w = log_bytes rs \<and> (\<forall>r \<in> set rs. loggable r)
     \<and> (\<forall>i < length rs. wr_lsn (rs ! i) = word_of_nat (Suc i))
     \<and> ww_next_lsn w = word_of_nat (Suc (length rs))
     \<and> (\<exists>m \<le> length rs. ww_durable w = length (log_bytes (take m rs)))"

lemma log_bytes_simps [simp]:
  "log_bytes [] = []" "log_bytes (r # rs) = frame r @ log_bytes rs"
  "log_bytes (rs @ qs) = log_bytes rs @ log_bytes qs"
  by (simp_all add: log_bytes_def)

lemma scan_log_bytes:
  "\<forall>r \<in> set rs. loggable r \<Longrightarrow> scan_from off (log_bytes rs) = (rs, off + length (log_bytes rs))"
  using scan_from_frames [of rs off "[]"] by (simp add: log_bytes_def)

lemma scan_log_torn:
  assumes "\<forall>r \<in> set rs. loggable r" "loggable r" "k < length (frame r)"
  shows "scan_from off (log_bytes rs @ take k (frame r)) = (rs, off + length (log_bytes rs))"
  using assms by (simp add: log_bytes_def scan_from_frames scan_from_torn)

lemma take_log_bytes:
  obtains n tail where "n \<le> length rs" "take k (log_bytes rs) = log_bytes (take n rs) @ tail"
    and "tail = [] \<or> (n < length rs \<and> (\<exists>j < length (frame (rs ! n)). tail = take j (frame (rs ! n))))"
    and "\<And>m. m \<le> length rs \<Longrightarrow> length (log_bytes (take m rs)) \<le> k \<Longrightarrow> m \<le> n"
proof (induction rs arbitrary: k thesis)
  case Nil
  show ?case by (rule Nil [of 0 "[]"]) auto
next
  case (Cons r rs)
  show ?case
  proof (cases "k < length (frame r)")
    case True
    have "m = 0" if "length (log_bytes (take m (r # rs))) \<le> k" for m
      using that True by (cases m) auto
    with True show ?thesis
      by (intro Cons.prems [of 0 "take k (frame r)"]) auto
  next
    case False
    obtain n tail where n: "n \<le> length rs"
        "take (k - length (frame r)) (log_bytes rs) = log_bytes (take n rs) @ tail"
        "tail = [] \<or> (n < length rs \<and> (\<exists>j < length (frame (rs ! n)). tail = take j (frame (rs ! n))))"
        "\<And>m. m \<le> length rs \<Longrightarrow> length (log_bytes (take m rs)) \<le> k - length (frame r) \<Longrightarrow> m \<le> n"
      by (rule Cons.IH) blast
    have "m \<le> Suc n" if "m \<le> length (r # rs)" "length (log_bytes (take m (r # rs))) \<le> k" for m
    proof (cases m)
      case (Suc m')
      with that n(4) [of m'] show ?thesis by auto
    qed simp
    with False n show ?thesis
      by (intro Cons.prems [of "Suc n" tail]) auto
  qed
qed

lemma wal_log_open_prefix:
  assumes "wal_log w rs" "ww_durable w \<le> k"
  obtains n where "n \<le> length rs" "wal_log (WALWriter_open (take k (ww_file w))) (take n rs)"
    and "ww_durable w \<le> length (log_bytes (take n rs))"
proof -
  obtain n tail where n: "n \<le> length rs" "take k (log_bytes rs) = log_bytes (take n rs) @ tail"
      "tail = [] \<or> (n < length rs \<and> (\<exists>j < length (frame (rs ! n)). tail = take j (frame (rs ! n))))"
      "\<And>m. m \<le> length rs \<Longrightarrow> length (log_bytes (take m rs)) \<le> k \<Longrightarrow> m \<le> n"
    by (rule take_log_bytes [of rs k]) blast
  have bytes: "take k (ww_file w) = log_bytes (take n rs) @ tail"
    using assms(1) n(2) by (simp add: wal_log_def)
  have lg: "\<forall>r \<in> set (take n rs). loggable r" "n < length rs \<Longrightarrow> loggable (rs ! n)"
    using assms(1) by (auto simp: wal_log_def dest: in_set_takeD)
  have scan: "scan_from 0 (log_bytes (take n rs) @ tail) = (take n rs, length (log_bytes (take n rs)))"
    using n(3) scan_log_bytes [OF lg(1), of 0] scan_log_torn [OF lg(1) lg(2), of _ 0] by auto
  have next_lsn: "(if take n rs = [] then 1 else wr_lsn (last (take n rs)) + 1) = word_of_nat (Suc (length (take n rs)))"
  proof (cases "take n rs = []")
    case False
    then have "wr_lsn (last (take n rs)) = word_of_nat n"
      using assms(1) n(1) by (auto simp: wal_log_def last_conv_nth)
    with False n(1) show ?thesis by (simp add: add.commute)
  qed auto
  have "WALWriter_open (take k (ww_file w)) =
      \<lparr>ww_file = log_bytes (take n rs), ww_durable = length (log_bytes (take n rs)),
       ww_next_lsn = word_of_nat (Suc (length (take n rs)))\<rparr>"
    unfolding bytes WALWriter_open_def WALWriter_scan_def scan Let_def prod.case next_lsn by simp
  then have "wal_log (WALWriter_open (take k (ww_file w))) (take n rs)"
    using assms(1) n(1) lg by (auto simp: wal_log_def intro: exI [of _ n])
  moreover obtain m where m: "m \<le> length rs" "ww_durable w = length (log_bytes (take m rs))"
    using assms(1) by (auto simp: wal_log_def)
  then have "take m rs = take m (take n rs)" "m \<le> n"
    using n(4) [of m] assms(2) by (simp_all add: min_def)
  then have "ww_durable w \<le> length (log_bytes (take n rs))"
    using m(2) log_bytes_simps(3) [of "take m (take n rs)" "drop m (take n rs)"] by (metis append_take_drop_id le_add1 length_append)
  ultimately show thesis
    using that n(1) by blast
qed

lemma wal_log_empty: "wal_log (WALWriter_open []) []"
  by (simp add: wal_log_def WALWriter_open_def WALWriter_scan_def)

lemma wal_log_append:
  assumes "wal_log w rs" "loggable r" "WALWriter_append w r = (lsn, w')"
  shows "lsn = word_of_nat (Suc (length rs))" "wal_log w' (rs @ [r\<lparr>wr_lsn := lsn\<rparr>])"
    and "ww_durable w' = ww_durable w"
proof -
  from assms(1,3) show l: "lsn = word_of_nat (Suc (length rs))"
    by (auto simp: WALWriter_append_def wal_log_def)
  obtain m where "m \<le> length rs" "ww_durable w = length (log_bytes (take m rs))"
    using assms(1) by (auto simp: wal_log_def)
  with assms l show "wal_log w' (rs @ [r\<lparr>wr_lsn := lsn\<rparr>])"
    by (auto simp: wal_log_def WALWriter_append_def loggable_def nth_append less_Suc_eq add.commute
        intro!: exI [of _ m])
  from assms(3) show "ww_durable w' = ww_durable w"
    by (auto simp: WALWriter_append_def)
qed

lemma wal_log_flush: "wal_log w rs \<Longrightarrow> wal_log (WALWriter_flush w) rs"
  by (auto simp: wal_log_def WALWriter_flush_def intro: exI [of _ "length rs"])

lemma wal_log_readAll: "wal_log w rs \<Longrightarrow> WALWriter_readAll w = (rs, WALWriter_flush w)"
  by (simp add: WALWriter_readAll_def WALWriter_scan_def WALWriter_flush_def wal_log_def scan_log_bytes Let_def)

section \<open>The interface of the log\<close>

text \<open>
  What the buffer pool, the index manager and recovery rely on: appending extends the log by one
  record, flushing changes no record and makes every record durable, and reopening the log after a
  crash that kept at least the durable bytes gives back a prefix of the log with every durable
  record in it.
\<close>

locale write_ahead_log =
  fixes holds :: "'w \<Rightarrow> 'r list \<Rightarrow> bool"
    and valid :: "'r \<Rightarrow> bool"
    and append_rec :: "'w \<Rightarrow> 'r \<Rightarrow> 'l \<times> 'w"
    and stamp :: "'l \<Rightarrow> 'r \<Rightarrow> 'r"
    and flush_log :: "'w \<Rightarrow> 'w"
    and durable :: "'w \<Rightarrow> nat"
    and log_size :: "'r list \<Rightarrow> nat"
    and reopen :: "'w \<Rightarrow> nat \<Rightarrow> 'w"
  assumes append_holds: "holds w rs \<Longrightarrow> valid r \<Longrightarrow> append_rec w r = (l, w') \<Longrightarrow> holds w' (rs @ [stamp l r])"
    and append_durable: "append_rec w r = (l, w') \<Longrightarrow> durable w' = durable w"
    and flush_holds: "holds w rs \<Longrightarrow> holds (flush_log w) rs"
    and flush_durable: "holds w rs \<Longrightarrow> durable (flush_log w) = log_size rs"
    and reopen_prefix: "holds w rs \<Longrightarrow> durable w \<le> k \<Longrightarrow>
      \<exists>n \<le> length rs. holds (reopen w k) (take n rs) \<and> durable w \<le> log_size (take n rs)"
    and log_size_mono: "m < n \<Longrightarrow> n \<le> length rs \<Longrightarrow> log_size (take m rs) < log_size (take n rs)"
begin

lemma appends_hold:
  assumes "holds w rs" "\<forall>q \<in> set qs. valid q"
  shows "\<exists>qs'. length qs' = length qs \<and> holds (foldl (\<lambda>w q. snd (append_rec w q)) w qs) (rs @ qs')
    \<and> durable (foldl (\<lambda>w q. snd (append_rec w q)) w qs) = durable w"
  using assms
proof (induction qs arbitrary: w rs)
  case (Cons q qs)
  obtain l w' where a: "append_rec w q = (l, w')" by (cases "append_rec w q")
  with Cons.prems have "holds w' (rs @ [stamp l q])" by (auto intro: append_holds)
  from Cons.IH [OF this] Cons.prems a append_durable [OF a] show ?case
    by (force intro: exI [of _ "stamp l q # _"])
qed simp

lemma flushed_survives:
  assumes "holds w rs" "\<forall>q \<in> set qs. valid q"
    and "w' = foldl (\<lambda>w q. snd (append_rec w q)) (flush_log w) qs" "durable w' \<le> k"
  shows "\<exists>tail. holds (reopen w' k) (rs @ tail)"
proof -
  from appends_hold [OF flush_holds [OF assms(1)] assms(2)] assms(3)
  obtain qs' where qs': "holds w' (rs @ qs')" "durable w' = durable (flush_log w)"
    by auto
  with reopen_prefix [OF qs'(1) assms(4)] flush_durable [OF assms(1)]
  obtain n where n: "n \<le> length (rs @ qs')" "holds (reopen w' k) (take n (rs @ qs'))"
      "log_size rs \<le> log_size (take n (rs @ qs'))"
    by auto
  have "\<not> n < length rs"
    using n(3) log_size_mono [of n "length rs" rs] by (auto simp: not_less [symmetric])
  with n(2) have "holds (reopen w' k) (rs @ take (n - length rs) qs')" by simp
  then show ?thesis by blast
qed

end

definition WALWriter_reopen :: "WALWriter \<Rightarrow> nat \<Rightarrow> WALWriter" where
  "WALWriter_reopen w k = WALWriter_open (take k (ww_file w))"

interpretation wl: write_ahead_log wal_log loggable WALWriter_append "\<lambda>l r. r\<lparr>wr_lsn := l\<rparr>"
  WALWriter_flush ww_durable "\<lambda>rs. length (log_bytes rs)" WALWriter_reopen
proof (unfold_locales, goal_cases)
  case (1 w rs r l w')
  then show ?case by (rule wal_log_append(2))
next
  case (2 w r l w')
  then show ?case by (auto simp: WALWriter_append_def)
next
  case (3 w rs)
  then show ?case by (rule wal_log_flush)
next
  case (4 w rs)
  then show ?case by (simp add: WALWriter_flush_def wal_log_def)
next
  case (5 w rs k)
  then show ?case by (metis WALWriter_reopen_def wal_log_open_prefix)
next
  case (6 m n rs)
  then have "take n rs = take m rs @ [rs ! m] @ drop (Suc m) (take n rs)"
    by (metis append_Cons append_Nil append_take_drop_id Cons_nth_drop_Suc length_take min.absorb2
        nth_take take_take min.strict_order_iff less_imp_le)
  then have "log_bytes (take n rs) = log_bytes (take m rs) @ frame (rs ! m) @ log_bytes (drop (Suc m) (take n rs))"
    by (metis append.right_neutral log_bytes_simps)
  then show ?case by simp
qed

section \<open>Transactions on the log\<close>

definition prev_of :: "WALRecord list \<Rightarrow> u64 \<Rightarrow> u64" where
  "prev_of rs t = (let own = filter (\<lambda>r. wr_txn_id r = t) rs in if own = [] then 0 else wr_lsn (last own))"

text \<open>
  Since record number \<open>n\<close>, every record points back to the previous record of its own
  transaction (\<open>0\<close> for its first).
\<close>

definition chained :: "nat \<Rightarrow> WALRecord list \<Rightarrow> bool" where
  "chained n rs \<longleftrightarrow> (\<forall>i < length rs. n \<le> i \<longrightarrow> wr_prev_lsn (rs ! i) = prev_of (take i rs) (wr_txn_id (rs ! i)))"

text \<open>
  A run of the transaction manager: any interleaving of begins, updates of open transactions,
  commits and aborts of open transactions, as long as the 64-bit transaction counter is not
  exhausted.
\<close>

inductive tm_step :: "TransactionManager \<times> WALWriter \<Rightarrow> TransactionManager \<times> WALWriter \<Rightarrow> bool" where
  tm_begin: "tm_next_txn_id tm \<noteq> - 1 \<Longrightarrow> TransactionManager_begin tm w = (txn, tm', w') \<Longrightarrow>
    tm_step (tm, w) (tm', w')"
| tm_update: "txn \<in> dom (tm_last_lsn_per_txn tm) \<Longrightarrow> loggable (WALRecord_default\<lparr>wr_page_id := page, wr_old_data := old, wr_new_data := new\<rparr>) \<Longrightarrow>
    TransactionManager_appendRecord tm w txn UPDATE st page old new table = (lsn, tm', w') \<Longrightarrow>
    tm_step (tm, w) (tm', w')"
| tm_commit: "txn \<in> dom (tm_last_lsn_per_txn tm) \<Longrightarrow> TransactionManager_commit tm w txn = (tm', w') \<Longrightarrow>
    tm_step (tm, w) (tm', w')"
| tm_abort: "txn \<in> dom (tm_last_lsn_per_txn tm) \<Longrightarrow> TransactionManager_abort tm w txn = (tm', w') \<Longrightarrow>
    tm_step (tm, w) (tm', w')"

definition tm_inv :: "nat \<Rightarrow> TransactionManager \<times> WALWriter \<Rightarrow> WALRecord list \<Rightarrow> bool" where
  "tm_inv n s rs \<longleftrightarrow> wal_log (snd s) rs \<and> chained n rs
     \<and> (\<forall>t l. tm_last_lsn_per_txn (fst s) t = Some l \<longrightarrow> l = prev_of rs t)
     \<and> (\<forall>r \<in> set rs. wr_txn_id r < tm_next_txn_id (fst s))
     \<and> dom (tm_last_lsn_per_txn (fst s)) \<subseteq> {t. t < tm_next_txn_id (fst s)}"

lemma prev_of_snoc: "prev_of (rs @ [r]) t = (if wr_txn_id r = t then wr_lsn r else prev_of rs t)"
  by (simp add: prev_of_def)

lemma prev_of_fresh: "\<forall>r \<in> set rs. wr_txn_id r \<noteq> t \<Longrightarrow> prev_of rs t = 0"
  by (simp add: prev_of_def filter_empty_conv)

lemma chained_snoc:
  "n \<le> length rs \<Longrightarrow> chained n (rs @ [r]) \<longleftrightarrow> chained n rs \<and> wr_prev_lsn r = prev_of rs (wr_txn_id r)"
  by (auto simp: chained_def nth_append less_Suc_eq)

lemma tm_inv_append:
  assumes inv: "tm_inv n (tm, w) rs" "n \<le> length rs" and lg: "loggable r"
    and a: "WALWriter_append w r = (lsn, w')"
    and prev: "wr_prev_lsn r = prev_of rs (wr_txn_id r)"
    and next_txn: "wr_txn_id r < next_txn" "tm_next_txn_id tm \<le> next_txn"
    and m: "m = (tm_last_lsn_per_txn tm)(wr_txn_id r := l)" "l = None \<or> l = Some lsn"
  shows "tm_inv n (tm\<lparr>tm_next_txn_id := next_txn, tm_last_lsn_per_txn := m\<rparr>, w') (rs @ [r\<lparr>wr_lsn := lsn\<rparr>])"
  using wal_log_append(2) [OF _ lg a, of rs] assms
  by (auto simp: tm_inv_def chained_snoc prev_of_snoc split: if_splits dest: less_le_trans)

lemma tm_inv_flush: "tm_inv n (tm, w) rs \<Longrightarrow> tm_inv n (tm, WALWriter_flush w) rs"
  by (simp add: tm_inv_def wal_log_flush)

lemma loggable_default [simp]:
  "loggable (WALRecord_default\<lparr>wr_txn_id := t, wr_type := ty, wr_prev_lsn := p\<rparr>)"
  by (simp add: loggable_def WALRecord_default_def int32_def MAX_RECORD_BODY_SIZE_def)

lemma loggable_empty:
  "wr_page_id r = -1 \<Longrightarrow> wr_old_data r = [] \<Longrightarrow> wr_new_data r = [] \<Longrightarrow> loggable r"
  by (simp add: loggable_def int32_def MAX_RECORD_BODY_SIZE_def)

lemma tm_prev_lsn_open:
  "tm_inv n (tm, w) rs \<Longrightarrow> t \<in> dom (tm_last_lsn_per_txn tm) \<Longrightarrow> tm_prev_lsn tm t = prev_of rs t"
  by (auto simp: tm_inv_def tm_prev_lsn_def)

lemma tm_inv_end:
  assumes inv: "tm_inv n (tm, w) rs" "n \<le> length rs" and t: "txn \<in> dom (tm_last_lsn_per_txn tm)"
    and e: "TransactionManager_end ty tm w txn = (tm', w')"
  shows "\<exists>r. tm_inv n (tm', w') (rs @ [r]) \<and> wr_txn_id r = txn \<and> wr_type r = ty \<and> ww_durable w' = length (log_bytes (rs @ [r]))"
proof -
  let ?r = "WALRecord_default\<lparr>wr_txn_id := txn, wr_type := ty, wr_prev_lsn := tm_prev_lsn tm txn\<rparr>"
  obtain lsn w1 where a: "WALWriter_append w ?r = (lsn, w1)"
    by (cases "WALWriter_append w ?r")
  have lt: "txn < tm_next_txn_id tm"
    using inv(1) t by (auto simp: tm_inv_def)
  have "tm_inv n (tm\<lparr>tm_next_txn_id := tm_next_txn_id tm,
      tm_last_lsn_per_txn := (tm_last_lsn_per_txn tm)(txn := None)\<rparr>, w1) (rs @ [?r\<lparr>wr_lsn := lsn\<rparr>])"
    using tm_prev_lsn_open [OF inv(1) t] lt
    by (intro tm_inv_append [where l = None, OF inv _ a]) simp_all
  then have "tm_inv n (tm', w') (rs @ [?r\<lparr>wr_lsn := lsn\<rparr>])"
    using e a by (auto simp: TransactionManager_end_def intro: tm_inv_flush)
  moreover have "ww_file w1 = log_bytes (rs @ [?r\<lparr>wr_lsn := lsn\<rparr>])"
    using inv(1) a wal_log_append(2) [of w rs ?r] by (auto simp: tm_inv_def wal_log_def)
  then have "ww_durable w' = length (log_bytes (rs @ [?r\<lparr>wr_lsn := lsn\<rparr>]))"
    using e a by (auto simp: TransactionManager_end_def WALWriter_flush_def)
  ultimately show ?thesis by (force simp: WALRecord_default_def)
qed

lemma tm_step_inv:
  assumes "tm_step s s'" "tm_inv n s rs" "n \<le> length rs"
  shows "\<exists>r. tm_inv n s' (rs @ [r])"
  using assms(1)
proof cases
  case (tm_begin tm w txn tm' w')
  let ?r = "WALRecord_default\<lparr>wr_txn_id := txn, wr_type := BEGIN, wr_prev_lsn := 0\<rparr>"
  obtain lsn w1 where a: "WALWriter_append w ?r = (lsn, w1)"
    by (cases "WALWriter_append w ?r")
  from tm_begin have txn: "txn = tm_next_txn_id tm" by (auto simp: TransactionManager_begin_def Let_def split: prod.splits)
  have fresh: "prev_of rs txn = 0"
    using assms(2) tm_begin(1) txn by (intro prev_of_fresh) (auto simp: tm_inv_def)
  have lt: "txn < txn + 1"
    using max_word_Suc [of txn txn] tm_begin(3) txn by simp
  have "tm_inv n (tm\<lparr>tm_next_txn_id := txn + 1,
      tm_last_lsn_per_txn := (tm_last_lsn_per_txn tm)(txn \<mapsto> lsn)\<rparr>, w1) (rs @ [?r\<lparr>wr_lsn := lsn\<rparr>])"
    using assms(2,3) tm_begin(1) fresh lt txn
    by (intro tm_inv_append [where l = "Some lsn", OF _ _ _ a]) (auto simp: WALRecord_default_def loggable_empty)
  then show ?thesis
    using tm_begin txn a by (auto simp: TransactionManager_begin_def Let_def)
next
  case (tm_update txn tm new old page w st table lsn tm' w')
  let ?r = "WALRecord_default\<lparr>wr_txn_id := txn, wr_type := UPDATE, wr_store := st, wr_table_id := table,
               wr_page_id := page, wr_old_data := old, wr_new_data := new, wr_prev_lsn := tm_prev_lsn tm txn\<rparr>"
  obtain l w1 where a: "WALWriter_append w ?r = (l, w1)"
    by (cases "WALWriter_append w ?r")
  have inv: "tm_inv n (tm, w) rs" and lt: "txn < tm_next_txn_id tm"
    using assms(2) tm_update(1,3) by (auto simp: tm_inv_def)
  have "tm_inv n (tm\<lparr>tm_next_txn_id := tm_next_txn_id tm,
      tm_last_lsn_per_txn := (tm_last_lsn_per_txn tm)(txn \<mapsto> l)\<rparr>, w1) (rs @ [?r\<lparr>wr_lsn := l\<rparr>])"
    using tm_prev_lsn_open [OF inv tm_update(3)] lt tm_update(4)
    by (intro tm_inv_append [where l = "Some l", OF inv assms(3) _ a]) (simp_all add: loggable_def)
  then show ?thesis
    using tm_update a by (auto simp: TransactionManager_appendRecord_def)
next
  case (tm_commit txn tm w tm' w')
  then show ?thesis
    using tm_inv_end [of n tm w rs txn COMMIT tm' w'] assms by (auto simp: TransactionManager_commit_def)
next
  case (tm_abort txn tm w tm' w')
  then show ?thesis
    using tm_inv_end [of n tm w rs txn ABORT tm' w'] assms by (auto simp: TransactionManager_abort_def)
qed

lemma next_txn_above:
  assumes "\<forall>r \<in> set rs. wr_txn_id r \<noteq> - 1"
  shows "(n :: u64) \<le> foldl (\<lambda>next r. if wr_txn_id r \<ge> next then wr_txn_id r + 1 else next) n rs
    \<and> (\<forall>r \<in> set rs. wr_txn_id r < foldl (\<lambda>next r. if wr_txn_id r \<ge> next then wr_txn_id r + 1 else next) n rs)"
  using assms
proof (induction rs arbitrary: n)
  case (Cons r rs)
  let ?n = "if wr_txn_id r \<ge> n then wr_txn_id r + 1 else n"
  have "wr_txn_id r < ?n" "n \<le> ?n"
    using Cons.prems max_word_Suc [of "wr_txn_id r" "wr_txn_id r"]
    by (auto simp: not_le)
  moreover note Cons.IH [of ?n]
  ultimately show ?case
    using Cons.prems unfolding foldl_Cons list.set by (auto simp del: if_split dest: less_le_trans)
qed simp

lemma TransactionManager_new_inv:
  assumes "wal_log w rs" "\<forall>r \<in> set rs. wr_txn_id r \<noteq> - 1"
  shows "tm_inv (length rs) (TransactionManager_new w) rs"
  using next_txn_above [OF assms(2), of 1]
  by (simp add: TransactionManager_new_def tm_inv_def wal_log_readAll [OF assms(1)] wal_log_flush [OF assms(1)]
      chained_def)

lemma tm_steps_inv:
  assumes "tm_step\<^sup>*\<^sup>* s s'" "tm_inv n s rs" "n \<le> length rs"
  shows "\<exists>qs. tm_inv n s' (rs @ qs)"
  using assms(1)
proof (induction rule: rtranclp_induct)
  case base
  show ?case using assms(2) by (metis append_Nil2)
next
  case (step s1 s2)
  then obtain qs where "tm_inv n s1 (rs @ qs)" by blast
  with step(2) assms(3) tm_step_inv [of s1 s2 n "rs @ qs"] show ?case
    by (metis append.assoc le_add1 length_append order_trans)
qed

section \<open>Properties\<close>

text \<open>
  a record body reads back as the record that was written, whenever the page id is a 32-bit
  integer and the two images are below 4 GiB.
\<close>
theorem WAL_body_roundtrip:
  assumes "WALRecord_fits r"
  shows "deserializeRecord (serializeRecord r) = Some r"
  using assms by (rule deserializeRecord_serialize)

definition sample_update :: WALRecord where
  "sample_update = WALRecord_default\<lparr>wr_lsn := 2, wr_prev_lsn := 1, wr_txn_id := 7, wr_type := UPDATE,
     wr_store := INDEX, wr_table_id := 3, wr_page_id := 5, wr_old_data := [1, 2], wr_new_data := [3, 4, 5]\<rparr>"

theorem WAL_body_roundtrip_witness: "deserializeRecord (serializeRecord sample_update) = Some sample_update"
  by (rule WAL_body_roundtrip) (simp add: sample_update_def WALRecord_default_def WALRecord_fits_def int32_def)

text \<open>
  the table-driven checksum is the bit-serial reflected CRC-32: each byte is xored into the low
  bits of the register, which is then shifted eight times with the polynomial \<open>0xEDB88320\<close>.
\<close>
theorem crc32_bitwise:
  "crc32 data = foldl (\<lambda>crc b. (crc_bit ^^ 8) (crc XOR ucast b)) 0xFFFFFFFF data XOR 0xFFFFFFFF"
  unfolding crc32_def crc32_step_bitwise ..

text \<open>
  the checksum detects every error confined to one byte: two bodies of equal length that differ
  in exactly one byte have different checksums.
\<close>
theorem crc32_detects_byte_error:
  assumes "b \<noteq> c"
  shows "crc32 (pre @ b # post) \<noteq> crc32 (pre @ c # post)"
proof
  assume "crc32 (pre @ b # post) = crc32 (pre @ c # post)"
  then have "foldl crc32_step (crc32_step (foldl crc32_step 0xFFFFFFFF pre) b) post
           = foldl crc32_step (crc32_step (foldl crc32_step 0xFFFFFFFF pre) c) post"
    by (simp add: crc32_def xor.commute [of _ "0xFFFFFFFF"] xor_cancel_left)
  then have "b = c" by (blast dest: crc32_foldl_inj crc32_step_inj_byte)
  with assms show False ..
qed

theorem crc32_detects_byte_error_witness: "crc32 ([1, 2] @ 3 # [4]) \<noteq> crc32 ([1, 2] @ 7 # [4])"
  by (rule crc32_detects_byte_error) simp

text \<open>
  a log file whose tail is torn (the frames of some records followed by a strict prefix of one
  more frame) scans to exactly the complete records, and the reported end offset is the end of the
  last complete frame.
\<close>
theorem WAL_scan_torn_tail:
  assumes "\<forall>r \<in> set rs. loggable r" "loggable q" "k < length (frame q)"
  shows "WALWriter_scan (concat (map frame rs) @ take k (frame q)) = (rs, length (concat (map frame rs)))"
  using scan_log_torn [OF assms, of 0] by (simp add: WALWriter_scan_def log_bytes_def)

lemma loggable_sample: "loggable sample_update"
  by (simp add: sample_update_def WALRecord_default_def loggable_def int32_def MAX_RECORD_BODY_SIZE_def)

theorem WAL_scan_torn_tail_witness:
  "WALWriter_scan (concat (map frame [sample_update]) @ take 30 (frame sample_update))
     = ([sample_update], length (concat (map frame [sample_update])))"
  by (rule WAL_scan_torn_tail) (simp_all add: loggable_sample)

text \<open>
  crash recovery of the log file. Whatever was appended after a flush and however much of it
  reached the disk, reopening the file yields a log that starts with every record present at the
  flush; the reopened writer is again a well-formed log, so appends continue its numbering.
\<close>
theorem WAL_flushed_survives_crash:
  assumes "wal_log w rs" "\<forall>q \<in> set qs. loggable q"
    and "w' = foldl (\<lambda>w q. snd (WALWriter_append w q)) (WALWriter_flush w) qs" "ww_durable w' \<le> k"
  shows "\<exists>tail. wal_log (WALWriter_open (take k (ww_file w'))) (rs @ tail)"
  using wl.flushed_survives [OF assms] by (simp add: WALWriter_reopen_def)

theorem WAL_flushed_survives_crash_witness:
  "\<exists>tail. wal_log (WALWriter_open (take 0 (ww_file (foldl (\<lambda>w q. snd (WALWriter_append w q))
     (WALWriter_flush (WALWriter_open [])) [sample_update])))) ([] @ tail)"
  by (rule WAL_flushed_survives_crash [OF wal_log_empty, of "[sample_update]"])
    (simp_all add: loggable_sample WALWriter_flush_def WALWriter_append_def WALWriter_open_def
      WALWriter_scan_def)

text \<open>
  C10: a commit is durable when \<open>commit\<close> returns. After any run of the transaction manager, a commit
  of an open transaction leaves a log of which every crash image (all bytes flushed so far, and any
  amount of what follows) reopens to a log that ends in that transaction's COMMIT record, preceded
  by everything it wrote.
\<close>
theorem TransactionManager_commit_durable:
  assumes "tm_inv n (tm, w) rs" "n \<le> length rs" "txn \<in> dom (tm_last_lsn_per_txn tm)"
    and "TransactionManager_commit tm w txn = (tm', w')" "ww_durable w' \<le> k"
  shows "\<exists>r. wr_type r = COMMIT \<and> wr_txn_id r = txn \<and> wr_prev_lsn r = prev_of rs txn
    \<and> fst (WALWriter_readAll (WALWriter_open (take k (ww_file w')))) = rs @ [r]"
proof -
  obtain r where r: "tm_inv n (tm', w') (rs @ [r])" "wr_txn_id r = txn" "wr_type r = COMMIT"
      "ww_durable w' = length (log_bytes (rs @ [r]))"
    using tm_inv_end [OF assms(1-3)] assms(4) unfolding TransactionManager_commit_def by metis
  then have log: "wal_log w' (rs @ [r])" and "chained n (rs @ [r])" by (simp_all add: tm_inv_def)
  then have prev: "wr_prev_lsn r = prev_of rs txn"
    using assms(2) r(2) by (simp add: chained_snoc)
  obtain m where "m \<le> length (rs @ [r])"
      "wal_log (WALWriter_open (take k (ww_file w'))) (take m (rs @ [r]))"
      "ww_durable w' \<le> length (log_bytes (take m (rs @ [r])))"
    using wal_log_open_prefix [OF log assms(5)] by blast
  moreover from this r(4) have "\<not> m < length (rs @ [r])"
    using wl.log_size_mono [of m "length (rs @ [r])" "rs @ [r]"]
    by (metis le_refl not_less take_all_iff)
  ultimately have "wal_log (WALWriter_open (take k (ww_file w'))) (rs @ [r])" by simp
  with r prev show ?thesis by (auto simp: wal_log_readAll)
qed

definition sample_begun :: "TransactionManager \<times> WALWriter" where
  "sample_begun = (let (tm, w) = TransactionManager_new (WALWriter_open []) in
     snd (TransactionManager_begin tm w))"

lemma sample_new: "TransactionManager_new (WALWriter_open [])
    = (\<lparr>tm_next_txn_id = 1, tm_last_lsn_per_txn = Map.empty\<rparr>, WALWriter_open [])"
  using wal_log_readAll [OF wal_log_empty]
  by (simp add: TransactionManager_new_def WALWriter_flush_def WALWriter_open_def WALWriter_scan_def)

lemma minus_one_neq_one_u64: "(1 :: u64) \<noteq> - 1"
  by simp

lemma sample_begun_step: "tm_step (TransactionManager_new (WALWriter_open [])) sample_begun"
  unfolding sample_begun_def sample_new Let_def prod.case
  by (metis eq_snd_iff prod.collapse tm_begin TransactionManager.select_convs(1) minus_one_neq_one_u64)

lemma sample_begun_inv: "\<exists>r. tm_inv 0 sample_begun [r]"
  using tm_step_inv [OF sample_begun_step TransactionManager_new_inv [OF wal_log_empty]] by simp

lemma sample_begun_open: "1 \<in> dom (tm_last_lsn_per_txn (fst sample_begun))"
  by (simp add: sample_begun_def sample_new TransactionManager_begin_def Let_def split_beta)

theorem TransactionManager_commit_durable_witness:
  "\<exists>r q. wr_type r = COMMIT \<and> wr_txn_id r = 1 \<and>
     fst (WALWriter_readAll (WALWriter_open (take 1000
       (ww_file (snd (TransactionManager_commit (fst sample_begun) (snd sample_begun) 1)))))) = [q, r]"
proof -
  obtain q where q: "tm_inv 0 (fst sample_begun, snd sample_begun) [q]"
    using sample_begun_inv by auto
  let ?c = "TransactionManager_commit (fst sample_begun) (snd sample_begun) 1"
  have "ww_durable (snd ?c) \<le> 1000"
    unfolding sample_begun_def sample_new
    by (simp add: TransactionManager_commit_def TransactionManager_end_def
        TransactionManager_begin_def WALWriter_append_def WALWriter_flush_def Let_def split_beta
        WALWriter_open_def WALWriter_scan_def WALRecord_default_def)
  from TransactionManager_commit_durable [OF q _ sample_begun_open prod.collapse [symmetric] this]
  show ?thesis by (simp split: prod.splits) blast
qed

text \<open>
  C21: in any interleaving of begins, updates, commits and aborts, the LSNs of the log are
  \<open>1, 2, 3, \<dots>\<close>, every record's \<open>prev_lsn\<close> is the LSN of its transaction's previous record (0 for the
  first), and every transaction id in the log is below the next id to be handed out. The run starts
  at any log that another process left behind, provided the id counter read from it did not wrap.
\<close>
theorem TransactionManager_run_chains:
  assumes "wal_log w rs" "\<forall>r \<in> set rs. wr_txn_id r \<noteq> - 1"
    and "tm_step\<^sup>*\<^sup>* (TransactionManager_new w) (tm', w')"
  shows "\<exists>qs. fst (WALWriter_readAll w') = rs @ qs
    \<and> (\<forall>i < length (rs @ qs). wr_lsn ((rs @ qs) ! i) = word_of_nat (Suc i))
    \<and> chained (length rs) (rs @ qs)
    \<and> (\<forall>r \<in> set (rs @ qs). wr_txn_id r < tm_next_txn_id tm')"
proof -
  have "tm_inv (length rs) (TransactionManager_new w) rs"
    using TransactionManager_new_inv [OF assms(1,2)] .
  from tm_steps_inv [OF assms(3) this order_refl] obtain qs where
    "tm_inv (length rs) (tm', w') (rs @ qs)" by blast
  then have "wal_log w' (rs @ qs)" "chained (length rs) (rs @ qs)"
      "\<forall>r \<in> set (rs @ qs). wr_txn_id r < tm_next_txn_id tm'"
    unfolding tm_inv_def by simp_all
  then show ?thesis
    by (intro exI [of _ qs]) (simp add: wal_log_readAll, simp add: wal_log_def)
qed

theorem TransactionManager_run_chains_witness:
  "\<exists>qs. fst (WALWriter_readAll (snd sample_begun)) = [] @ qs
    \<and> (\<forall>i < length ([] @ qs). wr_lsn (([] @ qs) ! i) = word_of_nat (Suc i))
    \<and> chained (length ([] :: WALRecord list)) ([] @ qs)
    \<and> (\<forall>r \<in> set ([] @ qs). wr_txn_id r < tm_next_txn_id (fst sample_begun))"
  by (rule TransactionManager_run_chains [OF wal_log_empty]) (use sample_begun_step in simp_all)

end
