(* ===== verification/Buffer_Pool.thy ===== *)
theory Buffer_Pool
  imports Eviction Wal
begin

text \<open>
  \<open>bufferpool.hpp\<close> / \<open>bufferpool.cpp\<close> and \<open>pagemanager.cpp\<close>: the page cache over one heap file,
  and the copying page store on top of it.

  The state is the pool (its file, as bytes, with the stream's fail state, its frames and its eviction
  policy) together with the log it shares with the other stores. A \<open>Page&\<close> returned by
  \<open>fetchPage\<close> is the index of its frame. File reads and writes are those of a healthy disk; a read
  past the end of the file sets the stream's fail bit, which no later operation clears.
\<close>

record BufferPool =
  bp_file :: "byte list"
  bp_failed :: bool
  bp_next_page_id :: int
  bp_table_id :: u32
  bp_frames :: "BufferFrame list"
  bp_policy :: EvictionPolicy

type_synonym pool_state = "BufferPool \<times> Log"

definition DEFAULT_NUM_FRAMES :: nat where "DEFAULT_NUM_FRAMES = 64"

definition BufferPool_new :: "byte list \<Rightarrow> u32 \<Rightarrow> EvictionPolicy \<Rightarrow> nat \<Rightarrow> BufferPool" where
  "BufferPool_new file table_id policy num_frames =
     \<lparr>bp_file = file, bp_failed = False, bp_next_page_id = int (length file div PAGE_SIZE),
      bp_table_id = table_id, bp_frames = replicate num_frames BufferFrame_new, bp_policy = policy\<rparr>"

section \<open>Frames\<close>

definition set_frame :: "nat \<Rightarrow> (BufferFrame \<Rightarrow> BufferFrame) \<Rightarrow> (pool_state, unit) effect" where
  "set_frame idx f = smodify (\<lambda>(bp, lg). (bp\<lparr>bp_frames := (bp_frames bp)[idx := f (bp_frames bp ! idx)]\<rparr>, lg))"

definition get_frame :: "nat \<Rightarrow> (pool_state, BufferFrame) effect" where
  "get_frame idx = sget (\<lambda>(bp, lg). bp_frames bp ! idx)"

definition BufferPool_findFrame :: "BufferPool \<Rightarrow> int \<Rightarrow> int" where
  "BufferPool_findFrame bp page_id =
     (case filter (\<lambda>i. fr_page (bp_frames bp ! i) \<noteq> None \<and> fr_page_id (bp_frames bp ! i) = page_id)
             [0..<length (bp_frames bp)] of
        [] \<Rightarrow> -1 | i # _ \<Rightarrow> int i)"

text \<open>\<open>frames[idx].page->serialize()\<close>, which also refreshes the page's own buffer.\<close>

definition frame_serialize :: "nat \<Rightarrow> (pool_state, byte list) effect" where
  "frame_serialize idx =
     sbind (get_frame idx) (\<lambda>fr. case fr_page fr of
       None \<Rightarrow> sthrow (UndefinedBehaviour ''null page'')
     | Some p \<Rightarrow> sbind (slift (Page_serialize p)) (\<lambda>(buf, p').
         sbind (set_frame idx (\<lambda>fr. fr\<lparr>fr_page := Some p'\<rparr>)) (\<lambda>_. sreturn buf)))"

section \<open>Disk\<close>

definition BufferPool_ensureFileSize :: "nat \<Rightarrow> byte list \<Rightarrow> byte list" where
  "BufferPool_ensureFileSize sz file = (if length file < sz then file @ replicate (sz - length file) 0 else file)"

definition BufferPool_writePageToDisk :: "nat \<Rightarrow> (pool_state, unit) effect" where
  "BufferPool_writePageToDisk idx =
     sbind (get_frame idx) (\<lambda>fr.
     if fr_page fr = None then sreturn ()
     else
       sbind (frame_serialize idx) (\<lambda>buffer.
       let offset = nat ((fr_page_id fr * int PAGE_SIZE) mod 2 ^ 64) in
       sbind (smodify (\<lambda>(bp, lg). (if bp_failed bp then bp
          else bp\<lparr>bp_file := BufferPool_ensureFileSize (offset + PAGE_SIZE) (bp_file bp)\<rparr>, lg))) (\<lambda>_.
       sbind (smodify (\<lambda>(bp, tm, w). (bp, tm, WALWriter_flushUpTo w (pg_lsn (the (fr_page fr)))))) (\<lambda>_.
       sbind (sget (\<lambda>(bp, lg). bp_failed bp)) (\<lambda>failed.
       if failed then sthrow (RuntimeError (''Failed to write page '' @ string_of_int (fr_page_id fr) @ '' to disk''))
       else smodify (\<lambda>(bp, lg). (bp\<lparr>bp_file := overwrite (bp_file bp) offset buffer\<rparr>, lg)))))))"

definition BufferPool_readPageFromDisk :: "nat \<Rightarrow> int \<Rightarrow> (pool_state, unit) effect" where
  "BufferPool_readPageFromDisk idx page_id =
     (if \<not> int32 (page_id * int PAGE_SIZE) then sthrow (UndefinedBehaviour ''int overflow in page_id * PAGE_SIZE'')
      else
        sbind (sget (\<lambda>(bp, lg). bp_failed bp \<or> page_id < 0 \<or> length (bp_file bp) < nat page_id * PAGE_SIZE + PAGE_SIZE)) (\<lambda>bad.
        if bad then
          sbind (smodify (\<lambda>(bp, lg). (bp\<lparr>bp_failed := True\<rparr>, lg))) (\<lambda>_.
          sthrow (RuntimeError (''Failed to read page '' @ string_of_int page_id @ '' from disk'')))
        else
          sbind (sget (\<lambda>(bp, lg). chunk (nat page_id * PAGE_SIZE) PAGE_SIZE (bp_file bp))) (\<lambda>buffer.
          sbind (slift (Page_deserialize buffer)) (\<lambda>p.
          set_frame idx (\<lambda>fr. fr\<lparr>fr_page := Some p, fr_page_id := page_id, fr_dirty := False,
            fr_before_image := buffer, fr_before_image_valid := True\<rparr>)))))"

definition BufferPool_evictFrame :: "(pool_state, nat) effect" where
  "BufferPool_evictFrame =
     sbind (sget (\<lambda>(bp, lg). EvictionPolicy_selectVictim (bp_policy bp) (bp_frames bp))) (\<lambda>(idx, policy).
     sbind (smodify (\<lambda>(bp, lg). (bp\<lparr>bp_policy := policy\<rparr>, lg))) (\<lambda>_.
     if idx < 0 then sthrow (RuntimeError ''BufferPool: all frames are pinned, cannot evict'')
     else
       sbind (get_frame (nat idx)) (\<lambda>fr.
       if fr_page fr = None then sreturn (nat idx)
       else
         sbind (if fr_dirty fr
                then sbind (BufferPool_writePageToDisk (nat idx)) (\<lambda>_. set_frame (nat idx) (\<lambda>fr. fr\<lparr>fr_dirty := False\<rparr>))
                else sreturn ()) (\<lambda>_.
         sbind (set_frame (nat idx) (\<lambda>fr. fr\<lparr>fr_page := None, fr_page_id := -1\<rparr>)) (\<lambda>_.
         sreturn (nat idx))))))"

section \<open>Fetching, unpinning, allocating\<close>

definition BufferPool_captureBeforeImage :: "nat \<Rightarrow> (pool_state, unit) effect" where
  "BufferPool_captureBeforeImage idx =
     sbind (get_frame idx) (\<lambda>fr.
     if fr_before_image_valid fr then sreturn ()
     else sbind (frame_serialize idx) (\<lambda>buf.
       set_frame idx (\<lambda>fr. fr\<lparr>fr_before_image := buf, fr_before_image_valid := True\<rparr>)))"

definition record_access :: "nat \<Rightarrow> (pool_state, unit) effect" where
  "record_access idx = smodify (\<lambda>(bp, lg). (bp\<lparr>bp_policy := EvictionPolicy_recordAccess (bp_policy bp) idx\<rparr>, lg))"

definition BufferPool_fetchPage :: "int \<Rightarrow> (pool_state, nat) effect" where
  "BufferPool_fetchPage page_id =
     sbind (sget (\<lambda>(bp, lg). BufferPool_findFrame bp page_id)) (\<lambda>idx.
     if idx \<noteq> -1 then
       sbind (set_frame (nat idx) (\<lambda>fr. fr\<lparr>fr_pin_count := fr_pin_count fr + 1\<rparr>)) (\<lambda>_.
       sbind (record_access (nat idx)) (\<lambda>_.
       sbind (BufferPool_captureBeforeImage (nat idx)) (\<lambda>_.
       sreturn (nat idx))))
     else
       sbind BufferPool_evictFrame (\<lambda>idx.
       sbind (BufferPool_readPageFromDisk idx page_id) (\<lambda>_.
       sbind (set_frame idx (\<lambda>fr. fr\<lparr>fr_pin_count := 1\<rparr>)) (\<lambda>_.
       sbind (record_access idx) (\<lambda>_.
       sbind (BufferPool_captureBeforeImage idx) (\<lambda>_.
       sreturn idx))))))"

definition BufferPool_logUpdateIfChanged :: "nat \<Rightarrow> int \<Rightarrow> u64 \<Rightarrow> (pool_state, unit) effect" where
  "BufferPool_logUpdateIfChanged idx page_id txn_id =
     sbind (get_frame idx) (\<lambda>fr.
     if \<not> fr_before_image_valid fr then sreturn ()
     else
       sbind (frame_serialize idx) (\<lambda>after_image.
       if after_image = fr_before_image fr then set_frame idx (\<lambda>fr. fr\<lparr>fr_before_image_valid := False\<rparr>)
       else
         let auto_commit = (txn_id = 0) in
         sbind (\<lambda>(bp, tm, w). if auto_commit
              then (let (active_txn, tm, w) = TransactionManager_begin tm w in (Inr active_txn, bp, tm, w))
              else (Inr txn_id, bp, tm, w)) (\<lambda>active_txn.
         sbind (\<lambda>(bp, tm, w).
              let (lsn, tm, w) = TransactionManager_appendRecord tm w active_txn UPDATE HEAP page_id
                    (fr_before_image fr) after_image (bp_table_id bp) in (Inr lsn, bp, tm, w)) (\<lambda>lsn.
         sbind (smodify (\<lambda>(bp, tm, w). if auto_commit then (bp, TransactionManager_commit tm w active_txn) else (bp, tm, w))) (\<lambda>_.
         set_frame idx (\<lambda>fr. fr\<lparr>fr_page := map_option (\<lambda>p. Page_setLSN p lsn) (fr_page fr),
           fr_before_image_valid := False\<rparr>))))))"

definition BufferPool_unpinPage :: "int \<Rightarrow> bool \<Rightarrow> u64 \<Rightarrow> (pool_state, unit) effect" where
  "BufferPool_unpinPage page_id dirty txn_id =
     sbind (sget (\<lambda>(bp, lg). BufferPool_findFrame bp page_id)) (\<lambda>idx.
     if idx = -1 then sthrow (RuntimeError (''unpinPage: page '' @ string_of_int page_id @ '' not in buffer pool''))
     else
       sbind (set_frame (nat idx) (\<lambda>fr. if fr_pin_count fr > 0 then fr\<lparr>fr_pin_count := fr_pin_count fr - 1\<rparr> else fr)) (\<lambda>_.
       if dirty then
         sbind (BufferPool_logUpdateIfChanged (nat idx) page_id txn_id) (\<lambda>_.
         set_frame (nat idx) (\<lambda>fr. fr\<lparr>fr_dirty := True\<rparr>))
       else sreturn ()))"

definition BufferPool_allocatePage :: "(pool_state, int) effect" where
  "BufferPool_allocatePage =
     sbind (sget (\<lambda>(bp, lg). bp_next_page_id bp)) (\<lambda>page_id.
     sbind (smodify (\<lambda>(bp, lg). (bp\<lparr>bp_next_page_id := page_id + 1\<rparr>, lg))) (\<lambda>_.
     sbind BufferPool_evictFrame (\<lambda>idx.
     sbind (set_frame idx (\<lambda>fr. fr\<lparr>fr_page := Some (Page_new (word_of_int page_id)), fr_page_id := page_id,
       fr_dirty := True, fr_pin_count := 0\<rparr>)) (\<lambda>_.
     sbind (smodify (\<lambda>(bp, lg). (bp\<lparr>bp_policy := EvictionPolicy_reset (bp_policy bp) idx\<rparr>, lg))) (\<lambda>_.
     sbind (frame_serialize idx) (\<lambda>buf.
     sbind (set_frame idx (\<lambda>fr. fr\<lparr>fr_before_image := buf, fr_before_image_valid := True\<rparr>)) (\<lambda>_.
     sreturn page_id)))))))"

fun BufferPool_flushFrom :: "nat list \<Rightarrow> (pool_state, unit) effect" where
  "BufferPool_flushFrom [] = sreturn ()"
| "BufferPool_flushFrom (i # is) =
     sbind (get_frame i) (\<lambda>fr.
     sbind (if fr_page fr \<noteq> None \<and> fr_dirty fr
            then sbind (BufferPool_writePageToDisk i) (\<lambda>_. set_frame i (\<lambda>fr. fr\<lparr>fr_dirty := False\<rparr>))
            else sreturn ()) (\<lambda>_.
     BufferPool_flushFrom is))"

definition BufferPool_flush :: "(pool_state, unit) effect" where
  "BufferPool_flush = sbind (sget (\<lambda>(bp, lg). [0..<length (bp_frames bp)])) BufferPool_flushFrom"

section \<open>The page manager\<close>

definition PageManager_readPage :: "int \<Rightarrow> (pool_state, Page) effect" where
  "PageManager_readPage page_id =
     sbind (BufferPool_fetchPage page_id) (\<lambda>idx.
     sbind (frame_serialize idx) (\<lambda>data.
     sbind (BufferPool_unpinPage page_id False 0) (\<lambda>_.
     slift (Page_deserialize data))))"

definition PageManager_writePage :: "Page \<Rightarrow> u64 \<Rightarrow> (pool_state, unit) effect" where
  "PageManager_writePage page txn_id =
     sbind (slift (Page_serialize page)) (\<lambda>(data, page).
     let page_id = sint (pg_page_id page) in
     sbind (BufferPool_fetchPage page_id) (\<lambda>idx.
     sbind (slift (Page_deserialize data)) (\<lambda>p.
     sbind (set_frame idx (\<lambda>fr. fr\<lparr>fr_page := Some p\<rparr>)) (\<lambda>_.
     BufferPool_unpinPage page_id True txn_id))))"

definition PageManager_allocatePage :: "(pool_state, int) effect" where
  "PageManager_allocatePage = BufferPool_allocatePage"

definition PageManager_getNextPageId :: "(pool_state, int) effect" where
  "PageManager_getNextPageId = sget (\<lambda>(bp, lg). bp_next_page_id bp)"

definition PageManager_flush :: "(pool_state, unit) effect" where
  "PageManager_flush = BufferPool_flush"

end
