(* ===== verification/Page_Store.thy ===== *)
theory Page_Store
  imports Buffer_Pool
begin

text \<open>
  Correctness of the buffer pool and the page manager: whatever is cached, dirty or evicted, the pool
  behaves as a map from page ids to pages. \<open>pool_ok\<close> is the invariant, \<open>pool_view\<close> the map.
  The locale \<open>page_store\<close> is the contract the record manager relies on; it is interpreted on the page
  manager.
\<close>

section \<open>Pages as bytes\<close>

definition norm_page :: "Page \<Rightarrow> Page" where
  "norm_page p = p\<lparr>pg_data := Page_image p\<rparr>"

lemma norm_page_fields [simp]:
  "pg_page_id (norm_page p) = pg_page_id p" "pg_lsn (norm_page p) = pg_lsn p"
  "pg_num_slots (norm_page p) = pg_num_slots p" "pg_slot_directory (norm_page p) = pg_slot_directory p"
  "pg_free_space_offset (norm_page p) = pg_free_space_offset p" "Page_getFreeSpace (norm_page p) = Page_getFreeSpace p"
  by (simp_all add: norm_page_def Page_getFreeSpace_def)

lemma setLSN_fields [simp]:
  "pg_page_id (Page_setLSN p l) = pg_page_id p" "Page_abs (Page_setLSN p l) = Page_abs p"
  "Page_getFreeSpace (Page_setLSN p l) = Page_getFreeSpace p" "pg_lsn (Page_setLSN p l) = l"
  by (simp_all add: Page_setLSN_def Page_abs_def Page_getFreeSpace_def)

lemma norm_page_wf [simp]: "page_wf p \<Longrightarrow> page_wf (norm_page p)"
  by (simp add: norm_page_def page_wf_image)

lemma norm_page_abs [simp]: "page_wf p \<Longrightarrow> Page_abs (norm_page p) = Page_abs p"
  by (simp add: norm_page_def Page_abs_image)

lemma image_norm [simp]: "page_wf p \<Longrightarrow> Page_image (norm_page p) = Page_image p"
proof -
  assume wf: "page_wf p"
  have "length (Page_headerBytes p @ concat (map SlotEntry_bytes (pg_slot_directory p))) = 16 + length (pg_slot_directory p) * 5"
    by simp
  then have "drop (16 + length (pg_slot_directory p) * 5) (Page_image p) = drop (16 + length (pg_slot_directory p) * 5) (pg_data p)"
    unfolding Page_image_def by (metis append.assoc append_eq_conv_conj)
  then show ?thesis
    by (simp add: norm_page_def Page_image_def [of "p\<lparr>pg_data := Page_image p\<rparr>"]) (simp add: Page_image_def Page_headerBytes_def)
qed

lemma norm_norm [simp]: "page_wf p \<Longrightarrow> norm_page (norm_page p) = norm_page p"
  using image_norm [of p] by (simp add: norm_page_def)

lemma serialize_norm [simp]: "page_wf p \<Longrightarrow> Page_serialize p = Inr (Page_image p, norm_page p)"
  by (simp add: Page_serialize_eq norm_page_def)

lemma deserialize_norm [simp]: "page_wf p \<Longrightarrow> Page_deserialize (Page_image p) = Inr (norm_page p)"
  by (simp add: Page_deserialize_image norm_page_def)

lemma page_wf_setLSN [simp]: "page_wf (Page_setLSN p l) = page_wf p"
  by (simp add: page_wf_def Page_setLSN_def)

lemma image_inj_norm: "page_wf p \<Longrightarrow> page_wf q \<Longrightarrow> Page_image p = Page_image q \<Longrightarrow> norm_page p = norm_page q"
  by (metis deserialize_norm sum.inject(2))

section \<open>The file\<close>

text \<open>The bytes of page \<open>pid\<close> in the file are \<open>img\<close>.\<close>

definition on_disk :: "byte list \<Rightarrow> int \<Rightarrow> byte list \<Rightarrow> bool" where
  "on_disk file pid img \<longleftrightarrow> nat pid * PAGE_SIZE + PAGE_SIZE \<le> length file \<and> chunk (nat pid * PAGE_SIZE) PAGE_SIZE file = img"

definition disk_page :: "byte list \<Rightarrow> int \<Rightarrow> bool" where
  "disk_page file pid \<longleftrightarrow> (\<exists>p. page_wf p \<and> pg_page_id p = word_of_int pid \<and> on_disk file pid (Page_image p))"

definition write_file :: "byte list \<Rightarrow> int \<Rightarrow> byte list \<Rightarrow> byte list" where
  "write_file file pid img = overwrite (BufferPool_ensureFileSize (nat pid * PAGE_SIZE + PAGE_SIZE) file) (nat pid * PAGE_SIZE) img"

lemma on_disk_ensure: "on_disk file pid img \<Longrightarrow> on_disk (BufferPool_ensureFileSize n file) pid img"
  by (auto simp: on_disk_def BufferPool_ensureFileSize_def)

lemma length_ensure: "n \<le> length (BufferPool_ensureFileSize n file)" "length file \<le> length (BufferPool_ensureFileSize n file)"
  by (simp_all add: BufferPool_ensureFileSize_def)

lemma on_disk_written: "length img = PAGE_SIZE \<Longrightarrow> on_disk (write_file file pid img) pid img"
  using length_ensure(1) [of "nat pid * PAGE_SIZE + PAGE_SIZE" "file"] by (simp add: on_disk_def write_file_def)

lemma on_disk_other:
  assumes "on_disk file pid' x" "0 \<le> pid" "0 \<le> pid'" "pid \<noteq> pid'" "length img = PAGE_SIZE"
  shows "on_disk (write_file file pid img) pid' x"
proof -
  let ?f = "BufferPool_ensureFileSize (nat pid * PAGE_SIZE + PAGE_SIZE) file"
  have e: "on_disk ?f pid' x" using assms(1) by (rule on_disk_ensure)
  have len: "nat pid * PAGE_SIZE + PAGE_SIZE \<le> length ?f" by (rule length_ensure)
  have "nat pid < nat pid' \<or> nat pid' < nat pid" using assms by linarith
  then have "nat pid' * PAGE_SIZE + PAGE_SIZE \<le> nat pid * PAGE_SIZE \<or> nat pid * PAGE_SIZE + PAGE_SIZE \<le> nat pid' * PAGE_SIZE"
    by (metis Suc_leI add.commute mult_Suc mult_le_mono1)
  then show ?thesis
    using e len assms(5) by (auto simp: on_disk_def write_file_def chunk_overwrite_disjoint)
qed

section \<open>The invariant\<close>

definition frame_ok :: "byte list \<Rightarrow> int \<Rightarrow> BufferFrame \<Rightarrow> bool" where
  "frame_ok file nxt fr \<longleftrightarrow> (\<forall>p. fr_page fr = Some p \<longrightarrow> page_wf p
     \<and> 0 \<le> fr_page_id fr \<and> fr_page_id fr < nxt \<and> pg_page_id p = word_of_int (fr_page_id fr)
     \<and> (fr_before_image_valid fr \<longrightarrow> fr_before_image fr = Page_image p)
     \<and> (\<not> fr_dirty fr \<longrightarrow> on_disk file (fr_page_id fr) (Page_image p)))"

definition holds_page :: "BufferFrame \<Rightarrow> int \<Rightarrow> bool" where
  "holds_page fr pid \<longleftrightarrow> fr_page fr \<noteq> None \<and> fr_page_id fr = pid"

definition ids_distinct :: "BufferFrame list \<Rightarrow> bool" where
  "ids_distinct frs \<longleftrightarrow> (\<forall>i < length frs. \<forall>j < length frs. \<forall>pid. holds_page (frs ! i) pid \<longrightarrow> holds_page (frs ! j) pid \<longrightarrow> i = j)"

definition covered :: "byte list \<Rightarrow> int \<Rightarrow> BufferFrame list \<Rightarrow> bool" where
  "covered file nxt frs \<longleftrightarrow> (\<forall>pid. 0 \<le> pid \<longrightarrow> pid < nxt \<longrightarrow> (\<exists>i < length frs. holds_page (frs ! i) pid) \<or> disk_page file pid)"

text \<open>The largest page count whose offsets fit the \<open>int\<close> arithmetic of \<open>readPageFromDisk\<close>.\<close>

definition MAX_PAGES :: int where "MAX_PAGES = 524288"

definition pool_ok :: "BufferPool \<Rightarrow> bool" where
  "pool_ok bp \<longleftrightarrow> \<not> bp_failed bp \<and> 0 \<le> bp_next_page_id bp \<and> bp_next_page_id bp \<le> MAX_PAGES
     \<and> (\<forall>i < length (bp_frames bp). frame_ok (bp_file bp) (bp_next_page_id bp) (bp_frames bp ! i))
     \<and> ids_distinct (bp_frames bp) \<and> covered (bp_file bp) (bp_next_page_id bp) (bp_frames bp)"

definition pool_view :: "BufferPool \<Rightarrow> int \<Rightarrow> Page option" where
  "pool_view bp pid =
     (let i = BufferPool_findFrame bp pid in
      if i \<noteq> -1 then map_option norm_page (fr_page (bp_frames bp ! nat i))
      else if 0 \<le> pid \<and> pid < bp_next_page_id bp
      then (case Page_deserialize (chunk (nat pid * PAGE_SIZE) PAGE_SIZE (bp_file bp)) of Inr p \<Rightarrow> Some p | Inl _ \<Rightarrow> None)
      else None)"

lemma findFrame_hit:
  assumes "ids_distinct (bp_frames bp)" "i < length (bp_frames bp)" "holds_page (bp_frames bp ! i) pid"
  shows "BufferPool_findFrame bp pid = int i"
proof -
  let ?P = "\<lambda>i. fr_page (bp_frames bp ! i) \<noteq> None \<and> fr_page_id (bp_frames bp ! i) = pid"
  have in_set: "i \<in> set (filter ?P [0..<length (bp_frames bp)])"
    using assms(2,3) by (auto simp: holds_page_def)
  then obtain j js where js: "filter ?P [0..<length (bp_frames bp)] = j # js"
    by (metis list.exhaust list.set(1) empty_iff)
  then have "j \<in> set (filter ?P [0..<length (bp_frames bp)])" by simp
  then have "j < length (bp_frames bp)" "holds_page (bp_frames bp ! j) pid" by (auto simp: holds_page_def)
  with assms have "j = i" by (auto simp: ids_distinct_def)
  with js show ?thesis unfolding BufferPool_findFrame_def by simp
qed

lemma findFrame_miss:
  assumes "\<forall>i < length (bp_frames bp). \<not> holds_page (bp_frames bp ! i) pid"
  shows "BufferPool_findFrame bp pid = -1"
proof -
  have "filter (\<lambda>i. fr_page (bp_frames bp ! i) \<noteq> None \<and> fr_page_id (bp_frames bp ! i) = pid) [0..<length (bp_frames bp)] = []"
    using assms by (auto simp: filter_empty_conv holds_page_def)
  then show ?thesis unfolding BufferPool_findFrame_def by simp
qed

lemma view_hit:
  "ids_distinct (bp_frames bp) \<Longrightarrow> i < length (bp_frames bp) \<Longrightarrow> holds_page (bp_frames bp ! i) pid \<Longrightarrow>
   pool_view bp pid = map_option norm_page (fr_page (bp_frames bp ! i))"
  by (simp add: pool_view_def findFrame_hit)

lemma view_miss:
  assumes "\<forall>i < length (bp_frames bp). \<not> holds_page (bp_frames bp ! i) pid"
    and "0 \<le> pid" "pid < bp_next_page_id bp" "page_wf p" "on_disk (bp_file bp) pid (Page_image p)"
  shows "pool_view bp pid = Some (norm_page p)"
  using assms by (simp add: pool_view_def findFrame_miss on_disk_def)

lemma view_out:
  assumes "pool_ok bp" "pid < 0 \<or> bp_next_page_id bp \<le> pid"
  shows "pool_view bp pid = None"
proof -
  have "\<not> holds_page (bp_frames bp ! i) pid" if "i < length (bp_frames bp)" for i
    using assms that by (fastforce simp: pool_ok_def frame_ok_def holds_page_def)
  then show ?thesis
    using assms by (auto simp: pool_view_def findFrame_miss)
qed

lemma pool_cases:
  assumes "pool_ok bp" "0 \<le> pid" "pid < bp_next_page_id bp"
  obtains (cached) i p where "i < length (bp_frames bp)" "fr_page (bp_frames bp ! i) = Some p"
      "fr_page_id (bp_frames bp ! i) = pid" "page_wf p" "pg_page_id p = word_of_int pid"
      "BufferPool_findFrame bp pid = int i" "pool_view bp pid = Some (norm_page p)"
  | (disk) p where "\<forall>i < length (bp_frames bp). \<not> holds_page (bp_frames bp ! i) pid" "page_wf p"
      "pg_page_id p = word_of_int pid" "on_disk (bp_file bp) pid (Page_image p)"
      "BufferPool_findFrame bp pid = -1" "pool_view bp pid = Some (norm_page p)"
proof (cases "\<exists>i < length (bp_frames bp). holds_page (bp_frames bp ! i) pid")
  case True
  then obtain i where i: "i < length (bp_frames bp)" "holds_page (bp_frames bp ! i) pid" by blast
  then obtain p where "fr_page (bp_frames bp ! i) = Some p" "fr_page_id (bp_frames bp ! i) = pid"
    by (auto simp: holds_page_def)
  moreover have "ids_distinct (bp_frames bp)" "frame_ok (bp_file bp) (bp_next_page_id bp) (bp_frames bp ! i)"
    using assms(1) i by (simp_all add: pool_ok_def)
  ultimately show thesis
    using i findFrame_hit [of bp i pid] view_hit [of bp i pid]
    by (intro cached [of i p]) (auto simp: frame_ok_def)
next
  case False
  then have "disk_page (bp_file bp) pid"
    using assms by (auto simp: pool_ok_def covered_def)
  then obtain p where "page_wf p" "pg_page_id p = word_of_int pid" "on_disk (bp_file bp) pid (Page_image p)"
    by (auto simp: disk_page_def)
  with False show thesis
    using disk findFrame_miss view_miss [of bp pid p] assms(2,3) by blast
qed

section \<open>Changing one frame or one page of the file\<close>

definition put_frame :: "BufferPool \<Rightarrow> nat \<Rightarrow> BufferFrame \<Rightarrow> BufferPool" where
  "put_frame bp i fr = bp\<lparr>bp_frames := (bp_frames bp)[i := fr]\<rparr>"

lemma put_frame_fields [simp]:
  "bp_file (put_frame bp i fr) = bp_file bp" "bp_failed (put_frame bp i fr) = bp_failed bp"
  "bp_next_page_id (put_frame bp i fr) = bp_next_page_id bp" "bp_table_id (put_frame bp i fr) = bp_table_id bp"
  "bp_policy (put_frame bp i fr) = bp_policy bp" "length (bp_frames (put_frame bp i fr)) = length (bp_frames bp)"
  "i < length (bp_frames bp) \<Longrightarrow> bp_frames (put_frame bp i fr) ! i = fr"
  "j \<noteq> i \<Longrightarrow> bp_frames (put_frame bp i fr) ! j = bp_frames bp ! j"
  by (simp_all add: put_frame_def)

lemma view_cong:
  assumes "length (bp_frames bp') = length (bp_frames bp)" "bp_next_page_id bp' = bp_next_page_id bp"
    and same: "\<And>j. j < length (bp_frames bp) \<Longrightarrow> holds_page (bp_frames bp' ! j) pid = holds_page (bp_frames bp ! j) pid"
    and img: "\<And>j. j < length (bp_frames bp) \<Longrightarrow> holds_page (bp_frames bp ! j) pid \<Longrightarrow>
      map_option norm_page (fr_page (bp_frames bp' ! j)) = map_option norm_page (fr_page (bp_frames bp ! j))"
    and dsk: "\<forall>j < length (bp_frames bp). \<not> holds_page (bp_frames bp ! j) pid \<Longrightarrow> 0 \<le> pid \<Longrightarrow> pid < bp_next_page_id bp \<Longrightarrow>
      chunk (nat pid * PAGE_SIZE) PAGE_SIZE (bp_file bp') = chunk (nat pid * PAGE_SIZE) PAGE_SIZE (bp_file bp)"
  shows "pool_view bp' pid = pool_view bp pid"
proof -
  let ?P = "\<lambda>bp i. fr_page (bp_frames bp ! i) \<noteq> None \<and> fr_page_id (bp_frames bp ! i) = pid"
  have P: "?P bp' j = ?P bp j" if "j < length (bp_frames bp)" for j
    using same [OF that] unfolding holds_page_def .
  have flt: "filter (?P bp') [0..<length (bp_frames bp')] = filter (?P bp) [0..<length (bp_frames bp)]"
    unfolding assms(1) by (intro filter_cong refl) (simp only: set_upt atLeastLessThan_iff P)
  then have ff: "BufferPool_findFrame bp' pid = BufferPool_findFrame bp pid"
    unfolding BufferPool_findFrame_def by simp
  show ?thesis
  proof (cases "filter (?P bp) [0..<length (bp_frames bp)]")
    case Nil
    then have "\<forall>j < length (bp_frames bp). \<not> holds_page (bp_frames bp ! j) pid"
      by (auto simp: filter_empty_conv holds_page_def)
    with dsk ff assms(2) show ?thesis by (simp add: pool_view_def findFrame_miss)
  next
    case (Cons j js)
    then have "j \<in> set (filter (?P bp) [0..<length (bp_frames bp)])" by simp
    then have "j < length (bp_frames bp)" "holds_page (bp_frames bp ! j) pid" by (auto simp: holds_page_def)
    moreover have "BufferPool_findFrame bp pid = int j" using Cons unfolding BufferPool_findFrame_def by simp
    ultimately show ?thesis using img ff by (simp add: pool_view_def)
  qed
qed

lemma put_page:
  assumes ok: "pool_ok bp" and i: "i < length (bp_frames bp)"
    and fr: "fr_page fr = Some p" "fr_page_id fr = pid" "frame_ok (bp_file bp) (bp_next_page_id bp) fr"
    and others: "\<And>j. j < length (bp_frames bp) \<Longrightarrow> j \<noteq> i \<Longrightarrow> \<not> holds_page (bp_frames bp ! j) pid"
    and old: "\<And>pid'. holds_page (bp_frames bp ! i) pid' \<Longrightarrow> pid' = pid"
  shows "pool_ok (put_frame bp i fr)" "pool_view (put_frame bp i fr) = (pool_view bp)(pid := Some (norm_page p))"
proof -
  let ?bp = "put_frame bp i fr"
  have nth: "bp_frames ?bp ! j = (if j = i then fr else bp_frames bp ! j)" if "j < length (bp_frames bp)" for j
    using i that by auto
  have h: "holds_page fr pid' \<longleftrightarrow> pid' = pid" for pid'
    using fr by (auto simp: holds_page_def)
  have dist: "ids_distinct (bp_frames ?bp)"
    using ok others i unfolding ids_distinct_def pool_ok_def by (auto simp: nth h split: if_splits)
  have "covered (bp_file bp) (bp_next_page_id bp) (bp_frames ?bp)"
    unfolding covered_def
  proof (intro allI impI)
    fix q assume "0 \<le> q" "q < bp_next_page_id bp"
    then have "(\<exists>j < length (bp_frames bp). holds_page (bp_frames bp ! j) q) \<or> disk_page (bp_file bp) q"
      using ok by (simp add: pool_ok_def covered_def)
    then show "(\<exists>j < length (bp_frames ?bp). holds_page (bp_frames ?bp ! j) q) \<or> disk_page (bp_file bp) q"
      using i nth h old by (metis put_frame_fields(6))
  qed
  with ok dist fr(3) i show "pool_ok ?bp" by (simp add: pool_ok_def nth)
  have "pool_view ?bp pid = Some (norm_page p)"
    using view_hit [OF dist, of i pid] i fr h by (simp add: nth)
  moreover have "pool_view ?bp q = pool_view bp q" if "q \<noteq> pid" for q
    using that h old i by (intro view_cong) (auto simp: nth)
  ultimately show "pool_view ?bp = (pool_view bp)(pid := Some (norm_page p))" by auto
qed

lemma put_empty:
  assumes ok: "pool_ok bp" and i: "i < length (bp_frames bp)"
    and clean: "fr_page (bp_frames bp ! i) = Some p" "\<not> fr_dirty (bp_frames bp ! i)" and fr: "fr_page fr = None"
  shows "pool_ok (put_frame bp i fr)" "pool_view (put_frame bp i fr) = pool_view bp"
proof -
  let ?bp = "put_frame bp i fr" and ?pid = "fr_page_id (bp_frames bp ! i)"
  have nth: "bp_frames ?bp ! j = (if j = i then fr else bp_frames bp ! j)" if "j < length (bp_frames bp)" for j
    using i that by auto
  have h: "\<not> holds_page fr q" for q using fr by (simp add: holds_page_def)
  have old: "frame_ok (bp_file bp) (bp_next_page_id bp) (bp_frames bp ! i)" "ids_distinct (bp_frames bp)"
    using ok i by (simp_all add: pool_ok_def)
  then have p: "page_wf p" "on_disk (bp_file bp) ?pid (Page_image p)" "pg_page_id p = word_of_int ?pid"
      "0 \<le> ?pid" "?pid < bp_next_page_id bp"
    using clean by (auto simp: frame_ok_def)
  have hi: "holds_page (bp_frames bp ! i) q \<longleftrightarrow> q = ?pid" for q using clean by (auto simp: holds_page_def)
  have "frame_ok (bp_file bp) (bp_next_page_id bp) fr" using fr by (simp add: frame_ok_def)
  moreover have "ids_distinct (bp_frames ?bp)"
    using old(2) h unfolding ids_distinct_def by (auto simp: nth split: if_splits)
  moreover have "covered (bp_file bp) (bp_next_page_id bp) (bp_frames ?bp)"
    unfolding covered_def
  proof (intro allI impI)
    fix q assume "0 \<le> q" "q < bp_next_page_id bp"
    then have "(\<exists>j < length (bp_frames bp). holds_page (bp_frames bp ! j) q) \<or> disk_page (bp_file bp) q"
      using ok by (simp add: pool_ok_def covered_def)
    moreover have "disk_page (bp_file bp) ?pid" using p by (auto simp: disk_page_def)
    ultimately show "(\<exists>j < length (bp_frames ?bp). holds_page (bp_frames ?bp ! j) q) \<or> disk_page (bp_file bp) q"
      using nth hi by (metis put_frame_fields(6))
  qed
  ultimately show "pool_ok ?bp" using ok by (simp add: pool_ok_def nth)
  have no: "\<not> holds_page (bp_frames ?bp ! j) ?pid" if "j < length (bp_frames bp)" for j
    using old(2) i that h hi unfolding ids_distinct_def by (auto simp: nth)
  have "pool_view ?bp ?pid = Some (norm_page p)"
    using no p by (intro view_miss) auto
  moreover have "pool_view bp ?pid = Some (norm_page p)"
    using view_hit [OF old(2) i, of ?pid] hi clean by simp
  moreover have "pool_view ?bp q = pool_view bp q" if "q \<noteq> ?pid" for q
    using that h hi by (intro view_cong) (auto simp: nth)
  ultimately show "pool_view ?bp = pool_view bp" by (intro ext) metis
qed

lemma put_file:
  assumes ok: "pool_ok bp" and i: "i < length (bp_frames bp)"
    and pg: "fr_page (bp_frames bp ! i) = Some p" "fr_page_id (bp_frames bp ! i) = pid"
  shows "pool_ok (bp\<lparr>bp_file := write_file (bp_file bp) pid (Page_image p)\<rparr>)"
    "pool_view (bp\<lparr>bp_file := write_file (bp_file bp) pid (Page_image p)\<rparr>) = pool_view bp"
proof -
  let ?f = "write_file (bp_file bp) pid (Page_image p)"
  have fi: "frame_ok (bp_file bp) (bp_next_page_id bp) (bp_frames bp ! i)" and dist: "ids_distinct (bp_frames bp)"
    using ok i by (simp_all add: pool_ok_def)
  then have p: "page_wf p" "0 \<le> pid" "length (Page_image p) = PAGE_SIZE"
    using pg by (auto simp: frame_ok_def PAGE_SIZE_def)
  have hi: "holds_page (bp_frames bp ! i) pid" using pg by (auto simp: holds_page_def)
  have fj: "frame_ok ?f (bp_next_page_id bp) (bp_frames bp ! j)" if "j < length (bp_frames bp)" for j
  proof (cases "j = i")
    case True
    then show ?thesis using fi pg on_disk_written [OF p(3)] by (auto simp: frame_ok_def)
  next
    case False
    then have "\<not> holds_page (bp_frames bp ! j) pid"
      using dist i that hi by (auto simp: ids_distinct_def)
    moreover have "frame_ok (bp_file bp) (bp_next_page_id bp) (bp_frames bp ! j)"
      using ok that by (simp add: pool_ok_def)
    ultimately show ?thesis
      using p(2,3) by (auto simp: frame_ok_def holds_page_def intro: on_disk_other)
  qed
  have "covered ?f (bp_next_page_id bp) (bp_frames bp)"
    unfolding covered_def
  proof (intro allI impI)
    fix q assume q: "0 \<le> q" "q < bp_next_page_id bp"
    then have "(\<exists>j < length (bp_frames bp). holds_page (bp_frames bp ! j) q) \<or> disk_page (bp_file bp) q"
      using ok by (simp add: pool_ok_def covered_def)
    moreover have "disk_page ?f q" if "disk_page (bp_file bp) q" "q \<noteq> pid"
      using that(1) on_disk_other [OF _ p(2) q(1) that(2) [symmetric] p(3)] unfolding disk_page_def by blast
    ultimately show "(\<exists>j < length (bp_frames bp). holds_page (bp_frames bp ! j) q) \<or> disk_page ?f q"
      using hi i by blast
  qed
  with ok fj show "pool_ok (bp\<lparr>bp_file := ?f\<rparr>)" by (simp add: pool_ok_def)
  have "pool_view (bp\<lparr>bp_file := ?f\<rparr>) q = pool_view bp q" for q
  proof (rule view_cong)
    assume none: "\<forall>j < length (bp_frames bp). \<not> holds_page (bp_frames bp ! j) q" and q: "0 \<le> q" "q < bp_next_page_id bp"
    then have "q \<noteq> pid" using hi i by blast
    moreover obtain r where "on_disk (bp_file bp) q (Page_image r)"
      using ok none q by (auto simp: pool_ok_def covered_def disk_page_def)
    ultimately show "chunk (nat q * PAGE_SIZE) PAGE_SIZE (bp_file (bp\<lparr>bp_file := ?f\<rparr>)) = chunk (nat q * PAGE_SIZE) PAGE_SIZE (bp_file bp)"
      using on_disk_other [of "bp_file bp" q "Page_image r" pid "Page_image p"] p q by (simp add: on_disk_def)
  qed auto
  then show "pool_view (bp\<lparr>bp_file := ?f\<rparr>) = pool_view bp" by blast
qed

lemma pool_ok_policy [simp]: "pool_ok (bp\<lparr>bp_policy := x\<rparr>) = pool_ok bp" "pool_view (bp\<lparr>bp_policy := x\<rparr>) = pool_view bp"
  by (auto simp: pool_ok_def pool_view_def BufferPool_findFrame_def fun_eq_iff Let_def)

section \<open>The pool's methods\<close>

lemma set_frame_eq: "set_frame i f (bp, lg) = (Inr (), put_frame bp i (f (bp_frames bp ! i)), lg)"
  by (simp add: set_frame_def put_frame_def method_prims)

lemma sbind_run: "m (bp, lg) = (Inr x, s') \<Longrightarrow> sbind m k (bp, lg) = k x s'" for m :: "(pool_state, 'a) effect"
  by (simp add: sbind_def)

lemma get_frame_bind: "sbind (get_frame i) k (bp, lg) = k (bp_frames bp ! i) (bp, lg)"
  by (simp add: get_frame_def)

lemma set_frame_bind: "sbind (set_frame i f) k (bp, lg) = k () (put_frame bp i (f (bp_frames bp ! i)), lg)"
  by (simp add: sbind_def set_frame_eq)

lemmas frame_simps = set_frame_eq get_frame_bind set_frame_bind

lemma put_frame_twice [simp]: "put_frame (put_frame bp i a) i b = put_frame bp i b"
  by (simp add: put_frame_def)

text \<open>\<open>at bp i p pid\<close>: frame \<open>i\<close> of a consistent pool holds page \<open>pid\<close>, with content \<open>p\<close>.\<close>

definition at :: "BufferPool \<Rightarrow> nat \<Rightarrow> Page \<Rightarrow> int \<Rightarrow> bool" where
  "at bp i p pid \<longleftrightarrow> pool_ok bp \<and> i < length (bp_frames bp) \<and> fr_page (bp_frames bp ! i) = Some p
     \<and> fr_page_id (bp_frames bp ! i) = pid"

lemma atD:
  assumes "at bp i p pid"
  shows "pool_ok bp" "i < length (bp_frames bp)" "fr_page (bp_frames bp ! i) = Some p" "fr_page_id (bp_frames bp ! i) = pid"
    "page_wf p" "0 \<le> pid" "pid < bp_next_page_id bp" "pg_page_id p = word_of_int pid"
    "holds_page (bp_frames bp ! i) pid" "pool_view bp pid = Some (norm_page p)" "BufferPool_findFrame bp pid = int i"
    "frame_ok (bp_file bp) (bp_next_page_id bp) (bp_frames bp ! i)"
    "fr_before_image_valid (bp_frames bp ! i) \<Longrightarrow> fr_before_image (bp_frames bp ! i) = Page_image p"
    "j < length (bp_frames bp) \<Longrightarrow> j \<noteq> i \<Longrightarrow> \<not> holds_page (bp_frames bp ! j) pid"
    "holds_page (bp_frames bp ! i) pid' \<Longrightarrow> pid' = pid"
proof -
  show 1: "pool_ok bp" "i < length (bp_frames bp)" "fr_page (bp_frames bp ! i) = Some p" "fr_page_id (bp_frames bp ! i) = pid"
    using assms by (simp_all add: at_def)
  then show f: "frame_ok (bp_file bp) (bp_next_page_id bp) (bp_frames bp ! i)" by (simp add: pool_ok_def)
  with 1 show "page_wf p" "0 \<le> pid" "pid < bp_next_page_id bp" "pg_page_id p = word_of_int pid"
      "fr_before_image_valid (bp_frames bp ! i) \<Longrightarrow> fr_before_image (bp_frames bp ! i) = Page_image p"
    by (auto simp: frame_ok_def)
  from 1 show h: "holds_page (bp_frames bp ! i) pid" by (simp add: holds_page_def)
  have d: "ids_distinct (bp_frames bp)" using 1 by (simp add: pool_ok_def)
  from view_hit [OF d 1(2) h] 1 show "pool_view bp pid = Some (norm_page p)" by simp
  from findFrame_hit [OF d 1(2) h] show "BufferPool_findFrame bp pid = int i" .
  show "j < length (bp_frames bp) \<Longrightarrow> j \<noteq> i \<Longrightarrow> \<not> holds_page (bp_frames bp ! j) pid"
    using d 1(2) h by (auto simp: ids_distinct_def)
  show "holds_page (bp_frames bp ! i) pid' \<Longrightarrow> pid' = pid" using h by (simp add: holds_page_def)
qed

text \<open>Replacing the contents and the bookkeeping of an occupied frame.\<close>

lemma at_put:
  assumes "at bp i p pid" "fr_page fr = Some q" "fr_page_id fr = pid" "frame_ok (bp_file bp) (bp_next_page_id bp) fr"
  shows "at (put_frame bp i fr) i q pid" "pool_view (put_frame bp i fr) = (pool_view bp)(pid := Some (norm_page q))"
  using put_page [OF atD(1,2) [OF assms(1)] assms(2-4) atD(14,15) [OF assms(1)]] atD(2) [OF assms(1)] assms
  by (simp_all add: at_def)

lemma at_put_same:
  assumes "at bp i p pid" "fr_page fr = Some q" "fr_page_id fr = pid" "frame_ok (bp_file bp) (bp_next_page_id bp) fr"
    and "norm_page q = norm_page p"
  shows "at (put_frame bp i fr) i q pid" "pool_view (put_frame bp i fr) = pool_view bp"
  using at_put [OF assms(1-4)] atD(10) [OF assms(1)] assms(5) by (auto simp: fun_upd_idem)

lemma frame_ok_norm:
  "frame_ok file nxt fr \<Longrightarrow> fr_page fr = Some p \<Longrightarrow> frame_ok file nxt (fr\<lparr>fr_page := Some (norm_page p)\<rparr>)"
  by (auto simp: frame_ok_def)

lemma frame_ok_clean:
  "frame_ok file nxt fr \<Longrightarrow> fr_page fr = Some p \<Longrightarrow> on_disk file (fr_page_id fr) (Page_image p) \<Longrightarrow>
   frame_ok file nxt (fr\<lparr>fr_dirty := False\<rparr>)"
  by (auto simp: frame_ok_def)

definition refresh :: "BufferPool \<Rightarrow> nat \<Rightarrow> Page \<Rightarrow> BufferPool" where
  "refresh bp i p = put_frame bp i ((bp_frames bp ! i)\<lparr>fr_page := Some (norm_page p)\<rparr>)"

lemma at_refresh:
  assumes "at bp i p pid"
  shows "at (refresh bp i p) i (norm_page p) pid" "pool_view (refresh bp i p) = pool_view bp"
  unfolding refresh_def
  using at_put_same [OF assms, of "(bp_frames bp ! i)\<lparr>fr_page := Some (norm_page p)\<rparr>" "norm_page p"] atD(4,5) [OF assms]
    frame_ok_norm [OF atD(12) [OF assms] atD(3) [OF assms]] by simp_all

lemma refresh_fields [simp]:
  "bp_file (refresh bp i p) = bp_file bp" "bp_failed (refresh bp i p) = bp_failed bp"
  "bp_next_page_id (refresh bp i p) = bp_next_page_id bp" "bp_table_id (refresh bp i p) = bp_table_id bp"
  "length (bp_frames (refresh bp i p)) = length (bp_frames bp)"
  "j \<noteq> i \<Longrightarrow> bp_frames (refresh bp i p) ! j = bp_frames bp ! j"
  "i < length (bp_frames bp) \<Longrightarrow> bp_frames (refresh bp i p) ! i = (bp_frames bp ! i)\<lparr>fr_page := Some (norm_page p)\<rparr>"
  by (simp_all add: refresh_def)

lemma frame_serialize_wf:
  assumes "fr_page (bp_frames bp ! i) = Some p" "page_wf p"
  shows "frame_serialize i (bp, lg) = (Inr (Page_image p), refresh bp i p, lg)"
  unfolding frame_serialize_def frame_simps refresh_def
  using assms by (simp add: frame_simps method_prims)

lemma frame_serialize_bind:
  "fr_page (bp_frames bp ! i) = Some p \<Longrightarrow> page_wf p \<Longrightarrow>
   sbind (frame_serialize i) k (bp, lg) = k (Page_image p) (refresh bp i p, lg)"
  by (simp add: sbind_def frame_serialize_wf)

lemma findFrame_put:
  assumes "i < length (bp_frames bp)" "(fr_page fr = None) = (fr_page (bp_frames bp ! i) = None)"
    and "fr_page_id fr = fr_page_id (bp_frames bp ! i)"
  shows "BufferPool_findFrame (put_frame bp i fr) pid = BufferPool_findFrame bp pid"
proof -
  have "(fr_page (bp_frames (put_frame bp i fr) ! j) \<noteq> None \<and> fr_page_id (bp_frames (put_frame bp i fr) ! j) = pid)
      = (fr_page (bp_frames bp ! j) \<noteq> None \<and> fr_page_id (bp_frames bp ! j) = pid)" for j
    using assms by (cases "j = i") simp_all
  then show ?thesis unfolding BufferPool_findFrame_def by simp
qed

lemma page_offset:
  assumes "pool_ok bp" "0 \<le> pid" "pid < bp_next_page_id bp"
  shows "nat ((pid * int PAGE_SIZE) mod 18446744073709551616) = nat pid * PAGE_SIZE" "int32 (pid * int PAGE_SIZE)"
proof -
  have "0 \<le> pid * 4096" "pid * 4096 < 2147483648"
    using assms by (simp_all add: pool_ok_def MAX_PAGES_def)
  then show "nat ((pid * int PAGE_SIZE) mod 18446744073709551616) = nat pid * PAGE_SIZE" "int32 (pid * int PAGE_SIZE)"
    using assms(2) by (simp_all add: PAGE_SIZE_def int32_def nat_mult_distrib)
qed

lemma writePageToDisk_ok:
  assumes "at bp i p pid"
  shows "BufferPool_writePageToDisk i (bp, tm, w) =
    (Inr (), (refresh bp i p)\<lparr>bp_file := write_file (bp_file bp) pid (Page_image p)\<rparr>, tm, WALWriter_flushUpTo w (pg_lsn p))"
proof -
  note a = atD [OF assms]
  have nf: "\<not> bp_failed bp" using a(1) by (simp add: pool_ok_def)
  show ?thesis
    unfolding BufferPool_writePageToDisk_def frame_simps
    using a(3,4) nf
    by (simp add: frame_serialize_bind [OF a(3,5)] page_offset(1) [OF a(1,6,7)] Let_def write_file_def method_prims)
qed

section \<open>Writing back and evicting\<close>

definition write_back :: "nat \<Rightarrow> (pool_state, unit) effect" where
  "write_back i = sbind (BufferPool_writePageToDisk i) (\<lambda>_. set_frame i (\<lambda>fr. fr\<lparr>fr_dirty := False\<rparr>))"

text \<open>What a method leaves of frame \<open>i\<close>'s neighbours and of the pool's shape.\<close>

definition same_but :: "nat \<Rightarrow> BufferPool \<Rightarrow> BufferPool \<Rightarrow> bool" where
  "same_but i bp bp' \<longleftrightarrow> length (bp_frames bp') = length (bp_frames bp) \<and> bp_next_page_id bp' = bp_next_page_id bp
     \<and> bp_table_id bp' = bp_table_id bp \<and> (\<forall>j. j \<noteq> i \<longrightarrow> bp_frames bp' ! j = bp_frames bp ! j)"

lemma same_but_refl [simp]: "same_but i bp bp"
  by (simp add: same_but_def)

lemma same_but_trans: "same_but i a b \<Longrightarrow> same_but i b c \<Longrightarrow> same_but i a c"
  by (simp add: same_but_def)

lemma same_but_put [simp]: "same_but i bp (put_frame bp i fr)" "same_but i bp (refresh bp i p)"
  "same_but i bp (bp\<lparr>bp_policy := x\<rparr>)" "same_but i bp (bp\<lparr>bp_file := y\<rparr>)"
  by (simp_all add: same_but_def)

lemma same_butD: "same_but i bp bp' \<Longrightarrow> length (bp_frames bp') = length (bp_frames bp)"
  "same_but i bp bp' \<Longrightarrow> bp_next_page_id bp' = bp_next_page_id bp" "same_but i bp bp' \<Longrightarrow> bp_table_id bp' = bp_table_id bp"
  by (simp_all add: same_but_def)

lemma write_back_ok:
  assumes "at bp i p pid"
  obtains bp' where "write_back i (bp, tm, w) = (Inr (), bp', tm, WALWriter_flushUpTo w (pg_lsn p))"
    "at bp' i (norm_page p) pid" "pool_view bp' = pool_view bp" "same_but i bp bp'"
    "bp_frames bp' ! i = (bp_frames bp ! i)\<lparr>fr_page := Some (norm_page p), fr_dirty := False\<rparr>"
proof -
  note a = atD [OF assms]
  let ?b = "refresh bp i p" and ?img = "Page_image p"
  let ?c = "?b\<lparr>bp_file := write_file (bp_file bp) pid ?img\<rparr>"
  let ?fr = "(bp_frames ?c ! i)\<lparr>fr_dirty := False\<rparr>"
  have b: "at ?b i (norm_page p) pid" "pool_view ?b = pool_view bp" by (rule at_refresh [OF assms])+
  have c: "pool_ok ?c" "pool_view ?c = pool_view bp"
    using put_file [OF atD(1-4) [OF b(1)]] a(5) b(2) by simp_all
  then have atc: "at ?c i (norm_page p) pid" using b(1) a(2,4) by (simp add: at_def)
  have od: "on_disk (bp_file ?c) pid ?img"
    using on_disk_written [of ?img "bp_file bp" pid] a(5) by (simp add: PAGE_SIZE_def)
  have fok: "frame_ok (bp_file ?c) (bp_next_page_id ?c) ?fr"
    by (rule frame_ok_clean [OF atD(12,3) [OF atc]]) (simp only: od atD(4) [OF atc] image_norm [OF a(5)])
  have pg: "fr_page ?fr = Some (norm_page p)" "fr_page_id ?fr = pid" using a(2,4) by simp_all
  note d = at_put_same(1) [OF atc pg fok refl] trans [OF at_put_same(2) [OF atc pg fok refl] c(2)]
  have "write_back i (bp, tm, w) = (Inr (), put_frame ?c i ?fr, tm, WALWriter_flushUpTo w (pg_lsn p))"
    by (simp add: write_back_def sbind_def writePageToDisk_ok [OF assms] set_frame_eq)
  moreover have "same_but i bp (put_frame ?c i ?fr)"
    by (simp add: same_but_def)
  ultimately show thesis
    using d a(2) by (intro that [of "put_frame ?c i ?fr"]) simp_all
qed

lemma evictFrame_ok:
  assumes "pool_ok bp" "unpinned (bp_frames bp) k"
  obtains i bp' w' where "BufferPool_evictFrame (bp, tm, w) = (Inr i, bp', tm, w')" "w' = w \<or> w' = WALWriter_flush w"
    "pool_ok bp'" "pool_view bp' = pool_view bp" "same_but i bp bp'" "i < length (bp_frames bp)"
    "fr_page (bp_frames bp' ! i) = None" "fr_pin_count (bp_frames bp' ! i) \<le> 0"
proof -
  note result = that
  obtain v pol where sel: "EvictionPolicy_selectVictim (bp_policy bp) (bp_frames bp) = (v, pol)" by fastforce
  then have v: "0 \<le> v" "unpinned (bp_frames bp) (nat v)"
    using ev.select_ok [of "bp_frames bp" "bp_policy bp"] assms(2) by (auto simp: victim_ok_def)
  let ?i = "nat v" and ?b = "bp\<lparr>bp_policy := pol\<rparr>"
  have i: "?i < length (bp_frames bp)" "fr_pin_count (bp_frames bp ! ?i) \<le> 0" using v(2) by (simp_all add: unpinned_def)
  have run: "BufferPool_evictFrame (bp, tm, w) = (if fr_page (bp_frames bp ! ?i) = None then (Inr ?i, ?b, tm, w)
      else sbind (if fr_dirty (bp_frames bp ! ?i) then write_back ?i else sreturn ())
        (\<lambda>_. sbind (set_frame ?i (\<lambda>fr. fr\<lparr>fr_page := None, fr_page_id := -1\<rparr>)) (\<lambda>_. sreturn ?i)) (?b, tm, w))"
    using v(1) by (simp add: BufferPool_evictFrame_def sel frame_simps write_back_def method_prims)
  show thesis
  proof (cases "fr_page (bp_frames bp ! ?i)")
    case None
    with run i assms(1) show thesis by (intro that [of ?i ?b w]) simp_all
  next
    case (Some p)
    let ?pid = "fr_page_id (bp_frames bp ! ?i)"
    have atb: "at ?b ?i p ?pid" using Some i(1) assms(1) by (simp add: at_def)
    have fin: thesis
      if c: "at c ?i q ?pid" "pool_view c = pool_view bp" "same_but ?i bp c" "\<not> fr_dirty (bp_frames c ! ?i)"
        "fr_pin_count (bp_frames c ! ?i) \<le> 0"
      and w': "w' = w \<or> w' = WALWriter_flush w"
      and r: "(if fr_dirty (bp_frames bp ! ?i) then write_back ?i else sreturn ()) (?b, tm, w) = (Inr (), c, tm, w')" for c q w'
    proof -
      let ?fr = "(bp_frames c ! ?i)\<lparr>fr_page := None, fr_page_id := -1\<rparr>"
      have "BufferPool_evictFrame (bp, tm, w) = (Inr ?i, put_frame c ?i ?fr, tm, w')"
        unfolding run using Some by (simp add: sbind_def [of "if _ then _ else _"] r frame_simps method_prims)
      moreover have "pool_ok (put_frame c ?i ?fr)" "pool_view (put_frame c ?i ?fr) = pool_view bp"
        using put_empty [OF atD(1-3) [OF c(1)] c(4), of ?fr] c(2) by simp_all
      moreover have "same_but ?i bp (put_frame c ?i ?fr)" using c(3) by (rule same_but_trans) simp
      ultimately show thesis
        using i(1) c(5) w' atD(2) [OF c(1)] by (intro result [of ?i "put_frame c ?i ?fr" w']) simp_all
    qed
    show thesis
    proof (cases "fr_dirty (bp_frames bp ! ?i)")
      case True
      obtain c where "write_back ?i (?b, tm, w) = (Inr (), c, tm, WALWriter_flushUpTo w (pg_lsn p))"
        "at c ?i (norm_page p) ?pid" "pool_view c = pool_view ?b" "same_but ?i ?b c"
        "bp_frames c ! ?i = (bp_frames ?b ! ?i)\<lparr>fr_page := Some (norm_page p), fr_dirty := False\<rparr>"
        by (rule write_back_ok [OF atb]) blast
      with True i(2) show thesis
        by (intro fin [of c "norm_page p" "WALWriter_flush w"]) (simp_all add: WALWriter_flushUpTo_def same_but_def)
    next
      case False
      with i(2) atb show thesis by (intro fin [of ?b p w]) (simp_all add: method_prims)
    qed
  qed
qed

section \<open>Fetching\<close>

text \<open>A step inside the pool that keeps every page, with frame \<open>i\<close> holding \<open>pid\<close> before and after.\<close>

definition kept :: "nat \<Rightarrow> int \<Rightarrow> BufferPool \<Rightarrow> BufferPool \<Rightarrow> bool" where
  "kept i pid bp bp' \<longleftrightarrow> (\<exists>q. at bp' i q pid) \<and> pool_view bp' = pool_view bp \<and> same_but i bp bp'"

lemma kept_trans: "kept i pid a b \<Longrightarrow> kept i pid b c \<Longrightarrow> kept i pid a c"
  unfolding kept_def using same_but_trans by force

lemma at_pin:
  assumes "at bp i p pid"
  shows "kept i pid bp (put_frame bp i ((bp_frames bp ! i)\<lparr>fr_pin_count := n\<rparr>))"
proof -
  have "frame_ok (bp_file bp) (bp_next_page_id bp) ((bp_frames bp ! i)\<lparr>fr_pin_count := n\<rparr>)"
    using atD(12) [OF assms] by (simp add: frame_ok_def)
  from at_put_same [OF assms _ _ this, of p] atD(3,4) [OF assms] show ?thesis
    unfolding kept_def by auto
qed

lemma at_policy [simp]: "at (bp\<lparr>bp_policy := x\<rparr>) i q pid = at bp i q pid"
  by (simp add: at_def)

lemma kept_policy: "at bp i p pid \<Longrightarrow> kept i pid bp (bp\<lparr>bp_policy := x\<rparr>)"
  unfolding kept_def at_def by auto

lemma captureBeforeImage_ok:
  assumes "at bp i p pid"
  obtains bp' where "BufferPool_captureBeforeImage i (bp, lg) = (Inr (), bp', lg)" "kept i pid bp bp'"
    "fr_before_image_valid (bp_frames bp' ! i)" "fr_pin_count (bp_frames bp' ! i) = fr_pin_count (bp_frames bp ! i)"
proof (cases "fr_before_image_valid (bp_frames bp ! i)")
  case True
  with assms show thesis
    by (intro that [of bp]) (auto simp: BufferPool_captureBeforeImage_def frame_simps method_prims kept_def)
next
  case False
  note a = atD [OF assms] and r = at_refresh [OF assms]
  let ?b = "refresh bp i p"
  let ?fr = "(bp_frames ?b ! i)\<lparr>fr_before_image := Page_image p, fr_before_image_valid := True\<rparr>"
  have fok: "frame_ok (bp_file ?b) (bp_next_page_id ?b) ?fr"
    using atD(12) [OF r(1)] atD(3) [OF r(1)] a(5) by (auto simp: frame_ok_def)
  have "at (put_frame ?b i ?fr) i (norm_page p) pid" "pool_view (put_frame ?b i ?fr) = pool_view bp"
    using at_put_same [OF r(1) _ _ fok, of "norm_page p"] atD(3,4) [OF r(1)] r(2) by simp_all
  then have "kept i pid bp (put_frame ?b i ?fr)"
    by (auto simp: kept_def intro: same_but_trans [of i bp ?b])
  moreover have "BufferPool_captureBeforeImage i (bp, lg) = (Inr (), put_frame ?b i ?fr, lg)"
    using False by (simp add: BufferPool_captureBeforeImage_def frame_simps frame_serialize_bind [OF a(3,5)])
  ultimately show thesis using a(2) by (intro that [of "put_frame ?b i ?fr"]) simp_all
qed

lemma capture_bind:
  "BufferPool_captureBeforeImage i (bp, lg) = (Inr (), bp', lg') \<Longrightarrow>
   sbind (BufferPool_captureBeforeImage i) k (bp, lg) = k () (bp', lg')"
  by (simp add: sbind_def)

lemma record_access_bind:
  "sbind (record_access i) k (bp, lg) = k () (bp\<lparr>bp_policy := EvictionPolicy_recordAccess (bp_policy bp) i\<rparr>, lg)"
  by (simp add: record_access_def)

text \<open>The end of \<open>fetchPage\<close>, common to a hit and a miss.\<close>

lemma fetch_tail:
  assumes "at bp i p pid"
  obtains bp' where "sbind (set_frame i (\<lambda>fr. fr\<lparr>fr_pin_count := f fr\<rparr>)) (\<lambda>_. sbind (record_access i) (\<lambda>_.
      sbind (BufferPool_captureBeforeImage i) (\<lambda>_. sreturn i))) (bp, lg) = (Inr i, bp', lg)"
    "kept i pid bp bp'" "fr_before_image_valid (bp_frames bp' ! i)" "fr_pin_count (bp_frames bp' ! i) = f (bp_frames bp ! i)"
proof -
  let ?b = "put_frame bp i ((bp_frames bp ! i)\<lparr>fr_pin_count := f (bp_frames bp ! i)\<rparr>)"
  let ?c = "?b\<lparr>bp_policy := EvictionPolicy_recordAccess (bp_policy ?b) i\<rparr>"
  have b: "kept i pid bp ?b" by (rule at_pin [OF assms])
  then obtain q where q: "at ?b i q pid" by (auto simp: kept_def)
  then have c: "kept i pid bp ?c" using b kept_policy kept_trans by blast
  have "at ?c i q pid" using q by (simp only: at_policy)
  then obtain d where d: "BufferPool_captureBeforeImage i (?c, lg) = (Inr (), d, lg)" "kept i pid ?c d"
    "fr_before_image_valid (bp_frames d ! i)" "fr_pin_count (bp_frames d ! i) = fr_pin_count (bp_frames ?c ! i)"
    by (rule captureBeforeImage_ok)
  show thesis
  proof (rule that [of d])
    show "sbind (set_frame i (\<lambda>fr. fr\<lparr>fr_pin_count := f fr\<rparr>)) (\<lambda>_. sbind (record_access i) (\<lambda>_.
      sbind (BufferPool_captureBeforeImage i) (\<lambda>_. sreturn i))) (bp, lg) = (Inr i, d, lg)"
      by (simp add: frame_simps record_access_bind capture_bind [OF d(1) [simplified]] method_prims)
    show "kept i pid bp d" using c d(2) by (rule kept_trans)
    show "fr_pin_count (bp_frames d ! i) = f (bp_frames bp ! i)"
      using d(4) atD(2) [OF assms] by simp
  qed (rule d(3))
qed

lemma readPageFromDisk_ok:
  assumes ok: "pool_ok bp" and i: "i < length (bp_frames bp)" and none: "fr_page (bp_frames bp ! i) = None"
    and miss: "\<forall>j < length (bp_frames bp). \<not> holds_page (bp_frames bp ! j) pid"
    and p: "page_wf p" "pg_page_id p = word_of_int pid" "on_disk (bp_file bp) pid (Page_image p)"
    and pid: "0 \<le> pid" "pid < bp_next_page_id bp"
  obtains bp' where "BufferPool_readPageFromDisk i pid (bp, lg) = (Inr (), bp', lg)" "kept i pid bp bp'"
proof -
  let ?fr = "(bp_frames bp ! i)\<lparr>fr_page := Some (norm_page p), fr_page_id := pid, fr_dirty := False,
     fr_before_image := Page_image p, fr_before_image_valid := True\<rparr>"
  have "BufferPool_readPageFromDisk i pid (bp, lg) = (Inr (), put_frame bp i ?fr, lg)"
    using page_offset(2) [OF ok pid] p pid(1) ok
    by (simp add: BufferPool_readPageFromDisk_def on_disk_def pool_ok_def frame_simps)
  moreover have fok: "frame_ok (bp_file bp) (bp_next_page_id bp) ?fr"
    using p pid by (simp add: frame_ok_def)
  have hi: "\<not> holds_page (bp_frames bp ! i) pid'" for pid' using none by (simp add: holds_page_def)
  have "pool_ok (put_frame bp i ?fr)" "pool_view (put_frame bp i ?fr) = (pool_view bp)(pid := Some (norm_page p))"
    using put_page [OF ok i _ _ fok, of "norm_page p" pid] miss hi p(1) by auto
  moreover have "pool_view bp pid = Some (norm_page p)" using view_miss [OF miss pid p(1,3)] .
  ultimately show thesis
    using i by (intro that [of "put_frame bp i ?fr"]) (auto simp: kept_def at_def fun_upd_idem)
qed

lemma fetchPage_ok:
  assumes ok: "pool_ok bp" and u: "unpinned (bp_frames bp) k" and pid: "0 \<le> pid" "pid < bp_next_page_id bp"
  obtains i bp' w' where "BufferPool_fetchPage pid (bp, tm, w) = (Inr i, bp', tm, w')" "w' = w \<or> w' = WALWriter_flush w"
    "kept i pid bp bp'" "fr_before_image_valid (bp_frames bp' ! i)"
    "fr_pin_count (bp_frames bp ! i) = 0 \<Longrightarrow> fr_pin_count (bp_frames bp' ! i) = 1"
  using ok pid
proof (cases rule: pool_cases)
  case (cached i p)
  then have "at bp i p pid" using ok by (simp add: at_def)
  from fetch_tail [OF this, of "\<lambda>fr. fr_pin_count fr + 1" "(tm, w)"] obtain bp' where
    b: "sbind (set_frame i (\<lambda>fr. fr\<lparr>fr_pin_count := fr_pin_count fr + 1\<rparr>)) (\<lambda>_. sbind (record_access i) (\<lambda>_.
      sbind (BufferPool_captureBeforeImage i) (\<lambda>_. sreturn i))) (bp, tm, w) = (Inr i, bp', tm, w)"
    "kept i pid bp bp'" "fr_before_image_valid (bp_frames bp' ! i)"
    "fr_pin_count (bp_frames bp' ! i) = fr_pin_count (bp_frames bp ! i) + 1" by blast
  have "BufferPool_fetchPage pid (bp, tm, w) = (Inr i, bp', tm, w)"
    unfolding BufferPool_fetchPage_def using b(1) cached(6) by simp
  with b show thesis by (intro that [of i bp' w]) simp_all
next
  case (disk p)
  obtain i c w' where ev: "BufferPool_evictFrame (bp, tm, w) = (Inr i, c, tm, w')" "w' = w \<or> w' = WALWriter_flush w"
    "pool_ok c" "pool_view c = pool_view bp" "same_but i bp c" "i < length (bp_frames bp)"
    "fr_page (bp_frames c ! i) = None" by (rule evictFrame_ok [OF ok u, of tm w])
  have miss: "\<forall>j < length (bp_frames c). \<not> holds_page (bp_frames c ! j) pid"
    using disk(1) ev(5,7) by (metis holds_page_def same_but_def)
  have pidc: "pid < bp_next_page_id c" using pid(2) ev(5) by (simp add: same_but_def)
  obtain q where q: "page_wf q" "pg_page_id q = word_of_int pid" "on_disk (bp_file c) pid (Page_image q)"
    using ev(3) pid(1) pidc miss by (auto simp: pool_ok_def covered_def disk_page_def)
  obtain d where d: "BufferPool_readPageFromDisk i pid (c, tm, w') = (Inr (), d, tm, w')" "kept i pid c d"
    by (rule readPageFromDisk_ok [OF ev(3) _ ev(7) miss q pid(1) pidc, of "(tm, w')"])
      (use ev(5,6) in \<open>simp_all add: same_but_def\<close>)
  then obtain r where "at d i r pid" by (auto simp: kept_def)
  from fetch_tail [OF this, of "\<lambda>_. 1" "(tm, w')"] obtain bp' where
    b: "sbind (set_frame i (\<lambda>fr. fr\<lparr>fr_pin_count := 1\<rparr>)) (\<lambda>_. sbind (record_access i) (\<lambda>_.
      sbind (BufferPool_captureBeforeImage i) (\<lambda>_. sreturn i))) (d, tm, w') = (Inr i, bp', tm, w')"
    "kept i pid d bp'" "fr_before_image_valid (bp_frames bp' ! i)" "fr_pin_count (bp_frames bp' ! i) = 1" by blast
  have "BufferPool_fetchPage pid (bp, tm, w) = (Inr i, bp', tm, w')"
    unfolding BufferPool_fetchPage_def using b(1) disk(5) by (simp add: sbind_run [where m = BufferPool_evictFrame, OF ev(1)] sbind_run [where m = "BufferPool_readPageFromDisk i pid", OF d(1)])
  moreover have "kept i pid bp bp'"
    using kept_trans [OF d(2) b(2)] ev(4,5) same_but_trans [of i bp c bp'] by (simp add: kept_def)
  ultimately show thesis using b ev(2) by (intro that [of i bp' w']) simp_all
qed

section \<open>The page manager\<close>

text \<open>Between two calls of the page manager no frame is pinned.\<close>

definition quiet :: "BufferPool \<Rightarrow> bool" where
  "quiet bp \<longleftrightarrow> bp_frames bp \<noteq> [] \<and> (\<forall>i < length (bp_frames bp). fr_pin_count (bp_frames bp ! i) = 0)"

lemma quiet_unpinned: "quiet bp \<Longrightarrow> unpinned (bp_frames bp) 0"
  by (simp add: quiet_def unpinned_def)

lemma quiet_same_but:
  assumes "quiet bp" "same_but i bp bp'" "fr_pin_count (bp_frames bp' ! i) = 0"
  shows "quiet bp'"
proof -
  have "bp_frames bp' \<noteq> []" using assms(1) same_butD(1) [OF assms(2)] by (auto simp: quiet_def)
  moreover have "fr_pin_count (bp_frames bp' ! j) = 0" if "j < length (bp_frames bp')" for j
    using assms that by (cases "j = i") (simp_all add: quiet_def same_but_def)
  ultimately show ?thesis by (simp add: quiet_def)
qed

lemma kept_pool: "kept i pid bp bp' \<Longrightarrow> pool_ok bp' \<and> pool_view bp' = pool_view bp \<and> same_but i bp bp' \<and> i < length (bp_frames bp')"
  by (auto simp: kept_def at_def)

lemma kept_refresh: "at bp i p pid \<Longrightarrow> kept i pid bp (refresh bp i p)"
  unfolding kept_def using at_refresh by fastforce

abbreviation unpin_frame :: "BufferFrame \<Rightarrow> BufferFrame" where
  "unpin_frame fr \<equiv> fr\<lparr>fr_pin_count := (if fr_pin_count fr > 0 then fr_pin_count fr - 1 else fr_pin_count fr)\<rparr>"

lemma unpin_clean:
  assumes "BufferPool_findFrame bp pid = int i"
  shows "BufferPool_unpinPage pid False t (bp, lg) = (Inr (), put_frame bp i (unpin_frame (bp_frames bp ! i)), lg)"
  using assms by (auto simp: BufferPool_unpinPage_def frame_simps method_prims)

lemma readPage_ok:
  assumes ok: "pool_ok bp" and q: "quiet bp" and pid: "0 \<le> pid" "pid < bp_next_page_id bp"
  obtains bp' w' where "PageManager_readPage pid (bp, tm, w) = (Inr (the (pool_view bp pid)), bp', tm, w')"
    "w' = w \<or> w' = WALWriter_flush w" "pool_ok bp'" "quiet bp'" "pool_view bp' = pool_view bp"
    "bp_next_page_id bp' = bp_next_page_id bp" "bp_table_id bp' = bp_table_id bp"
proof -
  obtain i b w' where f: "BufferPool_fetchPage pid (bp, tm, w) = (Inr i, b, tm, w')" "w' = w \<or> w' = WALWriter_flush w"
    "kept i pid bp b" "fr_pin_count (bp_frames bp ! i) = 0 \<Longrightarrow> fr_pin_count (bp_frames b ! i) = 1"
    by (rule fetchPage_ok [OF ok quiet_unpinned [OF q] pid, of tm w]) blast
  then obtain p where p: "at b i p pid" by (auto simp: kept_def)
  let ?c = "refresh b i p"
  let ?d = "put_frame ?c i (unpin_frame (bp_frames ?c ! i))"
  have c: "at ?c i (norm_page p) pid" by (rule at_refresh [OF p])
  have i: "i < length (bp_frames b)" "i < length (bp_frames bp)"
    using atD(2) [OF p] same_butD(1) [of i bp b] kept_pool [OF f(3)] by simp_all
  have pin: "fr_pin_count (bp_frames b ! i) = 1" using f(4) q i(2) by (simp add: quiet_def)
  have run: "PageManager_readPage pid (bp, tm, w) = (Inr (norm_page p), ?d, tm, w')"
    unfolding PageManager_readPage_def sbind_run [where m = "BufferPool_fetchPage pid", OF f(1)]
      frame_serialize_bind [OF atD(3,5) [OF p]]
      sbind_run [where m = "BufferPool_unpinPage pid False 0", OF unpin_clean [OF atD(11) [OF c]]]
    using atD(5) [OF p] by (simp add: method_prims)
  have k: "kept i pid bp ?d"
    using kept_trans [OF f(3) kept_trans [OF kept_refresh [OF p] at_pin [OF c]]] .
  have "pool_view bp pid = Some (norm_page p)"
    using atD(10) [OF p] kept_pool [OF f(3)] by simp
  moreover have "quiet ?d"
    using kept_pool [OF k] i pin by (intro quiet_same_but [OF q, of i]) simp_all
  ultimately show thesis
    using run f(2) kept_pool [OF k] same_butD [of i bp ?d] by (intro that [of ?d w']) (simp_all only: option.sel)
qed

text \<open>What writing a page does to the log: one UPDATE record with both images, in a transaction of its own if there is none.\<close>

definition log_page_update :: "u64 \<Rightarrow> u32 \<Rightarrow> int \<Rightarrow> byte list \<Rightarrow> byte list \<Rightarrow> Log \<Rightarrow> u64 \<times> Log" where
  "log_page_update txn_id table page_id old new = (\<lambda>(tm, w).
     if txn_id = 0
     then let (t, tm, w) = TransactionManager_begin tm w;
              (lsn, tm, w) = TransactionManager_appendRecord tm w t UPDATE HEAP page_id old new table
          in (lsn, TransactionManager_commit tm w t)
     else TransactionManager_appendRecord tm w txn_id UPDATE HEAP page_id old new table)"

lemma logUpdate_ok:
  assumes i: "i < length (bp_frames bp)" and fr: "fr_page (bp_frames bp ! i) = Some p" "page_wf p"
    and valid: "fr_before_image_valid (bp_frames bp ! i)"
    and old: "fr_before_image (bp_frames bp ! i) = old"
    and lsn: "log_page_update t (bp_table_id bp) pid old (Page_image p) lg = (lsn, lg')"
  shows "BufferPool_logUpdateIfChanged i pid t (bp, lg) =
    (if Page_image p = old
     then (Inr (), put_frame bp i ((bp_frames bp ! i)\<lparr>fr_page := Some (norm_page p), fr_before_image_valid := False\<rparr>), lg)
     else (Inr (), put_frame bp i ((bp_frames bp ! i)\<lparr>fr_page := Some (Page_setLSN (norm_page p) lsn), fr_before_image_valid := False\<rparr>), lg'))"
proof -
  obtain tm w where lg: "lg = (tm, w)" by fastforce
  have r: "put_frame (refresh bp i p) i fr' = put_frame bp i fr'" for fr' by (simp add: refresh_def)
  note run = BufferPool_logUpdateIfChanged_def sbind_def get_frame_def set_frame_eq method_prims frame_serialize_wf [OF fr]
  show ?thesis
  proof (cases "Page_image p = old")
    case True
    with i valid old show ?thesis unfolding lg by (simp add: run r)
  next
    case changed: False
    show ?thesis
    proof (cases "t = 0")
      case True
      with changed i valid old lsn show ?thesis
        unfolding lg log_page_update_def by (auto simp: run r split: prod.splits)
    next
      case False
      with changed i valid old lsn show ?thesis
        unfolding lg log_page_update_def by (auto simp: run r split: prod.splits)
    qed
  qed
qed

lemma writePage_ok:
  assumes ok: "pool_ok bp" and q: "quiet bp" and pid: "0 \<le> pid" "pid < bp_next_page_id bp"
    and p: "page_wf p" "sint (pg_page_id p) = pid" and old: "pool_view bp pid = Some p0"
  obtains bp' w' lsn lg' where "w' = w \<or> w' = WALWriter_flush w"
    "log_page_update t (bp_table_id bp) pid (Page_image p0) (Page_image p) (tm, w') = (lsn, lg')"
    "PageManager_writePage p t (bp, tm, w) = (Inr (), bp', if Page_image p = Page_image p0 then (tm, w') else lg')"
    "pool_ok bp'" "quiet bp'"
    "pool_view bp' = (pool_view bp)(pid \<mapsto> (if Page_image p = Page_image p0 then norm_page p else norm_page (Page_setLSN (norm_page p) lsn)))"
    "bp_next_page_id bp' = bp_next_page_id bp" "bp_table_id bp' = bp_table_id bp"
proof -
  obtain i b w' where f: "BufferPool_fetchPage pid (bp, tm, w) = (Inr i, b, tm, w')" "w' = w \<or> w' = WALWriter_flush w"
    "kept i pid bp b" "fr_before_image_valid (bp_frames b ! i)"
    "fr_pin_count (bp_frames bp ! i) = 0 \<Longrightarrow> fr_pin_count (bp_frames b ! i) = 1"
    by (rule fetchPage_ok [OF ok quiet_unpinned [OF q] pid, of tm w]) blast
  then obtain p1 where p1: "at b i p1 pid" by (auto simp: kept_def)
  note a = atD [OF p1] and k = kept_pool [OF f(3)]
  have i: "i < length (bp_frames b)" "i < length (bp_frames bp)" using k same_butD(1) [of i bp b] by simp_all
  have pin: "fr_pin_count (bp_frames b ! i) = 1" using f(5) q i(2) by (simp add: quiet_def)
  have "norm_page p1 = p0" using a(10) k old by simp
  then have before: "fr_before_image (bp_frames b ! i) = Page_image p0"
    using a(13) [OF f(4)] image_norm [OF a(5)] by simp
  let ?fr = "(bp_frames b ! i)\<lparr>fr_page := Some (norm_page p), fr_pin_count := 0\<rparr>"
  let ?c = "put_frame b i ?fr"
  obtain lsn lg' where lsn: "log_page_update t (bp_table_id b) pid (Page_image p0) (Page_image p) (tm, w') = (lsn, lg')" by (rule prod.exhaust)
  let ?new = "if Page_image p = Page_image p0 then norm_page p else Page_setLSN (norm_page p) lsn"
  let ?fin = "?fr\<lparr>fr_page := Some ?new, fr_before_image_valid := False, fr_dirty := True\<rparr>"
  have "BufferPool_findFrame (put_frame b i ((bp_frames b ! i)\<lparr>fr_page := Some (norm_page p)\<rparr>)) pid = int i"
    using a(3,11) i(1) by (simp add: findFrame_put)
  note unp = this
  have log: "BufferPool_logUpdateIfChanged i pid t (?c, tm, w') =
      (Inr (), put_frame b i (?fr\<lparr>fr_page := Some ?new, fr_before_image_valid := False\<rparr>), if Page_image p = Page_image p0 then (tm, w') else lg')"
    using logUpdate_ok [of i ?c "norm_page p" "Page_image p0" t pid "(tm, w')" lsn lg'] i(1) p(1) f(4) before lsn by simp
  have "BufferPool_unpinPage pid True t (put_frame b i ((bp_frames b ! i)\<lparr>fr_page := Some (norm_page p)\<rparr>), tm, w') =
      (Inr (), put_frame b i ?fin, if Page_image p = Page_image p0 then (tm, w') else lg')"
    using unp i(1) pin by (simp add: BufferPool_unpinPage_def frame_simps sbind_run [where m = "BufferPool_logUpdateIfChanged i pid t", OF log])
  then have run: "PageManager_writePage p t (bp, tm, w) = (Inr (), put_frame b i ?fin, if Page_image p = Page_image p0 then (tm, w') else lg')"
    using p by (simp add: PageManager_writePage_def Let_def frame_simps sbind_run [where m = "BufferPool_fetchPage pid", OF f(1)])
  have "pg_page_id ?new = word_of_int pid" "page_wf ?new" using p page_wf_setLSN [of "norm_page p" lsn] by (auto simp: Page_setLSN_def)
  then have fok: "frame_ok (bp_file b) (bp_next_page_id b) ?fin" using a(4,6,7) by (simp add: frame_ok_def)
  have fin: "at (put_frame b i ?fin) i ?new pid" "pool_view (put_frame b i ?fin) = (pool_view b)(pid \<mapsto> norm_page ?new)"
    by (rule at_put [OF p1 _ _ fok]; simp add: a(4))+
  have sb: "same_but i bp (put_frame b i ?fin)" using k by (blast intro: same_but_trans same_but_put)
  have "fr_pin_count (bp_frames (put_frame b i ?fin) ! i) = 0" unfolding put_frame_fields(7) [OF i(1)] by simp
  then have "quiet (put_frame b i ?fin)" by (rule quiet_same_but [OF q sb])
  moreover have "norm_page ?new = (if Page_image p = Page_image p0 then norm_page p else norm_page (Page_setLSN (norm_page p) lsn))"
    using p(1) by simp
  ultimately show thesis
    using fin k same_butD [OF sb] atD(1) [OF fin(1)] lsn f(2) run same_butD(3) [of i bp b]
    by (intro that [of w' lsn lg' "put_frame b i ?fin"]) simp_all
qed

section \<open>Allocating a page\<close>

text \<open>
  \<open>allocatePage\<close> increments \<open>next_page_id\<close> before it evicts. Eviction does not read that counter, so the
  two commute.
\<close>

definition commutes :: "('s \<Rightarrow> 's) \<Rightarrow> ('s, 'a) effect \<Rightarrow> bool" where
  "commutes h m \<longleftrightarrow> (\<forall>s. m (h s) = (fst (m s), h (snd (m s))))"

lemma commutes_bind: "commutes h m \<Longrightarrow> (\<And>x. commutes h (f x)) \<Longrightarrow> commutes h (sbind m f)"
  by (auto simp: commutes_def sbind_def split: prod.splits sum.splits)

lemma commutes_prims:
  "commutes h (sreturn x)" "commutes h (sthrow e)" "commutes h (slift r)"
  "(\<And>s. g (h s) = g s) \<Longrightarrow> commutes h (sget g)" "(\<And>s. g (h s) = h (g s)) \<Longrightarrow> commutes h (smodify g)"
  by (simp_all add: commutes_def method_prims)

definition with_next :: "int \<Rightarrow> pool_state \<Rightarrow> pool_state" where
  "with_next n = (\<lambda>(bp, lg). (bp\<lparr>bp_next_page_id := n\<rparr>, lg))"

lemma with_next_simp [simp]: "with_next n (bp, lg) = (bp\<lparr>bp_next_page_id := n\<rparr>, lg)"
  by (simp add: with_next_def)

lemma commutes_state:
  "(\<And>bp lg. g (bp\<lparr>bp_next_page_id := n\<rparr>, lg) = g (bp, lg)) \<Longrightarrow> commutes (with_next n) (sget g)"
  "(\<And>bp lg. f (bp\<lparr>bp_next_page_id := n\<rparr>, lg) = with_next n (f (bp, lg))) \<Longrightarrow> commutes (with_next n) (smodify f)"
  by (auto simp: commutes_def method_prims)

lemma commutes_frames: "commutes (with_next n) (set_frame i f)" "commutes (with_next n) (get_frame i)"
  unfolding set_frame_def get_frame_def by (rule commutes_state, simp)+

lemma commutes_serialize: "commutes (with_next n) (frame_serialize i)"
  unfolding frame_serialize_def
  by (intro commutes_bind commutes_frames commutes_prims) (auto split: option.splits intro!: commutes_bind commutes_frames commutes_prims(1-3))

lemma commutes_write: "commutes (with_next n) (BufferPool_writePageToDisk i)"
  unfolding BufferPool_writePageToDisk_def Let_def
  by (auto intro!: commutes_bind commutes_frames commutes_serialize commutes_prims(1-3) commutes_state)

lemma commutes_evict: "commutes (with_next n) BufferPool_evictFrame"
  unfolding BufferPool_evictFrame_def
  by (auto intro!: commutes_bind commutes_frames commutes_write commutes_prims(1-3) commutes_state)

lemma put_new:
  assumes ok: "pool_ok bp" and i: "i < length (bp_frames bp)" and none: "fr_page (bp_frames bp ! i) = None"
    and nxt: "bp_next_page_id bp < MAX_PAGES" and fr: "fr_page fr = Some p" "fr_page_id fr = bp_next_page_id bp"
    "frame_ok (bp_file bp) (bp_next_page_id bp + 1) fr"
  defines "bp' \<equiv> (put_frame bp i fr)\<lparr>bp_next_page_id := bp_next_page_id bp + 1\<rparr>"
  shows "pool_ok bp'" "pool_view bp' = (pool_view bp)(bp_next_page_id bp \<mapsto> norm_page p)"
proof -
  let ?n = "bp_next_page_id bp"
  have nth: "bp_frames bp' ! j = (if j = i then fr else bp_frames bp ! j)" "length (bp_frames bp') = length (bp_frames bp)" for j
    using i by (auto simp: bp'_def)
  have fields: "bp_file bp' = bp_file bp" "bp_next_page_id bp' = ?n + 1" by (simp_all add: bp'_def)
  have h: "holds_page fr q \<longleftrightarrow> q = ?n" for q using fr by (auto simp: holds_page_def)
  have fj: "frame_ok (bp_file bp) ?n (bp_frames bp ! j)" if "j < length (bp_frames bp)" for j
    using ok that by (simp add: pool_ok_def)
  then have fresh: "\<not> holds_page (bp_frames bp ! j) ?n" if "j < length (bp_frames bp)" for j
    using that by (fastforce simp: frame_ok_def holds_page_def)
  have hi: "\<not> holds_page (bp_frames bp ! i) q" for q using none by (simp add: holds_page_def)
  have dist: "ids_distinct (bp_frames bp')"
    using ok fresh unfolding ids_distinct_def pool_ok_def by (auto simp: nth h split: if_splits)
  have "frame_ok (bp_file bp) (?n + 1) (bp_frames bp' ! j)" if "j < length (bp_frames bp)" for j
    using fj [OF that] fr(3) by (fastforce simp: nth frame_ok_def)
  moreover have "covered (bp_file bp) (?n + 1) (bp_frames bp')"
    unfolding covered_def
  proof (intro allI impI)
    fix q assume "0 \<le> q" "q < ?n + 1"
    then consider "q = ?n" | "(\<exists>j < length (bp_frames bp). holds_page (bp_frames bp ! j) q) \<or> disk_page (bp_file bp) q"
      using ok by (fastforce simp: pool_ok_def covered_def)
    then show "(\<exists>j < length (bp_frames bp'). holds_page (bp_frames bp' ! j) q) \<or> disk_page (bp_file bp) q"
      using i h hi nth by cases metis+
  qed
  ultimately show "pool_ok bp'"
    using ok nxt dist by (auto simp: pool_ok_def nth fields bp'_def)
  have "pool_view bp' ?n = Some (norm_page p)"
    using view_hit [OF dist, of i ?n] i fr h by (simp add: nth)
  moreover have "pool_view bp' q = pool_view bp q" if "q \<noteq> ?n" for q
  proof -
    have "pool_view bp' q = pool_view (put_frame bp i fr) q"
      using that by (auto simp: pool_view_def BufferPool_findFrame_def bp'_def Let_def)
    also have "\<dots> = pool_view bp q"
      using that h hi i by (intro view_cong) (auto simp: nth_list_update put_frame_def)
    finally show ?thesis .
  qed
  ultimately show "pool_view bp' = (pool_view bp)(?n \<mapsto> norm_page p)" by auto
qed

lemma allocatePage_ok:
  assumes ok: "pool_ok bp" and q: "quiet bp" and nxt: "bp_next_page_id bp < MAX_PAGES"
  obtains bp' w' where "PageManager_allocatePage (bp, tm, w) = (Inr (bp_next_page_id bp), bp', tm, w')"
    "w' = w \<or> w' = WALWriter_flush w" "pool_ok bp'" "quiet bp'"
    "pool_view bp' = (pool_view bp)(bp_next_page_id bp \<mapsto> norm_page (Page_new (word_of_int (bp_next_page_id bp))))"
    "bp_next_page_id bp' = bp_next_page_id bp + 1" "bp_table_id bp' = bp_table_id bp"
proof -
  let ?n = "bp_next_page_id bp"
  let ?p = "Page_new (word_of_int ?n)"
  obtain i c w' where ev: "BufferPool_evictFrame (bp, tm, w) = (Inr i, c, tm, w')" "w' = w \<or> w' = WALWriter_flush w"
    "pool_ok c" "pool_view c = pool_view bp" "same_but i bp c" "i < length (bp_frames bp)"
    "fr_page (bp_frames c ! i) = None" by (rule evictFrame_ok [OF ok quiet_unpinned [OF q], of tm w])
  have ev': "BufferPool_evictFrame (bp\<lparr>bp_next_page_id := ?n + 1\<rparr>, tm, w) = (Inr i, c\<lparr>bp_next_page_id := ?n + 1\<rparr>, tm, w')"
    using commutes_evict [of "?n + 1", unfolded commutes_def, rule_format, of "(bp, tm, w)"] ev(1) by (simp add: with_next_def)
  have c: "bp_next_page_id c = ?n" "i < length (bp_frames c)" "bp_table_id c = bp_table_id bp"
    using same_butD [OF ev(5)] ev(6) by simp_all
  have p: "page_wf ?p" "pg_page_id ?p = word_of_int ?n" by (rule page_wf_new) (simp add: Page_new_def Page_updateHeaderToData_def)
  let ?fr = "(bp_frames c ! i)\<lparr>fr_page_id := ?n, fr_dirty := True, fr_pin_count := 0, fr_page := Some (norm_page ?p),
     fr_before_image := Page_image ?p, fr_before_image_valid := True\<rparr>"
  let ?d = "(put_frame c i ?fr)\<lparr>bp_next_page_id := ?n + 1\<rparr>"
  let ?e = "?d\<lparr>bp_policy := EvictionPolicy_reset (bp_policy c) i\<rparr>"
  have e: "?e = put_frame (c\<lparr>bp_next_page_id := ?n + 1, bp_policy := EvictionPolicy_reset (bp_policy c) i\<rparr>) i ?fr"
    by (cases c) (simp add: put_frame_def)
  have run: "PageManager_allocatePage (bp, tm, w) = (Inr ?n, ?e, tm, w')"
    unfolding e using c p by (simp add: PageManager_allocatePage_def BufferPool_allocatePage_def sbind_run [where m = BufferPool_evictFrame, OF ev']
        frame_simps frame_serialize_wf sbind_def [of "frame_serialize i"] method_prims put_frame_def refresh_def)
  have fok: "frame_ok (bp_file c) (bp_next_page_id c + 1) ?fr"
    using p c ev(3) by (auto simp: frame_ok_def pool_ok_def)
  have "pool_ok ?d" "pool_view ?d = (pool_view c)(?n \<mapsto> norm_page ?p)"
    using put_new [OF ev(3) c(2) ev(7) _ _ _ fok, of "norm_page ?p"] nxt c p(1) by simp_all
  then have "pool_ok ?e" "pool_view ?e = (pool_view bp)(?n \<mapsto> norm_page ?p)"
    unfolding pool_ok_policy using ev(4) by simp_all
  moreover have "quiet ?e"
    using quiet_same_but [OF q same_but_trans [OF ev(5) same_but_put(1)], of ?fr] c(2) by (simp add: quiet_def)
  ultimately show thesis using run ev(2) c by (intro that [of ?e w']) simp_all
qed

section \<open>Flushing\<close>

text \<open>What flushing leaves of the pool: everything but dirty flags and file contents.\<close>

definition same_shape :: "BufferPool \<Rightarrow> BufferPool \<Rightarrow> bool" where
  "same_shape bp bp' \<longleftrightarrow> length (bp_frames bp') = length (bp_frames bp) \<and> bp_next_page_id bp' = bp_next_page_id bp
     \<and> bp_table_id bp' = bp_table_id bp
     \<and> (\<forall>j < length (bp_frames bp). fr_pin_count (bp_frames bp' ! j) = fr_pin_count (bp_frames bp ! j)
          \<and> (fr_dirty (bp_frames bp' ! j) \<longrightarrow> fr_dirty (bp_frames bp ! j))
          \<and> (fr_page (bp_frames bp' ! j) = None) = (fr_page (bp_frames bp ! j) = None))"

lemma flushFrom_ok:
  assumes "pool_ok bp" "\<forall>i \<in> set is. i < length (bp_frames bp)"
  shows "\<exists>bp' w'. BufferPool_flushFrom is (bp, tm, w) = (Inr (), bp', tm, w') \<and> (w' = w \<or> w' = WALWriter_flush w)
    \<and> pool_ok bp' \<and> pool_view bp' = pool_view bp \<and> same_shape bp bp'
    \<and> (\<forall>i \<in> set is. fr_page (bp_frames bp' ! i) \<noteq> None \<longrightarrow> \<not> fr_dirty (bp_frames bp' ! i))"
  using assms
proof (induction "is" arbitrary: bp w)
  case Nil
  then show ?case by (auto simp: method_prims same_shape_def)
next
  case (Cons i "is")
  let ?fr = "bp_frames bp ! i"
  have i: "i < length (bp_frames bp)" using Cons.prems by simp
  have step: "\<exists>c w1. (if fr_page ?fr \<noteq> None \<and> fr_dirty ?fr then write_back i else sreturn ()) (bp, tm, w) = (Inr (), c, tm, w1)
      \<and> (w1 = w \<or> w1 = WALWriter_flush w) \<and> pool_ok c \<and> pool_view c = pool_view bp \<and> same_shape bp c
      \<and> (fr_page (bp_frames c ! i) \<noteq> None \<longrightarrow> \<not> fr_dirty (bp_frames c ! i))"
  proof (cases "fr_page ?fr \<noteq> None \<and> fr_dirty ?fr")
    case True
    then obtain p where "at bp i p (fr_page_id ?fr)" using Cons.prems i by (auto simp: at_def)
    then obtain c where c: "write_back i (bp, tm, w) = (Inr (), c, tm, WALWriter_flushUpTo w (pg_lsn p))"
        "at c i (norm_page p) (fr_page_id ?fr)" "pool_view c = pool_view bp" "same_but i bp c"
        "bp_frames c ! i = ?fr\<lparr>fr_page := Some (norm_page p), fr_dirty := False\<rparr>"
      by (rule write_back_ok)
    have "fr_pin_count (bp_frames c ! j) = fr_pin_count (bp_frames bp ! j) \<and> (fr_dirty (bp_frames c ! j) \<longrightarrow> fr_dirty (bp_frames bp ! j))
        \<and> (fr_page (bp_frames c ! j) = None) = (fr_page (bp_frames bp ! j) = None)" for j
      using c(4,5) True by (cases "j = i") (simp_all add: same_but_def)
    then have "same_shape bp c" using same_butD [OF c(4)] by (simp add: same_shape_def)
    with True c show ?thesis
      by (intro exI [of _ c] exI [of _ "WALWriter_flush w"]) (simp add: WALWriter_flushUpTo_def at_def)
  next
    case False
    then show ?thesis using Cons.prems by (auto simp: method_prims same_shape_def)
  qed
  then obtain c w1 where c: "(if fr_page ?fr \<noteq> None \<and> fr_dirty ?fr then write_back i else sreturn ()) (bp, tm, w) = (Inr (), c, tm, w1)"
      "w1 = w \<or> w1 = WALWriter_flush w" "pool_ok c" "pool_view c = pool_view bp" "same_shape bp c"
      "fr_page (bp_frames c ! i) \<noteq> None \<longrightarrow> \<not> fr_dirty (bp_frames c ! i)" by blast
  have "\<forall>j \<in> set is. j < length (bp_frames c)" using Cons.prems c(5) by (simp add: same_shape_def)
  from Cons.IH [OF c(3) this, of w1] obtain bp' w' where r: "BufferPool_flushFrom is (c, tm, w1) = (Inr (), bp', tm, w')"
      "w' = w1 \<or> w' = WALWriter_flush w1" "pool_ok bp'" "pool_view bp' = pool_view c" "same_shape c bp'"
      "\<forall>i \<in> set is. fr_page (bp_frames bp' ! i) \<noteq> None \<longrightarrow> \<not> fr_dirty (bp_frames bp' ! i)" by blast
  have "BufferPool_flushFrom (i # is) (bp, tm, w) = (Inr (), bp', tm, w')"
    using c(1) r(1) unfolding BufferPool_flushFrom.simps get_frame_bind write_back_def [symmetric] by (simp add: sbind_def)
  moreover have "w' = w \<or> w' = WALWriter_flush w" using c(2) r(2) by (auto simp: WALWriter_flush_def)
  moreover have "same_shape bp bp'" using c(5) r(5) by (auto simp: same_shape_def)
  moreover have "fr_page (bp_frames bp' ! i) \<noteq> None \<longrightarrow> \<not> fr_dirty (bp_frames bp' ! i)"
    using c(5,6) r(5) i by (auto simp: same_shape_def)
  ultimately show ?case using r(3,4,6) c(4) by auto
qed

lemma clean_on_disk:
  assumes ok: "pool_ok bp" and pid: "0 \<le> pid" "pid < bp_next_page_id bp"
    and clean: "\<forall>i < length (bp_frames bp). fr_page (bp_frames bp ! i) \<noteq> None \<longrightarrow> \<not> fr_dirty (bp_frames bp ! i)"
  obtains p where "page_wf p" "on_disk (bp_file bp) pid (Page_image p)" "pool_view bp pid = Some (norm_page p)"
  using ok pid
proof (cases rule: pool_cases)
  case (cached i p)
  then have "frame_ok (bp_file bp) (bp_next_page_id bp) (bp_frames bp ! i)" using ok by (simp add: pool_ok_def)
  with cached clean show thesis by (intro that [of p]) (auto simp: frame_ok_def)
next
  case (disk p)
  then show thesis by (intro that)
qed

lemma flush_ok:
  assumes "pool_ok bp"
  obtains bp' w' where "PageManager_flush (bp, tm, w) = (Inr (), bp', tm, w')" "w' = w \<or> w' = WALWriter_flush w"
    "pool_ok bp'" "pool_view bp' = pool_view bp" "same_shape bp bp'"
    "\<forall>i < length (bp_frames bp'). fr_page (bp_frames bp' ! i) \<noteq> None \<longrightarrow> \<not> fr_dirty (bp_frames bp' ! i)"
proof -
  from flushFrom_ok [OF assms, of "[0..<length (bp_frames bp)]" tm w] obtain bp' w' where
    "BufferPool_flushFrom [0..<length (bp_frames bp)] (bp, tm, w) = (Inr (), bp', tm, w')" "w' = w \<or> w' = WALWriter_flush w"
    "pool_ok bp'" "pool_view bp' = pool_view bp" "same_shape bp bp'"
    "\<forall>i < length (bp_frames bp). fr_page (bp_frames bp' ! i) \<noteq> None \<longrightarrow> \<not> fr_dirty (bp_frames bp' ! i)" by auto
  then show thesis
    by (intro that [of bp' w']) (simp_all add: PageManager_flush_def BufferPool_flush_def same_shape_def)
qed

lemma fresh_pool_view:
  assumes "page_wf p" "on_disk (bp_file bp) pid (Page_image p)" "0 \<le> pid"
  shows "pool_view (BufferPool_new (bp_file bp) t pol n) pid = Some (norm_page p)"
proof -
  have "nat pid * PAGE_SIZE + PAGE_SIZE \<le> length (bp_file bp)" using assms(2) by (simp add: on_disk_def)
  then have "nat pid + 1 \<le> length (bp_file bp) div PAGE_SIZE"
    by (simp add: less_eq_div_iff_mult_less_eq PAGE_SIZE_def)
  then have "pid < int (length (bp_file bp) div PAGE_SIZE)" using assms(3) by linarith
  then show ?thesis
    using assms by (intro view_miss) (simp_all add: BufferPool_new_def holds_page_def BufferFrame_new_def)
qed

section \<open>The contract of the page manager\<close>

text \<open>The operations the record manager calls through its \<open>PageManager&\<close> member.\<close>

record 's page_ops =
  pm_readPage :: "int \<Rightarrow> ('s, Page) effect"
  pm_writePage :: "Page \<Rightarrow> u64 \<Rightarrow> ('s, unit) effect"
  pm_allocatePage :: "('s, int) effect"
  pm_getNextPageId :: "('s, int) effect"

definition PageManager_ops :: "pool_state page_ops" where
  "PageManager_ops = \<lparr>pm_readPage = PageManager_readPage, pm_writePage = PageManager_writePage,
     pm_allocatePage = PageManager_allocatePage, pm_getNextPageId = PageManager_getNextPageId\<rparr>"

text \<open>
  A page store is a growing array of well-formed pages: a read returns the page, a write replaces one
  page (up to its LSN), an allocation appends an empty page; nothing else changes.
\<close>

locale page_store =
  fixes ops :: "'s page_ops" and inv :: "'s \<Rightarrow> bool" and view :: "'s \<Rightarrow> int \<Rightarrow> Page option" and npages :: "'s \<Rightarrow> int"
  assumes npages_nonneg: "inv s \<Longrightarrow> 0 \<le> npages s"
    and view_dom: "inv s \<Longrightarrow> (\<exists>p. view s pid = Some p) \<longleftrightarrow> 0 \<le> pid \<and> pid < npages s"
    and view_wf: "inv s \<Longrightarrow> view s pid = Some p \<Longrightarrow> page_wf p \<and> sint (pg_page_id p) = pid"
    and next_ok: "inv s \<Longrightarrow> pm_getNextPageId ops s = (Inr (npages s), s)"
    and read_ok: "inv s \<Longrightarrow> view s pid = Some p \<Longrightarrow>
      \<exists>s'. pm_readPage ops pid s = (Inr p, s') \<and> inv s' \<and> view s' = view s \<and> npages s' = npages s"
    and write_ok: "inv s \<Longrightarrow> page_wf p \<Longrightarrow> sint (pg_page_id p) = pid \<Longrightarrow> view s pid = Some p0 \<Longrightarrow>
      \<exists>s' q. pm_writePage ops p t s = (Inr (), s') \<and> inv s' \<and> npages s' = npages s \<and> view s' = (view s)(pid \<mapsto> q)
        \<and> Page_abs q = Page_abs p \<and> Page_getFreeSpace q = Page_getFreeSpace p"
    and alloc_ok: "inv s \<Longrightarrow> npages s < MAX_PAGES \<Longrightarrow>
      \<exists>s' q. pm_allocatePage ops s = (Inr (npages s), s') \<and> inv s' \<and> npages s' = npages s + 1
        \<and> view s' = (view s)(npages s \<mapsto> q) \<and> Page_abs q = []"

definition store_inv :: "pool_state \<Rightarrow> bool" where
  "store_inv s \<longleftrightarrow> pool_ok (fst s) \<and> quiet (fst s)"

lemma sint_page_id: "0 \<le> pid \<Longrightarrow> pid < MAX_PAGES \<Longrightarrow> sint (word_of_int pid :: u32) = pid"
  by (simp add: signed_of_int signed_take_bit_int_eq_self MAX_PAGES_def)

lemma view_in:
  assumes "pool_ok bp" "0 \<le> pid" "pid < bp_next_page_id bp"
  shows "\<exists>p. pool_view bp pid = Some (norm_page p) \<and> page_wf p \<and> sint (pg_page_id p) = pid"
proof -
  have m: "pid < MAX_PAGES" using assms by (simp add: pool_ok_def)
  show ?thesis using assms
  proof (cases rule: pool_cases)
    case (cached i p)
    then show ?thesis using sint_page_id [OF assms(2) m] by auto
  next
    case (disk p)
    then show ?thesis using sint_page_id [OF assms(2) m] by auto
  qed
qed

lemma view_Some_iff: "pool_ok bp \<Longrightarrow> (\<exists>p. pool_view bp pid = Some p) \<longleftrightarrow> 0 \<le> pid \<and> pid < bp_next_page_id bp"
  using view_in view_out by (metis not_le option.distinct(1))

interpretation ps: page_store PageManager_ops store_inv "\<lambda>s. pool_view (fst s)" "\<lambda>s. bp_next_page_id (fst s)"
proof (unfold_locales, goal_cases)
  case (1 s)
  then show ?case by (simp add: store_inv_def pool_ok_def)
next
  case (2 s pid)
  then show ?case using view_Some_iff by (simp add: store_inv_def)
next
  case (3 s pid p)
  then have "0 \<le> pid" "pid < bp_next_page_id (fst s)" "pool_ok (fst s)"
    using view_Some_iff [of "fst s" pid] by (auto simp: store_inv_def)
  with view_in [of "fst s" pid] 3(2) show ?case by auto
next
  case (4 s)
  then show ?case by (simp add: PageManager_ops_def PageManager_getNextPageId_def method_prims split_beta)
next
  case (5 s pid p)
  obtain bp tm w where s: "s = (bp, tm, w)" by (cases s)
  with 5 have b: "pool_ok bp" "quiet bp" "0 \<le> pid" "pid < bp_next_page_id bp"
    using view_Some_iff [of bp pid] by (auto simp: store_inv_def)
  obtain bp' w' where "PageManager_readPage pid (bp, tm, w) = (Inr (the (pool_view bp pid)), bp', tm, w')"
    "pool_ok bp'" "quiet bp'" "pool_view bp' = pool_view bp" "bp_next_page_id bp' = bp_next_page_id bp"
    by (rule readPage_ok [OF b, of tm w])
  with 5 s show ?case
    by (intro exI [of _ "(bp', tm, w')"]) (simp add: PageManager_ops_def store_inv_def)
next
  case (6 s p pid p0 t)
  obtain bp tm w where s: "s = (bp, tm, w)" by (cases s)
  with 6 have b: "pool_ok bp" "quiet bp" "0 \<le> pid" "pid < bp_next_page_id bp" "pool_view bp pid = Some p0"
    using view_Some_iff [of bp pid] by (auto simp: store_inv_def)
  obtain bp' w' lsn lg' where "PageManager_writePage p t (bp, tm, w) = (Inr (), bp', if Page_image p = Page_image p0 then (tm, w') else lg')"
    "pool_ok bp'" "quiet bp'"
    "pool_view bp' = (pool_view bp)(pid \<mapsto> (if Page_image p = Page_image p0 then norm_page p else norm_page (Page_setLSN (norm_page p) lsn)))"
    "bp_next_page_id bp' = bp_next_page_id bp"
    by (rule writePage_ok [OF b(1-4) 6(2,3) b(5), of w t tm])
  with 6(2) s show ?case
    by (intro exI [of _ "(bp', if Page_image p = Page_image p0 then (tm, w') else lg')"]
        exI [of _ "if Page_image p = Page_image p0 then norm_page p else norm_page (Page_setLSN (norm_page p) lsn)"])
      (auto simp: PageManager_ops_def store_inv_def)
next
  case (7 s)
  obtain bp tm w where s: "s = (bp, tm, w)" by (cases s)
  with 7 have b: "pool_ok bp" "quiet bp" "bp_next_page_id bp < MAX_PAGES" by (auto simp: store_inv_def)
  let ?q = "norm_page (Page_new (word_of_int (bp_next_page_id bp)))"
  obtain bp' w' where "PageManager_allocatePage (bp, tm, w) = (Inr (bp_next_page_id bp), bp', tm, w')"
    "pool_ok bp'" "quiet bp'" "pool_view bp' = (pool_view bp)(bp_next_page_id bp \<mapsto> ?q)"
    "bp_next_page_id bp' = bp_next_page_id bp + 1"
    by (rule allocatePage_ok [OF b, of tm w])
  with s show ?case
    by (intro exI [of _ "(bp', tm, w')"] exI [of _ ?q])
      (simp add: PageManager_ops_def store_inv_def page_wf_new Page_abs_new)
qed

section \<open>After a failed read\<close>

text \<open>A pool whose stream has failed, with well-formed pages in its frames, over the file \<open>bs\<close>.\<close>

definition stuck :: "byte list \<Rightarrow> pool_state \<Rightarrow> bool" where
  "stuck bs s \<longleftrightarrow> bp_failed (fst s) \<and> bp_file (fst s) = bs \<and> (\<forall>fr \<in> set (bp_frames (fst s)). \<forall>p. fr_page fr = Some p \<longrightarrow> page_wf p)"

definition stays :: "(pool_state, 'a) effect \<Rightarrow> bool" where
  "stays m \<longleftrightarrow> (\<forall>bs s. stuck bs s \<longrightarrow> stuck bs (snd (m s)))"

lemma staysD: "stays m \<Longrightarrow> stuck bs s \<Longrightarrow> stuck bs (snd (m s))"
  by (simp only: stays_def)

named_theorems stays_rules \<open>code that leaves a stuck pool stuck\<close>

lemma stays_bind [stays_rules]: "stays m \<Longrightarrow> (\<And>x. stays (f x)) \<Longrightarrow> stays (sbind m f)"
  unfolding stays_def sbind_def by (auto split: prod.splits sum.splits) (metis snd_conv)+

lemma stays_prims [stays_rules]: "stays (sreturn x)" "stays (sthrow e)" "stays (slift r)" "stays (sget g)"
  "(\<And>bp lg. \<exists>lg'. f (bp, lg) = (bp, lg')) \<Longrightarrow> stays (smodify f)"
proof -
  assume f: "\<And>bp lg. \<exists>lg'. f (bp, lg) = (bp, lg')"
  show "stays (smodify f)"
    unfolding stays_def
  proof (intro allI impI)
    fix bs s assume s: "stuck bs s"
    from f [of "fst s" "snd s"] s show "stuck bs (snd (smodify f s))" by (auto simp: method_prims stuck_def)
  qed
qed (simp_all add: stays_def method_prims)

lemma stays_branch [stays_rules]: "(b \<Longrightarrow> stays m) \<Longrightarrow> (\<not> b \<Longrightarrow> stays m') \<Longrightarrow> stays (if b then m else m')"
  "(\<And>y z. stays (g y z)) \<Longrightarrow> stays (case q of (y, z) \<Rightarrow> g y z)"
  by (auto split: prod.splits)

lemma stuck_put:
  assumes "stuck bs (bp, lg)" "\<And>p. i < length (bp_frames bp) \<Longrightarrow> fr_page fr = Some p \<Longrightarrow> page_wf p"
  shows "stuck bs (put_frame bp i fr, lg')"
proof (cases "i < length (bp_frames bp)")
  case True
  then show ?thesis
    using assms unfolding stuck_def by (auto simp: put_frame_def dest!: set_update_subset_insert [THEN subsetD])
next
  case False
  then show ?thesis using assms(1) by (simp add: stuck_def put_frame_def list_update_beyond)
qed

lemma stays_set_frame [stays_rules]:
  assumes "\<And>fr p. (\<And>q. fr_page fr = Some q \<Longrightarrow> page_wf q) \<Longrightarrow> fr_page (f fr) = Some p \<Longrightarrow> page_wf p"
  shows "stays (set_frame i f)"
  unfolding stays_def
proof (intro allI impI)
  fix bs s assume s: "stuck bs s"
  obtain bp lg where sp: "s = (bp, lg)" by (cases s)
  have "page_wf q" if "i < length (bp_frames bp)" "fr_page (bp_frames bp ! i) = Some q" for q
    using s that nth_mem unfolding stuck_def sp by fastforce
  then have "stuck bs (put_frame bp i (f (bp_frames bp ! i)), lg)"
    using s assms [of "bp_frames bp ! i"] unfolding sp by (intro stuck_put) auto
  then show "stuck bs (snd (set_frame i f s))" by (simp add: sp set_frame_eq)
qed

lemma stays_get_frame [stays_rules]: "stays (get_frame i)"
  by (simp add: get_frame_def stays_rules)

lemma slift_bind: "sbind (slift r) f s = (case r of Inl e \<Rightarrow> (Inl e, s) | Inr x \<Rightarrow> f x s)"
  by (simp add: sbind_def slift_def split: sum.splits)

lemma stays_serialize [stays_rules]: "stays (frame_serialize i)"
  unfolding stays_def
proof (intro allI impI)
  fix bs s assume s: "stuck bs s"
  obtain bp lg where sp: "s = (bp, lg)" by (cases s)
  show "stuck bs (snd (frame_serialize i s))"
  proof (cases "i < length (bp_frames bp) \<and> fr_page (bp_frames bp ! i) \<noteq> None")
    case True
    then obtain p where p: "fr_page (bp_frames bp ! i) = Some p" "page_wf p" using s unfolding stuck_def sp by fastforce
    then have "stuck bs (refresh bp i p, lg)" unfolding refresh_def using s by (intro stuck_put) (auto simp: sp)
    with p show ?thesis by (simp add: sp frame_serialize_wf)
  next
    case False
    then have "snd (frame_serialize i s) = s"
      by (auto simp: sp frame_serialize_def get_frame_bind slift_bind set_frame_bind method_prims put_frame_def list_update_beyond
          split: option.splits sum.splits)
    with s show ?thesis by simp
  qed
qed

lemma stays_policy [stays_rules]: "stays (smodify (\<lambda>(bp, lg). (bp\<lparr>bp_policy := f bp\<rparr>, lg)))"
    "stays (smodify (\<lambda>(bp, lg). (bp\<lparr>bp_next_page_id := g bp\<rparr>, lg)))" "stays (record_access i)"
  by (auto simp: record_access_def stays_def stuck_def method_prims)

lemma stays_write [stays_rules]: "stays (BufferPool_writePageToDisk i)"
proof -
  have tail: "stays (sbind (sget (\<lambda>(bp, lg). bp_failed bp)) (\<lambda>failed. if failed then sthrow e else smodify (\<lambda>(bp, lg). (bp\<lparr>bp_file := f bp\<rparr>, lg))))"
    and grow: "stays (smodify (\<lambda>(bp, lg). (if bp_failed bp then bp else bp\<lparr>bp_file := f bp\<rparr>, lg)))"
    and log: "stays (smodify (\<lambda>(bp, tm, w). (bp, tm, g w)))" for e f g
    by (auto simp: stays_def stuck_def method_prims)
  show ?thesis
    unfolding BufferPool_writePageToDisk_def Let_def
    by (intro stays_bind [OF stays_get_frame] stays_branch(1) stays_prims(1) stays_bind [OF stays_serialize] stays_bind [OF grow]
        stays_bind [OF log] tail)
qed

lemma stays_evict [stays_rules]: "stays BufferPool_evictFrame"
  unfolding BufferPool_evictFrame_def by (intro stays_rules) auto

lemma stays_capture [stays_rules]: "stays (BufferPool_captureBeforeImage i)"
  unfolding BufferPool_captureBeforeImage_def by (intro stays_rules) auto

lemma readPageFromDisk_stuck:
  "stuck bs s \<Longrightarrow> int32 (pid * int PAGE_SIZE) \<Longrightarrow>
   BufferPool_readPageFromDisk i pid s = (Inl (RuntimeError (''Failed to read page '' @ string_of_int pid @ '' from disk'')), s)"
  by (cases s) (simp add: BufferPool_readPageFromDisk_def method_prims stuck_def)

lemma stays_read [stays_rules]: "stays (BufferPool_readPageFromDisk i pid)"
proof (cases "int32 (pid * int PAGE_SIZE)")
  case True
  then show ?thesis using readPageFromDisk_stuck unfolding stays_def by (metis snd_conv)
next
  case False
  then show ?thesis unfolding BufferPool_readPageFromDisk_def by (simp add: stays_rules)
qed

lemma stays_fetch [stays_rules]: "stays (BufferPool_fetchPage pid)"
  unfolding BufferPool_fetchPage_def by (intro stays_rules) auto

lemma stays_log: "(\<And>bp lg. fst (snd (m (bp, lg))) = bp) \<Longrightarrow> stays m"
  by (auto simp: stays_def stuck_def)

lemma stays_logUpdate [stays_rules]: "stays (BufferPool_logUpdateIfChanged i pid t)"
proof -
  have bg: "stays (\<lambda>(bp, tm, w). if b then (let (active_txn, tm, w) = TransactionManager_begin tm w in (Inr active_txn, bp, tm, w))
        else (Inr t, bp, tm, w))"
    and ap: "stays (\<lambda>(bp, tm, w). let (lsn, tm, w) = TransactionManager_appendRecord tm w x UPDATE HEAP pid old new (bp_table_id bp) in (Inr lsn, bp, tm, w))"
    and cm: "stays (smodify (\<lambda>(bp, tm, w). if b then (bp, TransactionManager_commit tm w x) else (bp, tm, w)))" for b x old new
    by (rule stays_log; auto simp: method_prims split: prod.splits)+
  show ?thesis
    unfolding BufferPool_logUpdateIfChanged_def Let_def [of "t = 0"]
    by (intro stays_bind [OF stays_get_frame] stays_branch(1) stays_prims(1) stays_bind [OF stays_serialize] stays_bind [OF bg]
        stays_bind [OF ap] stays_bind [OF cm] stays_set_frame) auto
qed

lemma stays_unpin [stays_rules]: "stays (BufferPool_unpinPage pid d t)"
  unfolding BufferPool_unpinPage_def by (intro stays_rules) (auto split: if_splits)

lemma stays_flushFrom [stays_rules]: "stays (BufferPool_flushFrom js)"
  by (induction js) (simp_all, (intro stays_rules; auto)+)

text \<open>The calls of the page manager, and a sequence of them; what they return or throw does not matter here.\<close>

datatype pool_op = Read int | Write Page u64 | Allocate | Flush

fun pool_step :: "pool_op \<Rightarrow> pool_state \<Rightarrow> pool_state" where
  "pool_step (Read pid) s = snd (PageManager_readPage pid s)"
| "pool_step (Write p t) s = snd (PageManager_writePage p t s)"
| "pool_step Allocate s = snd (PageManager_allocatePage s)"
| "pool_step Flush s = snd (PageManager_flush s)"

fun op_ok :: "pool_op \<Rightarrow> bool" where
  "op_ok (Write p t) = page_wf p"
| "op_ok _ = True"

lemma stuck_step: "stuck bs s \<Longrightarrow> op_ok x \<Longrightarrow> stuck bs (pool_step x s)"
proof (cases x)
  case (Read pid)
  have "stays (PageManager_readPage pid)" unfolding PageManager_readPage_def by (intro stays_rules)
  then show "stuck bs s \<Longrightarrow> ?thesis" using staysD by (simp add: Read)
next
  case (Write p t)
  assume s: "stuck bs s" and "op_ok x"
  then have p: "page_wf p" by (simp add: Write)
  have "stays (sbind (BufferPool_fetchPage q) (\<lambda>idx. sbind (set_frame idx (\<lambda>fr. fr\<lparr>fr_page := Some (norm_page p)\<rparr>)) (\<lambda>_.
     BufferPool_unpinPage q True t)))" for q
    by (intro stays_rules) (use p in auto)
  moreover have "pool_step x s = snd (sbind (BufferPool_fetchPage (sint (pg_page_id p))) (\<lambda>idx. sbind (set_frame idx (\<lambda>fr. fr\<lparr>fr_page := Some (norm_page p)\<rparr>)) (\<lambda>_.
     BufferPool_unpinPage (sint (pg_page_id p)) True t)) s)"
    using p by (simp add: Write PageManager_writePage_def Let_def) (intro arg_cong [of _ _ snd] sbind_cong refl; simp)
  ultimately show ?thesis by (simp only: staysD [OF _ s])
next
  case Allocate
  have "stays BufferPool_allocatePage" unfolding BufferPool_allocatePage_def by (intro stays_rules) (auto simp: page_wf_new)
  then show "stuck bs s \<Longrightarrow> ?thesis" using staysD by (simp add: Allocate PageManager_allocatePage_def)
next
  case Flush
  have "stays BufferPool_flush" unfolding BufferPool_flush_def by (intro stays_rules)
  then show "stuck bs s \<Longrightarrow> ?thesis" using staysD by (simp add: Flush PageManager_flush_def)
qed

lemma stuck_run: "stuck bs s \<Longrightarrow> list_all op_ok xs \<Longrightarrow> stuck bs (fold pool_step xs s)"
  by (induction xs arbitrary: s) (simp_all add: stuck_step)

text \<open>What a read of a page that is not cached throws once the stream has failed.\<close>

definition stuck_error :: "BufferPool \<Rightarrow> int \<Rightarrow> string" where
  "stuck_error bp pid =
     (let v = fst (EvictionPolicy_selectVictim (bp_policy bp) (bp_frames bp)); fr = bp_frames bp ! nat v in
      if v < 0 then ''BufferPool: all frames are pinned, cannot evict''
      else if fr_page fr \<noteq> None \<and> fr_dirty fr then ''Failed to write page '' @ string_of_int (fr_page_id fr) @ '' to disk''
      else ''Failed to read page '' @ string_of_int pid @ '' from disk'')"

lemma write_stuck:
  assumes "bp_failed bp" "fr_page (bp_frames bp ! i) = Some p" "page_wf p"
  shows "fst (BufferPool_writePageToDisk i (bp, tm, w)) =
    Inl (RuntimeError (''Failed to write page '' @ string_of_int (fr_page_id (bp_frames bp ! i)) @ '' to disk''))"
  using assms by (simp add: BufferPool_writePageToDisk_def frame_simps frame_serialize_bind [OF assms(2,3)] Let_def method_prims)

lemma evict_stuck:
  assumes "stuck bs (bp, lg)"
  shows "(case fst (BufferPool_evictFrame (bp, lg)) of Inl e \<Rightarrow> e
      | Inr _ \<Rightarrow> RuntimeError (''Failed to read page '' @ string_of_int pid @ '' from disk'')) = RuntimeError (stuck_error bp pid)"
proof -
  obtain v pol where sel: "EvictionPolicy_selectVictim (bp_policy bp) (bp_frames bp) = (v, pol)" by fastforce
  let ?fr = "bp_frames bp ! nat v" and ?b = "bp\<lparr>bp_policy := pol\<rparr>"
  obtain tm w where lg: "lg = (tm, w)" by fastforce
  have "nat v < length (bp_frames bp)" if "0 \<le> v"
    using ev.select_ok [of "bp_frames bp" "bp_policy bp"] sel that by (auto simp: victim_ok_def unpinned_def)
  then have wf: "page_wf p" if "0 \<le> v" "fr_page ?fr = Some p" for p
    using assms that nth_mem unfolding stuck_def by fastforce
  consider (none) "v < 0" | (dirty) p where "0 \<le> v" "fr_page ?fr = Some p" "fr_dirty ?fr"
    | (clean) "0 \<le> v" "fr_page ?fr = None \<or> \<not> fr_dirty ?fr" by fastforce
  then show ?thesis
  proof cases
    case none
    then show ?thesis by (simp add: BufferPool_evictFrame_def sel stuck_error_def method_prims)
  next
    case dirty
    let ?e = "RuntimeError (''Failed to write page '' @ string_of_int (fr_page_id ?fr) @ '' to disk'')"
    obtain r x where wr: "BufferPool_writePageToDisk (nat v) (?b, lg) = (r, x)" by (rule prod.exhaust)
    have "fst (BufferPool_writePageToDisk (nat v) (?b, lg)) = Inl ?e"
      using write_stuck [of ?b "nat v" p tm w] assms dirty(2) wf [OF dirty(1,2)] unfolding lg stuck_def by simp
    then have "BufferPool_writePageToDisk (nat v) (?b, lg) = (Inl ?e, x)" by (simp add: wr)
    then have "fst (BufferPool_evictFrame (bp, lg))
        = Inl (RuntimeError (''Failed to write page '' @ string_of_int (fr_page_id ?fr) @ '' to disk''))"
      using dirty by (simp add: BufferPool_evictFrame_def sel frame_simps sbind_def [of "BufferPool_writePageToDisk _"] sbind_def [of "sbind _ _"])
    with dirty show ?thesis by (simp add: stuck_error_def sel)
  next
    case clean
    then show ?thesis by (auto simp: BufferPool_evictFrame_def sel stuck_error_def frame_simps method_prims)
  qed
qed

lemma readPage_stuck:
  assumes "stuck bs (bp, lg)" "BufferPool_findFrame bp pid = -1" "int32 (pid * int PAGE_SIZE)"
  shows "fst (PageManager_readPage pid (bp, lg)) = Inl (RuntimeError (stuck_error bp pid))"
proof -
  obtain r s where ev: "BufferPool_evictFrame (bp, lg) = (r, s)" by (rule prod.exhaust)
  have "stuck bs s" using staysD [OF stays_evict assms(1)] by (simp add: ev)
  then have rd: "BufferPool_readPageFromDisk j pid s = (Inl (RuntimeError (''Failed to read page '' @ string_of_int pid @ '' from disk'')), s)" for j
    using assms(3) by (rule readPageFromDisk_stuck)
  have "BufferPool_fetchPage pid (bp, lg) = (Inl (RuntimeError (stuck_error bp pid)), s)"
    using evict_stuck [OF assms(1), of pid] assms(2) unfolding BufferPool_fetchPage_def
    by (cases r) (simp_all add: sbind_def [of BufferPool_evictFrame] ev sbind_cases(2) [of "BufferPool_readPageFromDisk _ pid", OF rd])
  then show ?thesis by (simp add: PageManager_readPage_def sbind_cases(2) [of "BufferPool_fetchPage pid"])
qed

section \<open>Properties\<close>

text \<open>
  C13: the buffer pool is transparent. Whatever is cached, dirty or on disk, reading page \<open>pid\<close> through
  the page manager returns the page last written there, throws nothing, changes no page, leaves every frame
  unpinned and touches the log at most by flushing it.
\<close>
theorem PageManager_read_transparent:
  assumes "pool_ok bp" "quiet bp" "0 \<le> pid" "pid < bp_next_page_id bp"
  shows "\<exists>p bp' w'. pool_view bp pid = Some p \<and> PageManager_readPage pid (bp, tm, w) = (Inr p, bp', tm, w')
    \<and> (w' = w \<or> w' = WALWriter_flush w) \<and> pool_ok bp' \<and> quiet bp' \<and> pool_view bp' = pool_view bp"
proof -
  obtain p where "pool_view bp pid = Some p" using view_in [OF assms(1,3,4)] by blast
  moreover obtain bp' w' where "PageManager_readPage pid (bp, tm, w) = (Inr (the (pool_view bp pid)), bp', tm, w')"
    "w' = w \<or> w' = WALWriter_flush w" "pool_ok bp'" "quiet bp'" "pool_view bp' = pool_view bp"
    by (rule readPage_ok [OF assms, of tm w])
  ultimately show ?thesis by auto
qed

text \<open>A pool of two frames over a file that was empty, after one allocation.\<close>

definition sample_log :: Log where "sample_log = TransactionManager_new (WALWriter_open [])"

definition sample_pool :: BufferPool where
  "sample_pool = fst (snd (PageManager_allocatePage (BufferPool_new [] 0 (Clock ClockSweepPolicy_new) 2, sample_log)))"

lemma empty_pool_ok: "pool_ok (BufferPool_new [] t pol n)"
  by (simp add: pool_ok_def BufferPool_new_def frame_ok_def BufferFrame_new_def ids_distinct_def holds_page_def covered_def MAX_PAGES_def)

lemma empty_pool_quiet: "0 < n \<Longrightarrow> quiet (BufferPool_new file t pol n)"
  by (simp add: quiet_def BufferPool_new_def BufferFrame_new_def)

lemma sample_pool_ok: "pool_ok sample_pool" "quiet sample_pool" "bp_next_page_id sample_pool = 1"
  "pool_view sample_pool 0 = Some (norm_page (Page_new 0))"
proof -
  let ?bp = "BufferPool_new [] 0 (Clock ClockSweepPolicy_new) 2"
  have n: "bp_next_page_id ?bp = 0" by (simp add: BufferPool_new_def)
  obtain tm w where lg: "sample_log = (tm, w)" by (rule prod.exhaust)
  obtain bp' w' where "PageManager_allocatePage (?bp, tm, w) = (Inr (bp_next_page_id ?bp), bp', tm, w')"
    "pool_ok bp'" "quiet bp'"
    "pool_view bp' = (pool_view ?bp)(bp_next_page_id ?bp \<mapsto> norm_page (Page_new (word_of_int (bp_next_page_id ?bp))))"
    "bp_next_page_id bp' = bp_next_page_id ?bp + 1"
    by (rule allocatePage_ok [of ?bp tm w, OF empty_pool_ok empty_pool_quiet])
      (simp_all add: n MAX_PAGES_def)
  then show "pool_ok sample_pool" "quiet sample_pool" "bp_next_page_id sample_pool = 1"
    "pool_view sample_pool 0 = Some (norm_page (Page_new 0))"
    by (simp_all add: sample_pool_def lg n)
qed

theorem PageManager_read_transparent_witness:
  "\<exists>p bp' w'. pool_view sample_pool 0 = Some p
    \<and> PageManager_readPage 0 (sample_pool, fst sample_log, snd sample_log) = (Inr p, bp', fst sample_log, w')
    \<and> (w' = snd sample_log \<or> w' = WALWriter_flush (snd sample_log)) \<and> pool_ok bp' \<and> quiet bp' \<and> pool_view bp' = pool_view sample_pool"
  by (rule PageManager_read_transparent) (simp_all add: sample_pool_ok)

text \<open>
  writing a page through the page manager changes exactly that page. If the bytes changed, one UPDATE
  record with the page's old and new image is appended to the log before the pool's copy changes (inside a transaction of its
  own that is committed at once, if the caller has none) and the page is stamped with that record's LSN;
  if they did not, nothing is logged.
\<close>
theorem PageManager_write_logged:
  assumes "pool_ok bp" "quiet bp" "page_wf p" "pool_view bp (sint (pg_page_id p)) = Some p0"
  shows "\<exists>bp' w' lsn lg'. (w' = w \<or> w' = WALWriter_flush w)
    \<and> log_page_update t (bp_table_id bp) (sint (pg_page_id p)) (Page_image p0) (Page_image p) (tm, w') = (lsn, lg')
    \<and> PageManager_writePage p t (bp, tm, w) = (Inr (), bp', if Page_image p = Page_image p0 then (tm, w') else lg')
    \<and> pool_ok bp' \<and> quiet bp'
    \<and> pool_view bp' = (pool_view bp)(sint (pg_page_id p) \<mapsto>
        (if Page_image p = Page_image p0 then norm_page p else norm_page (Page_setLSN (norm_page p) lsn)))"
proof -
  have "0 \<le> sint (pg_page_id p)" "sint (pg_page_id p) < bp_next_page_id bp"
    using view_Some_iff [OF assms(1), of "sint (pg_page_id p)"] assms(4) by auto
  from writePage_ok [OF assms(1,2) this assms(3) refl assms(4), of w t tm] show ?thesis by (metis (no_types, lifting))
qed

theorem PageManager_write_logged_witness:
  "\<exists>bp' lg'. PageManager_writePage (norm_page (Page_new 0)) 0 (sample_pool, fst sample_log, snd sample_log) = (Inr (), bp', lg')
    \<and> pool_ok bp' \<and> quiet bp'"
proof -
  have "pg_page_id (norm_page (Page_new 0)) = 0" by (simp add: Page_new_def Page_updateHeaderToData_def)
  with PageManager_write_logged [OF sample_pool_ok(1,2) norm_page_wf [OF page_wf_new [of 0]], of "norm_page (Page_new 0)"
      "snd sample_log" 0 "fst sample_log"] sample_pool_ok(4)
  show ?thesis by (metis signed_0)
qed

text \<open>
  after a flush the file alone carries the heap: a pool freshly opened on the file, with any eviction policy and any
  number of frames, has every page the old pool had.
\<close>
theorem BufferPool_flush_reopen:
  assumes "pool_ok bp" "0 \<le> pid" "pid < bp_next_page_id bp"
  shows "\<exists>bp' w'. PageManager_flush (bp, tm, w) = (Inr (), bp', tm, w') \<and> pool_ok bp' \<and> pool_view bp' = pool_view bp
    \<and> pool_view (BufferPool_new (bp_file bp') t pol n) pid = pool_view bp pid"
proof -
  obtain bp' w' where f: "PageManager_flush (bp, tm, w) = (Inr (), bp', tm, w')" "pool_ok bp'" "pool_view bp' = pool_view bp"
    "same_shape bp bp'" "\<forall>i < length (bp_frames bp'). fr_page (bp_frames bp' ! i) \<noteq> None \<longrightarrow> \<not> fr_dirty (bp_frames bp' ! i)"
    by (rule flush_ok [OF assms(1), of tm w])
  then have "pid < bp_next_page_id bp'" using assms(3) by (simp add: same_shape_def)
  with f assms(2) obtain p where "page_wf p" "on_disk (bp_file bp') pid (Page_image p)" "pool_view bp' pid = Some (norm_page p)"
    by (metis clean_on_disk)
  with f assms(2) show ?thesis by (auto simp: fresh_pool_view)
qed

theorem BufferPool_flush_reopen_witness:
  "\<exists>bp' w'. PageManager_flush (sample_pool, fst sample_log, snd sample_log) = (Inr (), bp', fst sample_log, w') \<and> pool_ok bp'
    \<and> pool_view bp' = pool_view sample_pool
    \<and> pool_view (BufferPool_new (bp_file bp') 0 (LRU2 LRU2Policy_new) 4) 0 = pool_view sample_pool 0"
  by (rule BufferPool_flush_reopen) (simp_all add: sample_pool_ok)

text \<open>
  C30: a failed read poisons the pool for good. Reading a page past the end of the file throws and leaves the
  stream's fail bit set. After any sequence of calls of the page manager from there (reads, writes of well-formed pages, allocations, flushes, each of
  which may return or throw), the bit is still set, not one byte of the file has changed, and each read of a page that is not
  cached throws, existing pages included: a \<open>runtime_error\<close> that all frames are pinned, that the eviction victim could not be written
  back, or, if the victim was clean, that the page could not be read.
\<close>
theorem BufferPool_failed_read_sticky:
  assumes "0 \<le> pid" "int32 (pid * int PAGE_SIZE)" "length (bp_file bp) < nat pid * PAGE_SIZE + PAGE_SIZE"
    and "\<forall>fr \<in> set (bp_frames bp). \<forall>p. fr_page fr = Some p \<longrightarrow> page_wf p" "list_all op_ok xs"
    and "fold pool_step xs (bp\<lparr>bp_failed := True\<rparr>, lg) = (bp', lg')"
  shows "BufferPool_readPageFromDisk i pid (bp, lg) =
      (Inl (RuntimeError (''Failed to read page '' @ string_of_int pid @ '' from disk'')), bp\<lparr>bp_failed := True\<rparr>, lg)
    \<and> bp_failed bp' \<and> bp_file bp' = bp_file bp
    \<and> (\<forall>pid'. BufferPool_findFrame bp' pid' = -1 \<longrightarrow> int32 (pid' * int PAGE_SIZE) \<longrightarrow>
         fst (PageManager_readPage pid' (bp', lg')) = Inl (RuntimeError (stuck_error bp' pid')))"
proof -
  have "stuck (bp_file bp) (bp\<lparr>bp_failed := True\<rparr>, lg)" using assms(4) by (simp add: stuck_def)
  then have st: "stuck (bp_file bp) (bp', lg')" using stuck_run [OF _ assms(5)] assms(6) by metis
  moreover have "BufferPool_readPageFromDisk i pid (bp, lg) =
      (Inl (RuntimeError (''Failed to read page '' @ string_of_int pid @ '' from disk'')), bp\<lparr>bp_failed := True\<rparr>, lg)"
    using assms(1-3) by (simp add: BufferPool_readPageFromDisk_def method_prims)
  ultimately show ?thesis using readPage_stuck [OF st] by (simp add: stuck_def)
qed

theorem BufferPool_failed_read_sticky_witness:
  "let s = fold pool_step [Allocate, Flush, Read 0] ((BufferPool_new [] 0 (Clock ClockSweepPolicy_new) 2)\<lparr>bp_failed := True\<rparr>, sample_log) in
   bp_failed (fst s) \<and> bp_file (fst s) = []"
proof -
  let ?bp = "BufferPool_new [] 0 (Clock ClockSweepPolicy_new) 2"
  have l: "length (bp_file ?bp) < nat 3 * PAGE_SIZE + PAGE_SIZE" "int32 (3 * int PAGE_SIZE)"
      "\<forall>fr \<in> set (bp_frames ?bp). \<forall>p. fr_page fr = Some p \<longrightarrow> page_wf p" "list_all op_ok [Allocate, Flush, Read 0]"
    by (simp_all add: BufferPool_new_def PAGE_SIZE_def int32_def BufferFrame_new_def)
  obtain bp' lg' where "fold pool_step [Allocate, Flush, Read 0] (?bp\<lparr>bp_failed := True\<rparr>, sample_log) = (bp', lg')" by (rule prod.exhaust)
  from BufferPool_failed_read_sticky [OF zero_le_numeral l(2,1,3,4) this] this show ?thesis
    by (simp only: Let_def fst_conv) (simp add: BufferPool_new_def)
qed

end
