(* ===== verification/Records.thy ===== *)
theory Records
  imports Keys
begin

text \<open>
  \<open>record.hpp\<close> / \<open>record.cpp\<close>: one version of a row and its byte layout
  \<open>[create_txn_id][delete_txn_id][prev page][prev slot][#fields]([len][bytes])*\<close>.

  \<open>Record_deserialize\<close> keeps the two length checks of the source, including their \<open>size_t\<close>
  arithmetic: a negative length wraps around \<open>2 ^ 64\<close>, passes the second check, and then names a
  negative iterator range, which is the value \<open>UndefinedBehaviour\<close> here.
\<close>

record Record =
  rec_fields :: "string list"
  rec_create_txn_id :: u64
  rec_delete_txn_id :: u64
  rec_prev_version :: RID

definition Record_new :: "string list \<Rightarrow> u64 \<Rightarrow> RID \<Rightarrow> Record" where
  "Record_new fs create prev =
     \<lparr>rec_fields = fs, rec_create_txn_id = create, rec_delete_txn_id = 0, rec_prev_version = prev\<rparr>"

definition Record_hasPrevVersion :: "Record \<Rightarrow> bool" where
  "Record_hasPrevVersion r \<longleftrightarrow> rid_page_id (rec_prev_version r) \<ge> 0"

definition DELETE_TXN_ID_OFFSET :: nat where "DELETE_TXN_ID_OFFSET = 8"
definition MVCC_HEADER_SIZE :: nat where "MVCC_HEADER_SIZE = 8 * 2 + 4 * 2"

text \<open>
  The lambda \<open>append\<close> of \<open>Record::serialize\<close>: \<open>resize(offset + n)\<close> computes the new size modulo \<open>2 ^ 64\<close> and throws above
  \<open>max_size()\<close>, which is \<open>2 ^ 63 - 1\<close>; the \<open>memcpy\<close> that follows needs \<open>n\<close> bytes at the source and room for them in the buffer.
\<close>

definition Record_append :: "byte list \<Rightarrow> nat \<Rightarrow> byte list \<Rightarrow> byte list result" where
  "Record_append src n buffer =
     (let offset = length buffer; size = (offset + n) mod 2 ^ 64 in
      if size \<ge> 2 ^ 63 then Inl (LengthError ''vector::_M_default_append'')
      else if size < offset + n \<or> length src < n then Inl (UndefinedBehaviour ''memcpy'')
      else Inr (buffer @ take n src))"

text \<open>The length of a field is narrowed to \<open>int\<close> and widened to \<open>size_t\<close> again for \<open>append\<close>.\<close>

definition Record_serializeField :: "string \<Rightarrow> byte list \<Rightarrow> byte list result" where
  "Record_serializeField field buffer =
     (let len = narrow_int (length field) in
      bindE (Record_append (le_int len) 4 buffer) (\<lambda>buffer.
      Record_append (bytes_of_string field) (nat (len mod 2 ^ 64)) buffer))"

fun Record_serializeFields :: "string list \<Rightarrow> byte list \<Rightarrow> byte list result" where
  "Record_serializeFields [] buffer = Inr buffer"
| "Record_serializeFields (field # fs) buffer =
     bindE (Record_serializeField field buffer) (Record_serializeFields fs)"

definition Record_serialize :: "Record \<Rightarrow> byte list result" where
  "Record_serialize r =
     bindE (Record_append (le_bytes 8 (rec_create_txn_id r)) 8 []) (\<lambda>buffer.
     bindE (Record_append (le_bytes 8 (rec_delete_txn_id r)) 8 buffer) (\<lambda>buffer.
     bindE (Record_append (le_int (rid_page_id (rec_prev_version r))) 4 buffer) (\<lambda>buffer.
     bindE (Record_append (le_int (rid_slot_id (rec_prev_version r))) 4 buffer) (\<lambda>buffer.
     bindE (Record_append (le_int (narrow_int (length (rec_fields r)))) 4 buffer) (\<lambda>buffer.
     Record_serializeFields (rec_fields r) buffer)))))"

text \<open>The field loop of \<open>Record::deserialize\<close>: \<open>n\<close> fields still to read at \<open>offset\<close>.\<close>

fun Record_readFields :: "byte list \<Rightarrow> nat \<Rightarrow> nat \<Rightarrow> string list result" where
  "Record_readFields buffer 0 offset = Inr []"
| "Record_readFields buffer (Suc n) offset =
     (if offset + 4 > length buffer
      then Inl (RuntimeError ''Invalid record buffer: length missing'')
      else
        let len = int_of_le (chunk offset 4 buffer); offset' = offset + 4 in
        if (int offset' + len) mod 2 ^ 64 > int (length buffer)
        then Inl (RuntimeError ''Invalid record buffer: data missing'')
        else if len < 0 then Inl (UndefinedBehaviour ''std::string: negative iterator range'')
        else bindE (Record_readFields buffer n (offset' + nat len))
               (\<lambda>fs. Inr (string_of_bytes (chunk offset' (nat len) buffer) # fs)))"

definition Record_deserialize :: "byte list \<Rightarrow> Record result" where
  "Record_deserialize buffer =
     (if length buffer < MVCC_HEADER_SIZE + 4
      then Inl (RuntimeError ''Invalid record buffer: too small'')
      else
        let create = le_word (chunk 0 8 buffer);
            delete = le_word (chunk 8 8 buffer);
            prev = RID (int_of_le (chunk 16 4 buffer)) (int_of_le (chunk 20 4 buffer));
            num_fields = int_of_le (chunk 24 4 buffer) in
        bindE (Record_readFields buffer (nat num_fields) 28)
          (\<lambda>fs. Inr ((Record_new fs create prev)\<lparr>rec_delete_txn_id := delete\<rparr>)))"

definition Record_size :: "Record \<Rightarrow> nat" where
  "Record_size r = MVCC_HEADER_SIZE + 4 + sum_list (map (\<lambda>f. 4 + length f) (rec_fields r))"

text \<open>The sizes the C++ \<open>int\<close> length fields can carry.\<close>

definition Record_fits :: "Record \<Rightarrow> bool" where
  "Record_fits r \<longleftrightarrow> length (rec_fields r) < 2 ^ 31
     \<and> (\<forall>f \<in> set (rec_fields r). length f < 2 ^ 31) \<and> wf_rid (rec_prev_version r)"

section \<open>Layout\<close>

text \<open>The layout a record has when its lengths fit, and that \<open>serialize\<close> writes it.\<close>

definition field_bytes :: "string \<Rightarrow> byte list" where
  "field_bytes f = le_int (int (length f)) @ bytes_of_string f"

definition Record_bytes :: "Record \<Rightarrow> byte list" where
  "Record_bytes r =
     le_bytes 8 (rec_create_txn_id r) @ le_bytes 8 (rec_delete_txn_id r)
     @ le_int (rid_page_id (rec_prev_version r)) @ le_int (rid_slot_id (rec_prev_version r))
     @ le_int (int (length (rec_fields r))) @ concat (map field_bytes (rec_fields r))"

lemma length_field_bytes [simp]: "length (field_bytes f) = 4 + length f"
  by (simp add: field_bytes_def)

lemma length_fields_bytes:
  "length (concat (map field_bytes fs)) = sum_list (map (\<lambda>f. 4 + length f) fs)"
  by (induction fs) auto

lemma length_Record_bytes [simp, bytes_simps]: "length (Record_bytes r) = Record_size r"
  by (simp add: Record_bytes_def Record_size_def MVCC_HEADER_SIZE_def length_fields_bytes)

text \<open>
  Lengths that fit \<open>int\<close>. Then no conversion and no addition of \<open>serialize\<close> wraps: \<open>2 ^ 31\<close> fields of \<open>2 ^ 31\<close> bytes are still fewer than \<open>2 ^ 63\<close> bytes.
\<close>

definition lengths_fit :: "string list \<Rightarrow> bool" where
  "lengths_fit fs \<longleftrightarrow> length fs < 2 ^ 31 \<and> (\<forall>f \<in> set fs. length f < 2 ^ 31)"

lemma append_fits: "length src = n \<Longrightarrow> length buffer + n < 2 ^ 63 \<Longrightarrow> Record_append src n buffer = Inr (buffer @ src)"
  by (simp add: Record_append_def)

lemma serializeField_fits:
  assumes "length f < 2 ^ 31" "length buffer + 4 + length f < 2 ^ 63"
  shows "Record_serializeField f buffer = Inr (buffer @ field_bytes f)"
proof -
  have "nat (narrow_int (length f) mod 2 ^ 64) = length f" using assms(1) by (simp add: narrow_int_id)
  then show ?thesis using assms
    by (simp add: Record_serializeField_def Let_def append_fits field_bytes_def narrow_int_id)
qed

lemma serializeFields_fits:
  assumes "\<forall>f \<in> set fs. length f < 2 ^ 31" "length buffer + sum_list (map (\<lambda>f. 4 + length f) fs) < 2 ^ 63"
  shows "Record_serializeFields fs buffer = Inr (buffer @ concat (map field_bytes fs))"
  using assms by (induction fs arbitrary: buffer) (simp_all add: serializeField_fits)

lemma fields_size: "\<forall>f \<in> set fs. length f < 2 ^ 31 \<Longrightarrow> sum_list (map (\<lambda>f. 4 + length f) fs) \<le> length fs * (2 ^ 31 + 4)"
  by (induction fs) auto

lemma serialize_fits:
  assumes "lengths_fit (rec_fields r)"
  shows "Record_serialize r = Inr (Record_bytes r)"
proof -
  let ?fs = "rec_fields r"
  have "length ?fs * (2 ^ 31 + 4) \<le> 2 ^ 31 * (2 ^ 31 + 4 :: nat)"
    using assms by (intro mult_le_mono1) (simp add: lengths_fit_def)
  then have "sum_list (map (\<lambda>f. 4 + length f) ?fs) \<le> 2 ^ 31 * (2 ^ 31 + 4)"
    using fields_size [of ?fs] assms by (simp add: lengths_fit_def)
  then have "28 + sum_list (map (\<lambda>f. 4 + length f) ?fs) < 2 ^ 63" by simp
  then show ?thesis
    using assms serializeFields_fits [of ?fs] by (simp add: Record_serialize_def append_fits narrow_int_id lengths_fit_def Record_bytes_def)
qed

text \<open>A row whose record has a size that fits \<open>int\<close>, with the slot entry added: what \<open>Page::insertRecord\<close> can count.\<close>

definition int_sized :: "string list \<Rightarrow> bool" where
  "int_sized fs \<longleftrightarrow> MVCC_HEADER_SIZE + 4 + sum_list (map (\<lambda>f. 4 + length f) fs) < 2 ^ 31 - 5"

lemma int_sized_size: "int_sized (rec_fields r) \<longleftrightarrow> Record_size r < 2 ^ 31 - 5"
  by (simp add: int_sized_def Record_size_def)

lemma int_sized_fit: "int_sized fs \<Longrightarrow> lengths_fit fs"
proof -
  assume a: "int_sized fs"
  have "length fs \<le> sum_list (map (\<lambda>f. 4 + length f) fs)" by (induction fs) auto
  moreover have "length f \<le> sum_list (map (\<lambda>f. 4 + length f) fs)" if "f \<in> set fs" for f
    using that member_le_sum_list [of "4 + length f" "map (\<lambda>f. 4 + length f) fs"] by auto
  ultimately show ?thesis using a by (fastforce simp: lengths_fit_def int_sized_def)
qed

lemma Record_size_ge: "28 \<le> Record_size r"
  by (simp add: Record_size_def MVCC_HEADER_SIZE_def)

lemma int32_of_length: "n < 2 ^ 31 \<Longrightarrow> int32 (int n)"
  by (simp add: int32_def)

section \<open>Round trip\<close>

lemma Record_readFields_step:
  assumes "int_of_le (chunk offset 4 b) = int n" "offset + 4 + n \<le> length b"
  shows "Record_readFields b (Suc k) offset =
    bindE (Record_readFields b k (offset + 4 + n))
      (\<lambda>fs. Inr (string_of_bytes (chunk (offset + 4) n b) # fs))"
proof -
  have "int (offset + 4 + n) mod 2 ^ 64 \<le> int (offset + 4 + n)"
    by (rule zmod_le_nonneg_dividend) simp
  also have "\<dots> \<le> int (length b)"
    using assms(2) by simp
  finally have "\<not> (int (offset + 4) + int n) mod 2 ^ 64 > int (length b)"
    by (simp add: algebra_simps)
  then show ?thesis
    using assms by (simp add: Let_def)
qed

lemma Record_readFields_serialize:
  assumes "\<forall>f \<in> set fs. length f < 2 ^ 31"
  shows "Record_readFields (pre @ concat (map field_bytes fs) @ post)
           (length fs) (length pre) = Inr fs"
  using assms
proof (induction fs arbitrary: pre)
  case Nil
  show ?case by simp
next
  case (Cons f fs)
  let ?rest = "concat (map field_bytes fs) @ post"
  let ?buf = "pre @ le_int (int (length f)) @ bytes_of_string f @ ?rest"
  have buf: "pre @ concat (map field_bytes (f # fs)) @ post = ?buf"
    by (simp add: field_bytes_def)
  have len: "int_of_le (chunk (length pre) 4 ?buf) = int (length f)"
    using Cons.prems by (subst chunk_middle) (simp_all add: int32_of_length)
  have body: "chunk (length pre + 4) (length f) ?buf = bytes_of_string f"
    by (simp add: chunk_append2)
  have rest: "Record_readFields ?buf (length fs) (length pre + 4 + length f) = Inr fs"
    using Cons.IH [of "pre @ field_bytes f"] Cons.prems
    by (simp add: field_bytes_def [of f] add.assoc)
  show ?case
    unfolding buf list.size(4) One_nat_def add_Suc_right add_0_right
    by (subst Record_readFields_step [OF len]) (simp, simp only: rest body, simp)
qed

lemma Record_deserialize_serialize:
  assumes "Record_fits r"
  shows "Record_deserialize (Record_bytes r) = Inr r"
proof -
  let ?h = "le_bytes 8 (rec_create_txn_id r) @ le_bytes 8 (rec_delete_txn_id r)
     @ le_int (rid_page_id (rec_prev_version r)) @ le_int (rid_slot_id (rec_prev_version r))
     @ le_int (int (length (rec_fields r)))"
  let ?fs = "concat (map field_bytes (rec_fields r))"
  have buf: "Record_bytes r = ?h @ ?fs"
    by (simp add: Record_bytes_def)
  have r32: "int32 (rid_page_id (rec_prev_version r))" "int32 (rid_slot_id (rec_prev_version r))"
      "int32 (int (length (rec_fields r)))"
    using assms by (auto simp: Record_fits_def wf_rid_def intro: int32_of_length)
  have fields: "Record_readFields (Record_bytes r) (length (rec_fields r)) 28 = Inr (rec_fields r)"
    using Record_readFields_serialize [of "rec_fields r" ?h "[]"] assms
    by (simp add: Record_fits_def buf)
  have hdr: "chunk 0 8 (Record_bytes r) = le_bytes 8 (rec_create_txn_id r)"
      "chunk 8 8 (Record_bytes r) = le_bytes 8 (rec_delete_txn_id r)"
      "chunk 16 4 (Record_bytes r) = le_int (rid_page_id (rec_prev_version r))"
      "chunk 20 4 (Record_bytes r) = le_int (rid_slot_id (rec_prev_version r))"
      "chunk 24 4 (Record_bytes r) = le_int (int (length (rec_fields r)))"
    by (simp_all add: Record_bytes_def chunk_append2)
  show ?thesis
    using fields r32 Record_size_ge [of r]
    by (simp add: Record_deserialize_def MVCC_HEADER_SIZE_def hdr Let_def Record_new_def)
qed

section \<open>Stamping a delete\<close>

lemma Record_patch_delete:
  "overwrite (Record_bytes r) DELETE_TXN_ID_OFFSET (le_bytes 8 t)
     = Record_bytes (r\<lparr>rec_delete_txn_id := t\<rparr>)"
  by (simp add: Record_bytes_def DELETE_TXN_ID_OFFSET_def overwrite_middle)

section \<open>Properties\<close>

text \<open>
  Deserializing the bytes of a serialized record gives the record back, for every record
  whose field count and field sizes fit the 32-bit length fields.
\<close>

theorem Record_roundtrip:
  assumes "Record_fits r"
  shows "bindE (Record_serialize r) Record_deserialize = Inr r"
  using assms Record_deserialize_serialize [OF assms] by (simp add: serialize_fits lengths_fit_def Record_fits_def)

theorem Record_roundtrip_witness:
  "bindE (Record_serialize (Record_new [''id'', []] 5 (RID 2 3))) Record_deserialize
     = Inr (Record_new [''id'', []] 5 (RID 2 3))"
  by (rule Record_roundtrip) (simp add: Record_fits_def Record_new_def wf_rid_def int32_def)

text \<open>
  Overwriting eight bytes at \<open>DELETE_TXN_ID_OFFSET\<close> of a serialized record is exactly
  setting its deleting transaction, and \<open>Record::size\<close> is the length of the serialized bytes.
\<close>

theorem Record_delete_stamp:
  "overwrite (Record_bytes r) DELETE_TXN_ID_OFFSET (le_bytes 8 t)
     = Record_bytes (r\<lparr>rec_delete_txn_id := t\<rparr>)
   \<and> length (Record_bytes r) = Record_size r"
  by (simp add: Record_patch_delete)

text \<open>
  a negative stored field length is not refused as such. Take any buffer of at least 32 bytes whose field count is positive and whose first field
  length is \<open>-n\<close>. The \<open>data missing\<close> check adds the length as an unsigned 64-bit number, so it sees the position \<open>32 - n\<close>: for \<open>n \<le> 32\<close> the check passes and the
  field is built from an iterator range whose end lies before its beginning, which is undefined behaviour; only for \<open>n > 32\<close> does the sum wrap and the check throw.
\<close>

theorem Record_negative_length_unchecked:
  assumes "32 \<le> length buffer" "length buffer < 2 ^ 63" "int_of_le (chunk 24 4 buffer) > 0" "int_of_le (chunk 28 4 buffer) = - int n" "0 < n"
  shows "Record_deserialize buffer =
    Inl (if n \<le> 32 then UndefinedBehaviour ''std::string: negative iterator range'' else RuntimeError ''Invalid record buffer: data missing'')"
proof -
  obtain m where m: "nat (int_of_le (chunk 24 4 buffer)) = Suc m" using assms(3) by (cases "nat (int_of_le (chunk 24 4 buffer))") auto
  have n: "int n \<le> 2 ^ 31" using int32_int_of_le [of "chunk 28 4 buffer"] assms(4) by (simp add: int32_def)
  have small: "(32 - int n) mod 2 ^ 64 \<le> int (length buffer)" if "n \<le> 32"
    using that assms(1) by simp
  have large: "int (length buffer) < (32 - int n) mod 2 ^ 64" if "\<not> n \<le> 32"
  proof -
    have "(32 - int n) mod 2 ^ 64 = (32 - int n + 2 ^ 64) mod 2 ^ 64" by (simp only: mod_add_self2)
    also have "\<dots> = 32 - int n + 2 ^ 64" using that n by (intro mod_pos_pos_trivial) auto
    finally show ?thesis using n assms(2) by simp
  qed
  have "Record_readFields buffer (Suc m) 28 =
    Inl (if n \<le> 32 then UndefinedBehaviour ''std::string: negative iterator range'' else RuntimeError ''Invalid record buffer: data missing'')"
    using assms(1,4,5) small large by (cases "n \<le> 32") (simp_all add: Let_def not_less)
  then show ?thesis using assms(1) by (simp add: Record_deserialize_def MVCC_HEADER_SIZE_def Let_def m)
qed

theorem Record_negative_length_unchecked_witness:
  "Record_deserialize (replicate 24 0 @ le_int 1 @ le_int (-1)) = Inl (UndefinedBehaviour ''std::string: negative iterator range'')"
proof -
  let ?buf = "replicate 24 0 @ le_int 1 @ le_int (-1)"
  have "int_of_le (chunk 24 4 ?buf) = 1" "int_of_le (chunk 28 4 ?buf) = -1"
    by (simp_all add: chunk_append2 int32_def)
  then show ?thesis using Record_negative_length_unchecked [of ?buf 1] by simp
qed

end
