(* ===== verification/Record_Manager.thy ===== *)
theory Record_Manager
  imports Page_Store Records
begin

text \<open>
  \<open>recordmanager.hpp\<close> / \<open>recordmanager.cpp\<close>: records on slotted pages, addressed by RID. The
  methods take the operations of the \<open>PageManager&\<close> member as an argument; \<open>io_mutex\<close> makes each public method
  one atomic step, so a method is a state transformer. The lemmas are proved in the locale
  \<open>page_store\<close> and reach the properties through its interpretation on the page manager.
\<close>

section \<open>Operations\<close>

definition encodeTxnIdPatch :: "u64 \<Rightarrow> byte list" where
  "encodeTxnIdPatch txn_id = le_bytes 8 txn_id"

text \<open>The loop over the existing pages: \<open>n\<close> pages left, from page \<open>i\<close>.\<close>

fun RecordManager_tryPages :: "'s page_ops \<Rightarrow> byte list \<Rightarrow> u64 \<Rightarrow> int \<Rightarrow> nat \<Rightarrow> ('s, RID option) effect" where
  "RecordManager_tryPages pm serialized txn_id i 0 = sreturn None"
| "RecordManager_tryPages pm serialized txn_id i (Suc n) =
     sbind (pm_readPage pm i) (\<lambda>page.
     sbind (slift (Page_insertRecord page serialized)) (\<lambda>(slot_id, page).
     if slot_id \<noteq> -1 then sbind (pm_writePage pm page txn_id) (\<lambda>_. sreturn (Some (RID i slot_id)))
     else RecordManager_tryPages pm serialized txn_id (i + 1) n))"

definition RecordManager_insertRecord :: "'s page_ops \<Rightarrow> Record \<Rightarrow> u64 \<Rightarrow> ('s, RID) effect" where
  "RecordManager_insertRecord pm record txn_id =
     sbind (slift (Record_serialize record)) (\<lambda>serialized.
      sbind (pm_getNextPageId pm) (\<lambda>next.
      sbind (RecordManager_tryPages pm serialized txn_id 0 (nat next)) (\<lambda>found.
      case found of
        Some rid \<Rightarrow> sreturn rid
      | None \<Rightarrow>
          sbind (pm_allocatePage pm) (\<lambda>new_page_id.
          sbind (slift (Page_insertRecord (Page_new (word_of_int new_page_id)) serialized)) (\<lambda>(slot_id, new_page).
          if slot_id = -1 then sthrow (RuntimeError ''Record too large to fit in a page'')
          else sbind (pm_writePage pm new_page txn_id) (\<lambda>_. sreturn (RID new_page_id slot_id)))))))"

definition RecordManager_readRecord :: "'s page_ops \<Rightarrow> RID \<Rightarrow> ('s, Record) effect" where
  "RecordManager_readRecord pm rid =
     sbind (pm_readPage pm (rid_page_id rid)) (\<lambda>page.
     sbind (slift (Page_readRecord page (rid_slot_id rid))) (\<lambda>data.
     slift (Record_deserialize data)))"

definition RecordManager_deleteRecord :: "'s page_ops \<Rightarrow> RID \<Rightarrow> u64 \<Rightarrow> ('s, bool) effect" where
  "RecordManager_deleteRecord pm rid txn_id =
     sbind (pm_readPage pm (rid_page_id rid)) (\<lambda>page.
     sbind (slift (Page_deleteRecord page (rid_slot_id rid))) (\<lambda>(deleted, page).
     sbind (pm_writePage pm page txn_id) (\<lambda>_. sreturn deleted)))"

definition RecordManager_updateRecord :: "'s page_ops \<Rightarrow> RID \<Rightarrow> string list \<Rightarrow> u64 \<Rightarrow> ('s, RID option) effect" where
  "RecordManager_updateRecord pm old_rid new_fields txn_id =
     sbind (pm_readPage pm (rid_page_id old_rid)) (\<lambda>old_page.
     sbind (slift (Page_readRecord old_page (rid_slot_id old_rid))) (\<lambda>data.
     sbind (slift (Record_deserialize data)) (\<lambda>old_record.
     if rec_delete_txn_id old_record \<noteq> 0 then sreturn None
     else
       sbind (slift (Page_patchBytes old_page (rid_slot_id old_rid) DELETE_TXN_ID_OFFSET (encodeTxnIdPatch txn_id))) (\<lambda>old_page.
       sbind (pm_writePage pm old_page txn_id) (\<lambda>_.
       sbind (RecordManager_insertRecord pm (Record_new new_fields txn_id old_rid) txn_id) (\<lambda>rid.
       sreturn (Some rid)))))))"

definition RecordManager_markDeleted :: "'s page_ops \<Rightarrow> RID \<Rightarrow> u64 \<Rightarrow> ('s, bool) effect" where
  "RecordManager_markDeleted pm rid txn_id =
     sbind (pm_readPage pm (rid_page_id rid)) (\<lambda>page.
     sbind (slift (Page_readRecord page (rid_slot_id rid))) (\<lambda>data.
     sbind (slift (Record_deserialize data)) (\<lambda>record.
     if rec_delete_txn_id record \<noteq> 0 then sreturn False
     else
       sbind (slift (Page_patchBytes page (rid_slot_id rid) DELETE_TXN_ID_OFFSET (encodeTxnIdPatch txn_id))) (\<lambda>page.
       sbind (pm_writePage pm page txn_id) (\<lambda>_. sreturn True)))))"

section \<open>The heap the pages represent\<close>

definition heap_of :: "(int \<Rightarrow> Page option) \<Rightarrow> RID \<Rightarrow> (bool \<times> byte list) option" where
  "heap_of v rid = (case v (rid_page_id rid) of
     None \<Rightarrow> None
   | Some p \<Rightarrow> if 0 \<le> rid_slot_id rid \<and> nat (rid_slot_id rid) < length (Page_abs p)
               then Some (Page_abs p ! nat (rid_slot_id rid)) else None)"

lemma heap_of_append:
  assumes "v pid = Some p" "Page_abs q = Page_abs p @ [x]"
  shows "heap_of (v(pid \<mapsto> q)) = (heap_of v)(RID pid (int (length (Page_abs p))) \<mapsto> x)"
    "heap_of v (RID pid (int (length (Page_abs p)))) = None"
proof -
  show "heap_of (v(pid \<mapsto> q)) = (heap_of v)(RID pid (int (length (Page_abs p))) \<mapsto> x)"
  proof
    fix rid
    show "heap_of (v(pid \<mapsto> q)) rid = ((heap_of v)(RID pid (int (length (Page_abs p))) \<mapsto> x)) rid"
      using assms by (cases rid) (auto simp: heap_of_def nth_append)
  qed
qed (use assms in \<open>simp add: heap_of_def\<close>)

lemma heap_of_update:
  assumes "v (rid_page_id rid) = Some p" "0 \<le> rid_slot_id rid" "nat (rid_slot_id rid) < length (Page_abs p)"
    and "Page_abs q = (Page_abs p)[nat (rid_slot_id rid) := x]"
  shows "heap_of (v(rid_page_id rid \<mapsto> q)) = (heap_of v)(rid \<mapsto> x)"
proof
  fix r
  show "heap_of (v(rid_page_id rid \<mapsto> q)) r = ((heap_of v)(rid \<mapsto> x)) r"
    using assms by (cases r; cases rid) (auto simp: heap_of_def nth_list_update nat_eq_iff2)
qed

lemma heap_of_same: "v pid = Some p \<Longrightarrow> Page_abs q = Page_abs p \<Longrightarrow> heap_of (v(pid \<mapsto> q)) = heap_of v"
  by (auto simp: heap_of_def fun_eq_iff)

lemma heap_of_new: "v pid = None \<Longrightarrow> Page_abs q = [] \<Longrightarrow> heap_of (v(pid \<mapsto> q)) = heap_of v"
  by (auto simp: heap_of_def fun_eq_iff)

lemma heap_ofD:
  assumes "heap_of v rid = Some x"
  obtains p where "v (rid_page_id rid) = Some p" "0 \<le> rid_slot_id rid" "nat (rid_slot_id rid) < length (Page_abs p)"
    "Page_abs p ! nat (rid_slot_id rid) = x"
  using assms by (auto simp: heap_of_def split: option.splits if_splits)

lemma Page_insertRecord_id: "Page_insertRecord p r = Inr (k, p') \<Longrightarrow> pg_page_id p' = pg_page_id p"
  by (auto simp: Page_insertRecord_def Let_def result_simps split: if_splits)

text \<open>The largest record a page takes.\<close>

definition MAX_RECORD :: nat where "MAX_RECORD = PAGE_SIZE - PAGE_HEADER_SIZE - SLOT_ENTRY_SIZE"

lemma free_new: "Page_getFreeSpace (Page_new pid) = int MAX_RECORD + int SLOT_ENTRY_SIZE"
  by (simp add: Page_getFreeSpace_def Page_new_def Page_updateHeaderToData_def MAX_RECORD_def page_consts)

lemma no_room:
  assumes "page_wf p" "MAX_RECORD < length r" "length r < 2 ^ 31 - 5"
  shows "Page_insertRecord p r = Inr (-1, p)"
proof (rule Page_insertRecord_full [OF assms(3)])
  have "int (unat (pg_free_space_offset p)) \<le> int 4096"
    using page_wf_bounds(4) [OF assms(1)] by (simp only: of_nat_le_iff)
  then have "uint (pg_free_space_offset p) \<le> 4096" by simp
  moreover have "int 4075 < int (length r)" using assms(2) by (simp add: MAX_RECORD_def page_consts)
  moreover have "0 \<le> uint (pg_num_slots p)" by simp
  ultimately show "Page_getFreeSpace p < int (length r) + int SLOT_ENTRY_SIZE"
    unfolding Page_getFreeSpace_def page_consts by linarith
qed

text \<open>Serializing a record that can be counted in \<open>int\<close>.\<close>

lemma serialize_counted: "Record_size r < 2 ^ 31 - 5 \<Longrightarrow> Record_serialize r = Inr (Record_bytes r)"
  by (intro serialize_fits int_sized_fit) (simp only: int_sized_size)

lemma small_counted: "Record_size r \<le> MAX_RECORD \<Longrightarrow> Record_size r < 2 ^ 31 - 5"
  by (simp add: MAX_RECORD_def page_consts)

section \<open>The operations on any page store\<close>

context page_store
begin

abbreviation heap :: "'s \<Rightarrow> RID \<Rightarrow> (bool \<times> byte list) option" where
  "heap s \<equiv> heap_of (view s)"

lemma read_bind:
  assumes "inv s" "view s pid = Some p"
  obtains s' where "pm_readPage ops pid s = (Inr p, s')" "inv s'" "view s' = view s" "npages s' = npages s"
  using read_ok [OF assms] by blast

lemma write_bind:
  assumes "inv s" "page_wf p" "sint (pg_page_id p) = pid" "view s pid = Some p0"
  obtains s' q where "pm_writePage ops p t s = (Inr (), s')" "inv s'" "npages s' = npages s"
    "view s' = (view s)(pid \<mapsto> q)" "Page_abs q = Page_abs p"
  using write_ok [OF assms, of t] by blast

lemma tryPages:
  assumes "inv s" "0 \<le> i" "i + int n \<le> npages s" "length ser < 2 ^ 31 - 5"
  shows "\<exists>s'. inv s' \<and> npages s' = npages s \<and>
    ((RecordManager_tryPages ops ser t i n s = (Inr None, s') \<and> view s' = view s)
     \<or> (\<exists>rid. RecordManager_tryPages ops ser t i n s = (Inr (Some rid), s') \<and> heap s rid = None
          \<and> heap s' = (heap s)(rid \<mapsto> (True, ser))))"
  using assms
proof (induction n arbitrary: i s)
  case 0
  then show ?case by (auto simp: method_prims)
next
  case (Suc n)
  then obtain p where p: "view s i = Some p" using view_dom [of s i] by auto
  from view_wf [OF Suc.prems(1) p] have wf: "page_wf p" "sint (pg_page_id p) = i" by simp_all
  obtain s1 where s1: "pm_readPage ops i s = (Inr p, s1)" "inv s1" "view s1 = view s" "npages s1 = npages s"
    by (rule read_bind [OF Suc.prems(1) p]) blast
  from pg.insert_cases [OF wf(1) Suc.prems(4)] show ?case
  proof (elim disjE exE conjE)
    assume "Page_insertRecord p ser = Inr (-1, p)"
    then have "RecordManager_tryPages ops ser t i (Suc n) s = RecordManager_tryPages ops ser t (i + 1) n s1"
      by (simp add: sbind_cases(1) s1(1))
    with Suc.IH [OF s1(2), of "i + 1"] Suc.prems s1(3,4) show ?thesis by auto
  next
    fix p' assume ins: "Page_insertRecord p ser = Inr (int (length (Page_abs p)), p')" "page_wf p'"
      "Page_abs p' = Page_abs p @ [(True, ser)]"
    have "sint (pg_page_id p') = i" using Page_insertRecord_id [OF ins(1)] wf(2) by simp
    then obtain s2 q where s2: "pm_writePage ops p' t s1 = (Inr (), s2)" "inv s2" "npages s2 = npages s1"
      "view s2 = (view s1)(i \<mapsto> q)" "Page_abs q = Page_abs p'"
      using write_bind [OF s1(2) ins(2)] p s1(3) by metis
    have "RecordManager_tryPages ops ser t i (Suc n) s = (Inr (Some (RID i (int (length (Page_abs p))))), s2)"
      using ins(1) by (simp add: sbind_cases(1) s1(1) s2(1) method_prims)
    with heap_of_append [of "view s" i p q "(True, ser)"] p s1 s2 ins(3) show ?thesis by auto
  qed
qed

lemma insertRecord:
  assumes "inv s" "npages s < MAX_PAGES" "Record_size r \<le> MAX_RECORD"
  shows "\<exists>rid s'. RecordManager_insertRecord ops r t s = (Inr rid, s') \<and> inv s' \<and> heap s rid = None
    \<and> heap s' = (heap s)(rid \<mapsto> (True, Record_bytes r)) \<and> npages s' \<le> npages s + 1"
proof -
  let ?ser = "Record_bytes r"
  note ser = serialize_counted [OF small_counted [OF assms(3)]]
  obtain s1 where s1: "inv s1" "npages s1 = npages s" and cases:
    "(RecordManager_tryPages ops ?ser t 0 (nat (npages s)) s = (Inr None, s1) \<and> view s1 = view s)
     \<or> (\<exists>rid. RecordManager_tryPages ops ?ser t 0 (nat (npages s)) s = (Inr (Some rid), s1) \<and> heap s rid = None
          \<and> heap s1 = (heap s)(rid \<mapsto> (True, ?ser)))"
    using tryPages [OF assms(1), of 0 "nat (npages s)" ?ser t] npages_nonneg [OF assms(1)] small_counted [OF assms(3)] by auto
  from cases show ?thesis
  proof (elim disjE exE conjE)
    assume none: "RecordManager_tryPages ops ?ser t 0 (nat (npages s)) s = (Inr None, s1)" "view s1 = view s"
    let ?n = "npages s"
    obtain s2 q where s2: "pm_allocatePage ops s1 = (Inr ?n, s2)" "inv s2" "npages s2 = ?n + 1"
      "view s2 = (view s)(?n \<mapsto> q)" "Page_abs q = []"
      using alloc_ok [OF s1(1)] assms(2) s1(2) none(2) by auto
    have id: "sint (word_of_int ?n :: u32) = ?n"
      using sint_page_id npages_nonneg [OF assms(1)] assms(2) by simp
    have "int (length ?ser) + int SLOT_ENTRY_SIZE \<le> Page_getFreeSpace (Page_new (word_of_int ?n))"
      using assms(3) by (simp add: free_new)
    then obtain p' where p': "Page_insertRecord (Page_new (word_of_int ?n)) ?ser = Inr (0, p')" "page_wf p'"
        "Page_abs p' = [(True, ?ser)]" "pg_page_id p' = pg_page_id (Page_new (word_of_int ?n))"
      by (rule Page_insertRecord_room [OF page_wf_new]) (simp add: Page_abs_new)
    then have "sint (pg_page_id p') = ?n" using id by (simp add: Page_new_def Page_updateHeaderToData_def)
    then obtain s3 q' where s3: "pm_writePage ops p' t s2 = (Inr (), s3)" "inv s3" "npages s3 = npages s2"
      "view s3 = (view s2)(?n \<mapsto> q')" "Page_abs q' = Page_abs p'"
      using write_bind [OF s2(2) p'(2)] s2(4) by (metis fun_upd_same)
    have out: "view s ?n = None" using view_dom [OF assms(1), of ?n] by (cases "view s ?n") auto
    have "RecordManager_insertRecord ops r t s = (Inr (RID ?n 0), s3)"
      using none(1) s2(1) p'(1) by (simp add: RecordManager_insertRecord_def ser sbind_cases(1) next_ok [OF assms(1)] s3(1) method_prims)
    moreover have "heap s2 = heap s" using heap_of_new [of "view s", OF out s2(5)] s2(4) by simp
    ultimately show ?thesis
      using heap_of_append [of "view s2" ?n q q' "(True, ?ser)"] s2 s3 p'(3) by auto
  next
    fix rid assume "RecordManager_tryPages ops ?ser t 0 (nat (npages s)) s = (Inr (Some rid), s1)" "heap s rid = None"
      "heap s1 = (heap s)(rid \<mapsto> (True, ?ser))"
    then show ?thesis
      using s1 by (auto simp: RecordManager_insertRecord_def ser sbind_cases(1) next_ok [OF assms(1)] method_prims)
  qed
qed

lemma readRecord:
  assumes "inv s" "heap s rid = Some (True, Record_bytes r)" "Record_fits r"
  shows "\<exists>s'. RecordManager_readRecord ops rid s = (Inr r, s') \<and> inv s' \<and> view s' = view s \<and> npages s' = npages s"
proof -
  obtain p where p: "view s (rid_page_id rid) = Some p" "0 \<le> rid_slot_id rid" "nat (rid_slot_id rid) < length (Page_abs p)"
    "Page_abs p ! nat (rid_slot_id rid) = (True, Record_bytes r)" by (rule heap_ofD [OF assms(2)])
  obtain s1 where s1: "pm_readPage ops (rid_page_id rid) s = (Inr p, s1)" "inv s1" "view s1 = view s" "npages s1 = npages s"
    by (rule read_bind [OF assms(1) p(1)]) blast
  then show ?thesis
    using p view_wf [OF assms(1) p(1)] assms(3)
    by (auto simp: RecordManager_readRecord_def sbind_cases(1) Page_readRecord_eq Record_deserialize_serialize method_prims)
qed

text \<open>The common start of \<open>updateRecord\<close> and \<open>markDeleted\<close>: reading a live version and stamping its deleter.\<close>

lemma stamp_version:
  assumes "inv s" "heap s rid = Some (True, Record_bytes r)"
  obtains p p' s1 s2 where "pm_readPage ops (rid_page_id rid) s = (Inr p, s1)"
    "Page_readRecord p (rid_slot_id rid) = Inr (Record_bytes r)" "inv s1" "view s1 = view s"
    "Page_patchBytes p (rid_slot_id rid) DELETE_TXN_ID_OFFSET (encodeTxnIdPatch t) = Inr p'"
    "pm_writePage ops p' t s1 = (Inr (), s2)" "inv s2" "npages s2 = npages s"
    "heap s2 = (heap s)(rid \<mapsto> (True, Record_bytes (r\<lparr>rec_delete_txn_id := t\<rparr>)))" "npages s1 = npages s"
proof -
  obtain p where p: "view s (rid_page_id rid) = Some p" "0 \<le> rid_slot_id rid" "nat (rid_slot_id rid) < length (Page_abs p)"
    "Page_abs p ! nat (rid_slot_id rid) = (True, Record_bytes r)" by (rule heap_ofD [OF assms(2)])
  note wf = view_wf [OF assms(1) p(1)]
  obtain s1 where s1: "pm_readPage ops (rid_page_id rid) s = (Inr p, s1)" "inv s1" "view s1 = view s" "npages s1 = npages s"
    by (rule read_bind [OF assms(1) p(1)]) blast
  have fit: "DELETE_TXN_ID_OFFSET + length (encodeTxnIdPatch t) \<le> length (snd (Page_abs p ! nat (rid_slot_id rid)))"
    using Record_size_ge [of r] p(4) by (simp add: DELETE_TXN_ID_OFFSET_def encodeTxnIdPatch_def)
  obtain p' where p': "Page_patchBytes p (rid_slot_id rid) DELETE_TXN_ID_OFFSET (encodeTxnIdPatch t) = Inr p'" "page_wf p'"
    "Page_abs p' = (Page_abs p)[nat (rid_slot_id rid) := (True, Record_bytes (r\<lparr>rec_delete_txn_id := t\<rparr>))]"
    "pg_page_id p' = pg_page_id p"
    by (rule Page_patchBytes_ok [OF conjunct1 [OF wf] p(2,3) fit])
      (simp add: p(4) encodeTxnIdPatch_def Record_patch_delete)
  obtain s2 q where s2: "pm_writePage ops p' t s1 = (Inr (), s2)" "inv s2" "npages s2 = npages s1"
      "view s2 = (view s1)(rid_page_id rid \<mapsto> q)" "Page_abs q = Page_abs p'"
    using write_bind [OF s1(2) p'(2), of "rid_page_id rid" p t] p'(4) wf p(1) s1(3) by (metis (no_types, lifting))
  show thesis
  proof (rule that [OF s1(1) _ s1(2,3) p'(1) s2(1,2)])
    show "Page_readRecord p (rid_slot_id rid) = Inr (Record_bytes r)"
      using p wf by (simp add: Page_readRecord_eq)
    show "heap s2 = (heap s)(rid \<mapsto> (True, Record_bytes (r\<lparr>rec_delete_txn_id := t\<rparr>)))"
      using heap_of_update [of "view s", OF p(1-3), of q] s1(3) s2(4,5) p'(3) by simp
  qed (use s1 s2 in simp_all)
qed

lemma markDeleted:
  assumes "inv s" "heap s rid = Some (True, Record_bytes r)" "Record_fits r"
  shows "\<exists>s'. RecordManager_markDeleted ops rid t s = (Inr (rec_delete_txn_id r = 0), s') \<and> inv s'
    \<and> heap s' = (if rec_delete_txn_id r = 0 then (heap s)(rid \<mapsto> (True, Record_bytes (r\<lparr>rec_delete_txn_id := t\<rparr>))) else heap s)
    \<and> npages s' = npages s"
  by (rule stamp_version [OF assms(1,2), of t])
    (use assms(3) in \<open>auto simp: RecordManager_markDeleted_def sbind_cases(1) Record_deserialize_serialize method_prims\<close>)

lemma updateRecord:
  assumes "inv s" "npages s < MAX_PAGES" "heap s rid = Some (True, Record_bytes r)" "Record_fits r"
    and "rec_delete_txn_id r = 0" "Record_size (Record_new fs t rid) \<le> MAX_RECORD"
  shows "\<exists>rid' s'. RecordManager_updateRecord ops rid fs t s = (Inr (Some rid'), s') \<and> inv s' \<and> heap s rid' = None
    \<and> heap s' = (heap s)(rid \<mapsto> (True, Record_bytes (r\<lparr>rec_delete_txn_id := t\<rparr>)),
                         rid' \<mapsto> (True, Record_bytes (Record_new fs t rid))) \<and> npages s' \<le> npages s + 1"
proof -
  obtain p p' s1 s2 where st: "pm_readPage ops (rid_page_id rid) s = (Inr p, s1)"
    "Page_readRecord p (rid_slot_id rid) = Inr (Record_bytes r)" "inv s1" "view s1 = view s"
    "Page_patchBytes p (rid_slot_id rid) DELETE_TXN_ID_OFFSET (encodeTxnIdPatch t) = Inr p'"
    "pm_writePage ops p' t s1 = (Inr (), s2)" "inv s2" "npages s2 = npages s"
    "heap s2 = (heap s)(rid \<mapsto> (True, Record_bytes (r\<lparr>rec_delete_txn_id := t\<rparr>)))" "npages s1 = npages s"
    by (rule stamp_version [OF assms(1,3), of t]) blast
  obtain rid' s3 where s3: "RecordManager_insertRecord ops (Record_new fs t rid) t s2 = (Inr rid', s3)" "inv s3"
    "heap s2 rid' = None" "heap s3 = (heap s2)(rid' \<mapsto> (True, Record_bytes (Record_new fs t rid)))" "npages s3 \<le> npages s2 + 1"
    using insertRecord [OF st(7) _ assms(6), of t] assms(2) st(8) by auto
  have "RecordManager_updateRecord ops rid fs t s = (Inr (Some rid'), s3)"
    using st(2,5) assms(4,5) s3(1)
    by (simp add: RecordManager_updateRecord_def sbind_cases(1) st(1,6) Record_deserialize_serialize method_prims)
  with s3 st(8,9) show ?thesis by (auto split: if_splits)
qed

lemma deleteRecord:
  assumes "inv s" "heap s rid = Some (b, x)"
  shows "\<exists>s'. RecordManager_deleteRecord ops rid t s = (Inr b, s') \<and> inv s' \<and> heap s' = (heap s)(rid \<mapsto> (False, x))"
proof -
  obtain p where p: "view s (rid_page_id rid) = Some p" "0 \<le> rid_slot_id rid" "nat (rid_slot_id rid) < length (Page_abs p)"
    "Page_abs p ! nat (rid_slot_id rid) = (b, x)" by (rule heap_ofD [OF assms(2)])
  note wf = view_wf [OF assms(1) p(1)]
  obtain s1 where s1: "pm_readPage ops (rid_page_id rid) s = (Inr p, s1)" "inv s1" "view s1 = view s"
    by (rule read_bind [OF assms(1) p(1)]) blast
  obtain p' where p': "Page_deleteRecord p (rid_slot_id rid) = Inr (b, p')" "page_wf p'"
    "Page_abs p' = (Page_abs p)[nat (rid_slot_id rid) := (False, x)]" "pg_page_id p' = pg_page_id p"
    by (rule Page_deleteRecord_eq [OF conjunct1 [OF wf] p(2,3)]) (simp add: p(4))
  obtain s2 q where s2: "pm_writePage ops p' t s1 = (Inr (), s2)" "inv s2"
      "view s2 = (view s1)(rid_page_id rid \<mapsto> q)" "Page_abs q = Page_abs p'"
    using write_bind [OF s1(2) p'(2), of "rid_page_id rid" p t] p'(4) wf p(1) s1(3) by (metis (no_types, lifting))
  have "heap s2 = (heap s)(rid \<mapsto> (False, x))"
    using heap_of_update [of "view s", OF p(1-3), of q] s1(3) s2(3,4) p'(3) by simp
  then show ?thesis
    using s2(2) p'(1) by (simp add: RecordManager_deleteRecord_def sbind_cases(1) s1(1) s2(1) method_prims)
qed

lemma tryPages_full:
  assumes "inv s" "0 \<le> i" "i + int n \<le> npages s" "MAX_RECORD < length ser" "length ser < 2 ^ 31 - 5"
  shows "\<exists>s'. RecordManager_tryPages ops ser t i n s = (Inr None, s') \<and> inv s' \<and> npages s' = npages s \<and> view s' = view s"
  using assms
proof (induction n arbitrary: i s)
  case 0
  then show ?case by (auto simp: method_prims)
next
  case (Suc n)
  then obtain p where p: "view s i = Some p" using view_dom [of s i] by auto
  obtain s1 where s1: "pm_readPage ops i s = (Inr p, s1)" "inv s1" "view s1 = view s" "npages s1 = npages s"
    by (rule read_bind [OF Suc.prems(1) p])
  have "Page_insertRecord p ser = Inr (-1, p)"
    using view_wf [OF Suc.prems(1) p] Suc.prems(4,5) by (intro no_room) simp_all
  then have "RecordManager_tryPages ops ser t i (Suc n) s = RecordManager_tryPages ops ser t (i + 1) n s1"
    by (simp add: sbind_cases(1) s1(1))
  with Suc.IH [OF s1(2), of "i + 1"] Suc.prems s1(3,4) show ?case by auto
qed

lemma insert_too_large:
  assumes "inv s" "npages s < MAX_PAGES" "MAX_RECORD < Record_size r" "Record_size r < 2 ^ 31 - 5"
  shows "\<exists>s'. RecordManager_insertRecord ops r t s = (Inl (RuntimeError ''Record too large to fit in a page''), s') \<and> inv s'
    \<and> heap s' = heap s \<and> npages s' = npages s + 1"
proof -
  let ?ser = "Record_bytes r" and ?n = "npages s"
  obtain s1 where s1: "RecordManager_tryPages ops ?ser t 0 (nat ?n) s = (Inr None, s1)" "inv s1" "npages s1 = ?n" "view s1 = view s"
    using tryPages_full [OF assms(1), of 0 "nat ?n" ?ser t] npages_nonneg [OF assms(1)] assms(3,4) by auto
  obtain s2 q where s2: "pm_allocatePage ops s1 = (Inr ?n, s2)" "inv s2" "npages s2 = ?n + 1"
      "view s2 = (view s)(?n \<mapsto> q)" "Page_abs q = []"
    using alloc_ok [OF s1(2)] assms(2) s1(3,4) by auto
  have "Page_insertRecord (Page_new (word_of_int ?n)) ?ser = Inr (-1, Page_new (word_of_int ?n))"
    using assms(3,4) by (intro no_room) (simp_all add: page_wf_new)
  then have "RecordManager_insertRecord ops r t s = (Inl (RuntimeError ''Record too large to fit in a page''), s2)"
    using s1(1) s2(1) by (simp add: RecordManager_insertRecord_def serialize_counted [OF assms(4)] sbind_cases(1) next_ok [OF assms(1)] method_prims)
  moreover have "view s ?n = None" using view_dom [OF assms(1), of ?n] by (cases "view s ?n") auto
  ultimately show ?thesis using s2 heap_of_new [of "view s" ?n q] by auto
qed

lemma updateRecord_any:
  assumes "inv s" "npages s < MAX_PAGES" "heap s rid = Some (True, Record_bytes r)" "Record_fits r"
    and "rec_delete_txn_id r = 0 \<Longrightarrow> int_sized fs"
  shows "\<exists>res s'. RecordManager_updateRecord ops rid fs t s = (res, s') \<and> inv s' \<and> npages s' \<le> npages s + 1 \<and>
    (if rec_delete_txn_id r \<noteq> 0 then res = Inr None \<and> heap s' = heap s
     else if Record_size (Record_new fs t rid) \<le> MAX_RECORD
     then \<exists>rid'. res = Inr (Some rid') \<and> heap s rid' = None
            \<and> heap s' = (heap s)(rid \<mapsto> (True, Record_bytes (r\<lparr>rec_delete_txn_id := t\<rparr>)),
                                 rid' \<mapsto> (True, Record_bytes (Record_new fs t rid)))
     else res = Inl (RuntimeError ''Record too large to fit in a page'')
            \<and> heap s' = (heap s)(rid \<mapsto> (True, Record_bytes (r\<lparr>rec_delete_txn_id := t\<rparr>))))"
proof -
  obtain p p' s1 s2 where st: "pm_readPage ops (rid_page_id rid) s = (Inr p, s1)"
    "Page_readRecord p (rid_slot_id rid) = Inr (Record_bytes r)" "inv s1" "view s1 = view s"
    "Page_patchBytes p (rid_slot_id rid) DELETE_TXN_ID_OFFSET (encodeTxnIdPatch t) = Inr p'"
    "pm_writePage ops p' t s1 = (Inr (), s2)" "inv s2" "npages s2 = npages s"
    "heap s2 = (heap s)(rid \<mapsto> (True, Record_bytes (r\<lparr>rec_delete_txn_id := t\<rparr>)))" "npages s1 = npages s"
    by (rule stamp_version [OF assms(1,3), of t]) blast
  show ?thesis
  proof (cases "rec_delete_txn_id r = 0 \<and> MAX_RECORD < Record_size (Record_new fs t rid)")
    case True
    then obtain s3 where s3: "RecordManager_insertRecord ops (Record_new fs t rid) t s2 = (Inl (RuntimeError ''Record too large to fit in a page''), s3)"
        "inv s3" "heap s3 = heap s2" "npages s3 = npages s2 + 1" using insert_too_large [OF st(7), of "Record_new fs t rid" t] assms(2,5) st(8) int_sized_size [of "Record_new fs t rid"] by (auto simp: Record_new_def)
    have "RecordManager_updateRecord ops rid fs t s = (Inl (RuntimeError ''Record too large to fit in a page''), s3)"
      using True st(2,5) assms(4)
      by (simp add: RecordManager_updateRecord_def sbind_cases st(1,6) s3(1) Record_deserialize_serialize method_prims)
    then show ?thesis using True s3 st(8,9) by auto
  next
    case False
    show ?thesis
    proof (cases "rec_delete_txn_id r = 0")
      case True
      with False updateRecord [OF assms(1-4) True, of fs t] show ?thesis by auto
    next
      case False
      then have "RecordManager_updateRecord ops rid fs t s = (Inr None, s1)"
        using st(2) assms(4) by (simp add: RecordManager_updateRecord_def sbind_cases(1) st(1) Record_deserialize_serialize method_prims)
      then show ?thesis using st(3,4,10) False by auto
    qed
  qed
qed

end

section \<open>Properties\<close>

text \<open>
  C28: inserting a record of at most 4075 bytes succeeds and returns a RID that was not in use; the heap
  gains exactly that record, under whatever paging and eviction the insertion causes, and reading the RID back
  gives the record.
\<close>
theorem RecordManager_insert_read:
  assumes "store_inv s" "bp_next_page_id (fst s) < MAX_PAGES" "Record_fits r" "Record_size r \<le> MAX_RECORD"
  shows "\<exists>rid s' s''. RecordManager_insertRecord PageManager_ops r t s = (Inr rid, s') \<and> store_inv s'
    \<and> heap_of (pool_view (fst s)) rid = None
    \<and> heap_of (pool_view (fst s')) = (heap_of (pool_view (fst s)))(rid \<mapsto> (True, Record_bytes r))
    \<and> RecordManager_readRecord PageManager_ops rid s' = (Inr r, s'')"
proof -
  obtain rid s' where i: "RecordManager_insertRecord PageManager_ops r t s = (Inr rid, s')" "store_inv s'"
    "heap_of (pool_view (fst s)) rid = None"
    "heap_of (pool_view (fst s')) = (heap_of (pool_view (fst s)))(rid \<mapsto> (True, Record_bytes r))"
    using ps.insertRecord [OF assms(1,2,4), of t] by blast
  moreover obtain s'' where "RecordManager_readRecord PageManager_ops rid s' = (Inr r, s'')"
    using ps.readRecord [OF i(2) _ assms(3), of rid] i(4) by auto
  ultimately show ?thesis by blast
qed

definition sample_record :: Record where "sample_record = Record_new [''1'', ''ada''] 7 no_rid"

lemma sample_record_fits: "Record_fits sample_record" "Record_size sample_record \<le> MAX_RECORD" "rec_delete_txn_id sample_record = 0"
  by (simp_all add: sample_record_def Record_fits_def Record_new_def no_rid_def wf_rid_def int32_def Record_size_def
      MVCC_HEADER_SIZE_def MAX_RECORD_def page_consts)

lemma sample_store: "store_inv (sample_pool, sample_log)" "bp_next_page_id (fst (sample_pool, sample_log)) < MAX_PAGES"
  by (simp_all add: store_inv_def sample_pool_ok MAX_PAGES_def)

theorem RecordManager_insert_read_witness:
  "\<exists>rid s' s''. RecordManager_insertRecord PageManager_ops sample_record 7 (sample_pool, sample_log) = (Inr rid, s') \<and> store_inv s'
    \<and> heap_of (pool_view (fst (sample_pool, sample_log))) rid = None
    \<and> heap_of (pool_view (fst s')) = (heap_of (pool_view (fst (sample_pool, sample_log))))(rid \<mapsto> (True, Record_bytes sample_record))
    \<and> RecordManager_readRecord PageManager_ops rid s' = (Inr sample_record, s'')"
  by (rule RecordManager_insert_read [OF sample_store sample_record_fits(1,2)])

text \<open>
  C18: an MVCC update of a live version keeps both versions: the old RID still reads as the old record, now
  stamped with the updating transaction as its deleter, a fresh RID reads as the new record, whose
  \<open>prev_version\<close> is the old RID, and no other record changes. On a version that is already stamped
  \<open>markDeleted\<close> reports failure and changes nothing.
\<close>
theorem RecordManager_update_versions:
  assumes "store_inv s" "bp_next_page_id (fst s) < MAX_PAGES"
    and "heap_of (pool_view (fst s)) rid = Some (True, Record_bytes r)" "Record_fits r" "rec_delete_txn_id r = 0"
    and "Record_size (Record_new fs t rid) \<le> MAX_RECORD"
  shows "\<exists>rid' s'. RecordManager_updateRecord PageManager_ops rid fs t s = (Inr (Some rid'), s') \<and> store_inv s'
    \<and> heap_of (pool_view (fst s)) rid' = None
    \<and> heap_of (pool_view (fst s')) = (heap_of (pool_view (fst s)))
        (rid \<mapsto> (True, Record_bytes (r\<lparr>rec_delete_txn_id := t\<rparr>)), rid' \<mapsto> (True, Record_bytes (Record_new fs t rid)))
    \<and> (t \<noteq> 0 \<longrightarrow> (\<exists>s''. RecordManager_markDeleted PageManager_ops rid t' s' = (Inr False, s'')
         \<and> heap_of (pool_view (fst s'')) = heap_of (pool_view (fst s'))))"
proof -
  let ?r = "r\<lparr>rec_delete_txn_id := t\<rparr>"
  obtain rid' s' where u: "RecordManager_updateRecord PageManager_ops rid fs t s = (Inr (Some rid'), s')" "store_inv s'"
    "heap_of (pool_view (fst s)) rid' = None"
    "heap_of (pool_view (fst s')) = (heap_of (pool_view (fst s)))
        (rid \<mapsto> (True, Record_bytes ?r), rid' \<mapsto> (True, Record_bytes (Record_new fs t rid)))"
    using ps.updateRecord [OF assms] by blast
  have "rid' \<noteq> rid" using u(3) assms(3) by auto
  then have "heap_of (pool_view (fst s')) rid = Some (True, Record_bytes ?r)" using u(4) by simp
  moreover have "Record_fits ?r" using assms(4) by (simp add: Record_fits_def)
  ultimately have "t \<noteq> 0 \<longrightarrow> (\<exists>s''. RecordManager_markDeleted PageManager_ops rid t' s' = (Inr False, s'')
         \<and> heap_of (pool_view (fst s'')) = heap_of (pool_view (fst s')))"
    using ps.markDeleted [OF u(2), of rid ?r t'] by auto
  with u show ?thesis by blast
qed

text \<open>
  C29: a record that fits no page, but whose size fits \<open>int\<close> (fewer than \<open>2 ^ 31 - 5\<close> bytes), is refused, on every heap, with the error the code names, and the
  heap keeps its records; but the attempt leaves an extra empty page behind, allocated before the size is checked.
\<close>
theorem RecordManager_insert_oversized:
  assumes "store_inv s" "bp_next_page_id (fst s) < MAX_PAGES" "MAX_RECORD < Record_size r" "Record_size r < 2 ^ 31 - 5"
  shows "\<exists>s'. RecordManager_insertRecord PageManager_ops r t s = (Inl (RuntimeError ''Record too large to fit in a page''), s')
    \<and> store_inv s' \<and> heap_of (pool_view (fst s')) = heap_of (pool_view (fst s))
    \<and> bp_next_page_id (fst s') = bp_next_page_id (fst s) + 1"
  by (rule ps.insert_too_large [OF assms])

lemma sample_inserted:
  "\<exists>rid s. RecordManager_insertRecord PageManager_ops sample_record 7 (sample_pool, sample_log) = (Inr rid, s)
    \<and> store_inv s \<and> bp_next_page_id (fst s) < MAX_PAGES \<and> heap_of (pool_view (fst s)) rid = Some (True, Record_bytes sample_record)"
proof -
  obtain rid s where "RecordManager_insertRecord PageManager_ops sample_record 7 (sample_pool, sample_log) = (Inr rid, s)" "store_inv s"
    "heap_of (pool_view (fst s)) = (heap_of (pool_view (fst (sample_pool, sample_log))))(rid \<mapsto> (True, Record_bytes sample_record))"
    "bp_next_page_id (fst s) \<le> bp_next_page_id (fst (sample_pool, sample_log)) + 1"
    using ps.insertRecord [OF sample_store sample_record_fits(2), of 7] by blast
  then show ?thesis using sample_pool_ok(3) by (auto simp: MAX_PAGES_def)
qed

definition oversized_record :: Record where "oversized_record = Record_new [replicate 4076 (CHR ''x'')] 7 no_rid"

theorem RecordManager_update_versions_witness:
  "\<exists>s rid rid' s'. RecordManager_insertRecord PageManager_ops sample_record 7 (sample_pool, sample_log) = (Inr rid, s)
    \<and> RecordManager_updateRecord PageManager_ops rid [''2''] 9 s = (Inr (Some rid'), s') \<and> rid' \<noteq> rid"
proof -
  obtain rid s where i: "RecordManager_insertRecord PageManager_ops sample_record 7 (sample_pool, sample_log) = (Inr rid, s)"
    "store_inv s" "bp_next_page_id (fst s) < MAX_PAGES" "heap_of (pool_view (fst s)) rid = Some (True, Record_bytes sample_record)"
    using sample_inserted by blast
  have "Record_size (Record_new [''2''] 9 rid) \<le> MAX_RECORD"
    by (simp add: Record_size_def Record_new_def MVCC_HEADER_SIZE_def MAX_RECORD_def page_consts)
  from RecordManager_update_versions [OF i(2-4) sample_record_fits(1,3) this] i show ?thesis by fastforce
qed

theorem RecordManager_insert_oversized_witness:
  "\<exists>s'. RecordManager_insertRecord PageManager_ops oversized_record 7 (sample_pool, sample_log)
      = (Inl (RuntimeError ''Record too large to fit in a page''), s')
    \<and> store_inv s' \<and> heap_of (pool_view (fst s')) = heap_of (pool_view (fst (sample_pool, sample_log)))
    \<and> bp_next_page_id (fst s') = bp_next_page_id (fst (sample_pool, sample_log)) + 1"
  by (rule RecordManager_insert_oversized [OF sample_store])
    (simp_all add: oversized_record_def Record_size_def Record_new_def MAX_RECORD_def MVCC_HEADER_SIZE_def page_consts)

end
