(* ===== verification/Nodes.thy ===== *)
theory Nodes
  imports Keys
begin

text \<open>
  \<open>node.hpp\<close> / \<open>node.cpp\<close>: one B+ tree node, its search and split operations, and its page image.

  A pointer to another node is a value of type \<open>'r\<close>: an address of the tree's heap while the node is in
  memory, and the bare \<open>node_id\<close> of a placeholder child right after \<open>deserialize\<close>. Serializing a node
  needs the ids of its children, so the caller passes the function that reads them. The latch of a node is not
  part of its content.
\<close>

record 'r BPlusTreeNode =
  bn_is_leaf :: bool
  bn_node_id :: int
  bn_lsn :: u64
  bn_keys :: "Key list"
  bn_rids :: "RID list"
  bn_next_leaf :: "'r option"
  bn_children :: "'r option list"
  bn_right_link :: "'r option"
  bn_parent :: "'r option"
  bn_is_merged_away :: bool
  bn_high_key :: "Key option"

definition BPlusTreeNode_new :: "bool \<Rightarrow> 'r BPlusTreeNode" where
  "BPlusTreeNode_new leaf = \<lparr>bn_is_leaf = leaf, bn_node_id = -1, bn_lsn = 0, bn_keys = [], bn_rids = [],
     bn_next_leaf = None, bn_children = [], bn_right_link = None, bn_parent = None, bn_is_merged_away = False,
     bn_high_key = None\<rparr>"

definition BPlusTreeNode_rightLink :: "'r BPlusTreeNode \<Rightarrow> 'r option" where
  "BPlusTreeNode_rightLink n = (if bn_is_leaf n then bn_next_leaf n else bn_right_link n)"

definition BPlusTreeNode_isFull :: "'r BPlusTreeNode \<Rightarrow> bool" where
  "BPlusTreeNode_isFull n \<longleftrightarrow> length (bn_keys n) > ORDER - 1"

definition BPlusTreeNode_isUnderflow :: "'r BPlusTreeNode \<Rightarrow> bool" where
  "BPlusTreeNode_isUnderflow n \<longleftrightarrow> length (bn_keys n) < (ORDER - 1) div 2"

section \<open>Searching and updating a leaf\<close>

text \<open>\<open>std::lower_bound\<close>: halving the range \<open>[first, first + len)\<close>.\<close>

function lower_bound :: "Key list \<Rightarrow> Key \<Rightarrow> nat \<Rightarrow> nat \<Rightarrow> nat result" where
  "lower_bound keys key first len =
     (if len = 0 then Inr first
      else
        let half = len div 2; mid = first + half in
        bindE (vec_at keys mid) (\<lambda>k.
        bindE (Key_less k key) (\<lambda>less.
        if less then lower_bound keys key (mid + 1) (len - half - 1)
        else lower_bound keys key first half)))"
  by pat_completeness auto
termination
  by (relation "measure (\<lambda>(keys, key, first, len). len)") auto

declare lower_bound.simps [simp del]

definition BPlusTreeNode_findInsertPosition :: "Key \<Rightarrow> 'r BPlusTreeNode \<Rightarrow> nat result" where
  "BPlusTreeNode_findInsertPosition key n = lower_bound (bn_keys n) key 0 (length (bn_keys n))"

definition BPlusTreeNode_insertInLeaf :: "Key \<Rightarrow> int \<Rightarrow> int \<Rightarrow> 'r BPlusTreeNode \<Rightarrow> 'r BPlusTreeNode result" where
  "BPlusTreeNode_insertInLeaf key page_id slot_id n =
     bindE (BPlusTreeNode_findInsertPosition key n) (\<lambda>pos.
     bindE (vec_insert (bn_keys n) pos key) (\<lambda>ks.
     bindE (vec_insert (bn_rids n) pos (RID page_id slot_id)) (\<lambda>rs.
     Inr (n\<lparr>bn_keys := ks, bn_rids := rs\<rparr>))))"

text \<open>The common loop of \<open>findInLeaf\<close> and \<open>updateInLeaf\<close>: the first index at or after \<open>i\<close> with an equal key.\<close>

fun find_key :: "Key list \<Rightarrow> Key \<Rightarrow> nat \<Rightarrow> nat option result" where
  "find_key [] key i = Inr None"
| "find_key (k # ks) key i = bindE (Key_eq k key) (\<lambda>eq. if eq then Inr (Some i) else find_key ks key (Suc i))"

definition BPlusTreeNode_findInLeaf :: "Key \<Rightarrow> 'r BPlusTreeNode \<Rightarrow> RID option result" where
  "BPlusTreeNode_findInLeaf key n =
     bindE (find_key (bn_keys n) key 0) (\<lambda>pos.
     case pos of None \<Rightarrow> Inr None | Some i \<Rightarrow> bindE (vec_at (bn_rids n) i) (\<lambda>rid. Inr (Some rid)))"

definition BPlusTreeNode_updateInLeaf ::
  "Key \<Rightarrow> int \<Rightarrow> int \<Rightarrow> 'r BPlusTreeNode \<Rightarrow> (bool \<times> 'r BPlusTreeNode) result" where
  "BPlusTreeNode_updateInLeaf key page_id slot_id n =
     bindE (find_key (bn_keys n) key 0) (\<lambda>pos.
     case pos of None \<Rightarrow> Inr (False, n)
     | Some i \<Rightarrow> bindE (vec_set (bn_rids n) i (RID page_id slot_id)) (\<lambda>rs. Inr (True, n\<lparr>bn_rids := rs\<rparr>)))"

section \<open>Splitting\<close>

text \<open>Both splits return the separator, the new right node and the trimmed node; \<open>r\<close> is the new node's address.\<close>

definition BPlusTreeNode_splitLeafNode ::
  "'r \<Rightarrow> 'r BPlusTreeNode \<Rightarrow> (Key \<times> 'r BPlusTreeNode \<times> 'r BPlusTreeNode) result" where
  "BPlusTreeNode_splitLeafNode r n =
     (let mid = length (bn_keys n) div 2 in
      bindE (vec_from (bn_keys n) mid) (\<lambda>ks.
      bindE (vec_from (bn_rids n) mid) (\<lambda>rs.
      bindE (vec_at ks 0) (\<lambda>first.
      Inr (first,
           (BPlusTreeNode_new True)\<lparr>bn_keys := ks, bn_rids := rs, bn_next_leaf := bn_next_leaf n, bn_parent := bn_parent n\<rparr>,
           n\<lparr>bn_keys := take mid (bn_keys n), bn_rids := take mid (bn_rids n), bn_next_leaf := Some r\<rparr>)))))"

definition BPlusTreeNode_splitInternalNode ::
  "'r BPlusTreeNode \<Rightarrow> (Key \<times> 'r BPlusTreeNode \<times> 'r BPlusTreeNode) result" where
  "BPlusTreeNode_splitInternalNode n =
     (let mid = length (bn_keys n) div 2 in
      bindE (vec_at (bn_keys n) mid) (\<lambda>push_up_key.
      bindE (vec_from (bn_keys n) (mid + 1)) (\<lambda>ks.
      bindE (vec_from (bn_children n) (mid + 1)) (\<lambda>cs.
      Inr (push_up_key,
           (BPlusTreeNode_new False)\<lparr>bn_keys := ks, bn_children := cs\<rparr>,
           n\<lparr>bn_keys := take mid (bn_keys n), bn_children := take (mid + 1) (bn_children n)\<rparr>)))))"

section \<open>Page images\<close>

text \<open>The writing lambdas of \<open>serialize\<close>, on the buffer and the offset they capture.\<close>

type_synonym writer = "(byte list \<times> nat, unit) effect"

definition ensure_space :: "nat \<Rightarrow> writer" where
  "ensure_space n = (\<lambda>(buffer, offset).
     if (offset + n) mod 2 ^ 64 > PAGE_SIZE
     then (Inl (RuntimeError ''BPlusTreeNode too large to fit in a page''), buffer, offset)
     else (Inr (), buffer, offset))"

definition write_raw :: "byte list \<Rightarrow> nat \<Rightarrow> writer" where
  "write_raw bs advance = (\<lambda>(buffer, offset).
     case memcpy_in buffer offset bs of
       Inl e \<Rightarrow> (Inl e, buffer, offset) | Inr buffer' \<Rightarrow> (Inr (), buffer', offset + advance))"

definition write_int :: "int \<Rightarrow> writer" where
  "write_int v = sbind (ensure_space 4) (\<lambda>_. write_raw (le_int v) 4)"

definition write_bool :: "bool \<Rightarrow> writer" where
  "write_bool v = sbind (ensure_space 4) (\<lambda>_. write_raw [if v then 1 else 0] 4)"

fun write_key :: "Key \<Rightarrow> writer" where
  "write_key (KInt i) = sbind (write_int 0) (\<lambda>_. write_int i)"
| "write_key (KFloat f) = sbind (write_int 1) (\<lambda>_. sbind (ensure_space 4) (\<lambda>_. write_raw (le_bytes 4 f) 4))"
| "write_key (KString str) =
     (let len = sint (word_of_nat (length str) :: u32) in
      sbind (write_int 2) (\<lambda>_.
      sbind (write_int len) (\<lambda>_.
      sbind (ensure_space (nat (len mod 2 ^ 64))) (\<lambda>_.
      if len < 0 then sthrow (UndefinedBehaviour ''memcpy'')
      else write_raw (take (nat len) (bytes_of_string str)) (nat len)))))"

definition write_rid :: "RID \<Rightarrow> writer" where
  "write_rid rid = sbind (write_int (rid_page_id rid)) (\<lambda>_. write_int (rid_slot_id rid))"

definition child_id :: "('r \<Rightarrow> int) \<Rightarrow> 'r option \<Rightarrow> int" where
  "child_id ids child = (case child of None \<Rightarrow> -1 | Some r \<Rightarrow> ids r)"

definition BPlusTreeNode_serialize :: "('r \<Rightarrow> int) \<Rightarrow> 'r BPlusTreeNode \<Rightarrow> byte list result" where
  "BPlusTreeNode_serialize ids n =
     fst (sbind (write_int (bn_node_id n)) (\<lambda>_.
          sbind (write_bool (bn_is_leaf n)) (\<lambda>_.
          sbind (write_int (int (length (bn_keys n)))) (\<lambda>_.
          sbind (ensure_space 8) (\<lambda>_.
          sbind (write_raw (le_bytes 8 (bn_lsn n)) 8) (\<lambda>_.
          sbind (smodify (\<lambda>(buffer, offset). (buffer, 32))) (\<lambda>_.
          sbind (sfor write_key (bn_keys n)) (\<lambda>_.
          sbind (if bn_is_leaf n then sfor write_rid (bn_rids n)
                 else sfor (\<lambda>child. write_int (child_id ids child)) (bn_children n)) (\<lambda>_.
          sget fst)))))))) (replicate PAGE_SIZE 0, 0))"

text \<open>The reading lambdas of \<open>deserialize\<close>, on the offset they capture.\<close>

type_synonym 'a reader = "byte list \<Rightarrow> (nat, 'a) effect"

definition read_raw :: "nat \<Rightarrow> nat \<Rightarrow> byte list reader" where
  "read_raw n advance data = (\<lambda>offset.
     if offset + advance > length data
     then (Inl (RuntimeError ''Corrupt node: read past end of page''), offset)
     else case memcpy_out data offset n of Inl e \<Rightarrow> (Inl e, offset) | Inr bs \<Rightarrow> (Inr bs, offset + advance))"

definition read_int :: "int reader" where
  "read_int data = sbind (read_raw 4 4 data) (\<lambda>bs. sreturn (int_of_le bs))"

definition read_bool :: "bool reader" where
  "read_bool data = sbind (read_raw 1 4 data) (\<lambda>bs. sreturn (bs \<noteq> [0]))"

definition read_key :: "Key reader" where
  "read_key data =
     sbind (read_int data) (\<lambda>type_tag.
     if type_tag = 0 then sbind (read_int data) (\<lambda>i. sreturn (KInt i))
     else if type_tag = 1 then sbind (read_raw 4 4 data) (\<lambda>bs. sreturn (KFloat (le_word bs)))
     else if type_tag = 2 then
       sbind (read_int data) (\<lambda>len.
       if len < 0 then sthrow (RuntimeError ''Corrupt node: negative string key length'')
       else sbind (read_raw (nat len) (nat len) data) (\<lambda>bs. sreturn (KString (string_of_bytes bs))))
     else sthrow (RuntimeError (''Corrupt node: unknown key type tag '' @ string_of_int type_tag)))"

definition read_rid :: "RID reader" where
  "read_rid data = sbind (read_int data) (\<lambda>p. sbind (read_int data) (\<lambda>s. sreturn (RID p s)))"

definition read_child :: "int option reader" where
  "read_child data = sbind (read_int data) (\<lambda>i. sreturn (if i \<noteq> -1 then Some i else None))"

definition read_node :: "int BPlusTreeNode reader" where
  "read_node data =
     sbind (read_int data) (\<lambda>node_id.
     sbind (read_bool data) (\<lambda>is_leaf.
     sbind (read_int data) (\<lambda>num_keys.
     sbind (read_raw 8 8 data) (\<lambda>lsn.
     sbind (smodify (\<lambda>offset. 32)) (\<lambda>_.
     sbind (srepeat (nat num_keys) (read_key data)) (\<lambda>keys.
     let node = (BPlusTreeNode_new is_leaf)\<lparr>bn_node_id := node_id, bn_lsn := le_word lsn, bn_keys := keys\<rparr> in
     if is_leaf then sbind (srepeat (nat num_keys) (read_rid data)) (\<lambda>rids. sreturn (node\<lparr>bn_rids := rids\<rparr>))
     else sbind (srepeat (nat (num_keys + 1)) (read_child data)) (\<lambda>children. sreturn (node\<lparr>bn_children := children\<rparr>))))))))"

definition BPlusTreeNode_deserialize :: "byte list \<Rightarrow> int BPlusTreeNode result" where
  "BPlusTreeNode_deserialize data =
     (if length data < PAGE_SIZE then Inl (RuntimeError ''Invalid page size for node deserialization'')
      else fst (read_node data 0))"

section \<open>In-node search\<close>

definition index_keys :: "KeyTypeTag \<Rightarrow> Key list \<Rightarrow> bool" where
  "index_keys t ks \<longleftrightarrow> (\<forall>k \<in> set ks. index_key t k)"

lemma index_keys_simps [simp]:
  "index_keys t []" "index_keys t (k # ks) \<longleftrightarrow> index_key t k \<and> index_keys t ks"
  "index_keys t (ks @ ls) \<longleftrightarrow> index_keys t ks \<and> index_keys t ls"
  by (auto simp: index_keys_def)

lemma index_keys_nth [simp]: "index_keys t ks \<Longrightarrow> i < length ks \<Longrightarrow> index_key t (ks ! i)"
  by (auto simp: index_keys_def)

lemma index_keys_sub [simp]:
  "index_keys t ks \<Longrightarrow> index_keys t (take i ks)" "index_keys t ks \<Longrightarrow> index_keys t (drop i ks)"
  by (auto simp: index_keys_def dest: in_set_takeD in_set_dropD)

text \<open>The reference: the number of leading keys below \<open>key\<close>.\<close>

definition below :: "Key \<Rightarrow> Key list \<Rightarrow> nat" where
  "below key ks = length (takeWhile (\<lambda>k. rank k < rank key) ks)"

lemma below_le [simp]: "below key ks \<le> length ks"
  by (simp add: below_def length_takeWhile_le)

lemma below_eqI:
  assumes "p \<le> length ks" "\<And>i. i < p \<Longrightarrow> rank (ks ! i) < rank key" "p < length ks \<Longrightarrow> rank key \<le> rank (ks ! p)"
  shows "below key ks = p"
proof -
  have "takeWhile (\<lambda>k. rank k < rank key) ks = take p ks"
    using assms by (intro takeWhile_eq_take_P_nth) auto
  then show ?thesis using assms(1) by (simp add: below_def)
qed

lemma sorted_ranks_mono:
  "sorted (map rank ks) \<Longrightarrow> i \<le> j \<Longrightarrow> j < length ks \<Longrightarrow> rank (ks ! i) \<le> rank (ks ! j)"
  using sorted_nth_mono [of "map rank ks" i j] by simp

lemma lower_bound_below:
  assumes "index_keys t ks" "index_key t key" "sorted (map rank ks)" "first + len \<le> length ks"
    and "\<And>i. i < first \<Longrightarrow> rank (ks ! i) < rank key"
    and "\<And>i. first + len \<le> i \<Longrightarrow> i < length ks \<Longrightarrow> rank key \<le> rank (ks ! i)"
  shows "lower_bound ks key first len = Inr (below key ks)"
  using assms
proof (induction ks key first len rule: lower_bound.induct)
  case (1 ks key first len)
  show ?case
  proof (cases "len = 0")
    case True
    with "1.prems" have "below key ks = first" by (intro below_eqI) auto
    with True show ?thesis by (simp add: lower_bound.simps)
  next
    case False
    define half where "half = len div 2"
    define mid where "mid = first + half"
    have m: "mid < length ks" "half < len" using False "1.prems"(4) by (auto simp: mid_def half_def)
    have k: "index_key t (ks ! mid)" using m "1.prems"(1) by simp
    have unfold: "lower_bound ks key first len =
        (if rank (ks ! mid) < rank key then lower_bound ks key (mid + 1) (len - half - 1) else lower_bound ks key first half)"
      using False m k "1.prems"(2) by (subst lower_bound.simps) (simp add: Let_def flip: half_def mid_def)
    note IH = "1.IH" [OF False half_def mid_def, of "ks ! mid" "rank (ks ! mid) < rank key"]
    have pre: "vec_at ks mid = Inr (ks ! mid)" "Key_less (ks ! mid) key = Inr (rank (ks ! mid) < rank key)"
      using m k "1.prems"(2) by simp_all
    show ?thesis
    proof (cases "rank (ks ! mid) < rank key")
      case True
      have "lower_bound ks key (mid + 1) (len - half - 1) = Inr (below key ks)"
      proof (rule IH(1) [OF pre True "1.prems"(1-3)])
        show "mid + 1 + (len - half - 1) \<le> length ks" using m "1.prems"(4) by (simp add: mid_def)
        show "rank (ks ! i) < rank key" if "i < mid + 1" for i
          using sorted_ranks_mono [OF "1.prems"(3), of i mid] True that m by simp
        show "rank key \<le> rank (ks ! i)" if "mid + 1 + (len - half - 1) \<le> i" "i < length ks" for i
          using "1.prems"(6) [of i] that m by (simp add: mid_def)
      qed
      with True unfold show ?thesis by simp
    next
      case ge: False
      have "lower_bound ks key first half = Inr (below key ks)"
      proof (rule IH(2) [OF pre ge "1.prems"(1-3)])
        show "first + half \<le> length ks" using m by (simp add: mid_def)
        show "rank (ks ! i) < rank key" if "i < first" for i using "1.prems"(5) [OF that] .
        show "rank key \<le> rank (ks ! i)" if "first + half \<le> i" "i < length ks" for i
          using sorted_ranks_mono [OF "1.prems"(3), of mid i] ge that by (simp add: mid_def)
      qed
      with ge unfold show ?thesis by simp
    qed
  qed
qed

lemma findInsertPosition_below:
  assumes "index_keys t (bn_keys n)" "index_key t key" "sorted (map rank (bn_keys n))"
  shows "BPlusTreeNode_findInsertPosition key n = Inr (below key (bn_keys n))"
  unfolding BPlusTreeNode_findInsertPosition_def by (rule lower_bound_below [OF assms]) auto

lemma find_key_linear:
  "index_keys t ks \<Longrightarrow> index_key t key \<Longrightarrow>
   find_key ks key i = Inr (if \<exists>k \<in> set ks. rank k = rank key
     then Some (i + length (takeWhile (\<lambda>k. rank k \<noteq> rank key) ks)) else None)"
  by (induction ks arbitrary: i) auto

section \<open>The contents of a leaf\<close>

definition leaf_pairs :: "'r BPlusTreeNode \<Rightarrow> (Key \<times> RID) list" where
  "leaf_pairs n = zip (bn_keys n) (bn_rids n)"

definition leaf_ok :: "KeyTypeTag \<Rightarrow> 'r BPlusTreeNode \<Rightarrow> bool" where
  "leaf_ok t n \<longleftrightarrow> bn_is_leaf n \<and> length (bn_rids n) = length (bn_keys n) \<and> index_keys t (bn_keys n)
     \<and> sorted (map rank (bn_keys n))"

text \<open>What an ordered list of key/RID pairs does on insertion: before every pair with the same rank.\<close>

definition insert_pair :: "Key \<Rightarrow> RID \<Rightarrow> (Key \<times> RID) list \<Rightarrow> (Key \<times> RID) list" where
  "insert_pair key rid ps = takeWhile (\<lambda>(k, r). rank k < rank key) ps @ (key, rid) # dropWhile (\<lambda>(k, r). rank k < rank key) ps"

fun lookup_pair :: "Key \<Rightarrow> (Key \<times> RID) list \<Rightarrow> RID option" where
  "lookup_pair key [] = None"
| "lookup_pair key ((k, r) # ps) = (if rank k = rank key then Some r else lookup_pair key ps)"

fun update_pair :: "Key \<Rightarrow> RID \<Rightarrow> (Key \<times> RID) list \<Rightarrow> (Key \<times> RID) list" where
  "update_pair key rid [] = []"
| "update_pair key rid ((k, r) # ps) = (if rank k = rank key then (k, rid) # ps else (k, r) # update_pair key rid ps)"

lemma takeWhile_zip:
  "length xs = length ys \<Longrightarrow> takeWhile (\<lambda>(x, y). P x) (zip xs ys) = zip (takeWhile P xs) (take (length (takeWhile P xs)) ys)"
  by (induction xs ys rule: list_induct2) auto

lemma dropWhile_zip:
  "length xs = length ys \<Longrightarrow> dropWhile (\<lambda>(x, y). P x) (zip xs ys) = zip (dropWhile P xs) (drop (length (takeWhile P xs)) ys)"
  by (induction xs ys rule: list_induct2) auto

lemma take_below: "take (below key ks) ks = takeWhile (\<lambda>k. rank k < rank key) ks"
  by (simp add: below_def takeWhile_eq_take [symmetric])

lemma drop_below: "drop (below key ks) ks = dropWhile (\<lambda>k. rank k < rank key) ks"
  by (simp add: below_def dropWhile_eq_drop [symmetric])

lemma sorted_insert_below:
  assumes "sorted (map rank ks)"
  shows "sorted (map rank (take (below key ks) ks @ key # drop (below key ks) ks))"
proof -
  have lo: "rank x < rank key" if "x \<in> set (take (below key ks) ks)" for x
    using that by (auto simp: take_below dest: set_takeWhileD)
  have hi: "rank key \<le> rank x" if "x \<in> set (drop (below key ks) ks)" for x
  proof -
    have s: "sorted (map rank (drop (below key ks) ks))" using assms by (simp add: sorted_wrt_drop drop_map [symmetric])
    from that have ne: "drop (below key ks) ks \<noteq> []" by auto
    then have "\<not> rank (hd (drop (below key ks) ks)) < rank key"
      unfolding drop_below using hd_dropWhile by blast
    moreover have "rank (hd (drop (below key ks) ks)) \<le> rank x"
      using s that ne by (cases "drop (below key ks) ks") auto
    ultimately show ?thesis by simp
  qed
  have "sorted (map rank (take (below key ks) ks))" "sorted (map rank (drop (below key ks) ks))"
    using assms by (simp_all add: sorted_wrt_take sorted_wrt_drop take_map [symmetric] drop_map [symmetric])
  moreover have "rank x \<le> rank y" if "x \<in> set (take (below key ks) ks)" "y \<in> set (drop (below key ks) ks)" for x y
    using lo [OF that(1)] hi [OF that(2)] by simp
  ultimately show ?thesis
    using lo hi by (auto simp: sorted_append intro: less_imp_le)
qed

lemma insertInLeaf_pairs:
  assumes "leaf_ok t n" "index_key t key"
  obtains n' where "BPlusTreeNode_insertInLeaf key p s n = Inr n'" "leaf_ok t n'"
    "leaf_pairs n' = insert_pair key (RID p s) (leaf_pairs n)"
    "n' = n\<lparr>bn_keys := bn_keys n', bn_rids := bn_rids n'\<rparr>" "length (bn_keys n') = Suc (length (bn_keys n))"
proof -
  let ?p = "below key (bn_keys n)"
  let ?n = "n\<lparr>bn_keys := take ?p (bn_keys n) @ key # drop ?p (bn_keys n), bn_rids := take ?p (bn_rids n) @ RID p s # drop ?p (bn_rids n)\<rparr>"
  have a: "length (bn_rids n) = length (bn_keys n)" "index_keys t (bn_keys n)" "sorted (map rank (bn_keys n))" "bn_is_leaf n"
    using assms(1) by (simp_all add: leaf_ok_def)
  have ins: "BPlusTreeNode_insertInLeaf key p s n = Inr ?n"
    using a assms(2) by (simp add: BPlusTreeNode_insertInLeaf_def findInsertPosition_below [where t = t])
  have ok: "leaf_ok t ?n"
    using a assms(2) sorted_insert_below [OF a(3)] by (simp add: leaf_ok_def)
  have pairs: "leaf_pairs ?n = insert_pair key (RID p s) (leaf_pairs n)"
    using a(1) by (simp add: leaf_pairs_def insert_pair_def takeWhile_zip dropWhile_zip zip_append take_below drop_below
        flip: below_def)
  show thesis
    by (rule that [OF ins ok pairs]) (simp_all add: a(1))
qed

lemma lookup_pair_zip:
  "length xs = length ys \<Longrightarrow> lookup_pair key (zip xs ys) =
     (if \<exists>k \<in> set xs. rank k = rank key then Some (ys ! length (takeWhile (\<lambda>k. rank k \<noteq> rank key) xs)) else None)"
  by (induction xs ys rule: list_induct2) auto

lemma update_pair_zip:
  "length xs = length ys \<Longrightarrow> \<exists>k \<in> set xs. rank k = rank key \<Longrightarrow>
     update_pair key rid (zip xs ys) = zip xs (ys[length (takeWhile (\<lambda>k. rank k \<noteq> rank key) xs) := rid])"
  by (induction xs ys rule: list_induct2) auto

lemma update_pair_none:
  "\<forall>(k, r) \<in> set ps. rank k \<noteq> rank key \<Longrightarrow> update_pair key rid ps = ps"
  by (induction ps) auto

lemma takeWhile_less: "\<exists>x \<in> set xs. \<not> P x \<Longrightarrow> length (takeWhile P xs) < length xs"
  by (induction xs) auto

lemma findInLeaf_pairs:
  assumes "leaf_ok t n" "index_key t key"
  shows "BPlusTreeNode_findInLeaf key n = Inr (lookup_pair key (leaf_pairs n))"
proof -
  have "length (bn_keys n) = length (bn_rids n)" "index_keys t (bn_keys n)"
    using assms(1) by (simp_all add: leaf_ok_def)
  then show ?thesis
    using assms(2) takeWhile_less [of "bn_keys n" "\<lambda>k. rank k \<noteq> rank key"]
    by (auto simp: BPlusTreeNode_findInLeaf_def find_key_linear [where t = t] leaf_pairs_def lookup_pair_zip)
qed

lemma updateInLeaf_pairs:
  assumes "leaf_ok t n" "index_key t key"
  obtains n' where "BPlusTreeNode_updateInLeaf key p s n = Inr (lookup_pair key (leaf_pairs n) \<noteq> None, n')" "leaf_ok t n'"
    "leaf_pairs n' = update_pair key (RID p s) (leaf_pairs n)" "n' = n\<lparr>bn_rids := bn_rids n'\<rparr>" "bn_keys n' = bn_keys n"
proof -
  let ?i = "length (takeWhile (\<lambda>k. rank k \<noteq> rank key) (bn_keys n))"
  have a: "length (bn_keys n) = length (bn_rids n)" "index_keys t (bn_keys n)"
    using assms(1) by (simp_all add: leaf_ok_def)
  show thesis
  proof (cases "\<exists>k \<in> set (bn_keys n). rank k = rank key")
    case True
    then have i: "?i < length (bn_rids n)"
      using takeWhile_less [of "bn_keys n" "\<lambda>k. rank k \<noteq> rank key"] a(1) by auto
    show thesis
    proof (rule that [of "n\<lparr>bn_rids := (bn_rids n)[?i := RID p s]\<rparr>"])
      show "BPlusTreeNode_updateInLeaf key p s n = Inr (lookup_pair key (leaf_pairs n) \<noteq> None, n\<lparr>bn_rids := (bn_rids n)[?i := RID p s]\<rparr>)"
        using True i a assms(2)
        by (simp add: BPlusTreeNode_updateInLeaf_def find_key_linear [where t = t] leaf_pairs_def lookup_pair_zip)
      show "leaf_pairs (n\<lparr>bn_rids := (bn_rids n)[?i := RID p s]\<rparr>) = update_pair key (RID p s) (leaf_pairs n)"
        using True a(1) by (simp add: leaf_pairs_def update_pair_zip)
    qed (use assms(1) in \<open>simp_all add: leaf_ok_def\<close>)
  next
    case False
    show thesis
    proof (rule that [of n])
      show "BPlusTreeNode_updateInLeaf key p s n = Inr (lookup_pair key (leaf_pairs n) \<noteq> None, n)"
        using False a assms(2)
        by (simp add: BPlusTreeNode_updateInLeaf_def find_key_linear [where t = t] leaf_pairs_def lookup_pair_zip)
      show "leaf_pairs n = update_pair key (RID p s) (leaf_pairs n)"
        using False by (intro update_pair_none [symmetric]) (auto simp: leaf_pairs_def dest: set_zip_leftD)
    qed (use assms(1) in simp_all)
  qed
qed

section \<open>Splits keep the contents\<close>

lemma splitLeafNode_pairs:
  assumes "leaf_ok t n" "BPlusTreeNode_isFull n"
  obtains k new left where "BPlusTreeNode_splitLeafNode r n = Inr (k, new, left)" "leaf_ok t new" "leaf_ok t left"
    "leaf_pairs left @ leaf_pairs new = leaf_pairs n" "k = hd (bn_keys new)" "bn_keys new \<noteq> []" "bn_keys left \<noteq> []"
    "\<forall>x \<in> set (bn_keys left). rank x \<le> rank k" "\<forall>x \<in> set (bn_keys new). rank k \<le> rank x"
    "bn_next_leaf left = Some r" "bn_next_leaf new = bn_next_leaf n" "\<not> bn_is_merged_away new"
    "bn_is_merged_away left = bn_is_merged_away n" "bn_parent left = bn_parent n"
proof -
  let ?m = "length (bn_keys n) div 2"
  have a: "length (bn_rids n) = length (bn_keys n)" "index_keys t (bn_keys n)" "sorted (map rank (bn_keys n))" "bn_is_leaf n"
    using assms(1) by (simp_all add: leaf_ok_def)
  have len: "length (bn_keys n) \<ge> 4" using assms(2) by (simp add: BPlusTreeNode_isFull_def ORDER_def)
  then have m: "0 < ?m" "?m < length (bn_keys n)" by auto
  let ?k = "bn_keys n ! ?m"
  let ?new = "(BPlusTreeNode_new True)\<lparr>bn_keys := drop ?m (bn_keys n), bn_rids := drop ?m (bn_rids n), bn_next_leaf := bn_next_leaf n, bn_parent := bn_parent n\<rparr>"
  let ?left = "n\<lparr>bn_keys := take ?m (bn_keys n), bn_rids := take ?m (bn_rids n), bn_next_leaf := Some r\<rparr>"
  have s: "sorted (map rank (take ?m (bn_keys n)))" "sorted (map rank (drop ?m (bn_keys n)))"
    using a(3) by (simp_all add: sorted_wrt_take sorted_wrt_drop take_map [symmetric] drop_map [symmetric])
  have lo: "rank x \<le> rank ?k" if "x \<in> set (take ?m (bn_keys n))" for x
    using that m a(3) by (auto simp: in_set_conv_nth intro!: sorted_ranks_mono)
  have hi: "rank ?k \<le> rank x" if "x \<in> set (drop ?m (bn_keys n))" for x
    using that m a(3) by (auto simp: in_set_conv_nth intro!: sorted_ranks_mono)
  show thesis
  proof (rule that [of ?k ?new ?left])
    show "BPlusTreeNode_splitLeafNode r n = Inr (?k, ?new, ?left)"
      using m a(1) by (simp add: BPlusTreeNode_splitLeafNode_def Let_def)
    show "leaf_pairs ?left @ leaf_pairs ?new = leaf_pairs n"
      using a(1) by (simp add: leaf_pairs_def take_zip [symmetric] drop_zip [symmetric])
  qed (use a s m lo hi in \<open>auto simp: leaf_ok_def BPlusTreeNode_new_def hd_drop_conv_nth\<close>)
qed

lemma splitInternalNode_parts:
  assumes "BPlusTreeNode_isFull n" "length (bn_children n) = Suc (length (bn_keys n))"
  obtains k new left where "BPlusTreeNode_splitInternalNode n = Inr (k, new, left)"
    "bn_keys n = bn_keys left @ k # bn_keys new" "bn_children n = bn_children left @ bn_children new"
    "length (bn_children left) = Suc (length (bn_keys left))" "length (bn_children new) = Suc (length (bn_keys new))"
    "bn_keys left \<noteq> []" "bn_keys new \<noteq> []"
    "left = n\<lparr>bn_keys := bn_keys left, bn_children := bn_children left\<rparr>"
    "new = (BPlusTreeNode_new False)\<lparr>bn_keys := bn_keys new, bn_children := bn_children new\<rparr>"
proof -
  let ?m = "length (bn_keys n) div 2"
  have len: "length (bn_keys n) \<ge> 4" using assms(1) by (simp add: BPlusTreeNode_isFull_def ORDER_def)
  then have m: "0 < ?m" "Suc ?m < length (bn_keys n)" by auto
  let ?new = "(BPlusTreeNode_new False)\<lparr>bn_keys := drop (Suc ?m) (bn_keys n), bn_children := drop (Suc ?m) (bn_children n)\<rparr>"
  let ?left = "n\<lparr>bn_keys := take ?m (bn_keys n), bn_children := take (Suc ?m) (bn_children n)\<rparr>"
  show thesis
  proof (rule that [of "bn_keys n ! ?m" ?new ?left])
    show "BPlusTreeNode_splitInternalNode n = Inr (bn_keys n ! ?m, ?new, ?left)"
      using m assms(2) by (simp add: BPlusTreeNode_splitInternalNode_def Let_def)
  qed (use m assms(2) in \<open>auto simp: id_take_nth_drop [symmetric]\<close>)
qed

section \<open>Writing: every writer appends its bytes or reports that they do not fit\<close>

definition too_large :: error where
  "too_large = RuntimeError ''BPlusTreeNode too large to fit in a page''"

definition writes :: "writer \<Rightarrow> byte list \<Rightarrow> bool" where
  "writes m bs \<longleftrightarrow> (\<forall>buf off. length buf = PAGE_SIZE \<longrightarrow> off \<le> PAGE_SIZE \<longrightarrow>
     (if off + length bs \<le> PAGE_SIZE then m (buf, off) = (Inr (), overwrite buf off bs, off + length bs)
      else fst (m (buf, off)) = Inl too_large))"

lemma writes_return: "writes (sreturn ()) []"
  by (simp add: writes_def sreturn_def overwrite_def)

lemma writes_bind:
  assumes "writes m bs" "writes m' cs"
  shows "writes (sbind m (\<lambda>_. m')) (bs @ cs)"
proof (unfold writes_def, intro allI impI)
  fix buf off assume len: "length (buf :: byte list) = PAGE_SIZE" and off: "off \<le> PAGE_SIZE"
  show "if off + length (bs @ cs) \<le> PAGE_SIZE
      then sbind m (\<lambda>_. m') (buf, off) = (Inr (), overwrite buf off (bs @ cs), off + length (bs @ cs))
      else fst (sbind m (\<lambda>_. m') (buf, off)) = Inl too_large"
  proof (cases "off + length bs \<le> PAGE_SIZE")
    case True
    then have m: "m (buf, off) = (Inr (), overwrite buf off bs, off + length bs)"
      using assms(1) len off by (simp add: writes_def)
    have len': "length (overwrite buf off bs) = PAGE_SIZE" using len True by simp
    have "if off + length bs + length cs \<le> PAGE_SIZE
      then m' (overwrite buf off bs, off + length bs) = (Inr (), overwrite (overwrite buf off bs) (off + length bs) cs, off + length bs + length cs)
      else fst (m' (overwrite buf off bs, off + length bs)) = Inl too_large"
      using assms(2) len' True unfolding writes_def by blast
    then show ?thesis
      using len by (simp add: sbind_def m overwrite_overwrite_adjacent add.assoc split: if_splits)
  next
    case False
    then have "fst (m (buf, off)) = Inl too_large"
      using assms(1) len off by (simp add: writes_def)
    with False show ?thesis by (cases "m (buf, off)") (simp add: sbind_cases(2))
  qed
qed

lemma writes_for:
  assumes "\<And>x. x \<in> set xs \<Longrightarrow> writes (f x) (g x)"
  shows "writes (sfor f xs) (concat (map g xs))"
  using assms by (induction xs) (simp_all add: writes_return writes_bind)

lemma writes_block:
  assumes "n = length bs" "n < 2 ^ 63"
  shows "writes (sbind (ensure_space n) (\<lambda>_. write_raw bs n)) bs"
proof (unfold writes_def, intro allI impI)
  fix buf off assume len: "length (buf :: byte list) = PAGE_SIZE" and off: "off \<le> PAGE_SIZE"
  have "(off + n) mod 2 ^ 64 = off + n" using off assms(2) by (simp add: PAGE_SIZE_def)
  then have e: "ensure_space n (buf, off) = (if off + n > PAGE_SIZE then Inl too_large else Inr (), buf, off)"
    by (simp add: ensure_space_def too_large_def)
  show "if off + length bs \<le> PAGE_SIZE
      then sbind (ensure_space n) (\<lambda>_. write_raw bs n) (buf, off) = (Inr (), overwrite buf off bs, off + length bs)
      else fst (sbind (ensure_space n) (\<lambda>_. write_raw bs n) (buf, off)) = Inl too_large"
    using e len assms(1) by (simp add: sbind_def write_raw_def)
qed

lemma writes_int: "writes (write_int v) (le_int v)"
  unfolding write_int_def by (rule writes_block) simp_all

fun key_bytes :: "Key \<Rightarrow> byte list" where
  "key_bytes (KInt i) = le_int 0 @ le_int i"
| "key_bytes (KFloat f) = le_int 1 @ le_bytes 4 f"
| "key_bytes (KString str) = le_int 2 @ le_int (int (length str)) @ bytes_of_string str"

fun key_storable :: "Key \<Rightarrow> bool" where
  "key_storable (KInt i) = int32 i"
| "key_storable (KFloat f) = True"
| "key_storable (KString str) = (length str < 2 ^ 31)"

lemma sint_length: "n < 2 ^ 31 \<Longrightarrow> sint (word_of_nat n :: u32) = int n"
  by (simp add: signed_of_nat signed_take_bit_int_eq_self)

lemma writes_key:
  assumes "key_storable k"
  shows "writes (write_key k) (key_bytes k)"
proof (cases k)
  case (KInt i)
  then show ?thesis by (simp add: writes_bind writes_int)
next
  case (KFloat f)
  have "writes (sbind (ensure_space 4) (\<lambda>_. write_raw (le_bytes 4 f) 4)) (le_bytes 4 f)"
    by (rule writes_block) simp_all
  then show ?thesis by (simp add: KFloat writes_bind writes_int)
next
  case (KString str)
  with assms have len: "length str < 2 ^ 31" by simp
  have wrap: "sint (word_of_nat (length str) :: u32) = int (length str)" by (rule sint_length [OF len])
  have "writes (sbind (ensure_space (length str)) (\<lambda>_. write_raw (bytes_of_string str) (length str))) (bytes_of_string str)"
    using len by (intro writes_block) simp_all
  moreover have "nat (int (length str) mod 2 ^ 64) = length str" using len by simp
  ultimately show ?thesis
    unfolding KString write_key.simps key_bytes.simps Let_def wrap by (simp add: writes_bind writes_int)
qed

definition payload_bytes :: "('r \<Rightarrow> int) \<Rightarrow> 'r BPlusTreeNode \<Rightarrow> byte list" where
  "payload_bytes ids n =
     (if bn_is_leaf n then concat (map (\<lambda>r. le_int (rid_page_id r) @ le_int (rid_slot_id r)) (bn_rids n))
      else concat (map (\<lambda>c. le_int (child_id ids c)) (bn_children n)))"

definition node_body :: "('r \<Rightarrow> int) \<Rightarrow> 'r BPlusTreeNode \<Rightarrow> byte list" where
  "node_body ids n = concat (map key_bytes (bn_keys n)) @ payload_bytes ids n"

definition node_header :: "'r BPlusTreeNode \<Rightarrow> byte list" where
  "node_header n = le_int (bn_node_id n) @ [if bn_is_leaf n then 1 else 0, 0, 0, 0] @ le_int (int (length (bn_keys n)))
     @ le_bytes 8 (bn_lsn n) @ replicate 12 0"

lemma length_node_header [simp]: "length (node_header n) = 32"
  by (simp add: node_header_def)

lemma write_body:
  assumes "\<forall>k \<in> set (bn_keys n). key_storable k"
  shows "writes (sbind (sfor write_key (bn_keys n)) (\<lambda>_.
     if bn_is_leaf n then sfor write_rid (bn_rids n)
     else sfor (\<lambda>child. write_int (child_id ids child)) (bn_children n))) (node_body ids n)"
  unfolding node_body_def
proof (rule writes_bind)
  show "writes (sfor write_key (bn_keys n)) (concat (map key_bytes (bn_keys n)))"
    using assms by (intro writes_for) (simp add: writes_key)
  show "writes (if bn_is_leaf n then sfor write_rid (bn_rids n)
     else sfor (\<lambda>child. write_int (child_id ids child)) (bn_children n)) (payload_bytes ids n)"
    by (auto simp: payload_bytes_def write_rid_def intro!: writes_for writes_int writes_bind)
qed

text \<open>The buffer while it is filled from the front: the bytes so far, then zeros.\<close>

definition filled :: "byte list \<Rightarrow> byte list \<times> nat" where
  "filled xs = (xs @ replicate (PAGE_SIZE - length xs) 0, length xs)"

lemma writes_filled:
  assumes "writes m bs" "length xs + length bs \<le> PAGE_SIZE"
  shows "m (filled xs) = (Inr (), filled (xs @ bs))"
  using assms by (simp add: writes_def filled_def overwrite_def)

lemma write_bool_filled:
  assumes "length xs + 4 \<le> PAGE_SIZE"
  shows "write_bool v (filled xs) = (Inr (), filled (xs @ [if v then 1 else 0, 0, 0, 0]))"
proof -
  obtain k where k: "PAGE_SIZE = length xs + Suc (Suc (Suc (Suc k)))"
    using assms by (auto simp: eval_nat_numeral dest!: le_Suc_ex)
  have "\<not> (length xs + 4) mod 2 ^ 64 > PAGE_SIZE" using assms by (simp add: PAGE_SIZE_def)
  then show ?thesis
    by (simp add: k numeral_3_eq_3 write_bool_def ensure_space_def filled_def sbind_def write_raw_def memcpy_in_def overwrite_def)
qed

lemma pad_filled: "length xs = 20 \<Longrightarrow> (fst (filled xs), 32) = filled (xs @ replicate 12 0)"
  by (simp add: filled_def PAGE_SIZE_def flip: replicate_add)

lemma write_header:
  "sbind (write_int (bn_node_id n)) (\<lambda>_. sbind (write_bool (bn_is_leaf n)) (\<lambda>_.
   sbind (write_int (int (length (bn_keys n)))) (\<lambda>_. sbind (ensure_space 8) (\<lambda>_.
   sbind (write_raw (le_bytes 8 (bn_lsn n)) 8) (\<lambda>_.
   sbind (smodify (\<lambda>(buffer, offset). (buffer, 32))) (\<lambda>_. m)))))) (replicate PAGE_SIZE 0, 0)
   = m (filled (node_header n))"
proof -
  define b :: "byte list" where "b = [if bn_is_leaf n then 1 else 0, 0, 0, 0]"
  let ?a = "le_int (bn_node_id n)" and ?c = "le_int (int (length (bn_keys n)))" and ?d = "le_bytes 8 (bn_lsn n)"
  have len: "length b = 4" by (simp add: b_def)
  have i: "(replicate PAGE_SIZE 0, 0) = filled []" by (simp add: filled_def)
  have 1: "write_int (bn_node_id n) (filled []) = (Inr (), filled ?a)"
    using writes_filled [OF writes_int, of "[]"] by (simp add: PAGE_SIZE_def)
  have 2: "write_bool (bn_is_leaf n) (filled ?a) = (Inr (), filled (?a @ b))"
    unfolding b_def by (rule write_bool_filled) (simp add: PAGE_SIZE_def)
  have 3: "write_int (int (length (bn_keys n))) (filled (?a @ b)) = (Inr (), filled (?a @ b @ ?c))"
    using writes_filled [OF writes_int, of "?a @ b"] len by (simp add: PAGE_SIZE_def)
  have "writes (sbind (ensure_space 8) (\<lambda>_. write_raw ?d 8)) ?d" by (rule writes_block) simp_all
  then have 4: "sbind (ensure_space 8) (\<lambda>_. write_raw ?d 8) (filled (?a @ b @ ?c)) = (Inr (), filled (?a @ b @ ?c @ ?d))"
    using writes_filled [of _ ?d "?a @ b @ ?c"] len by (simp add: PAGE_SIZE_def)
  have 5: "(case filled (?a @ b @ ?c @ ?d) of (buffer, offset) \<Rightarrow> (buffer, 32)) = filled (node_header n)"
    using pad_filled [of "?a @ b @ ?c @ ?d"] len by (simp add: node_header_def case_prod_beta flip: b_def)
  have 6: "sbind (ensure_space 8) (\<lambda>_. sbind (write_raw ?d 8) k) s = sbind (sbind (ensure_space 8) (\<lambda>_. write_raw ?d 8)) k s" for k s
    by (simp add: sbind_assoc)
  show ?thesis
    by (simp add: i 6 5 sbind_cases(1) [of "write_int (bn_node_id n)", OF 1] sbind_cases(1) [of "write_bool (bn_is_leaf n)", OF 2]
        sbind_cases(1) [of "write_int (int (length (bn_keys n)))", OF 3]
        sbind_cases(1) [of "sbind (ensure_space 8) (\<lambda>_. write_raw ?d 8)", OF 4])
qed

text \<open>The size of a node's image, and what \<open>serialize\<close> returns.\<close>

definition node_size :: "'r BPlusTreeNode \<Rightarrow> nat" where
  "node_size n = 32 + length (concat (map key_bytes (bn_keys n)))
     + (if bn_is_leaf n then 8 * length (bn_rids n) else 4 * length (bn_children n))"

lemma length_payload: "length (payload_bytes ids n) = (if bn_is_leaf n then 8 * length (bn_rids n) else 4 * length (bn_children n))"
proof -
  have "length (concat (map (\<lambda>r. le_int (rid_page_id r) @ le_int (rid_slot_id r)) rs)) = 8 * length rs" for rs
    by (induction rs) simp_all
  moreover have "length (concat (map (\<lambda>c. le_int (child_id ids c)) cs)) = 4 * length cs" for cs
    by (induction cs) simp_all
  ultimately show ?thesis by (simp add: payload_bytes_def)
qed

lemma node_size_body: "node_size n = 32 + length (node_body ids n)"
  by (simp add: node_size_def node_body_def length_payload)

lemma serialize_image:
  assumes "\<forall>k \<in> set (bn_keys n). key_storable k"
  shows "BPlusTreeNode_serialize ids n = (if node_size n \<le> PAGE_SIZE
     then Inr (node_header n @ node_body ids n @ replicate (PAGE_SIZE - node_size n) 0) else Inl too_large)"
proof -
  let ?m = "sbind (sfor write_key (bn_keys n)) (\<lambda>_. if bn_is_leaf n then sfor write_rid (bn_rids n)
     else sfor (\<lambda>child. write_int (child_id ids child)) (bn_children n))"
  have w: "writes ?m (node_body ids n)" by (rule write_body [OF assms])
  have ser: "BPlusTreeNode_serialize ids n = fst (sbind ?m (\<lambda>_. sget fst) (filled (node_header n)))"
    unfolding BPlusTreeNode_serialize_def write_header sbind_assoc ..
  show ?thesis
  proof (cases "node_size n \<le> PAGE_SIZE")
    case True
    then have "?m (filled (node_header n)) = (Inr (), filled (node_header n @ node_body ids n))"
      by (intro writes_filled [OF w]) (simp add: node_size_body [of n ids])
    with True ser show ?thesis by (simp add: sbind_cases(1) sget_def filled_def node_size_body [of n ids])
  next
    case False
    have "fst (?m (filled (node_header n))) = Inl too_large"
      using w False by (simp add: writes_def filled_def node_size_body [of n ids] PAGE_SIZE_def)
    then have "?m (filled (node_header n)) = (Inl too_large, snd (?m (filled (node_header n))))" by (simp add: prod_eq_iff)
    with False ser show ?thesis by (simp add: sbind_cases(2))
  qed
qed

section \<open>Reading: every reader takes back what its writer wrote\<close>

definition reads :: "'a reader \<Rightarrow> byte list \<Rightarrow> 'a \<Rightarrow> bool" where
  "reads m bs x \<longleftrightarrow> (\<forall>pre post. m (pre @ bs @ post) (length pre) = (Inr x, length pre + length bs))"

lemma readsD: "reads m bs x \<Longrightarrow> data = pre @ bs @ post \<Longrightarrow> off = length pre \<Longrightarrow> m data off = (Inr x, off + length bs)"
  by (simp add: reads_def)

lemma reads_return: "reads (\<lambda>_. sreturn x) [] x"
  by (simp add: reads_def sreturn_def)

lemma reads_bind:
  assumes "reads m bs x" "reads (f x) cs y"
  shows "reads (\<lambda>data. sbind (m data) (\<lambda>x. f x data)) (bs @ cs) y"
proof (unfold reads_def, intro allI)
  fix pre post :: "byte list"
  have "m (pre @ (bs @ cs) @ post) (length pre) = (Inr x, length (pre @ bs))"
    using assms(1) by (simp add: reads_def)
  moreover have "f x ((pre @ bs) @ cs @ post) (length (pre @ bs)) = (Inr y, length (pre @ bs) + length cs)"
    using assms(2) unfolding reads_def by blast
  ultimately show "sbind (m (pre @ (bs @ cs) @ post)) (\<lambda>x. f x (pre @ (bs @ cs) @ post)) (length pre)
      = (Inr y, length pre + length (bs @ cs))"
    by (simp add: sbind_def)
qed

lemma reads_map:
  assumes "reads m bs x"
  shows "reads (\<lambda>data. sbind (m data) (\<lambda>x. sreturn (f x))) bs (f x)"
  using reads_bind [OF assms reads_return, of f] by simp

lemma reads_repeat:
  assumes "\<And>x. x \<in> set xs \<Longrightarrow> reads m (g x) x"
  shows "reads (\<lambda>data. srepeat (length xs) (m data)) (concat (map g xs)) xs"
  using assms
proof (induction xs)
  case Nil
  then show ?case by (simp add: reads_return)
next
  case (Cons x xs)
  have "reads (\<lambda>data. sbind (m data) (\<lambda>y. sbind (srepeat (length xs) (m data)) (\<lambda>ys. sreturn (y # ys))))
      (g x @ concat (map g xs)) (x # xs)"
    using Cons.prems reads_map [OF Cons.IH, of "\<lambda>ys. x # ys"]
    by (intro reads_bind [where x = x and f = "\<lambda>y data. sbind (srepeat (length xs) (m data)) (\<lambda>ys. sreturn (y # ys))"]) simp_all
  then show ?case by simp
qed

lemma reads_raw: "length bs = n \<Longrightarrow> reads (read_raw n n) bs bs"
  by (auto simp: reads_def read_raw_def chunk_def)

lemma reads_int: "int32 i \<Longrightarrow> reads read_int (le_int i) i"
  using reads_map [OF reads_raw, of "le_int i" 4 int_of_le] unfolding read_int_def [abs_def] by simp

lemma reads_key:
  assumes "key_storable k"
  shows "reads read_key (key_bytes k) k"
proof (cases k)
  case (KInt i)
  have "reads (\<lambda>data. sbind (read_int data) (\<lambda>i. sreturn (KInt i))) (le_int i) (KInt i)"
    using assms KInt by (intro reads_map [OF reads_int]) simp
  then show ?thesis
    unfolding KInt read_key_def [abs_def] key_bytes.simps by (intro reads_bind [OF reads_int]) (simp_all add: int32_def)
next
  case (KFloat f)
  have "reads (\<lambda>data. sbind (read_raw 4 4 data) (\<lambda>bs. sreturn (KFloat (le_word bs)))) (le_bytes 4 f) (KFloat f)"
    using reads_map [OF reads_raw, of "le_bytes 4 f" 4 "\<lambda>bs. KFloat (le_word bs)"] by simp
  then show ?thesis
    unfolding KFloat read_key_def [abs_def] key_bytes.simps by (intro reads_bind [OF reads_int]) (simp_all add: int32_def)
next
  case (KString str)
  have len: "length str < 2 ^ 31" using assms KString by simp
  have "reads (\<lambda>data. sbind (read_raw (length str) (length str) data) (\<lambda>bs. sreturn (KString (string_of_bytes bs))))
      (bytes_of_string str) (KString str)"
    using reads_map [OF reads_raw, of "bytes_of_string str" "length str" "\<lambda>bs. KString (string_of_bytes bs)"] by simp
  then have "reads (\<lambda>data. sbind (read_int data) (\<lambda>len.
       if len < 0 then sthrow (RuntimeError ''Corrupt node: negative string key length'')
       else sbind (read_raw (nat len) (nat len) data) (\<lambda>bs. sreturn (KString (string_of_bytes bs)))))
      (le_int (int (length str)) @ bytes_of_string str) (KString str)"
    using len by (intro reads_bind [OF reads_int]) (simp_all add: int32_def)
  then show ?thesis
    unfolding KString read_key_def [abs_def] key_bytes.simps by (intro reads_bind [OF reads_int]) (simp_all add: int32_def)
qed

lemma reads_rid: "wf_rid r \<Longrightarrow> reads read_rid (le_int (rid_page_id r) @ le_int (rid_slot_id r)) r"
  unfolding read_rid_def [abs_def]
  using reads_map [OF reads_int, of "rid_slot_id r" "RID (rid_page_id r)"]
  by (intro reads_bind [OF reads_int]) (simp_all add: wf_rid_def)

lemma reads_child:
  assumes "int32 i"
  shows "reads read_child (le_int i) (if i \<noteq> -1 then Some i else None)"
  unfolding read_child_def [abs_def] by (rule reads_map [OF reads_int [OF assms]])

text \<open>What a node keeps on disk: everything but its links to nodes of its level and its parent.\<close>

definition node_image :: "('r \<Rightarrow> int) \<Rightarrow> 'r BPlusTreeNode \<Rightarrow> int BPlusTreeNode" where
  "node_image ids n = (BPlusTreeNode_new (bn_is_leaf n))\<lparr>bn_node_id := bn_node_id n, bn_lsn := bn_lsn n,
     bn_keys := bn_keys n, bn_rids := (if bn_is_leaf n then bn_rids n else []),
     bn_children := (if bn_is_leaf n then [] else map (map_option ids) (bn_children n))\<rparr>"

definition node_storable :: "('r \<Rightarrow> int) \<Rightarrow> 'r BPlusTreeNode \<Rightarrow> bool" where
  "node_storable ids n \<longleftrightarrow> int32 (bn_node_id n) \<and> (\<forall>k \<in> set (bn_keys n). key_storable k)
     \<and> (if bn_is_leaf n then length (bn_rids n) = length (bn_keys n) \<and> (\<forall>r \<in> set (bn_rids n). wf_rid r)
        else length (bn_children n) = Suc (length (bn_keys n))
          \<and> (\<forall>c \<in> set (bn_children n). \<forall>r. c = Some r \<longrightarrow> int32 (ids r) \<and> ids r \<noteq> -1))"

lemma length_concat_ge: "(\<And>x. x \<in> set xs \<Longrightarrow> 1 \<le> length (f x)) \<Longrightarrow> length xs \<le> length (concat (map f xs))"
  by (induction xs) fastforce+

lemma length_keys_le: "length (bn_keys n) \<le> node_size n"
proof -
  have "1 \<le> length (key_bytes k)" for k by (cases k) simp_all
  then have "length (bn_keys n) \<le> length (concat (map key_bytes (bn_keys n)))" by (intro length_concat_ge) simp
  then show ?thesis by (simp add: node_size_def)
qed

lemma child_image:
  "\<forall>r. c = Some r \<longrightarrow> ids r \<noteq> -1 \<Longrightarrow> (if child_id ids c \<noteq> -1 then Some (child_id ids c) else None) = map_option ids c"
  by (cases c) (simp_all add: child_id_def)

lemma reads_children:
  assumes "\<forall>c \<in> set cs. \<forall>r. c = Some r \<longrightarrow> int32 (ids r) \<and> ids r \<noteq> -1"
  shows "reads (\<lambda>data. srepeat (length cs) (read_child data)) (concat (map (\<lambda>c. le_int (child_id ids c)) cs)) (map (map_option ids) cs)"
proof -
  let ?g = "\<lambda>oc. le_int (case oc of None \<Rightarrow> -1 | Some i \<Rightarrow> i)"
  have img: "child_id ids c = (case map_option ids c of None \<Rightarrow> -1 | Some i \<Rightarrow> i)" for c
    by (cases c) (simp_all add: child_id_def)
  have "reads read_child (?g oc) oc" if "oc \<in> set (map (map_option ids) cs)" for oc
  proof -
    from that obtain c where c: "c \<in> set cs" "oc = map_option ids c" by auto
    have "int32 (child_id ids c)" using assms c(1) by (cases c) (auto simp: child_id_def int32_def)
    from reads_child [OF this] show ?thesis
      using child_image [of c ids] assms c unfolding img by (cases c) auto
  qed
  from reads_repeat [of "map (map_option ids) cs" read_child ?g, OF this] show ?thesis
    by (simp add: child_id_def [abs_def] comp_def cong: option.case_cong)
qed

lemma reads_payload:
  assumes "node_storable ids n"
  shows "reads (\<lambda>data. if bn_is_leaf n
      then sbind (srepeat (length (bn_keys n)) (read_rid data)) (\<lambda>rids. sreturn (node\<lparr>bn_rids := rids\<rparr>))
      else sbind (srepeat (Suc (length (bn_keys n))) (read_child data)) (\<lambda>children. sreturn (node\<lparr>bn_children := children\<rparr>)))
    (payload_bytes ids n)
    (if bn_is_leaf n then node\<lparr>bn_rids := bn_rids n\<rparr> else node\<lparr>bn_children := map (map_option ids) (bn_children n)\<rparr>)"
proof (cases "bn_is_leaf n")
  case True
  then have len: "length (bn_keys n) = length (bn_rids n)" and rid: "\<And>r. r \<in> set (bn_rids n) \<Longrightarrow> wf_rid r"
    using assms by (simp_all add: node_storable_def)
  have "reads (\<lambda>data. srepeat (length (bn_rids n)) (read_rid data))
      (concat (map (\<lambda>r. le_int (rid_page_id r) @ le_int (rid_slot_id r)) (bn_rids n))) (bn_rids n)"
    by (intro reads_repeat reads_rid rid)
  from reads_map [OF this, of "\<lambda>rids. node\<lparr>bn_rids := rids\<rparr>"] show ?thesis
    using True by (simp add: payload_bytes_def len)
next
  case False
  then have len: "Suc (length (bn_keys n)) = length (bn_children n)"
    and ch: "\<forall>c \<in> set (bn_children n). \<forall>r. c = Some r \<longrightarrow> int32 (ids r) \<and> ids r \<noteq> -1"
    using assms by (auto simp: node_storable_def)
  from reads_map [OF reads_children [OF ch], of "\<lambda>cs. node\<lparr>bn_children := cs\<rparr>"] show ?thesis
    using False by (simp add: payload_bytes_def len)
qed

lemma deserialize_image:
  assumes "node_storable ids n" "node_size n \<le> PAGE_SIZE"
  shows "BPlusTreeNode_deserialize (node_header n @ node_body ids n @ replicate (PAGE_SIZE - node_size n) 0) = Inr (node_image ids n)"
proof -
  define b :: "byte list" where "b = [if bn_is_leaf n then 1 else 0, 0, 0, 0]"
  let ?a = "le_int (bn_node_id n)" and ?c = "le_int (int (length (bn_keys n)))" and ?d = "le_bytes 8 (bn_lsn n)"
  let ?data = "node_header n @ node_body ids n @ replicate (PAGE_SIZE - node_size n) 0"
  let ?nk = "length (bn_keys n)"
  let ?node = "(BPlusTreeNode_new (bn_is_leaf n))\<lparr>bn_node_id := bn_node_id n, bn_lsn := bn_lsn n, bn_keys := bn_keys n\<rparr> :: int BPlusTreeNode"
  have data: "?data = ?a @ b @ ?c @ ?d @ replicate 12 0 @ node_body ids n @ replicate (PAGE_SIZE - node_size n) 0"
    by (simp add: node_header_def b_def)
  have lb: "length b = 4" by (simp add: b_def)
  have len: "length ?data = PAGE_SIZE" using assms(2) by (simp add: node_size_body [of n ids])
  have nk: "int32 (int ?nk)" using length_keys_le [of n] assms(2) by (simp add: int32_def PAGE_SIZE_def)
  have id: "int32 (bn_node_id n)" and ks: "\<And>k. k \<in> set (bn_keys n) \<Longrightarrow> key_storable k"
    using assms(1) by (simp_all add: node_storable_def)
  have 1: "read_int ?data 0 = (Inr (bn_node_id n), 4)"
    using reads_int [OF id] unfolding data reads_def by (elim allE [of _ "[]"] allE) simp
  have 2: "read_bool ?data 4 = (Inr (bn_is_leaf n), 8)"
    using len by (simp add: read_bool_def sbind_def read_raw_def PAGE_SIZE_def sreturn_def chunk_def node_header_def)
  have 3: "read_int ?data 8 = (Inr (int ?nk), 12)"
    using reads_int [OF nk] lb unfolding data reads_def by (elim allE [of _ "?a @ b"] allE) simp
  have 4: "read_raw 8 8 ?data 12 = (Inr ?d, 20)"
    using len by (simp add: read_raw_def PAGE_SIZE_def chunk_def node_header_def)
  have "reads (\<lambda>data. srepeat ?nk (read_key data)) (concat (map key_bytes (bn_keys n))) (bn_keys n)"
    using ks by (intro reads_repeat reads_key)
  then have 5: "srepeat ?nk (read_key ?data) 32 = (Inr (bn_keys n), 32 + length (concat (map key_bytes (bn_keys n))))"
    by (rule readsD [where pre = "node_header n" and post = "payload_bytes ids n @ replicate (PAGE_SIZE - node_size n) 0"])
      (simp_all add: node_body_def)
  let ?pre = "node_header n @ concat (map key_bytes (bn_keys n))"
  have 6: "fst ((if bn_is_leaf n
      then sbind (srepeat ?nk (read_rid ?data)) (\<lambda>rids. sreturn (?node\<lparr>bn_rids := rids\<rparr>))
      else sbind (srepeat (Suc ?nk) (read_child ?data)) (\<lambda>children. sreturn (?node\<lparr>bn_children := children\<rparr>)))
        (32 + length (concat (map key_bytes (bn_keys n))))) = Inr (node_image ids n)"
    by (subst readsD [OF reads_payload [OF assms(1), of ?node],
          where pre = ?pre and post = "replicate (PAGE_SIZE - node_size n) 0"])
      (simp_all add: node_body_def node_image_def BPlusTreeNode_new_def)
  have "fst (read_node ?data 0) = Inr (node_image ids n)"
    unfolding read_node_def
    by (simp only: sbind_cases(1) [of "read_int ?data", OF 1] sbind_cases(1) [of "read_bool ?data", OF 2]
        sbind_cases(1) [of "read_int ?data", OF 3] sbind_cases(1) [of "read_raw 8 8 ?data", OF 4] sbind_prims nat_int
        sbind_cases(1) [of "srepeat ?nk (read_key ?data)", OF 5] Let_def le_word_u64)
      (use 6 in \<open>simp add: nat_add_distrib cong: if_cong\<close>)
  then show ?thesis
    using len by (simp add: BPlusTreeNode_deserialize_def)
qed

section \<open>Reading arbitrary bytes is memory safe\<close>

definition safe :: "('s, 'a) effect \<Rightarrow> bool" where
  "safe m \<longleftrightarrow> (\<forall>s. no_ub (fst (m s)))"

lemma safe_bind [intro]: "safe m \<Longrightarrow> (\<And>x. safe (f x)) \<Longrightarrow> safe (sbind m f)"
  unfolding safe_def no_ub_def sbind_def by (auto split: prod.splits sum.splits) (metis fst_conv)+

lemma safe_prims [simp, intro]:
  "safe (sreturn x)" "safe (sthrow (RuntimeError e))" "safe (smodify g)"
  by (simp_all add: safe_def sreturn_def sthrow_def smodify_def)

lemma safe_repeat [intro]: "safe m \<Longrightarrow> safe (srepeat n m)"
  by (induction n) auto

lemma safe_raw [intro]: "n \<le> adv \<Longrightarrow> safe (read_raw n adv data)"
  by (auto simp: safe_def read_raw_def memcpy_out_def)

lemma safe_int [intro]: "safe (read_int data)"
  unfolding read_int_def by blast

lemma safe_key: "safe (read_key data)"
  unfolding read_key_def by (intro safe_bind safe_int) (auto intro!: safe_bind safe_int)

lemma safe_node: "safe (read_node data)"
  unfolding read_node_def read_bool_def read_rid_def read_child_def Let_def
  by (intro safe_bind safe_int safe_repeat safe_key) (auto intro!: safe_bind safe_int)

section \<open>Lookups after an insertion\<close>

lemma lookup_append: "lookup_pair key (xs @ ys) = (case lookup_pair key xs of None \<Rightarrow> lookup_pair key ys | Some r \<Rightarrow> Some r)"
  by (induction xs) auto

lemma lookup_none: "lookup_pair key ps = None \<longleftrightarrow> (\<forall>(k, r) \<in> set ps. rank k \<noteq> rank key)"
  by (induction ps) (auto split: if_splits)

lemma lookup_insert_pair:
  "lookup_pair k (insert_pair key rid ps) = (if rank k = rank key then Some rid else lookup_pair k ps)"
proof (cases "rank k = rank key")
  case True
  have "lookup_pair k (takeWhile (\<lambda>(k, r). rank k < rank key) ps) = None"
    using True by (auto simp: lookup_none dest!: set_takeWhileD)
  with True show ?thesis by (simp add: insert_pair_def lookup_append)
next
  case False
  have "lookup_pair k ps = lookup_pair k (takeWhile (\<lambda>(k, r). rank k < rank key) ps @ dropWhile (\<lambda>(k, r). rank k < rank key) ps)"
    by simp
  also have "\<dots> = lookup_pair k (insert_pair key rid ps)"
    using False unfolding insert_pair_def lookup_append by (simp cong: option.case_cong)
  finally show ?thesis using False by simp
qed

lemma lookup_update_pair:
  "lookup_pair k (update_pair key rid ps) =
     (if rank k = rank key \<and> lookup_pair key ps \<noteq> None then Some rid else lookup_pair k ps)"
  by (induction ps) auto

section \<open>Properties\<close>

definition sample_leaf :: "nat BPlusTreeNode" where
  "sample_leaf = (BPlusTreeNode_new True)\<lparr>bn_node_id := 7, bn_keys := [KInt 10, KInt 20, KInt 30], bn_rids := [RID 1 0, RID 1 1, RID 2 0]\<rparr>"

definition sample_inner :: "nat BPlusTreeNode" where
  "sample_inner = (BPlusTreeNode_new False)\<lparr>bn_node_id := 3, bn_lsn := 9, bn_keys := [KString ''m''], bn_children := [Some 4, Some 5]\<rparr>"

lemma sample_leaf_ok: "leaf_ok INTEGER sample_leaf"
  by (simp add: leaf_ok_def sample_leaf_def BPlusTreeNode_new_def index_key_def less_eq_key_rank_def)

text \<open>
  a node survives the trip to its page. A node whose ids, RIDs and keys fit their fields, with as many
  RIDs as keys in a leaf and one child more than keys in an inner node, either does not fit into a page, and \<open>serialize\<close> throws the
  error of the source, or it serializes to exactly one page, from which \<open>deserialize\<close> gives back its id, LSN, keys and RIDs or child ids.
\<close>
theorem BPlusTreeNode_page_roundtrip:
  assumes "node_storable ids n"
  shows "if node_size n \<le> PAGE_SIZE
    then \<exists>b. BPlusTreeNode_serialize ids n = Inr b \<and> length b = PAGE_SIZE \<and> BPlusTreeNode_deserialize b = Inr (node_image ids n)
    else BPlusTreeNode_serialize ids n = Inl (RuntimeError ''BPlusTreeNode too large to fit in a page'')"
  using serialize_image [of n ids] deserialize_image [OF assms] assms
  by (auto simp: node_storable_def too_large_def node_size_body [of n ids])

theorem BPlusTreeNode_page_roundtrip_witness:
  "\<exists>b. BPlusTreeNode_serialize (\<lambda>r. int r + 10) sample_inner = Inr b \<and> length b = PAGE_SIZE
     \<and> BPlusTreeNode_deserialize b = Inr (node_image (\<lambda>r. int r + 10) sample_inner)"
proof -
  have "node_storable (\<lambda>r. int r + 10) sample_inner" "node_size sample_inner \<le> PAGE_SIZE"
    by (simp_all add: node_storable_def sample_inner_def BPlusTreeNode_new_def int32_def node_size_def PAGE_SIZE_def)
  then show ?thesis using BPlusTreeNode_page_roundtrip [of "\<lambda>r. int r + 10" sample_inner] by simp
qed

text \<open>
  \<open>deserialize\<close> is safe on every input. Whatever bytes a page holds, it never reads outside the buffer: it
  either throws a \<open>runtime_error\<close> or returns a node whose RIDs or children match its keys in number (an inner node read from a negative
  key count has neither).
\<close>
theorem BPlusTreeNode_deserialize_safe:
  "case BPlusTreeNode_deserialize data of
     Inl e \<Rightarrow> no_ub (BPlusTreeNode_deserialize data)
   | Inr n \<Rightarrow> (if bn_is_leaf n then length (bn_rids n) = length (bn_keys n) \<and> bn_children n = []
              else bn_rids n = [] \<and> (length (bn_children n) = Suc (length (bn_keys n)) \<or> bn_children n = [] \<and> bn_keys n = []))"
proof (cases "BPlusTreeNode_deserialize data")
  case (Inl e)
  have "no_ub (BPlusTreeNode_deserialize data)"
    using safe_node [of data] by (simp add: BPlusTreeNode_deserialize_def safe_def)
  with Inl show ?thesis by simp
next
  case (Inr n)
  then obtain s where "read_node data 0 = (Inr n, s)"
    by (cases "read_node data 0") (auto simp: BPlusTreeNode_deserialize_def split: if_splits)
  then show ?thesis
    using Inr unfolding read_node_def Let_def
    by (auto simp: method_simps BPlusTreeNode_new_def split: if_splits dest!: srepeat_length)
qed

text \<open>
  leaf search. On a leaf sorted by key, inserting puts the pair at the place a linear scan would find, so the
  leaf stays sorted and its pairs are the old ones with the new one in front of the first key not below it; a lookup then returns
  the new RID for the inserted key and what it returned before for every other key.
\<close>
theorem BPlusTreeNode_insert_find:
  assumes "leaf_ok t n" "index_key t key" "index_key t k"
  shows "\<exists>n' old. BPlusTreeNode_insertInLeaf key p s n = Inr n' \<and> leaf_ok t n'
    \<and> leaf_pairs n' = insert_pair key (RID p s) (leaf_pairs n)
    \<and> BPlusTreeNode_findInLeaf k n = Inr old
    \<and> BPlusTreeNode_findInLeaf k n' = Inr (if rank k = rank key then Some (RID p s) else old)"
proof -
  obtain n' where n': "BPlusTreeNode_insertInLeaf key p s n = Inr n'" "leaf_ok t n'"
      "leaf_pairs n' = insert_pair key (RID p s) (leaf_pairs n)"
    using insertInLeaf_pairs [OF assms(1,2), of p s] by blast
  then show ?thesis
    using findInLeaf_pairs [OF assms(1,3)] findInLeaf_pairs [OF n'(2) assms(3)] by (simp add: lookup_insert_pair)
qed

theorem BPlusTreeNode_insert_find_witness:
  "\<exists>n' old. BPlusTreeNode_insertInLeaf (KInt 25) 5 6 sample_leaf = Inr n' \<and> leaf_ok INTEGER n'
    \<and> leaf_pairs n' = insert_pair (KInt 25) (RID 5 6) (leaf_pairs sample_leaf)
    \<and> BPlusTreeNode_findInLeaf (KInt 20) sample_leaf = Inr old
    \<and> BPlusTreeNode_findInLeaf (KInt 20) n' = Inr (if rank (KInt 20) = rank (KInt 25) then Some (RID 5 6) else old)"
  by (rule BPlusTreeNode_insert_find [OF sample_leaf_ok]) (simp_all add: index_key_def)

text \<open>
  splitting a full leaf loses nothing. The trimmed leaf followed by the new one holds the pairs of the
  leaf in order, both halves are non-empty, and the returned separator, the first key of the new leaf, is not below any key on its left and not above any on its right.
\<close>
theorem BPlusTreeNode_split_leaf:
  assumes "leaf_ok t n" "BPlusTreeNode_isFull n"
  shows "\<exists>k new left. BPlusTreeNode_splitLeafNode r n = Inr (k, new, left)
    \<and> leaf_ok t new \<and> leaf_ok t left \<and> leaf_pairs left @ leaf_pairs new = leaf_pairs n
    \<and> k = hd (bn_keys new) \<and> bn_keys new \<noteq> [] \<and> bn_keys left \<noteq> []
    \<and> (\<forall>x \<in> set (bn_keys left). rank x \<le> rank k) \<and> (\<forall>x \<in> set (bn_keys new). rank k \<le> rank x)
    \<and> bn_next_leaf left = Some r \<and> bn_next_leaf new = bn_next_leaf n"
  by (rule splitLeafNode_pairs [OF assms, of r]) blast

theorem BPlusTreeNode_split_leaf_witness:
  "\<exists>k new left. BPlusTreeNode_splitLeafNode (8 :: nat) (sample_leaf\<lparr>bn_keys := [KInt 10, KInt 20, KInt 25, KInt 30], bn_rids := [RID 1 0, RID 1 1, RID 5 6, RID 2 0]\<rparr>)
     = Inr (k, new, left) \<and> k = hd (bn_keys new) \<and> bn_next_leaf left = Some 8"
proof -
  let ?n = "sample_leaf\<lparr>bn_keys := [KInt 10, KInt 20, KInt 25, KInt 30], bn_rids := [RID 1 0, RID 1 1, RID 5 6, RID 2 0]\<rparr>"
  have "leaf_ok INTEGER ?n" "BPlusTreeNode_isFull ?n"
    by (simp_all add: leaf_ok_def sample_leaf_def BPlusTreeNode_new_def index_key_def less_eq_key_rank_def
        BPlusTreeNode_isFull_def ORDER_def)
  then show ?thesis using BPlusTreeNode_split_leaf [of INTEGER ?n 8] by blast
qed

end
