(* ===== verification/Index_Manager.thy ===== *)
theory Index_Manager
  imports Nodes Wal
begin

text \<open>
  \<open>indexmanager.hpp\<close> / \<open>indexmanager.cpp\<close>: the index file, one page per node behind a header page with the
  root pointer.

  The file is a list of bytes. Every read is preceded by a size check, so the stream never fails on a healthy disk. A node is
  written as soon as its log record is durable; the log is shared with the other stores. Node ids are C++ \<open>int\<close>s and offsets are
  computed in \<open>size_t\<close>, so the reserved id \<open>-1\<close> names the header page.
\<close>

record IndexManager =
  im_file :: "byte list"
  im_next_node_id :: int
  im_root_node_id :: int
  im_table_id :: u32

type_synonym index_state = "IndexManager \<times> Log"

definition ROOT_POINTER_PAGE_ID :: int where "ROOT_POINTER_PAGE_ID = -1"
definition ROOT_LSN_OFFSET :: nat where "ROOT_LSN_OFFSET = 12"

definition IndexManager_nodeOffset :: "int \<Rightarrow> nat" where
  "IndexManager_nodeOffset node_id = nat ((int PAGE_SIZE + node_id * int PAGE_SIZE) mod 2 ^ 64)"

text \<open>The id counter \<open>openFile\<close> derives from the file size.\<close>

definition IndexManager_openFile :: "byte list \<Rightarrow> int" where
  "IndexManager_openFile bs = (if length bs > PAGE_SIZE then int ((length bs - PAGE_SIZE) div PAGE_SIZE) else 0)"

definition IndexManager_currentHeaderBytes :: "byte list \<Rightarrow> byte list" where
  "IndexManager_currentHeaderBytes bs =
     (if length bs < PAGE_SIZE then overwrite (replicate PAGE_SIZE 0) 0 (le_int (-1)) else chunk 0 PAGE_SIZE bs)"

definition IndexManager_new :: "byte list \<Rightarrow> u32 \<Rightarrow> IndexManager" where
  "IndexManager_new bs table_id =
     (let header = IndexManager_currentHeaderBytes bs in
      \<lparr>im_file = (if length bs < PAGE_SIZE then header else bs), im_next_node_id = IndexManager_openFile bs,
       im_root_node_id = int_of_le (chunk 0 4 header), im_table_id = table_id\<rparr>)"

definition IndexManager_allocateNodeID :: "(index_state, int) effect" where
  "IndexManager_allocateNodeID =
     sbind (sget (\<lambda>(im, lg). im_next_node_id im)) (\<lambda>i.
     sbind (smodify (\<lambda>(im, lg). (im\<lparr>im_next_node_id := i + 1\<rparr>, lg))) (\<lambda>_. sreturn i))"

definition IndexManager_ensureFileSize :: "nat \<Rightarrow> byte list \<Rightarrow> byte list" where
  "IndexManager_ensureFileSize sz bs = (if length bs < sz then bs @ replicate (sz - length bs) 0 else bs)"

definition IndexManager_readExistingBytes :: "int \<Rightarrow> byte list \<Rightarrow> byte list result" where
  "IndexManager_readExistingBytes node_id bs =
     (let offset = IndexManager_nodeOffset node_id in
      if length bs < (offset + PAGE_SIZE) mod 2 ^ 64 then Inr (replicate PAGE_SIZE 0)
      else if offset + PAGE_SIZE \<le> length bs then Inr (chunk offset PAGE_SIZE bs)
      else Inl (RuntimeError (''IndexManager::readExistingBytes: failed to read node '' @ string_of_int node_id)))"

text \<open>\<open>txns.appendRecord\<close> for a page of this index, followed by \<open>wal.flushUpTo\<close> of its LSN.\<close>

definition log_index_page :: "u64 \<Rightarrow> int \<Rightarrow> byte list \<Rightarrow> byte list \<Rightarrow> (index_state, u64) effect" where
  "log_index_page txn_id page_id old_data new_data = (\<lambda>(im, tm, w).
     let (lsn, tm, w) = TransactionManager_appendRecord tm w txn_id UPDATE INDEX page_id old_data new_data (im_table_id im) in
     (Inr lsn, im, tm, WALWriter_flushUpTo w lsn))"

definition IndexManager_saveNode ::
  "('r \<Rightarrow> int) \<Rightarrow> 'r BPlusTreeNode \<Rightarrow> u64 \<Rightarrow> (index_state, 'r BPlusTreeNode) effect" where
  "IndexManager_saveNode ids n txn_id =
     sbind (sget (\<lambda>(im, lg). im_file im)) (\<lambda>bs.
     sbind (slift (IndexManager_readExistingBytes (bn_node_id n) bs)) (\<lambda>old_data.
     sbind (slift (BPlusTreeNode_serialize ids n)) (\<lambda>new_data.
     if length new_data > PAGE_SIZE then sthrow (RuntimeError ''Serialized node too large for a page'')
     else
       sbind (log_index_page txn_id (bn_node_id n) old_data new_data) (\<lambda>lsn.
       let n' = n\<lparr>bn_lsn := lsn\<rparr> in
       sbind (slift (BPlusTreeNode_serialize ids n')) (\<lambda>new_data.
       let offset = IndexManager_nodeOffset (bn_node_id n) in
       sbind (smodify (\<lambda>(im, lg). (im\<lparr>im_file := overwrite (IndexManager_ensureFileSize (offset + PAGE_SIZE) (im_file im)) offset
          (new_data @ replicate (PAGE_SIZE - length new_data) 0)\<rparr>, lg))) (\<lambda>_.
       sreturn n'))))))"

definition IndexManager_loadNode :: "int \<Rightarrow> (index_state, int BPlusTreeNode) effect" where
  "IndexManager_loadNode node_id =
     sbind (sget (\<lambda>(im, lg). im_file im)) (\<lambda>bs.
     let offset = IndexManager_nodeOffset node_id in
     if length bs < (offset + PAGE_SIZE) mod 2 ^ 64
     then sthrow (RuntimeError (''IndexManager::loadNode: node_id '' @ string_of_int node_id @ '' was never saved (index file too small)''))
     else if offset + PAGE_SIZE > length bs
     then sthrow (RuntimeError (''IndexManager::loadNode: failed to read node '' @ string_of_int node_id))
     else sbind (slift (BPlusTreeNode_deserialize (chunk offset PAGE_SIZE bs))) (\<lambda>n. sreturn (n\<lparr>bn_node_id := node_id\<rparr>)))"

definition IndexManager_hasData :: "IndexManager \<Rightarrow> bool" where
  "IndexManager_hasData im \<longleftrightarrow> im_root_node_id im \<ge> 0"

definition IndexManager_getRootNodeID :: "IndexManager \<Rightarrow> int" where
  "IndexManager_getRootNodeID im = im_root_node_id im"

definition IndexManager_setRootNodeID :: "int \<Rightarrow> u64 \<Rightarrow> (index_state, unit) effect" where
  "IndexManager_setRootNodeID i txn_id =
     sbind (sget (\<lambda>(im, lg). IndexManager_currentHeaderBytes (im_file im))) (\<lambda>old_header.
     sbind (smodify (\<lambda>(im, lg). (im\<lparr>im_root_node_id := i\<rparr>, lg))) (\<lambda>_.
     if int_of_le (chunk 0 4 old_header) = i then sreturn ()
     else
       let new_header = overwrite old_header 0 (le_int i) in
       sbind (log_index_page txn_id ROOT_POINTER_PAGE_ID old_header new_header) (\<lambda>lsn.
       let new_header = overwrite new_header ROOT_LSN_OFFSET (le_bytes 8 lsn) in
       smodify (\<lambda>(im, lg). (im\<lparr>im_file := overwrite (IndexManager_ensureFileSize PAGE_SIZE (im_file im)) 0 new_header\<rparr>, lg)))))"

section \<open>The nodes and the root pointer on file\<close>

definition node_ref_ok :: "int \<Rightarrow> bool" where
  "node_ref_ok i \<longleftrightarrow> 0 \<le> i \<and> i < 2 ^ 31 - 1"

definition slot :: "int \<Rightarrow> nat" where
  "slot i = PAGE_SIZE * Suc (nat i)"

definition index_ok :: "IndexManager \<Rightarrow> bool" where
  "index_ok im \<longleftrightarrow> PAGE_SIZE \<le> length (im_file im) \<and> length (im_file im) \<le> PAGE_SIZE * 2 ^ 31
     \<and> im_root_node_id im = int_of_le (chunk 0 4 (im_file im))"

definition index_view :: "IndexManager \<Rightarrow> int \<Rightarrow> int BPlusTreeNode option" where
  "index_view im i =
     (let offset = slot i in
      if node_ref_ok i \<and> offset + PAGE_SIZE \<le> length (im_file im)
      then (case BPlusTreeNode_deserialize (chunk offset PAGE_SIZE (im_file im)) of
              Inl e \<Rightarrow> None | Inr n \<Rightarrow> Some (n\<lparr>bn_node_id := i\<rparr>))
      else None)"

lemma slot_bound: "node_ref_ok i \<Longrightarrow> slot i + PAGE_SIZE \<le> PAGE_SIZE * 2 ^ 31"
  by (auto simp: node_ref_ok_def slot_def PAGE_SIZE_def nat_le_iff)

lemma slot_nowrap: "node_ref_ok i \<Longrightarrow> (slot i + PAGE_SIZE) mod 18446744073709551616 = slot i + PAGE_SIZE"
  using slot_bound [of i] by (simp add: PAGE_SIZE_def)

lemma nodeOffset_ref: "node_ref_ok i \<Longrightarrow> IndexManager_nodeOffset i = slot i"
proof -
  assume i: "node_ref_ok i"
  then have eq: "int PAGE_SIZE + i * int PAGE_SIZE = int (slot i)"
    by (simp add: node_ref_ok_def slot_def algebra_simps)
  have "int (slot i) < 2 ^ 64"
    using slot_bound [OF i] by (simp add: PAGE_SIZE_def)
  with eq show ?thesis by (simp add: IndexManager_nodeOffset_def)
qed

lemma nodeOffset_root [simp]: "IndexManager_nodeOffset ROOT_POINTER_PAGE_ID = 0"
  by (simp add: IndexManager_nodeOffset_def ROOT_POINTER_PAGE_ID_def)

lemma loadNode_view:
  assumes "index_view im i = Some n"
  shows "IndexManager_loadNode i (im, lg) = (Inr n, im, lg)"
  using assms
  by (auto simp: index_view_def IndexManager_loadNode_def Let_def nodeOffset_ref slot_nowrap method_simps
      split: if_splits sum.splits)

lemma loadNode_unsaved:
  assumes "node_ref_ok i" "length (im_file im) < slot i + PAGE_SIZE"
  shows "IndexManager_loadNode i (im, lg) = (Inl (RuntimeError (''IndexManager::loadNode: node_id '' @ string_of_int i
    @ '' was never saved (index file too small)'')), im, lg)"
  using assms by (simp add: IndexManager_loadNode_def nodeOffset_ref slot_nowrap method_simps Let_def)

lemma length_index_ensure: "length (IndexManager_ensureFileSize sz bs) = max sz (length bs)"
  by (simp add: IndexManager_ensureFileSize_def)

lemma chunk_ensure: "off + n \<le> length bs \<Longrightarrow> chunk off n (IndexManager_ensureFileSize sz bs) = chunk off n bs"
  by (simp add: IndexManager_ensureFileSize_def)

text \<open>The page of a node in the file; a slot the file does not reach counts as zeros.\<close>

definition stored_page :: "byte list \<Rightarrow> int \<Rightarrow> byte list" where
  "stored_page bs i = (if slot i + PAGE_SIZE \<le> length bs then chunk (slot i) PAGE_SIZE bs else replicate PAGE_SIZE 0)"

lemma readExisting_ok: "node_ref_ok i \<Longrightarrow> IndexManager_readExistingBytes i bs = Inr (stored_page bs i)"
  by (simp add: IndexManager_readExistingBytes_def stored_page_def Let_def nodeOffset_ref slot_nowrap)

text \<open>The page a node is written to, in the file after the write.\<close>

definition put_node :: "byte list \<Rightarrow> int \<Rightarrow> byte list \<Rightarrow> byte list" where
  "put_node bs i page = (let offset = slot i in
     overwrite (IndexManager_ensureFileSize (offset + PAGE_SIZE) bs) offset page)"

lemma slots_disjoint: "nat i \<noteq> nat j \<Longrightarrow> slot i + PAGE_SIZE \<le> slot j \<or> slot j + PAGE_SIZE \<le> slot i"
  by (auto simp: slot_def PAGE_SIZE_def)

lemma slot_pos: "PAGE_SIZE \<le> slot i"
  by (simp add: slot_def)

lemma put_node_props:
  assumes "length page = PAGE_SIZE" "PAGE_SIZE \<le> length bs"
  shows "length (put_node bs i page) = max (slot i + PAGE_SIZE) (length bs)"
    and "chunk (slot i) PAGE_SIZE (put_node bs i page) = page"
    and "chunk 0 PAGE_SIZE (put_node bs i page) = chunk 0 PAGE_SIZE bs"
    and "\<lbrakk>nat j \<noteq> nat i; slot j + PAGE_SIZE \<le> length bs\<rbrakk> \<Longrightarrow>
      chunk (slot j) PAGE_SIZE (put_node bs i page) = chunk (slot j) PAGE_SIZE bs"
proof -
  let ?off = "slot i"
  have fits: "?off + length page \<le> length (IndexManager_ensureFileSize (?off + PAGE_SIZE) bs)"
    using assms by (simp add: length_index_ensure)
  then show "length (put_node bs i page) = max (?off + PAGE_SIZE) (length bs)"
    by (simp add: put_node_def Let_def length_index_ensure)
  show "chunk ?off PAGE_SIZE (put_node bs i page) = page"
    using fits assms(1) by (simp add: put_node_def Let_def)
  have "chunk 0 PAGE_SIZE (put_node bs i page) = chunk 0 PAGE_SIZE (IndexManager_ensureFileSize (?off + PAGE_SIZE) bs)"
    unfolding put_node_def Let_def using fits assms by (intro chunk_overwrite_disjoint) (simp_all add: length_index_ensure slot_pos)
  then show "chunk 0 PAGE_SIZE (put_node bs i page) = chunk 0 PAGE_SIZE bs"
    using assms(2) by (simp add: chunk_ensure)
  assume j: "nat j \<noteq> nat i" "slot j + PAGE_SIZE \<le> length bs"
  have "chunk (slot j) PAGE_SIZE (put_node bs i page)
      = chunk (slot j) PAGE_SIZE (IndexManager_ensureFileSize (?off + PAGE_SIZE) bs)"
    unfolding put_node_def Let_def using fits j slots_disjoint [OF j(1)] assms(1)
    by (intro chunk_overwrite_disjoint) (auto simp: length_index_ensure)
  then show "chunk (slot j) PAGE_SIZE (put_node bs i page) = chunk (slot j) PAGE_SIZE bs"
    using j(2) by (simp add: chunk_ensure)
qed

section \<open>Saving a node\<close>

text \<open>The log record of a page write, and the log after it.\<close>

definition index_record :: "u32 \<Rightarrow> TransactionManager \<Rightarrow> u64 \<Rightarrow> int \<Rightarrow> byte list \<Rightarrow> byte list \<Rightarrow> WALRecord" where
  "index_record table tm txn page old new = WALRecord_default\<lparr>wr_txn_id := txn, wr_type := UPDATE, wr_store := INDEX,
     wr_table_id := table, wr_page_id := page, wr_old_data := old, wr_new_data := new, wr_prev_lsn := tm_prev_lsn tm txn\<rparr>"

definition logged_durably :: "WALRecord \<Rightarrow> Log \<Rightarrow> Log \<Rightarrow> bool" where
  "logged_durably r lg lg' \<longleftrightarrow>
     ww_file (snd lg') = ww_file (snd lg) @ frame (r\<lparr>wr_lsn := ww_next_lsn (snd lg)\<rparr>)
     \<and> ww_durable (snd lg') = length (ww_file (snd lg')) \<and> ww_next_lsn (snd lg') = ww_next_lsn (snd lg) + 1
     \<and> tm_next_txn_id (fst lg') = tm_next_txn_id (fst lg)
     \<and> tm_last_lsn_per_txn (fst lg') = (tm_last_lsn_per_txn (fst lg))(wr_txn_id r \<mapsto> ww_next_lsn (snd lg))"

lemma logged_durablyD: "logged_durably r lg lg' \<Longrightarrow> ww_durable (snd lg') = length (ww_file (snd lg'))"
  by (simp add: logged_durably_def)

lemma log_index_page_ok:
  obtains lg' where "log_index_page txn page old new (im, lg) = (Inr (ww_next_lsn (snd lg)), im, lg')"
    "logged_durably (index_record (im_table_id im) (fst lg) txn page old new) lg lg'"
proof -
  obtain tm w where lg: "lg = (tm, w)" by fastforce
  define lg' where "lg' = snd (snd (log_index_page txn page old new (im, lg)))"
  show thesis
  proof (rule that [of lg'])
    show "log_index_page txn page old new (im, lg) = (Inr (ww_next_lsn (snd lg)), im, lg')"
      by (simp add: lg'_def lg log_index_page_def TransactionManager_appendRecord_def WALWriter_append_def)
    show "logged_durably (index_record (im_table_id im) (fst lg) txn page old new) lg lg'"
      by (simp add: lg'_def lg log_index_page_def TransactionManager_appendRecord_def WALWriter_append_def logged_durably_def
          index_record_def WALWriter_flushUpTo_def WALWriter_flush_def WALRecord_default_def)
  qed
qed

lemma node_storable_lsn [simp]: "node_storable ids (n\<lparr>bn_lsn := l\<rparr>) = node_storable ids n" "node_size (n\<lparr>bn_lsn := l\<rparr>) = node_size n"
  by (simp_all add: node_storable_def node_size_def)

definition node_page :: "('r \<Rightarrow> int) \<Rightarrow> 'r BPlusTreeNode \<Rightarrow> byte list" where
  "node_page ids n = node_header n @ node_body ids n @ replicate (PAGE_SIZE - node_size n) 0"

lemma length_node_page [simp]: "node_size n \<le> PAGE_SIZE \<Longrightarrow> length (node_page ids n) = PAGE_SIZE"
  by (simp add: node_page_def node_size_body [of n ids])

lemma serialize_page: "node_storable ids n \<Longrightarrow> node_size n \<le> PAGE_SIZE \<Longrightarrow> BPlusTreeNode_serialize ids n = Inr (node_page ids n)"
  by (simp add: serialize_image node_storable_def node_page_def)

lemma deserialize_page: "node_storable ids n \<Longrightarrow> node_size n \<le> PAGE_SIZE \<Longrightarrow> BPlusTreeNode_deserialize (node_page ids n) = Inr (node_image ids n)"
  by (simp add: deserialize_image node_page_def)

lemma saveNode_ok:
  assumes "node_storable ids n" "node_size n \<le> PAGE_SIZE" "node_ref_ok (bn_node_id n)" "PAGE_SIZE \<le> length (im_file im)"
  obtains lg' where
    "logged_durably (index_record (im_table_id im) (fst lg) txn (bn_node_id n) (stored_page (im_file im) (bn_node_id n)) (node_page ids n)) lg lg'"
    "IndexManager_saveNode ids n txn (im, lg) = (Inr (n\<lparr>bn_lsn := ww_next_lsn (snd lg)\<rparr>),
       im\<lparr>im_file := put_node (im_file im) (bn_node_id n) (node_page ids (n\<lparr>bn_lsn := ww_next_lsn (snd lg)\<rparr>))\<rparr>, lg')"
proof -
  let ?log = "log_index_page txn (bn_node_id n) (stored_page (im_file im) (bn_node_id n)) (node_page ids n)"
  obtain lg' where lg': "?log (im, lg) = (Inr (ww_next_lsn (snd lg)), im, lg')"
      "logged_durably (index_record (im_table_id im) (fst lg) txn (bn_node_id n) (stored_page (im_file im) (bn_node_id n)) (node_page ids n)) lg lg'"
    by (rule log_index_page_ok)
  have "IndexManager_saveNode ids n txn (im, lg) = (Inr (n\<lparr>bn_lsn := ww_next_lsn (snd lg)\<rparr>),
       im\<lparr>im_file := put_node (im_file im) (bn_node_id n) (node_page ids (n\<lparr>bn_lsn := ww_next_lsn (snd lg)\<rparr>))\<rparr>, lg')"
    using assms
    by (simp add: IndexManager_saveNode_def readExisting_ok method_simps serialize_page sbind_cases(1) [of ?log, OF lg'(1)] Let_def
        nodeOffset_ref put_node_def)
  then show thesis by (rule that [OF lg'(2)])
qed

lemma chunk_sub: "n \<le> m \<Longrightarrow> chunk 0 n (chunk 0 m bs) = chunk 0 n bs"
  by (simp add: chunk_def min_def)

lemma put_node_index:
  assumes "index_ok im" "node_ref_ok i" "length page = PAGE_SIZE"
  shows "index_ok (im\<lparr>im_file := put_node (im_file im) i page\<rparr>)"
proof -
  have len: "PAGE_SIZE \<le> length (im_file im)" "length (im_file im) \<le> PAGE_SIZE * 2 ^ 31"
    and root: "im_root_node_id im = int_of_le (chunk 0 4 (im_file im))"
    using assms(1) by (simp_all add: index_ok_def)
  have "chunk 0 4 (put_node (im_file im) i page) = chunk 0 4 (im_file im)"
    using arg_cong [OF put_node_props(3) [OF assms(3) len(1), of i], of "chunk 0 4"]
    by (simp add: chunk_sub PAGE_SIZE_def)
  with len root slot_bound [OF assms(2)] put_node_props(1) [OF assms(3) len(1), of i]
  show ?thesis by (simp add: index_ok_def)
qed

lemma put_node_view:
  assumes "index_ok im" "node_ref_ok i" "node_storable ids n" "node_size n \<le> PAGE_SIZE" "bn_node_id n = i"
  shows "index_view (im\<lparr>im_file := put_node (im_file im) i (node_page ids n)\<rparr>) i = Some (node_image ids n)"
    and "\<lbrakk>j \<noteq> i; index_view im j = Some m\<rbrakk> \<Longrightarrow> index_view (im\<lparr>im_file := put_node (im_file im) i (node_page ids n)\<rparr>) j = Some m"
proof -
  have page: "length (node_page ids n) = PAGE_SIZE" and len: "PAGE_SIZE \<le> length (im_file im)"
    using assms by (simp_all add: index_ok_def)
  note put = put_node_props [OF page len]
  show "index_view (im\<lparr>im_file := put_node (im_file im) i (node_page ids n)\<rparr>) i = Some (node_image ids n)"
    using assms(2-5) put(1,2) [of i]
    by (simp add: index_view_def Let_def deserialize_page node_image_def)
  assume j: "j \<noteq> i" "index_view im j = Some m"
  then have ref: "node_ref_ok j" and fits: "slot j + PAGE_SIZE \<le> length (im_file im)"
    by (auto simp: index_view_def Let_def split: if_splits)
  then have "nat j \<noteq> nat i" using j(1) assms(2) by (simp add: node_ref_ok_def eq_nat_nat_iff)
  then show "index_view (im\<lparr>im_file := put_node (im_file im) i (node_page ids n)\<rparr>) j = Some m"
    using j(2) ref fits put(1) [of i] put(4) [of j i]
    by (simp add: index_view_def Let_def)
qed

section \<open>The root pointer\<close>

definition root_page :: "byte list \<Rightarrow> int \<Rightarrow> u64 \<Rightarrow> byte list" where
  "root_page header i lsn = overwrite (overwrite header 0 (le_int i)) ROOT_LSN_OFFSET (le_bytes 8 lsn)"

lemma header_whole: "PAGE_SIZE \<le> length bs \<Longrightarrow> IndexManager_currentHeaderBytes bs = chunk 0 PAGE_SIZE bs"
  by (simp add: IndexManager_currentHeaderBytes_def)

lemma root_page_props:
  assumes "length header = PAGE_SIZE"
  shows "length (root_page header i lsn) = PAGE_SIZE" "chunk 0 4 (root_page header i lsn) = le_int i"
    "chunk ROOT_LSN_OFFSET 8 (root_page header i lsn) = le_bytes 8 lsn"
  using assms by (simp_all add: root_page_def ROOT_LSN_OFFSET_def PAGE_SIZE_def chunk_overwrite_disjoint)

lemma setRoot_same:
  assumes "index_ok im" "im_root_node_id im = i"
  shows "IndexManager_setRootNodeID i txn (im, lg) = (Inr (), im, lg)"
  using assms by (simp add: IndexManager_setRootNodeID_def method_simps index_ok_def header_whole chunk_sub PAGE_SIZE_def)

lemma setRoot_changed:
  assumes "index_ok im" "im_root_node_id im \<noteq> i"
  obtains lg' where
    "logged_durably (index_record (im_table_id im) (fst lg) txn ROOT_POINTER_PAGE_ID (chunk 0 PAGE_SIZE (im_file im))
       (overwrite (chunk 0 PAGE_SIZE (im_file im)) 0 (le_int i))) lg lg'"
    "IndexManager_setRootNodeID i txn (im, lg) = (Inr (), im\<lparr>im_root_node_id := i,
       im_file := overwrite (im_file im) 0 (root_page (chunk 0 PAGE_SIZE (im_file im)) i (ww_next_lsn (snd lg)))\<rparr>, lg')"
proof -
  let ?im = "im\<lparr>im_root_node_id := i\<rparr>"
  let ?old = "chunk 0 PAGE_SIZE (im_file im)" and ?new = "overwrite (chunk 0 PAGE_SIZE (im_file im)) 0 (le_int i)"
  have len: "PAGE_SIZE \<le> length (im_file im)" and ne: "int_of_le (chunk 0 4 ?old) \<noteq> i"
    using assms by (simp_all add: index_ok_def chunk_sub PAGE_SIZE_def)
  obtain lg' where lg': "log_index_page txn ROOT_POINTER_PAGE_ID ?old ?new (?im, lg) = (Inr (ww_next_lsn (snd lg)), ?im, lg')"
      "logged_durably (index_record (im_table_id ?im) (fst lg) txn ROOT_POINTER_PAGE_ID ?old ?new) lg lg'"
    by (rule log_index_page_ok)
  have "IndexManager_setRootNodeID i txn (im, lg) = (Inr (), im\<lparr>im_root_node_id := i,
       im_file := overwrite (im_file im) 0 (root_page ?old i (ww_next_lsn (snd lg)))\<rparr>, lg')"
    using ne len
    by (simp add: IndexManager_setRootNodeID_def header_whole method_simps Let_def root_page_def IndexManager_ensureFileSize_def
        sbind_cases(1) [of "log_index_page txn ROOT_POINTER_PAGE_ID ?old ?new", OF lg'(1)])
  with lg'(2) show thesis by (intro that [of lg']) simp_all
qed

lemma root_page_index:
  assumes "index_ok im" "int32 i"
    and im': "im' = im\<lparr>im_root_node_id := i, im_file := overwrite (im_file im) 0 (root_page (chunk 0 PAGE_SIZE (im_file im)) i l)\<rparr>"
  shows "index_ok im'" "index_view im' = index_view im"
proof -
  let ?p = "root_page (chunk 0 PAGE_SIZE (im_file im)) i l"
  have len: "PAGE_SIZE \<le> length (im_file im)" "length (im_file im) \<le> PAGE_SIZE * 2 ^ 31"
    using assms(1) by (simp_all add: index_ok_def)
  then have h: "length (chunk 0 PAGE_SIZE (im_file im)) = PAGE_SIZE" by simp
  note rp = root_page_props [OF h, of i l]
  have "chunk 0 4 (overwrite (im_file im) 0 ?p) = chunk 0 4 (chunk 0 PAGE_SIZE (overwrite (im_file im) 0 ?p))"
    by (simp add: chunk_sub PAGE_SIZE_def)
  also have "\<dots> = le_int i" using rp len by simp
  finally show "index_ok im'" using len rp assms(2) by (simp add: index_ok_def im')
  have "chunk (slot j) PAGE_SIZE (overwrite (im_file im) 0 ?p) = chunk (slot j) PAGE_SIZE (im_file im)"
    if "slot j + PAGE_SIZE \<le> length (im_file im)" for j
    using that len rp slot_pos [of j] by (intro chunk_overwrite_disjoint) simp_all
  then show "index_view im' = index_view im"
    using len rp by (auto simp: fun_eq_iff index_view_def im' Let_def)
qed

section \<open>The contract of the index manager\<close>

text \<open>
  A node store keeps one image per node id and a root id: saving a node replaces its image (stamped with an LSN) and
  keeps every other saved one, loading returns the image, setting the root changes nothing else.
\<close>

locale node_store =
  fixes save :: "('r \<Rightarrow> int) \<Rightarrow> 'r BPlusTreeNode \<Rightarrow> u64 \<Rightarrow> ('s, 'r BPlusTreeNode) effect"
    and load :: "int \<Rightarrow> ('s, int BPlusTreeNode) effect" and set_root :: "int \<Rightarrow> u64 \<Rightarrow> ('s, unit) effect"
    and inv :: "'s \<Rightarrow> bool" and view :: "'s \<Rightarrow> int \<Rightarrow> int BPlusTreeNode option" and root :: "'s \<Rightarrow> int"
  assumes save_ok: "inv s \<Longrightarrow> node_storable ids n \<Longrightarrow> node_size n \<le> PAGE_SIZE \<Longrightarrow> node_ref_ok (bn_node_id n) \<Longrightarrow>
      \<exists>l s'. save ids n txn s = (Inr (n\<lparr>bn_lsn := l\<rparr>), s') \<and> inv s' \<and> root s' = root s
        \<and> view s' (bn_node_id n) = Some (node_image ids (n\<lparr>bn_lsn := l\<rparr>))
        \<and> (\<forall>j m. j \<noteq> bn_node_id n \<longrightarrow> view s j = Some m \<longrightarrow> view s' j = Some m)"
    and load_ok: "inv s \<Longrightarrow> view s i = Some m \<Longrightarrow> load i s = (Inr m, s)"
    and root_ok: "inv s \<Longrightarrow> int32 i \<Longrightarrow> \<exists>s'. set_root i txn s = (Inr (), s') \<and> inv s' \<and> view s' = view s \<and> root s' = i"

interpretation ix: node_store IndexManager_saveNode IndexManager_loadNode IndexManager_setRootNodeID
  "\<lambda>s. index_ok (fst s)" "\<lambda>s. index_view (fst s)" "\<lambda>s. im_root_node_id (fst s)"
proof (unfold_locales, goal_cases)
  case (1 s ids n txn)
  obtain im lg where s: "s = (im, lg)" by (cases s)
  have ok: "index_ok im" and len: "PAGE_SIZE \<le> length (im_file im)" using 1(1) by (simp_all add: s index_ok_def)
  obtain lg' where save: "IndexManager_saveNode ids n txn (im, lg) = (Inr (n\<lparr>bn_lsn := ww_next_lsn (snd lg)\<rparr>),
       im\<lparr>im_file := put_node (im_file im) (bn_node_id n) (node_page ids (n\<lparr>bn_lsn := ww_next_lsn (snd lg)\<rparr>))\<rparr>, lg')"
    by (rule saveNode_ok [OF 1(2-4) len])
  show ?case
    using save put_node_view [OF ok 1(4), of ids "n\<lparr>bn_lsn := ww_next_lsn (snd lg)\<rparr>"] put_node_index [OF ok 1(4)] 1(2,3)
    by (auto simp: s)
next
  case (2 s i n)
  then show ?case using loadNode_view [of "fst s" i n "snd s"] by simp
next
  case (3 s i txn)
  obtain im lg where s: "s = (im, lg)" by (cases s)
  have ok: "index_ok im" using 3(1) by (simp add: s)
  show ?case
  proof (cases "im_root_node_id im = i")
    case True
    then show ?thesis using setRoot_same [OF ok] ok by (simp add: s)
  next
    case False
    obtain lg' where "IndexManager_setRootNodeID i txn (im, lg) = (Inr (), im\<lparr>im_root_node_id := i,
       im_file := overwrite (im_file im) 0 (root_page (chunk 0 PAGE_SIZE (im_file im)) i (ww_next_lsn (snd lg)))\<rparr>, lg')"
      by (rule setRoot_changed [OF ok False])
    then show ?thesis using root_page_index [OF ok 3(2) refl] by (simp add: s)
  qed
qed

section \<open>Opening an index file\<close>

lemma IndexManager_new_empty:
  shows "index_ok (IndexManager_new [] t)" "im_root_node_id (IndexManager_new [] t) = -1"
  by (simp_all add: IndexManager_new_def IndexManager_currentHeaderBytes_def index_ok_def PAGE_SIZE_def int32_def)

lemma IndexManager_new_view:
  assumes "index_ok im"
  shows "index_ok (IndexManager_new (im_file im) t)" "index_view (IndexManager_new (im_file im) t) = index_view im"
    "im_root_node_id (IndexManager_new (im_file im) t) = im_root_node_id im"
  using assms by (auto simp: IndexManager_new_def header_whole index_ok_def chunk_sub PAGE_SIZE_def fun_eq_iff index_view_def Let_def)

section \<open>Properties\<close>

definition sample_index :: index_state where
  "sample_index = (IndexManager_new [] 0, \<lparr>tm_next_txn_id = 2, tm_last_lsn_per_txn = [1 \<mapsto> 1]\<rparr>,
     \<lparr>ww_file = [], ww_durable = 0, ww_next_lsn = 2\<rparr>)"

lemma sample_index_ok: "index_ok (fst sample_index)"
  by (simp add: sample_index_def IndexManager_new_empty)

lemma sample_leaf_storable: "node_storable ids sample_leaf" "node_size sample_leaf \<le> PAGE_SIZE" "node_ref_ok (bn_node_id sample_leaf)"
  by (simp_all add: sample_leaf_def BPlusTreeNode_new_def node_storable_def node_size_def node_ref_ok_def int32_def wf_rid_def PAGE_SIZE_def)

text \<open>
  C36: a saved node is the node loaded. On an open index, saving a node that fits a page succeeds, loading its id
  afterwards returns its id, LSN, keys and RIDs or child ids, every other node that could be loaded before is loaded unchanged, and
  the same holds for an index manager freshly opened on the file, with the same root.
\<close>
theorem IndexManager_save_load:
  assumes "index_ok im" "node_storable ids n" "node_size n \<le> PAGE_SIZE" "node_ref_ok (bn_node_id n)"
  shows "\<exists>l im' lg'. IndexManager_saveNode ids n txn (im, lg) = (Inr (n\<lparr>bn_lsn := l\<rparr>), im', lg') \<and> index_ok im'
    \<and> IndexManager_loadNode (bn_node_id n) (im', lg') = (Inr (node_image ids (n\<lparr>bn_lsn := l\<rparr>)), im', lg')
    \<and> IndexManager_loadNode (bn_node_id n) (IndexManager_new (im_file im') t, lg2)
        = (Inr (node_image ids (n\<lparr>bn_lsn := l\<rparr>)), IndexManager_new (im_file im') t, lg2)
    \<and> (\<forall>j m. j \<noteq> bn_node_id n \<longrightarrow> index_view im j = Some m \<longrightarrow> IndexManager_loadNode j (im', lg') = (Inr m, im', lg'))
    \<and> IndexManager_getRootNodeID (IndexManager_new (im_file im') t) = IndexManager_getRootNodeID im"
proof -
  obtain l im' lg' where s: "IndexManager_saveNode ids n txn (im, lg) = (Inr (n\<lparr>bn_lsn := l\<rparr>), im', lg')" "index_ok im'"
      "im_root_node_id im' = im_root_node_id im" "index_view im' (bn_node_id n) = Some (node_image ids (n\<lparr>bn_lsn := l\<rparr>))"
      "\<And>j m. j \<noteq> bn_node_id n \<Longrightarrow> index_view im j = Some m \<Longrightarrow> index_view im' j = Some m"
    using ix.save_ok [of "(im, lg)" ids n txn] assms by auto
  show ?thesis
    using s IndexManager_new_view [OF s(2), of t] loadNode_view [of im'] loadNode_view [of "IndexManager_new (im_file im') t"]
    by (auto simp: IndexManager_getRootNodeID_def)
qed

theorem IndexManager_save_load_witness:
  "\<exists>l im' lg'. IndexManager_saveNode int sample_leaf 1 sample_index = (Inr (sample_leaf\<lparr>bn_lsn := l\<rparr>), im', lg')
    \<and> IndexManager_loadNode 7 (im', lg') = (Inr (node_image int (sample_leaf\<lparr>bn_lsn := l\<rparr>)), im', lg')"
  using IndexManager_save_load [OF sample_index_ok sample_leaf_storable, where txn = 1 and lg = "snd sample_index" and ids = int]
  by (fastforce simp: sample_leaf_def BPlusTreeNode_new_def)

lemma root_page_on_file:
  assumes "index_ok im"
  shows "chunk 0 PAGE_SIZE (overwrite (im_file im) 0 (root_page (chunk 0 PAGE_SIZE (im_file im)) i l))
      = root_page (chunk 0 PAGE_SIZE (im_file im)) i l"
proof -
  have "PAGE_SIZE \<le> length (im_file im)" using assms by (simp add: index_ok_def)
  then show ?thesis using root_page_props(1) [of "chunk 0 PAGE_SIZE (im_file im)" i l] by simp
qed

lemma setRoot_logged:
  assumes "index_ok im"
  shows "if im_root_node_id im = i then IndexManager_setRootNodeID i txn (im, lg) = (Inr (), im, lg)
       else \<exists>im' lg'. IndexManager_setRootNodeID i txn (im, lg) = (Inr (), im', lg')
        \<and> logged_durably (index_record (im_table_id im) (fst lg) txn (-1) (chunk 0 PAGE_SIZE (im_file im))
             (overwrite (chunk 0 PAGE_SIZE (im_file im)) 0 (le_int i))) lg lg'
        \<and> chunk 0 PAGE_SIZE (im_file im')
             = overwrite (overwrite (chunk 0 PAGE_SIZE (im_file im)) 0 (le_int i)) 12 (le_bytes 8 (ww_next_lsn (snd lg)))"
proof (cases "im_root_node_id im = i")
  case True
  then show ?thesis using setRoot_same [OF assms] by simp
next
  case False
  let ?h = "chunk 0 PAGE_SIZE (im_file im)"
  obtain lg' where "logged_durably (index_record (im_table_id im) (fst lg) txn ROOT_POINTER_PAGE_ID ?h (overwrite ?h 0 (le_int i))) lg lg'"
    "IndexManager_setRootNodeID i txn (im, lg) = (Inr (), im\<lparr>im_root_node_id := i,
       im_file := overwrite (im_file im) 0 (root_page ?h i (ww_next_lsn (snd lg)))\<rparr>, lg')"
    by (rule setRoot_changed [OF assms False])
  with False root_page_on_file [OF assms, of i "ww_next_lsn (snd lg)"] show ?thesis
    by (simp add: ROOT_POINTER_PAGE_ID_def) (simp add: root_page_def ROOT_LSN_OFFSET_def)
qed

text \<open>
  C19: the write-ahead rule of the index. Saving a node appends exactly one log record, whose before-image is the page the file held at the
  node's slot (zeros if the file did not reach it) and whose after-image is the node's page before it is stamped; the record is durable
  when the call returns, and the file then holds at that slot the node's page stamped with the record's LSN. The same holds for a root pointer
  that changes: the before-image is the header page on file, the after-image that page with the new root id in its first four bytes, and the header on file
  is the after-image with the record's LSN at offset 12. A root pointer that does not change is neither logged nor written.
\<close>
theorem IndexManager_write_ahead:
  assumes "index_ok im" "node_storable ids n" "node_size n \<le> PAGE_SIZE" "node_ref_ok (bn_node_id n)"
  shows "(\<exists>im' lg'. IndexManager_saveNode ids n txn (im, lg) = (Inr (n\<lparr>bn_lsn := ww_next_lsn (snd lg)\<rparr>), im', lg')
      \<and> logged_durably (index_record (im_table_id im) (fst lg) txn (bn_node_id n)
           (if slot (bn_node_id n) + PAGE_SIZE \<le> length (im_file im) then chunk (slot (bn_node_id n)) PAGE_SIZE (im_file im)
            else replicate PAGE_SIZE 0) (node_page ids n)) lg lg'
      \<and> im_file im' = put_node (im_file im) (bn_node_id n) (node_page ids (n\<lparr>bn_lsn := ww_next_lsn (snd lg)\<rparr>)))
    \<and> (if im_root_node_id im = i then IndexManager_setRootNodeID i txn (im, lg) = (Inr (), im, lg)
       else \<exists>im' lg'. IndexManager_setRootNodeID i txn (im, lg) = (Inr (), im', lg')
        \<and> logged_durably (index_record (im_table_id im) (fst lg) txn (-1) (chunk 0 PAGE_SIZE (im_file im))
             (overwrite (chunk 0 PAGE_SIZE (im_file im)) 0 (le_int i))) lg lg'
        \<and> chunk 0 PAGE_SIZE (im_file im')
             = overwrite (overwrite (chunk 0 PAGE_SIZE (im_file im)) 0 (le_int i)) 12 (le_bytes 8 (ww_next_lsn (snd lg))))"
proof (rule conjI [OF _ setRoot_logged [OF assms(1)]])
  have "PAGE_SIZE \<le> length (im_file im)" using assms(1) by (simp add: index_ok_def)
  then obtain lg' where
    "logged_durably (index_record (im_table_id im) (fst lg) txn (bn_node_id n) (stored_page (im_file im) (bn_node_id n)) (node_page ids n)) lg lg'"
    "IndexManager_saveNode ids n txn (im, lg) = (Inr (n\<lparr>bn_lsn := ww_next_lsn (snd lg)\<rparr>),
       im\<lparr>im_file := put_node (im_file im) (bn_node_id n) (node_page ids (n\<lparr>bn_lsn := ww_next_lsn (snd lg)\<rparr>))\<rparr>, lg')"
    by (rule saveNode_ok [OF assms(2-4)])
  then show "\<exists>im' lg'. IndexManager_saveNode ids n txn (im, lg) = (Inr (n\<lparr>bn_lsn := ww_next_lsn (snd lg)\<rparr>), im', lg')
      \<and> logged_durably (index_record (im_table_id im) (fst lg) txn (bn_node_id n)
           (if slot (bn_node_id n) + PAGE_SIZE \<le> length (im_file im) then chunk (slot (bn_node_id n)) PAGE_SIZE (im_file im)
            else replicate PAGE_SIZE 0) (node_page ids n)) lg lg'
      \<and> im_file im' = put_node (im_file im) (bn_node_id n) (node_page ids (n\<lparr>bn_lsn := ww_next_lsn (snd lg)\<rparr>))"
    unfolding stored_page_def [symmetric] by simp
qed

theorem IndexManager_write_ahead_witness:
  "(\<exists>im' lg'. IndexManager_saveNode int sample_leaf 1 sample_index = (Inr (sample_leaf\<lparr>bn_lsn := 2\<rparr>), im', lg')
     \<and> logged_durably (index_record 0 (fst (snd sample_index)) 1 7 (replicate PAGE_SIZE 0) (node_page int sample_leaf)) (snd sample_index) lg')
   \<and> (\<exists>im' lg'. IndexManager_setRootNodeID 7 1 sample_index = (Inr (), im', lg')
     \<and> ww_durable (snd lg') = length (ww_file (snd lg')))"
proof -
  have root: "im_root_node_id (fst sample_index) \<noteq> 7" by (simp add: sample_index_def IndexManager_new_empty)
  have s: "im_table_id (fst sample_index) = 0" "ww_next_lsn (snd (snd sample_index)) = 2" "bn_node_id sample_leaf = 7"
      "\<not> slot 7 + PAGE_SIZE \<le> length (im_file (fst sample_index))"
    by (simp_all add: sample_index_def sample_leaf_def BPlusTreeNode_new_def IndexManager_new_def IndexManager_currentHeaderBytes_def slot_def PAGE_SIZE_def)
  note wa = IndexManager_write_ahead [OF sample_index_ok sample_leaf_storable, where txn = 1 and lg = "snd sample_index" and ids = int and i = 7,
      unfolded prod.collapse s if_not_P [OF s(4)]]
  show ?thesis using wa root by (auto dest: logged_durablyD)
qed

end
