(* ===== verification/BPlus_Tree.thy ===== *)
theory BPlus_Tree
  imports Index_Manager
begin

text \<open>
  \<open>bplustree.hpp\<close> / \<open>bplustree.cpp\<close>: the B-link tree over a heap of nodes.

  A node pointer is the index of the node in \<open>bt_nodes\<close>; \<open>make_shared\<close> appends a node, and dereferencing a null pointer is
  \<open>UndefinedBehaviour\<close>. The state also has the operation's dirty set (the \<open>thread_local\<close> one of the source), the index
  manager the tree was opened on, if any, and the log the index manager writes to.

  The model runs one operation at a time, so latches and guards, which only order concurrent operations, have no state: every
  conditional latch request succeeds. A traversal does not change the heap, so one that follows more links than
  there are nodes has come back to a node and never ends; its bound is the number of nodes, and running out of it is \<open>Diverges\<close>.
\<close>

record BPlusTree =
  bt_nodes :: "nat BPlusTreeNode list"
  bt_root :: "nat option"
  bt_im :: "IndexManager option"
  bt_dirty :: "nat list"

type_synonym tree_node = "nat BPlusTreeNode"
type_synonym tree_state = "BPlusTree \<times> Log"

section \<open>The heap of nodes\<close>

definition get_node :: "nat \<Rightarrow> (tree_state, tree_node) effect" where
  "get_node r = (\<lambda>(t, lg). if r < length (bt_nodes t) then (Inr (bt_nodes t ! r), t, lg)
     else (Inl (UndefinedBehaviour ''dangling node pointer''), t, lg))"

definition set_node :: "nat \<Rightarrow> tree_node \<Rightarrow> (tree_state, unit) effect" where
  "set_node r n = smodify (\<lambda>(t, lg). (t\<lparr>bt_nodes := (bt_nodes t)[r := n]\<rparr>, lg))"

definition upd_node :: "nat \<Rightarrow> (tree_node \<Rightarrow> tree_node) \<Rightarrow> (tree_state, unit) effect" where
  "upd_node r f = sbind (get_node r) (\<lambda>n. set_node r (f n))"

definition make_node :: "tree_node \<Rightarrow> (tree_state, nat) effect" where
  "make_node n = (\<lambda>(t, lg). (Inr (length (bt_nodes t)), t\<lparr>bt_nodes := bt_nodes t @ [n]\<rparr>, lg))"

definition deref :: "nat option \<Rightarrow> (tree_state, nat) effect" where
  "deref p = (case p of None \<Rightarrow> sthrow (UndefinedBehaviour ''null node pointer'') | Some r \<Rightarrow> sreturn r)"

definition num_nodes :: "(tree_state, nat) effect" where
  "num_nodes = sget (\<lambda>(t, lg). length (bt_nodes t))"

definition markDirty :: "nat \<Rightarrow> (tree_state, unit) effect" where
  "markDirty r = smodify (\<lambda>(t, lg). (if r \<in> set (bt_dirty t) then t else t\<lparr>bt_dirty := bt_dirty t @ [r]\<rparr>, lg))"

text \<open>\<open>DirtyScope\<close>: the operation starts with an empty dirty set.\<close>

definition DirtyScope :: "(tree_state, unit) effect" where
  "DirtyScope = smodify (\<lambda>(t, lg). (t\<lparr>bt_dirty := []\<rparr>, lg))"

definition BPlusTree_snapshotRoot :: "(tree_state, nat option) effect" where
  "BPlusTree_snapshotRoot = sget (\<lambda>(t, lg). bt_root t)"

definition BPlusTree_swapRoot :: "nat option \<Rightarrow> (tree_state, unit) effect" where
  "BPlusTree_swapRoot r = smodify (\<lambda>(t, lg). (t\<lparr>bt_root := r\<rparr>, lg))"

definition BPlusTree_setParent :: "nat option \<Rightarrow> nat \<Rightarrow> (tree_state, unit) effect" where
  "BPlusTree_setParent child new_parent =
     (case child of None \<Rightarrow> sreturn () | Some r \<Rightarrow> upd_node r (\<lambda>n. n\<lparr>bn_parent := Some new_parent\<rparr>))"

definition BPlusTree_getParent :: "nat \<Rightarrow> (tree_state, nat option) effect" where
  "BPlusTree_getParent child =
     sbind (get_node child) (\<lambda>n.
     case bn_parent n of
       None \<Rightarrow> sreturn None
     | Some p \<Rightarrow> sbind (get_node p) (\<lambda>pn. sreturn (if bn_is_merged_away pn then None else Some p)))"

section \<open>Traversal\<close>

fun moveRight_from :: "nat \<Rightarrow> Key \<Rightarrow> nat \<Rightarrow> (tree_state, nat) effect" where
  "moveRight_from 0 key r = sthrow Diverges"
| "moveRight_from (Suc fuel) key r =
     sbind (get_node r) (\<lambda>n.
     case bn_high_key n of
       None \<Rightarrow> sreturn r
     | Some high \<Rightarrow>
         sbind (slift (Key_ge key high)) (\<lambda>ge.
         if ge then (case BPlusTreeNode_rightLink n of None \<Rightarrow> sreturn r | Some right \<Rightarrow> moveRight_from fuel key right)
         else sreturn r))"

definition BPlusTree_moveRight :: "Key \<Rightarrow> nat \<Rightarrow> (tree_state, nat) effect" where
  "BPlusTree_moveRight key r = sbind num_nodes (\<lambda>n. moveRight_from (Suc n) key r)"

text \<open>\<open>while (i < size && key >= keys[i]) ++i\<close>\<close>

fun child_index :: "Key \<Rightarrow> Key list \<Rightarrow> nat result" where
  "child_index key [] = Inr 0"
| "child_index key (k # ks) =
     bindE (Key_ge key k) (\<lambda>ge. if ge then bindE (child_index key ks) (\<lambda>i. Inr (Suc i)) else Inr 0)"

text \<open>The descent loop from a node already moved right; the nodes passed are pushed on \<open>visited\<close>, last one first.\<close>

fun descend_from :: "nat \<Rightarrow> Key \<Rightarrow> nat list \<Rightarrow> nat \<Rightarrow> (tree_state, nat \<times> nat list) effect" where
  "descend_from 0 key visited r = sthrow Diverges"
| "descend_from (Suc fuel) key visited r =
     sbind (get_node r) (\<lambda>n.
     if bn_is_leaf n then sreturn (r, visited)
     else
       sbind (slift (child_index key (bn_keys n))) (\<lambda>i.
       sbind (slift (vec_at (bn_children n) i)) (\<lambda>child.
       sbind (deref child) (\<lambda>c.
       sbind (BPlusTree_moveRight key c) (\<lambda>c.
       descend_from fuel key (r # visited) c)))))"

definition descend :: "Key \<Rightarrow> nat \<Rightarrow> (tree_state, nat \<times> nat list) effect" where
  "descend key root =
     sbind (BPlusTree_moveRight key root) (\<lambda>r.
     sbind num_nodes (\<lambda>n. descend_from (Suc n) key [] r))"

definition BPlusTree_search :: "Key \<Rightarrow> (tree_state, RID option) effect" where
  "BPlusTree_search key =
     sbind BPlusTree_snapshotRoot (\<lambda>root.
     case root of None \<Rightarrow> sreturn None
     | Some root \<Rightarrow>
         sbind (descend key root) (\<lambda>(leaf, _).
         sbind (get_node leaf) (\<lambda>n. slift (BPlusTreeNode_findInLeaf key n))))"

text \<open>The inner loop of \<open>rangeScan\<close>: the pairs of one leaf in range, and whether a key above \<open>high\<close> ended the scan.\<close>

fun scan_leaf :: "Key \<Rightarrow> Key \<Rightarrow> Key list \<Rightarrow> RID list \<Rightarrow> ((Key \<times> RID) list \<times> bool) result" where
  "scan_leaf low high [] rids = Inr ([], False)"
| "scan_leaf low high (k # ks) rids =
     bindE (Key_ge k low) (\<lambda>ge.
     bindE (if ge then Key_le k high else Inr False) (\<lambda>hit.
     bindE (if hit then bindE (vec_at rids 0) (\<lambda>r. Inr [(k, r)]) else Inr []) (\<lambda>here.
     bindE (Key_gt k high) (\<lambda>gt.
     if gt then Inr (here, True)
     else bindE (scan_leaf low high ks (tl rids)) (\<lambda>(rest, stop). Inr (here @ rest, stop))))))"

fun scan_from_leaf :: "nat \<Rightarrow> Key \<Rightarrow> Key \<Rightarrow> nat \<Rightarrow> (tree_state, (Key \<times> RID) list) effect" where
  "scan_from_leaf 0 low high r = sthrow Diverges"
| "scan_from_leaf (Suc fuel) low high r =
     sbind (get_node r) (\<lambda>n.
     sbind (slift (scan_leaf low high (bn_keys n) (bn_rids n))) (\<lambda>(here, stop).
     if stop then sreturn here
     else case bn_next_leaf n of
       None \<Rightarrow> sreturn here
     | Some next \<Rightarrow> sbind (scan_from_leaf fuel low high next) (\<lambda>rest. sreturn (here @ rest))))"

definition BPlusTree_rangeScan :: "Key \<Rightarrow> Key \<Rightarrow> (tree_state, (Key \<times> RID) list) effect" where
  "BPlusTree_rangeScan low high =
     sbind BPlusTree_snapshotRoot (\<lambda>root.
     case root of None \<Rightarrow> sreturn []
     | Some root \<Rightarrow>
         sbind (descend low root) (\<lambda>(leaf, _).
         sbind num_nodes (\<lambda>n. scan_from_leaf (Suc n) low high leaf)))"

fun leftmost_leaf :: "nat \<Rightarrow> nat \<Rightarrow> (tree_state, nat) effect" where
  "leftmost_leaf 0 r = sthrow Diverges"
| "leftmost_leaf (Suc fuel) r =
     sbind (get_node r) (\<lambda>n.
     if bn_is_leaf n then sreturn r
     else sbind (slift (vec_at (bn_children n) 0)) (\<lambda>child. sbind (deref child) (leftmost_leaf fuel)))"

fun collect_from_leaf :: "nat \<Rightarrow> nat \<Rightarrow> (tree_state, (Key \<times> RID) list) effect" where
  "collect_from_leaf 0 r = sthrow Diverges"
| "collect_from_leaf (Suc fuel) r =
     sbind (get_node r) (\<lambda>n.
     if length (bn_rids n) < length (bn_keys n) then sthrow (UndefinedBehaviour ''vector index'')
     else case bn_next_leaf n of
       None \<Rightarrow> sreturn (zip (bn_keys n) (bn_rids n))
     | Some next \<Rightarrow> sbind (collect_from_leaf fuel next) (\<lambda>rest. sreturn (zip (bn_keys n) (bn_rids n) @ rest)))"

definition BPlusTree_getAllKeyRIDPairs :: "(tree_state, (Key \<times> RID) list) effect" where
  "BPlusTree_getAllKeyRIDPairs =
     sbind BPlusTree_snapshotRoot (\<lambda>root.
     case root of None \<Rightarrow> sreturn []
     | Some root \<Rightarrow> sbind num_nodes (\<lambda>n. sbind (leftmost_leaf (Suc n) root) (collect_from_leaf (Suc n))))"

section \<open>Persistence\<close>

definition on_index :: "(index_state, 'a) effect \<Rightarrow> (tree_state, 'a) effect" where
  "on_index m = (\<lambda>(t, lg).
     case bt_im t of
       None \<Rightarrow> (Inl (UndefinedBehaviour ''null index manager''), t, lg)
     | Some im \<Rightarrow> (case m (im, lg) of (r, im', lg') \<Rightarrow> (r, t\<lparr>bt_im := Some im'\<rparr>, lg')))"

definition assign_id :: "nat \<Rightarrow> (tree_state, unit) effect" where
  "assign_id r =
     sbind (get_node r) (\<lambda>n.
     if bn_node_id n = -1
     then sbind (on_index IndexManager_allocateNodeID) (\<lambda>i. set_node r (n\<lparr>bn_node_id := i\<rparr>))
     else sreturn ())"

definition node_ids :: "tree_node list \<Rightarrow> nat \<Rightarrow> int" where
  "node_ids nodes r = bn_node_id (nodes ! r)"

definition save_one :: "u64 \<Rightarrow> nat \<Rightarrow> (tree_state, unit) effect" where
  "save_one txn_id r =
     sbind (get_node r) (\<lambda>n.
     sbind (sget (\<lambda>(t, lg). node_ids (bt_nodes t))) (\<lambda>ids.
     sbind (on_index (IndexManager_saveNode ids n txn_id)) (\<lambda>n'. set_node r n')))"

text \<open>The final \<open>im->flush()\<close> hands the stream's buffer to the operating system; the modelled file has no such buffer, so the call has no effect on it.\<close>

definition BPlusTree_saveDirty :: "u64 \<Rightarrow> (tree_state, unit) effect" where
  "BPlusTree_saveDirty caller_txn_id =
     sbind (sget (\<lambda>(t, lg). (bt_im t, bt_dirty t))) (\<lambda>(im, dirty).
     if im = None then sreturn ()
     else
       let auto_commit = (caller_txn_id = 0) in
       sbind (\<lambda>(t, tm, w). if auto_commit
            then (let (txn, tm, w) = TransactionManager_begin tm w in (Inr txn, t, tm, w))
            else (Inr caller_txn_id, t, tm, w)) (\<lambda>txn_id.
       sbind (sfor assign_id dirty) (\<lambda>_.
       sbind (sfor (save_one txn_id) dirty) (\<lambda>_.
       sbind BPlusTree_snapshotRoot (\<lambda>root.
       sbind (case root of None \<Rightarrow> sreturn (-1) | Some r \<Rightarrow> sbind (get_node r) (\<lambda>n. sreturn (bn_node_id n))) (\<lambda>root_id.
       sbind (on_index (IndexManager_setRootNodeID root_id txn_id)) (\<lambda>_.
       smodify (\<lambda>(t, tm, w). if auto_commit then (t, TransactionManager_commit tm w txn_id) else (t, tm, w)))))))))"

section \<open>Insertion\<close>

text \<open>The youngest ancestor hint that has not been merged away, and the hints below it on the stack.\<close>

fun live_hint :: "nat list \<Rightarrow> (tree_state, nat option \<times> nat list) effect" where
  "live_hint [] = sreturn (None, [])"
| "live_hint (c # hints) =
     sbind (get_node c) (\<lambda>n. if bn_is_merged_away n then live_hint hints else sreturn (Some c, hints))"

fun relink_from :: "nat \<Rightarrow> bool \<Rightarrow> nat \<Rightarrow> (tree_state, nat option) effect" where
  "relink_from 0 target_is_leaf current = sthrow Diverges"
| "relink_from (Suc fuel) target_is_leaf current =
     sbind (get_node current) (\<lambda>n.
     if bn_is_leaf n \<or> bn_children n = [] then sreturn None
     else case last (bn_children n) of
       None \<Rightarrow> sreturn None
     | Some rightmost_child \<Rightarrow>
         sbind (get_node rightmost_child) (\<lambda>c.
         if bn_is_leaf c = target_is_leaf then sreturn (Some current)
         else relink_from fuel target_is_leaf rightmost_child))"

definition BPlusTree_findAncestorForRelink :: "nat \<Rightarrow> (tree_state, nat option) effect" where
  "BPlusTree_findAncestorForRelink left_child =
     sbind BPlusTree_snapshotRoot (\<lambda>root.
     case root of None \<Rightarrow> sreturn None
     | Some root \<Rightarrow>
         if root = left_child then sreturn None
         else sbind (get_node left_child) (\<lambda>n. sbind num_nodes (\<lambda>k. relink_from (Suc k) (bn_is_leaf n) root)))"

text \<open>
  The walk of the root's leaf chain up to \<open>left_child\<close>: the leaves passed, the high keys between them, and whether
  \<open>left_child\<close> was reached.
\<close>

fun chain_prefix :: "nat \<Rightarrow> nat \<Rightarrow> nat option \<Rightarrow> (tree_state, nat list \<times> Key list \<times> bool) effect" where
  "chain_prefix 0 left_child leaf = sthrow Diverges"
| "chain_prefix (Suc fuel) left_child leaf =
     (case leaf of None \<Rightarrow> sreturn ([], [], False)
      | Some leaf \<Rightarrow>
          if leaf = left_child then sreturn ([leaf], [], True)
          else
            sbind (get_node leaf) (\<lambda>n.
            case bn_high_key n of
              None \<Rightarrow> sreturn ([leaf], [], False)
            | Some hk \<Rightarrow> sbind (chain_prefix fuel left_child (bn_next_leaf n)) (\<lambda>(cs, ks, found).
                sreturn (leaf # cs, hk # ks, found))))"

text \<open>
  The part of \<open>propagateSplit\<close> that finds the parent of \<open>left_child\<close>. \<open>None\<close>: a new root was made and the split is done.
\<close>

definition find_parent :: "nat list \<Rightarrow> nat \<Rightarrow> nat \<Rightarrow> Key \<Rightarrow> (tree_state, (nat \<times> nat list) option) effect" where
  "find_parent hints left_child right_child separator_key =
     sbind (live_hint hints) (\<lambda>(hint, hints).
     sbind (case hint of Some p \<Rightarrow> sreturn (Some p) | None \<Rightarrow> BPlusTree_getParent left_child) (\<lambda>hint.
     case hint of Some p \<Rightarrow> sreturn (Some (p, hints))
     | None \<Rightarrow>
         sbind BPlusTree_snapshotRoot (\<lambda>root.
         if root = Some left_child then
           sbind (make_node ((BPlusTreeNode_new False)\<lparr>bn_keys := [separator_key], bn_children := [Some left_child, Some right_child]\<rparr>)) (\<lambda>new_root.
           sbind (BPlusTree_swapRoot (Some new_root)) (\<lambda>_.
           sbind (markDirty new_root) (\<lambda>_.
           sbind (BPlusTree_setParent (Some left_child) new_root) (\<lambda>_.
           sbind (BPlusTree_setParent (Some right_child) new_root) (\<lambda>_.
           sreturn None)))))
         else
           sbind (deref root) (\<lambda>root.
           sbind (get_node root) (\<lambda>root_node.
           if bn_is_leaf root_node then
             sbind num_nodes (\<lambda>k.
             sbind (chain_prefix (Suc k) left_child (Some root)) (\<lambda>(cs, ks, found).
             if \<not> found then sthrow (RuntimeError ''propagateSplit: left_child not reachable via root's leaf chain -- tree structure corrupted'')
             else
               sbind (make_node ((BPlusTreeNode_new False)\<lparr>bn_keys := ks, bn_children := map Some cs\<rparr>)) (\<lambda>new_root.
               sbind (BPlusTree_swapRoot (Some new_root)) (\<lambda>_.
               sbind (markDirty new_root) (\<lambda>_.
               sbind (sfor (\<lambda>c. BPlusTree_setParent (Some c) new_root) cs) (\<lambda>_.
               sreturn (Some (new_root, hints))))))))
           else
             sbind (BPlusTree_findAncestorForRelink left_child) (\<lambda>anc.
             case anc of
               None \<Rightarrow> sthrow (RuntimeError ''propagateSplit: could not locate left_child's level via root's rightmost spine -- tree structure corrupted'')
             | Some p \<Rightarrow> sreturn (Some (p, hints))))))))"

text \<open>\<open>while (i < size && keys[i] < key) ++i\<close>\<close>

fun lower_index :: "Key \<Rightarrow> Key list \<Rightarrow> nat result" where
  "lower_index key [] = Inr 0"
| "lower_index key (k # ks) =
     bindE (Key_less k key) (\<lambda>lt. if lt then bindE (lower_index key ks) (\<lambda>i. Inr (Suc i)) else Inr 0)"

definition insert_child :: "nat \<Rightarrow> Key \<Rightarrow> nat \<Rightarrow> (tree_state, unit) effect" where
  "insert_child p key child =
     sbind (get_node p) (\<lambda>n.
     sbind (slift (lower_index key (bn_keys n))) (\<lambda>i.
     sbind (slift (vec_insert (bn_keys n) i key)) (\<lambda>ks.
     sbind (slift (vec_insert (bn_children n) (i + 1) (Some child))) (\<lambda>cs.
     set_node p (n\<lparr>bn_keys := ks, bn_children := cs\<rparr>)))))"

definition link_left :: "nat \<Rightarrow> nat \<Rightarrow> Key \<Rightarrow> Key \<Rightarrow> (tree_state, nat) effect" where
  "link_left p left_child nav_key separator_key =
     sbind (get_node p) (\<lambda>n.
     if Some left_child \<in> set (bn_children n) then
       sbind (BPlusTree_setParent (Some left_child) p) (\<lambda>_. sreturn p)
     else
       sbind (get_node left_child) (\<lambda>l.
       sbind (case bn_parent l of
                None \<Rightarrow> sreturn False
              | Some q \<Rightarrow> if q = p then sreturn False else sbind (get_node q) (\<lambda>qn. sreturn (\<not> bn_is_merged_away qn))) (\<lambda>elsewhere.
       if \<not> elsewhere then
         sbind (insert_child p nav_key left_child) (\<lambda>_.
         sbind (BPlusTree_setParent (Some left_child) p) (\<lambda>_. sreturn p))
       else
         sbind (deref (bn_parent l)) (\<lambda>q.
         sbind (BPlusTree_moveRight nav_key q) (\<lambda>q.
         sbind (BPlusTree_moveRight separator_key q) (\<lambda>q.
         sbind (BPlusTree_setParent (Some left_child) q) (\<lambda>_. sreturn q)))))))"

definition link_right :: "nat \<Rightarrow> nat \<Rightarrow> Key \<Rightarrow> (tree_state, unit) effect" where
  "link_right p right_child separator_key =
     sbind (get_node p) (\<lambda>n.
     sbind (if Some right_child \<in> set (bn_children n) then sreturn () else insert_child p separator_key right_child) (\<lambda>_.
     BPlusTree_setParent (Some right_child) p))"

text \<open>Splitting a full inner node \<open>p\<close>: the key to push up and the new right sibling.\<close>

definition split_parent :: "nat \<Rightarrow> (tree_state, Key \<times> nat) effect" where
  "split_parent p =
     sbind (get_node p) (\<lambda>n.
     sbind (slift (BPlusTreeNode_splitInternalNode n)) (\<lambda>(push_up_key, new, left).
     sbind (make_node new) (\<lambda>new_internal.
     sbind (set_node p left) (\<lambda>_.
     sbind (sfor (\<lambda>c. BPlusTree_setParent c new_internal) (bn_children new)) (\<lambda>_.
     sbind (upd_node new_internal (\<lambda>m. m\<lparr>bn_right_link := bn_right_link n, bn_high_key := bn_high_key n\<rparr>)) (\<lambda>_.
     sbind (upd_node p (\<lambda>m. m\<lparr>bn_right_link := Some new_internal, bn_high_key := Some push_up_key\<rparr>)) (\<lambda>_.
     sbind (markDirty new_internal) (\<lambda>_.
     sreturn (push_up_key, new_internal)))))))))"

fun propagate_from :: "nat \<Rightarrow> nat list \<Rightarrow> nat \<Rightarrow> nat \<Rightarrow> Key \<Rightarrow> (tree_state, unit) effect" where
  "propagate_from 0 hints left_child right_child separator_key = sthrow Diverges"
| "propagate_from (Suc fuel) hints left_child right_child separator_key =
     sbind (get_node left_child) (\<lambda>l.
     sbind (slift (vec_at (bn_keys l) 0)) (\<lambda>nav_key.
     sbind (find_parent hints left_child right_child separator_key) (\<lambda>found.
     case found of None \<Rightarrow> sreturn ()
     | Some (p, hints) \<Rightarrow>
         sbind (BPlusTree_moveRight nav_key p) (\<lambda>p.
         sbind (BPlusTree_moveRight separator_key p) (\<lambda>p.
         sbind (link_left p left_child nav_key separator_key) (\<lambda>p.
         sbind (link_right p right_child separator_key) (\<lambda>_.
         sbind (markDirty p) (\<lambda>_.
         sbind (get_node p) (\<lambda>n.
         if \<not> BPlusTreeNode_isFull n then sreturn ()
         else sbind (split_parent p) (\<lambda>(push_up_key, new_internal). propagate_from fuel hints p new_internal push_up_key)))))))))) "

definition BPlusTree_propagateSplit :: "nat list \<Rightarrow> nat \<Rightarrow> nat \<Rightarrow> Key \<Rightarrow> (tree_state, unit) effect" where
  "BPlusTree_propagateSplit hints left_child right_child separator_key =
     sbind num_nodes (\<lambda>n. propagate_from (Suc n) hints left_child right_child separator_key)"

definition ensure_root :: "(tree_state, nat) effect" where
  "ensure_root =
     sbind BPlusTree_snapshotRoot (\<lambda>root.
     case root of Some r \<Rightarrow> sreturn r
     | None \<Rightarrow> sbind (make_node (BPlusTreeNode_new True)) (\<lambda>r. sbind (BPlusTree_swapRoot (Some r)) (\<lambda>_. sreturn r)))"

text \<open>Splitting the leaf \<open>r\<close> when the insertion has filled it: the new right sibling and the separator.\<close>

definition split_leaf :: "nat \<Rightarrow> (tree_state, Key \<times> nat) effect" where
  "split_leaf r =
     sbind (get_node r) (\<lambda>n.
     sbind num_nodes (\<lambda>new_ref.
     sbind (slift (BPlusTreeNode_splitLeafNode new_ref n)) (\<lambda>(sk, new, left).
     sbind (make_node (new\<lparr>bn_high_key := bn_high_key n\<rparr>)) (\<lambda>new_leaf.
     sbind (set_node r (left\<lparr>bn_high_key := Some sk\<rparr>)) (\<lambda>_.
     sbind (markDirty new_leaf) (\<lambda>_.
     sreturn (sk, new_leaf)))))))"

definition insert_below :: "Key \<Rightarrow> int \<Rightarrow> int \<Rightarrow> nat \<Rightarrow> (tree_state, unit) effect" where
  "insert_below key page_id slot_id root =
     sbind (descend key root) (\<lambda>(leaf, hints).
     sbind (get_node leaf) (\<lambda>n.
     sbind (slift (BPlusTreeNode_insertInLeaf key page_id slot_id n)) (\<lambda>n'.
     sbind (set_node leaf n') (\<lambda>_.
     sbind (markDirty leaf) (\<lambda>_.
     if \<not> BPlusTreeNode_isFull n' then sreturn ()
     else sbind (split_leaf leaf) (\<lambda>(sk, new_leaf). BPlusTree_propagateSplit hints leaf new_leaf sk))))))"

definition BPlusTree_insert_mem :: "Key \<Rightarrow> int \<Rightarrow> int \<Rightarrow> (tree_state, unit) effect" where
  "BPlusTree_insert_mem key page_id slot_id =
     sbind DirtyScope (\<lambda>_. sbind ensure_root (insert_below key page_id slot_id))"

definition BPlusTree_insert :: "Key \<Rightarrow> int \<Rightarrow> int \<Rightarrow> u64 \<Rightarrow> (tree_state, unit) effect" where
  "BPlusTree_insert key page_id slot_id txn_id =
     sbind (BPlusTree_insert_mem key page_id slot_id) (\<lambda>_. BPlusTree_saveDirty txn_id)"

section \<open>Update\<close>

definition update_below :: "Key \<Rightarrow> int \<Rightarrow> int \<Rightarrow> nat \<Rightarrow> (tree_state, bool) effect" where
  "update_below key new_page_id new_slot_id root =
     sbind (descend key root) (\<lambda>(leaf, _).
     sbind (get_node leaf) (\<lambda>n.
     sbind (slift (BPlusTreeNode_updateInLeaf key new_page_id new_slot_id n)) (\<lambda>(found, n').
     sbind (set_node leaf n') (\<lambda>_.
     if found then sbind (markDirty leaf) (\<lambda>_. sreturn True) else sreturn False))))"

definition BPlusTree_update_mem :: "Key \<Rightarrow> int \<Rightarrow> int \<Rightarrow> (tree_state, bool) effect" where
  "BPlusTree_update_mem key new_page_id new_slot_id =
     sbind DirtyScope (\<lambda>_.
     sbind BPlusTree_snapshotRoot (\<lambda>root.
     case root of None \<Rightarrow> sreturn False | Some root \<Rightarrow> update_below key new_page_id new_slot_id root))"

definition BPlusTree_update :: "Key \<Rightarrow> int \<Rightarrow> int \<Rightarrow> u64 \<Rightarrow> (tree_state, bool) effect" where
  "BPlusTree_update key new_page_id new_slot_id txn_id =
     sbind (BPlusTree_update_mem key new_page_id new_slot_id) (\<lambda>found.
     if found then sbind (BPlusTree_saveDirty txn_id) (\<lambda>_. sreturn True) else sreturn False)"

section \<open>Removal\<close>

text \<open>A path is a list of nodes, the innermost first; \<open>path[path.size() - 2]\<close> is its second element.\<close>

fun separator_update :: "nat list \<Rightarrow> Key \<Rightarrow> Key \<Rightarrow> (tree_state, unit) effect" where
  "separator_update [] old_sep new_sep = sreturn ()"
| "separator_update (a # ancestors) old_sep new_sep =
     sbind (get_node a) (\<lambda>n.
     sbind (slift (find_key (bn_keys n) old_sep 0)) (\<lambda>pos.
     case pos of None \<Rightarrow> separator_update ancestors old_sep new_sep
     | Some i \<Rightarrow>
         sbind (set_node a (n\<lparr>bn_keys := (bn_keys n)[i := new_sep]\<rparr>)) (\<lambda>_.
         sbind (markDirty a) (\<lambda>_.
         sbind (slift (vec_at (bn_children n) i)) (\<lambda>child.
         sbind (deref child) (\<lambda>c.
         upd_node c (\<lambda>m. m\<lparr>bn_high_key := Some new_sep\<rparr>)))))))"

definition BPlusTree_propagateSeparatorUpdate :: "nat list \<Rightarrow> Key \<Rightarrow> Key \<Rightarrow> (tree_state, unit) effect" where
  "BPlusTree_propagateSeparatorUpdate path old_sep new_sep = separator_update (tl path) old_sep new_sep"

fun index_of :: "'a \<Rightarrow> 'a list \<Rightarrow> nat option" where
  "index_of x [] = None"
| "index_of x (y # ys) = (if x = y then Some 0 else map_option Suc (index_of x ys))"

definition sibling :: "tree_node \<Rightarrow> int \<Rightarrow> nat option" where
  "sibling parent i = (if 0 \<le> i \<and> nat i < length (bn_children parent) then bn_children parent ! nat i else None)"

definition opt_node :: "nat option \<Rightarrow> (tree_state, tree_node option) effect" where
  "opt_node p = (case p of None \<Rightarrow> sreturn None | Some r \<Rightarrow> sbind (get_node r) (\<lambda>n. sreturn (Some n)))"

definition markAll :: "nat list \<Rightarrow> (tree_state, unit) effect" where
  "markAll rs = sfor markDirty rs"

definition internal_borrow_left :: "nat \<Rightarrow> nat \<Rightarrow> nat \<Rightarrow> nat \<Rightarrow> (tree_state, unit) effect" where
  "internal_borrow_left node parent index left =
     sbind (get_node node) (\<lambda>n. sbind (get_node parent) (\<lambda>p. sbind (get_node left) (\<lambda>l.
     sbind (slift (vec_at (bn_keys p) (index - 1))) (\<lambda>sep.
     sbind (slift (vec_at (rev (bn_keys l)) 0)) (\<lambda>up.
     sbind (slift (vec_at (rev (bn_children l)) 0)) (\<lambda>moved.
     sbind (set_node node (n\<lparr>bn_keys := sep # bn_keys n, bn_children := moved # bn_children n\<rparr>)) (\<lambda>_.
     sbind (set_node parent (p\<lparr>bn_keys := (bn_keys p)[index - 1 := up]\<rparr>)) (\<lambda>_.
     sbind (set_node left (l\<lparr>bn_keys := butlast (bn_keys l), bn_children := butlast (bn_children l), bn_high_key := Some up\<rparr>)) (\<lambda>_.
     sbind (BPlusTree_setParent moved node) (\<lambda>_.
     markAll [node, left, parent]))))))))))"

definition internal_borrow_right :: "nat \<Rightarrow> nat \<Rightarrow> nat \<Rightarrow> nat \<Rightarrow> (tree_state, unit) effect" where
  "internal_borrow_right node parent index right =
     sbind (get_node node) (\<lambda>n. sbind (get_node parent) (\<lambda>p. sbind (get_node right) (\<lambda>r.
     sbind (slift (vec_at (bn_keys p) index)) (\<lambda>sep.
     sbind (slift (vec_at (bn_keys r) 0)) (\<lambda>up.
     sbind (slift (vec_at (bn_children r) 0)) (\<lambda>moved.
     sbind (set_node node (n\<lparr>bn_keys := bn_keys n @ [sep], bn_children := bn_children n @ [moved], bn_high_key := Some up\<rparr>)) (\<lambda>_.
     sbind (set_node parent (p\<lparr>bn_keys := (bn_keys p)[index := up]\<rparr>)) (\<lambda>_.
     sbind (set_node right (r\<lparr>bn_keys := tl (bn_keys r), bn_children := tl (bn_children r)\<rparr>)) (\<lambda>_.
     sbind (BPlusTree_setParent moved node) (\<lambda>_.
     markAll [node, right, parent]))))))))))"

text \<open>Merging the inner node \<open>r\<close> into its left neighbour \<open>l\<close>; \<open>i\<close> is the separator between them in the parent.\<close>

definition internal_merge :: "nat \<Rightarrow> nat \<Rightarrow> nat \<Rightarrow> nat \<Rightarrow> (tree_state, unit) effect" where
  "internal_merge l r parent i =
     sbind (get_node l) (\<lambda>ln. sbind (get_node r) (\<lambda>rn. sbind (get_node parent) (\<lambda>p.
     sbind (slift (vec_at (bn_keys p) i)) (\<lambda>sep.
     sbind (set_node l (ln\<lparr>bn_keys := bn_keys ln @ sep # bn_keys rn, bn_children := bn_children ln @ bn_children rn,
       bn_right_link := bn_right_link rn, bn_high_key := bn_high_key rn\<rparr>)) (\<lambda>_.
     sbind (sfor (\<lambda>c. BPlusTree_setParent c l) (bn_children rn)) (\<lambda>_.
     sbind (upd_node r (\<lambda>m. m\<lparr>bn_is_merged_away := True\<rparr>)) (\<lambda>_.
     sbind (slift (vec_erase (bn_keys p) i)) (\<lambda>ks.
     sbind (slift (vec_erase (bn_children p) (Suc i))) (\<lambda>cs.
     sbind (set_node parent (p\<lparr>bn_keys := ks, bn_children := cs\<rparr>)) (\<lambda>_.
     markAll [l, parent]))))))))))"

datatype rebalance = BorrowLeft nat | BorrowRight nat | MergeLeft nat | MergeRight nat | NoSibling

text \<open>
  The choice both underflow handlers make for the child \<open>index\<close> of \<open>parent\<close>: borrow from a sibling whose size exceeds the minimum, the left
  one first, otherwise merge with one, the left one first.
\<close>

definition choose_rebalance :: "(tree_node \<Rightarrow> nat) \<Rightarrow> nat \<Rightarrow> tree_node \<Rightarrow> nat \<Rightarrow> (tree_state, rebalance) effect" where
  "choose_rebalance sz minimum parent index =
     (let left_ptr = sibling parent (int index - 1); right_ptr = sibling parent (int index + 1) in
      sbind (opt_node left_ptr) (\<lambda>left.
      sbind (opt_node right_ptr) (\<lambda>right.
      sreturn (
        if left \<noteq> None \<and> sz (the left) > minimum then BorrowLeft (the left_ptr)
        else if right \<noteq> None \<and> sz (the right) > minimum then BorrowRight (the right_ptr)
        else if left \<noteq> None then MergeLeft (the left_ptr)
        else if right \<noteq> None then MergeRight (the right_ptr)
        else NoSibling))))"

definition collapse_root :: "nat \<Rightarrow> (tree_state, unit) effect" where
  "collapse_root survivor =
     sbind (upd_node survivor (\<lambda>m. m\<lparr>bn_parent := None\<rparr>)) (\<lambda>_. BPlusTree_swapRoot (Some survivor))"

fun BPlusTree_handleInternalUnderflow :: "nat list \<Rightarrow> (tree_state, unit) effect" where
  "BPlusTree_handleInternalUnderflow (node # parent # rest) =
     sbind (get_node parent) (\<lambda>p.
     case index_of (Some node) (bn_children p) of None \<Rightarrow> sreturn ()
     | Some index \<Rightarrow>
         sbind (choose_rebalance (\<lambda>n. length (bn_children n)) MIN_CHILDREN p index) (\<lambda>act.
         let cascade = (\<lambda>survivor.
               sbind (get_node parent) (\<lambda>p.
               if rest = [] \<and> bn_keys p = [] then collapse_root survivor
               else if BPlusTreeNode_isUnderflow p then BPlusTree_handleInternalUnderflow (parent # rest)
               else sreturn ())) in
         case act of
           BorrowLeft l \<Rightarrow> internal_borrow_left node parent index l
         | BorrowRight r \<Rightarrow> internal_borrow_right node parent index r
         | MergeLeft l \<Rightarrow> sbind (internal_merge l node parent (index - 1)) (\<lambda>_. cascade l)
         | MergeRight r \<Rightarrow> sbind (internal_merge node r parent index) (\<lambda>_. cascade node)
         | NoSibling \<Rightarrow> sreturn ()))"
| "BPlusTree_handleInternalUnderflow path = sreturn ()"

definition leaf_borrow_left :: "nat \<Rightarrow> nat \<Rightarrow> nat \<Rightarrow> nat \<Rightarrow> (tree_state, unit) effect" where
  "leaf_borrow_left node parent index left =
     sbind (get_node node) (\<lambda>n. sbind (get_node parent) (\<lambda>p. sbind (get_node left) (\<lambda>l.
     sbind (slift (vec_at (rev (bn_keys l)) 0)) (\<lambda>k.
     sbind (slift (vec_at (rev (bn_rids l)) 0)) (\<lambda>rid.
     sbind (slift (vec_set (bn_keys p) (index - 1) k)) (\<lambda>pks.
     sbind (set_node node (n\<lparr>bn_keys := k # bn_keys n, bn_rids := rid # bn_rids n\<rparr>)) (\<lambda>_.
     sbind (set_node parent (p\<lparr>bn_keys := pks\<rparr>)) (\<lambda>_.
     sbind (set_node left (l\<lparr>bn_keys := butlast (bn_keys l), bn_rids := butlast (bn_rids l), bn_high_key := Some k\<rparr>)) (\<lambda>_.
     markAll [node, left, parent])))))))))"

definition leaf_borrow_right :: "nat \<Rightarrow> nat \<Rightarrow> nat \<Rightarrow> nat \<Rightarrow> (tree_state, unit) effect" where
  "leaf_borrow_right node parent index right =
     sbind (get_node node) (\<lambda>n. sbind (get_node parent) (\<lambda>p. sbind (get_node right) (\<lambda>r.
     sbind (slift (vec_at (bn_keys r) 0)) (\<lambda>k.
     sbind (slift (vec_at (bn_rids r) 0)) (\<lambda>rid.
     sbind (slift (vec_at (bn_keys r) 1)) (\<lambda>first.
     sbind (slift (vec_set (bn_keys p) index first)) (\<lambda>pks.
     sbind (set_node node (n\<lparr>bn_keys := bn_keys n @ [k], bn_rids := bn_rids n @ [rid], bn_high_key := Some first\<rparr>)) (\<lambda>_.
     sbind (set_node parent (p\<lparr>bn_keys := pks\<rparr>)) (\<lambda>_.
     sbind (set_node right (r\<lparr>bn_keys := tl (bn_keys r), bn_rids := tl (bn_rids r)\<rparr>)) (\<lambda>_.
     markAll [node, right, parent]))))))))))"

definition leaf_merge :: "nat \<Rightarrow> nat \<Rightarrow> nat \<Rightarrow> nat \<Rightarrow> (tree_state, unit) effect" where
  "leaf_merge l r parent i =
     sbind (get_node l) (\<lambda>ln. sbind (get_node r) (\<lambda>rn. sbind (get_node parent) (\<lambda>p.
     sbind (set_node l (ln\<lparr>bn_keys := bn_keys ln @ bn_keys rn, bn_rids := bn_rids ln @ bn_rids rn,
       bn_next_leaf := bn_next_leaf rn, bn_high_key := bn_high_key rn\<rparr>)) (\<lambda>_.
     sbind (upd_node r (\<lambda>m. m\<lparr>bn_is_merged_away := True\<rparr>)) (\<lambda>_.
     sbind (slift (vec_erase (bn_children p) (Suc i))) (\<lambda>cs.
     sbind (slift (vec_erase (bn_keys p) i)) (\<lambda>ks.
     sbind (set_node parent (p\<lparr>bn_keys := ks, bn_children := cs\<rparr>)) (\<lambda>_.
     markAll [l, parent]))))))))"

definition BPlusTree_handleLeafUnderflow :: "nat list \<Rightarrow> (tree_state, unit) effect" where
  "BPlusTree_handleLeafUnderflow path =
     (case path of
        node # parent # rest \<Rightarrow>
          sbind (get_node parent) (\<lambda>p.
          case index_of (Some node) (bn_children p) of None \<Rightarrow> sreturn ()
          | Some index \<Rightarrow>
              sbind (choose_rebalance (\<lambda>n. length (bn_keys n)) MIN_KEYS p index) (\<lambda>act.
              let cascade = (\<lambda>survivor.
                    sbind (get_node parent) (\<lambda>p.
                    if rest = [] \<and> bn_keys p = [] then collapse_root survivor
                    else if BPlusTreeNode_isUnderflow p then BPlusTree_handleInternalUnderflow (parent # rest)
                    else sreturn ())) in
              case act of
                BorrowLeft l \<Rightarrow> leaf_borrow_left node parent index l
              | BorrowRight r \<Rightarrow> leaf_borrow_right node parent index r
              | MergeLeft l \<Rightarrow> sbind (leaf_merge l node parent (index - 1)) (\<lambda>_. cascade l)
              | MergeRight r \<Rightarrow> sbind (leaf_merge node r parent index) (\<lambda>_. cascade node)
              | NoSibling \<Rightarrow> sreturn ()))
      | _ \<Rightarrow> sreturn ())"

text \<open>Taking the pair at \<open>idx\<close> out of the leaf that ends \<open>path\<close>, with the separator fix-up for a leaf that lost its first key.\<close>

definition erase_in_leaf :: "nat list \<Rightarrow> nat \<Rightarrow> Key \<Rightarrow> nat \<Rightarrow> (tree_state, unit) effect" where
  "erase_in_leaf path leaf key idx =
     sbind (get_node leaf) (\<lambda>n.
     sbind (slift (vec_erase (bn_keys n) idx)) (\<lambda>ks.
     sbind (slift (vec_erase (bn_rids n) idx)) (\<lambda>rs.
     sbind (set_node leaf (n\<lparr>bn_keys := ks, bn_rids := rs\<rparr>)) (\<lambda>_.
     sbind (markDirty leaf) (\<lambda>_.
     if idx \<noteq> 0 then sreturn ()
     else if ks \<noteq> [] then BPlusTree_propagateSeparatorUpdate path key (hd ks)
     else case bn_next_leaf n of
       None \<Rightarrow> sreturn ()
     | Some next \<Rightarrow> sbind (get_node next) (\<lambda>m.
         if bn_keys m \<noteq> [] then BPlusTree_propagateSeparatorUpdate path key (hd (bn_keys m)) else sreturn ()))))))"

definition BPlusTree_remove :: "Key \<Rightarrow> u64 \<Rightarrow> (tree_state, bool) effect" where
  "BPlusTree_remove key txn_id =
     sbind DirtyScope (\<lambda>_.
     sbind BPlusTree_snapshotRoot (\<lambda>root.
     case root of None \<Rightarrow> sreturn False
     | Some root \<Rightarrow>
         sbind (descend key root) (\<lambda>(leaf, ancestors).
         let path = leaf # ancestors in
         sbind (get_node leaf) (\<lambda>n.
         sbind (slift (find_key (bn_keys n) key 0)) (\<lambda>pos.
         case pos of None \<Rightarrow> sreturn False
         | Some idx \<Rightarrow>
             sbind (erase_in_leaf path leaf key idx) (\<lambda>_.
             sbind (get_node leaf) (\<lambda>n.
             if ancestors = [] \<and> bn_keys n = [] \<and> bn_next_leaf n = None then
               sbind (BPlusTree_swapRoot None) (\<lambda>_.
               sbind (BPlusTree_saveDirty txn_id) (\<lambda>_. sreturn True))
             else
               sbind (if BPlusTreeNode_isUnderflow n then BPlusTree_handleLeafUnderflow path else sreturn ()) (\<lambda>_.
               sbind (BPlusTree_saveDirty txn_id) (\<lambda>_. sreturn True))))))))) "

section \<open>Loading\<close>

text \<open>
  \<open>loadRecursive\<close>, which follows the child ids on file; \<open>fuel\<close> bounds the depth.
\<close>

fun loadRecursive_from :: "nat \<Rightarrow> int \<Rightarrow> (tree_state, nat) effect" where
  "loadRecursive_from 0 node_id = sthrow Diverges"
| "loadRecursive_from (Suc fuel) node_id =
     sbind (on_index (IndexManager_loadNode node_id)) (\<lambda>img.
     sbind (make_node ((BPlusTreeNode_new (bn_is_leaf img))\<lparr>bn_node_id := bn_node_id img, bn_lsn := bn_lsn img,
        bn_keys := bn_keys img, bn_rids := bn_rids img\<rparr>)) (\<lambda>r.
     sbind (if bn_is_leaf img then sreturn ()
            else sfor (\<lambda>child.
              sbind (case child of
                  None \<Rightarrow> sreturn None
                | Some i \<Rightarrow>
                    sbind (loadRecursive_from fuel i) (\<lambda>c.
                    sbind (BPlusTree_setParent (Some c) r) (\<lambda>_. sreturn (Some c)))) (\<lambda>c.
              upd_node r (\<lambda>n. n\<lparr>bn_children := bn_children n @ [c]\<rparr>))) (bn_children img)) (\<lambda>_.
     sreturn r)))"

text \<open>The first element is the fuel: a tree cannot be deeper than the file has pages.\<close>

definition BPlusTree_loadRecursive :: "int \<Rightarrow> (tree_state, nat) effect" where
  "BPlusTree_loadRecursive node_id =
     sbind (sget (\<lambda>(t, lg). case bt_im t of None \<Rightarrow> 0 | Some im \<Rightarrow> length (im_file im) div PAGE_SIZE)) (\<lambda>pages.
     loadRecursive_from (Suc pages) node_id)"

fun leaves_from :: "nat \<Rightarrow> nat option \<Rightarrow> (tree_state, nat list) effect" where
  "leaves_from 0 node = sthrow Diverges"
| "leaves_from (Suc fuel) node =
     (case node of None \<Rightarrow> sreturn []
      | Some r \<Rightarrow>
          sbind (get_node r) (\<lambda>n.
          if bn_is_leaf n then sreturn [r]
          else foldr (\<lambda>c rest. sbind (leaves_from fuel c) (\<lambda>ls. sbind rest (\<lambda>ms. sreturn (ls @ ms)))) (bn_children n) (sreturn [])))"

definition BPlusTree_collectLeavesInOrder :: "nat \<Rightarrow> (tree_state, nat list) effect" where
  "BPlusTree_collectLeavesInOrder r = sbind num_nodes (\<lambda>n. leaves_from (Suc n) (Some r))"

text \<open>One level of \<open>rebuildLinks\<close>: each node gets the first key of the next one as high key; the next level is returned.\<close>

fun relink_level :: "nat list \<Rightarrow> (tree_state, nat list) effect" where
  "relink_level [] = sreturn []"
| "relink_level (r # rs) =
     sbind (get_node r) (\<lambda>n.
     sbind (case rs of [] \<Rightarrow> sreturn None | next # _ \<Rightarrow> sbind (get_node next) (\<lambda>m.
              sreturn (if bn_keys m \<noteq> [] then Some (next, hd (bn_keys m)) else None))) (\<lambda>right.
     sbind (set_node r (case right of
          Some (next, k) \<Rightarrow> if bn_is_leaf n then n\<lparr>bn_high_key := Some k\<rparr> else n\<lparr>bn_right_link := Some next, bn_high_key := Some k\<rparr>
        | None \<Rightarrow> if bn_is_leaf n then n\<lparr>bn_high_key := None\<rparr> else n\<lparr>bn_right_link := None, bn_high_key := None\<rparr>)) (\<lambda>_.
     sbind (relink_level rs) (\<lambda>below.
     sreturn ((if bn_is_leaf n then [] else map the (filter (\<lambda>c. c \<noteq> None) (bn_children n))) @ below)))))"

fun relink_levels :: "nat \<Rightarrow> nat list \<Rightarrow> (tree_state, unit) effect" where
  "relink_levels fuel [] = sreturn ()"
| "relink_levels 0 level = sthrow Diverges"
| "relink_levels (Suc fuel) level = sbind (relink_level level) (relink_levels fuel)"

definition BPlusTree_rebuildLinks :: "(tree_state, unit) effect" where
  "BPlusTree_rebuildLinks =
     sbind BPlusTree_snapshotRoot (\<lambda>root.
     case root of None \<Rightarrow> sreturn ()
     | Some r \<Rightarrow>
         sbind (upd_node r (\<lambda>n. n\<lparr>bn_right_link := None, bn_high_key := None\<rparr>)) (\<lambda>_.
         sbind num_nodes (\<lambda>n. relink_levels (Suc n) [r])))"

fun chain_leaves :: "nat list \<Rightarrow> (tree_state, unit) effect" where
  "chain_leaves [] = sreturn ()"
| "chain_leaves (r # rs) =
     sbind (upd_node r (\<lambda>n. n\<lparr>bn_next_leaf := (case rs of [] \<Rightarrow> None | next # _ \<Rightarrow> Some next)\<rparr>)) (\<lambda>_. chain_leaves rs)"

definition BPlusTree_load :: "(tree_state, unit) effect" where
  "BPlusTree_load =
     sbind (on_index (sget (\<lambda>(im, lg). IndexManager_getRootNodeID im))) (\<lambda>root_id.
     if root_id < 0 then
       sbind (make_node (BPlusTreeNode_new True)) (\<lambda>r. BPlusTree_swapRoot (Some r))
     else
       sbind (BPlusTree_loadRecursive root_id) (\<lambda>r.
       sbind (BPlusTree_swapRoot (Some r)) (\<lambda>_.
       sbind (BPlusTree_collectLeavesInOrder r) (\<lambda>leaves.
       sbind (chain_leaves leaves) (\<lambda>_.
       BPlusTree_rebuildLinks)))))"

text \<open>The constructors: an in-memory tree, and a tree on an index file.\<close>

definition BPlusTree_new :: BPlusTree where
  "BPlusTree_new = \<lparr>bt_nodes = [BPlusTreeNode_new True], bt_root = Some 0, bt_im = None, bt_dirty = []\<rparr>"

definition BPlusTree_open :: "IndexManager \<Rightarrow> Log \<Rightarrow> unit result \<times> tree_state" where
  "BPlusTree_open im lg =
     (let t = \<lparr>bt_nodes = [], bt_root = None, bt_im = Some im, bt_dirty = []\<rparr> in
      if IndexManager_hasData im then BPlusTree_load (t, lg)
      else (Inr (), t\<lparr>bt_nodes := [BPlusTreeNode_new True], bt_root := Some 0\<rparr>, lg))"

end
