(* ===== verification/Tree_Search.thy ===== *)
theory Tree_Search
  imports BPlus_Tree
begin

text \<open>
  The shape of a B+ tree on the heap, and what its traversals return.

  \<open>btree\<close> is the tree the child pointers span, \<open>wf_tree\<close> its search-tree invariant with the bounds inherited from the separators above, and
  \<open>pairs\<close> its contents, leaf by leaf. A path from the root to the leaf responsible for a key splits the contents into pairs below and above the key;
  descents follow that path and never move right.
\<close>

datatype btree = Leaf nat | Inner nat "btree list"

primrec top_ref :: "btree \<Rightarrow> nat" where
  "top_ref (Leaf r) = r"
| "top_ref (Inner r cs) = r"

fun refs :: "btree \<Rightarrow> nat list" where
  "refs (Leaf r) = [r]"
| "refs (Inner r cs) = r # concat (map refs cs)"

fun leaves :: "btree \<Rightarrow> nat list" where
  "leaves (Leaf r) = [r]"
| "leaves (Inner r cs) = concat (map leaves cs)"

type_synonym nodes = "tree_node list"
type_synonym bound = "key_rank option"

definition pairs :: "nodes \<Rightarrow> btree \<Rightarrow> (Key \<times> RID) list" where
  "pairs h T = concat (map (\<lambda>r. leaf_pairs (h ! r)) (leaves T))"

section \<open>The invariant\<close>

definition ge_lo :: "bound \<Rightarrow> key_rank \<Rightarrow> bool" where
  "ge_lo lo x \<longleftrightarrow> (case lo of None \<Rightarrow> True | Some l \<Rightarrow> l \<le> x)"

definition gt_lo :: "bound \<Rightarrow> key_rank \<Rightarrow> bool" where
  "gt_lo lo x \<longleftrightarrow> (case lo of None \<Rightarrow> True | Some l \<Rightarrow> l < x)"

definition lt_hi :: "bound \<Rightarrow> key_rank \<Rightarrow> bool" where
  "lt_hi hi x \<longleftrightarrow> (case hi of None \<Rightarrow> True | Some u \<Rightarrow> x < u)"

definition high_ok :: "KeyTypeTag \<Rightarrow> bound \<Rightarrow> Key option \<Rightarrow> bool" where
  "high_ok ty hi hk \<longleftrightarrow> (case hk of None \<Rightarrow> True | Some k \<Rightarrow> index_key ty k \<and> (\<exists>u. hi = Some u \<and> u \<le> rank k))"

definition wf_leaf :: "KeyTypeTag \<Rightarrow> bound \<Rightarrow> bound \<Rightarrow> tree_node \<Rightarrow> bool" where
  "wf_leaf ty lo hi n \<longleftrightarrow> leaf_ok ty n \<and> distinct (map rank (bn_keys n)) \<and> length (bn_keys n) < ORDER
     \<and> (\<forall>k \<in> set (bn_keys n). ge_lo lo (rank k) \<and> lt_hi hi (rank k)) \<and> high_ok ty hi (bn_high_key n) \<and> \<not> bn_is_merged_away n"

definition wf_inner :: "KeyTypeTag \<Rightarrow> bound \<Rightarrow> nat list \<Rightarrow> tree_node \<Rightarrow> bool" where
  "wf_inner ty hi cs n \<longleftrightarrow> \<not> bn_is_leaf n \<and> bn_children n = map Some cs \<and> index_keys ty (bn_keys n)
     \<and> 0 < length (bn_keys n) \<and> length (bn_keys n) < ORDER \<and> high_ok ty hi (bn_high_key n) \<and> \<not> bn_is_merged_away n"

fun wf_tree :: "KeyTypeTag \<Rightarrow> nodes \<Rightarrow> bound \<Rightarrow> bound \<Rightarrow> btree \<Rightarrow> bool"
and wf_kids :: "KeyTypeTag \<Rightarrow> nodes \<Rightarrow> bound \<Rightarrow> Key list \<Rightarrow> bound \<Rightarrow> btree list \<Rightarrow> bool" where
  "wf_tree ty h lo hi (Leaf r) \<longleftrightarrow> r < length h \<and> wf_leaf ty lo hi (h ! r)"
| "wf_tree ty h lo hi (Inner r cs) \<longleftrightarrow> r < length h \<and> wf_inner ty hi (map top_ref cs) (h ! r)
     \<and> wf_kids ty h lo (bn_keys (h ! r)) hi cs"
| "wf_kids ty h lo ks hi [] \<longleftrightarrow> False"
| "wf_kids ty h lo [] hi (c # cs) \<longleftrightarrow> wf_tree ty h lo hi c \<and> cs = []"
| "wf_kids ty h lo (k # ks) hi (c # cs) \<longleftrightarrow> wf_tree ty h lo (Some (rank k)) c \<and> gt_lo lo (rank k) \<and> lt_hi hi (rank k)
     \<and> wf_kids ty h (Some (rank k)) ks hi cs"

text \<open>The leaves are chained through \<open>next_leaf\<close>.\<close>

fun linked :: "nodes \<Rightarrow> nat list \<Rightarrow> bool" where
  "linked h [] \<longleftrightarrow> True"
| "linked h [r] \<longleftrightarrow> bn_next_leaf (h ! r) = None"
| "linked h (r # r' # rs) \<longleftrightarrow> bn_next_leaf (h ! r) = Some r' \<and> linked h (r' # rs)"

definition tree_ok :: "KeyTypeTag \<Rightarrow> BPlusTree \<Rightarrow> btree \<Rightarrow> bool" where
  "tree_ok ty t T \<longleftrightarrow> bt_root t = Some (top_ref T) \<and> wf_tree ty (bt_nodes t) None None T \<and> distinct (refs T)
     \<and> linked (bt_nodes t) (leaves T) \<and> bn_parent (bt_nodes t ! top_ref T) = None"

text \<open>A tree represents an ordered list of pairs; the tree with no root is empty.\<close>

definition tree_rel :: "KeyTypeTag \<Rightarrow> BPlusTree \<Rightarrow> (Key \<times> RID) list \<Rightarrow> bool" where
  "tree_rel ty t ps \<longleftrightarrow> (bt_root t = None \<and> ps = []) \<or> (\<exists>T. tree_ok ty t T \<and> ps = pairs (bt_nodes t) T)"

section \<open>Separating the children at one of them\<close>

fun wf_pre :: "KeyTypeTag \<Rightarrow> nodes \<Rightarrow> bound \<Rightarrow> Key list \<Rightarrow> bound \<Rightarrow> btree list \<Rightarrow> bool" where
  "wf_pre ty h lo [] hi [] \<longleftrightarrow> True"
| "wf_pre ty h lo (k # ks) hi (c # cs) \<longleftrightarrow> wf_tree ty h lo (Some (rank k)) c \<and> gt_lo lo (rank k) \<and> lt_hi hi (rank k)
     \<and> wf_pre ty h (Some (rank k)) ks hi cs"
| "wf_pre ty h lo ks hi cs \<longleftrightarrow> False"

fun wf_suf :: "KeyTypeTag \<Rightarrow> nodes \<Rightarrow> bound \<Rightarrow> Key list \<Rightarrow> bound \<Rightarrow> btree list \<Rightarrow> bool" where
  "wf_suf ty h lo [] hi cs \<longleftrightarrow> cs = []"
| "wf_suf ty h lo (k # ks) hi cs \<longleftrightarrow> gt_lo lo (rank k) \<and> lt_hi hi (rank k) \<and> wf_kids ty h (Some (rank k)) ks hi cs"

definition last_bound :: "bound \<Rightarrow> Key list \<Rightarrow> bound" where
  "last_bound lo ks = (if ks = [] then lo else Some (rank (last ks)))"

definition next_bound :: "Key list \<Rightarrow> bound \<Rightarrow> bound" where
  "next_bound ks hi = (case ks of [] \<Rightarrow> hi | k # _ \<Rightarrow> Some (rank k))"

lemma bound_simps [simp]:
  "last_bound lo [] = lo" "last_bound lo (k # ks) = last_bound (Some (rank k)) ks" "last_bound lo (ks @ [k]) = Some (rank k)"
  "next_bound [] hi = hi" "next_bound (k # ks) hi = Some (rank k)"
  by (simp_all add: last_bound_def next_bound_def)

lemma wf_kids_append:
  "length ks1 = length cs1 \<Longrightarrow> wf_kids ty h lo (ks1 @ ks2) hi (cs1 @ cs2) \<longleftrightarrow>
     wf_pre ty h lo ks1 hi cs1 \<and> wf_kids ty h (last_bound lo ks1) ks2 hi cs2"
  by (induction ks1 cs1 arbitrary: lo rule: list_induct2) auto

lemma wf_kids_Cons: "wf_kids ty h lo ks hi (c # cs) \<longleftrightarrow> wf_tree ty h lo (next_bound ks hi) c \<and> wf_suf ty h lo ks hi cs"
  by (cases ks) auto

lemmas wf_kids_split = wf_kids_append wf_kids_Cons

lemma wf_kids_length: "wf_kids ty h lo ks hi cs \<Longrightarrow> length cs = Suc (length ks)"
proof (induction cs arbitrary: lo ks)
  case (Cons c cs)
  then show ?case by (cases ks) auto
qed simp

lemma wf_top: "wf_tree ty h lo hi T \<Longrightarrow> top_ref T < length h"
  by (cases T) auto

lemma top_in_refs: "top_ref T \<in> set (refs T)"
  by (cases T) auto

lemma leaves_sub_refs: "set (leaves T) \<subseteq> set (refs T)"
  by (induction T) auto

lemma wf_kids_mem:
  assumes "wf_kids ty h lo ks hi cs" "c \<in> set cs"
  obtains lo' hi' where "wf_tree ty h lo' hi' c"
  using assms
proof (induction cs arbitrary: lo ks)
  case (Cons d cs)
  then show ?case by (cases ks) auto
qed simp

lemma refs_bound: "wf_tree ty h lo hi T \<Longrightarrow> r \<in> set (refs T) \<Longrightarrow> r < length h"
proof (induction T arbitrary: lo hi)
  case (Inner p cs)
  then show ?case by (auto elim: wf_kids_mem)
qed simp

lemma length_refs: "wf_tree ty h lo hi T \<Longrightarrow> distinct (refs T) \<Longrightarrow> length (refs T) \<le> length h"
proof -
  assume a: "wf_tree ty h lo hi T" "distinct (refs T)"
  then have "length (refs T) = card (set (refs T))" by (simp add: distinct_card)
  also have "\<dots> \<le> card {..<length h}" using refs_bound [OF a(1)] by (intro card_mono) auto
  finally show ?thesis by simp
qed

lemma length_leaves: "length (leaves T) \<le> length (refs T)"
proof (induction T)
  case (Inner p cs)
  then have "length (concat (map leaves cs)) \<le> length (concat (map refs cs))"
    by (induction cs) (fastforce intro: add_mono)+
  then show ?case by simp
qed simp

section \<open>All keys of a subtree lie within its bounds\<close>

definition keys_in :: "nodes \<Rightarrow> btree \<Rightarrow> Key set" where
  "keys_in h T = (\<Union>r \<in> set (leaves T). set (bn_keys (h ! r)))"

lemma keys_in_simps [simp]:
  "keys_in h (Leaf r) = set (bn_keys (h ! r))" "keys_in h (Inner p cs) = (\<Union>c \<in> set cs. keys_in h c)"
  by (auto simp: keys_in_def)

lemma above_trans: "gt_lo lo l \<Longrightarrow> ge_lo (Some l) x \<Longrightarrow> ge_lo lo x"
  by (auto simp: ge_lo_def gt_lo_def split: option.splits)

lemma under_trans: "lt_hi hi u \<Longrightarrow> lt_hi (Some u) x \<Longrightarrow> lt_hi hi x"
  by (auto simp: lt_hi_def split: option.splits)

lemma wf_kids_bounds:
  assumes "\<And>c lo hi k. c \<in> set cs \<Longrightarrow> wf_tree ty h lo hi c \<Longrightarrow> k \<in> keys_in h c \<Longrightarrow> ge_lo lo (rank k) \<and> lt_hi hi (rank k)"
    and "wf_kids ty h lo ks hi cs" "c \<in> set cs" "k \<in> keys_in h c"
  shows "ge_lo lo (rank k) \<and> lt_hi hi (rank k)"
  using assms
proof (induction cs arbitrary: lo ks)
  case (Cons d cs)
  show ?case
  proof (cases ks)
    case Nil
    with Cons.prems show ?thesis by auto
  next
    case (Cons s ks')
    show ?thesis
    proof (cases "c = d")
      case True
      then have "ge_lo lo (rank k) \<and> lt_hi (Some (rank s)) (rank k)"
        using Cons.prems \<open>ks = s # ks'\<close> by (metis wf_kids.simps(3) list.set_intros(1))
      then show ?thesis using Cons.prems(2) \<open>ks = s # ks'\<close> by (auto intro: under_trans)
    next
      case False
      then have "ge_lo (Some (rank s)) (rank k) \<and> lt_hi hi (rank k)"
        using Cons.IH [of "Some (rank s)" ks'] Cons.prems \<open>ks = s # ks'\<close> by auto
      then show ?thesis using Cons.prems(2) \<open>ks = s # ks'\<close> by (auto intro: above_trans)
    qed
  qed
qed simp

lemma keys_bounds: "wf_tree ty h lo hi T \<Longrightarrow> k \<in> keys_in h T \<Longrightarrow> ge_lo lo (rank k) \<and> lt_hi hi (rank k)"
proof (induction T arbitrary: lo hi k)
  case (Inner p cs)
  then obtain c where c: "c \<in> set cs" "k \<in> keys_in h c" by auto
  show ?case
  proof (rule wf_kids_bounds [OF _ _ c])
    show "wf_kids ty h lo (bn_keys (h ! p)) hi cs" using Inner.prems by simp
  qed (rule Inner.IH)
qed (simp add: wf_leaf_def)

lemma kids_bounds:
  "wf_kids ty h lo ks hi cs \<Longrightarrow> c \<in> set cs \<Longrightarrow> k \<in> keys_in h c \<Longrightarrow> ge_lo lo (rank k) \<and> lt_hi hi (rank k)"
  by (rule wf_kids_bounds) (auto dest: keys_bounds)

section \<open>The path to the leaf responsible for a key\<close>

text \<open>
  \<open>path h T lo hi hs r lo' hi'\<close>: from \<open>T\<close> with bounds \<open>lo\<close> and \<open>hi\<close> through the inner nodes \<open>hs\<close> (innermost first) to
  the leaf \<open>r\<close>, whose bounds are \<open>lo'\<close> and \<open>hi'\<close>.
\<close>

inductive path :: "nodes \<Rightarrow> btree \<Rightarrow> bound \<Rightarrow> bound \<Rightarrow> nat list \<Rightarrow> nat \<Rightarrow> bound \<Rightarrow> bound \<Rightarrow> bool" for h where
  path_leaf: "path h (Leaf r) lo hi [] r lo hi"
| path_inner: "bn_keys (h ! p) = ks1 @ ks2 \<Longrightarrow> length ks1 = length cs1 \<Longrightarrow>
    path h c (last_bound lo ks1) (next_bound ks2 hi) hs r lo' hi' \<Longrightarrow> path h (Inner p (cs1 @ c # cs2)) lo hi (hs @ [p]) r lo' hi'"

lemma above_last_bound: "wf_pre ty h lo ks hi cs \<Longrightarrow> ge_lo (last_bound lo ks) x \<Longrightarrow> ge_lo lo x"
proof (induction ks arbitrary: lo cs)
  case (Cons k ks)
  then obtain c cs' where "cs = c # cs'" by (cases cs) auto
  with Cons show ?case by (auto intro: above_trans)
qed simp

lemma wf_pre_below:
  assumes "wf_pre ty h lo ks hi cs" "ge_lo (last_bound lo ks) x" "c \<in> set cs" "k \<in> keys_in h c"
  shows "rank k < x"
  using assms
proof (induction ks arbitrary: lo cs)
  case Nil
  then show ?case by (cases cs) auto
next
  case (Cons s ks)
  then obtain d cs' where cs: "cs = d # cs'" by (cases cs) auto
  then have wf: "wf_tree ty h lo (Some (rank s)) d" "wf_pre ty h (Some (rank s)) ks hi cs'" using Cons.prems(1) by auto
  show ?case
  proof (cases "c = d")
    case True
    have "rank k < rank s" using keys_bounds [OF wf(1)] Cons.prems(4) True by (simp add: lt_hi_def)
    moreover have "rank s \<le> x" using above_last_bound [OF wf(2)] Cons.prems(2) by (simp add: ge_lo_def)
    ultimately show ?thesis by simp
  next
    case False
    then show ?thesis using Cons.IH [OF wf(2)] Cons.prems cs by simp
  qed
qed

lemma wf_suf_above:
  assumes "wf_suf ty h lo ks hi cs" "lt_hi (next_bound ks hi) x" "c \<in> set cs" "k \<in> keys_in h c"
  shows "x < rank k"
proof (cases ks)
  case Nil
  with assms show ?thesis by simp
next
  case (Cons s ks')
  then have "wf_kids ty h (Some (rank s)) ks' hi cs" using assms(1) by simp
  then have "ge_lo (Some (rank s)) (rank k)"
    using kids_bounds [OF _ assms(3,4)] by blast
  then show ?thesis using assms(2) Cons by (simp add: ge_lo_def lt_hi_def)
qed

lemma path_splits:
  assumes "path h T lo hi hs r lo' hi'" "wf_tree ty h lo hi T" "ge_lo lo' x" "lt_hi hi' x"
  shows "\<exists>ls1 ls2. leaves T = ls1 @ r # ls2 \<and> (\<forall>q \<in> set ls1. \<forall>k \<in> set (bn_keys (h ! q)). rank k < x)
    \<and> (\<forall>q \<in> set ls2. \<forall>k \<in> set (bn_keys (h ! q)). x < rank k)
    \<and> ge_lo lo x \<and> lt_hi hi x \<and> wf_tree ty h lo' hi' (Leaf r) \<and> set hs \<subseteq> set (refs T)"
  using assms
proof (induction rule: path.induct)
  case (path_leaf r lo hi)
  then show ?case by (intro exI [of _ "[]"]) auto
next
  case (path_inner p ks1 ks2 cs1 c lo hi hs r lo' hi' cs2)
  have kids: "wf_pre ty h lo ks1 hi cs1" "wf_tree ty h (last_bound lo ks1) (next_bound ks2 hi) c"
      "wf_suf ty h (last_bound lo ks1) ks2 hi cs2"
    using path_inner.prems(1) path_inner.hyps(1,2) by (auto simp: wf_kids_split)
  obtain ls1 ls2 where IH: "leaves c = ls1 @ r # ls2" "\<forall>q \<in> set ls1. \<forall>k \<in> set (bn_keys (h ! q)). rank k < x"
      "\<forall>q \<in> set ls2. \<forall>k \<in> set (bn_keys (h ! q)). x < rank k" "ge_lo (last_bound lo ks1) x" "lt_hi (next_bound ks2 hi) x"
      "wf_tree ty h lo' hi' (Leaf r)" "set hs \<subseteq> set (refs c)"
    using path_inner.IH [OF kids(2) path_inner.prems(2,3)] by blast
  have lo: "rank k < x" if "q \<in> set (concat (map leaves cs1))" "k \<in> set (bn_keys (h ! q))" for q k
    using wf_pre_below [OF kids(1) IH(4)] that by (auto simp: keys_in_def)
  have hi: "x < rank k" if "q \<in> set (concat (map leaves cs2))" "k \<in> set (bn_keys (h ! q))" for q k
    using wf_suf_above [OF kids(3) IH(5)] that by (auto simp: keys_in_def)
  have "lt_hi hi x"
    using IH(5) kids(3) by (cases ks2) (auto intro: under_trans)
  moreover have "leaves (Inner p (cs1 @ c # cs2)) = (concat (map leaves cs1) @ ls1) @ r # ls2 @ concat (map leaves cs2)"
    by (simp add: IH(1))
  moreover have "\<forall>q \<in> set (concat (map leaves cs1) @ ls1). \<forall>k \<in> set (bn_keys (h ! q)). rank k < x"
    "\<forall>q \<in> set (ls2 @ concat (map leaves cs2)). \<forall>k \<in> set (bn_keys (h ! q)). x < rank k"
    using lo hi IH(2,3) by (auto simp del: set_concat set_map)
  moreover have "set (hs @ [p]) \<subseteq> set (refs (Inner p (cs1 @ c # cs2)))" using IH(7) by auto
  ultimately show ?case using above_last_bound [OF kids(1) IH(4)] IH(6) by blast
qed

section \<open>Descents follow the path\<close>

lemma get_node_ok [simp]: "r < length (bt_nodes t) \<Longrightarrow> get_node r (t, lg) = (Inr (bt_nodes t ! r), t, lg)"
  by (simp add: get_node_def)

lemma sbind_get_node [simp]: "r < length (bt_nodes t) \<Longrightarrow> sbind (get_node r) f (t, lg) = f (bt_nodes t ! r) (t, lg)"
  by (simp add: sbind_cases(1))

lemma sbind_num_nodes [simp]: "sbind num_nodes f (t, lg) = f (length (bt_nodes t)) (t, lg)"
  by (simp add: num_nodes_def)

lemma sbind_snapshot [simp]: "sbind BPlusTree_snapshotRoot f (t, lg) = f (bt_root t) (t, lg)"
  by (simp add: BPlusTree_snapshotRoot_def)

lemma moveRight_stays:
  assumes "r < length (bt_nodes t)" "high_ok ty hi (bn_high_key (bt_nodes t ! r))" "index_key ty key" "lt_hi hi (rank key)"
  shows "BPlusTree_moveRight key r (t, lg) = (Inr r, t, lg)"
proof (cases "bn_high_key (bt_nodes t ! r)")
  case None
  with assms(1) show ?thesis by (simp add: BPlusTree_moveRight_def sreturn_def)
next
  case (Some k)
  with assms(2) obtain u where "index_key ty k" "hi = Some u" "u \<le> rank k" by (auto simp: high_ok_def)
  with assms Some show ?thesis by (auto simp: BPlusTree_moveRight_def sreturn_def lt_hi_def)
qed

lemma wf_tree_high: "wf_tree ty h lo hi T \<Longrightarrow> high_ok ty hi (bn_high_key (h ! top_ref T))"
  by (cases T) (auto simp: wf_leaf_def wf_inner_def)

lemma moveRight_wf:
  assumes "wf_tree ty (bt_nodes t) lo hi T" "index_key ty key" "lt_hi hi (rank key)"
  shows "BPlusTree_moveRight key (top_ref T) (t, lg) = (Inr (top_ref T), t, lg)"
  using assms by (intro moveRight_stays [OF wf_top wf_tree_high])

lemma child_index_takeWhile:
  "index_keys ty ks \<Longrightarrow> index_key ty key \<Longrightarrow> child_index key ks = Inr (length (takeWhile (\<lambda>k. rank k \<le> rank key) ks))"
  by (induction ks) auto

lemma descend_path:
  assumes "wf_tree ty (bt_nodes t) lo hi T" "index_key ty key" "ge_lo lo (rank key)" "lt_hi hi (rank key)" "length (refs T) \<le> fuel"
  shows "\<exists>r hs lo' hi'. descend_from fuel key visited (top_ref T) (t, lg) = (Inr (r, hs @ visited), t, lg)
    \<and> path (bt_nodes t) T lo hi hs r lo' hi' \<and> ge_lo lo' (rank key) \<and> lt_hi hi' (rank key)"
  using assms
proof (induction T arbitrary: lo hi fuel visited)
  case (Leaf r)
  then obtain f where "fuel = Suc f" by (cases fuel) auto
  with Leaf have "descend_from fuel key visited (top_ref (Leaf r)) (t, lg) = (Inr (r, [] @ visited), t, lg)"
    by (simp add: wf_leaf_def leaf_ok_def sreturn_def)
  with Leaf show ?case by (blast intro: path_leaf)
next
  case (Inner p cs)
  let ?h = "bt_nodes t" and ?ks = "bn_keys (bt_nodes t ! p)"
  define ks1 where "ks1 = takeWhile (\<lambda>k. rank k \<le> rank key) ?ks"
  define ks2 where "ks2 = dropWhile (\<lambda>k. rank k \<le> rank key) ?ks"
  have ks: "?ks = ks1 @ ks2" by (simp add: ks1_def ks2_def)
  from Inner.prems(1) have p: "p < length ?h" "wf_inner ty hi (map top_ref cs) (?h ! p)" "wf_kids ty ?h lo ?ks hi cs" by auto
  define cs1 where "cs1 = take (length ks1) cs"
  have len: "length cs = Suc (length ?ks)" by (rule wf_kids_length [OF p(3)])
  have in_range: "length ks1 < length cs" using len ks by simp
  then have cs: "cs = cs1 @ cs ! length ks1 # drop (Suc (length ks1)) cs" and l1: "length ks1 = length cs1"
    unfolding cs1_def by (simp_all only: id_take_nth_drop [symmetric]) simp
  then obtain c cs2 where cs: "cs = cs1 @ c # cs2" by blast
  have kids: "wf_pre ty ?h lo ks1 hi cs1" "wf_tree ty ?h (last_bound lo ks1) (next_bound ks2 hi) c"
    using p(3) unfolding ks cs by (simp_all add: wf_kids_split l1)
  have lo: "ge_lo (last_bound lo ks1) (rank key)"
    using Inner.prems(3) set_takeWhileD [of "last ks1" "\<lambda>k. rank k \<le> rank key" ?ks] last_in_set [of ks1]
    by (auto simp: last_bound_def ge_lo_def ks1_def)
  have hi: "lt_hi (next_bound ks2 hi) (rank key)"
  proof (cases ks2)
    case Nil
    then show ?thesis using Inner.prems(4) by simp
  next
    case (Cons a l)
    then have "\<not> rank a \<le> rank key" unfolding ks2_def by (simp add: dropWhile_eq_Cons_conv)
    with Cons show ?thesis by (simp add: lt_hi_def)
  qed
  obtain f where f: "fuel = Suc f" using Inner.prems(5) by (cases fuel) auto
  have "length (refs c) \<le> f" using Inner.prems(5) by (simp add: cs f)
  then obtain r hs lo' hi' where IH: "descend_from f key (p # visited) (top_ref c) (t, lg) = (Inr (r, hs @ p # visited), t, lg)"
      "path ?h c (last_bound lo ks1) (next_bound ks2 hi) hs r lo' hi'" "ge_lo lo' (rank key)" "lt_hi hi' (rank key)"
    using Inner.IH [of c "last_bound lo ks1" "next_bound ks2 hi" f "p # visited"] kids(2) Inner.prems(2) lo hi cs by auto
  have idx: "child_index key ?ks = Inr (length ks1)"
    using p(2) Inner.prems(2) by (simp add: child_index_takeWhile [where ty = ty] wf_inner_def ks1_def)
  have child: "vec_at (bn_children (?h ! p)) (length ks1) = Inr (Some (top_ref c))"
    using p(2) by (simp add: wf_inner_def cs l1 nth_append)
  have nl: "\<not> bn_is_leaf (?h ! p)" using p(2) by (simp add: wf_inner_def)
  have "descend_from fuel key visited (top_ref (Inner p cs)) (t, lg) = (Inr (r, (hs @ [p]) @ visited), t, lg)"
    using p(1) IH(1) nl moveRight_wf [OF kids(2) Inner.prems(2) hi]
    by (simp add: f idx child deref_def sbind_cases(1))
  moreover have "path ?h (Inner p cs) lo hi (hs @ [p]) r lo' hi'"
    unfolding cs by (rule path_inner [OF ks l1 IH(2)])
  ultimately show ?case using IH(3,4) by blast
qed

lemma descend_ok:
  assumes "tree_ok ty t T" "index_key ty key"
  obtains r hs lo' hi' where "descend key (top_ref T) (t, lg) = (Inr (r, hs), t, lg)"
    "path (bt_nodes t) T None None hs r lo' hi'" "ge_lo lo' (rank key)" "lt_hi hi' (rank key)"
proof -
  have wf: "wf_tree ty (bt_nodes t) None None T" and d: "distinct (refs T)" using assms(1) by (simp_all add: tree_ok_def)
  have b: "ge_lo None (rank key)" "lt_hi None (rank key)" by (simp_all add: ge_lo_def lt_hi_def)
  have "length (refs T) \<le> Suc (length (bt_nodes t))" using length_refs [OF wf d] by simp
  then obtain r hs lo' hi' where "descend_from (Suc (length (bt_nodes t))) key [] (top_ref T) (t, lg) = (Inr (r, hs @ []), t, lg)"
      "path (bt_nodes t) T None None hs r lo' hi'" "ge_lo lo' (rank key)" "lt_hi hi' (rank key)"
    using descend_path [OF wf assms(2) b] by blast
  moreover have "descend key (top_ref T) (t, lg) = descend_from (Suc (length (bt_nodes t))) key [] (top_ref T) (t, lg)"
    using moveRight_wf [OF wf assms(2) b(2)] by (simp add: descend_def sbind_cases(1) del: descend_from.simps)
  ultimately show thesis by (intro that [of r hs lo' hi']) simp_all
qed

section \<open>Ordered lists of pairs\<close>

text \<open>The pairs of a tree around the leaf responsible for a key with rank \<open>x\<close>.\<close>

definition all_ranks :: "(key_rank \<Rightarrow> bool) \<Rightarrow> (Key \<times> RID) list \<Rightarrow> bool" where
  "all_ranks P ps \<longleftrightarrow> (\<forall>(k, r) \<in> set ps. P (rank k))"

lemma leaf_keys_pairs: "(k, r) \<in> set (leaf_pairs n) \<Longrightarrow> k \<in> set (bn_keys n)"
  by (auto simp: leaf_pairs_def dest: set_zip_leftD)

lemma path_pairs:
  assumes "path h T lo hi hs r lo' hi'" "wf_tree ty h lo hi T" "ge_lo lo' x" "lt_hi hi' x"
  obtains P1 P2 ls1 ls2 where "pairs h T = P1 @ leaf_pairs (h ! r) @ P2" "all_ranks (\<lambda>y. y < x) P1" "all_ranks (\<lambda>y. x < y) P2"
    "leaves T = ls1 @ r # ls2" "P1 = concat (map (\<lambda>r. leaf_pairs (h ! r)) ls1)" "P2 = concat (map (\<lambda>r. leaf_pairs (h ! r)) ls2)"
proof -
  obtain ls1 ls2 where ls: "leaves T = ls1 @ r # ls2" "\<forall>q \<in> set ls1. \<forall>k \<in> set (bn_keys (h ! q)). rank k < x"
      "\<forall>q \<in> set ls2. \<forall>k \<in> set (bn_keys (h ! q)). x < rank k"
    using path_splits [OF assms] by blast
  show thesis
  proof (rule that [of "concat (map (\<lambda>r. leaf_pairs (h ! r)) ls1)" "concat (map (\<lambda>r. leaf_pairs (h ! r)) ls2)" ls1 ls2])
    show "all_ranks (\<lambda>y. y < x) (concat (map (\<lambda>r. leaf_pairs (h ! r)) ls1))"
      "all_ranks (\<lambda>y. x < y) (concat (map (\<lambda>r. leaf_pairs (h ! r)) ls2))"
      using ls(2,3) by (fastforce simp: all_ranks_def dest: leaf_keys_pairs)+
  qed (simp_all add: pairs_def ls(1))
qed

lemma lookup_around:
  "all_ranks (\<lambda>y. y < rank key) P1 \<Longrightarrow> all_ranks (\<lambda>y. rank key < y) P2 \<Longrightarrow> lookup_pair key (P1 @ L @ P2) = lookup_pair key L"
proof -
  assume "all_ranks (\<lambda>y. y < rank key) P1" "all_ranks (\<lambda>y. rank key < y) P2"
  then have "lookup_pair key P1 = None" "lookup_pair key P2 = None" by (auto simp: lookup_none all_ranks_def)
  then show ?thesis by (simp add: lookup_append split: option.splits)
qed

lemma update_around:
  "all_ranks (\<lambda>y. y < rank key) P1 \<Longrightarrow> all_ranks (\<lambda>y. rank key < y) P2 \<Longrightarrow>
   update_pair key rid (P1 @ L @ P2) = P1 @ update_pair key rid L @ P2"
proof (induction P1)
  case Nil
  then have "update_pair key rid P2 = P2" by (intro update_pair_none) (auto simp: all_ranks_def)
  then show ?case by (induction L) auto
next
  case (Cons p P1)
  then show ?case by (cases p) (auto simp: all_ranks_def)
qed

lemma insert_pair_Cons:
  "insert_pair key rid ((k, r) # ps) = (if rank k < rank key then (k, r) # insert_pair key rid ps else (key, rid) # (k, r) # ps)"
  by (simp add: insert_pair_def)

lemma insert_around:
  "all_ranks (\<lambda>y. y < rank key) P1 \<Longrightarrow> all_ranks (\<lambda>y. rank key < y) P2 \<Longrightarrow>
   insert_pair key rid (P1 @ L @ P2) = P1 @ insert_pair key rid L @ P2"
proof (induction P1)
  case Nil
  then have "insert_pair key rid P2 = (key, rid) # P2"
    by (cases P2) (auto simp: all_ranks_def insert_pair_def)
  then show ?case by (induction L) (auto simp: insert_pair_Cons insert_pair_def)
next
  case (Cons p P1)
  then show ?case by (cases p) (auto simp: all_ranks_def insert_pair_Cons)
qed

section \<open>Search\<close>

lemma tree_relE:
  assumes "tree_rel ty t ps"
  obtains (empty) "bt_root t = None" "ps = []" | (tree) T where "tree_ok ty t T" "ps = pairs (bt_nodes t) T"
  using assms by (auto simp: tree_rel_def)

lemma tree_ok_wf: "tree_ok ty t T \<Longrightarrow> wf_tree ty (bt_nodes t) None None T"
  by (simp add: tree_ok_def)

lemma wf_leaf_node: "wf_tree ty h lo hi (Leaf r) \<Longrightarrow> r < length h \<and> leaf_ok ty (h ! r)"
  by (simp add: wf_leaf_def)

lemma search_lookup:
  assumes "tree_rel ty t ps" "index_key ty key"
  shows "BPlusTree_search key (t, lg) = (Inr (lookup_pair key ps), t, lg)"
  using assms(1)
proof (cases rule: tree_relE)
  case empty
  then show ?thesis by (simp add: BPlusTree_search_def sreturn_def)
next
  case (tree T)
  obtain r hs lo' hi' where d: "descend key (top_ref T) (t, lg) = (Inr (r, hs), t, lg)"
      "path (bt_nodes t) T None None hs r lo' hi'" "ge_lo lo' (rank key)" "lt_hi hi' (rank key)"
    by (rule descend_ok [OF tree(1) assms(2)])
  have leaf: "r < length (bt_nodes t)" "leaf_ok ty (bt_nodes t ! r)"
    using path_splits [OF d(2) tree_ok_wf [OF tree(1)] d(3,4)] wf_leaf_node by blast+
  have "lookup_pair key ps = lookup_pair key (leaf_pairs (bt_nodes t ! r))"
    using path_pairs [OF d(2) tree_ok_wf [OF tree(1)] d(3,4)] lookup_around tree(2) by metis
  then show ?thesis
    using tree(1) leaf d(1) findInLeaf_pairs [OF leaf(2) assms(2)]
    by (simp add: BPlusTree_search_def tree_ok_def sbind_cases(1) slift_def)
qed

section \<open>The contents are in key order\<close>

definition leaf_list_pairs :: "nodes \<Rightarrow> nat list \<Rightarrow> (Key \<times> RID) list" where
  "leaf_list_pairs h ls = concat (map (\<lambda>r. leaf_pairs (h ! r)) ls)"

lemma leaf_list_pairs_simps [simp]:
  "leaf_list_pairs h [] = []" "leaf_list_pairs h (r # ls) = leaf_pairs (h ! r) @ leaf_list_pairs h ls"
  "leaf_list_pairs h (ls @ ms) = leaf_list_pairs h ls @ leaf_list_pairs h ms"
  by (simp_all add: leaf_list_pairs_def)

lemma pairs_leaves: "pairs h T = leaf_list_pairs h (leaves T)"
  by (simp add: pairs_def leaf_list_pairs_def)

definition ordered :: "(Key \<times> RID) list \<Rightarrow> bool" where
  "ordered ps \<longleftrightarrow> sorted_wrt (<) (map (\<lambda>p. rank (fst p)) ps)"

lemma ordered_append:
  "ordered (ps @ qs) \<longleftrightarrow> ordered ps \<and> ordered qs \<and> (\<forall>p \<in> set ps. \<forall>q \<in> set qs. rank (fst p) < rank (fst q))"
  by (auto simp: ordered_def sorted_wrt_append)

lemma ordered_leaf: "wf_leaf ty lo hi n \<Longrightarrow> ordered (leaf_pairs n)"
proof -
  assume w: "wf_leaf ty lo hi n"
  then have "sorted_wrt (<) (map rank (bn_keys n))"
    by (simp add: wf_leaf_def leaf_ok_def strict_sorted_iff)
  moreover have "map fst (leaf_pairs n) = bn_keys n"
    using w by (simp add: wf_leaf_def leaf_ok_def leaf_pairs_def)
  then have "map rank (map fst (leaf_pairs n)) = map rank (bn_keys n)" by (rule arg_cong)
  then have "map (\<lambda>p. rank (fst p)) (leaf_pairs n) = map rank (bn_keys n)" by (simp add: comp_def)
  ultimately show ?thesis by (simp add: ordered_def)
qed

lemma pairs_keys: "p \<in> set (pairs h T) \<Longrightarrow> fst p \<in> keys_in h T"
  by (cases p) (auto simp: pairs_def keys_in_def dest: leaf_keys_pairs)

lemma ordered_kids:
  assumes "\<And>c lo hi. c \<in> set cs \<Longrightarrow> wf_tree ty h lo hi c \<Longrightarrow> ordered (pairs h c)" "wf_kids ty h lo ks hi cs"
  shows "ordered (concat (map (pairs h) cs))"
  using assms
proof (induction cs arbitrary: lo ks)
  case (Cons c cs)
  show ?case
  proof (cases ks)
    case Nil
    with Cons.prems show ?thesis by auto
  next
    case (Cons s ks')
    have wf: "wf_tree ty h lo (Some (rank s)) c" "wf_kids ty h (Some (rank s)) ks' hi cs" using Cons.prems(2) Cons by auto
    have "rank (fst p) < rank (fst q)" if "p \<in> set (pairs h c)" "d \<in> set cs" "q \<in> set (pairs h d)" for p q d
    proof -
      have "lt_hi (Some (rank s)) (rank (fst p))" using keys_bounds [OF wf(1) pairs_keys] that(1) by blast
      moreover have "ge_lo (Some (rank s)) (rank (fst q))"
        using kids_bounds [OF wf(2) that(2) pairs_keys [OF that(3)]] by blast
      ultimately show ?thesis by (simp add: ge_lo_def lt_hi_def)
    qed
    moreover have "ordered (pairs h c)" "ordered (concat (map (pairs h) cs))"
      using Cons.IH [OF _ wf(2)] Cons.prems(1) wf(1) by auto
    ultimately show ?thesis by (auto simp: ordered_append)
  qed
qed (simp add: ordered_def)

lemma ordered_pairs: "wf_tree ty h lo hi T \<Longrightarrow> ordered (pairs h T)"
proof (induction T arbitrary: lo hi)
  case (Leaf r)
  then show ?case by (auto simp: pairs_def intro: ordered_leaf)
next
  case (Inner p cs)
  have "pairs h (Inner p cs) = concat (map (pairs h) cs)" by (induction cs) (simp_all add: pairs_def)
  moreover have "wf_kids ty h lo (bn_keys (h ! p)) hi cs" using Inner.prems by simp
  then have "ordered (concat (map (pairs h) cs))" by (rule ordered_kids [rotated]) (rule Inner.IH)
  ultimately show ?case by simp
qed

lemma wf_leaves: "wf_tree ty h lo hi T \<Longrightarrow> r \<in> set (leaves T) \<Longrightarrow> r < length h \<and> leaf_ok ty (h ! r)"
proof (induction T arbitrary: lo hi)
  case (Inner p cs)
  then obtain c where c: "c \<in> set cs" "r \<in> set (leaves c)" by auto
  obtain lo' hi' where "wf_tree ty h lo' hi' c" using Inner.prems(1) c(1) by (auto elim: wf_kids_mem)
  then show ?case using Inner.IH c by blast
qed (auto simp: wf_leaf_def)

section \<open>Scans along the leaf chain\<close>

lemma linked_suffix: "linked h (ls @ rs) \<Longrightarrow> linked h rs"
proof (induction ls)
  case (Cons l ls)
  then show ?case by (cases "ls @ rs") auto
qed simp

definition chain_ok :: "KeyTypeTag \<Rightarrow> nodes \<Rightarrow> nat list \<Rightarrow> bool" where
  "chain_ok ty h ls \<longleftrightarrow> linked h ls \<and> (\<forall>r \<in> set ls. r < length h \<and> leaf_ok ty (h ! r))"

lemma chain_ok_Cons:
  "chain_ok ty h (r # ls) \<longleftrightarrow> r < length h \<and> leaf_ok ty (h ! r) \<and> chain_ok ty h ls
     \<and> bn_next_leaf (h ! r) = (case ls of [] \<Rightarrow> None | r' # _ \<Rightarrow> Some r')"
  by (cases ls) (auto simp: chain_ok_def)

lemma collect_chain:
  "chain_ok ty (bt_nodes t) (r # ls) \<Longrightarrow> length ls < fuel \<Longrightarrow>
   collect_from_leaf fuel r (t, lg) = (Inr (leaf_list_pairs (bt_nodes t) (r # ls)), t, lg)"
proof (induction ls arbitrary: r fuel)
  case Nil
  then obtain f where "fuel = Suc f" by (cases fuel) auto
  with Nil show ?case by (auto simp: chain_ok_Cons leaf_ok_def sreturn_def leaf_pairs_def)
next
  case (Cons r' ls)
  then obtain f where f: "fuel = Suc f" by (cases fuel) auto
  have ok: "chain_ok ty (bt_nodes t) (r' # ls)" using Cons.prems(1) by (simp add: chain_ok_Cons [of _ _ r])
  show ?case
    using Cons.prems Cons.IH [OF ok, of f]
    by (simp add: f chain_ok_Cons [of _ _ r] leaf_ok_def sbind_cases(1) sreturn_def leaf_pairs_def)
qed

lemma leaves_nonempty: "wf_tree ty h lo hi T \<Longrightarrow> leaves T \<noteq> []"
proof (induction T arbitrary: lo hi)
  case (Inner p cs)
  then obtain c cs' where cs: "cs = c # cs'" by (cases cs) auto
  have "wf_tree ty h lo (next_bound (bn_keys (h ! p)) hi) c" using Inner.prems by (simp add: cs wf_kids_Cons)
  then show ?case using Inner.IH [of c] by (simp add: cs)
qed simp

lemma leftmost_leaf_ok:
  "wf_tree ty (bt_nodes t) lo hi T \<Longrightarrow> length (refs T) \<le> fuel \<Longrightarrow>
   leftmost_leaf fuel (top_ref T) (t, lg) = (Inr (hd (leaves T)), t, lg)"
proof (induction T arbitrary: lo hi fuel)
  case (Leaf r)
  then obtain f where "fuel = Suc f" by (cases fuel) auto
  with Leaf show ?case by (simp add: wf_leaf_def leaf_ok_def sreturn_def)
next
  case (Inner p cs)
  then obtain f where f: "fuel = Suc f" by (cases fuel) auto
  from Inner.prems obtain c cs' where cs: "cs = c # cs'" by (cases cs) auto
  have wf: "wf_tree ty (bt_nodes t) lo (next_bound (bn_keys (bt_nodes t ! p)) hi) c" using Inner.prems(1) by (simp add: cs wf_kids_Cons)
  have p: "p < length (bt_nodes t)" "wf_inner ty hi (map top_ref cs) (bt_nodes t ! p)" using Inner.prems(1) by auto
  have "leftmost_leaf f (top_ref c) (t, lg) = (Inr (hd (leaves c)), t, lg)"
    using Inner.IH [of c, OF _ wf, of f] Inner.prems(2) by (simp add: cs f)
  then show ?case
    using p leaves_nonempty [OF wf] by (simp add: f cs wf_inner_def deref_def)
qed

lemma getAll_pairs:
  assumes "tree_rel ty t ps"
  shows "BPlusTree_getAllKeyRIDPairs (t, lg) = (Inr ps, t, lg)"
  using assms
proof (cases rule: tree_relE)
  case empty
  then show ?thesis by (simp add: BPlusTree_getAllKeyRIDPairs_def sreturn_def)
next
  case (tree T)
  let ?h = "bt_nodes t"
  have wf: "wf_tree ty ?h None None T" and root: "bt_root t = Some (top_ref T)" and lk: "linked ?h (leaves T)" and d: "distinct (refs T)"
    using tree(1) by (simp_all add: tree_ok_def)
  obtain r ls where ls: "leaves T = r # ls" using leaves_nonempty [OF wf] by (cases "leaves T") auto
  have chain: "chain_ok ty ?h (r # ls)" using lk wf_leaves [OF wf] by (simp add: chain_ok_def ls)
  have len: "length (refs T) \<le> Suc (length ?h)" using length_refs [OF wf d] by simp
  have "length (leaves T) \<le> length ?h" using length_leaves [of T] length_refs [OF wf d] by simp
  then have "length ls < Suc (length ?h)" by (simp add: ls)
  then show ?thesis
    using leftmost_leaf_ok [OF wf len] collect_chain [OF chain] root
    by (simp add: BPlusTree_getAllKeyRIDPairs_def tree(2) pairs_leaves ls sbind_cases(1) del: leftmost_leaf.simps collect_from_leaf.simps)
qed

definition in_range :: "Key \<Rightarrow> Key \<Rightarrow> Key \<times> RID \<Rightarrow> bool" where
  "in_range low high p \<longleftrightarrow> rank low \<le> rank (fst p) \<and> rank (fst p) \<le> rank high"

lemma scan_leaf_filter:
  "length rs = length ks \<Longrightarrow> index_keys ty ks \<Longrightarrow> index_key ty low \<Longrightarrow> index_key ty high \<Longrightarrow> sorted (map rank ks) \<Longrightarrow>
   scan_leaf low high ks rs = Inr (filter (in_range low high) (zip ks rs), \<exists>k \<in> set ks. rank high < rank k)"
proof (induction ks arbitrary: rs)
  case (Cons k ks)
  then obtain r rs' where rs: "rs = r # rs'" by (cases rs) auto
  have rest: "scan_leaf low high ks rs' = Inr (filter (in_range low high) (zip ks rs'), \<exists>k \<in> set ks. rank high < rank k)"
    using Cons rs by simp
  have past: "filter (in_range low high) (zip ks rs') = []" if "rank high < rank k"
    using that Cons.prems(5) by (auto simp: filter_empty_conv in_range_def dest!: set_zip_leftD dest: less_le_trans)
  have inr: "in_range low high (k, r) \<longleftrightarrow> rank low \<le> rank k \<and> rank k \<le> rank high" by (simp add: in_range_def)
  show ?case
    using Cons.prems rest past by (cases "rank high < rank k"; cases "rank low \<le> rank k") (auto simp: rs inr)
qed simp

lemma scan_chain:
  assumes "chain_ok ty (bt_nodes t) (r # ls)" "index_key ty low" "index_key ty high" "length ls < fuel"
    and "ordered (leaf_list_pairs (bt_nodes t) (r # ls))"
  shows "scan_from_leaf fuel low high r (t, lg) =
    (Inr (filter (in_range low high) (leaf_list_pairs (bt_nodes t) (r # ls))), t, lg)"
  using assms
proof (induction ls arbitrary: r fuel)
  case Nil
  then obtain f where f: "fuel = Suc f" by (cases fuel) auto
  have r: "r < length (bt_nodes t)" "leaf_ok ty (bt_nodes t ! r)" "bn_next_leaf (bt_nodes t ! r) = None"
    using Nil.prems(1) by (simp_all add: chain_ok_Cons)
  have "scan_leaf low high (bn_keys (bt_nodes t ! r)) (bn_rids (bt_nodes t ! r)) =
      Inr (filter (in_range low high) (leaf_pairs (bt_nodes t ! r)), \<exists>k \<in> set (bn_keys (bt_nodes t ! r)). rank high < rank k)"
    unfolding leaf_pairs_def using r(2) Nil.prems(2,3) by (intro scan_leaf_filter [where ty = ty]) (simp_all add: leaf_ok_def)
  with f r show ?case by (simp add: sreturn_def)
next
  case (Cons r' ls)
  let ?h = "bt_nodes t"
  obtain f where f: "fuel = Suc f" using Cons.prems(4) by (cases fuel) auto
  have r: "r < length ?h" "leaf_ok ty (?h ! r)" "bn_next_leaf (?h ! r) = Some r'" and ok: "chain_ok ty ?h (r' # ls)"
    using Cons.prems(1) by (simp_all add: chain_ok_Cons [of _ _ r])
  have rest: "scan_from_leaf f low high r' (t, lg) = (Inr (filter (in_range low high) (leaf_list_pairs ?h (r' # ls))), t, lg)"
    using Cons.IH [OF ok Cons.prems(2,3), of f] Cons.prems(4,5) f by (simp add: ordered_append)
  have here: "scan_leaf low high (bn_keys (?h ! r)) (bn_rids (?h ! r)) =
      Inr (filter (in_range low high) (leaf_pairs (?h ! r)), \<exists>k \<in> set (bn_keys (?h ! r)). rank high < rank k)"
    unfolding leaf_pairs_def using r(2) Cons.prems(2,3) by (intro scan_leaf_filter [where ty = ty]) (simp_all add: leaf_ok_def)
  show ?case
  proof (cases "\<exists>k \<in> set (bn_keys (?h ! r)). rank high < rank k")
    case True
    then obtain k where k: "k \<in> set (bn_keys (?h ! r))" "rank high < rank k" by blast
    then obtain i where "i < length (bn_keys (?h ! r))" "bn_keys (?h ! r) ! i = k" by (auto simp: in_set_conv_nth)
    then have "(k, bn_rids (?h ! r) ! i) \<in> set (leaf_pairs (?h ! r))"
      using r(2) by (auto simp: leaf_ok_def leaf_pairs_def set_zip)
    then have "rank k < rank (fst q)" if "q \<in> set (leaf_list_pairs ?h (r' # ls))" for q
      using Cons.prems(5) that by (fastforce simp: ordered_append)
    then have "filter (in_range low high) (leaf_list_pairs ?h (r' # ls)) = []"
      using k(2) by (fastforce simp: filter_empty_conv in_range_def dest: less_trans)
    then have "filter (in_range low high) (leaf_list_pairs ?h (r # r' # ls)) = filter (in_range low high) (leaf_pairs (?h ! r))"
      unfolding leaf_list_pairs_simps(2) [of ?h r] by simp
    then show ?thesis using True r by (simp only: f scan_from_leaf.simps sbind_get_node here sbind_prims) (simp add: sreturn_def)
  next
    case False
    have "filter (in_range low high) (leaf_list_pairs ?h (r # r' # ls)) =
        filter (in_range low high) (leaf_pairs (?h ! r)) @ filter (in_range low high) (leaf_list_pairs ?h (r' # ls))"
      unfolding leaf_list_pairs_simps(2) [of ?h r] by simp
    with False r rest show ?thesis
      by (simp only: f scan_from_leaf.simps sbind_get_node here sbind_prims)
        (simp add: sbind_cases(1) sreturn_def del: leaf_list_pairs_simps(2))
  qed
qed

lemma rangeScan_filter:
  assumes "tree_rel ty t ps" "index_key ty low" "index_key ty high"
  shows "BPlusTree_rangeScan low high (t, lg) = (Inr (filter (in_range low high) ps), t, lg)"
  using assms(1)
proof (cases rule: tree_relE)
  case empty
  then show ?thesis by (simp add: BPlusTree_rangeScan_def sreturn_def)
next
  case (tree T)
  let ?h = "bt_nodes t"
  have wf: "wf_tree ty ?h None None T" and root: "bt_root t = Some (top_ref T)" and lk: "linked ?h (leaves T)" and d: "distinct (refs T)"
    using tree(1) by (simp_all add: tree_ok_def)
  obtain r hs lo' hi' where desc: "descend low (top_ref T) (t, lg) = (Inr (r, hs), t, lg)"
      "path ?h T None None hs r lo' hi'" "ge_lo lo' (rank low)" "lt_hi hi' (rank low)"
    by (rule descend_ok [OF tree(1) assms(2)])
  obtain P1 ls1 ls2 where ls: "leaves T = ls1 @ r # ls2" "P1 = leaf_list_pairs ?h ls1" "all_ranks (\<lambda>y. y < rank low) P1"
    using path_pairs [OF desc(2) wf desc(3,4)] by (metis leaf_list_pairs_def)
  have ps: "ps = P1 @ leaf_list_pairs ?h (r # ls2)" by (simp add: tree(2) pairs_leaves ls)
  have chain: "chain_ok ty ?h (r # ls2)"
    using linked_suffix [of ?h ls1 "r # ls2"] lk wf_leaves [OF wf] by (auto simp: chain_ok_def ls(1))
  have ord: "ordered (leaf_list_pairs ?h (r # ls2))"
    using ordered_pairs [OF wf] unfolding pairs_leaves ls(1) by (simp add: ordered_append)
  have len: "length ls2 < Suc (length ?h)" using length_leaves [of T] length_refs [OF wf d] by (simp add: ls(1))
  have "filter (in_range low high) P1 = []"
    using ls(3) by (fastforce simp: filter_empty_conv all_ranks_def in_range_def)
  then show ?thesis
    using scan_chain [OF chain assms(2,3) len ord] desc(1) root
    by (simp add: BPlusTree_rangeScan_def sbind_cases(1) ps del: scan_from_leaf.simps leaf_list_pairs_simps(2))
qed

end
