(* ===== verification/Tree_Insert.thy ===== *)
theory Tree_Insert
  imports Tree_Search
begin

text \<open>
  Updates and insertions keep the tree a search tree and change its contents as an ordered list of pairs does.

  An insertion changes one leaf; when the leaf splits, \<open>propagateSplit\<close> walks back up the path of the descent. \<open>frame S h h'\<close>
  says which nodes of the heap it may change on the way (those in \<open>S\<close>; parent pointers are ignored throughout, since only the root's matters).
\<close>

section \<open>Heaps that agree\<close>

definition core :: "tree_node \<Rightarrow> tree_node" where
  "core n = n\<lparr>bn_node_id := 0, bn_lsn := 0, bn_right_link := None, bn_parent := None\<rparr>"

lemma core_fields [simp]:
  "bn_is_leaf (core n) = bn_is_leaf n" "bn_keys (core n) = bn_keys n" "bn_rids (core n) = bn_rids n"
  "bn_next_leaf (core n) = bn_next_leaf n" "bn_children (core n) = bn_children n"
  "bn_is_merged_away (core n) = bn_is_merged_away n" "bn_high_key (core n) = bn_high_key n"
  by (simp_all add: core_def)

lemma core_eq:
  assumes "core n = core m"
  shows "bn_is_leaf n = bn_is_leaf m" "bn_keys n = bn_keys m" "bn_rids n = bn_rids m" "bn_next_leaf n = bn_next_leaf m"
    "bn_children n = bn_children m" "bn_is_merged_away n = bn_is_merged_away m" "bn_high_key n = bn_high_key m"
  using assms core_fields by metis+

lemma core_wf:
  assumes "core n = core m"
  shows "wf_leaf ty lo hi n = wf_leaf ty lo hi m" "wf_inner ty hi cs n = wf_inner ty hi cs m" "leaf_pairs n = leaf_pairs m"
  using core_eq [OF assms] by (simp_all add: wf_leaf_def leaf_ok_def wf_inner_def leaf_pairs_def)

definition agree :: "nat set \<Rightarrow> nodes \<Rightarrow> nodes \<Rightarrow> bool" where
  "agree R h h' \<longleftrightarrow> length h \<le> length h' \<and> (\<forall>q \<in> R. core (h' ! q) = core (h ! q))"

lemma agree_mono: "agree R h h' \<Longrightarrow> S \<subseteq> R \<Longrightarrow> agree S h h'"
  by (auto simp: agree_def)

lemma agree_trans: "agree R h h' \<Longrightarrow> agree R h' h'' \<Longrightarrow> agree R h h''"
  by (auto simp: agree_def)

lemma agree_at:
  assumes "agree R h h'" "q \<in> R"
  shows "wf_leaf ty lo hi (h' ! q) = wf_leaf ty lo hi (h ! q)" "wf_inner ty hi cs (h' ! q) = wf_inner ty hi cs (h ! q)"
    "leaf_pairs (h' ! q) = leaf_pairs (h ! q)" "bn_keys (h' ! q) = bn_keys (h ! q)" "bn_next_leaf (h' ! q) = bn_next_leaf (h ! q)"
    "q < length h \<Longrightarrow> q < length h'"
proof -
  have c: "core (h' ! q) = core (h ! q)" and l: "length h \<le> length h'" using assms by (simp_all add: agree_def)
  show "q < length h \<Longrightarrow> q < length h'" using l by simp
qed (use assms in \<open>simp_all add: agree_def core_wf [of "h' ! q" "h ! q"] core_eq [of "h' ! q" "h ! q"]\<close>)

lemma agree_wf:
  "agree (set (refs T)) h h' \<Longrightarrow> wf_tree ty h lo hi T \<Longrightarrow> wf_tree ty h' lo hi T"
  "agree (\<Union>c \<in> set cs. set (refs c)) h h' \<Longrightarrow> wf_kids ty h lo ks hi cs \<Longrightarrow> wf_kids ty h' lo ks hi cs"
proof (induction ty h lo hi T and ty h lo ks hi cs rule: wf_tree_wf_kids.induct)
  case (1 ty h lo hi r)
  then show ?case using agree_at [of "{r}" h h' r] by auto
next
  case (2 ty h lo hi r cs)
  have "agree {r} h h'" "agree (\<Union>c \<in> set cs. set (refs c)) h h'" using 2(2) by (auto elim: agree_mono)
  then show ?case using 2(1,3) agree_at [of "{r}" h h' r] by auto
next
  case (3 ty h lo ks hi)
  then show ?case by simp
next
  case (4 ty h lo hi c cs)
  have "agree (set (refs c)) h h'" using 4(2) by (rule agree_mono) auto
  then show ?case using 4 by auto
next
  case (5 ty h lo k ks hi c cs)
  have "agree (set (refs c)) h h'" "agree (\<Union>c \<in> set cs. set (refs c)) h h'" using 5(3) by (auto elim: agree_mono)
  then show ?case using 5 by auto
qed

lemma agree_pre:
  "agree (\<Union>c \<in> set cs. set (refs c)) h h' \<Longrightarrow> wf_pre ty h lo ks hi cs \<Longrightarrow> wf_pre ty h' lo ks hi cs"
proof (induction ty h lo ks hi cs rule: wf_pre.induct)
  case (2 ty h lo k ks hi c cs)
  have "agree (set (refs c)) h h'" "agree (\<Union>c \<in> set cs. set (refs c)) h h'" using 2(2) by (auto elim: agree_mono)
  then show ?case using 2 agree_wf(1) by auto
qed auto

lemma agree_suf:
  "agree (\<Union>c \<in> set cs. set (refs c)) h h' \<Longrightarrow> wf_suf ty h lo ks hi cs \<Longrightarrow> wf_suf ty h' lo ks hi cs"
  by (cases ks) (auto intro: agree_wf(2))

lemma agree_linked: "agree (set ls) h h' \<Longrightarrow> linked h ls \<Longrightarrow> linked h' ls"
proof (induction h ls rule: linked.induct)
  case (2 h r)
  then show ?case using agree_at(5) [of "{r}" h h' r] by simp
next
  case (3 h r r' rs)
  have "agree (set (r' # rs)) h h'" using 3(2) by (rule agree_mono) auto
  then show ?case using 3 agree_at(5) [OF 3(2), of r] by auto
qed simp

lemma agree_pairs: "agree (set ls) h h' \<Longrightarrow> leaf_list_pairs h' ls = leaf_list_pairs h ls"
proof (induction ls)
  case (Cons r ls)
  have "agree (set ls) h h'" using Cons.prems by (rule agree_mono) auto
  then show ?case using Cons agree_at(3) [OF Cons.prems, of r] by simp
qed simp

section \<open>Changing one leaf\<close>

lemma replace_leaf:
  assumes "path h T lo hi hs r lo' hi'" "wf_tree ty h lo hi T" "distinct (refs T)"
    and "agree (set (refs T) - {r}) h h'" "wf_tree ty h' lo' hi' (Leaf r)"
  shows "wf_tree ty h' lo hi T"
  using assms
proof (induction rule: path.induct)
  case (path_inner p ks1 ks2 cs1 c lo hi hs r lo' hi' cs2)
  let ?cs = "cs1 @ c # cs2"
  have kids: "wf_pre ty h lo ks1 hi cs1" "wf_tree ty h (last_bound lo ks1) (next_bound ks2 hi) c"
      "wf_suf ty h (last_bound lo ks1) ks2 hi cs2" and inner: "wf_inner ty hi (map top_ref ?cs) (h ! p)" and p: "p < length h"
    using path_inner.prems(1) path_inner.hyps(1,2) by (auto simp: wf_kids_split)
  have rc: "r \<in> set (refs c)" using path_inner.hyps(3) by (induction rule: path.induct) auto
  have d: "distinct (refs c)" "r \<noteq> p" "r \<notin> (\<Union>c \<in> set cs1. set (refs c))" "r \<notin> (\<Union>c \<in> set cs2. set (refs c))"
    using path_inner.prems(2) rc by auto
  have "agree (set (refs c) - {r}) h h'" "agree (\<Union>c \<in> set cs1. set (refs c)) h h'" "agree (\<Union>c \<in> set cs2. set (refs c)) h h'"
    using path_inner.prems(3) d(3,4) by (auto elim!: agree_mono)
  then have "wf_tree ty h' (last_bound lo ks1) (next_bound ks2 hi) c" "wf_pre ty h' lo ks1 hi cs1" "wf_suf ty h' (last_bound lo ks1) ks2 hi cs2"
    using path_inner.IH [OF kids(2) d(1) _ path_inner.prems(4)] agree_pre kids agree_suf by blast+
  moreover have "agree {p} h h'" using path_inner.prems(3) d(2) by (auto elim!: agree_mono)
  ultimately show ?case
    using agree_at [of "{p}" h h' p] p inner path_inner.hyps(1,2) by (simp add: wf_kids_split)
qed auto

section \<open>Steps on the heap\<close>

definition mark :: "nat \<Rightarrow> BPlusTree \<Rightarrow> BPlusTree" where
  "mark r t = (if r \<in> set (bt_dirty t) then t else t\<lparr>bt_dirty := bt_dirty t @ [r]\<rparr>)"

lemma mark_fields [simp]:
  "bt_nodes (mark r t) = bt_nodes t" "bt_root (mark r t) = bt_root t" "bt_im (mark r t) = bt_im t"
  by (simp_all add: mark_def)

lemma step_simps [simp]:
  "sbind (set_node r n) f (t, lg) = f () (t\<lparr>bt_nodes := (bt_nodes t)[r := n]\<rparr>, lg)"
  "sbind (make_node n) g (t, lg) = g (length (bt_nodes t)) (t\<lparr>bt_nodes := bt_nodes t @ [n]\<rparr>, lg)"
  "sbind (markDirty r) f (t, lg) = f () (mark r t, lg)"
  "sbind (BPlusTree_swapRoot x) f (t, lg) = f () (t\<lparr>bt_root := x\<rparr>, lg)"
  "r < length (bt_nodes t) \<Longrightarrow> sbind (upd_node r u) f (t, lg) = f () (t\<lparr>bt_nodes := (bt_nodes t)[r := u (bt_nodes t ! r)]\<rparr>, lg)"
  by (simp_all add: set_node_def make_node_def markDirty_def mark_def BPlusTree_swapRoot_def upd_node_def sbind_def smodify_def)

lemma set_node_run: "set_node r n (t, lg) = (Inr (), t\<lparr>bt_nodes := (bt_nodes t)[r := n]\<rparr>, lg)"
  by (simp add: set_node_def smodify_def)

lemma upd_node_run:
  "r < length (bt_nodes t) \<Longrightarrow> upd_node r u (t, lg) = (Inr (), t\<lparr>bt_nodes := (bt_nodes t)[r := u (bt_nodes t ! r)]\<rparr>, lg)"
  by (simp add: upd_node_def set_node_run)

lemma sbind_setParent [simp]:
  "c < length (bt_nodes t) \<Longrightarrow> sbind (BPlusTree_setParent (Some c) p) f (t, lg) =
     f () (t\<lparr>bt_nodes := (bt_nodes t)[c := (bt_nodes t ! c)\<lparr>bn_parent := Some p\<rparr>]\<rparr>, lg)"
  by (simp add: BPlusTree_setParent_def)

lemma core_parent [simp]: "core (n\<lparr>bn_parent := x\<rparr>) = core n" "core (n\<lparr>bn_right_link := x\<rparr>) = core n"
  by (simp_all add: core_def)

text \<open>
  \<open>evolves S P t t'\<close>: nodes outside \<open>S\<close> keep their content, nodes outside \<open>P\<close> their parent pointer, new nodes may appear, and the root and the index
  manager stay.
\<close>

definition evolves :: "nat set \<Rightarrow> nat set \<Rightarrow> BPlusTree \<Rightarrow> BPlusTree \<Rightarrow> bool" where
  "evolves S P t t' \<longleftrightarrow> length (bt_nodes t) \<le> length (bt_nodes t') \<and> bt_root t' = bt_root t \<and> bt_im t' = bt_im t
     \<and> (\<forall>q < length (bt_nodes t). q \<notin> S \<longrightarrow> core (bt_nodes t' ! q) = core (bt_nodes t ! q))
     \<and> (\<forall>q < length (bt_nodes t). q \<notin> P \<longrightarrow> bn_parent (bt_nodes t' ! q) = bn_parent (bt_nodes t ! q))"

lemma evolves_refl: "evolves S P t t"
  by (simp add: evolves_def)

lemma evolves_trans: "evolves S P t t' \<Longrightarrow> evolves S P t' t'' \<Longrightarrow> evolves S P t t''"
  by (auto simp: evolves_def)

lemma evolves_mono: "evolves S P t t' \<Longrightarrow> S \<subseteq> S' \<Longrightarrow> P \<subseteq> P' \<Longrightarrow> evolves S' P' t t'"
  by (auto simp: evolves_def)

lemma evolves_agree:
  "evolves S P t t' \<Longrightarrow> R \<inter> S = {} \<Longrightarrow> (\<And>q. q \<in> R \<Longrightarrow> q < length (bt_nodes t)) \<Longrightarrow> agree R (bt_nodes t) (bt_nodes t')"
  by (auto simp: evolves_def agree_def)

lemma evolves_mark [simp]: "evolves S P t (mark r t') = evolves S P t t'"
  by (simp add: evolves_def)

lemma nth_upd: "j < length xs \<Longrightarrow> xs[i := x] ! j = (if i = j then x else xs ! j)"
  by simp

lemma evolves_parent:
  "evolves S P t t' \<Longrightarrow> c \<in> P \<Longrightarrow> evolves S P t (t'\<lparr>bt_nodes := (bt_nodes t')[c := (bt_nodes t' ! c)\<lparr>bn_parent := x\<rparr>]\<rparr>)"
  by (auto simp: evolves_def nth_upd)

lemma setParents_ok:
  "\<forall>c \<in> set cs. c < length (bt_nodes t) \<Longrightarrow>
   \<exists>t'. sfor (\<lambda>c. BPlusTree_setParent c q) (map Some cs) (t, lg) = (Inr (), t', lg) \<and> evolves {} (set cs) t t'
     \<and> length (bt_nodes t') = length (bt_nodes t) \<and> bt_dirty t' = bt_dirty t"
proof (induction cs arbitrary: t)
  case Nil
  show ?case by (simp add: evolves_refl sreturn_def)
next
  case (Cons c cs)
  let ?t = "t\<lparr>bt_nodes := (bt_nodes t)[c := (bt_nodes t ! c)\<lparr>bn_parent := Some q\<rparr>]\<rparr>"
  obtain t' where t': "sfor (\<lambda>c. BPlusTree_setParent c q) (map Some cs) (?t, lg) = (Inr (), t', lg)"
      "evolves {} (set cs) ?t t'" "length (bt_nodes t') = length (bt_nodes ?t)" "bt_dirty t' = bt_dirty ?t"
    using Cons.IH [of ?t] Cons.prems by auto
  have "evolves {} (set (c # cs)) t ?t" by (intro evolves_parent evolves_refl) simp
  moreover have "evolves {} (set (c # cs)) ?t t'" using t'(2) by (rule evolves_mono) auto
  ultimately have "evolves {} (set (c # cs)) t t'" by (rule evolves_trans)
  then show ?case using t' Cons.prems by simp
qed

section \<open>One level of a split\<close>

lemma lower_index_takeWhile:
  "index_keys ty ks \<Longrightarrow> index_key ty key \<Longrightarrow> lower_index key ks = Inr (length (takeWhile (\<lambda>k. rank k < rank key) ks))"
  by (induction ks) auto

text \<open>The parent \<open>p\<close>, which has \<open>l\<close> as a child, gets the separator and the new right sibling \<open>r\<close>.\<close>

lemma link_ok:
  assumes "p < length (bt_nodes t)" "l < length (bt_nodes t)" "r < length (bt_nodes t)" "p \<noteq> l" "p \<noteq> r"
    and n: "n = bt_nodes t ! p" "Some l \<in> set (bn_children n)" "Some r \<notin> set (bn_children n)"
    and keys: "bn_keys n = ks1 @ ks2" "lower_index sep (bn_keys n) = Inr (length ks1)"
    and children: "bn_children n = cs1 @ cs2" "length cs1 = Suc (length ks1)"
  obtains t' where "link_left p l nav sep (t, lg) = (Inr p, t\<lparr>bt_nodes := (bt_nodes t)[l := (bt_nodes t ! l)\<lparr>bn_parent := Some p\<rparr>]\<rparr>, lg)"
    "link_right p r sep (t\<lparr>bt_nodes := (bt_nodes t)[l := (bt_nodes t ! l)\<lparr>bn_parent := Some p\<rparr>]\<rparr>, lg) = (Inr (), t', lg)"
    "evolves {p} {l, r} t t'" "length (bt_nodes t') = length (bt_nodes t)" "bt_dirty t' = bt_dirty t"
    "core (bt_nodes t' ! p) = core (n\<lparr>bn_keys := ks1 @ sep # ks2, bn_children := cs1 @ Some r # cs2\<rparr>)"
proof -
  let ?t1 = "t\<lparr>bt_nodes := (bt_nodes t)[l := (bt_nodes t ! l)\<lparr>bn_parent := Some p\<rparr>]\<rparr>"
  let ?n = "n\<lparr>bn_keys := ks1 @ sep # ks2, bn_children := cs1 @ Some r # cs2\<rparr>"
  let ?t2 = "?t1\<lparr>bt_nodes := (bt_nodes ?t1)[p := ?n]\<rparr>"
  let ?t3 = "?t2\<lparr>bt_nodes := (bt_nodes ?t2)[r := (bt_nodes ?t2 ! r)\<lparr>bn_parent := Some p\<rparr>]\<rparr>"
  have "link_left p l nav sep (t, lg) = (Inr p, ?t1, lg)"
    using assms(1,2) n by (simp add: link_left_def sreturn_def)
  moreover have "link_right p r sep (?t1, lg) = (Inr (), ?t3, lg)"
  proof -
    have p1: "bt_nodes ?t1 ! p = n" using assms(1,4) n(1) by simp
    have "insert_child p sep r (?t1, lg) = (Inr (), ?t2, lg)"
      using assms(1) p1 keys children by (simp add: insert_child_def set_node_run)
    then show ?thesis
      using assms(1,3) p1 n(3) by (simp add: link_right_def sbind_cases(1) BPlusTree_setParent_def upd_node_run)
  qed
  moreover have "evolves {p} {l, r} t ?t3"
  proof (rule evolves_parent)
    show "evolves {p} {l, r} t ?t2" using assms(1,2,4) n(1) by (auto simp: evolves_def nth_upd)
  qed simp
  moreover have "core (bt_nodes ?t3 ! p) = core ?n" using assms(1,5) by (simp add: nth_upd)
  ultimately show thesis by (intro that [of ?t3]) simp_all
qed

text \<open>A full inner node splits.\<close>

lemma split_parent_ok:
  assumes "p < length (bt_nodes t)" "n = bt_nodes t ! p" "BPlusTreeNode_isFull n" "bn_children n = map Some cs"
    and "length cs = Suc (length (bn_keys n))" "\<forall>c \<in> set cs. c < length (bt_nodes t) \<and> c \<noteq> p"
  obtains k kl kr cl cr t' where "split_parent p (t, lg) = (Inr (k, length (bt_nodes t)), t', lg)"
    "bn_keys n = kl @ k # kr" "cs = cl @ cr" "length cl = Suc (length kl)" "length cr = Suc (length kr)" "kl \<noteq> []" "kr \<noteq> []"
    "evolves {p} (set cr) t t'" "length (bt_nodes t') = Suc (length (bt_nodes t))" "bt_dirty t' = bt_dirty (mark (length (bt_nodes t)) t)"
    "core (bt_nodes t' ! p) = core (n\<lparr>bn_keys := kl, bn_children := map Some cl, bn_high_key := Some k\<rparr>)"
    "core (bt_nodes t' ! length (bt_nodes t)) =
       core ((BPlusTreeNode_new False)\<lparr>bn_keys := kr, bn_children := map Some cr, bn_high_key := bn_high_key n\<rparr>)"
proof -
  let ?q = "length (bt_nodes t)"
  obtain k new left where sp: "BPlusTreeNode_splitInternalNode n = Inr (k, new, left)"
      "bn_keys n = bn_keys left @ k # bn_keys new" "bn_children n = bn_children left @ bn_children new"
      "length (bn_children left) = Suc (length (bn_keys left))" "length (bn_children new) = Suc (length (bn_keys new))"
      "bn_keys left \<noteq> []" "bn_keys new \<noteq> []" "left = n\<lparr>bn_keys := bn_keys left, bn_children := bn_children left\<rparr>"
      "new = (BPlusTreeNode_new False)\<lparr>bn_keys := bn_keys new, bn_children := bn_children new\<rparr>"
    by (rule splitInternalNode_parts [OF assms(3)]) (simp add: assms(4,5))
  obtain cl cr where c: "cs = cl @ cr" "bn_children left = map Some cl" "bn_children new = map Some cr"
    using sp(3) assms(4) by (auto simp: map_eq_append_conv)
  let ?t1 = "t\<lparr>bt_nodes := (bt_nodes t @ [new])[p := left]\<rparr>"
  obtain t2 where t2: "sfor (\<lambda>c. BPlusTree_setParent c ?q) (map Some cr) (?t1, lg) = (Inr (), t2, lg)" "evolves {} (set cr) ?t1 t2"
      "length (bt_nodes t2) = length (bt_nodes ?t1)" "bt_dirty t2 = bt_dirty ?t1"
  proof -
    have "\<forall>c \<in> set cr. c < length (bt_nodes ?t1)" using assms(6) c(1) by (auto intro: less_SucI)
    from setParents_ok [OF this] show thesis using that by blast
  qed
  let ?t3 = "t2\<lparr>bt_nodes := (bt_nodes t2)[?q := (bt_nodes t2 ! ?q)\<lparr>bn_right_link := bn_right_link n, bn_high_key := bn_high_key n\<rparr>]\<rparr>"
  let ?t4 = "?t3\<lparr>bt_nodes := (bt_nodes ?t3)[p := (bt_nodes ?t3 ! p)\<lparr>bn_right_link := Some ?q, bn_high_key := Some k\<rparr>]\<rparr>"
  have run: "split_parent p (t, lg) = (Inr (k, ?q), mark ?q ?t4, lg)"
    using assms(1,2) sp(1) c(3) t2(1,3) by (simp add: split_parent_def sbind_cases(1) sreturn_def)
  have at: "core (bt_nodes t2 ! p) = core left" "core (bt_nodes t2 ! ?q) = core new"
    using t2(2) assms(1) by (simp_all add: evolves_def nth_append nth_upd)
  have left: "bn_parent left = bn_parent n" "bn_high_key left = bn_high_key n" by (subst sp(8), simp)+
  have ev: "evolves {p} (set cr) t ?t1" using assms(1,2) left(1) by (auto simp: evolves_def nth_upd nth_append)
  have "evolves {p} (set cr) ?t1 t2" using t2(2) by (rule evolves_mono) auto
  then have "evolves {p} (set cr) t t2" by (rule evolves_trans [OF ev])
  then have ev4: "evolves {p} (set cr) t ?t4" using t2(3) by (auto simp: evolves_def nth_upd)
  have hk: "core (m\<lparr>bn_right_link := x, bn_high_key := y\<rparr>) = (core m)\<lparr>bn_high_key := y\<rparr>" for m x y
    by (simp add: core_def)
  have corep: "core (bt_nodes ?t4 ! p) = core (n\<lparr>bn_keys := bn_keys left, bn_children := map Some cl, bn_high_key := Some k\<rparr>)"
    using assms(1) t2(3) at(1) by (simp add: nth_upd hk) (subst sp(8), simp add: core_def c(2))
  have coreq: "core (bt_nodes ?t4 ! ?q) = core ((BPlusTreeNode_new False)\<lparr>bn_keys := bn_keys new, bn_children := map Some cr, bn_high_key := bn_high_key n\<rparr>)"
    using assms(1) t2(3) at(2) by (simp add: nth_upd hk) (subst sp(9), simp add: core_def c(3))
  have lens: "length cl = Suc (length (bn_keys left))" "length cr = Suc (length (bn_keys new))" using sp(4,5) c(2,3) by simp_all
  have dirty: "bt_dirty (mark ?q ?t4) = bt_dirty (mark ?q t)" using t2(4) by (simp add: mark_def)
  show thesis
  proof (rule that [OF run sp(2) c(1) lens sp(6,7)])
    show "evolves {p} (set cr) t (mark ?q ?t4)" unfolding evolves_mark by (rule ev4)
    show "length (bt_nodes (mark ?q ?t4)) = Suc (length (bt_nodes t))" using t2(3) by simp
    show "core (bt_nodes (mark ?q ?t4) ! p) = core (n\<lparr>bn_keys := bn_keys left, bn_children := map Some cl, bn_high_key := Some k\<rparr>)"
      unfolding mark_fields by (rule corep)
    show "core (bt_nodes (mark ?q ?t4) ! ?q) =
        core ((BPlusTreeNode_new False)\<lparr>bn_keys := bn_keys new, bn_children := map Some cr, bn_high_key := bn_high_key n\<rparr>)"
      unfolding mark_fields by (rule coreq)
  qed (rule dirty)
qed

section \<open>Propagating a split one level up\<close>

text \<open>A subtree that has been split in two at \<open>sep\<close>.\<close>

definition split_at :: "KeyTypeTag \<Rightarrow> nodes \<Rightarrow> bound \<Rightarrow> bound \<Rightarrow> btree \<Rightarrow> btree \<Rightarrow> Key \<Rightarrow> bool" where
  "split_at ty h lo hi Tl Tr sep \<longleftrightarrow> wf_tree ty h lo (Some (rank sep)) Tl \<and> wf_tree ty h (Some (rank sep)) hi Tr \<and> index_key ty sep
     \<and> gt_lo lo (rank sep) \<and> lt_hi hi (rank sep) \<and> bn_keys (h ! top_ref Tl) \<noteq> []"

lemma next_bound_hi: "wf_suf ty h lo ks hi cs \<Longrightarrow> lt_hi (next_bound ks hi) x \<Longrightarrow> lt_hi hi x"
  by (cases ks) (auto intro: under_trans)

lemma wf_suf_lo: "wf_suf ty h lo ks hi cs \<Longrightarrow> lt_hi (next_bound ks hi) x \<Longrightarrow> wf_suf ty h (Some x) ks hi cs"
  by (cases ks) (auto simp: gt_lo_def lt_hi_def)

lemma wf_linked:
  assumes "wf_pre ty h lo ks1 hi cs1" "wf_suf ty h (last_bound lo ks1) ks2 hi cs2" "length ks1 = length cs1"
    and "split_at ty h (last_bound lo ks1) (next_bound ks2 hi) Tl Tr sep"
  shows "wf_kids ty h lo (ks1 @ sep # ks2) hi (cs1 @ Tl # Tr # cs2)"
  using assms wf_suf_lo [OF assms(2)] next_bound_hi [OF assms(2)] by (simp add: wf_kids_append wf_kids_Cons [of _ _ _ ks2] split_at_def)

lemma nav_ok:
  assumes "wf_tree ty h lo hi T" "bn_keys (h ! top_ref T) = k # ks"
  shows "index_key ty k" "lt_hi hi (rank k)"
  using assms
proof (atomize (full), cases T)
  case (Inner p cs)
  then obtain c cs' where "cs = c # cs'" using assms(1) by (cases cs) auto
  with Inner assms show "index_key ty k \<and> lt_hi hi (rank k)" by (auto simp: wf_inner_def)
qed (auto simp: wf_leaf_def leaf_ok_def)

lemma wf_pre_keys: "wf_pre ty h lo ks hi cs \<Longrightarrow> gt_lo (last_bound lo ks) x \<Longrightarrow> k \<in> set ks \<Longrightarrow> rank k < x"
proof (induction ks arbitrary: lo cs)
  case (Cons s ks)
  then obtain c cs' where cs: "cs = c # cs'" by (cases cs) auto
  have "rank s < x"
  proof (cases ks)
    case Nil
    with Cons.prems show ?thesis by (simp add: gt_lo_def)
  next
    case (Cons s' ks')
    have "ge_lo (last_bound (Some (rank s)) ks) (rank (last ks))" using Cons by (simp add: last_bound_def ge_lo_def)
    then have "rank s \<le> rank (last ks)" using above_last_bound [of ty h "Some (rank s)" ks hi cs'] Cons.prems cs by (simp add: ge_lo_def)
    with Cons.prems Cons show ?thesis by (simp add: last_bound_def gt_lo_def)
  qed
  with Cons cs show ?case by auto
qed simp

lemma lower_index_split:
  assumes "wf_pre ty h lo ks1 hi cs1" "wf_suf ty h (last_bound lo ks1) ks2 hi cs2" "index_keys ty (ks1 @ ks2)" "index_key ty sep"
    and "gt_lo (last_bound lo ks1) (rank sep)" "lt_hi (next_bound ks2 hi) (rank sep)"
  shows "lower_index sep (ks1 @ ks2) = Inr (length ks1)"
proof -
  have "takeWhile (\<lambda>k. rank k < rank sep) (ks1 @ ks2) = ks1"
    using wf_pre_keys [OF assms(1,5)] assms(6) by (cases ks2) (auto simp: lt_hi_def takeWhile_append)
  then show ?thesis using lower_index_takeWhile [OF assms(3,4)] by simp
qed

lemma find_parent_hint:
  assumes "p < length (bt_nodes t)" "\<not> bn_is_merged_away (bt_nodes t ! p)"
  shows "find_parent (p # A) l r sep (t, lg) = (Inr (Some (p, A)), t, lg)"
proof -
  have "live_hint (p # A) (t, lg) = (Inr (Some p, A), t, lg)" using assms by (simp add: sreturn_def)
  then show ?thesis by (simp add: find_parent_def sbind_cases(1) sreturn_def del: live_hint.simps)
qed

lemma evolves_compose:
  "evolves S P t t1 \<Longrightarrow> evolves S' P' t1 t2 \<Longrightarrow> evolves (S \<union> S') (P \<union> P') t t2"
  by (auto simp: evolves_def)

lemma evolves_restrict:
  "evolves S P t t' \<Longrightarrow> (\<And>q. q < length (bt_nodes t) \<Longrightarrow> q \<in> S \<Longrightarrow> q \<in> S') \<Longrightarrow>
   (\<And>q. q < length (bt_nodes t) \<Longrightarrow> q \<in> P \<Longrightarrow> q \<in> P') \<Longrightarrow> evolves S' P' t t'"
  unfolding evolves_def by blast

text \<open>The linking half of an iteration of \<open>propagateSplit\<close>: \<open>p\<close> gets the new child.\<close>

lemma propagate_link:
  assumes "p < length (bt_nodes t)" "wf_inner ty hi (map top_ref (cs1 @ c # cs2)) (bt_nodes t ! p)"
    and ks: "bn_keys (bt_nodes t ! p) = ks1 @ ks2" "length ks1 = length cs1"
    and wf: "wf_pre ty (bt_nodes t) lo ks1 hi cs1" "wf_suf ty (bt_nodes t) (last_bound lo ks1) ks2 hi cs2"
      "split_at ty (bt_nodes t) (last_bound lo ks1) (next_bound ks2 hi) Tl Tr sep" "top_ref Tl = top_ref c"
    and dist: "distinct (p # concat (map refs (cs1 @ Tl # Tr # cs2)))"
  obtains t' where "propagate_from (Suc fuel) (p # A) (top_ref Tl) (top_ref Tr) sep (t, lg) =
      (if \<not> BPlusTreeNode_isFull (bt_nodes t' ! p) then (Inr (), t', lg)
       else sbind (split_parent p) (\<lambda>(push_up_key, new_internal). propagate_from fuel A p new_internal push_up_key) (t', lg))"
    "evolves {p} {top_ref Tl, top_ref Tr} t t'" "length (bt_nodes t') = length (bt_nodes t)" "bt_dirty t' = bt_dirty (mark p t)"
    "core (bt_nodes t' ! p) = core ((bt_nodes t ! p)\<lparr>bn_keys := ks1 @ sep # ks2, bn_children := map (Some \<circ> top_ref) (cs1 @ Tl # Tr # cs2)\<rparr>)"
proof -
  let ?h = "bt_nodes t" and ?n = "bt_nodes t ! p"
  have Tl: "wf_tree ty ?h (last_bound lo ks1) (Some (rank sep)) Tl" and Tr: "wf_tree ty ?h (Some (rank sep)) (next_bound ks2 hi) Tr"
    and sep: "index_key ty sep" "gt_lo (last_bound lo ks1) (rank sep)" "lt_hi (next_bound ks2 hi) (rank sep)" and ne: "bn_keys (?h ! top_ref Tl) \<noteq> []"
    using wf(3) by (simp_all add: split_at_def)
  obtain nav navs where nav: "bn_keys (?h ! top_ref Tl) = nav # navs" using ne by (cases "bn_keys (?h ! top_ref Tl)") auto
  have hi: "lt_hi hi (rank sep)" by (rule next_bound_hi [OF wf(2) sep(3)])
  have nav_ok: "index_key ty nav" "lt_hi hi (rank nav)" using nav_ok [OF Tl nav] hi by (auto intro: under_trans)
  have n: "\<not> bn_is_merged_away ?n" "high_ok ty hi (bn_high_key ?n)" "bn_children ?n = map (Some \<circ> top_ref) (cs1 @ c # cs2)" "index_keys ty (ks1 @ ks2)"
    using assms(2) ks(1) by (simp_all add: wf_inner_def)
  have tops: "top_ref Tl < length ?h" "top_ref Tr < length ?h" using wf_top Tl Tr by blast+
  have "top_ref d \<in> set (concat (map refs (cs1 @ Tl # cs2)))" if "d \<in> set (cs1 @ c # cs2)" for d
    using that top_in_refs [of d] top_in_refs [of Tl] wf(4) by auto
  then have "set (map top_ref (cs1 @ c # cs2)) \<subseteq> set (concat (map refs (cs1 @ Tl # cs2)))" by auto
  moreover have "top_ref Tr \<notin> set (concat (map refs (cs1 @ Tl # cs2)))" using dist top_in_refs [of Tr] by auto
  ultimately have fresh: "top_ref Tr \<notin> set (map top_ref (cs1 @ c # cs2))" by blast
  have pne: "p \<noteq> top_ref Tl" "p \<noteq> top_ref Tr" using dist top_in_refs [of Tl] top_in_refs [of Tr] by auto
  obtain t' where t': "link_left p (top_ref Tl) nav sep (t, lg) = (Inr p, t\<lparr>bt_nodes := ?h[top_ref Tl := (?h ! top_ref Tl)\<lparr>bn_parent := Some p\<rparr>]\<rparr>, lg)"
    "link_right p (top_ref Tr) sep (t\<lparr>bt_nodes := ?h[top_ref Tl := (?h ! top_ref Tl)\<lparr>bn_parent := Some p\<rparr>]\<rparr>, lg) = (Inr (), t', lg)"
    "evolves {p} {top_ref Tl, top_ref Tr} t t'" "length (bt_nodes t') = length ?h" "bt_dirty t' = bt_dirty t"
    "core (bt_nodes t' ! p) = core (?n\<lparr>bn_keys := ks1 @ sep # ks2,
       bn_children := map (Some \<circ> top_ref) (cs1 @ [c]) @ Some (top_ref Tr) # map (Some \<circ> top_ref) cs2\<rparr>)"
  proof (rule link_ok [where p = p and l = "top_ref Tl" and r = "top_ref Tr" and n = ?n and ?ks1.0 = ks1 and ?ks2.0 = ks2 and sep = sep
        and ?cs1.0 = "map (Some \<circ> top_ref) (cs1 @ [c])" and ?cs2.0 = "map (Some \<circ> top_ref) cs2" and nav = nav and lg = lg])
    show "lower_index sep (bn_keys ?n) = Inr (length ks1)" unfolding ks(1) by (rule lower_index_split [OF wf(1,2) n(4) sep])
    show "Some (top_ref Tl) \<in> set (bn_children ?n)" using n(3) wf(4) by simp
    show "Some (top_ref Tr) \<notin> set (bn_children ?n)" using n(3) fresh by auto
  qed (use assms(1) tops pne ks n(3) in simp_all)
  show thesis
  proof (rule that [of "mark p t'"])
    show "propagate_from (Suc fuel) (p # A) (top_ref Tl) (top_ref Tr) sep (t, lg) =
      (if \<not> BPlusTreeNode_isFull (bt_nodes (mark p t') ! p) then (Inr (), mark p t', lg)
       else sbind (split_parent p) (\<lambda>(push_up_key, new_internal). propagate_from fuel A p new_internal push_up_key) (mark p t', lg))"
      using assms(1) tops nav t'(1,2,4) moveRight_stays [OF assms(1) n(2) nav_ok] moveRight_stays [OF assms(1) n(2) sep(1) hi]
        find_parent_hint [OF assms(1) n(1)]
      by (simp add: sbind_cases(1) sreturn_def)
    show "bt_dirty (mark p t') = bt_dirty (mark p t)" using t'(5) by (simp add: mark_def)
  qed (use t'(3,4,6) wf(4) in simp_all)
qed


text \<open>The children of a node split with the node.\<close>

lemma gt_last_bound: "wf_pre ty h lo ks hi cs \<Longrightarrow> gt_lo (last_bound lo ks) x \<Longrightarrow> gt_lo lo x"
proof (induction ks arbitrary: lo cs)
  case (Cons k ks)
  then obtain c cs' where "cs = c # cs'" by (cases cs) auto
  with Cons have "gt_lo (Some (rank k)) x" "gt_lo lo (rank k)" by auto
  then show ?case by (auto simp: gt_lo_def split: option.splits)
qed simp

lemma wf_pre_hi: "wf_pre ty h lo ks hi cs \<Longrightarrow> \<forall>k \<in> set ks. lt_hi hi' (rank k) \<Longrightarrow> wf_pre ty h lo ks hi' cs"
  by (induction ty h lo ks hi cs rule: wf_pre.induct) auto

lemma wf_kids_halves:
  assumes "wf_kids ty h lo (kl @ k # kr) hi (cl @ cr)" "length cl = Suc (length kl)"
  shows "wf_kids ty h lo kl (Some (rank k)) cl" "wf_kids ty h (Some (rank k)) kr hi cr" "gt_lo lo (rank k)" "lt_hi hi (rank k)"
proof -
  obtain cl' c where cl: "cl = cl' @ [c]" using assms(2) by (cases cl rule: rev_cases) auto
  have len: "length kl = length cl'" using assms(2) cl by simp
  have wf: "wf_pre ty h lo kl hi cl'" "wf_tree ty h (last_bound lo kl) (Some (rank k)) c" "gt_lo (last_bound lo kl) (rank k)"
      "lt_hi hi (rank k)" "wf_kids ty h (Some (rank k)) kr hi cr"
    using assms(1) by (simp_all add: cl wf_kids_append [OF len])
  have "wf_pre ty h lo kl (Some (rank k)) cl'"
    using wf_pre_keys [OF wf(1,3)] by (intro wf_pre_hi [OF wf(1)]) (simp add: lt_hi_def)
  then show "wf_kids ty h lo kl (Some (rank k)) cl"
    using wf(2) wf_kids_append [OF len, of ty h lo "[]" "Some (rank k)" "[c]"] by (simp add: cl)
  show "gt_lo lo (rank k)" by (rule gt_last_bound [OF wf(1,3)])
  show "wf_kids ty h (Some (rank k)) kr hi cr" "lt_hi hi (rank k)" by (rule wf)+
qed

lemma kids_bound: "wf_kids ty h lo ks hi cs \<Longrightarrow> r \<in> (\<Union>c \<in> set cs. set (refs c)) \<Longrightarrow> r < length h"
  by (auto elim!: wf_kids_mem dest: refs_bound)

lemma propagate_step:
  assumes "p < length (bt_nodes t)" "wf_inner ty hi (map top_ref (cs1 @ c # cs2)) (bt_nodes t ! p)"
    and ks: "bn_keys (bt_nodes t ! p) = ks1 @ ks2" "length ks1 = length cs1"
    and wf: "wf_pre ty (bt_nodes t) lo ks1 hi cs1" "wf_suf ty (bt_nodes t) (last_bound lo ks1) ks2 hi cs2"
      "split_at ty (bt_nodes t) (last_bound lo ks1) (next_bound ks2 hi) Tl Tr sep" "top_ref Tl = top_ref c"
    and dist: "distinct (p # concat (map refs (cs1 @ Tl # Tr # cs2)))"
  obtains (linked) t' where "propagate_from (Suc fuel) (p # A) (top_ref Tl) (top_ref Tr) sep (t, lg) = (Inr (), t', lg)"
      "wf_tree ty (bt_nodes t') lo hi (Inner p (cs1 @ Tl # Tr # cs2))"
      "evolves {p} (top_ref ` set (cs1 @ Tl # Tr # cs2)) t t'" "length (bt_nodes t') = length (bt_nodes t)"
  | (split) t' k csl csr where "propagate_from (Suc fuel) (p # A) (top_ref Tl) (top_ref Tr) sep (t, lg) =
        propagate_from fuel A p (length (bt_nodes t)) k (t', lg)"
      "split_at ty (bt_nodes t') lo hi (Inner p csl) (Inner (length (bt_nodes t)) csr) k" "csl @ csr = cs1 @ Tl # Tr # cs2"
      "evolves {p} (top_ref ` set (cs1 @ Tl # Tr # cs2)) t t'" "length (bt_nodes t') = Suc (length (bt_nodes t))"
proof -
  let ?cs = "cs1 @ Tl # Tr # cs2" and ?q = "length (bt_nodes t)" and ?n = "bt_nodes t ! p"
  let ?U = "\<Union>c \<in> set ?cs. set (refs c)"
  have kids: "wf_kids ty (bt_nodes t) lo (ks1 @ sep # ks2) hi ?cs" by (rule wf_linked [OF wf(1,2) ks(2) wf(3)])
  have U: "q < ?q" if "q \<in> ?U" for q using kids_bound [OF kids] that by blast
  have pU: "p \<notin> ?U" using dist by auto
  have inU: "top_ref d \<in> ?U" if "d \<in> set ?cs" for d using that top_in_refs by blast
  have sep: "index_keys ty (ks1 @ sep # ks2)" "high_ok ty hi (bn_high_key ?n)"
    using assms(2) wf(3) by (simp_all add: wf_inner_def split_at_def ks(1) index_keys_def)
  obtain t1 where t1: "propagate_from (Suc fuel) (p # A) (top_ref Tl) (top_ref Tr) sep (t, lg) =
      (if \<not> BPlusTreeNode_isFull (bt_nodes t1 ! p) then (Inr (), t1, lg)
       else sbind (split_parent p) (\<lambda>(push_up_key, new_internal). propagate_from fuel A p new_internal push_up_key) (t1, lg))"
    "evolves {p} {top_ref Tl, top_ref Tr} t t1" "length (bt_nodes t1) = ?q" "bt_dirty t1 = bt_dirty (mark p t)"
    "core (bt_nodes t1 ! p) = core (?n\<lparr>bn_keys := ks1 @ sep # ks2, bn_children := map (Some \<circ> top_ref) ?cs\<rparr>)"
    by (rule propagate_link [OF assms(1,2) ks wf dist])
  have ev1: "evolves {p} (top_ref ` set ?cs) t t1" using t1(2) by (rule evolves_mono) auto
  have n1: "bn_keys (bt_nodes t1 ! p) = ks1 @ sep # ks2" "bn_children (bt_nodes t1 ! p) = map Some (map top_ref ?cs)"
      "bn_is_leaf (bt_nodes t1 ! p) = bn_is_leaf ?n" "bn_high_key (bt_nodes t1 ! p) = bn_high_key ?n"
      "bn_is_merged_away (bt_nodes t1 ! p) = bn_is_merged_away ?n"
    using core_eq [OF t1(5)] by simp_all
  have ag1: "agree ?U (bt_nodes t) (bt_nodes t1)" by (rule evolves_agree [OF ev1]) (use pU U in blast)+
  show thesis
  proof (cases "BPlusTreeNode_isFull (bt_nodes t1 ! p)")
    case False
    have "wf_inner ty hi (map top_ref ?cs) (bt_nodes t1 ! p)"
      using assms(2) False sep n1 by (simp add: wf_inner_def BPlusTreeNode_isFull_def)
    then have "wf_tree ty (bt_nodes t1) lo hi (Inner p ?cs)"
      using agree_wf(2) [OF ag1 kids] assms(1) t1(3) n1(1) by simp
    then show thesis using linked t1(1,3) ev1 False by simp
  next
    case True
    have p1: "p < length (bt_nodes t1)" using assms(1) t1(3) by simp
    have len: "length (map top_ref ?cs) = Suc (length (bn_keys (bt_nodes t1 ! p)))" using wf_kids_length [OF kids] n1(1) by simp
    have b: "\<forall>d \<in> set (map top_ref ?cs). d < length (bt_nodes t1) \<and> d \<noteq> p"
    proof
      fix d assume "d \<in> set (map top_ref ?cs)"
      then obtain c' where "c' \<in> set ?cs" "d = top_ref c'" unfolding set_map by (rule imageE)
      then have "d \<in> ?U" using inU by blast
      then show "d < length (bt_nodes t1) \<and> d \<noteq> p" using U pU t1(3) by metis
    qed
    obtain k kl kr cl cr t2 where t2: "split_parent p (t1, lg) = (Inr (k, length (bt_nodes t1)), t2, lg)"
      "bn_keys (bt_nodes t1 ! p) = kl @ k # kr" "map top_ref ?cs = cl @ cr" "length cl = Suc (length kl)" "length cr = Suc (length kr)" "kl \<noteq> []" "kr \<noteq> []"
      "evolves {p} (set cr) t1 t2" "length (bt_nodes t2) = Suc (length (bt_nodes t1))" "bt_dirty t2 = bt_dirty (mark (length (bt_nodes t1)) t1)"
      "core (bt_nodes t2 ! p) = core ((bt_nodes t1 ! p)\<lparr>bn_keys := kl, bn_children := map Some cl, bn_high_key := Some k\<rparr>)"
      "core (bt_nodes t2 ! length (bt_nodes t1)) =
         core ((BPlusTreeNode_new False)\<lparr>bn_keys := kr, bn_children := map Some cr, bn_high_key := bn_high_key (bt_nodes t1 ! p)\<rparr>)"
      by (rule split_parent_ok [OF p1 refl True n1(2) len b])
    obtain csl csr where cs: "?cs = csl @ csr" "map top_ref csl = cl" "map top_ref csr = cr"
      using map_eq_append_conv [THEN iffD1, OF t2(3)] by blast
    have "evolves {p} (top_ref ` set ?cs) t1 t2" using t2(8) by (rule evolves_mono) (auto simp: cs simp flip: cs(3))
    then have ev2: "evolves {p} (top_ref ` set ?cs) t t2" by (rule evolves_trans [OF ev1])
    have ag2: "agree ?U (bt_nodes t) (bt_nodes t2)" by (rule evolves_agree [OF ev2]) (use pU U in blast)+
    have keys: "ks1 @ sep # ks2 = kl @ k # kr" using t2(2) n1(1) by simp
    have halves: "wf_kids ty (bt_nodes t2) lo kl (Some (rank k)) csl" "wf_kids ty (bt_nodes t2) (Some (rank k)) kr hi csr"
        "gt_lo lo (rank k)" "lt_hi hi (rank k)"
      using wf_kids_halves [OF agree_wf(2) [OF ag2 kids, unfolded keys cs(1)]] t2(4) cs(2) by auto
    have "length kl + length kr < ORDER" using arg_cong [OF keys, of length] assms(2) by (simp add: wf_inner_def ks(1))
    then have lens: "length kl < ORDER" "length kr < ORDER" "index_key ty k" "index_keys ty kl" "index_keys ty kr"
      using sep(1) unfolding keys by (simp_all add: index_keys_def)
    have p2: "bn_keys (bt_nodes t2 ! p) = kl" "wf_inner ty (Some (rank k)) (map top_ref csl) (bt_nodes t2 ! p)"
      using core_eq [OF t2(11)] n1 t2(6) lens assms(2) by (simp_all add: wf_inner_def high_ok_def cs)
    have q2: "bn_keys (bt_nodes t2 ! ?q) = kr" "wf_inner ty hi (map top_ref csr) (bt_nodes t2 ! ?q)"
      using core_eq [OF t2(12)] n1 t2(7) lens sep(2) by (simp_all add: wf_inner_def cs t1(3) BPlusTreeNode_new_def)
    have "split_at ty (bt_nodes t2) lo hi (Inner p csl) (Inner ?q csr) k"
      using halves p2 q2 lens(3) assms(1) t2(6,9) t1(3) by (simp add: split_at_def)
    then show thesis using split [of k t2 csl csr] cs(1) ev2 t2(1,9) t1(1,3) True by (simp add: sbind_cases(1))
  qed
qed


section \<open>Propagating a split along the path\<close>

text \<open>
  The subtree \<open>T\<close> of \<open>t\<close> has become \<open>T'\<close> in \<open>t'\<close>, with leaves \<open>ls\<close>: no node but those of \<open>T\<close>, the node \<open>new\<close> and nodes made since.
\<close>

definition regrown :: "BPlusTree \<Rightarrow> btree \<Rightarrow> nat \<Rightarrow> BPlusTree \<Rightarrow> btree list \<Rightarrow> nat list \<Rightarrow> bool" where
  "regrown t T new t' Ts ls \<longleftrightarrow> top_ref (hd Ts) = top_ref T \<and> concat (map leaves Ts) = ls \<and> distinct (concat (map refs Ts)) \<and> Ts \<noteq> []
     \<and> set (concat (map refs Ts)) \<subseteq> insert new (set (refs T)) \<union> {length (bt_nodes t)..<length (bt_nodes t')}
     \<and> length (bt_nodes t) \<le> length (bt_nodes t')"

definition after :: "nat \<Rightarrow> nat \<Rightarrow> nat list \<Rightarrow> nat list" where
  "after r new ls = concat (map (\<lambda>l. if l = r then [r, new] else [l]) ls)"

lemma after_simps [simp]:
  "after r new [] = []" "after r new (ls @ ms) = after r new ls @ after r new ms" "after r new (l # ls) = (if l = r then [r, new] else [l]) @ after r new ls"
  by (simp_all add: after_def)

lemma after_id [simp]: "r \<notin> set ls \<Longrightarrow> after r new ls = ls"
  by (induction ls) auto

lemma path_refs: "path h T lo hi hs r lo' hi' \<Longrightarrow> r \<in> set (refs T) \<and> set hs \<subseteq> set (refs T)"
  by (induction rule: path.induct) auto

lemma regrown_inner:
  assumes "regrown t c new t1 Ts ls" "distinct (refs (Inner p (cs1 @ c # cs2)))" "new \<notin> set (refs (Inner p (cs1 @ c # cs2)))"
    and "\<forall>q \<in> set (refs (Inner p (cs1 @ c # cs2))). q < length (bt_nodes t)"
  shows "distinct (p # concat (map refs (cs1 @ Ts @ cs2)))"
    "set (p # concat (map refs (cs1 @ Ts @ cs2))) \<subseteq> insert new (set (refs (Inner p (cs1 @ c # cs2)))) \<union> {length (bt_nodes t)..<length (bt_nodes t1)}"
proof -
  let ?O = "set (concat (map refs (cs1 @ cs2)))" and ?S = "set (concat (map refs Ts))"
  have sub: "?S \<subseteq> insert new (set (refs c)) \<union> {length (bt_nodes t)..<length (bt_nodes t1)}" and d: "distinct (concat (map refs Ts))"
    using assms(1) by (simp_all add: regrown_def)
  have old: "q < length (bt_nodes t)" if "q \<in> insert p ?O" for q using assms(4) that by auto
  have "insert p ?O \<inter> insert new (set (refs c)) = {}" using assms(2,3) by auto
  then have disj: "insert p ?O \<inter> ?S = {}" using sub old by fastforce
  have "distinct (concat (map refs cs1) @ concat (map refs cs2))" "p \<notin> ?O" using assms(2) by auto
  then show "distinct (p # concat (map refs (cs1 @ Ts @ cs2)))" using disj d by auto
  show "set (p # concat (map refs (cs1 @ Ts @ cs2))) \<subseteq> insert new (set (refs (Inner p (cs1 @ c # cs2)))) \<union> {length (bt_nodes t)..<length (bt_nodes t1)}"
    using sub by auto
qed


lemma regrown_grow:
  assumes "regrown t c new t1 Ts (after r new (leaves c))" "distinct (refs (Inner p (cs1 @ c # cs2)))" "new \<notin> set (refs (Inner p (cs1 @ c # cs2)))"
    and "\<forall>q \<in> set (refs (Inner p (cs1 @ c # cs2))). q < length (bt_nodes t)" "r \<in> set (refs c)" "length (bt_nodes t2) = length (bt_nodes t1)"
  shows "regrown t (Inner p (cs1 @ c # cs2)) new t2 [Inner p (cs1 @ Ts @ cs2)] (after r new (leaves (Inner p (cs1 @ c # cs2))))"
proof -
  have r: "r \<notin> set (concat (map leaves cs1))" "r \<notin> set (concat (map leaves cs2))"
    using assms(2,5) leaves_sub_refs by fastforce+
  then show ?thesis
    using regrown_inner [OF assms(1-4)] assms(1,6) unfolding regrown_def by (simp del: set_concat)
qed

lemma regrown_split:
  assumes "regrown t c new t1 Ts (after r new (leaves c))" "distinct (refs (Inner p (cs1 @ c # cs2)))" "new \<notin> set (refs (Inner p (cs1 @ c # cs2)))"
    and "\<forall>q \<in> set (refs (Inner p (cs1 @ c # cs2))). q < length (bt_nodes t)" "r \<in> set (refs c)" "length (bt_nodes t2) = Suc (length (bt_nodes t1))"
    and "csl @ csr = cs1 @ Ts @ cs2" "new < length (bt_nodes t)"
  shows "regrown t (Inner p (cs1 @ c # cs2)) new t2 [Inner p csl, Inner (length (bt_nodes t1)) csr] (after r new (leaves (Inner p (cs1 @ c # cs2))))"
proof -
  have r: "r \<notin> set (concat (map leaves cs1))" "r \<notin> set (concat (map leaves cs2))"
    using assms(2,5) leaves_sub_refs by fastforce+
  have lv: "concat (map leaves csl) @ concat (map leaves csr) = after r new (leaves (Inner p (cs1 @ c # cs2)))"
    using assms(1) r unfolding concat_append [symmetric] map_append [symmetric] assms(7) by (simp add: regrown_def)
  note old = regrown_inner [OF assms(1-4)]
  let ?R = "p # concat (map refs (cs1 @ Ts @ cs2))" and ?q = "length (bt_nodes t1)"
  have le: "length (bt_nodes t) \<le> length (bt_nodes t1)" using assms(1) by (simp add: regrown_def)
  have "?q \<notin> insert new (set (refs (Inner p (cs1 @ c # cs2)))) \<union> {length (bt_nodes t)..<?q}"
    using assms(4,8) le by fastforce
  then have q: "?q \<notin> set ?R" using old(2) by blast
  have R: "set (concat (map refs [Inner p csl, Inner ?q csr])) = insert ?q (set ?R)" "distinct (concat (map refs [Inner p csl, Inner ?q csr]))"
    using q old(1) unfolding assms(7) [symmetric] by auto
  have "set ?R \<subseteq> insert new (set (refs (Inner p (cs1 @ c # cs2)))) \<union> {length (bt_nodes t)..<length (bt_nodes t2)}"
    using old(2) assms(6) by fastforce
  then show ?thesis unfolding regrown_def using R lv le assms(6) by simp
qed


lemma propagate_path:
  assumes "path h T lo hi hs r lo' hi'" "wf_tree ty h lo hi T" "distinct (refs T)"
    and "agree (set (refs T) - {r}) h (bt_nodes t)" "split_at ty (bt_nodes t) lo' hi' (Leaf r) (Leaf new) sk"
    and "new \<notin> set (refs T)" "\<forall>q \<in> set (refs T). q < length (bt_nodes t)"
  shows "(\<exists>T' t'. propagate_from (fuel + length hs) (hs @ A) r new sk (t, lg) = (Inr (), t', lg) \<and> wf_tree ty (bt_nodes t') lo hi T'
      \<and> regrown t T new t' [T'] (after r new (leaves T)) \<and> evolves (set hs) (insert new (set (refs T) - {top_ref T})) t t')
    \<or> (\<exists>Tl Tr sep t'. propagate_from (fuel + length hs) (hs @ A) r new sk (t, lg) = propagate_from fuel A (top_ref Tl) (top_ref Tr) sep (t', lg)
      \<and> split_at ty (bt_nodes t') lo hi Tl Tr sep
      \<and> regrown t T new t' [Tl, Tr] (after r new (leaves T)) \<and> evolves (set hs) (insert new (set (refs T) - {top_ref T})) t t')"
  using assms
proof (induction arbitrary: fuel A rule: path.induct)
  case (path_leaf r lo hi)
  then have "regrown t (Leaf r) new t [Leaf r, Leaf new] (after r new (leaves (Leaf r)))" by (simp add: regrown_def)
  with path_leaf show ?case
    by (intro disjI2 exI [of _ "Leaf r"] exI [of _ "Leaf new"] exI [of _ sk] exI [of _ t]) (simp add: evolves_refl)
next
  case (path_inner p ks1 ks2 cs1 c lo hi hs r lo' hi' cs2)
  let ?T = "Inner p (cs1 @ c # cs2)" and ?X = "insert p (set (concat (map refs (cs1 @ cs2))))"
  let ?run = "propagate_from (fuel + length (hs @ [p])) ((hs @ [p]) @ A) r new sk (t, lg)"
  have kids: "wf_pre ty h lo ks1 hi cs1" "wf_tree ty h (last_bound lo ks1) (next_bound ks2 hi) c"
      "wf_suf ty h (last_bound lo ks1) ks2 hi cs2" and inner: "wf_inner ty hi (map top_ref (cs1 @ c # cs2)) (h ! p)" and p: "p < length h"
    using path_inner.prems(1) path_inner.hyps(1,2) by (auto simp: wf_kids_split)
  have rc: "r \<in> set (refs c)" "set hs \<subseteq> set (refs c)" using path_refs [OF path_inner.hyps(3)] by auto
  have new: "new < length (bt_nodes t)" using path_inner.prems(4) by (simp add: split_at_def)
  have disj: "?X \<inter> set (refs c) = {}" using path_inner.prems(2) by auto
  have Xb: "q < length (bt_nodes t)" if "q \<in> ?X" for q using path_inner.prems(6) that by auto
  have around: "wf_inner ty hi (map top_ref (cs1 @ c # cs2)) (bt_nodes t1 ! p)" "bn_keys (bt_nodes t1 ! p) = ks1 @ ks2" "p < length (bt_nodes t1)"
      "wf_pre ty (bt_nodes t1) lo ks1 hi cs1" "wf_suf ty (bt_nodes t1) (last_bound lo ks1) ks2 hi cs2"
    if ev: "evolves (set hs) P t t1" for t1 P
  proof -
    have "agree ?X h (bt_nodes t)" using path_inner.prems(3) by (rule agree_mono) (use disj rc(1) in auto)
    moreover have "agree ?X (bt_nodes t) (bt_nodes t1)" using disj rc(2) Xb by (intro evolves_agree [OF ev]) blast+
    ultimately have ag: "agree ?X h (bt_nodes t1)" by (rule agree_trans)
    show "wf_inner ty hi (map top_ref (cs1 @ c # cs2)) (bt_nodes t1 ! p)" "bn_keys (bt_nodes t1 ! p) = ks1 @ ks2" "p < length (bt_nodes t1)"
      using agree_at [OF ag, of p] inner p path_inner.hyps(1) by simp_all
    show "wf_pre ty (bt_nodes t1) lo ks1 hi cs1" using kids(1) by (rule agree_pre [rotated]) (rule agree_mono [OF ag], auto)
    show "wf_suf ty (bt_nodes t1) (last_bound lo ks1) ks2 hi cs2" using kids(3) by (rule agree_suf [rotated]) (rule agree_mono [OF ag], auto)
  qed
  have frame: "evolves (set (hs @ [p])) (insert new (set (refs ?T) - {top_ref ?T})) t t1"
    if "evolves (set hs) (insert new (set (refs c) - {top_ref c})) t t1" for t1
    using that by (rule evolves_mono) (use disj in auto)
  have ag_c: "agree (set (refs c) - {r}) h (bt_nodes t)" using path_inner.prems(3) by (rule agree_mono) auto
  consider (grown) c' t1 where "propagate_from (Suc fuel + length hs) (hs @ p # A) r new sk (t, lg) = (Inr (), t1, lg)"
        "wf_tree ty (bt_nodes t1) (last_bound lo ks1) (next_bound ks2 hi) c'" "regrown t c new t1 [c'] (after r new (leaves c))"
        "evolves (set hs) (insert new (set (refs c) - {top_ref c})) t t1"
    | (pending) Tl Tr sep t1 where "propagate_from (Suc fuel + length hs) (hs @ p # A) r new sk (t, lg) =
          propagate_from (Suc fuel) (p # A) (top_ref Tl) (top_ref Tr) sep (t1, lg)"
        "split_at ty (bt_nodes t1) (last_bound lo ks1) (next_bound ks2 hi) Tl Tr sep" "regrown t c new t1 [Tl, Tr] (after r new (leaves c))"
        "evolves (set hs) (insert new (set (refs c) - {top_ref c})) t t1"
    using path_inner.IH [of "Suc fuel" "p # A", OF kids(2) _ ag_c path_inner.prems(4)] path_inner.prems(2,5,6) by auto
  then show ?case
  proof cases
    case grown
    have "wf_tree ty (bt_nodes t1) lo hi (Inner p (cs1 @ [c'] @ cs2))"
      using around [OF grown(4)] grown(2,3) path_inner.hyps(2) by (simp add: wf_kids_split regrown_def)
    then show ?thesis
      using grown(1) frame [OF grown(4)] regrown_grow [OF grown(3) path_inner.prems(2,5,6) rc(1) refl] by auto
  next
    case pending
    have top: "top_ref Tl = top_ref c" using pending(3) by (simp add: regrown_def)
    have d: "distinct (p # concat (map refs (cs1 @ Tl # Tr # cs2)))" using regrown_inner(1) [OF pending(3) path_inner.prems(2,5,6)] by simp
    have tops: "top_ref ` set (cs1 @ Tl # Tr # cs2) \<subseteq> set (concat (map refs (cs1 @ [Tl, Tr] @ cs2)))" using top_in_refs by force
    have frame2: "evolves (set (hs @ [p])) (insert new (set (refs ?T) - {top_ref ?T})) t t2"
      if "evolves {p} (top_ref ` set (cs1 @ Tl # Tr # cs2)) t1 t2" for t2
    proof (rule evolves_restrict [OF evolves_compose [OF frame [OF pending(4)] that]])
      fix q assume q: "q < length (bt_nodes t)" "q \<in> insert new (set (refs ?T) - {top_ref ?T}) \<union> top_ref ` set (cs1 @ Tl # Tr # cs2)"
      have "q \<in> insert new (set (refs ?T)) \<and> q \<noteq> p" if "q \<in> set (concat (map refs (cs1 @ [Tl, Tr] @ cs2)))"
      proof
        have "q \<in> set (p # concat (map refs (cs1 @ [Tl, Tr] @ cs2)))" using that by (simp only: list.set_intros(2))
        then have "q \<in> insert new (set (refs ?T)) \<union> {length (bt_nodes t)..<length (bt_nodes t1)}"
          by (rule subsetD [OF regrown_inner(2) [OF pending(3) path_inner.prems(2,5,6)]])
        then show "q \<in> insert new (set (refs ?T))" using q(1) by simp
        show "q \<noteq> p" using d that by (simp only: distinct.simps append.simps) blast
      qed
      then have "q \<in> insert new (set (refs ?T)) \<and> q \<noteq> p" if "q \<in> top_ref ` set (cs1 @ Tl # Tr # cs2)"
        using tops that by blast
      then show "q \<in> insert new (set (refs ?T) - {top_ref ?T})" using q(2) by (simp del: refs.simps) blast
    qed simp
    show ?thesis
    proof (cases rule: propagate_step [OF around(3) [OF pending(4)] around(1,2) [OF pending(4)] path_inner.hyps(2) around(4,5) [OF pending(4)]
          pending(2) top d, of fuel A lg, case_names linked split])
      case (linked t2)
      then show ?thesis
        using pending(1) frame2 [OF linked(3)] regrown_grow [OF pending(3) path_inner.prems(2,5,6) rc(1) linked(4)] by auto
    next
      case (split t2 k csl csr)
      have "regrown t ?T new t2 [Inner p csl, Inner (length (bt_nodes t1)) csr] (after r new (leaves ?T))"
        using split(3) by (intro regrown_split [OF pending(3) path_inner.prems(2,5,6) rc(1) split(5) _ new]) simp
      then show ?thesis
        using pending(1) split(1,2) frame2 [OF split(4)]
        by (intro disjI2 exI [of _ "Inner p csl"] exI [of _ "Inner (length (bt_nodes t1)) csr"] exI [of _ k] exI [of _ t2]) simp
    qed
  qed
qed


section \<open>The root\<close>

lemma path_length: "path h T lo hi hs r lo' hi' \<Longrightarrow> length hs < length (refs T)"
  by (induction rule: path.induct) auto

lemma concat_leaves_sub: "set (concat (map leaves cs)) \<subseteq> set (concat (map refs cs))"
proof (induction cs)
  case (Cons c cs)
  then show ?case using leaves_sub_refs [of c] by auto
qed simp

lemma path_not_leaf: "path h T lo hi hs r lo' hi' \<Longrightarrow> distinct (refs T) \<Longrightarrow> set hs \<inter> set (leaves T) = {}"
proof (induction rule: path.induct)
  case (path_inner p ks1 ks2 cs1 c lo hi hs r lo' hi' cs2)
  let ?C1 = "set (concat (map refs cs1))" and ?C2 = "set (concat (map refs cs2))"
  have d: "p \<notin> ?C1" "p \<notin> ?C2" "p \<notin> set (refs c)" "set (refs c) \<inter> ?C1 = {}" "set (refs c) \<inter> ?C2 = {}" "distinct (refs c)"
    using path_inner.prems by auto
  have "set (leaves (Inner p (cs1 @ c # cs2))) = set (concat (map leaves cs1)) \<union> set (leaves c) \<union> set (concat (map leaves cs2))" by auto
  moreover have "set hs \<inter> set (leaves c) = {}" by (rule path_inner.IH [OF d(6)])
  ultimately show ?case
    using d concat_leaves_sub [of cs1] concat_leaves_sub [of cs2] leaves_sub_refs [of c] path_refs [OF path_inner.hyps(3)]
    by (simp only: set_append set_simps) blast
qed simp

text \<open>A root that has split gets a new root above it.\<close>

lemma new_root:
  assumes "split_at ty (bt_nodes t) None None Tl Tr sep" "bt_root t = Some (top_ref Tl)" "bn_parent (bt_nodes t ! top_ref Tl) = None"
    and "distinct (refs Tl @ refs Tr)" "linked (bt_nodes t) (leaves Tl @ leaves Tr)"
  obtains t' where "propagate_from (Suc fuel) [] (top_ref Tl) (top_ref Tr) sep (t, lg) = (Inr (), t', lg)"
    "tree_ok ty t' (Inner (length (bt_nodes t)) [Tl, Tr])" "agree (set (refs Tl @ refs Tr)) (bt_nodes t) (bt_nodes t')" "bt_im t' = bt_im t"
proof -
  let ?q = "length (bt_nodes t)" and ?l = "top_ref Tl" and ?r = "top_ref Tr"
  have wf: "wf_tree ty (bt_nodes t) None (Some (rank sep)) Tl" "wf_tree ty (bt_nodes t) (Some (rank sep)) None Tr"
    using assms(1) by (simp_all add: split_at_def)
  have tops: "?l < ?q" "?r < ?q" using wf_top wf by blast+
  obtain nav navs where nav: "bn_keys (bt_nodes t ! ?l) = nav # navs"
    using assms(1) by (cases "bn_keys (bt_nodes t ! ?l)") (auto simp: split_at_def)
  define n where "n = (BPlusTreeNode_new False)\<lparr>bn_keys := [sep], bn_children := [Some ?l, Some ?r]\<rparr>"
  let ?t1 = "mark ?q (t\<lparr>bt_nodes := bt_nodes t @ [n], bt_root := Some ?q\<rparr>)"
  let ?t2 = "?t1\<lparr>bt_nodes := (bt_nodes ?t1)[?l := (bt_nodes ?t1 ! ?l)\<lparr>bn_parent := Some ?q\<rparr>]\<rparr>"
  let ?t3 = "?t2\<lparr>bt_nodes := (bt_nodes ?t2)[?r := (bt_nodes ?t2 ! ?r)\<lparr>bn_parent := Some ?q\<rparr>]\<rparr>"
  have found: "find_parent [] ?l ?r sep (t, lg) = (Inr None, ?t3, lg)"
  proof -
    have "BPlusTree_getParent ?l (t, lg) = (Inr None, t, lg)" using tops assms(3) by (simp add: BPlusTree_getParent_def sreturn_def)
    then show ?thesis using tops assms(2) by (simp add: find_parent_def sbind_cases(1) n_def [symmetric]) (simp add: sreturn_def)
  qed
  have run: "propagate_from (Suc fuel) [] ?l ?r sep (t, lg) = (Inr (), ?t3, lg)"
    using tops nav found by (simp add: sbind_cases(1) sreturn_def)
  have bound: "q < ?q" if "q \<in> set (refs Tl @ refs Tr)" for q using that refs_bound [OF wf(1)] refs_bound [OF wf(2)] by auto
  have ag: "agree (set (refs Tl @ refs Tr)) (bt_nodes t) (bt_nodes ?t3)"
    unfolding agree_def
  proof
    show "length (bt_nodes t) \<le> length (bt_nodes ?t3)" by simp
    show "\<forall>q \<in> set (refs Tl @ refs Tr). core (bt_nodes ?t3 ! q) = core (bt_nodes t ! q)"
    proof
      fix q assume "q \<in> set (refs Tl @ refs Tr)"
      then have "q < ?q" by (rule bound)
      then show "core (bt_nodes ?t3 ! q) = core (bt_nodes t ! q)" using tops by (simp add: nth_upd nth_append)
    qed
  qed
  have ags: "agree (set (refs Tl)) (bt_nodes t) (bt_nodes ?t3)" "agree (set (refs Tr)) (bt_nodes t) (bt_nodes ?t3)"
    "agree (set (leaves Tl @ leaves Tr)) (bt_nodes t) (bt_nodes ?t3)"
    by (rule agree_mono [OF ag]; use leaves_sub_refs [of Tl] leaves_sub_refs [of Tr] in auto)+
  have q: "bt_nodes ?t3 ! ?q = n" using tops by (simp add: nth_upd)
  have "wf_inner ty None [?l, ?r] n" using assms(1) by (simp add: n_def wf_inner_def split_at_def BPlusTreeNode_new_def ORDER_def high_ok_def)
  then have "wf_tree ty (bt_nodes ?t3) None None (Inner ?q [Tl, Tr])"
    using q agree_wf(1) [OF ags(1) wf(1)] agree_wf(1) [OF ags(2) wf(2)] by (simp add: n_def gt_lo_def lt_hi_def)
  moreover have "linked (bt_nodes ?t3) (leaves (Inner ?q [Tl, Tr]))" using agree_linked [OF ags(3) assms(5)] by simp
  moreover have "distinct (refs (Inner ?q [Tl, Tr]))" using assms(4) bound by fastforce
  ultimately have "tree_ok ty ?t3 (Inner ?q [Tl, Tr])" using q by (simp add: tree_ok_def n_def BPlusTreeNode_new_def)
  then show thesis by (intro that [OF run _ ag]) simp_all
qed


lemma distinct_leaves: "distinct (refs T) \<Longrightarrow> distinct (leaves T)"
proof (induction T)
  case (Inner p cs)
  have "distinct (concat (map refs cs)) \<Longrightarrow> distinct (concat (map leaves cs))"
    using Inner.IH
  proof (induction cs)
    case (Cons c cs)
    have d: "distinct (refs c)" "distinct (concat (map refs cs))" "set (refs c) \<inter> set (concat (map refs cs)) = {}" using Cons.prems(1) by auto
    then have "set (leaves c) \<inter> set (concat (map leaves cs)) = {}" using leaves_sub_refs [of c] concat_leaves_sub [of cs] by blast
    moreover have "distinct (leaves c)" "distinct (concat (map leaves cs))" using Cons d by auto
    ultimately show ?case by simp
  qed simp
  with Inner.prems show ?case by simp
qed simp

lemma set_after: "set (after r new ls) \<subseteq> insert new (set ls)"
  by (induction ls) auto

lemma propagateSplit_ok:
  assumes "path h T None None hs r lo' hi'" "wf_tree ty h None None T" "distinct (refs T)"
    and "agree (set (refs T) - {r}) h (bt_nodes t)" "split_at ty (bt_nodes t) lo' hi' (Leaf r) (Leaf new) sk"
    and "new \<notin> set (refs T)" "\<forall>q \<in> set (refs T). q < length (bt_nodes t)" "length h \<le> length (bt_nodes t)"
    and "bt_root t = Some (top_ref T)" "bn_parent (bt_nodes t ! top_ref T) = None" "linked (bt_nodes t) (after r new (leaves T))"
  obtains T' t' where "BPlusTree_propagateSplit hs r new sk (t, lg) = (Inr (), t', lg)" "tree_ok ty t' T'"
    "leaves T' = after r new (leaves T)" "leaf_list_pairs (bt_nodes t') (leaves T') = leaf_list_pairs (bt_nodes t) (after r new (leaves T))"
    "bt_im t' = bt_im t"
proof -
  let ?L = "after r new (leaves T)" and ?P = "insert new (set (refs T) - {top_ref T})"
  have new: "new < length (bt_nodes t)" using assms(5) by (simp add: split_at_def)
  have lenhs: "length hs \<le> length (bt_nodes t)"
    using path_length [OF assms(1)] length_refs [OF assms(2,3)] assms(8) by simp
  define fuel where "fuel = length (bt_nodes t) - length hs"
  have run: "BPlusTree_propagateSplit hs r new sk (t, lg) = propagate_from (Suc fuel + length hs) (hs @ []) r new sk (t, lg)"
    using lenhs by (simp add: BPlusTree_propagateSplit_def fuel_def del: propagate_from.simps)
  have Lsub: "set ?L \<subseteq> insert new (set (leaves T))" by (rule set_after)
  have hsL: "set ?L \<inter> set hs = {}"
    using path_not_leaf [OF assms(1,3)] path_refs [OF assms(1)] assms(6) Lsub by blast
  have Lb: "q < length (bt_nodes t)" if "q \<in> set ?L" for q using that Lsub leaves_sub_refs [of T] assms(7) new by blast
  have keep: "agree (set ?L) (bt_nodes t) (bt_nodes t1)" "bt_root t1 = Some (top_ref T)" "bn_parent (bt_nodes t1 ! top_ref T) = None" "bt_im t1 = bt_im t"
    if ev: "evolves (set hs) ?P t t1" for t1
  proof -
    show "agree (set ?L) (bt_nodes t) (bt_nodes t1)" using Lb hsL by (intro evolves_agree [OF ev])
    have "top_ref T < length (bt_nodes t)" "top_ref T \<notin> ?P" using assms(6,7) top_in_refs [of T] by auto
    then show "bn_parent (bt_nodes t1 ! top_ref T) = None" using ev assms(10) unfolding evolves_def by simp
  qed (use ev assms(9) in \<open>simp_all add: evolves_def\<close>)
  consider (grown) T' t1 where "propagate_from (Suc fuel + length hs) (hs @ []) r new sk (t, lg) = (Inr (), t1, lg)"
      "wf_tree ty (bt_nodes t1) None None T'" "regrown t T new t1 [T'] ?L" "evolves (set hs) ?P t t1"
    | (pending) Tl Tr sep t1 where "propagate_from (Suc fuel + length hs) (hs @ []) r new sk (t, lg) =
        propagate_from (Suc fuel) [] (top_ref Tl) (top_ref Tr) sep (t1, lg)"
      "split_at ty (bt_nodes t1) None None Tl Tr sep" "regrown t T new t1 [Tl, Tr] ?L" "evolves (set hs) ?P t t1"
    using propagate_path [OF assms(1-7), of "Suc fuel" "[]" lg] by blast
  then show thesis
  proof cases
    case grown
    have T': "top_ref T' = top_ref T" "leaves T' = ?L" "distinct (refs T')" using grown(3) by (simp_all add: regrown_def)
    then have "tree_ok ty t1 T'"
      using grown(2) keep [OF grown(4)] agree_linked [OF _ assms(11)] by (simp add: tree_ok_def)
    then show thesis using that run grown(1) T'(2) agree_pairs keep [OF grown(4)] by metis
  next
    case pending
    have T': "top_ref Tl = top_ref T" "leaves Tl @ leaves Tr = ?L" "distinct (refs Tl @ refs Tr)" using pending(3) by (simp_all add: regrown_def)
    note k = keep [OF pending(4)]
    have "bt_root t1 = Some (top_ref Tl)" "bn_parent (bt_nodes t1 ! top_ref Tl) = None" "linked (bt_nodes t1) (leaves Tl @ leaves Tr)"
      using k T'(1,2) agree_linked [OF k(1) assms(11)] by simp_all
    from new_root [OF pending(2) this(1,2) T'(3) this(3), of fuel lg] obtain t2
      where t2: "propagate_from (Suc fuel) [] (top_ref Tl) (top_ref Tr) sep (t1, lg) = (Inr (), t2, lg)"
        "tree_ok ty t2 (Inner (length (bt_nodes t1)) [Tl, Tr])" "agree (set (refs Tl @ refs Tr)) (bt_nodes t1) (bt_nodes t2)" "bt_im t2 = bt_im t1" .
    have "agree (set ?L) (bt_nodes t1) (bt_nodes t2)"
      using t2(3) by (rule agree_mono) (use leaves_sub_refs [of Tl] leaves_sub_refs [of Tr] in \<open>auto simp flip: T'(2)\<close>)
    then have "leaf_list_pairs (bt_nodes t2) ?L = leaf_list_pairs (bt_nodes t) ?L" using agree_pairs k(1) by metis
    then show thesis using that [OF _ t2(2)] run pending(1) t2(1,4) T'(2) k(4) by simp
  qed
qed


section \<open>The leaf of an insertion\<close>

lemma leaf_keys: "leaf_ok ty n \<Longrightarrow> bn_keys n = map fst (leaf_pairs n)"
  by (simp add: leaf_ok_def leaf_pairs_def)

lemma insert_leaf_keys:
  assumes "leaf_ok ty n" "leaf_ok ty n'" "leaf_pairs n' = insert_pair key rid (leaf_pairs n)" "lookup_pair key (leaf_pairs n) = None"
    and "distinct (map rank (bn_keys n))"
  shows "distinct (map rank (bn_keys n'))" "k \<in> set (bn_keys n') \<Longrightarrow> k = key \<or> k \<in> set (bn_keys n)"
proof -
  let ?P = "\<lambda>(k, r). rank k < rank key"
  let ?a = "map fst (takeWhile ?P (leaf_pairs n))" and ?b = "map fst (dropWhile ?P (leaf_pairs n))"
  have n': "bn_keys n' = ?a @ key # ?b" using leaf_keys [OF assms(2)] assms(3) by (simp add: insert_pair_def)
  have n: "bn_keys n = ?a @ ?b" using leaf_keys [OF assms(1)] by (simp flip: map_append)
  have "rank key \<notin> rank ` set (bn_keys n)"
    using assms(4) leaf_keys [OF assms(1)] by (fastforce simp: lookup_none)
  then show "distinct (map rank (bn_keys n'))" using assms(5) unfolding n n' by auto
  show "k \<in> set (bn_keys n') \<Longrightarrow> k = key \<or> k \<in> set (bn_keys n)" unfolding n n' by auto
qed

lemma split_leaf_at:
  assumes "leaf_ok ty left" "leaf_ok ty new" "leaf_pairs left @ leaf_pairs new = leaf_pairs n" "leaf_ok ty n" "sk = hd (bn_keys new)"
    and "bn_keys new \<noteq> []" "bn_keys left \<noteq> []" "\<forall>x \<in> set (bn_keys left). rank x \<le> rank sk" "\<forall>x \<in> set (bn_keys new). rank sk \<le> rank x"
    and "distinct (map rank (bn_keys n))" "length (bn_keys n) \<le> ORDER" "\<not> bn_is_merged_away left" "\<not> bn_is_merged_away new"
    and "\<forall>k \<in> set (bn_keys n). ge_lo lo (rank k) \<and> lt_hi hi (rank k)" "high_ok ty hi hk"
  shows "wf_leaf ty lo (Some (rank sk)) (left\<lparr>bn_high_key := Some sk\<rparr>)" "wf_leaf ty (Some (rank sk)) hi (new\<lparr>bn_high_key := hk\<rparr>)"
    "index_key ty sk" "gt_lo lo (rank sk)" "lt_hi hi (rank sk)"
proof -
  have keys: "bn_keys n = bn_keys left @ bn_keys new"
    using assms(3) leaf_keys [OF assms(1)] leaf_keys [OF assms(2)] leaf_keys [OF assms(4)] by (metis map_append)
  have sk: "sk \<in> set (bn_keys new)" using assms(5,6) by simp
  then show isk: "index_key ty sk" using assms(2) by (auto simp: leaf_ok_def index_keys_def)
  have less: "rank x < rank sk" if "x \<in> set (bn_keys left)" for x
    using assms(8,10) that sk unfolding keys by (fastforce simp: order_less_le)
  have d: "distinct (map rank (bn_keys left))" "distinct (map rank (bn_keys new))" using assms(10) unfolding keys by auto
  have len: "length (bn_keys left) < ORDER" "length (bn_keys new) < ORDER" using assms(6,7,11) unfolding keys
    by (cases "bn_keys left"; cases "bn_keys new"; simp)+
  have b: "\<forall>k \<in> set (bn_keys left). ge_lo lo (rank k)" "\<forall>k \<in> set (bn_keys new). lt_hi hi (rank k)" using assms(14) unfolding keys by auto
  show "lt_hi hi (rank sk)" using b(2) sk by blast
  show "gt_lo lo (rank sk)"
    using bspec [OF b(1), of "hd (bn_keys left)"] less [of "hd (bn_keys left)"] assms(7)
    by (auto simp: ge_lo_def gt_lo_def split: option.splits)
  show "wf_leaf ty lo (Some (rank sk)) (left\<lparr>bn_high_key := Some sk\<rparr>)"
    using assms(1,12) d(1) len(1) b(1) less isk by (simp add: wf_leaf_def leaf_ok_def lt_hi_def high_ok_def)
  show "wf_leaf ty (Some (rank sk)) hi (new\<lparr>bn_high_key := hk\<rparr>)"
    using assms(2,9,13,15) d(2) len(2) b(2) by (simp add: wf_leaf_def leaf_ok_def ge_lo_def)
qed

lemma linked_cong: "linked h ls \<Longrightarrow> \<forall>q \<in> set ls. bn_next_leaf (h' ! q) = bn_next_leaf (h ! q) \<Longrightarrow> linked h' ls"
  by (induction h ls rule: linked.induct) auto

lemma linked_split:
  assumes "linked h (ls1 @ r # ls2)" "bn_next_leaf (h' ! r) = Some new" "bn_next_leaf (h' ! new) = bn_next_leaf (h ! r)"
    and "\<forall>q \<in> set ls1 \<union> set ls2. bn_next_leaf (h' ! q) = bn_next_leaf (h ! q)"
  shows "linked h' (ls1 @ r # new # ls2)"
  using assms
proof (induction ls1)
  case Nil
  then show ?case using linked_cong [of h ls2 h'] by (cases ls2) auto
next
  case (Cons l ls1)
  then show ?case by (cases ls1) auto
qed


section \<open>Insertion and update refine the ordered list\<close>

text \<open>What the operations leave of the index manager: everything.\<close>

lemma insert_into_tree:
  assumes "tree_ok ty t T" "index_key ty key" "lookup_pair key (pairs (bt_nodes t) T) = None"
  shows "\<exists>t' T'. insert_below key page_id slot_id (top_ref T) (t, lg) = (Inr (), t', lg)
    \<and> tree_ok ty t' T' \<and> pairs (bt_nodes t') T' = insert_pair key (RID page_id slot_id) (pairs (bt_nodes t) T) \<and> bt_im t' = bt_im t"
    (is "\<exists>t' T'. ?run = _ \<and> _")
proof -
  let ?h = "bt_nodes t"
  have wf: "wf_tree ty ?h None None T" and d: "distinct (refs T)" and root: "bt_root t = Some (top_ref T)" and lk: "linked ?h (leaves T)"
    and par: "bn_parent (?h ! top_ref T) = None" using assms(1) by (simp_all add: tree_ok_def)
  obtain r hs lo' hi' where desc: "descend key (top_ref T) (t, lg) = (Inr (r, hs), t, lg)"
      "path ?h T None None hs r lo' hi'" "ge_lo lo' (rank key)" "lt_hi hi' (rank key)"
    by (rule descend_ok [OF assms(1,2)])
  obtain P1 P2 ls1 ls2 where ps: "pairs ?h T = P1 @ leaf_pairs (?h ! r) @ P2" "all_ranks (\<lambda>y. y < rank key) P1" "all_ranks (\<lambda>y. rank key < y) P2"
      "leaves T = ls1 @ r # ls2" "P1 = leaf_list_pairs ?h ls1" "P2 = leaf_list_pairs ?h ls2"
    using path_pairs [OF desc(2) wf desc(3,4)] by (metis leaf_list_pairs_def)
  have leaf: "r < length ?h" "wf_leaf ty lo' hi' (?h ! r)" using path_splits [OF desc(2) wf desc(3,4)] by auto
  have ok: "leaf_ok ty (?h ! r)" using leaf(2) by (simp add: wf_leaf_def)
  obtain n' where n': "BPlusTreeNode_insertInLeaf key page_id slot_id (?h ! r) = Inr n'" "leaf_ok ty n'"
      "leaf_pairs n' = insert_pair key (RID page_id slot_id) (leaf_pairs (?h ! r))"
      "n' = (?h ! r)\<lparr>bn_keys := bn_keys n', bn_rids := bn_rids n'\<rparr>" "length (bn_keys n') = Suc (length (bn_keys (?h ! r)))"
    by (rule insertInLeaf_pairs [OF ok assms(2)])
  have fields: "bn_next_leaf n' = bn_next_leaf (?h ! r)" "bn_high_key n' = bn_high_key (?h ! r)"
      "bn_is_merged_away n' = bn_is_merged_away (?h ! r)" "bn_parent n' = bn_parent (?h ! r)" by (subst n'(4), simp)+
  have none: "lookup_pair key (leaf_pairs (?h ! r)) = None" using assms(3) lookup_around [OF ps(2,3)] by (simp add: ps(1))
  have dk: "distinct (map rank (bn_keys n'))" "k \<in> set (bn_keys n') \<Longrightarrow> k = key \<or> k \<in> set (bn_keys (?h ! r))" for k
    using insert_leaf_keys [OF ok n'(2,3) none] leaf(2) by (auto simp: wf_leaf_def)
  have bounds: "\<forall>k \<in> set (bn_keys n'). ge_lo lo' (rank k) \<and> lt_hi hi' (rank k)"
    using dk(2) desc(3,4) leaf(2) by (auto simp: wf_leaf_def)
  have goal: "insert_pair key (RID page_id slot_id) (pairs ?h T) = P1 @ leaf_pairs n' @ P2"
    using insert_around [OF ps(2,3)] n'(3) by (simp add: ps(1))
  have ls: "r \<notin> set ls1" "r \<notin> set ls2" using distinct_leaves [OF d] by (simp_all add: ps(4))
  have rT: "r \<in> set (refs T)" using path_refs [OF desc(2)] by simp
  let ?t1 = "mark r (t\<lparr>bt_nodes := ?h[r := n']\<rparr>)"
  show ?thesis
  proof (cases "BPlusTreeNode_isFull n'")
    case False
    have "?run = (Inr (), ?t1, lg)" using desc(1) leaf(1) n'(1) False by (simp add: insert_below_def sbind_cases(1) sreturn_def)
    moreover have ag: "agree (set (refs T) - {r}) ?h (bt_nodes ?t1)" by (simp add: agree_def)
    have "wf_leaf ty lo' hi' n'" using n'(2) dk(1) bounds False leaf(2) fields by (simp add: wf_leaf_def BPlusTreeNode_isFull_def ORDER_def)
    then have "wf_tree ty (bt_nodes ?t1) None None T" using leaf(1) by (intro replace_leaf [OF desc(2) wf d ag]) simp
    moreover have "linked (bt_nodes ?t1) (leaves T)"
    proof -
      have "bn_next_leaf (bt_nodes ?t1 ! q) = bn_next_leaf (?h ! q)" for q using leaf(1) fields(1) by (cases "q = r") simp_all
      then show ?thesis using linked_cong [OF lk] by blast
    qed
    moreover have "bn_parent (bt_nodes ?t1 ! top_ref T) = None" using par leaf(1) fields(4) by (cases "top_ref T = r") simp_all
    moreover have "pairs (bt_nodes ?t1) T = P1 @ leaf_pairs n' @ P2"
    proof -
      have "leaf_list_pairs (bt_nodes ?t1) ms = leaf_list_pairs ?h ms" if "r \<notin> set ms" for ms using that by (induction ms) auto
      then have "leaf_list_pairs (bt_nodes ?t1) ls1 = P1" "leaf_list_pairs (bt_nodes ?t1) ls2 = P2" using ls by (simp_all add: ps(5,6))
      then show ?thesis using leaf(1) by (simp add: pairs_leaves ps(4))
    qed
    ultimately show ?thesis using root d goal by (intro exI [of _ ?t1] exI [of _ T]) (simp add: tree_ok_def)
  next
    case True
    let ?q = "length ?h"
    obtain sk new left where sp: "BPlusTreeNode_splitLeafNode ?q n' = Inr (sk, new, left)" "leaf_ok ty new" "leaf_ok ty left"
        "leaf_pairs left @ leaf_pairs new = leaf_pairs n'" "sk = hd (bn_keys new)" "bn_keys new \<noteq> []" "bn_keys left \<noteq> []"
        "\<forall>x \<in> set (bn_keys left). rank x \<le> rank sk" "\<forall>x \<in> set (bn_keys new). rank sk \<le> rank x"
        "bn_next_leaf left = Some ?q" "bn_next_leaf new = bn_next_leaf n'" "\<not> bn_is_merged_away new"
        "bn_is_merged_away left = bn_is_merged_away n'" "bn_parent left = bn_parent n'"
      by (rule splitLeafNode_pairs [OF n'(2) True])
    let ?new = "new\<lparr>bn_high_key := bn_high_key n'\<rparr>" and ?left = "left\<lparr>bn_high_key := Some sk\<rparr>"
    let ?t2 = "mark ?q (?t1\<lparr>bt_nodes := (?h[r := n'] @ [?new])[r := ?left]\<rparr>)"
    have split: "split_leaf r (?t1, lg) = (Inr (sk, ?q), ?t2, lg)"
      using leaf(1) sp(1) by (simp add: split_leaf_def sreturn_def)
    have at: "bt_nodes ?t2 ! r = ?left" "bt_nodes ?t2 ! ?q = ?new" "q < ?q \<Longrightarrow> q \<noteq> r \<Longrightarrow> bt_nodes ?t2 ! q = ?h ! q" for q
      using leaf(1) by (simp_all add: nth_upd nth_append)
    have Tb: "q < ?q" if "q \<in> set (refs T)" for q using refs_bound [OF wf that] .
    have lb: "q < ?q \<and> q \<noteq> r" if "q \<in> set ls1 \<union> set ls2" for q using that Tb leaves_sub_refs [of T] ls by (auto simp: ps(4))
    have s1: "split_at ty (bt_nodes ?t2) lo' hi' (Leaf r) (Leaf ?q) sk"
    proof -
      have "length (bn_keys n') \<le> ORDER" "\<not> bn_is_merged_away left" "high_ok ty hi' (bn_high_key n')"
        using n'(5) leaf(2) fields sp(13) by (simp_all add: wf_leaf_def)
      from split_leaf_at [OF sp(3,2,4) n'(2) sp(5-9) dk(1) this(1,2) sp(12) bounds this(3)]
      show ?thesis using at leaf(1) sp(7) by (simp add: split_at_def)
    qed
    have s2: "agree (set (refs T) - {r}) ?h (bt_nodes ?t2)"
    proof -
      have "bt_nodes ?t2 ! q = ?h ! q" if "q \<in> set (refs T) - {r}" for q using at(3) Tb that by blast
      then show ?thesis unfolding agree_def by simp
    qed
    have s3: "?q \<notin> set (refs T)" and s4: "\<forall>q \<in> set (refs T). q < length (bt_nodes ?t2)" using Tb by (auto simp: less_Suc_eq)
    have s7: "bn_parent (bt_nodes ?t2 ! top_ref T) = None"
      using par at Tb [OF top_in_refs] sp(14) fields(4) by (cases "top_ref T = r") simp_all
    have L: "after r ?q (leaves T) = ls1 @ r # ?q # ls2" using ls by (simp add: ps(4))
    have s8: "linked (bt_nodes ?t2) (ls1 @ r # ?q # ls2)"
    proof (rule linked_split [of ?h])
      show "\<forall>q \<in> set ls1 \<union> set ls2. bn_next_leaf (bt_nodes ?t2 ! q) = bn_next_leaf (?h ! q)" using at(3) lb by metis
    qed (use lk ps(4) at(1,2) sp(10,11) fields(1) in simp_all)
    obtain T' t' where t': "BPlusTree_propagateSplit hs r ?q sk (?t2, lg) = (Inr (), t', lg)" "tree_ok ty t' T'"
        "leaves T' = after r ?q (leaves T)" "leaf_list_pairs (bt_nodes t') (leaves T') = leaf_list_pairs (bt_nodes ?t2) (after r ?q (leaves T))"
        "bt_im t' = bt_im ?t2"
    proof (rule propagateSplit_ok [OF desc(2) wf d s2 s1 s3 s4 _ _ s7])
      show "linked (bt_nodes ?t2) (after r ?q (leaves T))" unfolding L by (rule s8)
    qed (use root in simp_all)
    have "?run = (Inr (), t', lg)"
      using desc(1) leaf(1) n'(1) True split t'(1) by (simp add: insert_below_def sbind_cases(1))
    moreover have "pairs (bt_nodes t') T' = P1 @ leaf_pairs n' @ P2"
    proof -
      have "leaf_list_pairs (bt_nodes ?t2) ms = leaf_list_pairs ?h ms" if "set ms \<subseteq> set ls1 \<union> set ls2" for ms
      proof (rule agree_pairs)
        have "bt_nodes ?t2 ! q = ?h ! q" if "q \<in> set ms" for q using at(3) lb that \<open>set ms \<subseteq> _\<close> by blast
        then show "agree (set ms) ?h (bt_nodes ?t2)" unfolding agree_def by simp
      qed
      then have "leaf_list_pairs (bt_nodes ?t2) ls1 = P1" "leaf_list_pairs (bt_nodes ?t2) ls2 = P2" unfolding ps(5,6) by blast+
      moreover have "leaf_pairs ?left = leaf_pairs left" "leaf_pairs ?new = leaf_pairs new" by (simp_all add: leaf_pairs_def)
      ultimately show ?thesis using at(1,2) sp(4) by (simp add: pairs_leaves t'(4) L)
    qed
    ultimately show ?thesis using goal t'(2,5) by auto
  qed
qed


text \<open>Updating the RID of a key changes one leaf.\<close>

lemma update_in_tree:
  assumes "tree_ok ty t T" "index_key ty key"
  shows "\<exists>t'. update_below key page_id slot_id (top_ref T) (t, lg) =
       (Inr (lookup_pair key (pairs (bt_nodes t) T) \<noteq> None), t', lg)
    \<and> tree_ok ty t' T \<and> pairs (bt_nodes t') T = update_pair key (RID page_id slot_id) (pairs (bt_nodes t) T) \<and> bt_im t' = bt_im t"
    (is "\<exists>t'. ?run = _ \<and> _")
proof -
  let ?h = "bt_nodes t"
  have wf: "wf_tree ty ?h None None T" and d: "distinct (refs T)" and root: "bt_root t = Some (top_ref T)" and lk: "linked ?h (leaves T)"
    and par: "bn_parent (?h ! top_ref T) = None" using assms(1) by (simp_all add: tree_ok_def)
  obtain r hs lo' hi' where desc: "descend key (top_ref T) (t, lg) = (Inr (r, hs), t, lg)"
      "path ?h T None None hs r lo' hi'" "ge_lo lo' (rank key)" "lt_hi hi' (rank key)"
    by (rule descend_ok [OF assms(1,2)])
  obtain P1 P2 ls1 ls2 where ps: "pairs ?h T = P1 @ leaf_pairs (?h ! r) @ P2" "all_ranks (\<lambda>y. y < rank key) P1" "all_ranks (\<lambda>y. rank key < y) P2"
      "leaves T = ls1 @ r # ls2" "P1 = leaf_list_pairs ?h ls1" "P2 = leaf_list_pairs ?h ls2"
    using path_pairs [OF desc(2) wf desc(3,4)] by (metis leaf_list_pairs_def)
  have leaf: "r < length ?h" "wf_leaf ty lo' hi' (?h ! r)" using path_splits [OF desc(2) wf desc(3,4)] by auto
  have ok: "leaf_ok ty (?h ! r)" using leaf(2) by (simp add: wf_leaf_def)
  obtain n' where n': "BPlusTreeNode_updateInLeaf key page_id slot_id (?h ! r) = Inr (lookup_pair key (leaf_pairs (?h ! r)) \<noteq> None, n')"
      "leaf_ok ty n'" "leaf_pairs n' = update_pair key (RID page_id slot_id) (leaf_pairs (?h ! r))"
      "n' = (?h ! r)\<lparr>bn_rids := bn_rids n'\<rparr>" "bn_keys n' = bn_keys (?h ! r)"
    by (rule updateInLeaf_pairs [OF ok assms(2)])
  have fields: "bn_next_leaf n' = bn_next_leaf (?h ! r)" "bn_high_key n' = bn_high_key (?h ! r)"
      "bn_is_merged_away n' = bn_is_merged_away (?h ! r)" "bn_parent n' = bn_parent (?h ! r)" by (subst n'(4), simp)+
  define found where "found = (lookup_pair key (leaf_pairs (?h ! r)) \<noteq> None)"
  have found: "lookup_pair key (pairs ?h T) \<noteq> None \<longleftrightarrow> found" using lookup_around [OF ps(2,3)] by (simp add: ps(1) found_def)
  let ?t0 = "t\<lparr>bt_nodes := ?h[r := n']\<rparr>"
  have "?run = (Inr found, if found then mark r ?t0 else ?t0, lg)"
    using desc(1) leaf(1) n'(1) [folded found_def] by (simp add: update_below_def sbind_cases(1) sreturn_def)
  moreover obtain ls: "r \<notin> set ls1" "r \<notin> set ls2" using distinct_leaves [OF d] by (simp add: ps(4))
  have "wf_leaf ty lo' hi' n'" using n'(2,5) leaf(2) fields by (simp add: wf_leaf_def)
  moreover have "wf_tree ty (bt_nodes ?t0) None None T"
    using \<open>wf_leaf ty lo' hi' n'\<close> leaf(1) by (intro replace_leaf [OF desc(2) wf d]) (simp_all add: agree_def)
  moreover have "linked (bt_nodes ?t0) (leaves T)"
  proof -
    have "bn_next_leaf (bt_nodes ?t0 ! q) = bn_next_leaf (?h ! q)" for q using leaf(1) fields(1) by (cases "q = r") simp_all
    then show ?thesis using linked_cong [OF lk] by blast
  qed
  moreover have "bn_parent (bt_nodes ?t0 ! top_ref T) = None" using par leaf(1) fields(4) by (cases "top_ref T = r") simp_all
  moreover have "pairs (bt_nodes ?t0) T = update_pair key (RID page_id slot_id) (pairs ?h T)"
  proof -
    have "leaf_list_pairs (bt_nodes ?t0) ms = leaf_list_pairs ?h ms" if "r \<notin> set ms" for ms using that by (induction ms) auto
    then have "leaf_list_pairs (bt_nodes ?t0) ls1 = P1" "leaf_list_pairs (bt_nodes ?t0) ls2 = P2" using ls by (simp_all add: ps(5,6))
    then have "pairs (bt_nodes ?t0) T = P1 @ leaf_pairs n' @ P2" using leaf(1) by (simp add: pairs_leaves ps(4))
    also have "\<dots> = update_pair key (RID page_id slot_id) (pairs ?h T)" unfolding ps(1) n'(3) by (rule update_around [OF ps(2,3), symmetric])
    finally show ?thesis .
  qed
  ultimately show ?thesis using root d unfolding found
    by (intro exI [of _ "if found then mark r ?t0 else ?t0"]) (simp add: tree_ok_def)
qed

lemma tree_ok_dirty [simp]: "tree_ok ty (t\<lparr>bt_dirty := D\<rparr>) T = tree_ok ty t T"
  by (simp add: tree_ok_def)

text \<open>\<open>insert\<close> and \<open>update\<close> on the tree in memory.\<close>

lemma insert_mem_ok:
  assumes "tree_rel ty t ps" "index_key ty key" "lookup_pair key ps = None"
  obtains t' where "BPlusTree_insert_mem key page_id slot_id (t, lg) = (Inr (), t', lg)"
    "tree_rel ty t' (insert_pair key (RID page_id slot_id) ps)" "bt_im t' = bt_im t"
proof -
  obtain t0 T where t0: "BPlusTree_insert_mem key page_id slot_id (t, lg) = insert_below key page_id slot_id (top_ref T) (t0, lg)"
    "tree_ok ty t0 T" "pairs (bt_nodes t0) T = ps" "bt_im t0 = bt_im t"
    using assms(1)
  proof (cases rule: tree_relE)
    case empty
    let ?t0 = "t\<lparr>bt_dirty := [], bt_nodes := bt_nodes t @ [BPlusTreeNode_new True], bt_root := Some (length (bt_nodes t))\<rparr>"
    have "tree_ok ty ?t0 (Leaf (length (bt_nodes t)))"
      by (simp add: tree_ok_def wf_leaf_def leaf_ok_def BPlusTreeNode_new_def high_ok_def ORDER_def)
    then show thesis
      using empty by (intro that [of "Leaf (length (bt_nodes t))" ?t0])
        (simp_all add: BPlusTree_insert_mem_def DirtyScope_def ensure_root_def sbind_assoc pairs_leaves leaf_pairs_def BPlusTreeNode_new_def)
  next
    case (tree T)
    then show thesis
      by (intro that [of T "t\<lparr>bt_dirty := []\<rparr>"])
        (simp_all add: BPlusTree_insert_mem_def DirtyScope_def ensure_root_def sbind_assoc tree_ok_def)
  qed
  then show thesis
    using insert_into_tree [OF t0(2) assms(2), of page_id slot_id lg] t0 assms(3) that unfolding tree_rel_def by metis
qed

lemma update_mem_ok:
  assumes "tree_rel ty t ps" "index_key ty key"
  obtains t' where "BPlusTree_update_mem key page_id slot_id (t, lg) = (Inr (lookup_pair key ps \<noteq> None), t', lg)"
    "tree_rel ty t' (update_pair key (RID page_id slot_id) ps)" "bt_im t' = bt_im t"
  using assms(1)
proof (cases rule: tree_relE)
  case empty
  then show thesis
    by (intro that [of "t\<lparr>bt_dirty := []\<rparr>"]) (simp_all add: BPlusTree_update_mem_def DirtyScope_def tree_rel_def sreturn_def)
next
  case (tree T)
  have "tree_ok ty (t\<lparr>bt_dirty := []\<rparr>) T" using tree(1) by simp
  from update_in_tree [OF this assms(2), of page_id slot_id lg] tree obtain t'
    where t': "update_below key page_id slot_id (top_ref T) (t\<lparr>bt_dirty := []\<rparr>, lg) = (Inr (lookup_pair key ps \<noteq> None), t', lg)"
      "tree_ok ty t' T" "pairs (bt_nodes t') T = update_pair key (RID page_id slot_id) ps" "bt_im t' = bt_im t" by auto
  have "bt_root t = Some (top_ref T)" using tree(1) by (simp add: tree_ok_def)
  then have "BPlusTree_update_mem key page_id slot_id (t, lg) = (Inr (lookup_pair key ps \<noteq> None), t', lg)"
    using t'(1) by (simp add: BPlusTree_update_mem_def DirtyScope_def)
  then show thesis using that t'(2,3,4) unfolding tree_rel_def by metis
qed

end
