(* ===== verification/Tree_Map.thy ===== *)
theory Tree_Map
  imports Tree_Insert "HOL-Library.Multiset"
begin

text \<open>
  The B+ tree as an ordered index.

  \<open>ordered_index\<close> is the contract its callers rely on, stated over the ordered list of key/RID pairs the index holds; it is interpreted on the
  tree's own operations. Saving the dirty nodes to the index file changes ids and LSNs only, so the contents of the tree in memory do not
  depend on whether the save succeeds.
\<close>

section \<open>Saving keeps the shape of the tree\<close>

definition same_shape :: "BPlusTree \<Rightarrow> BPlusTree \<Rightarrow> bool" where
  "same_shape t t' \<longleftrightarrow> length (bt_nodes t') = length (bt_nodes t) \<and> bt_root t' = bt_root t \<and> (bt_im t' = None \<longleftrightarrow> bt_im t = None)
     \<and> (\<forall>q < length (bt_nodes t). core (bt_nodes t' ! q) = core (bt_nodes t ! q) \<and> bn_parent (bt_nodes t' ! q) = bn_parent (bt_nodes t ! q))"

lemma same_shape_refl: "same_shape t t"
  by (simp add: same_shape_def)

lemma same_shape_trans: "same_shape t t' \<Longrightarrow> same_shape t' t'' \<Longrightarrow> same_shape t t''"
  by (auto simp: same_shape_def)

definition keeps_shape :: "(tree_state, 'a) effect \<Rightarrow> bool" where
  "keeps_shape m \<longleftrightarrow> (\<forall>s. same_shape (fst s) (fst (snd (m s))))"

lemma keeps_shapeD: "keeps_shape m \<Longrightarrow> m (t, lg) = (r, t', lg') \<Longrightarrow> same_shape t t'"
  unfolding keeps_shape_def by (metis fst_conv snd_conv)

lemma keeps_shape_bind: "keeps_shape m \<Longrightarrow> (\<And>x. keeps_shape (f x)) \<Longrightarrow> keeps_shape (sbind m f)"
  unfolding keeps_shape_def
proof
  fix s
  assume m: "\<forall>s. same_shape (fst s) (fst (snd (m s)))" and f: "\<And>x. \<forall>s. same_shape (fst s) (fst (snd (f x s)))"
  obtain r s' where "m s = (r, s')" by (cases "m s")
  then show "same_shape (fst s) (fst (snd (sbind m f s)))"
    using m [rule_format, of s] f [rule_format, of s'] by (cases r) (auto simp: sbind_cases intro: same_shape_trans)
qed

lemma keeps_shape_prims:
  "keeps_shape (sreturn x)" "keeps_shape (sget g)" "keeps_shape (on_index m)" "keeps_shape (get_node r)" "keeps_shape BPlusTree_snapshotRoot"
  "(\<And>t lg. fst (h (t, lg)) = t) \<Longrightarrow> keeps_shape (smodify h)"
  by (auto simp: keeps_shape_def sreturn_def sget_def on_index_def get_node_def BPlusTree_snapshotRoot_def smodify_def same_shape_def
      split: option.splits prod.splits if_splits)

lemma keeps_shape_for: "(\<And>x. keeps_shape (f x)) \<Longrightarrow> keeps_shape (sfor f xs)"
  by (induction xs) (auto intro: keeps_shape_bind keeps_shape_prims)

lemma same_shape_node:
  "same_shape t t1 \<Longrightarrow> bt_nodes t1 = bt_nodes t \<Longrightarrow> r < length (bt_nodes t) \<Longrightarrow>
   core m = core (bt_nodes t ! r) \<Longrightarrow> bn_parent m = bn_parent (bt_nodes t ! r) \<Longrightarrow> same_shape t (t1\<lparr>bt_nodes := (bt_nodes t)[r := m]\<rparr>)"
  by (auto simp: same_shape_def nth_upd)

lemma core_stamp [simp]: "core (n\<lparr>bn_node_id := i\<rparr>) = core n" "core (n\<lparr>bn_lsn := l\<rparr>) = core n"
  by (simp_all add: core_def)

lemma on_index_nodes: "on_index m (t, lg) = (x, t', lg') \<Longrightarrow> bt_nodes t' = bt_nodes t"
  by (auto simp: on_index_def split: option.splits prod.splits)

lemma keeps_shape_update:
  assumes "\<And>n s x s'. g n s = (Inr x, s') \<Longrightarrow> core (u n x) = core n \<and> bn_parent (u n x) = bn_parent n"
  shows "keeps_shape (sbind (get_node r) (\<lambda>n. sbind (on_index (g n)) (\<lambda>x. set_node r (u n x))))"
  unfolding keeps_shape_def
proof
  fix s :: tree_state
  obtain t lg where s: "s = (t, lg)" by (cases s)
  obtain res t' lg' where run: "sbind (get_node r) (\<lambda>n. sbind (on_index (g n)) (\<lambda>x. set_node r (u n x))) (t, lg) = (res, t', lg')"
    by (rule prod_cases3)
  have "same_shape t t'"
  proof (cases "r < length (bt_nodes t)")
    case True
    let ?n = "bt_nodes t ! r"
    obtain y t1 lg1 where on: "on_index (g ?n) (t, lg) = (y, t1, lg1)" by (rule prod_cases3)
    have sh: "same_shape t t1" by (rule keeps_shapeD [OF keeps_shape_prims(3) on])
    show ?thesis
    proof (cases y)
      case (Inl e)
      then show ?thesis using run True on sh by (simp add: sbind_cases(2))
    next
      case (Inr x)
      then obtain s s' where "g ?n s = (Inr x, s')" using on by (auto simp: on_index_def split: option.splits prod.splits)
      then have "same_shape t (t1\<lparr>bt_nodes := (bt_nodes t)[r := u ?n x]\<rparr>)"
        using assms True by (intro same_shape_node [OF sh on_index_nodes [OF on]]) auto
      then show ?thesis using run True on Inr on_index_nodes [OF on] by (simp add: sbind_cases(1) set_node_run)
    qed
  next
    case False
    then show ?thesis using run by (auto simp: get_node_def sbind_def same_shape_refl)
  qed
  then show "same_shape (fst s) (fst (snd (sbind (get_node r) (\<lambda>n. sbind (on_index (g n)) (\<lambda>x. set_node r (u n x))) s)))"
    using run by (simp add: s)
qed

lemma saveNode_stamps: "IndexManager_saveNode ids n txn s = (Inr n', s') \<Longrightarrow> \<exists>l. n' = n\<lparr>bn_lsn := l\<rparr>"
  by (auto simp: IndexManager_saveNode_def method_simps Let_def split: if_splits)


lemma keeps_shape_assign: "keeps_shape (assign_id r)"
proof -
  let ?m = "sbind (get_node r) (\<lambda>n. sbind (on_index IndexManager_allocateNodeID) (\<lambda>i. set_node r (n\<lparr>bn_node_id := i\<rparr>)))"
  have "assign_id r s = ?m s \<or> fst (snd (assign_id r s)) = fst s" for s
    by (cases s) (auto simp: assign_id_def get_node_def sbind_def sreturn_def)
  moreover have "keeps_shape ?m" by (rule keeps_shape_update) simp
  ultimately show ?thesis unfolding keeps_shape_def by (metis same_shape_refl)
qed

lemma keeps_shape_save: "keeps_shape (save_one txn r)"
proof -
  let ?m = "\<lambda>ids. sbind (get_node r) (\<lambda>n. sbind (on_index (IndexManager_saveNode ids n txn)) (\<lambda>n'. set_node r n'))"
  have "save_one txn r s = ?m (node_ids (bt_nodes (fst s))) s" for s
    by (cases s) (auto simp: save_one_def get_node_def sbind_def sget_def)
  moreover have "keeps_shape (?m ids)" for ids
    by (rule keeps_shape_update) (auto dest!: saveNode_stamps)
  ultimately show ?thesis unfolding keeps_shape_def by metis
qed

lemma keeps_shape_saveDirty: "keeps_shape (BPlusTree_saveDirty txn)"
proof -
  have start: "keeps_shape (\<lambda>(t, tm, w). if a then (case TransactionManager_begin tm w of (txn, tm, w) \<Rightarrow> (Inr txn, t, tm, w)) else (Inr x, t, tm, w))" for a and x :: u64
    by (auto simp: keeps_shape_def same_shape_refl split: prod.splits)
  have finish: "keeps_shape (smodify (\<lambda>(t, tm, w). if a then (t, TransactionManager_commit tm w x) else (t, tm, w)))" for a x
    by (rule keeps_shape_prims) auto
  have root: "keeps_shape (case root of None \<Rightarrow> sreturn (-1) | Some r \<Rightarrow> sbind (get_node r) (\<lambda>n. sreturn (bn_node_id n)))" for root
    by (cases root) (auto intro: keeps_shape_bind keeps_shape_prims)
  show ?thesis unfolding BPlusTree_saveDirty_def Let_def
    by (auto intro!: keeps_shape_bind keeps_shape_prims(1-5) start finish root keeps_shape_for keeps_shape_assign keeps_shape_save split: prod.splits)
qed

lemma same_shape_rel:
  assumes "same_shape t t'" "tree_rel ty t ps"
  shows "tree_rel ty t' ps"
  using assms(2)
proof (cases rule: tree_relE)
  case empty
  then show ?thesis using assms(1) by (simp add: tree_rel_def same_shape_def)
next
  case (tree T)
  have wf: "wf_tree ty (bt_nodes t) None None T" using tree(1) by (simp add: tree_ok_def)
  have ag: "agree (set (refs T)) (bt_nodes t) (bt_nodes t')" using assms(1) refs_bound [OF wf] by (auto simp: same_shape_def agree_def)
  have agl: "agree (set (leaves T)) (bt_nodes t) (bt_nodes t')" using ag leaves_sub_refs by (rule agree_mono)
  have "tree_ok ty t' T"
    using tree(1) assms(1) agree_wf(1) [OF ag wf] agree_linked [OF agl] wf_top [OF wf] by (simp add: tree_ok_def same_shape_def)
  then show ?thesis using tree(2) agree_pairs [OF agl] by (auto simp: tree_rel_def pairs_leaves)
qed

lemma saveDirty_memory: "bt_im t = None \<Longrightarrow> BPlusTree_saveDirty txn (t, lg) = (Inr (), t, lg)"
  by (simp add: BPlusTree_saveDirty_def sreturn_def)

text \<open>Insertion and update as a whole: whatever becomes of the save, the tree in memory holds the new pairs.\<close>

lemma insert_rel:
  assumes "tree_rel ty t ps" "index_key ty key" "lookup_pair key ps = None"
  obtains res t' lg' where "BPlusTree_insert key page_id slot_id txn (t, lg) = (res, t', lg')"
    "tree_rel ty t' (insert_pair key (RID page_id slot_id) ps)" "bt_im t' = None \<longleftrightarrow> bt_im t = None" "bt_im t = None \<longrightarrow> res = Inr () \<and> lg' = lg"
proof -
  obtain t1 where t1: "BPlusTree_insert_mem key page_id slot_id (t, lg) = (Inr (), t1, lg)"
      "tree_rel ty t1 (insert_pair key (RID page_id slot_id) ps)" "bt_im t1 = bt_im t"
    by (rule insert_mem_ok [OF assms])
  obtain res t' lg' where save: "BPlusTree_saveDirty txn (t1, lg) = (res, t', lg')" by (rule prod_cases3)
  note sh = keeps_shapeD [OF keeps_shape_saveDirty save]
  show thesis
  proof (rule that)
    show "BPlusTree_insert key page_id slot_id txn (t, lg) = (res, t', lg')" using t1(1) save by (simp add: BPlusTree_insert_def sbind_cases(1))
    show "bt_im t = None \<longrightarrow> res = Inr () \<and> lg' = lg" using save saveDirty_memory [of t1 txn lg] t1(3) by simp
  qed (use sh t1(2,3) same_shape_rel [OF sh t1(2)] in \<open>simp_all add: same_shape_def\<close>)
qed

lemma update_rel:
  assumes "tree_rel ty t ps" "index_key ty key"
  obtains res t' lg' where "BPlusTree_update key page_id slot_id txn (t, lg) = (res, t', lg')"
    "tree_rel ty t' (update_pair key (RID page_id slot_id) ps)" "bt_im t' = None \<longleftrightarrow> bt_im t = None"
    "bt_im t = None \<or> lookup_pair key ps = None \<longrightarrow> res = Inr (lookup_pair key ps \<noteq> None) \<and> lg' = lg"
proof -
  obtain t1 where t1: "BPlusTree_update_mem key page_id slot_id (t, lg) = (Inr (lookup_pair key ps \<noteq> None), t1, lg)"
      "tree_rel ty t1 (update_pair key (RID page_id slot_id) ps)" "bt_im t1 = bt_im t"
    by (rule update_mem_ok [OF assms])
  show thesis
  proof (cases "lookup_pair key ps")
    case None
    have "BPlusTree_update key page_id slot_id txn (t, lg) = (Inr False, t1, lg)"
      using t1(1) None by (simp add: BPlusTree_update_def sbind_def sreturn_def)
    then show thesis using that None t1(2,3) by simp
  next
    case (Some v)
    obtain res t' lg' where save: "BPlusTree_saveDirty txn (t1, lg) = (res, t', lg')" by (rule prod_cases3)
    note sh = keeps_shapeD [OF keeps_shape_saveDirty save]
    let ?res = "case res of Inl e \<Rightarrow> Inl e | Inr _ \<Rightarrow> Inr True"
    show thesis
    proof (rule that)
      show "BPlusTree_update key page_id slot_id txn (t, lg) = (?res, t', lg')"
        using t1(1) save Some by (cases res) (simp_all add: BPlusTree_update_def sbind_cases sreturn_def)
      show "bt_im t = None \<or> lookup_pair key ps = None \<longrightarrow> ?res = Inr (lookup_pair key ps \<noteq> None) \<and> lg' = lg"
        using save saveDirty_memory [of t1 txn lg] t1(3) Some by auto
    qed (use sh t1(2,3) same_shape_rel [OF sh t1(2)] in \<open>simp_all add: same_shape_def\<close>)
  qed
qed


section \<open>Inserting many pairs\<close>

lemma fresh_lookup: "rank k \<notin> (\<lambda>x. rank (fst x)) ` set ps \<Longrightarrow> lookup_pair k ps = None"
  by (force simp: lookup_none)

lemma mset_insert_pair: "mset (insert_pair k rid ps) = add_mset (k, rid) (mset ps)"
proof -
  let ?P = "\<lambda>(k', r). rank k' < rank k"
  have "mset (insert_pair k rid ps) = add_mset (k, rid) (mset (takeWhile ?P ps @ dropWhile ?P ps))" 
    unfolding insert_pair_def by (simp del: takeWhile_dropWhile_id)
  then show ?thesis by (simp only: takeWhile_dropWhile_id)
qed

lemma insert_pair_distinct:
  assumes "distinct (map (\<lambda>x. rank (fst x)) (ps @ x # kvs))"
  shows "distinct (map (\<lambda>x. rank (fst x)) (insert_pair (fst x) (snd x) ps @ kvs))"
proof -
  have "mset (map (\<lambda>x. rank (fst x)) (insert_pair (fst x) (snd x) ps @ kvs)) = mset (map (\<lambda>x. rank (fst x)) (ps @ x # kvs))"
    by (simp add: mset_insert_pair)
  then show ?thesis using assms mset_eq_imp_distinct_iff by blast
qed

lemma insert_pair_ordered: "ordered ps \<Longrightarrow> lookup_pair k ps = None \<Longrightarrow> ordered (insert_pair k rid ps)"
proof (induction ps)
  case Nil
  then show ?case by (simp add: insert_pair_def ordered_def)
next
  case (Cons x ps)
  obtain k' r where x: "x = (k', r)" by (cases x)
  have "set (insert_pair k rid ps) = insert (k, rid) (set ps)" using arg_cong [OF mset_insert_pair, of set_mset] by simp
  then show ?case using Cons by (auto simp: x insert_pair_Cons ordered_def split: if_splits)
qed

text \<open>Inserting pairs with distinct keys one by one sorts them.\<close>

lemma fold_insert_sorts:
  "distinct (map (\<lambda>x. rank (fst x)) (ps @ kvs)) \<Longrightarrow> ordered ps \<Longrightarrow>
   ordered (fold (\<lambda>x. insert_pair (fst x) (snd x)) kvs ps) \<and> mset (fold (\<lambda>x. insert_pair (fst x) (snd x)) kvs ps) = mset (ps @ kvs)"
proof (induction kvs arbitrary: ps)
  case (Cons x kvs)
  have "lookup_pair (fst x) ps = None" by (rule fresh_lookup) (use Cons.prems(1) in simp)
  then show ?case
    using Cons.IH [OF insert_pair_distinct [OF Cons.prems(1)] insert_pair_ordered [OF Cons.prems(2)]] by (simp add: mset_insert_pair)
qed simp

section \<open>The contract of an ordered index\<close>

text \<open>
  \<open>rel s ps\<close>: the index in state \<open>s\<close> holds the pairs \<open>ps\<close> in key order. \<open>ok\<close> are the keys of the index's type.
\<close>

locale ordered_index =
  fixes rel :: "'s \<Rightarrow> (Key \<times> RID) list \<Rightarrow> bool" and ok :: "Key \<Rightarrow> bool"
    and search :: "Key \<Rightarrow> ('s, RID option) effect" and scan :: "Key \<Rightarrow> Key \<Rightarrow> ('s, (Key \<times> RID) list) effect"
    and all_pairs :: "('s, (Key \<times> RID) list) effect" and insert :: "Key \<Rightarrow> int \<Rightarrow> int \<Rightarrow> ('s, unit) effect"
    and update :: "Key \<Rightarrow> int \<Rightarrow> int \<Rightarrow> ('s, bool) effect"
  assumes search_ok: "rel s ps \<Longrightarrow> ok k \<Longrightarrow> search k s = (Inr (lookup_pair k ps), s)"
    and scan_ok: "rel s ps \<Longrightarrow> ok low \<Longrightarrow> ok high \<Longrightarrow> scan low high s = (Inr (filter (in_range low high) ps), s)"
    and all_ok: "rel s ps \<Longrightarrow> all_pairs s = (Inr ps, s)"
    and insert_ok: "rel s ps \<Longrightarrow> ok k \<Longrightarrow> lookup_pair k ps = None \<Longrightarrow>
      \<exists>s'. insert k p q s = (Inr (), s') \<and> rel s' (insert_pair k (RID p q) ps)"
    and update_ok: "rel s ps \<Longrightarrow> ok k \<Longrightarrow>
      \<exists>s'. update k p q s = (Inr (lookup_pair k ps \<noteq> None), s') \<and> rel s' (update_pair k (RID p q) ps)"
begin

lemma insert_all:
  "rel s ps \<Longrightarrow> \<forall>x \<in> set kvs. ok (fst x) \<Longrightarrow> distinct (map (\<lambda>x. rank (fst x)) (ps @ kvs)) \<Longrightarrow>
   \<exists>s'. sfor (\<lambda>(k, rid). insert k (rid_page_id rid) (rid_slot_id rid)) kvs s = (Inr (), s') \<and> rel s' (fold (\<lambda>x. insert_pair (fst x) (snd x)) kvs ps)"
proof (induction kvs arbitrary: s ps)
  case Nil
  then show ?case by (auto simp: sreturn_def)
next
  case (Cons x kvs)
  obtain k rid where x: "x = (k, rid)" by (cases x)
  have none: "lookup_pair k ps = None" by (rule fresh_lookup) (use Cons.prems(3) x in simp)
  obtain s1 where s1: "insert k (rid_page_id rid) (rid_slot_id rid) s = (Inr (), s1)" "rel s1 (insert_pair k rid ps)"
    using insert_ok [OF Cons.prems(1) _ none, of "rid_page_id rid" "rid_slot_id rid"] Cons.prems(2) x by auto
  have "distinct (map (\<lambda>x. rank (fst x)) (insert_pair k rid ps @ kvs))" using insert_pair_distinct [of ps x kvs] Cons.prems(3) by (simp add: x)
  from Cons.IH [OF s1(2) _ this] Cons.prems(2) show ?case
    using s1(1) by (auto simp: x sbind_cases(1))
qed

end

interpretation tree: ordered_index "\<lambda>(t, lg') ps. lg' = lg \<and> bt_im t = None \<and> tree_rel ty t ps" "index_key ty" BPlusTree_search BPlusTree_rangeScan
  BPlusTree_getAllKeyRIDPairs "\<lambda>k p q. BPlusTree_insert k p q txn" "\<lambda>k p q. BPlusTree_update k p q txn" for lg :: Log and ty txn
proof (unfold_locales, goal_cases)
  case (4 s ps k p q)
  obtain t lg' where s: "s = (t, lg')" by (cases s)
  show ?case using 4 unfolding s by (auto intro: insert_rel [of ty t ps k p q txn lg'])
next
  case (5 s ps k p q)
  obtain t lg' where s: "s = (t, lg')" by (cases s)
  show ?case using 5 unfolding s by (auto intro: update_rel [of ty t ps k p q txn lg'])
qed (auto simp: search_lookup rangeScan_filter getAll_pairs)


section \<open>Properties\<close>

lemma new_rel: "tree_rel ty BPlusTree_new []"
proof -
  have "tree_ok ty BPlusTree_new (Leaf 0)"
    by (simp add: tree_ok_def BPlusTree_new_def wf_leaf_def leaf_ok_def BPlusTreeNode_new_def high_ok_def ORDER_def)
  moreover have "pairs (bt_nodes BPlusTree_new) (Leaf 0) = []" by (simp add: pairs_def BPlusTree_new_def BPlusTreeNode_new_def leaf_pairs_def)
  ultimately show ?thesis unfolding tree_rel_def by metis
qed

text \<open>
  C8: the index as a sorted map. Inserting any sequence of pairs with distinct keys of the index's type, in any order, into an empty
  tree in memory succeeds; the tree then lists exactly those pairs in key order, a range scan returns those of them in the closed range, in
  order, and a search returns the RID inserted for the key or nothing.
\<close>

theorem BPlusTree_sorted_map:
  assumes "\<forall>x \<in> set kvs. index_key ty (fst x)" "distinct (map (\<lambda>x. rank (fst x)) kvs)"
  shows "\<exists>t ps. sfor (\<lambda>(k, rid). BPlusTree_insert k (rid_page_id rid) (rid_slot_id rid) txn) kvs (BPlusTree_new, lg) = (Inr (), t, lg)
    \<and> ordered ps \<and> set ps = set kvs
    \<and> BPlusTree_getAllKeyRIDPairs (t, lg) = (Inr ps, t, lg)
    \<and> (\<forall>low high. index_key ty low \<and> index_key ty high \<longrightarrow>
         BPlusTree_rangeScan low high (t, lg) = (Inr (filter (in_range low high) ps), t, lg))
    \<and> (\<forall>k. index_key ty k \<longrightarrow> BPlusTree_search k (t, lg) = (Inr (lookup_pair k ps), t, lg))"
proof -
  let ?ps = "fold (\<lambda>x. insert_pair (fst x) (snd x)) kvs []"
  have rel0: "(\<lambda>(t, lg') ps. lg' = lg \<and> bt_im t = None \<and> tree_rel ty t ps) (BPlusTree_new, lg) []" using new_rel by (simp add: BPlusTree_new_def)
  obtain t where t: "sfor (\<lambda>(k, rid). BPlusTree_insert k (rid_page_id rid) (rid_slot_id rid) txn) kvs (BPlusTree_new, lg) = (Inr (), t, lg)"
      and rel: "(\<lambda>(t, lg') ps. lg' = lg \<and> bt_im t = None \<and> tree_rel ty t ps) (t, lg) ?ps"
    using tree.insert_all [OF rel0, of kvs txn] assms by auto
  have "ordered ?ps \<and> mset ?ps = mset kvs" using fold_insert_sorts [of "[]" kvs] assms(2) by (simp add: ordered_def)
  then have "ordered ?ps" "set ?ps = set kvs" by (auto dest: mset_eq_setD)
  then show ?thesis
    using t tree.all_ok [OF rel] tree.scan_ok [OF rel] tree.search_ok [OF rel] by blast
qed

theorem BPlusTree_sorted_map_witness:
  "\<exists>t ps. sfor (\<lambda>(k, rid). BPlusTree_insert k (rid_page_id rid) (rid_slot_id rid) 0)
       [(KInt 5, RID 1 0), (KInt 3, RID 1 1), (KInt 9, RID 1 2), (KInt 1, RID 2 0), (KInt 7, RID 2 1)] (BPlusTree_new, snd sample_index) = (Inr (), t, snd sample_index)
    \<and> ordered ps \<and> set ps = {(KInt 5, RID 1 0), (KInt 3, RID 1 1), (KInt 9, RID 1 2), (KInt 1, RID 2 0), (KInt 7, RID 2 1)}
    \<and> BPlusTree_rangeScan (KInt 3) (KInt 7) (t, snd sample_index) = (Inr (filter (in_range (KInt 3) (KInt 7)) ps), t, snd sample_index)"
proof -
  let ?kvs = "[(KInt 5, RID 1 0), (KInt 3, RID 1 1), (KInt 9, RID 1 2), (KInt 1, RID 2 0), (KInt 7, RID 2 1)]"
  have "\<forall>x \<in> set ?kvs. index_key INTEGER (fst x)" "distinct (map (\<lambda>x. rank (fst x)) ?kvs)" "index_key INTEGER (KInt 3)" "index_key INTEGER (KInt 7)"
    by (simp_all add: index_key_def)
  then show ?thesis using BPlusTree_sorted_map [of ?kvs INTEGER 0 "snd sample_index"] by auto
qed

text \<open>
  C14: an index on file answers from memory what was inserted. Whatever the outcome of writing the changed nodes to the index file
  (also when the write throws), after an insertion of a new key the tree in memory holds the pair in addition to what it held, and searches and scans
  return it; a tree without an index file never fails and writes nothing to the log.
\<close>

theorem BPlusTree_insert_refines:
  assumes "tree_rel ty t ps" "index_key ty key" "lookup_pair key ps = None"
  shows "\<exists>res t' lg'. BPlusTree_insert key page_id slot_id txn (t, lg) = (res, t', lg')
    \<and> tree_rel ty t' (insert_pair key (RID page_id slot_id) ps)
    \<and> BPlusTree_search key (t', lg') = (Inr (Some (RID page_id slot_id)), t', lg')
    \<and> (\<forall>k. index_key ty k \<and> rank k \<noteq> rank key \<longrightarrow> BPlusTree_search k (t', lg') = (Inr (lookup_pair k ps), t', lg'))
    \<and> (bt_im t = None \<longrightarrow> res = Inr () \<and> lg' = lg)"
proof -
  obtain res t' lg' where run: "BPlusTree_insert key page_id slot_id txn (t, lg) = (res, t', lg')"
      "tree_rel ty t' (insert_pair key (RID page_id slot_id) ps)" "bt_im t' = None \<longleftrightarrow> bt_im t = None" "bt_im t = None \<longrightarrow> res = Inr () \<and> lg' = lg"
    by (rule insert_rel [OF assms, where page_id = page_id and slot_id = slot_id and txn = txn and lg = lg])
  then show ?thesis using search_lookup [OF run(2)] assms(2) by (auto simp: lookup_insert_pair)
qed

theorem BPlusTree_insert_refines_witness:
  "\<exists>res t' lg'. BPlusTree_insert (KInt 4) 7 1 0 (BPlusTree_new, snd sample_index) = (res, t', lg')
    \<and> BPlusTree_search (KInt 4) (t', lg') = (Inr (Some (RID 7 1)), t', lg') \<and> res = Inr () \<and> lg' = snd sample_index"
  using BPlusTree_insert_refines [OF new_rel [of INTEGER], of "KInt 4" 7 1 0 "snd sample_index"]
  by (auto simp: index_key_def BPlusTree_new_def)

text \<open>
  C37: \<open>update\<close> redirects a key. It reports whether the key was there, replaces its RID and no other, and leaves the keys, their order and every
  other search as they were; for a key that is absent it changes neither the pairs nor the log.
\<close>

theorem BPlusTree_update_refines:
  assumes "tree_rel ty t ps" "index_key ty key"
  shows "\<exists>res t' lg'. BPlusTree_update key page_id slot_id txn (t, lg) = (res, t', lg')
    \<and> tree_rel ty t' (update_pair key (RID page_id slot_id) ps)
    \<and> (\<forall>k. index_key ty k \<longrightarrow> BPlusTree_search k (t', lg') =
         (Inr (if rank k = rank key \<and> lookup_pair key ps \<noteq> None then Some (RID page_id slot_id) else lookup_pair k ps), t', lg'))
    \<and> (bt_im t = None \<or> lookup_pair key ps = None \<longrightarrow> res = Inr (lookup_pair key ps \<noteq> None) \<and> lg' = lg)"
proof -
  obtain res t' lg' where run: "BPlusTree_update key page_id slot_id txn (t, lg) = (res, t', lg')"
      "tree_rel ty t' (update_pair key (RID page_id slot_id) ps)" "bt_im t' = None \<longleftrightarrow> bt_im t = None"
      "bt_im t = None \<or> lookup_pair key ps = None \<longrightarrow> res = Inr (lookup_pair key ps \<noteq> None) \<and> lg' = lg"
    by (rule update_rel [OF assms, where page_id = page_id and slot_id = slot_id and txn = txn and lg = lg])
  have "lookup_pair k (update_pair key (RID page_id slot_id) ps) =
      (if rank k = rank key \<and> lookup_pair key ps \<noteq> None then Some (RID page_id slot_id) else lookup_pair k ps)" for k
    by (induction ps) auto
  then show ?thesis using run search_lookup [OF run(2)] by auto
qed

lemma one_pair_tree: "\<exists>t. tree_rel INTEGER t [(KInt 4, RID 7 1)] \<and> bt_im t = None"
proof -
  have "index_key INTEGER (KInt 4)" by (simp add: index_key_def)
  then obtain res t lg' where "BPlusTree_insert (KInt 4) 7 1 0 (BPlusTree_new, snd sample_index) = (res, t, lg')"
      "tree_rel INTEGER t (insert_pair (KInt 4) (RID 7 1) [])" "bt_im t = None \<longleftrightarrow> bt_im BPlusTree_new = None"
      "bt_im BPlusTree_new = None \<longrightarrow> res = Inr () \<and> lg' = snd sample_index"
    using insert_rel [OF new_rel [of INTEGER], where key = "KInt 4" and lg = "snd sample_index" and txn = 0 and page_id = 7 and slot_id = 1]
    by (metis lookup_pair.simps(1))
  then show ?thesis by (auto simp: insert_pair_def BPlusTree_new_def)
qed

theorem BPlusTree_update_refines_witness:
  "\<exists>t res t' lg'. tree_rel INTEGER t [(KInt 4, RID 7 1)] \<and> BPlusTree_update (KInt 4) 9 9 0 (t, snd sample_index) = (res, t', lg')
    \<and> BPlusTree_search (KInt 4) (t', lg') = (Inr (Some (RID 9 9)), t', lg') \<and> res = Inr True"
proof -
  obtain t where t: "tree_rel INTEGER t [(KInt 4, RID 7 1)]" "bt_im t = None" using one_pair_tree by blast
  have key: "index_key INTEGER (KInt 4)" by (simp add: index_key_def)
  obtain res t' lg' where r: "BPlusTree_update (KInt 4) 9 9 0 (t, snd sample_index) = (res, t', lg')"
      "\<forall>k. index_key INTEGER k \<longrightarrow> BPlusTree_search k (t', lg') =
         (Inr (if rank k = rank (KInt 4) \<and> lookup_pair (KInt 4) [(KInt 4, RID 7 1)] \<noteq> None then Some (RID 9 9)
               else lookup_pair k [(KInt 4, RID 7 1)]), t', lg')"
      "bt_im t = None \<or> lookup_pair (KInt 4) [(KInt 4, RID 7 1)] = None \<longrightarrow>
         res = Inr (lookup_pair (KInt 4) [(KInt 4, RID 7 1)] \<noteq> None) \<and> lg' = snd sample_index"
    using BPlusTree_update_refines [OF t(1) key, of 9 9 0 "snd sample_index"] by (elim exE conjE) (rule that)
  have "BPlusTree_search (KInt 4) (t', lg') = (Inr (Some (RID 9 9)), t', lg')" "res = Inr True"
    using spec [OF r(2), of "KInt 4"] key r(3) t(2) by simp_all
  then show ?thesis using t(1) r(1) by blast
qed

end
