(* ===== verification/Lock_Manager.thy ===== *)
theory Lock_Manager
  imports Keys
begin

text \<open>
  \<open>lockmanager.hpp\<close> / \<open>lockmanager.cpp\<close>: exclusive row locks with a waits-for graph.

  \<open>acquireExclusive\<close> holds the mutex except inside \<open>cv.wait_for\<close>, so a call is a sequence of
  atomic pieces: \<open>LockManager_acquireIter\<close> is one pass through the loop body, up to returning,
  throwing or going to sleep; \<open>LockManager_wake\<close> and \<open>LockManager_timeout\<close> are the two ways
  out of the wait. \<open>lock_step\<close> interleaves the pieces of all transactions; a transaction runs one
  statement at a time, so it is either idle or waiting for one row.
\<close>

record LockManager =
  holder_of :: "RID \<rightharpoonup> u64"
  held_by :: "u64 \<rightharpoonup> RID set"
  waits_for :: "u64 \<rightharpoonup> u64"
  deadlock_victims :: "u64 set"

definition LockManager_new :: LockManager where
  "LockManager_new = \<lparr>holder_of = Map.empty, held_by = Map.empty, waits_for = Map.empty, deadlock_victims = {}\<rparr>"

text \<open>The chain walk of \<open>wouldCycleLocked\<close>, at \<open>cur\<close> with the given \<open>visited\<close> set.\<close>

function wouldCycle_walk :: "(u64 \<rightharpoonup> u64) \<Rightarrow> u64 \<Rightarrow> u64 \<Rightarrow> u64 set \<Rightarrow> bool" where
  "wouldCycle_walk edges from_txn cur visited =
     (if cur = from_txn then True
      else if cur \<in> visited then False
      else case edges cur of
        None \<Rightarrow> False
      | Some nxt \<Rightarrow> wouldCycle_walk edges from_txn nxt (insert cur visited))"
  by pat_completeness auto
termination
proof (relation "measure (\<lambda>(edges, from_txn, cur, visited). card (- visited))", goal_cases)
  case (2 edges from_txn cur visited nxt)
  then have "- insert cur visited \<subset> - visited" by auto
  then show ?case by (simp add: psubset_card_mono)
qed simp

declare wouldCycle_walk.simps [simp del]

definition LockManager_wouldCycleLocked :: "LockManager \<Rightarrow> u64 \<Rightarrow> u64 \<Rightarrow> bool" where
  "LockManager_wouldCycleLocked lm from_txn to_txn = wouldCycle_walk (waits_for lm) from_txn to_txn {}"

text \<open>How one pass through the loop body ends: the call returns, throws, or sleeps.\<close>

datatype acquire_outcome = Returns | Throws error | Sleeps

definition LockManager_claim :: "LockManager \<Rightarrow> RID \<Rightarrow> u64 \<Rightarrow> LockManager" where
  "LockManager_claim lm rid txn =
     lm\<lparr>holder_of := (holder_of lm)(rid \<mapsto> txn),
        held_by := (held_by lm)(txn \<mapsto> insert rid (case held_by lm txn of None \<Rightarrow> {} | Some rs \<Rightarrow> rs))\<rparr>"

definition LockManager_acquireIter :: "LockManager \<Rightarrow> RID \<Rightarrow> u64 \<Rightarrow> acquire_outcome \<times> LockManager" where
  "LockManager_acquireIter lm rid txn =
     (if txn \<in> deadlock_victims lm
      then (Throws (DeadlockError (''LockManager: txn '' @ string_of_nat (unat txn) @ '' aborted to break a deadlock'')),
            lm\<lparr>deadlock_victims := deadlock_victims lm - {txn}\<rparr>)
      else case holder_of lm rid of
        None \<Rightarrow> (Returns, LockManager_claim lm rid txn)
      | Some holder \<Rightarrow>
          if holder = txn then (Returns, lm)
          else if LockManager_wouldCycleLocked lm txn holder then
            (let victim = max txn holder in
             if victim = txn
             then (Throws (DeadlockError (''LockManager: txn '' @ string_of_nat (unat txn)
                     @ '' aborted to break a deadlock with txn '' @ string_of_nat (unat holder))), lm)
             else (Sleeps, lm\<lparr>deadlock_victims := insert victim (deadlock_victims lm),
                              waits_for := (waits_for lm)(txn \<mapsto> holder)\<rparr>))
          else (Sleeps, lm\<lparr>waits_for := (waits_for lm)(txn \<mapsto> holder)\<rparr>))"

text \<open>The predicate of \<open>cv.wait_for\<close>: what ends the wait other than the timeout.\<close>

definition LockManager_ready :: "LockManager \<Rightarrow> RID \<Rightarrow> u64 \<Rightarrow> bool" where
  "LockManager_ready lm rid txn \<longleftrightarrow>
     txn \<in> deadlock_victims lm \<or> holder_of lm rid = None \<or> holder_of lm rid = Some txn"

definition LockManager_endWait :: "LockManager \<Rightarrow> u64 \<Rightarrow> LockManager" where
  "LockManager_endWait lm txn = lm\<lparr>waits_for := (waits_for lm)(txn := None)\<rparr>"

definition LockManager_wake :: "LockManager \<Rightarrow> RID \<Rightarrow> u64 \<Rightarrow> acquire_outcome \<times> LockManager" where
  "LockManager_wake lm rid txn = LockManager_acquireIter (LockManager_endWait lm txn) rid txn"

definition LockManager_timeout :: "LockManager \<Rightarrow> u64 \<Rightarrow> acquire_outcome \<times> LockManager" where
  "LockManager_timeout lm txn = 
     (Throws (LockTimeoutError (''LockManager: txn '' @ string_of_nat (unat txn) @ '' timed out waiting for a lock'')),
      LockManager_endWait lm txn)"

definition LockManager_releaseAll :: "LockManager \<Rightarrow> u64 \<Rightarrow> LockManager" where
  "LockManager_releaseAll lm txn =
     (let lm = (case held_by lm txn of
          None \<Rightarrow> lm
        | Some rids \<Rightarrow> lm\<lparr>holder_of := (\<lambda>r. if r \<in> rids then None else holder_of lm r),
                          held_by := (held_by lm)(txn := None)\<rparr>) in
      lm\<lparr>waits_for := (waits_for lm)(txn := None), deadlock_victims := deadlock_victims lm - {txn}\<rparr>)"

text \<open>
  The interleaving of all transactions' calls: the lock manager and, per transaction, the row its
  sleeping call waits for.
\<close>

type_synonym lock_state = "LockManager \<times> (u64 \<rightharpoonup> RID)"

definition after_iter :: "acquire_outcome \<Rightarrow> RID \<Rightarrow> u64 \<Rightarrow> (u64 \<rightharpoonup> RID) \<Rightarrow> (u64 \<rightharpoonup> RID)" where
  "after_iter out rid txn ws = ws(txn := (if out = Sleeps then Some rid else None))"

datatype lock_event = Acquire u64 RID acquire_outcome | Wake u64 acquire_outcome | Timeout u64 | Release u64

inductive lock_step :: "lock_state \<Rightarrow> lock_event \<Rightarrow> lock_state \<Rightarrow> bool" where
  step_acquire: "ws txn = None \<Longrightarrow> LockManager_acquireIter lm rid txn = (out, lm') \<Longrightarrow>
    lock_step (lm, ws) (Acquire txn rid out) (lm', after_iter out rid txn ws)"
| step_wake: "ws txn = Some rid \<Longrightarrow> LockManager_ready lm rid txn \<Longrightarrow>
    LockManager_wake lm rid txn = (out, lm') \<Longrightarrow>
    lock_step (lm, ws) (Wake txn out) (lm', after_iter out rid txn ws)"
| step_timeout: "ws txn = Some rid \<Longrightarrow> \<not> LockManager_ready lm rid txn \<Longrightarrow>
    LockManager_timeout lm txn = (out, lm') \<Longrightarrow>
    lock_step (lm, ws) (Timeout txn) (lm', ws(txn := None))"
| step_release: "ws txn = None \<Longrightarrow> lock_step (lm, ws) (Release txn) (LockManager_releaseAll lm txn, ws)"

inductive lock_reach :: "lock_state \<Rightarrow> bool" where
  reach_new: "lock_reach (LockManager_new, Map.empty)"
| reach_step: "lock_reach s \<Longrightarrow> lock_step s e s' \<Longrightarrow> lock_reach s'"

section \<open>The chain walk decides reachability\<close>

definition wait_edge :: "(u64 \<rightharpoonup> u64) \<Rightarrow> u64 \<Rightarrow> u64 \<Rightarrow> bool" where
  "wait_edge edges a b \<longleftrightarrow> edges a = Some b"

lemma wait_edge_step: "edges a = Some b \<Longrightarrow> a \<noteq> c \<Longrightarrow> (wait_edge edges)\<^sup>*\<^sup>* a c \<longleftrightarrow> (wait_edge edges)\<^sup>*\<^sup>* b c"
  by (auto simp: wait_edge_def elim: converse_rtranclpE intro: converse_rtranclp_into_rtranclp)

lemma wait_edge_closed:
  assumes "(wait_edge edges)\<^sup>*\<^sup>* a b" "a \<in> V" "\<forall>v \<in> V. \<forall>w. edges v = Some w \<longrightarrow> w \<in> V"
  shows "b \<in> V"
  using assms(1,2) by induction (use assms(3) in \<open>auto simp: wait_edge_def\<close>)

lemma wouldCycle_walk_iff:
  assumes "from_txn \<notin> visited" "\<forall>v \<in> visited. \<forall>w. edges v = Some w \<longrightarrow> w \<in> visited \<or> w = cur"
  shows "wouldCycle_walk edges from_txn cur visited \<longleftrightarrow> (wait_edge edges)\<^sup>*\<^sup>* cur from_txn"
  using assms
proof (induction edges from_txn cur visited rule: wouldCycle_walk.induct)
  case (1 edges from_txn cur visited)
  show ?case
  proof (cases "cur = from_txn \<or> cur \<in> visited")
    case True
    moreover have "\<not> (wait_edge edges)\<^sup>*\<^sup>* cur from_txn" if "cur \<in> visited"
      using wait_edge_closed [of edges cur from_txn visited] that 1(2,3) by blast
    ultimately show ?thesis by (subst wouldCycle_walk.simps) auto
  next
    case nvis: False
    show ?thesis
    proof (cases "edges cur")
      case None
      with nvis show ?thesis
        by (subst wouldCycle_walk.simps) (auto simp: wait_edge_def elim: converse_rtranclpE)
    next
      case (Some nxt)
      have "wouldCycle_walk edges from_txn nxt (insert cur visited) \<longleftrightarrow> (wait_edge edges)\<^sup>*\<^sup>* nxt from_txn"
        using nvis Some 1(2,3) by (intro 1(1)) auto
      with nvis Some show ?thesis
        by (subst wouldCycle_walk.simps) (simp add: wait_edge_step)
    qed
  qed
qed

lemma wouldCycleLocked_iff:
  "LockManager_wouldCycleLocked lm a b \<longleftrightarrow> (wait_edge (waits_for lm))\<^sup>*\<^sup>* b a"
  by (simp add: LockManager_wouldCycleLocked_def wouldCycle_walk_iff)

section \<open>Invariant\<close>

text \<open>
  The two lock tables agree, wait edges belong to exactly the sleeping calls, victims are asleep,
  and every waits-for cycle contains a marked victim.
\<close>

definition tables_agree :: "LockManager \<Rightarrow> bool" where
  "tables_agree lm \<longleftrightarrow> (\<forall>rid t. holder_of lm rid = Some t \<longleftrightarrow> (\<exists>rs. held_by lm t = Some rs \<and> rid \<in> rs))"

definition waiters_ok :: "lock_state \<Rightarrow> bool" where
  "waiters_ok s \<longleftrightarrow> dom (waits_for (fst s)) = dom (snd s) \<and> deadlock_victims (fst s) \<subseteq> dom (snd s)"

definition cycles_broken :: "LockManager \<Rightarrow> bool" where
  "cycles_broken lm \<longleftrightarrow> (\<forall>t. (wait_edge (waits_for lm))\<^sup>+\<^sup>+ t t \<longrightarrow>
     (\<exists>v \<in> deadlock_victims lm. (wait_edge (waits_for lm))\<^sup>*\<^sup>* t v))"

definition lock_inv :: "lock_state \<Rightarrow> bool" where
  "lock_inv s \<longleftrightarrow> tables_agree (fst s) \<and> waiters_ok s \<and> cycles_broken (fst s)"

lemma cyc_next: "(wait_edge e)\<^sup>+\<^sup>+ x x \<Longrightarrow> wait_edge e x y \<Longrightarrow> (wait_edge e)\<^sup>+\<^sup>+ y y"
  by (drule tranclpD) (auto simp: wait_edge_def intro: rtranclp_into_tranclp1)

lemma cyc_reach:
  assumes "(wait_edge e)\<^sup>*\<^sup>* t x" "(wait_edge e)\<^sup>+\<^sup>+ t t"
  shows "(wait_edge e)\<^sup>+\<^sup>+ x x"
  using assms by induction (auto intro: cyc_next)

lemma cyc_avoids_cut:
  assumes "e' = e(txn := None)" "(wait_edge e')\<^sup>+\<^sup>+ t t" "(wait_edge e)\<^sup>*\<^sup>* t v"
  shows "(wait_edge e')\<^sup>*\<^sup>* t v \<and> v \<noteq> txn"
proof -
  have out: "x \<noteq> txn" if "(wait_edge e')\<^sup>*\<^sup>* t x" for x
    using tranclpD [OF cyc_reach [OF that assms(2)]] assms(1) by (auto simp: wait_edge_def)
  from assms(3) have "(wait_edge e')\<^sup>*\<^sup>* t v"
  proof induction
    case (step y z)
    then have "y \<noteq> txn" using out by blast
    with step have "wait_edge e' y z" unfolding wait_edge_def assms(1) by simp
    with step show ?case by simp
  qed simp
  with out show ?thesis by blast
qed

lemma wait_edge_mono: "e \<subseteq>\<^sub>m e' \<Longrightarrow> wait_edge e a b \<Longrightarrow> wait_edge e' a b"
  by (auto simp: wait_edge_def map_le_def dom_def)

lemma tranclp_mono_edges: "e \<subseteq>\<^sub>m e' \<Longrightarrow> (wait_edge e)\<^sup>+\<^sup>+ a b \<Longrightarrow> (wait_edge e')\<^sup>+\<^sup>+ a b"
  by (erule tranclp_trans_induct) (auto intro: wait_edge_mono)

lemma rtranclp_mono_edges: "e \<subseteq>\<^sub>m e' \<Longrightarrow> (wait_edge e)\<^sup>*\<^sup>* a b \<Longrightarrow> (wait_edge e')\<^sup>*\<^sup>* a b"
  by (erule rtranclp_mono [THEN predicate2D, rotated]) (auto intro: wait_edge_mono)

lemma map_le_cut: "e(t := None) \<subseteq>\<^sub>m e"
  by (auto simp: map_le_def)

lemma cycles_broken_cut:
  assumes "cycles_broken lm" "waits_for lm' = (waits_for lm)(txn := None)"
    and "deadlock_victims lm - {txn} \<subseteq> deadlock_victims lm'"
  shows "cycles_broken lm'"
  unfolding cycles_broken_def
proof (intro allI impI)
  fix t
  assume cyc: "(wait_edge (waits_for lm'))\<^sup>+\<^sup>+ t t"
  then have "(wait_edge (waits_for lm))\<^sup>+\<^sup>+ t t"
    using assms(2) map_le_cut by (metis tranclp_mono_edges)
  then obtain v where v: "v \<in> deadlock_victims lm" "(wait_edge (waits_for lm))\<^sup>*\<^sup>* t v"
    using assms(1) by (auto simp: cycles_broken_def)
  with cyc_avoids_cut [OF assms(2) cyc v(2)] assms(3)
  show "\<exists>v \<in> deadlock_victims lm'. (wait_edge (waits_for lm'))\<^sup>*\<^sup>* t v" by blast
qed

lemma reach_before_new_edge:
  assumes "(wait_edge (e(txn \<mapsto> h)))\<^sup>*\<^sup>* a txn"
  shows "(wait_edge e)\<^sup>*\<^sup>* a txn"
  using assms
proof (induction rule: converse_rtranclp_induct)
  case (step a b)
  then show ?case
    by (cases "a = txn") (auto simp: wait_edge_def intro: converse_rtranclp_into_rtranclp)
qed simp

lemma path_without:
  assumes "(wait_edge (e(txn \<mapsto> h)))\<^sup>+\<^sup>+ a b" "\<not> (wait_edge (e(txn \<mapsto> h)))\<^sup>*\<^sup>* a txn"
  shows "(wait_edge e)\<^sup>+\<^sup>+ a b"
  using assms
proof (induction rule: tranclp_induct)
  case (base b)
  then show ?case by (auto simp: wait_edge_def split: if_splits)
next
  case (step b c)
  have "b \<noteq> txn" using step.hyps(1) step.prems tranclp_into_rtranclp by metis
  then have "wait_edge e b c" using step.hyps(2) by (auto simp: wait_edge_def)
  with step show ?case by auto
qed

lemma cycles_broken_add:
  assumes "cycles_broken lm" "waits_for lm txn = None"
    and lm': "waits_for lm' = (waits_for lm)(txn \<mapsto> holder)" "deadlock_victims lm \<subseteq> deadlock_victims lm'"
    and victim: "(wait_edge (waits_for lm))\<^sup>*\<^sup>* holder txn \<Longrightarrow> holder \<in> deadlock_victims lm'"
  shows "cycles_broken lm'"
  unfolding cycles_broken_def
proof (intro allI impI)
  fix t
  let ?e = "waits_for lm" and ?e' = "waits_for lm'"
  assume cyc: "(wait_edge ?e')\<^sup>+\<^sup>+ t t"
  have le: "?e \<subseteq>\<^sub>m ?e'" using lm'(1) assms(2) by (auto simp: map_le_def)
  have edge: "wait_edge ?e' txn holder" by (simp add: lm'(1) wait_edge_def)
  show "\<exists>v \<in> deadlock_victims lm'. (wait_edge ?e')\<^sup>*\<^sup>* t v"
  proof (cases "(wait_edge ?e')\<^sup>*\<^sup>* t txn")
    case True
    from tranclpD [OF cyc_reach [OF True cyc]] have "(wait_edge ?e')\<^sup>*\<^sup>* holder txn"
      by (auto simp: lm'(1) wait_edge_def)
    then have "holder \<in> deadlock_victims lm'"
      using reach_before_new_edge victim unfolding lm'(1) by blast
    with True edge show ?thesis by (meson rtranclp.rtrancl_into_rtrancl)
  next
    case False
    then have "(wait_edge ?e)\<^sup>+\<^sup>+ t t"
      using path_without cyc unfolding lm'(1) by blast
    then obtain v where "v \<in> deadlock_victims lm" "(wait_edge ?e)\<^sup>*\<^sup>* t v"
      using assms(1) by (auto simp: cycles_broken_def)
    with rtranclp_mono_edges [OF le] lm'(2) show ?thesis by blast
  qed
qed

lemma tables_agreeI:
  assumes "\<And>rid t. holder_of lm rid = Some t \<Longrightarrow> rid \<in> the (held_by lm t) \<and> held_by lm t \<noteq> None"
    and "\<And>rid t rs. held_by lm t = Some rs \<Longrightarrow> rid \<in> rs \<Longrightarrow> holder_of lm rid = Some t"
  shows "tables_agree lm"
  using assms by (fastforce simp: tables_agree_def)

lemma tables_agreeD:
  assumes "tables_agree lm"
  shows "holder_of lm rid = Some t \<Longrightarrow> \<exists>rs. held_by lm t = Some rs \<and> rid \<in> rs"
    and "held_by lm t = Some rs \<Longrightarrow> rid \<in> rs \<Longrightarrow> holder_of lm rid = Some t"
  using assms by (simp_all add: tables_agree_def)

lemma tables_agree_claim:
  assumes "tables_agree lm" "holder_of lm rid = None"
  shows "tables_agree (LockManager_claim lm rid txn)"
proof (rule tables_agreeI)
  fix r t
  assume "holder_of (LockManager_claim lm rid txn) r = Some t"
  then show "r \<in> the (held_by (LockManager_claim lm rid txn) t) \<and> held_by (LockManager_claim lm rid txn) t \<noteq> None"
    using tables_agreeD(1) [OF assms(1), of r t]
    by (auto simp: LockManager_claim_def split: if_splits)
next
  fix r t rs
  assume "held_by (LockManager_claim lm rid txn) t = Some rs" "r \<in> rs"
  then show "holder_of (LockManager_claim lm rid txn) r = Some t"
    using tables_agreeD(2) [OF assms(1), of t _ r] assms(2)
    by (auto simp: LockManager_claim_def split: if_splits option.splits)
qed

lemma tables_agree_release:
  assumes "tables_agree lm"
  shows "tables_agree (LockManager_releaseAll lm txn)"
proof (cases "held_by lm txn")
  case None
  then show ?thesis using assms by (simp add: LockManager_releaseAll_def tables_agree_def)
next
  case (Some rids)
  show ?thesis
  proof (rule tables_agreeI)
    fix r t
    assume "holder_of (LockManager_releaseAll lm txn) r = Some t"
    then show "r \<in> the (held_by (LockManager_releaseAll lm txn) t) \<and> held_by (LockManager_releaseAll lm txn) t \<noteq> None"
      using tables_agreeD(1) [OF assms, of r t] Some
      by (auto simp: LockManager_releaseAll_def split: if_splits)
  next
    fix r t rs
    assume "held_by (LockManager_releaseAll lm txn) t = Some rs" "r \<in> rs"
    then show "holder_of (LockManager_releaseAll lm txn) r = Some t"
      using tables_agreeD(2) [OF assms, of t rs r] tables_agreeD(2) [OF assms Some, of r] Some
      by (auto simp: LockManager_releaseAll_def split: if_splits)
  qed
qed

lemma cycles_broken_cong:
  "waits_for lm' = waits_for lm \<Longrightarrow> deadlock_victims lm' = deadlock_victims lm \<Longrightarrow>
   cycles_broken lm' = cycles_broken lm"
  by (simp add: cycles_broken_def)

lemma claim_fields:
  "waits_for (LockManager_claim lm rid txn) = waits_for lm"
  "deadlock_victims (LockManager_claim lm rid txn) = deadlock_victims lm"
  by (simp_all add: LockManager_claim_def)

lemma tables_agree_upd [simp]:
  "tables_agree (lm\<lparr>waits_for := w\<rparr>) = tables_agree lm"
  "tables_agree (lm\<lparr>deadlock_victims := d\<rparr>) = tables_agree lm"
  by (simp_all add: tables_agree_def)

lemma releaseAll_fields:
  "waits_for (LockManager_releaseAll lm txn) = (waits_for lm)(txn := None)"
  "deadlock_victims (LockManager_releaseAll lm txn) = deadlock_victims lm - {txn}"
  by (simp_all add: LockManager_releaseAll_def Let_def split: option.splits)

text \<open>One pass of the loop for a transaction that is not (or no longer) waiting.\<close>

lemma acquireIter_inv:
  assumes "LockManager_acquireIter lm rid txn = (out, lm')" "waits_for lm txn = None"
    and "tables_agree lm" "cycles_broken lm" "deadlock_victims lm - {txn} \<subseteq> dom (waits_for lm)"
  shows "tables_agree lm' \<and> cycles_broken lm'
    \<and> dom (waits_for lm') = (if out = Sleeps then insert txn (dom (waits_for lm)) else dom (waits_for lm))
    \<and> deadlock_victims lm' \<subseteq> dom (waits_for lm')"
proof (cases "txn \<in> deadlock_victims lm")
  case True
  with assms have "out \<noteq> Sleeps" "lm' = lm\<lparr>deadlock_victims := deadlock_victims lm - {txn}\<rparr>"
    by (auto simp: LockManager_acquireIter_def)
  moreover have "cycles_broken (lm\<lparr>deadlock_victims := deadlock_victims lm - {txn}\<rparr>)"
    by (rule cycles_broken_cut [of lm _ txn]) (use assms(2,4) in \<open>auto simp: fun_upd_idem\<close>)
  ultimately show ?thesis using assms by simp
next
  case nv: False
  show ?thesis
  proof (cases "holder_of lm rid")
    case None
    with nv assms have "out \<noteq> Sleeps" "lm' = LockManager_claim lm rid txn"
      by (auto simp: LockManager_acquireIter_def)
    with None nv assms show ?thesis
      by (auto simp: tables_agree_claim claim_fields cycles_broken_cong [OF claim_fields])
  next
    case (Some holder)
    show ?thesis
    proof (cases "out = Sleeps")
      case False
      with Some nv assms have "lm' = lm"
        by (auto simp: LockManager_acquireIter_def Let_def split: if_splits)
      with False nv assms show ?thesis by auto
    next
      case True
      let ?cyc = "(wait_edge (waits_for lm))\<^sup>*\<^sup>* holder txn"
      have ne: "holder \<noteq> txn"
        and lm': "lm' = lm\<lparr>deadlock_victims := (if ?cyc then insert holder (deadlock_victims lm) else deadlock_victims lm),
            waits_for := (waits_for lm)(txn \<mapsto> holder)\<rparr>"
        using True Some nv assms(1)
        by (auto simp: LockManager_acquireIter_def wouldCycleLocked_iff Let_def max_def split: if_splits)
      have "cycles_broken lm'"
        by (rule cycles_broken_add [of lm txn _ holder]) (use assms(2,4) in \<open>auto simp: lm'\<close>)
      moreover have "holder \<in> dom (waits_for lm)" if ?cyc
        using that ne by (auto simp: wait_edge_def elim: converse_rtranclpE)
      ultimately show ?thesis
        using True nv assms(3,5) by (auto simp: lm')
    qed
  qed
qed

lemma lock_inv_new: "lock_inv (LockManager_new, Map.empty)"
proof -
  have "\<not> (wait_edge Map.empty)\<^sup>+\<^sup>+ t t" for t
    by (auto dest!: tranclpD simp: wait_edge_def)
  then show ?thesis
    by (simp add: lock_inv_def LockManager_new_def tables_agree_def waiters_ok_def cycles_broken_def)
qed

lemma endWait_inv:
  assumes "lock_inv (lm, ws)"
  shows "tables_agree (LockManager_endWait lm txn)" and "dom (waits_for (LockManager_endWait lm txn)) = dom ws - {txn}"
    and "deadlock_victims (LockManager_endWait lm txn) = deadlock_victims lm"
    and "cycles_broken (LockManager_endWait lm txn)"
proof -
  show "cycles_broken (LockManager_endWait lm txn)"
    by (rule cycles_broken_cut [of lm _ txn]) (use assms in \<open>auto simp: lock_inv_def LockManager_endWait_def\<close>)
qed (use assms in \<open>auto simp: lock_inv_def waiters_ok_def LockManager_endWait_def\<close>)

lemma lock_step_inv:
  assumes "lock_step s e s'" "lock_inv s"
  shows "lock_inv s'"
  using assms(1)
proof cases
  case (step_acquire ws txn lm rid out lm')
  then have inv: "lock_inv (lm, ws)" using assms(2) by simp
  have "waits_for lm txn = None"
    using step_acquire(4) inv unfolding lock_inv_def waiters_ok_def fst_conv snd_conv
    by (metis domIff)
  moreover have "deadlock_victims lm - {txn} \<subseteq> dom (waits_for lm)"
    using inv by (auto simp: lock_inv_def waiters_ok_def)
  moreover note acquireIter_inv [OF step_acquire(5)]
  ultimately show ?thesis
    using inv step_acquire(3,4) by (auto simp: lock_inv_def waiters_ok_def after_iter_def)
next
  case (step_wake ws txn rid lm out lm')
  then have inv: "lock_inv (lm, ws)" using assms(2) by simp
  note e = endWait_inv [OF inv, of txn]
  have "deadlock_victims lm \<subseteq> dom ws" using inv by (simp add: lock_inv_def waiters_ok_def)
  then have "deadlock_victims (LockManager_endWait lm txn) - {txn} \<subseteq> dom (waits_for (LockManager_endWait lm txn))"
    unfolding e(3,2) by blast
  moreover have "waits_for (LockManager_endWait lm txn) txn = None"
    by (simp add: LockManager_endWait_def)
  moreover note acquireIter_inv [OF step_wake(6) [unfolded LockManager_wake_def]] e
  ultimately have "tables_agree lm' \<and> cycles_broken lm'
    \<and> dom (waits_for lm') = (if out = Sleeps then insert txn (dom ws - {txn}) else dom ws - {txn})
    \<and> deadlock_victims lm' \<subseteq> dom (waits_for lm')"
    by metis
  then show ?thesis
    using step_wake(3,4) by (auto simp: lock_inv_def waiters_ok_def after_iter_def)
next
  case (step_timeout ws txn rid lm out lm')
  then have inv: "lock_inv (lm, ws)" using assms(2) by simp
  note e = endWait_inv [OF inv, of txn]
  have "txn \<notin> deadlock_victims lm" using step_timeout(5) by (simp add: LockManager_ready_def)
  moreover have "lm' = LockManager_endWait lm txn"
    using step_timeout(6) by (simp add: LockManager_timeout_def)
  ultimately show ?thesis
    using step_timeout(3) e inv by (auto simp: lock_inv_def waiters_ok_def)
next
  case (step_release ws txn lm)
  then have inv: "lock_inv (lm, ws)" using assms(2) by simp
  have "cycles_broken (LockManager_releaseAll lm txn)"
    by (rule cycles_broken_cut [of lm _ txn]) (use inv in \<open>auto simp: lock_inv_def releaseAll_fields\<close>)
  then show ?thesis
    using inv step_release(3,4)
    by (auto simp: lock_inv_def waiters_ok_def tables_agree_release releaseAll_fields)
qed

lemma lock_reach_inv: "lock_reach s \<Longrightarrow> lock_inv s"
  by (induction rule: lock_reach.induct) (auto intro: lock_inv_new lock_step_inv)

lemma acquireIter_holder:
  assumes "LockManager_acquireIter lm rid txn = (out, lm')"
  shows "out = Returns \<Longrightarrow> holder_of lm' rid = Some txn"
    and "holder_of lm r = Some t \<Longrightarrow> holder_of lm' r = Some t"
  using assms
  by (auto simp: LockManager_acquireIter_def LockManager_claim_def Let_def split: if_splits option.splits)

lemma releaseAll_holder:
  "tables_agree lm \<Longrightarrow> holder_of (LockManager_releaseAll lm txn) r = (if holder_of lm r = Some txn then None else holder_of lm r)"
  using tables_agreeD(1) [of lm r txn] tables_agreeD(2) [of lm txn _ r]
  by (cases "held_by lm txn") (auto simp: LockManager_releaseAll_def)

lemma endWait_holder [simp]: "holder_of (LockManager_endWait lm txn) = holder_of lm"
  by (simp add: LockManager_endWait_def)

section \<open>Properties\<close>

text \<open>
  C24: the chain walk of \<open>wouldCycleLocked\<close> terminates and decides exactly whether \<open>to_txn\<close> reaches
  \<open>from_txn\<close> along waits-for edges, whatever cycles the graph already has.
\<close>
theorem LockManager_wouldCycle_correct:
  "LockManager_wouldCycleLocked lm from_txn to_txn
    \<longleftrightarrow> (\<lambda>a b. waits_for lm a = Some b)\<^sup>*\<^sup>* to_txn from_txn"
  by (simp add: wouldCycleLocked_iff wait_edge_def [abs_def])

text \<open>
  in every reachable state of the lock manager the table from rows to holders and the table from
  holders to rows describe the same relation, wait edges and victim marks belong to sleeping calls
  only, and every cycle of the waits-for graph reaches a transaction marked as a deadlock victim.
\<close>
theorem LockManager_reachable_safe:
  assumes "lock_reach (lm, ws)"
  shows "(\<forall>rid t. holder_of lm rid = Some t \<longleftrightarrow> (\<exists>rs. held_by lm t = Some rs \<and> rid \<in> rs))
    \<and> dom (waits_for lm) = dom ws \<and> deadlock_victims lm \<subseteq> dom ws
    \<and> (\<forall>t. (wait_edge (waits_for lm))\<^sup>+\<^sup>+ t t \<longrightarrow>
         (\<exists>v \<in> deadlock_victims lm. (wait_edge (waits_for lm))\<^sup>*\<^sup>* t v))"
  using lock_reach_inv [OF assms]
  by (simp add: lock_inv_def tables_agree_def waiters_ok_def cycles_broken_def)

theorem LockManager_reachable_safe_witness:
  "dom (waits_for LockManager_new) = dom (Map.empty :: u64 \<rightharpoonup> RID)"
  using LockManager_reachable_safe [OF reach_new] by blast

text \<open>
  C15: exclusive locks are exclusive over time: a call that returns leaves its transaction the holder of
  the row, and from then on no step of any other transaction takes the row away; only the holder's own
  \<open>releaseAll\<close> does.
\<close>
theorem LockManager_exclusive:
  assumes "lock_reach s" "lock_step s e s'"
  shows "(\<forall>rid t. holder_of (fst s) rid = Some t \<longrightarrow> e \<noteq> Release t \<longrightarrow> holder_of (fst s') rid = Some t)
    \<and> (\<forall>txn rid. e = Acquire txn rid Returns \<or> e = Wake txn Returns \<and> snd s txn = Some rid \<longrightarrow>
         holder_of (fst s') rid = Some txn)
    \<and> (\<forall>t rid. e = Release t \<longrightarrow> holder_of (fst s') rid \<noteq> Some t)"
  using assms(2)
proof cases
  case (step_release ws txn lm)
  moreover have "tables_agree lm"
    using lock_reach_inv [OF assms(1)] step_release(1) by (simp add: lock_inv_def)
  ultimately show ?thesis by (simp add: releaseAll_holder)
qed (auto simp: LockManager_wake_def LockManager_timeout_def dest: acquireIter_holder)

theorem LockManager_exclusive_witness:
  "holder_of (fst (LockManager_claim LockManager_new (RID 0 0) 1, Map.empty :: u64 \<rightharpoonup> RID)) (RID 0 0) = Some 1"
proof -
  have "lock_step (LockManager_new, Map.empty) (Acquire 1 (RID 0 0) Returns)
      (LockManager_claim LockManager_new (RID 0 0) 1, after_iter Returns (RID 0 0) 1 Map.empty)"
    by (intro step_acquire) (simp_all add: LockManager_acquireIter_def LockManager_new_def)
  from LockManager_exclusive [OF reach_new this] show ?thesis
    unfolding fst_conv by blast
qed

text \<open>
  a marked victim is always able to run, and its next step throws \<open>DeadlockError\<close>, removes its
  mark and its wait edge: a detected deadlock is broken.
\<close>
theorem LockManager_victim_throws:
  assumes "lock_reach (lm, ws)" "v \<in> deadlock_victims lm"
  shows "\<exists>rid msg lm'. ws v = Some rid \<and> LockManager_ready lm rid v
    \<and> LockManager_wake lm rid v = (Throws (DeadlockError msg), lm')
    \<and> v \<notin> deadlock_victims lm' \<and> waits_for lm' v = None"
proof -
  obtain rid where "ws v = Some rid"
    using lock_reach_inv [OF assms(1)] assms(2) by (auto simp: lock_inv_def waiters_ok_def)
  with assms(2) show ?thesis
    by (simp add: LockManager_ready_def LockManager_wake_def LockManager_acquireIter_def LockManager_endWait_def)
qed

definition sample_deadlock :: "lock_event list" where
  "sample_deadlock = [Acquire 1 (RID 0 0) Returns, Acquire 2 (RID 0 1) Returns,
     Acquire 2 (RID 0 0) Sleeps, Acquire 1 (RID 0 1) Sleeps]"

text \<open>Replaying a list of events as a function, to exhibit concrete runs.\<close>

fun lock_exec :: "lock_state \<Rightarrow> lock_event \<Rightarrow> lock_state" where
  "lock_exec (lm, ws) (Acquire txn rid out) =
     (let (out, lm') = LockManager_acquireIter lm rid txn in (lm', after_iter out rid txn ws))"
| "lock_exec (lm, ws) (Wake txn out) =
     (let rid = the (ws txn); (out, lm') = LockManager_wake lm rid txn in (lm', after_iter out rid txn ws))"
| "lock_exec (lm, ws) (Timeout txn) = (LockManager_endWait lm txn, ws(txn := None))"
| "lock_exec (lm, ws) (Release txn) = (LockManager_releaseAll lm txn, ws)"

fun lock_allowed :: "lock_state \<Rightarrow> lock_event \<Rightarrow> bool" where
  "lock_allowed (lm, ws) (Acquire txn rid out) \<longleftrightarrow> ws txn = None \<and> fst (LockManager_acquireIter lm rid txn) = out"
| "lock_allowed (lm, ws) (Wake txn out) \<longleftrightarrow> (\<exists>rid. ws txn = Some rid \<and> LockManager_ready lm rid txn
     \<and> fst (LockManager_wake lm rid txn) = out)"
| "lock_allowed (lm, ws) (Timeout txn) \<longleftrightarrow> (\<exists>rid. ws txn = Some rid \<and> \<not> LockManager_ready lm rid txn)"
| "lock_allowed (lm, ws) (Release txn) \<longleftrightarrow> ws txn = None"

lemma lock_exec_step: "lock_allowed s e \<Longrightarrow> lock_step s e (lock_exec s e)"
  by (cases "(s, e)" rule: lock_exec.cases)
    (auto simp: split_beta Let_def LockManager_timeout_def intro!: lock_step.intros)

fun lock_run :: "lock_state \<Rightarrow> lock_event list \<Rightarrow> lock_state option" where
  "lock_run s [] = Some s"
| "lock_run s (e # es) = (if lock_allowed s e then lock_run (lock_exec s e) es else None)"

lemma lock_run_reach: "lock_run s es = Some s' \<Longrightarrow> lock_reach s \<Longrightarrow> lock_reach s'"
  by (induction s es rule: lock_run.induct) (auto intro: reach_step lock_exec_step split: if_splits)

lemmas lock_eval = LockManager_acquireIter_def LockManager_claim_def LockManager_wouldCycleLocked_def
  wouldCycle_walk.simps LockManager_new_def LockManager_ready_def LockManager_wake_def
  LockManager_endWait_def LockManager_releaseAll_def after_iter_def Let_def

lemma sample_deadlock_run:
  "\<exists>lm ws. lock_run (LockManager_new, Map.empty) sample_deadlock = Some (lm, ws) \<and> 2 \<in> deadlock_victims lm"
  by (simp add: sample_deadlock_def lock_eval)

theorem LockManager_victim_throws_witness:
  "\<exists>lm ws rid msg lm'. lock_run (LockManager_new, Map.empty) sample_deadlock = Some (lm, ws)
    \<and> LockManager_wake lm rid 2 = (Throws (DeadlockError msg), lm')"
proof -
  obtain lm ws where run: "lock_run (LockManager_new, Map.empty) sample_deadlock = Some (lm, ws)"
      "2 \<in> deadlock_victims lm"
    using sample_deadlock_run by blast
  with LockManager_victim_throws [OF lock_run_reach [OF run(1) reach_new] run(2)] show ?thesis by blast
qed

text \<open>
  C25: a real deadlock can go undetected. A sleeping call's wait edge is set once, before the wait, and
  is not updated when the row changes hands: transaction 1 waits for a row of 3, 3 releases it, 2
  takes it before 1 runs, and then 2 asks for a row of 1. The reachable state has 1 and 2 each asleep
  on a row the other holds, no victim is marked and neither call can wake: only the timeout ends it.
\<close>
theorem LockManager_undetected_deadlock:
  "\<exists>lm ws a b. lock_reach (lm, ws) \<and> ws 1 = Some a \<and> holder_of lm a = Some 2
    \<and> ws 2 = Some b \<and> holder_of lm b = Some 1 \<and> deadlock_victims lm = {}
    \<and> \<not> LockManager_ready lm a 1 \<and> \<not> LockManager_ready lm b 2"
proof -
  let ?es = "[Acquire 1 (RID 0 0) Returns, Acquire 3 (RID 0 1) Returns, Acquire 1 (RID 0 1) Sleeps,
    Release 3, Acquire 2 (RID 0 1) Returns, Acquire 2 (RID 0 0) Sleeps]"
  have "\<exists>lm ws. lock_run (LockManager_new, Map.empty) ?es = Some (lm, ws)
      \<and> ws 1 = Some (RID 0 1) \<and> holder_of lm (RID 0 1) = Some 2
      \<and> ws 2 = Some (RID 0 0) \<and> holder_of lm (RID 0 0) = Some 1 \<and> deadlock_victims lm = {}
      \<and> \<not> LockManager_ready lm (RID 0 1) 1 \<and> \<not> LockManager_ready lm (RID 0 0) 2"
    by (simp add: lock_eval)
  then show ?thesis using lock_run_reach reach_new by blast
qed

end
