(* ===== verification/Mvcc.thy ===== *)
theory Mvcc
  imports Wal Lock_Manager
begin

text \<open>
  \<open>transaction.hpp\<close>, \<open>mvcc.hpp\<close> / \<open>mvcc.cpp\<close>: transaction status, snapshots and the visibility
  rule, on top of the transaction manager of \<open>Wal\<close> and the row locks of \<open>Lock_Manager\<close>.

  Each public method holds the manager's mutex for its whole body, so it is one atomic step;
  \<open>mvcc_step\<close> interleaves the steps of all transactions.
\<close>

datatype TxnState = ACTIVE | COMMITTED | ABORTED

record Snapshot =
  sn_xmax :: u64
  sn_active_at_start :: "u64 set"

definition Snapshot_wasActiveAtSnapshot :: "Snapshot \<Rightarrow> u64 \<Rightarrow> bool" where
  "Snapshot_wasActiveAtSnapshot snap txn \<longleftrightarrow> txn \<in> sn_active_at_start snap"

record Transaction =
  tx_id :: u64
  tx_state :: TxnState
  tx_snapshot :: Snapshot

record MVCCManager =
  mv_txns :: TransactionManager
  mv_wal :: WALWriter
  mv_transactions :: "u64 \<rightharpoonup> Transaction"
  mv_lock_manager :: LockManager

definition MVCCManager_new :: "TransactionManager \<Rightarrow> WALWriter \<Rightarrow> MVCCManager" where
  "MVCCManager_new tm w = \<lparr>mv_txns = tm, mv_wal = w, mv_transactions = Map.empty, mv_lock_manager = LockManager_new\<rparr>"

definition MVCCManager_activeIds :: "MVCCManager \<Rightarrow> u64 set" where
  "MVCCManager_activeIds m = {t \<in> dom (mv_transactions m). tx_state (the (mv_transactions m t)) = ACTIVE}"

definition MVCCManager_snapshotLocked :: "MVCCManager \<Rightarrow> Snapshot" where
  "MVCCManager_snapshotLocked m =
     \<lparr>sn_xmax = TransactionManager_peekNextTxnId (mv_txns m), sn_active_at_start = MVCCManager_activeIds m\<rparr>"

definition MVCCManager_stateOfLocked :: "MVCCManager \<Rightarrow> u64 \<Rightarrow> TxnState" where
  "MVCCManager_stateOfLocked m txn =
     (case mv_transactions m txn of None \<Rightarrow> COMMITTED | Some tx \<Rightarrow> tx_state tx)"

definition MVCCManager_begin :: "MVCCManager \<Rightarrow> u64 \<times> MVCCManager" where
  "MVCCManager_begin m =
     (let (txn, tm, w) = TransactionManager_begin (mv_txns m) (mv_wal m);
          snap = \<lparr>sn_xmax = TransactionManager_peekNextTxnId tm, sn_active_at_start = MVCCManager_activeIds m\<rparr> in
      (txn, m\<lparr>mv_txns := tm, mv_wal := w,
              mv_transactions := (mv_transactions m)(txn \<mapsto> \<lparr>tx_id = txn, tx_state = ACTIVE, tx_snapshot = snap\<rparr>)\<rparr>))"

definition MVCCManager_commit :: "MVCCManager \<Rightarrow> u64 \<Rightarrow> MVCCManager" where
  "MVCCManager_commit m txn =
     (let (tm, w) = TransactionManager_commit (mv_txns m) (mv_wal m) txn in
      m\<lparr>mv_txns := tm, mv_wal := w, mv_transactions := (mv_transactions m)(txn := None),
        mv_lock_manager := LockManager_releaseAll (mv_lock_manager m) txn\<rparr>)"

definition MVCCManager_abort :: "MVCCManager \<Rightarrow> u64 \<Rightarrow> MVCCManager" where
  "MVCCManager_abort m txn =
     (let (tm, w) = TransactionManager_abort (mv_txns m) (mv_wal m) txn in
      m\<lparr>mv_txns := tm, mv_wal := w,
        mv_transactions := (case mv_transactions m txn of
            None \<Rightarrow> mv_transactions m
          | Some tx \<Rightarrow> (mv_transactions m)(txn \<mapsto> tx\<lparr>tx_state := ABORTED\<rparr>)),
        mv_lock_manager := LockManager_releaseAll (mv_lock_manager m) txn\<rparr>)"

text \<open>\<open>acquireExclusive\<close> delegates to the lock manager, one pass or wake-up at a time.\<close>

definition MVCCManager_acquireExclusive :: "MVCCManager \<Rightarrow> RID \<Rightarrow> u64 \<Rightarrow> acquire_outcome \<times> MVCCManager" where
  "MVCCManager_acquireExclusive m rid txn =
     (let (out, lm) = LockManager_acquireIter (mv_lock_manager m) rid txn in
      (out, m\<lparr>mv_lock_manager := lm\<rparr>))"

definition MVCCManager_getSnapshot :: "MVCCManager \<Rightarrow> u64 \<Rightarrow> Snapshot result" where
  "MVCCManager_getSnapshot m txn =
     (if txn = 0 then Inr (MVCCManager_snapshotLocked m)
      else case mv_transactions m txn of
        None \<Rightarrow> Inl (RuntimeError (''MVCCManager::getSnapshot: txn '' @ string_of_nat (unat txn)
                  @ '' is unknown or already committed/aborted''))
      | Some tx \<Rightarrow> Inr (tx_snapshot tx))"

definition MVCCManager_isVisible :: "MVCCManager \<Rightarrow> u64 \<Rightarrow> u64 \<Rightarrow> u64 \<Rightarrow> Snapshot \<Rightarrow> bool" where
  "MVCCManager_isVisible m create_txn_id delete_txn_id reader_txn_id snapshot =
     (let self_created = (reader_txn_id \<noteq> 0 \<and> create_txn_id = reader_txn_id) in
      if \<not> self_created \<and>
         (MVCCManager_stateOfLocked m create_txn_id \<noteq> COMMITTED
          \<or> create_txn_id \<ge> sn_xmax snapshot
          \<or> Snapshot_wasActiveAtSnapshot snapshot create_txn_id) then False
      else if delete_txn_id = 0 then True
      else if reader_txn_id \<noteq> 0 \<and> delete_txn_id = reader_txn_id then False
      else if MVCCManager_stateOfLocked m delete_txn_id \<noteq> COMMITTED then True
      else if delete_txn_id \<ge> sn_xmax snapshot then True
      else if Snapshot_wasActiveAtSnapshot snapshot delete_txn_id then True
      else False)"

text \<open>
  The interleaving of transactions: begins, commits and aborts of active transactions, log records
  and lock operations, as long as the 64-bit transaction counter is not exhausted.
\<close>

datatype mvcc_event = MBegin u64 | MCommit u64 | MAbort u64 | MWrite u64 | MLock

inductive mvcc_step :: "MVCCManager \<Rightarrow> mvcc_event \<Rightarrow> MVCCManager \<Rightarrow> bool" where
  mv_begin: "tm_next_txn_id (mv_txns m) \<noteq> - 1 \<Longrightarrow> MVCCManager_begin m = (txn, m') \<Longrightarrow>
    mvcc_step m (MBegin txn) m'"
| mv_commit: "txn \<in> MVCCManager_activeIds m \<Longrightarrow> mvcc_step m (MCommit txn) (MVCCManager_commit m txn)"
| mv_abort: "txn \<in> MVCCManager_activeIds m \<Longrightarrow> mvcc_step m (MAbort txn) (MVCCManager_abort m txn)"
| mv_write: "txn \<in> MVCCManager_activeIds m \<Longrightarrow>
    TransactionManager_appendRecord (mv_txns m) (mv_wal m) txn UPDATE st page old new table = (lsn, tm, w) \<Longrightarrow>
    mvcc_step m (MWrite txn) (m\<lparr>mv_txns := tm, mv_wal := w\<rparr>)"
| mv_lock: "mvcc_step m MLock (m\<lparr>mv_lock_manager := lm\<rparr>)"

section \<open>Invariant and snapshots\<close>

definition mvcc_inv :: "MVCCManager \<Rightarrow> bool" where
  "mvcc_inv m \<longleftrightarrow> dom (mv_transactions m) \<subseteq> {t. t < tm_next_txn_id (mv_txns m)} \<and> 0 < tm_next_txn_id (mv_txns m)
     \<and> 0 \<notin> dom (mv_transactions m)"

text \<open>\<open>is_self r t\<close>: the "my own write" test of \<open>isVisible\<close>.\<close>

definition is_self :: "u64 \<Rightarrow> u64 \<Rightarrow> bool" where
  "is_self reader t \<longleftrightarrow> reader \<noteq> 0 \<and> t = reader"

text \<open>
  A snapshot that was taken at or before the current state: it is bounded by the id counter, and
  every older transaction it does not list as active has finished.
\<close>

definition snap_ok :: "u64 \<Rightarrow> Snapshot \<Rightarrow> MVCCManager \<Rightarrow> bool" where
  "snap_ok reader snap m \<longleftrightarrow> sn_xmax snap \<le> tm_next_txn_id (mv_txns m)
     \<and> (\<forall>t < sn_xmax snap. t \<notin> sn_active_at_start snap \<longrightarrow> \<not> is_self reader t
          \<longrightarrow> MVCCManager_stateOfLocked m t \<noteq> ACTIVE)"

text \<open>The effects of transaction \<open>t\<close> are part of what the reader sees.\<close>

definition sees :: "MVCCManager \<Rightarrow> u64 \<Rightarrow> Snapshot \<Rightarrow> u64 \<Rightarrow> bool" where
  "sees m reader snap t \<longleftrightarrow> is_self reader t
     \<or> MVCCManager_stateOfLocked m t = COMMITTED \<and> t < sn_xmax snap \<and> t \<notin> sn_active_at_start snap"

lemma isVisible_sees:
  "MVCCManager_isVisible m c d reader snap \<longleftrightarrow> sees m reader snap c \<and> (d = 0 \<or> \<not> sees m reader snap d)"
  by (auto simp: MVCCManager_isVisible_def sees_def is_self_def Snapshot_wasActiveAtSnapshot_def Let_def not_le)

lemma activeIds_state: "t \<in> MVCCManager_activeIds m \<Longrightarrow> MVCCManager_stateOfLocked m t = ACTIVE"
  by (auto simp: MVCCManager_activeIds_def MVCCManager_stateOfLocked_def)

lemma state_active: "MVCCManager_stateOfLocked m t = ACTIVE \<longleftrightarrow> t \<in> MVCCManager_activeIds m"
  by (auto simp: MVCCManager_activeIds_def MVCCManager_stateOfLocked_def split: option.splits)

lemma begin_fields:
  assumes "MVCCManager_begin m = (txn, m')"
  shows "txn = tm_next_txn_id (mv_txns m)" "tm_next_txn_id (mv_txns m') = txn + 1"
    "mv_transactions m' = (mv_transactions m)(txn \<mapsto> \<lparr>tx_id = txn, tx_state = ACTIVE,
       tx_snapshot = \<lparr>sn_xmax = txn + 1, sn_active_at_start = MVCCManager_activeIds m\<rparr>\<rparr>)"
  using assms
  by (auto simp: MVCCManager_begin_def TransactionManager_begin_def TransactionManager_peekNextTxnId_def
      Let_def split: prod.splits)

lemma end_next:
  "TransactionManager_end ty tm w txn = (tm', w') \<Longrightarrow> tm_next_txn_id tm' = tm_next_txn_id tm"
  by (auto simp: TransactionManager_end_def split: prod.splits)

lemma commit_fields [simp]:
  "tm_next_txn_id (mv_txns (MVCCManager_commit m txn)) = tm_next_txn_id (mv_txns m)"
  "mv_transactions (MVCCManager_commit m txn) = (mv_transactions m)(txn := None)"
  by (auto simp: MVCCManager_commit_def TransactionManager_commit_def dest: end_next split: prod.splits)

lemma abort_fields [simp]:
  "tm_next_txn_id (mv_txns (MVCCManager_abort m txn)) = tm_next_txn_id (mv_txns m)"
  "mv_transactions (MVCCManager_abort m txn) = (case mv_transactions m txn of
      None \<Rightarrow> mv_transactions m | Some tx \<Rightarrow> (mv_transactions m)(txn \<mapsto> tx\<lparr>tx_state := ABORTED\<rparr>))"
  by (auto simp: MVCCManager_abort_def TransactionManager_abort_def dest: end_next split: prod.splits)

lemma appendRecord_next:
  "TransactionManager_appendRecord tm w txn ty st page old new table = (lsn, tm', w') \<Longrightarrow>
   tm_next_txn_id tm' = tm_next_txn_id tm"
  by (auto simp: TransactionManager_appendRecord_def split: prod.splits)

lemma mvcc_step_inv:
  assumes "mvcc_step m e m'" "mvcc_inv m"
  shows "mvcc_inv m' \<and> tm_next_txn_id (mv_txns m) \<le> tm_next_txn_id (mv_txns m')"
  using assms(1)
proof cases
  case (mv_begin txn)
  let ?n = "tm_next_txn_id (mv_txns m)"
  have lt: "?n < ?n + 1"
    using max_word_Suc [of ?n ?n] mv_begin(2) by simp
  then have "s < ?n + 1" if "s < ?n" for s
    using that by (rule less_trans [rotated])
  with begin_fields [OF mv_begin(3)] assms(2) lt show ?thesis
    by (auto simp: mvcc_inv_def less_imp_le)
next
  case (mv_write txn st page old new table lsn tm w)
  then show ?thesis using assms(2) by (simp add: mvcc_inv_def appendRecord_next [OF mv_write(4)])
qed (use assms(2) in \<open>auto simp: mvcc_inv_def split: option.splits\<close>)

lemma stateOf_cong: "mv_transactions m' t = mv_transactions m t \<Longrightarrow> MVCCManager_stateOfLocked m' t = MVCCManager_stateOfLocked m t"
  by (simp add: MVCCManager_stateOfLocked_def)

text \<open>A finished transaction below the id counter keeps its state.\<close>

lemma mvcc_step_state:
  assumes "mvcc_step m e m'" "t < tm_next_txn_id (mv_txns m)" "MVCCManager_stateOfLocked m t \<noteq> ACTIVE"
  shows "MVCCManager_stateOfLocked m' t = MVCCManager_stateOfLocked m t"
  using assms(1)
proof cases
  case (mv_begin txn)
  with begin_fields [OF mv_begin(3)] assms(2) show ?thesis by (intro stateOf_cong) auto
next
  case (mv_commit txn)
  then show ?thesis using assms(3) activeIds_state by (intro stateOf_cong) auto
next
  case (mv_abort txn)
  then have "t \<noteq> txn" using assms(3) activeIds_state by blast
  then show ?thesis using mv_abort by (intro stateOf_cong) (auto split: option.splits)
qed (auto intro: stateOf_cong)

lemma mvcc_step_self:
  assumes "mvcc_step m e m'" "mvcc_inv m" "MVCCManager_stateOfLocked m r = ACTIVE" "e \<noteq> MCommit r" "e \<noteq> MAbort r"
  shows "mv_transactions m' r = mv_transactions m r"
proof -
  have "r < tm_next_txn_id (mv_txns m)"
    using assms(2,3) by (auto simp: state_active MVCCManager_activeIds_def mvcc_inv_def)
  with assms(1) show ?thesis
    by cases (use assms(4,5) in \<open>auto simp: begin_fields(3) dest: begin_fields(1) split: option.splits\<close>)
qed

lemma snap_ok_step:
  assumes "mvcc_step m e m'" "mvcc_inv m" "snap_ok r snap m"
  shows "snap_ok r snap m' \<and> (\<forall>t. sees m' r snap t = sees m r snap t)"
proof -
  have le: "sn_xmax snap \<le> tm_next_txn_id (mv_txns m)" "tm_next_txn_id (mv_txns m) \<le> tm_next_txn_id (mv_txns m')"
    using assms(3) mvcc_step_inv [OF assms(1,2)] by (simp_all add: snap_ok_def)
  have st: "MVCCManager_stateOfLocked m' t = MVCCManager_stateOfLocked m t"
    if "t < sn_xmax snap" "t \<notin> sn_active_at_start snap" "\<not> is_self r t" for t
    using mvcc_step_state [OF assms(1), of t] that assms(3) le(1)
    by (auto simp: snap_ok_def dest: less_le_trans)
  have "snap_ok r snap m'"
    using assms(3) le st by (auto simp: snap_ok_def)
  moreover have "sees m' r snap t = sees m r snap t" for t
    using st [of t] by (auto simp: sees_def)
  ultimately show ?thesis by blast
qed

definition reader_inv :: "u64 \<Rightarrow> Snapshot \<Rightarrow> MVCCManager \<Rightarrow> bool" where
  "reader_inv r snap m \<longleftrightarrow> mvcc_inv m \<and> snap_ok r snap m
     \<and> (r \<noteq> 0 \<longrightarrow> MVCCManager_stateOfLocked m r = ACTIVE \<and> MVCCManager_getSnapshot m r = Inr snap)"

interpretation mv: stable_view mvcc_step "reader_inv r snap" "\<lambda>e. e = MCommit r \<or> e = MAbort r"
  "\<lambda>m c d. MVCCManager_isVisible m c d r snap" for r snap
proof (unfold_locales, goal_cases)
  case (1 m e m')
  then have inv: "mvcc_inv m" "snap_ok r snap m" by (simp_all add: reader_inv_def)
  have "mv_transactions m' r = mv_transactions m r" if "r \<noteq> 0"
    using mvcc_step_self [OF 1(3) inv(1)] 1(1,2) that by (simp add: reader_inv_def)
  with 1 mvcc_step_inv [OF 1(3) inv(1)] snap_ok_step [OF 1(3) inv] show ?case
    by (auto simp: reader_inv_def MVCCManager_getSnapshot_def cong: stateOf_cong
        split: option.splits)
next
  case (2 m e m')
  then have "mvcc_inv m" "snap_ok r snap m" by (simp_all add: reader_inv_def)
  from snap_ok_step [OF 2(3) this] show ?case by (simp add: isVisible_sees)
qed

lemma begin_reader_inv:
  assumes "mvcc_inv m" "tm_next_txn_id (mv_txns m) \<noteq> - 1" "MVCCManager_begin m = (r, m')"
  shows "reader_inv r (tx_snapshot (the (mv_transactions m' r))) m'"
proof -
  note f = begin_fields [OF assms(3)]
  have "mvcc_inv m'" using mvcc_step_inv [OF mv_begin [OF assms(2,3)] assms(1)] by blast
  moreover have "MVCCManager_stateOfLocked m' t \<noteq> ACTIVE"
    if "t \<notin> MVCCManager_activeIds m" "\<not> is_self r t" "t < r + 1" for t
  proof (cases "t = r")
    case True
    then show ?thesis using that assms(1) f(1) by (simp add: is_self_def mvcc_inv_def)
  next
    case False
    then have "MVCCManager_stateOfLocked m' t = MVCCManager_stateOfLocked m t"
      by (intro stateOf_cong) (simp add: f(3))
    with that(1) show ?thesis by (simp add: state_active)
  qed
  ultimately show ?thesis
    using f by (auto simp: reader_inv_def snap_ok_def MVCCManager_getSnapshot_def MVCCManager_stateOfLocked_def)
qed

lemma fresh_snapshot_ok: "snap_ok 0 (MVCCManager_snapshotLocked m) m"
  by (simp add: snap_ok_def MVCCManager_snapshotLocked_def TransactionManager_peekNextTxnId_def state_active)

lemma mvcc_inv_new:
  "0 < tm_next_txn_id tm \<Longrightarrow> mvcc_inv (MVCCManager_new tm w)"
  by (simp add: mvcc_inv_def MVCCManager_new_def)

lemma runs_inv:
  assumes "runs mvcc_step m es m'" "mvcc_inv m"
  shows "mvcc_inv m' \<and> tm_next_txn_id (mv_txns m) \<le> tm_next_txn_id (mv_txns m')"
  using assms
proof induction
  case (runs_Cons m e m' es m'')
  with mvcc_step_inv [OF runs_Cons(1,4)] show ?case by (blast intro: order_trans)
qed simp

lemma runs_finished:
  assumes "runs mvcc_step m es m'" "mvcc_inv m" "t < tm_next_txn_id (mv_txns m)"
    and "MVCCManager_stateOfLocked m t \<noteq> ACTIVE"
  shows "MVCCManager_stateOfLocked m' t = MVCCManager_stateOfLocked m t"
  using assms
proof induction
  case (runs_Cons m e m' es m'')
  with mvcc_step_inv [OF runs_Cons(1,4)] mvcc_step_state [OF runs_Cons(1,5,6)] show ?case
    by (metis order_less_le_trans)
qed simp

section \<open>Properties\<close>

text \<open>
  REPEATABLE READ. From the moment \<open>begin\<close> returns, whatever other transactions begin, write,
  commit or abort, the reader's snapshot does not change and the visibility of every row version to
  it does not change, until the reader itself ends.
\<close>
theorem MVCC_repeatable_read:
  assumes "mvcc_inv m" "tm_next_txn_id (mv_txns m) \<noteq> - 1" "MVCCManager_begin m = (r, m0)"
    and "runs mvcc_step m0 es m'" "MCommit r \<notin> set es" "MAbort r \<notin> set es"
  shows "\<exists>snap. MVCCManager_getSnapshot m0 r = Inr snap \<and> MVCCManager_getSnapshot m' r = Inr snap
    \<and> (\<forall>c d. MVCCManager_isVisible m' c d r snap = MVCCManager_isVisible m0 c d r snap)"
proof -
  let ?snap = "tx_snapshot (the (mv_transactions m0 r))"
  have inv: "reader_inv r ?snap m0"
    using begin_reader_inv [OF assms(1-3)] .
  moreover have "reader_inv r ?snap m'
      \<and> (\<lambda>c d. MVCCManager_isVisible m' c d r ?snap) = (\<lambda>c d. MVCCManager_isVisible m0 c d r ?snap)"
    using assms(5,6) by (intro mv.runs_stable [OF assms(4) inv]) auto
  moreover have "r \<noteq> 0"
    using begin_fields(1) [OF assms(3)] assms(1) by (auto simp: mvcc_inv_def)
  ultimately show ?thesis by (auto simp: reader_inv_def dest: fun_cong)
qed

definition sample_mvcc :: MVCCManager where
  "sample_mvcc = MVCCManager_new \<lparr>tm_next_txn_id = 1, tm_last_lsn_per_txn = Map.empty\<rparr> (WALWriter_open [])"

lemma sample_mvcc_inv: "mvcc_inv sample_mvcc" "tm_next_txn_id (mv_txns sample_mvcc) = 1"
  by (simp_all add: sample_mvcc_def MVCCManager_new_def mvcc_inv_def)

theorem MVCC_repeatable_read_witness:
  "\<exists>snap. MVCCManager_getSnapshot (snd (MVCCManager_begin sample_mvcc)) (fst (MVCCManager_begin sample_mvcc)) = Inr snap"
proof -
  have "runs mvcc_step (snd (MVCCManager_begin sample_mvcc)) [] (snd (MVCCManager_begin sample_mvcc))"
    by (rule runs_Nil)
  from MVCC_repeatable_read [OF sample_mvcc_inv(1) _ surjective_pairing this]
  show ?thesis using sample_mvcc_inv(2) by auto
qed

text \<open>
  an update is atomic to every reader: when transaction \<open>t\<close> stamps a version the reader would
  otherwise see as deleted and creates its successor, the reader sees exactly one of the two.
\<close>
theorem MVCC_update_atomic:
  assumes "MVCCManager_isVisible m c 0 reader snap" "t \<noteq> 0"
  shows "MVCCManager_isVisible m c t reader snap \<noteq> MVCCManager_isVisible m t 0 reader snap"
  using assms by (simp add: isVisible_sees)

theorem MVCC_update_atomic_witness:
  "MVCCManager_isVisible sample_mvcc 0 5 0 (MVCCManager_snapshotLocked sample_mvcc)
     \<noteq> MVCCManager_isVisible sample_mvcc 5 0 0 (MVCCManager_snapshotLocked sample_mvcc)"
  by (rule MVCC_update_atomic)
    (simp_all add: sample_mvcc_def MVCCManager_new_def isVisible_sees sees_def is_self_def
      MVCCManager_stateOfLocked_def MVCCManager_snapshotLocked_def MVCCManager_activeIds_def
      TransactionManager_peekNextTxnId_def)

lemma commit_abort_visibility:
  assumes "mvcc_inv m" "t \<in> MVCCManager_activeIds m"
  shows "runs mvcc_step (MVCCManager_commit m t) es m' \<Longrightarrow> MVCCManager_isVisible m' t 0 0 (MVCCManager_snapshotLocked m')"
    and "runs mvcc_step (MVCCManager_abort m t) es m' \<Longrightarrow> r \<noteq> t \<Longrightarrow> \<not> MVCCManager_isVisible m' t d r snap"
proof -
  have t: "t < tm_next_txn_id (mv_txns m)" "t \<noteq> 0" "t \<in> dom (mv_transactions m)"
    using assms by (auto simp: MVCCManager_activeIds_def mvcc_inv_def)
  {
    assume run: "runs mvcc_step (MVCCManager_commit m t) es m'"
    have inv: "mvcc_inv (MVCCManager_commit m t)"
      using mvcc_step_inv [OF mv_commit [OF assms(2)] assms(1)] by blast
    have "MVCCManager_stateOfLocked (MVCCManager_commit m t) t = COMMITTED"
      by (simp add: MVCCManager_stateOfLocked_def)
    then have "MVCCManager_stateOfLocked m' t = COMMITTED"
      using runs_finished [OF run inv, of t] t by simp
    moreover from this have "t \<notin> MVCCManager_activeIds m'" using activeIds_state by fastforce
    moreover have "t < tm_next_txn_id (mv_txns m')"
      using runs_inv [OF run inv] t(1) by (auto dest: less_le_trans)
    ultimately show "MVCCManager_isVisible m' t 0 0 (MVCCManager_snapshotLocked m')"
      by (simp add: isVisible_sees sees_def MVCCManager_snapshotLocked_def TransactionManager_peekNextTxnId_def)
  next
    assume run: "runs mvcc_step (MVCCManager_abort m t) es m'" and r: "r \<noteq> t"
    have inv: "mvcc_inv (MVCCManager_abort m t)"
      using mvcc_step_inv [OF mv_abort [OF assms(2)] assms(1)] by blast
    have "MVCCManager_stateOfLocked (MVCCManager_abort m t) t = ABORTED"
      using t(3) by (auto simp: MVCCManager_stateOfLocked_def)
    then have "MVCCManager_stateOfLocked m' t = ABORTED"
      using runs_finished [OF run inv, of t] t by simp
    with r show "\<not> MVCCManager_isVisible m' t d r snap"
      by (simp add: isVisible_sees sees_def is_self_def)
  }
qed

text \<open>
  commit publishes and abort hides, for good: a version created by a transaction that committed is
  seen by every snapshot taken at any later time, and a version created by one that aborted is never
  seen by another reader at any later time, under any snapshot.
\<close>
theorem MVCC_commit_abort_visibility:
  assumes "mvcc_inv m" "t \<in> MVCCManager_activeIds m"
  shows "(runs mvcc_step (MVCCManager_commit m t) es m' \<longrightarrow> MVCCManager_isVisible m' t 0 0 (MVCCManager_snapshotLocked m'))
    \<and> (runs mvcc_step (MVCCManager_abort m t) es m' \<longrightarrow> (\<forall>r d snap. r \<noteq> t \<longrightarrow> \<not> MVCCManager_isVisible m' t d r snap))"
  using commit_abort_visibility [OF assms] by blast

theorem MVCC_commit_abort_visibility_witness:
  "let m = snd (MVCCManager_begin sample_mvcc) in
     MVCCManager_isVisible (MVCCManager_commit m 1) 1 0 0 (MVCCManager_snapshotLocked (MVCCManager_commit m 1))
     \<and> \<not> MVCCManager_isVisible (MVCCManager_abort m 1) 1 0 0 (MVCCManager_snapshotLocked (MVCCManager_abort m 1))"
proof -
  let ?m = "snd (MVCCManager_begin sample_mvcc)"
  have b: "MVCCManager_begin sample_mvcc = (1, ?m)"
    using begin_fields(1) [OF surjective_pairing, of sample_mvcc] sample_mvcc_inv(2) by (metis prod.collapse)
  have "mvcc_inv ?m"
    using mvcc_step_inv [OF mv_begin [OF _ b] sample_mvcc_inv(1)] sample_mvcc_inv(2) by simp
  moreover have "1 \<in> MVCCManager_activeIds ?m"
    using begin_fields(3) [OF b] by (simp add: MVCCManager_activeIds_def)
  ultimately show ?thesis
    using MVCC_commit_abort_visibility [of ?m 1 "[]" "MVCCManager_commit ?m 1"]
      MVCC_commit_abort_visibility [of ?m 1 "[]" "MVCCManager_abort ?m 1"]
    by (simp add: Let_def runs_Nil)
qed

end
