(* ===== verification/Lexer.thy ===== *)
theory Lexer
  imports Prelude
begin

text \<open>
  \<open>lexer.hpp\<close> / \<open>lexer.cpp\<close>: the SQL tokenizer. The lexer's position is the pair of the offset
  \<open>pos\<close> (kept for the tokens and the error messages) and the rest of the source from there;
  \<open>atEnd\<close>, \<open>peek\<close>, \<open>peekNext\<close> and \<open>advance\<close> read the rest. Character classes are those of the
  C locale.
\<close>

section \<open>Character classes\<close>

definition isspace :: "char \<Rightarrow> bool" where
  "isspace c \<longleftrightarrow> (let n = of_char c :: nat in n = 32 \<or> 9 \<le> n \<and> n \<le> 13)"

definition isdigit :: "char \<Rightarrow> bool" where
  "isdigit c \<longleftrightarrow> (let n = of_char c :: nat in 48 \<le> n \<and> n \<le> 57)"

definition isalpha :: "char \<Rightarrow> bool" where
  "isalpha c \<longleftrightarrow> (let n = of_char c :: nat in 65 \<le> n \<and> n \<le> 90 \<or> 97 \<le> n \<and> n \<le> 122)"

definition isalnum :: "char \<Rightarrow> bool" where
  "isalnum c \<longleftrightarrow> isalpha c \<or> isdigit c"

definition toupper :: "char \<Rightarrow> char" where
  "toupper c = (let n = of_char c :: nat in if 97 \<le> n \<and> n \<le> 122 then char_of (n - 32) else c)"

definition toUpper :: "string \<Rightarrow> string" where
  "toUpper s = map toupper s"

section \<open>Tokens\<close>

datatype SqlTokenType =
    KEYWORD_CREATE | KEYWORD_TABLE | KEYWORD_INSERT | KEYWORD_INTO | KEYWORD_VALUES
  | KEYWORD_SELECT | KEYWORD_FROM | KEYWORD_WHERE | KEYWORD_DELETE | KEYWORD_UPDATE
  | KEYWORD_SET | KEYWORD_BEGIN | KEYWORD_COMMIT | KEYWORD_ROLLBACK
  | KEYWORD_PRIMARY | KEYWORD_KEY
  | IDENTIFIER | STRING_LITERAL | NUMBER_LITERAL
  | OP_EQ | OP_NEQ | OP_LT | OP_LTE | OP_GT | OP_GTE
  | COMMA | LPAREN | RPAREN | STAR | SEMICOLON
  | END_OF_INPUT

record Token =
  tk_type :: SqlTokenType
  tk_text :: string
  tk_pos :: nat

definition keywordTable :: "(string \<times> SqlTokenType) list" where
  "keywordTable =
    [(''CREATE'', KEYWORD_CREATE), (''TABLE'', KEYWORD_TABLE),
     (''INSERT'', KEYWORD_INSERT), (''INTO'', KEYWORD_INTO),
     (''VALUES'', KEYWORD_VALUES), (''SELECT'', KEYWORD_SELECT),
     (''FROM'', KEYWORD_FROM), (''WHERE'', KEYWORD_WHERE),
     (''DELETE'', KEYWORD_DELETE), (''UPDATE'', KEYWORD_UPDATE),
     (''SET'', KEYWORD_SET), (''BEGIN'', KEYWORD_BEGIN),
     (''COMMIT'', KEYWORD_COMMIT), (''ROLLBACK'', KEYWORD_ROLLBACK),
     (''PRIMARY'', KEYWORD_PRIMARY), (''KEY'', KEYWORD_KEY)]"

definition QUOTE :: char where "QUOTE = CHR 0x27"
definition NEWLINE :: char where "NEWLINE = CHR 0x0A"
definition NUL :: char where "NUL = CHR 0x00"

section \<open>The lexer\<close>

definition Lexer_peek :: "string \<Rightarrow> char" where
  "Lexer_peek rest = (case rest of [] \<Rightarrow> NUL | c # _ \<Rightarrow> c)"

definition Lexer_peekNext :: "string \<Rightarrow> char" where
  "Lexer_peekNext rest = (case rest of _ # c # _ \<Rightarrow> c | _ \<Rightarrow> NUL)"

function Lexer_skipWhitespaceAndComments :: "nat \<Rightarrow> string \<Rightarrow> nat \<times> string" where
  "Lexer_skipWhitespaceAndComments pos [] = (pos, [])"
| "Lexer_skipWhitespaceAndComments pos (c # cs) =
     (if isspace c then Lexer_skipWhitespaceAndComments (pos + 1) cs
      else if c = CHR ''-'' \<and> Lexer_peekNext (c # cs) = CHR ''-'' then
        Lexer_skipWhitespaceAndComments (pos + length (takeWhile (\<lambda>c. c \<noteq> NEWLINE) (c # cs)))
          (dropWhile (\<lambda>c. c \<noteq> NEWLINE) (c # cs))
      else (pos, c # cs))"
  by pat_completeness auto
termination
  by (relation "measure (\<lambda>(pos, rest). length rest)")
    (auto simp: NEWLINE_def le_imp_less_Suc length_dropWhile_le)

declare Lexer_skipWhitespaceAndComments.simps(2) [simp del]

definition ident_char :: "char \<Rightarrow> bool" where
  "ident_char c \<longleftrightarrow> isalnum c \<or> c = CHR ''_''"

definition Lexer_lexIdentifierOrKeyword :: "nat \<Rightarrow> string \<Rightarrow> Token \<times> string" where
  "Lexer_lexIdentifierOrKeyword start rest =
     (let text = takeWhile ident_char rest; upper = toUpper text in
      (case map_of keywordTable upper of
         Some ty \<Rightarrow> \<lparr>tk_type = ty, tk_text = upper, tk_pos = start\<rparr>
       | None \<Rightarrow> \<lparr>tk_type = IDENTIFIER, tk_text = text, tk_pos = start\<rparr>,
       dropWhile ident_char rest))"

definition Lexer_lexNumber :: "nat \<Rightarrow> string \<Rightarrow> Token \<times> string" where
  "Lexer_lexNumber start rest =
     (let (sign, digits) = (if Lexer_peek rest = CHR ''-'' then (take 1 rest, drop 1 rest) else ([], rest)) in
      (\<lparr>tk_type = NUMBER_LITERAL, tk_text = sign @ takeWhile isdigit digits, tk_pos = start\<rparr>,
       dropWhile isdigit digits))"

text \<open>The loop of \<open>lexString\<close> after the opening quote, with the collected \<open>value\<close>.\<close>

fun Lexer_stringLoop :: "string \<Rightarrow> string \<Rightarrow> (string \<times> string) option" where
  "Lexer_stringLoop val [] = None"
| "Lexer_stringLoop val (c # cs) =
     (if c = QUOTE then
        (case cs of
           c' # cs' \<Rightarrow> if c' = QUOTE then Lexer_stringLoop (val @ [QUOTE]) cs' else Some (val, cs)
         | [] \<Rightarrow> Some (val, cs))
      else Lexer_stringLoop (val @ [c]) cs)"

definition Lexer_lexString :: "nat \<Rightarrow> string \<Rightarrow> (Token \<times> string) result" where
  "Lexer_lexString start rest =
     (case Lexer_stringLoop [] (drop 1 rest) of
        None \<Rightarrow> Inl (LexError ''unterminated string literal'' start)
      | Some (val, rest') \<Rightarrow> Inr (\<lparr>tk_type = STRING_LITERAL, tk_text = val, tk_pos = start\<rparr>, rest'))"

definition simple_token :: "SqlTokenType \<Rightarrow> string \<Rightarrow> nat \<Rightarrow> string \<Rightarrow> (Token \<times> string) result" where
  "simple_token ty text start rest =
     Inr (\<lparr>tk_type = ty, tk_text = text, tk_pos = start\<rparr>, drop (length text) rest)"

text \<open>One token, at a character that is not skipped: the if-chain of \<open>tokenize\<close>.\<close>

definition Lexer_lexToken :: "nat \<Rightarrow> string \<Rightarrow> (Token \<times> string) result" where
  "Lexer_lexToken start rest =
     (let c = Lexer_peek rest; nxt = Lexer_peek (drop 1 rest) in
      if isalpha c \<or> c = CHR ''_'' then Inr (Lexer_lexIdentifierOrKeyword start rest)
      else if isdigit c \<or> c = CHR ''-'' \<and> isdigit (Lexer_peekNext rest) then Inr (Lexer_lexNumber start rest)
      else if c = QUOTE then Lexer_lexString start rest
      else if c = CHR ''='' then simple_token OP_EQ ''='' start rest
      else if c = CHR ''<'' then
        (if nxt = CHR ''='' then simple_token OP_LTE ''<='' start rest
         else if nxt = CHR ''>'' then simple_token OP_NEQ ''<>'' start rest
         else simple_token OP_LT ''<'' start rest)
      else if c = CHR ''>'' then
        (if nxt = CHR ''='' then simple_token OP_GTE ''>='' start rest
         else simple_token OP_GT ''>'' start rest)
      else if c = CHR ''!'' then
        (if nxt \<noteq> CHR ''='' then Inl (LexError (''expected '' @ [QUOTE] @ ''='' @ [QUOTE] @ '' after '' @ [QUOTE] @ ''!'' @ [QUOTE]) start)
         else simple_token OP_NEQ ''!='' start rest)
      else if c = CHR '','' then simple_token COMMA '','' start rest
      else if c = CHR ''('' then simple_token LPAREN ''('' start rest
      else if c = CHR '')'' then simple_token RPAREN '')'' start rest
      else if c = CHR ''*'' then simple_token STAR ''*'' start rest
      else if c = CHR '';'' then simple_token SEMICOLON '';'' start rest
      else Inl (LexError (''unrecognized character '' @ [QUOTE, c, QUOTE]) start))"

section \<open>Every step makes progress\<close>

lemma stringLoop_length: "Lexer_stringLoop val cs = Some (v, rest) \<Longrightarrow> length rest < length cs"
  by (induction val cs rule: Lexer_stringLoop.induct) (auto split: if_splits list.splits)

lemma length_dropWhile_lt: "xs \<noteq> [] \<Longrightarrow> P (hd xs) \<Longrightarrow> length (dropWhile P xs) < length xs"
  by (cases xs) (auto simp: le_imp_less_Suc length_dropWhile_le)

lemma not_ident_minus [simp]: "\<not> isdigit (CHR ''-'')" "\<not> isalpha (CHR ''-'')"
  by (simp_all add: isdigit_def isalpha_def)

lemma lexToken_length:
  assumes "Lexer_lexToken start rest = Inr (t, rest')" "rest \<noteq> []"
  shows "length rest' < length rest"
proof -
  obtain c cs where rest: "rest = c # cs" using assms(2) by (cases rest) auto
  consider (ident) "isalpha c \<or> c = CHR ''_''"
    | (number) "\<not> (isalpha c \<or> c = CHR ''_'')" "isdigit c \<or> c = CHR ''-'' \<and> isdigit (Lexer_peekNext rest)"
    | (other) "\<not> (isalpha c \<or> c = CHR ''_'')" "\<not> (isdigit c \<or> c = CHR ''-'' \<and> isdigit (Lexer_peekNext rest))"
    by blast
  then show ?thesis
  proof cases
    case ident
    then have "rest' = dropWhile ident_char rest"
      using assms(1) by (auto simp: Lexer_lexToken_def rest Lexer_peek_def Lexer_lexIdentifierOrKeyword_def Let_def)
    with ident show ?thesis
      using length_dropWhile_lt [of rest ident_char] by (auto simp: rest ident_char_def isalnum_def)
  next
    case number
    then have "Inr (Lexer_lexNumber start rest) = (Inr (t, rest') :: (Token \<times> string) result)"
      using assms(1) by (simp add: Lexer_lexToken_def rest Lexer_peek_def Let_def)
    then show ?thesis
      using number length_dropWhile_lt [of rest isdigit]
      by (auto simp: Lexer_lexNumber_def rest Lexer_peek_def le_imp_less_Suc length_dropWhile_le split: if_splits)
  next
    case other
    then show ?thesis
      using assms(1)
      by (auto simp: Lexer_lexToken_def rest Lexer_peek_def Let_def Lexer_lexString_def simple_token_def less_Suc_eq_le
          dest!: stringLoop_length split: if_splits option.splits)
  qed
qed

lemma skipWhitespace_length: "length (snd (Lexer_skipWhitespaceAndComments pos rest)) \<le> length rest"
proof (induction pos rest rule: Lexer_skipWhitespaceAndComments.induct)
  case (2 pos c cs)
  then show ?case
    using length_dropWhile_le [of "\<lambda>c. c \<noteq> NEWLINE" cs] 
    by (auto simp: NEWLINE_def Lexer_skipWhitespaceAndComments.simps(2))
qed simp

text \<open>The loop of \<open>tokenize\<close>, from offset \<open>pos\<close> with \<open>rest\<close> unread.\<close>

function Lexer_tokenizeLoop :: "nat \<Rightarrow> string \<Rightarrow> Token list result" where
  "Lexer_tokenizeLoop pos rest =
     (let (start, rest1) = Lexer_skipWhitespaceAndComments pos rest in
      if rest1 = [] then Inr [\<lparr>tk_type = END_OF_INPUT, tk_text = [], tk_pos = start\<rparr>]
      else case Lexer_lexToken start rest1 of
        Inl e \<Rightarrow> Inl e
      | Inr (t, rest2) \<Rightarrow>
          bindE (Lexer_tokenizeLoop (start + (length rest1 - length rest2)) rest2) (\<lambda>ts. Inr (t # ts)))"
  by pat_completeness auto
termination
proof (relation "measure (\<lambda>(pos, rest). length rest)", goal_cases)
  case (2 pos rest p start rest1 r t rest2)
  then have "length rest2 < length rest1"
    by (intro lexToken_length [of start rest1 t rest2]) auto
  moreover have "length rest1 \<le> length rest"
    using skipWhitespace_length [of pos rest] 2(1,2) by (metis snd_conv)
  ultimately show ?case by simp
qed simp

declare Lexer_tokenizeLoop.simps [simp del]

definition Lexer_tokenize :: "string \<Rightarrow> Token list result" where
  "Lexer_tokenize source = Lexer_tokenizeLoop 0 source"

section \<open>Printing tokens\<close>

definition quoted :: "string \<Rightarrow> string" where
  "quoted s = concat (map (\<lambda>c. if c = QUOTE then [QUOTE, QUOTE] else [c]) s)"

fun token_image :: "SqlTokenType \<times> string \<Rightarrow> string" where
  "token_image (ty, str) = (if ty = STRING_LITERAL then QUOTE # quoted str @ [QUOTE] else str)"

text \<open>The (type, str) pairs the lexer can produce, other than \<open>END_OF_INPUT\<close>.\<close>

definition wf_identifier :: "string \<Rightarrow> bool" where
  "wf_identifier str \<longleftrightarrow> str \<noteq> [] \<and> (isalpha (hd str) \<or> hd str = CHR ''_'') \<and> list_all ident_char str
     \<and> map_of keywordTable (toUpper str) = None"

definition wf_number :: "string \<Rightarrow> bool" where
  "wf_number str \<longleftrightarrow> (let ds = (if Lexer_peek str = CHR ''-'' then drop 1 str else str) in
     ds \<noteq> [] \<and> list_all isdigit ds)"

fun wf_token :: "SqlTokenType \<times> string \<Rightarrow> bool" where
  "wf_token (IDENTIFIER, str) = wf_identifier str"
| "wf_token (STRING_LITERAL, str) = True"
| "wf_token (NUMBER_LITERAL, str) = wf_number str"
| "wf_token (OP_EQ, str) = (str = ''='')"
| "wf_token (OP_NEQ, str) = (str = ''<>'' \<or> str = ''!='')"
| "wf_token (OP_LT, str) = (str = ''<'')"
| "wf_token (OP_LTE, str) = (str = ''<='')"
| "wf_token (OP_GT, str) = (str = ''>'')"
| "wf_token (OP_GTE, str) = (str = ''>='')"
| "wf_token (COMMA, str) = (str = '','')"
| "wf_token (LPAREN, str) = (str = ''('')"
| "wf_token (RPAREN, str) = (str = '')'')"
| "wf_token (STAR, str) = (str = ''*'')"
| "wf_token (SEMICOLON, str) = (str = '';'')"
| "wf_token (END_OF_INPUT, str) = False"
| "wf_token (ty, str) = (map_of keywordTable str = Some ty)"

definition print_tokens :: "(SqlTokenType \<times> string) list \<Rightarrow> string" where
  "print_tokens ts = concat (map (\<lambda>t. token_image t @ '' '') ts)"

definition token_sig :: "Token \<Rightarrow> SqlTokenType \<times> string" where
  "token_sig t = (tk_type t, tk_text t)"

lemma char_class_simps [simp]:
  "isspace (CHR '' '')" "\<not> ident_char (CHR '' '')" "\<not> isdigit (CHR '' '')"
  by (simp_all add: isspace_def ident_char_def isalnum_def isalpha_def isdigit_def)

lemma keywords_ok:
  "list_all (\<lambda>(k, ty). k \<noteq> [] \<and> isalpha (hd k) \<and> list_all ident_char k \<and> toUpper k = k) keywordTable"
  by (simp add: keywordTable_def isalpha_def ident_char_def isalnum_def toUpper_def toupper_def)

lemma keyword_text:
  assumes "map_of keywordTable k = Some ty"
  shows "k \<noteq> []" "isalpha (hd k)" "list_all ident_char k" "toUpper k = k"
  using map_of_SomeD [OF assms] keywords_ok by (auto simp: list_all_iff)

lemma takeWhile_all_stop:
  "list_all P xs \<Longrightarrow> \<not> P y \<Longrightarrow> takeWhile P (xs @ y # ys) = xs \<and> dropWhile P (xs @ y # ys) = y # ys"
  by (induction xs) auto

lemma stringLoop_quoted:
  "Lexer_stringLoop acc (quoted s @ QUOTE # CHR '' '' # rest) = Some (acc @ s, CHR '' '' # rest)"
proof (induction s arbitrary: acc)
  case Nil
  show ?case by (simp add: quoted_def QUOTE_def)
next
  case (Cons c s)
  have "quoted (c # s) = (if c = QUOTE then [QUOTE, QUOTE] else [c]) @ quoted s"
    by (simp add: quoted_def)
  with Cons.IH show ?case by simp
qed

lemma lex_word:
  assumes "str \<noteq> []" "isalpha (hd str) \<or> hd str = CHR ''_''" "list_all ident_char str"
  shows "Lexer_lexToken start (str @ CHR '' '' # rest) =
    Inr (case map_of keywordTable (toUpper str) of
         Some ty \<Rightarrow> \<lparr>tk_type = ty, tk_text = toUpper str, tk_pos = start\<rparr>
       | None \<Rightarrow> \<lparr>tk_type = IDENTIFIER, tk_text = str, tk_pos = start\<rparr>, CHR '' '' # rest)"
  using assms takeWhile_all_stop [OF assms(3), of "CHR '' ''" rest]
  by (cases str) (auto simp: Lexer_lexToken_def Lexer_peek_def Lexer_lexIdentifierOrKeyword_def Let_def)

lemma lex_keyword:
  "map_of keywordTable str = Some ty \<Longrightarrow> Lexer_lexToken start (str @ CHR '' '' # rest) =
    Inr (\<lparr>tk_type = ty, tk_text = str, tk_pos = start\<rparr>, CHR '' '' # rest)"
  by (simp add: lex_word keyword_text)

lemma digit_not_alpha: "isdigit c \<Longrightarrow> \<not> isalpha c \<and> c \<noteq> CHR ''_'' \<and> c \<noteq> CHR ''-'' \<and> \<not> isspace c"
  by (auto simp: isdigit_def isalpha_def isspace_def Let_def)

lemma lex_number:
  assumes "wf_number str"
  shows "Lexer_lexToken start (str @ CHR '' '' # rest) =
    Inr (\<lparr>tk_type = NUMBER_LITERAL, tk_text = str, tk_pos = start\<rparr>, CHR '' '' # rest)"
proof (cases "Lexer_peek str = CHR ''-''")
  case True
  then obtain d ds where sp: "str = CHR ''-'' # d # ds" "list_all isdigit (d # ds)"
    using assms by (cases str; cases "drop 1 str")
      (auto simp: wf_number_def Lexer_peek_def NUL_def)
  with takeWhile_all_stop [OF sp(2), of "CHR '' ''" rest] show ?thesis
    by (simp add: Lexer_lexToken_def Lexer_lexNumber_def Lexer_peek_def Lexer_peekNext_def)
next
  case False
  then obtain d ds where sp: "str = d # ds" "list_all isdigit (d # ds)"
    using assms by (cases str) (auto simp: wf_number_def Lexer_peek_def NUL_def)
  with takeWhile_all_stop [OF sp(2), of "CHR '' ''" rest] digit_not_alpha [of d] show ?thesis
    by (simp add: Lexer_lexToken_def Lexer_lexNumber_def Lexer_peek_def Let_def)
qed

lemma lexToken_image:
  assumes "wf_token t"
  shows "Lexer_lexToken start (token_image t @ CHR '' '' # rest) =
    Inr (\<lparr>tk_type = fst t, tk_text = snd t, tk_pos = start\<rparr>, CHR '' '' # rest)"
proof (cases t rule: wf_token.cases)
  case (1 str)
  with assms show ?thesis by (simp add: wf_identifier_def lex_word)
next
  case (2 str)
  have "Lexer_stringLoop [] (quoted str @ QUOTE # CHR '' '' # rest) = Some (str, CHR '' '' # rest)"
    using stringLoop_quoted [of "[]" str rest] by simp
  moreover have "\<not> isalpha QUOTE" "QUOTE \<noteq> CHR ''_''" "\<not> isdigit QUOTE" "QUOTE \<noteq> CHR ''-''"
    by (simp_all add: QUOTE_def isalpha_def isdigit_def)
  ultimately show ?thesis
    using 2 by (simp add: Lexer_lexToken_def Lexer_lexString_def Lexer_peek_def Let_def)
next
  case (3 str)
  with assms show ?thesis by (simp add: lex_number)
qed ((use assms in \<open>simp add: lex_keyword\<close>; fail)
    | (use assms in \<open>auto simp: Lexer_lexToken_def Lexer_peek_def simple_token_def isalpha_def isdigit_def QUOTE_def\<close>)[1])+

lemma alpha_not_space: "isalpha c \<or> c = CHR ''_'' \<Longrightarrow> \<not> isspace c \<and> c \<noteq> CHR ''-''"
  by (auto simp: isalpha_def isspace_def Let_def)

lemma skip_stop:
  "\<not> isspace c \<Longrightarrow> c \<noteq> CHR ''-'' \<or> Lexer_peekNext (c # cs) \<noteq> CHR ''-'' \<Longrightarrow>
   Lexer_skipWhitespaceAndComments pos (c # cs) = (pos, c # cs)"
  by (subst Lexer_skipWhitespaceAndComments.simps(2)) auto

lemma skip_word:
  assumes "str \<noteq> []" "isalpha (hd str) \<or> hd str = CHR ''_''"
  shows "Lexer_skipWhitespaceAndComments pos (str @ rest) = (pos, str @ rest)"
  using assms alpha_not_space [of "hd str"] by (cases str) (auto intro!: skip_stop)

lemma skip_number:
  assumes "wf_number str"
  shows "Lexer_skipWhitespaceAndComments pos (str @ rest) = (pos, str @ rest)"
proof (cases "Lexer_peek str = CHR ''-''")
  case True
  then obtain d ds where "str = CHR ''-'' # d # ds" "isdigit d"
    using assms by (cases str; cases "drop 1 str") (auto simp: wf_number_def Lexer_peek_def NUL_def)
  then show ?thesis
    using digit_not_alpha [of d] by (auto simp: Lexer_peekNext_def isspace_def intro!: skip_stop)
next
  case False
  then obtain d ds where "str = d # ds" "isdigit d"
    using assms by (cases str) (auto simp: wf_number_def Lexer_peek_def NUL_def)
  then show ?thesis
    using digit_not_alpha [of d] by (auto intro!: skip_stop)
qed

lemma skip_keyword:
  "map_of keywordTable str = Some ty \<Longrightarrow> Lexer_skipWhitespaceAndComments pos (str @ rest) = (pos, str @ rest)"
  by (simp add: skip_word keyword_text)

lemma skip_image:
  assumes "wf_token t"
  shows "Lexer_skipWhitespaceAndComments pos (token_image t @ rest) = (pos, token_image t @ rest)"
proof (cases t rule: wf_token.cases)
  case (1 str)
  with assms show ?thesis
    by (simp add: wf_identifier_def skip_word)
next
  case (3 str)
  with assms show ?thesis by (simp add: skip_number)
qed ((use assms in \<open>simp add: skip_keyword\<close>; fail)
    | (use assms in \<open>auto simp: isspace_def QUOTE_def intro!: skip_stop\<close>)[1])+

lemma image_nonempty: "wf_token t \<Longrightarrow> token_image t \<noteq> []"
  by (cases t rule: wf_token.cases)
    (auto simp: wf_identifier_def wf_number_def Lexer_peek_def NUL_def dest: keyword_text(1))

lemma tokenizeLoop_space: "Lexer_tokenizeLoop pos (CHR '' '' # rest) = Lexer_tokenizeLoop (pos + 1) rest"
  by (subst (1 2) Lexer_tokenizeLoop.simps) (simp add: Lexer_skipWhitespaceAndComments.simps(2))

lemma tokenizeLoop_image:
  assumes "wf_token t"
  shows "Lexer_tokenizeLoop pos (token_image t @ CHR '' '' # rest) =
    bindE (Lexer_tokenizeLoop (pos + length (token_image t) + 1) rest)
      (\<lambda>ts. Inr (\<lparr>tk_type = fst t, tk_text = snd t, tk_pos = pos\<rparr> # ts))"
  by (subst Lexer_tokenizeLoop.simps)
    (simp add: skip_image [OF assms] image_nonempty [OF assms] lexToken_image [OF assms] tokenizeLoop_space
     )

lemma tokenize_print:
  assumes "list_all wf_token ts"
  shows "\<exists>toks. Lexer_tokenizeLoop pos (print_tokens ts) = Inr toks
    \<and> map token_sig toks = ts @ [(END_OF_INPUT, [])]"
  using assms
proof (induction ts arbitrary: pos)
  case Nil
  show ?case by (subst Lexer_tokenizeLoop.simps) (simp add: print_tokens_def token_sig_def)
next
  case (Cons t ts)
  have "print_tokens (t # ts) = token_image t @ CHR '' '' # print_tokens ts"
    by (simp add: print_tokens_def)
  with Cons.IH [of "pos + length (token_image t) + 1"] Cons.prems show ?case
    by (auto simp: tokenizeLoop_image token_sig_def)
qed

section \<open>What the lexer produces\<close>

lemma keyword_wf: "map_of keywordTable str = Some ty \<Longrightarrow> wf_token (ty, str)"
proof -
  assume a: "map_of keywordTable str = Some ty"
  then have "(str, ty) \<in> set keywordTable" by (rule map_of_SomeD)
  then have "ty \<in> snd ` set keywordTable" by force
  with a show ?thesis by (auto simp: keywordTable_def split: if_splits)
qed

text \<open>The source text a token stands for: its text, but a string literal's or keyword's spelling may differ.\<close>

definition spelled :: "SqlTokenType \<Rightarrow> bool" where
  "spelled ty \<longleftrightarrow> ty \<noteq> STRING_LITERAL \<and> ty \<notin> snd ` set keywordTable"

lemma lexIdentifier_wf:
  assumes "Lexer_lexIdentifierOrKeyword start (c # cs) = (t, rest')" "isalpha c \<or> c = CHR ''_''"
  shows "wf_token (token_sig t) \<and> tk_pos t = start \<and> (\<exists>pre. c # cs = pre @ rest')
    \<and> (spelled (tk_type t) \<longrightarrow> c # cs = tk_text t @ rest')"
proof -
  let ?s = "takeWhile ident_char (c # cs)"
  have rest': "rest' = dropWhile ident_char (c # cs)"
    using assms(1) by (auto simp: Lexer_lexIdentifierOrKeyword_def Let_def)
  have wf: "?s \<noteq> []" "isalpha (hd ?s) \<or> hd ?s = CHR ''_''" "list_all ident_char ?s"
    using assms(2) by (auto simp: ident_char_def isalnum_def list_all_iff dest: set_takeWhileD)
  show ?thesis
  proof (cases "map_of keywordTable (toUpper ?s)")
    case None
    then have "t = \<lparr>tk_type = IDENTIFIER, tk_text = ?s, tk_pos = start\<rparr>"
      using assms(1) by (auto simp: Lexer_lexIdentifierOrKeyword_def Let_def)
    with None wf rest' show ?thesis
      by (auto simp: token_sig_def wf_identifier_def simp del: takeWhile.simps dropWhile.simps
          intro: exI [of _ ?s])
  next
    case (Some ty)
    then have "t = \<lparr>tk_type = ty, tk_text = toUpper ?s, tk_pos = start\<rparr>"
      using assms(1) by (auto simp: Lexer_lexIdentifierOrKeyword_def Let_def)
    moreover have "\<not> spelled ty"
      using map_of_SomeD [OF Some] by (force simp: spelled_def)
    ultimately show ?thesis
      using Some rest' keyword_wf
      by (auto simp: token_sig_def simp del: takeWhile.simps dropWhile.simps intro: exI [of _ ?s])
  qed
qed

lemma lexNumber_wf:
  assumes "Lexer_lexNumber start (c # cs) = (t, rest')"
    and "isdigit c \<or> c = CHR ''-'' \<and> isdigit (Lexer_peekNext (c # cs))"
  shows "wf_token (token_sig t) \<and> tk_pos t = start \<and> c # cs = tk_text t @ rest'"
proof (cases "c = CHR ''-''")
  case True
  with assms(2) obtain d ds where "cs = d # ds" "isdigit d"
    by (cases cs) (auto simp: Lexer_peekNext_def NUL_def isdigit_def)
  with assms(1) True show ?thesis
    by (auto simp: Lexer_lexNumber_def Lexer_peek_def token_sig_def wf_number_def list_all_iff dest: set_takeWhileD)
next
  case False
  with assms show ?thesis
    by (auto simp: Lexer_lexNumber_def Lexer_peek_def token_sig_def wf_number_def list_all_iff dest: set_takeWhileD)
qed

lemma stringLoop_suffix: "Lexer_stringLoop val cs = Some (v, rest) \<Longrightarrow> \<exists>pre. cs = pre @ rest"
  by (induction val cs rule: Lexer_stringLoop.induct) (auto split: if_splits list.splits)

lemma peek_eq_Cons: "Lexer_peek (drop (Suc 0) (c # cs)) = d \<Longrightarrow> d \<noteq> NUL \<Longrightarrow> \<exists>ds. cs = d # ds"
  by (cases cs) (auto simp: Lexer_peek_def)

lemma simple_token_wf:
  assumes "simple_token ty str start rest = Inr (t, rest')" "wf_token (ty, str)" "\<exists>r. rest = str @ r"
  shows "wf_token (token_sig t) \<and> tk_pos t = start \<and> (\<exists>pre. rest = pre @ rest')
    \<and> (spelled (tk_type t) \<longrightarrow> rest = tk_text t @ rest')"
  using assms by (auto simp: simple_token_def token_sig_def)

lemma lexToken_wf:
  assumes "Lexer_lexToken start rest = Inr (t, rest')" "rest \<noteq> []"
  shows "wf_token (token_sig t) \<and> tk_pos t = start \<and> (\<exists>pre. rest = pre @ rest')
    \<and> (spelled (tk_type t) \<longrightarrow> rest = tk_text t @ rest')"
proof -
  obtain c cs where rest: "rest = c # cs" using assms(2) by (cases rest) auto
  have lex: "Lexer_lexToken start (c # cs) = Inr (t, rest')" using assms(1) rest by simp
  have peek: "Lexer_peek (c # cs) = c" by (simp add: Lexer_peek_def)
  consider (ident) "isalpha c \<or> c = CHR ''_''"
    | (number) "\<not> (isalpha c \<or> c = CHR ''_'')" "isdigit c \<or> c = CHR ''-'' \<and> isdigit (Lexer_peekNext (c # cs))"
    | (str) "\<not> (isalpha c \<or> c = CHR ''_'')" "\<not> (isdigit c \<or> c = CHR ''-'' \<and> isdigit (Lexer_peekNext (c # cs)))" "c = QUOTE"
    | (other) "\<not> (isalpha c \<or> c = CHR ''_'')" "\<not> (isdigit c \<or> c = CHR ''-'' \<and> isdigit (Lexer_peekNext (c # cs)))" "c \<noteq> QUOTE"
    by blast
  then show ?thesis
  proof cases
    case ident
    with lex show ?thesis
      unfolding rest by (intro lexIdentifier_wf) (simp_all add: Lexer_lexToken_def peek Let_def)
  next
    case number
    then have "Lexer_lexNumber start (c # cs) = (t, rest')"
      using lex by (simp add: Lexer_lexToken_def peek Let_def)
    from lexNumber_wf [OF this number(2)] show ?thesis unfolding rest by blast
  next
    case str
    then have "Lexer_lexString start (c # cs) = Inr (t, rest')"
      using lex unfolding Lexer_lexToken_def peek Let_def
      by (simp only: if_False if_True HOL.simp_thms str)
    then obtain v where "t = \<lparr>tk_type = STRING_LITERAL, tk_text = v, tk_pos = start\<rparr>"
        "Lexer_stringLoop [] cs = Some (v, rest')"
      by (auto simp: Lexer_lexString_def split: option.splits)
    moreover from this(2) obtain pre where "cs = pre @ rest'" using stringLoop_suffix by blast
    ultimately show ?thesis
      by (auto simp: rest token_sig_def spelled_def intro: exI [of _ "c # pre"])
  next
    case other
    have "simple_token (tk_type t) (tk_text t) start (c # cs) = Inr (t, rest')
        \<and> wf_token (tk_type t, tk_text t) \<and> (\<exists>r. c # cs = tk_text t @ r)"
      using lex other peek_eq_Cons [of c cs "CHR ''=''"] peek_eq_Cons [of c cs "CHR ''>''"]
      unfolding Lexer_lexToken_def peek Let_def
      by (auto simp: simple_token_def NUL_def split: if_splits)
    then show ?thesis unfolding rest by (intro simple_token_wf [of "tk_type t" "tk_text t"]) blast+
  qed
qed

lemma skip_suffix:
  "Lexer_skipWhitespaceAndComments pos rest = (pos', rest') \<Longrightarrow>
   \<exists>pre. rest = pre @ rest' \<and> pos' = pos + length pre"
proof (induction pos rest rule: Lexer_skipWhitespaceAndComments.induct)
  case (2 pos c cs)
  let ?P = "\<lambda>c. c \<noteq> NEWLINE"
  consider (space) "isspace c" | (comment) "\<not> isspace c" "c = CHR ''-'' \<and> Lexer_peekNext (c # cs) = CHR ''-''"
    | (stop) "\<not> isspace c" "\<not> (c = CHR ''-'' \<and> Lexer_peekNext (c # cs) = CHR ''-'')" by blast
  then show ?case
  proof cases
    case space
    with 2(3) have "Lexer_skipWhitespaceAndComments (pos + 1) cs = (pos', rest')"
      by (simp add: Lexer_skipWhitespaceAndComments.simps(2))
    from 2(1) [OF space this] obtain pre where "cs = pre @ rest'" "pos' = pos + 1 + length pre" by blast
    then show ?thesis by (intro exI [of _ "c # pre"]) simp
  next
    case comment
    have "Lexer_skipWhitespaceAndComments (pos + length (takeWhile ?P (c # cs))) (dropWhile ?P (c # cs)) = (pos', rest')"
      using 2(3) unfolding Lexer_skipWhitespaceAndComments.simps(2) [of pos c cs] if_not_P [OF comment(1)] if_P [OF comment(2)] .
    from 2(2) [OF comment this] obtain pre where
      "dropWhile ?P (c # cs) = pre @ rest'" "pos' = pos + length (takeWhile ?P (c # cs)) + length pre" by blast
    then show ?thesis
      by (intro exI [of _ "takeWhile ?P (c # cs) @ pre"])
        (metis append.assoc length_append add.assoc takeWhile_dropWhile_id)
  next
    case stop
    with 2(3) show ?thesis by (simp add: Lexer_skipWhitespaceAndComments.simps(2))
  qed
qed simp

text \<open>What \<open>tokenize\<close> promises of its output for source \<open>src\<close>, from offset \<open>pos\<close> on.\<close>

definition tokens_of :: "string \<Rightarrow> nat \<Rightarrow> Token list \<Rightarrow> bool" where
  "tokens_of src pos toks \<longleftrightarrow> toks \<noteq> []
     \<and> token_sig (last toks) = (END_OF_INPUT, []) \<and> tk_pos (last toks) = length src
     \<and> (\<forall>t \<in> set (butlast toks). wf_token (token_sig t) \<and> pos \<le> tk_pos t \<and> tk_pos t < length src
          \<and> (spelled (tk_type t) \<longrightarrow> take (length (tk_text t)) (drop (tk_pos t) src) = tk_text t))
     \<and> sorted_wrt (<) (map tk_pos toks)"

lemma tokens_of_Cons:
  assumes "tokens_of src p ts" "\<forall>u \<in> set ts. p \<le> tk_pos u" "wf_token (token_sig t)" "tk_pos t = start"
    and "pos \<le> start" "start < p" "p \<le> length src"
    and "spelled (tk_type t) \<Longrightarrow> take (length (tk_text t)) (drop start src) = tk_text t"
  shows "tokens_of src pos (t # ts) \<and> (\<forall>u \<in> set (t # ts). pos \<le> tk_pos u)"
proof -
  have "start < tk_pos u" "pos \<le> tk_pos u" if "u \<in> set ts" for u
    using assms(2,5,6) that by force+
  with assms show ?thesis
    by (auto simp: tokens_of_def dest: in_set_butlastD)
qed

lemma tokenizeLoop_of:
  assumes "Lexer_tokenizeLoop pos rest = Inr toks" "src = pre @ rest" "pos = length pre"
  shows "tokens_of src pos toks \<and> (\<forall>t \<in> set toks. pos \<le> tk_pos t)"
  using assms
proof (induction pos rest arbitrary: toks pre rule: Lexer_tokenizeLoop.induct)
  case (1 pos rest)
  obtain start rest1 where skip: "Lexer_skipWhitespaceAndComments pos rest = (start, rest1)"
    by fastforce
  then obtain sp where sp: "rest = sp @ rest1" "start = pos + length sp"
    using skip_suffix by blast
  show ?case
  proof (cases "rest1 = []")
    case True
    then have "toks = [\<lparr>tk_type = END_OF_INPUT, tk_text = [], tk_pos = start\<rparr>]"
      using 1(2) skip by (simp add: Lexer_tokenizeLoop.simps [of pos rest])
    with True sp 1(3,4) show ?thesis by (simp add: tokens_of_def token_sig_def)
  next
    case False
    then obtain t rest2 ts where t: "Lexer_lexToken start rest1 = Inr (t, rest2)"
        "Lexer_tokenizeLoop (start + (length rest1 - length rest2)) rest2 = Inr ts" "toks = t # ts"
      using 1(2) skip
      by (auto simp: Lexer_tokenizeLoop.simps [of pos rest] result_simps split: sum.splits)
    note wf = lexToken_wf [OF t(1) False]
    then obtain tp where tp: "rest1 = tp @ rest2" by blast
    moreover have "tp \<noteq> []"
      using lexToken_length [OF t(1) False] tp by auto
    moreover have "tokens_of src (start + (length rest1 - length rest2)) ts
        \<and> (\<forall>u \<in> set ts. start + (length rest1 - length rest2) \<le> tk_pos u)"
      using 1(1) [OF skip [symmetric] refl False t(1) refl t(2), of "pre @ sp @ tp"] 1(3,4) sp tp by simp
    moreover have "take (length (tk_text t)) (drop start src) = tk_text t" if "spelled (tk_type t)"
      using that wf sp 1(3,4) by simp
    ultimately show ?thesis
      using wf sp 1(3,4) unfolding t(3)
      by (intro tokens_of_Cons [where p = "start + (length rest1 - length rest2)" and start = start]) auto
  qed
qed

section \<open>Properties\<close>

text \<open>
  printing any well-formed tokens (string literals with their quotes doubled) separated by blanks
  and tokenizing the text gives back exactly those tokens, followed by \<open>END_OF_INPUT\<close>.
\<close>
theorem Lexer_print_roundtrip:
  assumes "list_all wf_token ts"
  shows "\<exists>toks. Lexer_tokenize (print_tokens ts) = Inr toks \<and> map token_sig toks = ts @ [(END_OF_INPUT, [])]"
  unfolding Lexer_tokenize_def using assms by (rule tokenize_print)

theorem Lexer_print_roundtrip_witness:
  "\<exists>toks. Lexer_tokenize (print_tokens [(KEYWORD_SELECT, ''SELECT''), (IDENTIFIER, ''a_1''), (OP_LTE, ''<=''),
       (STRING_LITERAL, [QUOTE]), (NUMBER_LITERAL, ''-42'')]) = Inr toks
     \<and> map token_sig toks = [(KEYWORD_SELECT, ''SELECT''), (IDENTIFIER, ''a_1''), (OP_LTE, ''<=''),
       (STRING_LITERAL, [QUOTE]), (NUMBER_LITERAL, ''-42'')] @ [(END_OF_INPUT, [])]"
  by (rule Lexer_print_roundtrip)
    (simp add: wf_identifier_def wf_number_def keywordTable_def isalpha_def isdigit_def ident_char_def
      isalnum_def toUpper_def toupper_def Lexer_peek_def)

text \<open>
  whatever the source text, tokenizing ends (with tokens or a lexical error), and the tokens are
  well formed, end in exactly one \<open>END_OF_INPUT\<close> at the end of the source, are at strictly
  increasing positions, and each operator, punctuation mark, number or identifier is the source text
  found at its position.
\<close>
theorem Lexer_tokens_wellformed:
  assumes "Lexer_tokenize src = Inr toks"
  shows "tokens_of src 0 toks"
  using tokenizeLoop_of [of 0 src toks src "[]"] assms by (simp add: Lexer_tokenize_def)

theorem Lexer_tokens_wellformed_witness:
  "\<exists>toks. Lexer_tokenize (print_tokens [(STAR, ''*'')]) = Inr toks \<and> tokens_of (print_tokens [(STAR, ''*'')]) 0 toks"
  using tokenize_print [of "[(STAR, ''*'')]" 0] Lexer_tokens_wellformed
  by (fastforce simp: Lexer_tokenize_def)

end
