(* ===== verification/Catalog.thy ===== *)
theory Catalog
  imports Lexer "HOL-Library.AList" "HOL-Library.Multiset"
begin

text \<open>
  \<open>schema.hpp\<close> / \<open>schema.cpp\<close> and \<open>catalogmanager.hpp\<close> / \<open>catalogmanager.cpp\<close>: table schemas, their text form, and the catalog file.

  The catalog file is the text it holds, or \<open>None\<close> when it does not exist. \<open>tables\<close> is an \<open>unordered_map\<close>: its entries are a list with distinct
  names, and the order in which \<open>saveCatalog\<close> iterates over them is the parameter \<open>order\<close>, of which only that it is a permutation is used.
\<close>

section \<open>Library functions on strings\<close>

text \<open>The lines \<open>std::getline(stream, line, delim)\<close> returns until it fails.\<close>

function getlines :: "char \<Rightarrow> string \<Rightarrow> string list" where
  "getlines d s = (if s = [] then [] else takeWhile (\<lambda>c. c \<noteq> d) s # getlines d (drop 1 (dropWhile (\<lambda>c. c \<noteq> d) s)))"
  by auto
termination
proof (relation "measure (\<lambda>(d, s). length s)", goal_cases)
  case (2 d s)
  then show ?case using length_dropWhile_le [of "\<lambda>c. c \<noteq> d" s] by (cases s) auto
qed simp

declare getlines.simps [simp del]

text \<open>\<open>find(c)\<close> followed by the two \<open>substr\<close> around the position; \<open>None\<close> when \<open>c\<close> does not occur.\<close>

definition split_first :: "char \<Rightarrow> string \<Rightarrow> (string \<times> string) option" where
  "split_first c s = (if c \<in> set s then Some (takeWhile (\<lambda>x. x \<noteq> c) s, drop 1 (dropWhile (\<lambda>x. x \<noteq> c) s)) else None)"

text \<open>The subject sequence of \<open>strtoul\<close> / \<open>strtoll\<close> in base 10: white space, an optional sign, digits.\<close>

definition digits_value :: "string \<Rightarrow> nat" where
  "digits_value ds = foldl (\<lambda>n c. 10 * n + (of_char c - 48)) 0 ds"

definition parse_number :: "string \<Rightarrow> (bool \<times> nat) option" where
  "parse_number s =
     (let s = dropWhile isspace s;
          (neg, s) = (case s of [] \<Rightarrow> (False, []) | c # r \<Rightarrow>
             if c = CHR ''-'' then (True, r) else if c = CHR ''+'' then (False, r) else (False, s));
          ds = takeWhile isdigit s in
      if ds = [] then None else Some (neg, digits_value ds))"

text \<open>\<open>std::stoul\<close> with a 64-bit \<open>unsigned long\<close>.\<close>

definition stoul :: "string \<Rightarrow> u64 result" where
  "stoul s = (case parse_number s of
       None \<Rightarrow> Inl (InvalidArgument ''stoul'')
     | Some (neg, n) \<Rightarrow> if 2 ^ 64 \<le> n then Inl (OutOfRange ''stoul'') else Inr (if neg then - of_nat n else of_nat n))"

section \<open>Schemas\<close>

record Column =
  co_name :: string
  co_type :: string

type_synonym Schema = "Column list"

definition Schema_serialize :: "Schema \<Rightarrow> string" where
  "Schema_serialize cols =
     (let result = concat (map (\<lambda>col. co_name col @ '':'' @ co_type col @ '','') cols) in
      if result \<noteq> [] then butlast result else result)"

fun Schema_columns :: "string list \<Rightarrow> Column list" where
  "Schema_columns [] = []"
| "Schema_columns (token # tokens) =
     (case split_first (CHR '':'') token of
        None \<Rightarrow> Schema_columns tokens
      | Some (name, type) \<Rightarrow> \<lparr>co_name = name, co_type = type\<rparr> # Schema_columns tokens)"

definition Schema_deserialize :: "string \<Rightarrow> Schema" where
  "Schema_deserialize data = Schema_columns (getlines (CHR '','') data)"

section \<open>The catalog\<close>

record TableMeta =
  tb_table_id :: u32
  tb_schema :: Schema

record CatalogManager =
  cm_catalog_file :: "string option"
  cm_tables :: "(string \<times> TableMeta) list"
  cm_next_table_id :: u32

definition catalog_line :: "string \<Rightarrow> TableMeta \<Rightarrow> string" where
  "catalog_line name meta = name @ ''|'' @ string_of_nat (unat (tb_table_id meta)) @ ''|'' @ Schema_serialize (tb_schema meta) @ [CHR 0x0A]"

definition CatalogManager_saveCatalog ::
  "((string \<times> TableMeta) list \<Rightarrow> (string \<times> TableMeta) list) \<Rightarrow> CatalogManager \<Rightarrow> CatalogManager" where
  "CatalogManager_saveCatalog order cm =
     cm\<lparr>cm_catalog_file := Some (concat (map (\<lambda>(name, meta). catalog_line name meta) (order (cm_tables cm))))\<rparr>"

definition CatalogManager_loadLine :: "string \<Rightarrow> CatalogManager \<Rightarrow> CatalogManager result" where
  "CatalogManager_loadLine line cm =
     (case split_first (CHR ''|'') line of
        None \<Rightarrow> Inr cm
      | Some (name, rest) \<Rightarrow>
          (case split_first (CHR ''|'') rest of
             None \<Rightarrow> Inr cm
           | Some (num, serialized) \<Rightarrow>
               bindE (stoul num) (\<lambda>v.
               let table_id = ucast v :: u32 in
               Inr (cm\<lparr>cm_tables := AList.update name \<lparr>tb_table_id = table_id, tb_schema = Schema_deserialize serialized\<rparr> (cm_tables cm),
                       cm_next_table_id := (if cm_next_table_id cm \<le> table_id then table_id + 1 else cm_next_table_id cm)\<rparr>))))"

fun CatalogManager_loadLines :: "string list \<Rightarrow> CatalogManager \<Rightarrow> CatalogManager result" where
  "CatalogManager_loadLines [] cm = Inr cm"
| "CatalogManager_loadLines (line # lines) cm = bindE (CatalogManager_loadLine line cm) (CatalogManager_loadLines lines)"

definition CatalogManager_loadCatalog :: "CatalogManager \<Rightarrow> CatalogManager result" where
  "CatalogManager_loadCatalog cm =
     (case cm_catalog_file cm of None \<Rightarrow> Inr cm | Some content \<Rightarrow> CatalogManager_loadLines (getlines (CHR 0x0A) content) cm)"

definition CatalogManager_new :: "string option \<Rightarrow> CatalogManager result" where
  "CatalogManager_new content =
     CatalogManager_loadCatalog \<lparr>cm_catalog_file = content, cm_tables = [], cm_next_table_id = 0\<rparr>"

definition CatalogManager_hasTable :: "CatalogManager \<Rightarrow> string \<Rightarrow> bool" where
  "CatalogManager_hasTable cm name \<longleftrightarrow> map_of (cm_tables cm) name \<noteq> None"

definition CatalogManager_createTable ::
  "((string \<times> TableMeta) list \<Rightarrow> (string \<times> TableMeta) list) \<Rightarrow> string \<Rightarrow> Schema \<Rightarrow> CatalogManager \<Rightarrow> (u32 \<times> CatalogManager) result" where
  "CatalogManager_createTable order name schema cm =
     (if CatalogManager_hasTable cm name then Inl (RuntimeError (''Table already exists: '' @ name))
      else
        let table_id = cm_next_table_id cm;
            cm = cm\<lparr>cm_next_table_id := table_id + 1,
                    cm_tables := AList.update name \<lparr>tb_table_id = table_id, tb_schema = schema\<rparr> (cm_tables cm)\<rparr> in
        Inr (table_id, CatalogManager_saveCatalog order cm))"

definition CatalogManager_getSchema :: "CatalogManager \<Rightarrow> string \<Rightarrow> Schema result" where
  "CatalogManager_getSchema cm name =
     (case map_of (cm_tables cm) name of None \<Rightarrow> Inl (RuntimeError (''Table not found: '' @ name)) | Some meta \<Rightarrow> Inr (tb_schema meta))"

definition CatalogManager_getTableId :: "CatalogManager \<Rightarrow> string \<Rightarrow> u32 result" where
  "CatalogManager_getTableId cm name =
     (case map_of (cm_tables cm) name of None \<Rightarrow> Inl (RuntimeError (''Table not found: '' @ name)) | Some meta \<Rightarrow> Inr (tb_table_id meta))"

definition CatalogManager_getAllTables :: "CatalogManager \<Rightarrow> (string \<times> TableMeta) list" where
  "CatalogManager_getAllTables cm = cm_tables cm"

section \<open>Splitting what was joined\<close>

lemma getlines_Nil [simp]: "getlines d [] = []"
  by (simp add: getlines.simps)

lemma getlines_line: "d \<notin> set s \<Longrightarrow> getlines d (s @ d # rest) = s # getlines d rest"
  by (subst getlines.simps) (simp add: takeWhile_append dropWhile_append)

lemma getlines_last: "d \<notin> set s \<Longrightarrow> s \<noteq> [] \<Longrightarrow> getlines d s = [s]"
proof -
  assume a: "d \<notin> set s" "s \<noteq> []"
  then have tw: "takeWhile (\<lambda>c. c \<noteq> d) s = s" and dw: "dropWhile (\<lambda>c. c \<noteq> d) s = []" by (auto simp: takeWhile_eq_all_conv)
  show ?thesis using a(2) by (subst getlines.simps) (simp add: tw dw)
qed

lemma getlines_lines: "\<forall>s \<in> set ss. d \<notin> set s \<Longrightarrow> getlines d (concat (map (\<lambda>s. s @ [d]) ss)) = ss"
  by (induction ss) (simp_all add: getlines_line)

lemma getlines_joined:
  assumes "\<forall>s \<in> set ss. d \<notin> set s \<and> s \<noteq> []"
  shows "getlines d (butlast (concat (map (\<lambda>s. s @ [d]) ss))) = ss"
  using assms
proof (induction ss)
  case (Cons s ss)
  show ?case
  proof (cases "ss = []")
    case True
    with Cons.prems show ?thesis by (simp add: butlast_append getlines_last)
  next
    case False
    then have ne: "concat (map (\<lambda>s. s @ [d]) ss) \<noteq> []" by (cases ss) auto
    then have "butlast (concat (map (\<lambda>s. s @ [d]) (s # ss))) = s @ d # butlast (concat (map (\<lambda>s. s @ [d]) ss))"
      by (simp add: butlast_append)
    then show ?thesis using Cons by (simp add: getlines_line)
  qed
qed simp

lemma split_first_app: "c \<notin> set s \<Longrightarrow> split_first c (s @ c # rest) = Some (s, rest)"
  by (simp add: split_first_def takeWhile_append dropWhile_append)

section \<open>Numbers printed and read back\<close>

lemma digits_value_snoc: "digits_value (ds @ [c]) = 10 * digits_value ds + (of_char c - 48)"
  by (simp add: digits_value_def)

lemma of_char_digit: "d < 10 \<Longrightarrow> (of_char (digit_char d) :: nat) = 48 + d"
  by (simp add: digit_char_def)

lemma isdigit_digit_char: "d < 10 \<Longrightarrow> isdigit (digit_char d)"
  by (simp add: isdigit_def of_char_digit)

lemma string_of_nat_digits:
  "list_all isdigit (string_of_nat n) \<and> string_of_nat n \<noteq> [] \<and> digits_value (string_of_nat n) = n"
proof (induction n rule: string_of_nat.induct)
  case (1 n)
  show ?case
  proof (cases "n < 10")
    case True
    then show ?thesis by (subst (1 2 3) string_of_nat.simps) (simp add: isdigit_digit_char digits_value_def of_char_digit)
  next
    case False
    with 1 show ?thesis
      by (subst (1 2 3) string_of_nat.simps) (simp add: isdigit_digit_char digits_value_snoc of_char_digit)
  qed
qed

lemma parse_number_of_nat: "parse_number (string_of_nat n) = Some (False, n)"
proof -
  obtain c ds where s: "string_of_nat n = c # ds" using string_of_nat_digits [of n] by (cases "string_of_nat n") auto
  have all: "list_all isdigit (c # ds)" "digits_value (c # ds) = n" using string_of_nat_digits [of n] by (simp_all add: s)
  then have c: "isdigit c" by simp
  have nc: "\<not> isspace c" "c \<noteq> CHR ''-''" "c \<noteq> CHR ''+''"
    using digit_not_alpha [OF c] c by (auto simp: isdigit_def)
  have tw: "takeWhile isdigit (c # ds) = c # ds" using all(1) by (auto simp: takeWhile_eq_all_conv list_all_iff)
  show ?thesis using nc tw all(2) by (simp add: parse_number_def s Let_def)
qed

lemma stoul_of_nat: "n < 2 ^ 64 \<Longrightarrow> stoul (string_of_nat n) = Inr (of_nat n)"
  by (simp add: stoul_def parse_number_of_nat)

lemma string_of_nat_clean: "isdigit c \<noteq> True \<Longrightarrow> c \<notin> set (string_of_nat n)"
  using string_of_nat_digits [of n] by (auto simp: list_all_iff)


section \<open>The catalog file describes the catalog\<close>

text \<open>Names and types the text format can hold.\<close>

definition clean_column :: "Column \<Rightarrow> bool" where
  "clean_column col \<longleftrightarrow> {CHR '':'', CHR '','', CHR 0x0A} \<inter> set (co_name col) = {} \<and> {CHR '','', CHR 0x0A} \<inter> set (co_type col) = {}"

definition clean_table :: "string \<Rightarrow> Schema \<Rightarrow> bool" where
  "clean_table name schema \<longleftrightarrow> {CHR ''|'', CHR 0x0A} \<inter> set name = {} \<and> list_all clean_column schema"

definition column_text :: "Column \<Rightarrow> string" where
  "column_text col = co_name col @ CHR '':'' # co_type col"

lemma Schema_columns_text:
  "list_all clean_column cols \<Longrightarrow> Schema_columns (map column_text cols) = cols"
  by (induction cols) (auto simp: column_text_def clean_column_def split_first_app)

lemma Schema_roundtrip:
  assumes "list_all clean_column cols"
  shows "Schema_deserialize (Schema_serialize cols) = cols"
proof -
  have joined: "concat (map (\<lambda>col. co_name col @ '':'' @ co_type col @ '','') cols) = concat (map (\<lambda>s. s @ [CHR '','']) (map column_text cols))"
    by (induction cols) (simp_all add: column_text_def)
  have "\<forall>s \<in> set (map column_text cols). CHR '','' \<notin> set s \<and> s \<noteq> []"
    using assms by (auto simp: list_all_iff clean_column_def column_text_def)
  then have "getlines (CHR '','') (Schema_serialize cols) = map column_text cols"
    using getlines_joined [of "map column_text cols" "CHR '',''"] unfolding Schema_serialize_def joined Let_def by (cases cols) auto
  then show ?thesis using Schema_columns_text [OF assms] by (simp add: Schema_deserialize_def)
qed

lemma set_Schema_serialize: "list_all clean_column cols \<Longrightarrow> CHR 0x0A \<notin> set (Schema_serialize cols)"
proof -
  assume "list_all clean_column cols"
  then have "CHR 0x0A \<notin> set (concat (map (\<lambda>col. co_name col @ '':'' @ co_type col @ '','') cols))"
    by (auto simp: list_all_iff clean_column_def)
  then show ?thesis by (auto simp: Schema_serialize_def Let_def dest: in_set_butlastD)
qed

lemma loadLine_text:
  assumes "clean_table name (tb_schema meta)"
  shows "CatalogManager_loadLine (butlast (catalog_line name meta)) cm =
    Inr (cm\<lparr>cm_tables := AList.update name meta (cm_tables cm),
            cm_next_table_id := (if cm_next_table_id cm \<le> tb_table_id meta then tb_table_id meta + 1 else cm_next_table_id cm)\<rparr>)"
proof -
  have id: "unat (tb_table_id meta) < 2 ^ 64" by (rule less_le_trans [OF unsigned_less]) simp
  have cast: "ucast (ucast w :: u64) = w" for w :: u32
    by (simp add: word_unat_eq_iff unsigned_ucast_eq take_bit_word_eq_self)
  have bar: "CHR ''|'' \<notin> set (string_of_nat n)" for n by (rule string_of_nat_clean) (simp add: isdigit_def)
  have line: "butlast (catalog_line name meta) =
      name @ CHR ''|'' # string_of_nat (unat (tb_table_id meta)) @ CHR ''|'' # Schema_serialize (tb_schema meta)"
    by (simp add: catalog_line_def butlast_append)
  have "split_first (CHR ''|'') (butlast (catalog_line name meta)) =
      Some (name, string_of_nat (unat (tb_table_id meta)) @ CHR ''|'' # Schema_serialize (tb_schema meta))"
    unfolding line using assms by (intro split_first_app) (auto simp: clean_table_def)
  moreover have "split_first (CHR ''|'') (string_of_nat (unat (tb_table_id meta)) @ CHR ''|'' # Schema_serialize (tb_schema meta)) =
      Some (string_of_nat (unat (tb_table_id meta)), Schema_serialize (tb_schema meta))" by (rule split_first_app [OF bar])
  ultimately show ?thesis
    using stoul_of_nat [OF id] assms by (cases meta) (simp add: CatalogManager_loadLine_def cast Schema_roundtrip clean_table_def Let_def)
qed


text \<open>Reading the lines of the entries \<open>ms\<close>.\<close>

definition load_entry :: "string \<times> TableMeta \<Rightarrow> CatalogManager \<Rightarrow> CatalogManager" where
  "load_entry = (\<lambda>(name, meta) cm. cm\<lparr>cm_tables := AList.update name meta (cm_tables cm),
     cm_next_table_id := (if cm_next_table_id cm \<le> tb_table_id meta then tb_table_id meta + 1 else cm_next_table_id cm)\<rparr>)"

lemma catalog_line_snoc: "catalog_line name meta = butlast (catalog_line name meta) @ [CHR 0x0A]"
  by (simp add: catalog_line_def butlast_append)

lemma loadLines_text:
  assumes "\<forall>(name, meta) \<in> set ms. clean_table name (tb_schema meta)"
  shows "CatalogManager_loadLines (getlines (CHR 0x0A) (concat (map (\<lambda>(name, meta). catalog_line name meta) ms))) cm = Inr (fold load_entry ms cm)"
  using assms
proof (induction ms arbitrary: cm)
  case (Cons m ms)
  obtain name meta where m: "m = (name, meta)" by (cases m)
  have clean: "clean_table name (tb_schema meta)" using Cons.prems by (simp add: m)
  have nl: "CHR 0x0A \<notin> set (string_of_nat n)" for n by (rule string_of_nat_clean) (simp add: isdigit_def)
  have "CHR 0x0A \<notin> set (butlast (catalog_line name meta))"
    using clean set_Schema_serialize nl by (auto simp: catalog_line_def butlast_append clean_table_def)
  from getlines_line [OF this] have "getlines (CHR 0x0A) (catalog_line name meta @ rest) = butlast (catalog_line name meta) # getlines (CHR 0x0A) rest" for rest
    by (subst catalog_line_snoc) simp
  then show ?case using Cons loadLine_text [OF clean] by (simp add: m load_entry_def)
qed simp

lemma load_tables: "map_of (cm_tables (fold load_entry ms cm)) = map_of (cm_tables cm) ++ map_of (rev ms)"
  by (induction ms arbitrary: cm) (auto simp: load_entry_def update_conv' map_add_upd_left split: prod.splits)

lemma load_next:
  "\<forall>(name, meta) \<in> set ms. tb_table_id meta < N \<Longrightarrow> cm_next_table_id cm \<le> N \<Longrightarrow>
   cm_next_table_id cm = N \<or> (\<exists>(name, meta) \<in> set ms. tb_table_id meta + 1 = N) \<Longrightarrow> cm_next_table_id (fold load_entry ms cm) = N"
proof (induction ms arbitrary: cm)
  case (Cons m ms)
  obtain name meta where m: "m = (name, meta)" by (cases m)
  let ?cm = "load_entry m cm"
  have lt: "tb_table_id meta < N" using Cons.prems(1) by (simp add: m)
  then have le: "tb_table_id meta + 1 \<le> N" by (rule inc_le)
  have new: "cm_next_table_id ?cm = (if cm_next_table_id cm \<le> tb_table_id meta then tb_table_id meta + 1 else cm_next_table_id cm)"
    by (simp add: m load_entry_def)
  have "cm_next_table_id ?cm \<le> N" using le Cons.prems(2) by (simp add: new)
  moreover have "cm_next_table_id ?cm = N \<or> (\<exists>(name, meta) \<in> set ms. tb_table_id meta + 1 = N)"
  proof (cases "tb_table_id meta + 1 = N")
    case True
    have "tb_table_id meta + 1 \<le> cm_next_table_id cm" if "\<not> cm_next_table_id cm \<le> tb_table_id meta"
      using that by (intro inc_le) simp
    then show ?thesis using True Cons.prems(2) by (auto simp: new intro: antisym)
  next
    case False
    then show ?thesis using Cons.prems(3) lt by (auto simp: new [unfolded m] m)
  qed
  ultimately show ?case using Cons.IH [of ?cm] Cons.prems(1) by simp
qed auto


section \<open>Properties\<close>

definition iteration :: "((string \<times> TableMeta) list \<Rightarrow> (string \<times> TableMeta) list) \<Rightarrow> bool" where
  "iteration order \<longleftrightarrow> (\<forall>xs. mset (order xs) = mset xs)"

text \<open>Catalogs made by creating tables one after the other.\<close>

inductive created :: "((string \<times> TableMeta) list \<Rightarrow> (string \<times> TableMeta) list) \<Rightarrow> CatalogManager \<Rightarrow> bool" for order where
  created_none: "CatalogManager_new None = Inr cm \<Longrightarrow> created order cm"
| created_table: "created order cm \<Longrightarrow> clean_table name schema \<Longrightarrow> cm_next_table_id cm \<noteq> -1 \<Longrightarrow>
    CatalogManager_createTable order name schema cm = Inr (i, cm') \<Longrightarrow> created order cm'"

definition catalog_inv :: "CatalogManager \<Rightarrow> bool" where
  "catalog_inv cm \<longleftrightarrow> distinct (map fst (cm_tables cm)) \<and> (\<forall>(name, meta) \<in> set (cm_tables cm). clean_table name (tb_schema meta))
     \<and> (\<forall>(name, meta) \<in> set (cm_tables cm). tb_table_id meta < cm_next_table_id cm)
     \<and> distinct (map (tb_table_id \<circ> snd) (cm_tables cm))
     \<and> (cm_next_table_id cm = 0 \<or> (\<exists>(name, meta) \<in> set (cm_tables cm). tb_table_id meta + 1 = cm_next_table_id cm))"

lemma update_new: "map_of xs k = None \<Longrightarrow> AList.update k v xs = xs @ [(k, v)]"
  by (induction xs) auto

lemma created_inv:
  "created order cm \<Longrightarrow> catalog_inv cm \<and> (cm_tables cm = [] \<and> cm_catalog_file cm = None
     \<or> cm_catalog_file cm = Some (concat (map (\<lambda>(name, meta). catalog_line name meta) (order (cm_tables cm)))))"
proof (induction rule: created.induct)
  case (created_none cm)
  then show ?case by (auto simp: CatalogManager_new_def CatalogManager_loadCatalog_def catalog_inv_def)
next
  case (created_table cm name schema i cm')
  let ?meta = "\<lparr>tb_table_id = cm_next_table_id cm, tb_schema = schema\<rparr>"
  have fresh: "map_of (cm_tables cm) name = None" and cm': "cm' = CatalogManager_saveCatalog order
      (cm\<lparr>cm_next_table_id := cm_next_table_id cm + 1, cm_tables := cm_tables cm @ [(name, ?meta)]\<rparr>)"
    using created_table.hyps(4) by (auto simp: CatalogManager_createTable_def CatalogManager_hasTable_def update_new Let_def split: if_splits)
  have lt: "cm_next_table_id cm < cm_next_table_id cm + 1" using max_word_Suc [OF created_table.hyps(3), of "cm_next_table_id cm"] by simp
  then have old: "tb_table_id meta < cm_next_table_id cm + 1" if "(n, meta) \<in> set (cm_tables cm)" for n meta
    using created_table.IH that by (auto simp: catalog_inv_def dest: less_trans)
  have ids: "distinct (map (tb_table_id \<circ> snd) (cm_tables cm @ [(name, ?meta)]))"
    using created_table.IH by (auto simp: catalog_inv_def)
  have "catalog_inv cm'"
    using created_table.IH created_table.hyps(2) fresh lt old ids
    by (auto simp: catalog_inv_def cm' CatalogManager_saveCatalog_def map_of_eq_None_iff)
  then show ?case by (simp add: cm' CatalogManager_saveCatalog_def)
qed

lemma map_of_same: "distinct (map fst xs) \<Longrightarrow> mset ys = mset xs \<Longrightarrow> map_of ys = map_of xs"
proof -
  assume a: "distinct (map fst xs)" "mset ys = mset xs"
  then have "distinct (map fst ys)" by (metis mset_eq_imp_distinct_iff mset_map)
  then show ?thesis using a mset_eq_setD [OF a(2)] by (metis map_of_inject_set)
qed

text \<open>
  C38: the catalog file describes the catalog. After creating any tables whose names the text format can hold, in whatever order the hash table is
  written out, a catalog opened on the file has the same tables with the same ids and schemas, refuses the same names, and would
  assign the same next id; and no two tables have the same id.
\<close>

theorem Catalog_reopen:
  assumes "iteration order" "created order cm"
  shows "\<exists>cm'. CatalogManager_new (cm_catalog_file cm) = Inr cm' \<and> map_of (cm_tables cm') = map_of (cm_tables cm)
    \<and> cm_next_table_id cm' = cm_next_table_id cm \<and> distinct (map (tb_table_id \<circ> snd) (cm_tables cm))"
proof -
  have inv: "catalog_inv cm" using created_inv [OF assms(2)] by simp
  then have dist: "distinct (map fst (cm_tables cm))" "distinct (map (tb_table_id \<circ> snd) (cm_tables cm))" by (simp_all add: catalog_inv_def)
  show ?thesis
  proof (cases "cm_catalog_file cm")
    case None
    then have "cm_tables cm = []" using created_inv [OF assms(2)] by auto
    moreover then have "cm_next_table_id cm = 0" using inv by (simp add: catalog_inv_def)
    ultimately show ?thesis using None by (simp add: CatalogManager_new_def CatalogManager_loadCatalog_def)
  next
    case (Some content)
    let ?ms = "order (cm_tables cm)" and ?cm0 = "\<lparr>cm_catalog_file = Some content, cm_tables = [], cm_next_table_id = 0\<rparr>"
    have content: "content = concat (map (\<lambda>(name, meta). catalog_line name meta) ?ms)" using created_inv [OF assms(2)] Some by auto
    have ms: "mset ?ms = mset (cm_tables cm)" using assms(1) by (simp add: iteration_def)
    then have set_ms: "set ?ms = set (cm_tables cm)" by (rule mset_eq_setD)
    have load: "CatalogManager_new (Some content) = Inr (fold load_entry ?ms ?cm0)"
      using loadLines_text [of ?ms ?cm0] inv set_ms by (simp add: CatalogManager_new_def CatalogManager_loadCatalog_def content catalog_inv_def)
    have "map_of (cm_tables (fold load_entry ?ms ?cm0)) = map_of (cm_tables cm)"
      using load_tables [of ?ms ?cm0] map_of_same [OF dist(1), of "rev ?ms"] ms by simp
    moreover have "cm_next_table_id (fold load_entry ?ms ?cm0) = cm_next_table_id cm"
      using inv set_ms by (intro load_next) (auto simp: catalog_inv_def)
    ultimately show ?thesis using load Some dist(2) by auto
  qed
qed


definition users_schema :: Schema where
  "users_schema = [\<lparr>co_name = ''id'', co_type = ''int''\<rparr>, \<lparr>co_name = ''name'', co_type = ''string''\<rparr>]"

definition one_table :: CatalogManager where
  "one_table = \<lparr>cm_catalog_file = Some ''users|0|id:int,name:string
'', cm_tables = [(''users'', \<lparr>tb_table_id = 0, tb_schema = users_schema\<rparr>)], cm_next_table_id = 1\<rparr>"

lemma zero_digit: "digit_char 0 = CHR ''0''"
  by code_simp

lemma one_table_created: "created id one_table"
proof (rule created_table [OF created_none])
  show "CatalogManager_new None = Inr \<lparr>cm_catalog_file = None, cm_tables = [], cm_next_table_id = 0\<rparr>"
    by (simp add: CatalogManager_new_def CatalogManager_loadCatalog_def)
  show "clean_table ''users'' users_schema" by (simp add: clean_table_def clean_column_def users_schema_def)
  show "CatalogManager_createTable id ''users'' users_schema \<lparr>cm_catalog_file = None, cm_tables = [], cm_next_table_id = 0\<rparr> = Inr (0, one_table)"
    by (simp add: CatalogManager_createTable_def CatalogManager_hasTable_def CatalogManager_saveCatalog_def one_table_def catalog_line_def
        users_schema_def Schema_serialize_def string_of_nat.simps [of 0] zero_digit)
qed simp

theorem Catalog_reopen_witness:
  "\<exists>cm'. CatalogManager_new (cm_catalog_file one_table) = Inr cm' \<and> map_of (cm_tables cm') = map_of (cm_tables one_table)
    \<and> cm_next_table_id cm' = 1"
  using Catalog_reopen [OF _ one_table_created] by (auto simp: iteration_def one_table_def)

end
