(* ===== verification/Tables.thy ===== *)
theory Tables
  imports Record_Manager Tree_Map Mvcc Catalog
begin

text \<open>
  \<open>table.hpp\<close> / \<open>table.cpp\<close>: a table as a heap of row versions, an index from keys to the newest version of each row, and
  the engine's MVCC manager.

  The heap, the index and the MVCC manager write to one log, which the MVCC manager holds; \<open>on_heap\<close> and \<open>on_tree\<close> run an operation of the
  first two on it. The model runs one table operation at a time. A row lock that another transaction holds is then not released while the operation
  waits, so the wait ends with the timeout. \<open>AutoCommitGuard\<close> is the destructor that ends the statement's own transaction on every way out of
  its scope.
\<close>

record Table =
  tab_name :: string
  tab_schema :: Schema
  tab_pool :: BufferPool
  tab_index :: BPlusTree

type_synonym table_state = "Table \<times> MVCCManager"

definition mv_log :: "MVCCManager \<Rightarrow> Log" where
  "mv_log mv = (mv_txns mv, mv_wal mv)"

definition with_log :: "MVCCManager \<Rightarrow> Log \<Rightarrow> MVCCManager" where
  "with_log mv lg = mv\<lparr>mv_txns := fst lg, mv_wal := snd lg\<rparr>"

definition on_heap :: "(pool_state, 'a) effect \<Rightarrow> (table_state, 'a) effect" where
  "on_heap m = (\<lambda>(tb, mv). case m (tab_pool tb, mv_log mv) of (r, bp, lg) \<Rightarrow> (r, tb\<lparr>tab_pool := bp\<rparr>, with_log mv lg))"

definition on_tree :: "(tree_state, 'a) effect \<Rightarrow> (table_state, 'a) effect" where
  "on_tree m = (\<lambda>(tb, mv). case m (tab_index tb, mv_log mv) of (r, t, lg) \<Rightarrow> (r, tb\<lparr>tab_index := t\<rparr>, with_log mv lg))"

text \<open>The constructor: \<open>index(im)\<close> opens the tree on the index manager and may throw.\<close>

definition Table_new :: "string \<Rightarrow> Schema \<Rightarrow> BufferPool \<Rightarrow> IndexManager \<Rightarrow> MVCCManager \<Rightarrow> (unit result) \<times> table_state" where
  "Table_new name schema pool im mv =
     (case BPlusTree_open im (mv_log mv) of (r, t, lg) \<Rightarrow>
        (r, \<lparr>tab_name = name, tab_schema = schema, tab_pool = pool, tab_index = t\<rparr>, with_log mv lg))"

definition Table_getName :: "Table \<Rightarrow> string" where
  "Table_getName tb = tab_name tb"

definition Table_getSchema :: "Table \<Rightarrow> Schema" where
  "Table_getSchema tb = tab_schema tb"

section \<open>Transactions\<close>

definition Table_beginTxn :: "(table_state, u64) effect" where
  "Table_beginTxn = (\<lambda>(tb, mv). case MVCCManager_begin mv of (txn, mv) \<Rightarrow> (Inr txn, tb, mv))"

definition Table_commitTxn :: "u64 \<Rightarrow> (table_state, unit) effect" where
  "Table_commitTxn txn = smodify (\<lambda>(tb, mv). (tb, MVCCManager_commit mv txn))"

definition Table_abortTxn :: "u64 \<Rightarrow> (table_state, unit) effect" where
  "Table_abortTxn txn = smodify (\<lambda>(tb, mv). (tb, MVCCManager_abort mv txn))"

text \<open>\<open>mvcc.acquireExclusive\<close>, with the timeout as the end of every wait: operations run one at a time, so no commit of another session ends it.\<close>

definition acquireExclusive :: "RID \<Rightarrow> u64 \<Rightarrow> (table_state, unit) effect" where
  "acquireExclusive rid txn = (\<lambda>(tb, mv).
     case MVCCManager_acquireExclusive mv rid txn of
       (Returns, mv) \<Rightarrow> (Inr (), tb, mv)
     | (Throws e, mv) \<Rightarrow> (Inl e, tb, mv)
     | (Sleeps, mv) \<Rightarrow>
         (case LockManager_timeout (mv_lock_manager mv) txn of
            (Throws e, lm) \<Rightarrow> (Inl e, tb, mv\<lparr>mv_lock_manager := lm\<rparr>)
          | (_, lm) \<Rightarrow> (Inr (), tb, mv\<lparr>mv_lock_manager := lm\<rparr>)))"

text \<open>
  \<open>AutoCommitGuard\<close>: the guarded scope returns its value and whether it called \<open>guard.commit()\<close>. The destructor aborts an owned
  transaction that was not committed, also when the scope throws.
\<close>

definition guard_commit :: "u64 \<Rightarrow> bool \<Rightarrow> (table_state, unit) effect" where
  "guard_commit txn owns = (if owns then Table_commitTxn txn else sreturn ())"

definition AutoCommitGuard :: "u64 \<Rightarrow> bool \<Rightarrow> (table_state, 'a \<times> bool) effect \<Rightarrow> (table_state, 'a) effect" where
  "AutoCommitGuard txn owns scope = (\<lambda>s.
     case scope s of
       (Inl e, tb, mv) \<Rightarrow> (Inl e, tb, if owns then MVCCManager_abort mv txn else mv)
     | (Inr (x, resolved), tb, mv) \<Rightarrow> (Inr x, tb, if owns \<and> \<not> resolved then MVCCManager_abort mv txn else mv))"

text \<open>The prologue of the writing operations: \<open>txn_id == 0\<close> begins a transaction the guard owns.\<close>

definition auto_commit :: "u64 \<Rightarrow> (u64 \<Rightarrow> bool \<Rightarrow> (table_state, 'a \<times> bool) effect) \<Rightarrow> (table_state, 'a) effect" where
  "auto_commit txn_id scope =
     (let owns = (txn_id = 0) in
      sbind (if owns then Table_beginTxn else sreturn txn_id) (\<lambda>active. AutoCommitGuard active owns (scope active owns)))"

section \<open>Writing\<close>

definition insert_scope :: "string list \<Rightarrow> u64 \<Rightarrow> bool \<Rightarrow> (table_state, RID \<times> bool) effect" where
  "insert_scope values active owns =
     (let key = KString (hd values) in
      sbind (on_tree (BPlusTree_search key)) (\<lambda>existing_rid.
      sbind (case existing_rid of
               None \<Rightarrow> sreturn no_rid
             | Some rid \<Rightarrow>
                 sbind (acquireExclusive rid active) (\<lambda>_.
                 sbind (on_heap (RecordManager_readRecord PageManager_ops rid)) (\<lambda>existing.
                 sreturn (if rec_delete_txn_id existing \<noteq> 0 then rid else no_rid)))) (\<lambda>prev_version.
      sbind (on_heap (RecordManager_insertRecord PageManager_ops (Record_new values active prev_version) active)) (\<lambda>rid.
      sbind (case existing_rid of
               Some _ \<Rightarrow>
                 sbind (acquireExclusive rid active) (\<lambda>_.
                 sbind (on_tree (BPlusTree_update key (rid_page_id rid) (rid_slot_id rid) active)) (\<lambda>_. sreturn ()))
             | None \<Rightarrow> on_tree (BPlusTree_insert key (rid_page_id rid) (rid_slot_id rid) active)) (\<lambda>_.
      sbind (guard_commit active owns) (\<lambda>_. sreturn (rid, True)))))))"

definition Table_insert :: "string list \<Rightarrow> u64 \<Rightarrow> (table_state, RID) effect" where
  "Table_insert values txn_id =
     sbind (sget (\<lambda>(tb, mv). tab_schema tb)) (\<lambda>schema.
     if values = [] then sthrow (RuntimeError ''No values provided for insert.'')
     else if length values \<noteq> length schema then sthrow (RuntimeError ''Mismatched column count in insert.'')
     else auto_commit txn_id (insert_scope values))"

definition update_scope :: "Key \<Rightarrow> RID \<Rightarrow> string list \<Rightarrow> u64 \<Rightarrow> bool \<Rightarrow> (table_state, bool \<times> bool) effect" where
  "update_scope key rid values active owns =
     sbind (acquireExclusive rid active) (\<lambda>_.
     sbind (on_heap (RecordManager_updateRecord PageManager_ops rid values active)) (\<lambda>new_rid.
     case new_rid of
       None \<Rightarrow> sreturn (False, False)
     | Some new \<Rightarrow>
         sbind (acquireExclusive new active) (\<lambda>_.
         sbind (on_tree (BPlusTree_update key (rid_page_id new) (rid_slot_id new) active)) (\<lambda>_.
         sbind (guard_commit active owns) (\<lambda>_. sreturn (True, True))))))"

definition Table_updateByKey :: "string \<Rightarrow> string list \<Rightarrow> u64 \<Rightarrow> (table_state, bool) effect" where
  "Table_updateByKey key values txn_id =
     sbind (sget (\<lambda>(tb, mv). tab_schema tb)) (\<lambda>schema.
     if length values \<noteq> length schema then sthrow (RuntimeError ''Mismatched column count in update.'')
     else
       sbind (on_tree (BPlusTree_search (KString key))) (\<lambda>rid_opt.
       case rid_opt of
         None \<Rightarrow> sreturn False
       | Some rid \<Rightarrow> auto_commit txn_id (update_scope (KString key) rid values)))"

definition delete_scope :: "RID \<Rightarrow> u64 \<Rightarrow> bool \<Rightarrow> (table_state, bool \<times> bool) effect" where
  "delete_scope rid active owns =
     sbind (acquireExclusive rid active) (\<lambda>_.
     sbind (on_heap (RecordManager_markDeleted PageManager_ops rid active)) (\<lambda>deleted.
     sbind (if deleted then guard_commit active owns else sreturn ()) (\<lambda>_. sreturn (deleted, deleted))))"

definition Table_deleteByKey :: "string \<Rightarrow> u64 \<Rightarrow> (table_state, bool) effect" where
  "Table_deleteByKey key txn_id =
     sbind (on_tree (BPlusTree_search (KString key))) (\<lambda>rid_opt.
     case rid_opt of
       None \<Rightarrow> sreturn False
     | Some rid \<Rightarrow> auto_commit txn_id (delete_scope rid))"

section \<open>Reading\<close>

text \<open>
  The walk along \<open>prev_version\<close>. Reading changes no record, so a walk that has passed more records than the pages can hold has come back to one of
  them and never ends.
\<close>

fun visible_from :: "nat \<Rightarrow> RID \<Rightarrow> u64 \<Rightarrow> Snapshot \<Rightarrow> (table_state, Record option) effect" where
  "visible_from 0 rid txn_id snapshot = sthrow Diverges"
| "visible_from (Suc fuel) rid txn_id snapshot =
     sbind (on_heap (RecordManager_readRecord PageManager_ops rid)) (\<lambda>rec.
     sbind (sget (\<lambda>(tb, mv). MVCCManager_isVisible mv (rec_create_txn_id rec) (rec_delete_txn_id rec) txn_id snapshot)) (\<lambda>visible.
     if visible then sreturn (Some rec)
     else if \<not> Record_hasPrevVersion rec then sreturn None
     else visible_from fuel (rec_prev_version rec) txn_id snapshot))"

definition Table_findVisibleVersion :: "RID \<Rightarrow> u64 \<Rightarrow> Snapshot \<Rightarrow> (table_state, Record option) effect" where
  "Table_findVisibleVersion rid txn_id snapshot =
     sbind (sget (\<lambda>(tb, mv). nat (bp_next_page_id (tab_pool tb)))) (\<lambda>pages. visible_from (Suc (pages * PAGE_SIZE)) rid txn_id snapshot)"

definition get_snapshot :: "u64 \<Rightarrow> (table_state, Snapshot) effect" where
  "get_snapshot txn_id = (\<lambda>(tb, mv). (MVCCManager_getSnapshot mv txn_id, tb, mv))"

definition Table_getByKey :: "string \<Rightarrow> u64 \<Rightarrow> (table_state, Record option) effect" where
  "Table_getByKey key txn_id =
     sbind (on_tree (BPlusTree_search (KString key))) (\<lambda>rid_opt.
     case rid_opt of
       None \<Rightarrow> sreturn None
     | Some rid \<Rightarrow> sbind (get_snapshot txn_id) (\<lambda>snapshot. Table_findVisibleVersion rid txn_id snapshot))"

fun scan_pairs :: "(Key \<times> RID) list \<Rightarrow> u64 \<Rightarrow> Snapshot \<Rightarrow> (table_state, (Key \<times> Record) list) effect" where
  "scan_pairs [] txn_id snapshot = sreturn []"
| "scan_pairs ((key, rid) # entries) txn_id snapshot =
     sbind (Table_findVisibleVersion rid txn_id snapshot) (\<lambda>visible.
     sbind (scan_pairs entries txn_id snapshot) (\<lambda>rest.
     sreturn (case visible of None \<Rightarrow> rest | Some rec \<Rightarrow> (key, rec) # rest)))"

definition Table_scanAll :: "u64 \<Rightarrow> (table_state, (Key \<times> Record) list) effect" where
  "Table_scanAll txn_id =
     sbind (get_snapshot txn_id) (\<lambda>snapshot.
     sbind (on_tree BPlusTree_getAllKeyRIDPairs) (\<lambda>entries. scan_pairs entries txn_id snapshot))"

text \<open>\<open>printAll\<close>: the text written to standard output when every record can be read.\<close>

fun print_pairs :: "(Key \<times> RID) list \<Rightarrow> (table_state, string) effect" where
  "print_pairs [] = sreturn []"
| "print_pairs ((key, rid) # entries) =
     sbind (on_heap (RecordManager_readRecord PageManager_ops rid)) (\<lambda>rec.
     sbind (print_pairs entries) (\<lambda>rest. sreturn (concat (map (\<lambda>v. v @ '' '') (rec_fields rec)) @ CHR 0x0A # rest)))"

definition Table_printAll :: "(table_state, string) effect" where
  "Table_printAll = sbind (on_tree BPlusTree_getAllKeyRIDPairs) print_pairs"

end
