(* ===== verification/Log_Effects.thy ===== *)
theory Log_Effects
  imports Record_Manager Tree_Map Mvcc
begin

text \<open>
  What the heap and the index do to the log they share with the MVCC manager. On behalf of a caller's transaction they append
  records and flush, and begin no transaction of their own, so the transaction counter stays as it is; snapshots taken before and visibility
  are then unaffected.
\<close>

definition txn_counter :: "'o \<times> Log \<Rightarrow> u64" where
  "txn_counter s = tm_next_txn_id (fst (snd s))"

lemma counter_simp [simp]: "txn_counter (x, lg) = tm_next_txn_id (fst lg)"
  by (simp add: txn_counter_def)

section \<open>The heap\<close>

lemma keeps_frames [keeps_rules]: "keeps txn_counter (set_frame i f)" "keeps txn_counter (get_frame i)"
  by (auto simp: set_frame_def get_frame_def intro!: keeps_rules)

lemma keeps_serialize [keeps_rules]: "keeps txn_counter (frame_serialize i)"
  unfolding frame_serialize_def by (intro keeps_rules)

lemma keeps_write_disk [keeps_rules]: "keeps txn_counter (BufferPool_writePageToDisk i)"
  unfolding BufferPool_writePageToDisk_def Let_def by (intro keeps_rules) (auto split: prod.splits)

lemma keeps_read_disk [keeps_rules]: "keeps txn_counter (BufferPool_readPageFromDisk i pid)"
  unfolding BufferPool_readPageFromDisk_def by (intro keeps_rules) (auto split: prod.splits)

lemma keeps_evict [keeps_rules]: "keeps txn_counter BufferPool_evictFrame"
  unfolding BufferPool_evictFrame_def by (intro keeps_rules) (auto split: prod.splits)

lemma keeps_fetch [keeps_rules]: "keeps txn_counter (BufferPool_fetchPage pid)"
  unfolding BufferPool_fetchPage_def BufferPool_captureBeforeImage_def record_access_def by (intro keeps_rules) (auto split: prod.splits)

lemma keeps_log_update [keeps_rules]:
  assumes "txn \<noteq> 0"
  shows "keeps txn_counter (BufferPool_logUpdateIfChanged i pid txn)"
proof -
  have start: "keeps txn_counter (\<lambda>(bp, tm, w). if False then f bp tm w else (Inr txn, bp, tm, w))" for f :: "BufferPool \<Rightarrow> _"
    by (simp add: keeps_def split: prod.splits)
  have app: "keeps txn_counter (\<lambda>(bp, tm, w). case TransactionManager_appendRecord tm w t UPDATE HEAP pid old new (bp_table_id bp) of (lsn, tm, w) \<Rightarrow> (Inr lsn, bp, tm, w))" for t old new
    by (auto simp: keeps_def dest: appendRecord_next split: prod.splits)
  show ?thesis unfolding BufferPool_logUpdateIfChanged_def Let_def
    by (intro keeps_rules start app) (use assms in \<open>auto simp: keeps_def split: prod.splits\<close>)
qed

lemma keeps_unpin [keeps_rules]: "(dirty \<Longrightarrow> txn \<noteq> 0) \<Longrightarrow> keeps txn_counter (BufferPool_unpinPage pid dirty txn)"
  unfolding BufferPool_unpinPage_def by (intro keeps_rules) auto

lemma keeps_pages [keeps_rules]:
  "keeps txn_counter (pm_readPage PageManager_ops pid)"
  "txn \<noteq> 0 \<Longrightarrow> keeps txn_counter (pm_writePage PageManager_ops p txn)"
  "keeps txn_counter (pm_allocatePage PageManager_ops)"
  "keeps txn_counter (pm_getNextPageId PageManager_ops)"
proof -
  show "keeps txn_counter (pm_readPage PageManager_ops pid)"
    by (simp add: PageManager_ops_def PageManager_readPage_def) (intro keeps_rules, simp)
  show "txn \<noteq> 0 \<Longrightarrow> keeps txn_counter (pm_writePage PageManager_ops p txn)"
    by (simp add: PageManager_ops_def PageManager_writePage_def Let_def) (intro keeps_rules, simp)
  show "keeps txn_counter (pm_allocatePage PageManager_ops)"
    by (simp add: PageManager_ops_def PageManager_allocatePage_def BufferPool_allocatePage_def) (intro keeps_rules, auto split: prod.splits)
  show "keeps txn_counter (pm_getNextPageId PageManager_ops)"
    by (simp add: PageManager_ops_def PageManager_getNextPageId_def keeps_rules)
qed

lemma keeps_try [keeps_rules]: "txn \<noteq> 0 \<Longrightarrow> keeps txn_counter (RecordManager_tryPages PageManager_ops ser txn i n)"
  by (induction n arbitrary: i) (auto intro!: keeps_rules)

lemma keeps_records [keeps_rules]:
  "txn \<noteq> 0 \<Longrightarrow> keeps txn_counter (RecordManager_insertRecord PageManager_ops r txn)"
  "keeps txn_counter (RecordManager_readRecord PageManager_ops rid)"
  "txn \<noteq> 0 \<Longrightarrow> keeps txn_counter (RecordManager_markDeleted PageManager_ops rid txn)"
  unfolding RecordManager_insertRecord_def RecordManager_readRecord_def RecordManager_markDeleted_def Let_def
  by (intro keeps_rules; simp)+

lemma keeps_update_record [keeps_rules]: "txn \<noteq> 0 \<Longrightarrow> keeps txn_counter (RecordManager_updateRecord PageManager_ops rid fs txn)"
  unfolding RecordManager_updateRecord_def by (intro keeps_rules; simp)+

section \<open>The index\<close>

lemma keeps_log_page [keeps_rules]: "keeps txn_counter (log_index_page txn pid old new)"
  by (auto simp: keeps_def log_index_page_def dest: appendRecord_next split: prod.splits)

lemma keeps_index [keeps_rules]:
  "keeps txn_counter (IndexManager_saveNode ids n txn)" "keeps txn_counter (IndexManager_setRootNodeID i txn)"
  "keeps txn_counter IndexManager_allocateNodeID"
  unfolding IndexManager_saveNode_def IndexManager_setRootNodeID_def IndexManager_allocateNodeID_def Let_def
  by (intro keeps_rules; auto split: prod.splits)+

lemma keeps_on_index [keeps_rules]: "keeps txn_counter m \<Longrightarrow> keeps txn_counter (on_index m)"
  by (auto simp: keeps_def on_index_def split: prod.splits option.splits) (metis fst_conv snd_conv txn_counter_def)

lemma keeps_nodes [keeps_rules]: "keeps txn_counter (get_node r)" "keeps txn_counter (set_node r n)"
  by (auto simp: keeps_def get_node_def set_node_def smodify_def split: prod.splits)

lemma keeps_saveDirty [keeps_rules]:
  assumes "txn \<noteq> 0"
  shows "keeps txn_counter (BPlusTree_saveDirty txn)"
proof -
  have start: "keeps txn_counter (\<lambda>(t, tm, w). if False then f t tm w else (Inr txn, t, tm, w))" for f :: "BPlusTree \<Rightarrow> _"
    by (simp add: keeps_def split: prod.splits)
  show ?thesis
    unfolding BPlusTree_saveDirty_def assign_id_def save_one_def BPlusTree_snapshotRoot_def Let_def
    by (intro keeps_rules start) (use assms in \<open>auto simp: keeps_def split: prod.splits\<close>)
qed

end
