(* ===== verification/Tree_Safety.thy ===== *)
theory Tree_Safety
  imports Tree_Map
begin

text \<open>
  What saving the tree needs: every key of every node fits its length field, and the dirty set names nodes of the tree.

  \<open>safe_run B m Q\<close> is a rule system for code on the tree: started where all keys are storable, the dirty nodes exist and so do the nodes of \<open>B\<close>, the
  code that returns leaves such a state and its result satisfies \<open>Q\<close>. Reading a node adds it to \<open>B\<close>, so that the code's own text shows which nodes it
  may mark.
\<close>

section \<open>The rule system\<close>

definition storable_keys :: "tree_node \<Rightarrow> bool" where
  "storable_keys n \<longleftrightarrow> (\<forall>k \<in> set (bn_keys n). key_storable k) \<and> (\<forall>k. bn_high_key n = Some k \<longrightarrow> key_storable k)"

definition nodes_storable :: "BPlusTree \<Rightarrow> bool" where
  "nodes_storable t \<longleftrightarrow> (\<forall>n \<in> set (bt_nodes t). storable_keys n)"

definition marks_ok :: "nat set \<Rightarrow> BPlusTree \<Rightarrow> bool" where
  "marks_ok B t \<longleftrightarrow> nodes_storable t \<and> (\<forall>r \<in> set (bt_dirty t) \<union> B. r < length (bt_nodes t))"

definition safe_run :: "nat set \<Rightarrow> (tree_state, 'a) effect \<Rightarrow> ('a \<Rightarrow> bool) \<Rightarrow> bool" where
  "safe_run B m Q \<longleftrightarrow> (\<forall>t lg x t' lg'. marks_ok B t \<longrightarrow> m (t, lg) = (Inr x, t', lg') \<longrightarrow> marks_ok B t' \<and> Q x)"

lemma safe_runD: "safe_run B m Q \<Longrightarrow> marks_ok B t \<Longrightarrow> m (t, lg) = (Inr x, t', lg') \<Longrightarrow> marks_ok B t' \<and> Q x"
  unfolding safe_run_def by blast

lemma marks_mono: "marks_ok B t \<Longrightarrow> A \<subseteq> B \<Longrightarrow> marks_ok A t"
  by (auto simp: marks_ok_def)

lemma marks_insert [simp]: "marks_ok (insert r B) t \<longleftrightarrow> marks_ok B t \<and> r < length (bt_nodes t)"
  by (auto simp: marks_ok_def)

lemma safe_run_bind: "safe_run B m P \<Longrightarrow> (\<And>x. P x \<Longrightarrow> safe_run B (f x) Q) \<Longrightarrow> safe_run B (sbind m f) Q"
proof -
  assume m: "safe_run B m P" and f: "\<And>x. P x \<Longrightarrow> safe_run B (f x) Q"
  show ?thesis unfolding safe_run_def
  proof (intro allI impI)
    fix t lg x t' lg' assume a: "marks_ok B t" "sbind m f (t, lg) = (Inr x, t', lg')"
    then obtain y t1 lg1 where y: "m (t, lg) = (Inr y, t1, lg1)" "f y (t1, lg1) = (Inr x, t', lg')" by (auto simp: sbind_eq_Inr)
    from safe_runD [OF m a(1) y(1)] safe_runD [OF f _ y(2)] show "marks_ok B t' \<and> Q x" by blast
  qed
qed

lemma safe_get:
  assumes "\<And>n. storable_keys n \<Longrightarrow> safe_run (insert r B) (f n) Q"
  shows "safe_run B (sbind (get_node r) f) Q"
  unfolding safe_run_def
proof (intro allI impI)
  fix t lg x t' lg' assume a: "marks_ok B t" "sbind (get_node r) f (t, lg) = (Inr x, t', lg')"
  then have r: "r < length (bt_nodes t)" "f (bt_nodes t ! r) (t, lg) = (Inr x, t', lg')"
    by (auto simp: sbind_eq_Inr get_node_def split: if_splits)
  then have "storable_keys (bt_nodes t ! r)" using a(1) by (auto simp: marks_ok_def nodes_storable_def)
  from safe_runD [OF assms [OF this] _ r(2)] a(1) r(1) show "marks_ok B t' \<and> Q x" by simp
qed

lemma safe_make:
  assumes "storable_keys n" "\<And>r. safe_run (insert r B) (f r) Q"
  shows "safe_run B (sbind (make_node n) f) Q"
  unfolding safe_run_def
proof (intro allI impI)
  fix t lg x t' lg' assume a: "marks_ok B t" "sbind (make_node n) f (t, lg) = (Inr x, t', lg')"
  let ?t = "t\<lparr>bt_nodes := bt_nodes t @ [n]\<rparr>"
  have "f (length (bt_nodes t)) (?t, lg) = (Inr x, t', lg')" using a(2) by (simp add: sbind_def make_node_def)
  moreover have "marks_ok (insert (length (bt_nodes t)) B) ?t"
    using a(1) assms(1) by (auto simp: marks_ok_def nodes_storable_def less_SucI)
  ultimately show "marks_ok B t' \<and> Q x" using safe_runD [OF assms(2) [of "length (bt_nodes t)"], of "t\<lparr>bt_nodes := bt_nodes t @ [n]\<rparr>"] by (metis marks_insert)
qed

lemma safe_slift: "(\<And>x. r = Inr x \<Longrightarrow> safe_run B (f x) Q) \<Longrightarrow> safe_run B (sbind (slift r) f) Q"
  by (cases r) (simp_all add: safe_run_def)

lemma safe_run_prims:
  "Q x \<Longrightarrow> safe_run B (sreturn x) Q" "safe_run B (sthrow e) Q" "(\<And>x. r = Inr x \<Longrightarrow> Q x) \<Longrightarrow> safe_run B (slift r) Q"
  "(\<And>s. Q (g s)) \<Longrightarrow> safe_run B (sget g) Q"
  by (simp_all add: safe_run_def method_prims)

lemma storable_upd: "\<forall>n \<in> set ns. storable_keys n \<Longrightarrow> storable_keys m \<Longrightarrow> \<forall>n \<in> set (ns[r := m]). storable_keys n"
  using set_update_subset_insert [of ns r m] by auto

lemma safe_tree:
  "storable_keys n \<Longrightarrow> Q () \<Longrightarrow> safe_run B (set_node r n) Q"
  "r \<in> B \<Longrightarrow> Q () \<Longrightarrow> safe_run B (markDirty r) Q"
  "Q () \<Longrightarrow> safe_run B DirtyScope Q"
  "Q () \<Longrightarrow> safe_run B (BPlusTree_swapRoot p) Q"
  by (auto simp: safe_run_def set_node_def markDirty_def DirtyScope_def BPlusTree_swapRoot_def smodify_def marks_ok_def nodes_storable_def
      split: if_splits dest: storable_upd)

lemma safe_deref: "(\<And>r. p = Some r \<Longrightarrow> Q r) \<Longrightarrow> safe_run B (deref p) Q"
  by (auto simp: safe_run_def deref_def sreturn_def sthrow_def split: option.splits)

lemma safe_branch:
  "(b \<Longrightarrow> safe_run B m Q) \<Longrightarrow> (\<not> b \<Longrightarrow> safe_run B m' Q) \<Longrightarrow> safe_run B (if b then m else m') Q"
  "(\<And>y z. x = (y, z) \<Longrightarrow> safe_run B (f y z) Q) \<Longrightarrow> safe_run B (case x of (y, z) \<Rightarrow> f y z) Q"
  "(opt = None \<Longrightarrow> safe_run B m Q) \<Longrightarrow> (\<And>y. opt = Some y \<Longrightarrow> safe_run B (g y) Q) \<Longrightarrow> safe_run B (case opt of None \<Rightarrow> m | Some y \<Rightarrow> g y) Q"
  by (auto split: prod.splits option.splits)

text \<open>Code that only reads the tree.\<close>

definition reads_tree :: "(tree_state, 'a) effect \<Rightarrow> bool" where
  "reads_tree m \<longleftrightarrow> (\<forall>s. fst (snd (m s)) = fst s)"

lemma safe_read: "reads_tree m \<Longrightarrow> (\<And>x. safe_run B (f x) Q) \<Longrightarrow> safe_run B (sbind m f) Q"
  unfolding safe_run_def reads_tree_def by (simp add: sbind_eq_Inr) (metis fst_conv snd_conv)

lemma safe_reads: "reads_tree m \<Longrightarrow> (\<And>x. Q x) \<Longrightarrow> safe_run B m Q"
  unfolding safe_run_def reads_tree_def by (metis fst_conv snd_conv)

lemma reads_keeps: "keeps fst m \<Longrightarrow> reads_tree m"
  by (simp add: keeps_def reads_tree_def)

lemma keeps_tree [keeps_rules]: "keeps fst (get_node r)" "keeps fst num_nodes" "keeps fst BPlusTree_snapshotRoot" "keeps fst (deref p)"
  by (auto simp: keeps_def get_node_def num_nodes_def BPlusTree_snapshotRoot_def deref_def method_prims split: prod.splits option.splits)

lemma keeps_moveRight_from [keeps_rules]: "keeps fst (moveRight_from n key r)"
  by (induction n arbitrary: r) (auto intro!: keeps_rules)

lemma keeps_moveRight [keeps_rules]: "keeps fst (BPlusTree_moveRight key r)"
  unfolding BPlusTree_moveRight_def by (intro keeps_rules)

lemma keeps_descend_from [keeps_rules]: "keeps fst (descend_from n key visited r)"
  by (induction n arbitrary: visited r) (auto intro!: keeps_rules)

lemma keeps_descend [keeps_rules]: "keeps fst (descend key r)"
  unfolding descend_def by (intro keeps_rules)

lemma keeps_live_hint [keeps_rules]: "keeps fst (live_hint hints)"
  by (induction hints) (auto intro!: keeps_rules)

lemma keeps_relink [keeps_rules]: "keeps fst (relink_from n b r)"
  by (induction n arbitrary: r) (auto intro!: keeps_rules)

lemma keeps_find [keeps_rules]: "keeps fst (BPlusTree_findAncestorForRelink r)" "keeps fst (BPlusTree_getParent r)"
  unfolding BPlusTree_findAncestorForRelink_def BPlusTree_getParent_def by (intro keeps_rules)+

lemmas safe_readers = safe_read [OF reads_keeps [OF keeps_live_hint]] safe_read [OF reads_keeps [OF keeps_tree(2)]]
  safe_read [OF reads_keeps [OF keeps_tree(3)]] safe_read [OF reads_keeps [OF keeps_find(1)]] safe_read [OF reads_keeps [OF keeps_find(2)]]
  safe_read [OF reads_keeps [OF keeps_moveRight]] safe_read [OF reads_keeps [OF keeps_descend]] safe_reads [OF reads_keeps [OF keeps_find(2)]]

section \<open>Insertion and update\<close>

lemma storable_simps [simp]:
  "storable_keys (n\<lparr>bn_parent := p\<rparr>) = storable_keys n" "storable_keys (n\<lparr>bn_right_link := r\<rparr>) = storable_keys n"
  "storable_keys (BPlusTreeNode_new b)"
  by (simp_all add: storable_keys_def BPlusTreeNode_new_def)

lemma storable_splitLeaf: "BPlusTreeNode_splitLeafNode r n = Inr (sk, new, left) \<Longrightarrow> storable_keys n \<Longrightarrow>
    key_storable sk \<and> storable_keys (new\<lparr>bn_high_key := bn_high_key n\<rparr>) \<and> storable_keys (left\<lparr>bn_high_key := Some sk\<rparr>)"
  by (auto simp: BPlusTreeNode_splitLeafNode_def Let_def result_simps vec_from_def vec_at_def storable_keys_def
      split: if_splits dest!: in_set_takeD in_set_dropD intro: nth_mem)

lemma storable_splitInternal: "BPlusTreeNode_splitInternalNode n = Inr (sk, new, left) \<Longrightarrow> storable_keys n \<Longrightarrow>
    key_storable sk \<and> storable_keys new \<and> storable_keys left"
  by (auto simp: BPlusTreeNode_splitInternalNode_def Let_def result_simps vec_from_def vec_at_def storable_keys_def BPlusTreeNode_new_def
      split: if_splits dest!: in_set_takeD in_set_dropD intro: nth_mem)

lemma storable_leaf:
  "BPlusTreeNode_insertInLeaf key p s n = Inr n' \<Longrightarrow> storable_keys n \<Longrightarrow> key_storable key \<Longrightarrow> storable_keys n'"
  "BPlusTreeNode_updateInLeaf key p s n = Inr (b, n') \<Longrightarrow> storable_keys n \<Longrightarrow> storable_keys n'"
  by (auto simp: BPlusTreeNode_insertInLeaf_def BPlusTreeNode_updateInLeaf_def result_simps vec_insert_def storable_keys_def
      split: if_splits option.splits dest!: in_set_takeD in_set_dropD)

lemma vec_insert_set: "vec_insert xs i x = Inr ys \<Longrightarrow> set ys \<subseteq> insert x (set xs)"
  by (auto simp: vec_insert_def split: if_splits dest: in_set_takeD in_set_dropD)

lemma safe_upd: "(\<And>n. storable_keys n \<Longrightarrow> storable_keys (f n)) \<Longrightarrow> Q () \<Longrightarrow> safe_run B (upd_node r f) Q"
  unfolding upd_node_def by (rule safe_get) (simp add: safe_tree)

lemma safe_setParent: "Q () \<Longrightarrow> safe_run B (BPlusTree_setParent c p) Q"
  unfolding BPlusTree_setParent_def by (intro safe_branch safe_run_prims safe_upd) simp_all

lemma safe_for: "(\<And>x. safe_run B (f x) (\<lambda>_. True)) \<Longrightarrow> safe_run B (sfor f xs) (\<lambda>_. True)"
  by (induction xs) (auto intro: safe_run_prims safe_run_bind)

lemma safe_insert_child:
  assumes "key_storable key"
  shows "safe_run B (insert_child p key c) (\<lambda>_. True)"
  unfolding insert_child_def
  by (intro safe_get safe_slift safe_tree) (use assms in \<open>auto simp: storable_keys_def dest!: vec_insert_set\<close>)

lemma safe_chain: "safe_run B (chain_prefix n l r) (\<lambda>(cs, ks, found). \<forall>k \<in> set ks. key_storable k)"
proof (induction n arbitrary: r B)
  case (Suc n)
  have "safe_run B (sbind (chain_prefix n l nx) (\<lambda>(cs, ks, found). sreturn (leaf # cs, hk # ks, found))) (\<lambda>(cs, ks, found). \<forall>k \<in> set ks. key_storable k)"
    if "key_storable hk" for nx leaf hk B
    by (rule safe_run_bind [OF Suc.IH]) (use that in \<open>auto simp: safe_run_prims(1)\<close>)
  then show ?case
    by (auto intro!: safe_branch safe_run_prims safe_get split: option.splits simp: storable_keys_def)
qed (simp add: safe_run_prims)

lemma safe_find_parent:
  assumes "key_storable sk"
  shows "safe_run B (find_parent hints l r sk) (\<lambda>_. True)"
proof -
  have [simp]: "storable_keys ((BPlusTreeNode_new False)\<lparr>bn_keys := ks, bn_children := cs\<rparr>) = (\<forall>k \<in> set ks. key_storable k)" for ks cs
    by (simp add: storable_keys_def BPlusTreeNode_new_def)
  show ?thesis unfolding find_parent_def
    by (rule safe_make safe_get safe_readers safe_run_bind [OF safe_chain] safe_branch safe_run_prims
        safe_run_bind [where P = "\<lambda>_. True"] safe_tree safe_for safe_setParent safe_deref | intro keeps_rules | simp add: assms | clarsimp)+
qed

lemmas safe_text = safe_make safe_get safe_slift safe_readers safe_branch safe_run_prims safe_tree safe_setParent safe_upd safe_deref

lemmas safe_True = safe_run_bind [where P = "\<lambda>_. True"]

lemma vec_at_storable: "vec_at (bn_keys n) i = Inr k \<Longrightarrow> storable_keys n \<Longrightarrow> key_storable k"
  by (auto simp: vec_at_def storable_keys_def split: if_splits)

lemma safe_link_left:
  assumes "key_storable nav" "key_storable sk"
  shows "safe_run B (link_left p l nav sk) (\<lambda>_. True)"
  unfolding link_left_def
  by (rule safe_insert_child safe_text safe_True | simp add: assms)+

lemma safe_split_parent: "safe_run B (split_parent p) (\<lambda>(k, new). key_storable k)"
proof -
  have "safe_run (insert p B) (case x of (push_up_key, new, left) \<Rightarrow>
      sbind (make_node new) (\<lambda>new_internal. sbind (set_node p left) (\<lambda>_.
      sbind (sfor (\<lambda>c. BPlusTree_setParent c new_internal) (bn_children new)) (\<lambda>_.
      sbind (upd_node new_internal (\<lambda>m. m\<lparr>bn_right_link := bn_right_link n, bn_high_key := bn_high_key n\<rparr>)) (\<lambda>_.
      sbind (upd_node p (\<lambda>m. m\<lparr>bn_right_link := Some new_internal, bn_high_key := Some push_up_key\<rparr>)) (\<lambda>_.
      sbind (markDirty new_internal) (\<lambda>_. sreturn (push_up_key, new_internal)))))))) (\<lambda>(k, new). key_storable k)"
    if "storable_keys n" "BPlusTreeNode_splitInternalNode n = Inr x" for n x
  proof -
    obtain k new left where x: "x = (k, new, left)" by (cases x)
    note st = storable_splitInternal [OF that(2) [unfolded x] that(1)]
    show ?thesis unfolding x
      by (rule safe_for safe_text safe_True | simp add: st | use st that(1) in \<open>simp add: storable_keys_def\<close>)+
  qed
  then show ?thesis unfolding split_parent_def by (intro safe_get safe_slift) auto
qed

lemma safe_propagate: "key_storable sk \<Longrightarrow> safe_run B (propagate_from n hints l r sk) (\<lambda>_. True)"
proof (induction n arbitrary: hints l r sk B)
  case (Suc n)
  show ?case
    unfolding propagate_from.simps link_right_def sbind_assoc
    by (rule safe_run_bind [OF safe_find_parent] safe_run_bind [OF safe_insert_child] safe_run_bind [OF safe_link_left] safe_run_bind [OF safe_split_parent]
        safe_insert_child safe_text safe_True Suc | simp add: Suc.prems | erule (1) vec_at_storable | clarsimp)+
qed (simp add: safe_run_prims)

lemma safe_split_leaf: "safe_run B (split_leaf r) (\<lambda>(k, new). key_storable k)"
proof -
  have "safe_run (insert r B) (case x of (sk, new, left) \<Rightarrow>
      sbind (make_node (new\<lparr>bn_high_key := bn_high_key n\<rparr>)) (\<lambda>new_leaf.
      sbind (set_node r (left\<lparr>bn_high_key := Some sk\<rparr>)) (\<lambda>_. sbind (markDirty new_leaf) (\<lambda>_. sreturn (sk, new_leaf))))) (\<lambda>(k, new). key_storable k)"
    if "storable_keys n" "BPlusTreeNode_splitLeafNode q n = Inr x" for n x q
  proof -
    obtain k new left where x: "x = (k, new, left)" by (cases x)
    note st = storable_splitLeaf [OF that(2) [unfolded x] that(1)]
    show ?thesis unfolding x prod.case by (rule safe_text safe_True | simp add: st)+
  qed
  then show ?thesis unfolding split_leaf_def by (intro safe_get safe_slift safe_readers) auto
qed

lemma safe_insert_mem:
  assumes "key_storable key"
  shows "safe_run {} (BPlusTree_insert_mem key p s) (\<lambda>_. True)"
  unfolding BPlusTree_insert_mem_def ensure_root_def insert_below_def BPlusTree_propagateSplit_def
  by (rule safe_run_bind [OF safe_split_leaf] safe_propagate safe_text safe_True | simp | clarsimp | erule (1) storable_leaf(1) [OF _ _ assms])+

lemma safe_update_mem: "safe_run {} (BPlusTree_update_mem key p s) (\<lambda>_. True)"
  unfolding BPlusTree_update_mem_def update_below_def
  by (rule safe_text safe_True | simp | clarsimp | erule (1) storable_leaf)+

section \<open>Saving\<close>

lemma same_shape_storable: "same_shape t t' \<Longrightarrow> nodes_storable t \<Longrightarrow> nodes_storable t'"
  unfolding nodes_storable_def same_shape_def storable_keys_def
  by (metis core_fields in_set_conv_nth)

lemma storable_serialize: "storable_keys n \<Longrightarrow> throws_only (BPlusTreeNode_serialize ids n)"
  by (simp add: serialize_image storable_keys_def too_large_def)

lemma storable_saveNode:
  assumes "storable_keys n"
  shows "throws_only (fst (IndexManager_saveNode ids n txn s))"
proof -
  have "storable_keys (n\<lparr>bn_lsn := l\<rparr>)" for l using assms by (simp add: storable_keys_def)
  then have "throws_only (BPlusTreeNode_serialize ids (n\<lparr>bn_lsn := l\<rparr>))" for l by (rule storable_serialize)
  moreover have "throws_only (IndexManager_readExistingBytes i bs)" for i bs by (simp add: IndexManager_readExistingBytes_def Let_def)
  ultimately show ?thesis using storable_serialize [OF assms, of ids]
    by (cases s) (auto simp: IndexManager_saveNode_def sbind_def method_prims log_index_page_def Let_def throws_only_def split: prod.splits sum.splits)
qed

lemma save_one_throws:
  assumes "nodes_storable t" "r < length (bt_nodes t)" "bt_im t \<noteq> None"
  shows "throws_only (fst (save_one txn r (t, lg)))"
proof -
  obtain im where im: "bt_im t = Some im" using assms(3) by auto
  have "storable_keys (bt_nodes t ! r)" using assms(1,2) by (simp add: nodes_storable_def)
  then have "throws_only (fst (IndexManager_saveNode (node_ids (bt_nodes t)) (bt_nodes t ! r) txn (im, lg)))" by (rule storable_saveNode)
  then show ?thesis using assms(2) im
    by (auto simp: save_one_def on_index_def sbind_def method_prims set_node_def throws_only_def split: prod.splits sum.splits)
qed

lemma assign_runs: "r < length (bt_nodes t) \<Longrightarrow> bt_im t \<noteq> None \<Longrightarrow> fst (assign_id r (t, lg)) = Inr ()"
  by (auto simp: assign_id_def on_index_def IndexManager_allocateNodeID_def method_prims sbind_def set_node_def)

lemma for_nodes:
  assumes "\<And>r t lg. nodes_storable t \<Longrightarrow> r < length (bt_nodes t) \<Longrightarrow> bt_im t \<noteq> None \<Longrightarrow> throws_only (fst (f r (t, lg)))"
    and "\<And>r. keeps_shape (f r)" "nodes_storable t" "\<forall>r \<in> set rs. r < length (bt_nodes t)" "bt_im t \<noteq> None"
  shows "throws_only (fst (sfor f rs (t, lg)))"
  using assms(3-5)
proof (induction rs arbitrary: t lg)
  case (Cons r rs)
  obtain res t1 lg1 where f: "f r (t, lg) = (res, t1, lg1)" by (rule prod_cases3)
  note sh = keeps_shapeD [OF assms(2) f]
  show ?case
  proof (cases res)
    case (Inl e)
    then show ?thesis using assms(1) [OF Cons.prems(1) _ Cons.prems(3), of r lg] Cons.prems(2) f by (simp add: sbind_cases(2))
  next
    case (Inr u)
    have "throws_only (fst (sfor f rs (t1, lg1)))"
      using Cons.IH [OF same_shape_storable [OF sh Cons.prems(1)], of lg1] Cons.prems(2,3) sh by (auto simp: same_shape_def)
    then show ?thesis using f Inr by (simp add: sbind_cases(1))
  qed
qed (simp add: sreturn_def)

text \<open>Saving throws nothing but the exceptions the code names.\<close>

lemma saveDirty_throws:
  assumes "marks_ok {} t" "tree_rel ty t ps"
  shows "throws_only (fst (BPlusTree_saveDirty txn (t, lg)))"
proof (cases "bt_im t = None")
  case True
  then show ?thesis by (simp add: saveDirty_memory)
next
  case False
  have d: "nodes_storable t" "\<forall>r \<in> set (bt_dirty t). r < length (bt_nodes t)" using assms(1) by (simp_all add: marks_ok_def)
  obtain tm w where lg: "lg = (tm, w)" by (cases lg)
  obtain x tm1 w1 where st: "(if txn = 0 then TransactionManager_begin tm w else (txn, tm, w)) = (x, tm1, w1)" by (rule prod_cases3)
  obtain ra ta la where a: "sfor assign_id (bt_dirty t) (t, tm1, w1) = (ra, ta, la)" by (rule prod_cases3)
  note sa = keeps_shapeD [OF keeps_shape_for [OF keeps_shape_assign] a]
  obtain rb t' lb where b: "sfor (save_one x) (bt_dirty t) (ta, la) = (rb, t', lb)" by (rule prod_cases3)
  note sb = keeps_shapeD [OF keeps_shape_for [OF keeps_shape_save] b]
  have ok: "throws_only ra" "throws_only rb"
    using for_nodes [where f = assign_id, OF _ keeps_shape_assign d False, of "(tm1, w1)"] a assign_runs
      for_nodes [where f = "save_one x", OF save_one_throws keeps_shape_save same_shape_storable [OF sa d(1)], of "bt_dirty t" la] b d(2) sa False
    by (auto simp: same_shape_def throws_only_def)
  have root: "\<exists>i. (case bt_root t' of None \<Rightarrow> sreturn (-1) | Some r \<Rightarrow> sbind (get_node r) (\<lambda>n. sreturn (bn_node_id n))) (t', lb) = (Inr i, t', lb)"
    using same_shape_rel [OF same_shape_trans [OF sa sb] assms(2)]
    by (cases rule: tree_relE) (auto simp: sreturn_def tree_ok_def dest: wf_top)
  obtain im where im: "bt_im t' = Some im" using sa sb False by (auto simp: same_shape_def)
  have set_root: "throws_only (fst (IndexManager_setRootNodeID i x (im, lb)))" for i
    by (auto simp: IndexManager_setRootNodeID_def method_prims Let_def log_index_page_def sbind_def throws_only_def split: prod.splits sum.splits if_splits)
  have throws_set: "throws_only (fst (sbind (on_index (IndexManager_setRootNodeID i x)) (\<lambda>_. smodify h) (t', lb)))" for i and h :: "tree_state \<Rightarrow> tree_state"
    using set_root [of i] im by (auto simp: sbind_def on_index_def smodify_def throws_only_def split: prod.splits sum.splits)
  have "BPlusTree_saveDirty txn (t, lg) = sbind (sfor assign_id (bt_dirty t)) (\<lambda>_. sbind (sfor (save_one x) (bt_dirty t)) (\<lambda>_.
      sbind BPlusTree_snapshotRoot (\<lambda>root.
      sbind (case root of None \<Rightarrow> sreturn (-1) | Some r \<Rightarrow> sbind (get_node r) (\<lambda>n. sreturn (bn_node_id n))) (\<lambda>root_id.
      sbind (on_index (IndexManager_setRootNodeID root_id x)) (\<lambda>_.
      smodify (\<lambda>(t, tm, w). if txn = 0 then (t, TransactionManager_commit tm w x) else (t, tm, w))))))) (t, tm1, w1)"
    using st False by (auto simp: BPlusTree_saveDirty_def lg Let_def sbind_def [of "\<lambda>(t, tm, w). P t tm w" for P] split: if_splits)
  then show ?thesis
    using ok root throws_set a b by (cases ra; cases rb) (auto simp: sbind_cases)
qed

section \<open>Insertion and update as a whole\<close>

lemma mem_dirty:
  "BPlusTree_insert_mem key p s (t\<lparr>bt_dirty := []\<rparr>, lg) = BPlusTree_insert_mem key p s (t, lg)"
  "BPlusTree_update_mem key p s (t\<lparr>bt_dirty := []\<rparr>, lg) = BPlusTree_update_mem key p s (t, lg)"
  by (simp_all add: BPlusTree_insert_mem_def BPlusTree_update_mem_def DirtyScope_def)

lemma marks_start: "nodes_storable t \<Longrightarrow> marks_ok {} (t\<lparr>bt_dirty := []\<rparr>)"
  by (simp add: marks_ok_def nodes_storable_def)

lemma insert_throws:
  assumes "tree_rel ty t ps" "index_key ty key" "lookup_pair key ps = None" "nodes_storable t" "key_storable key"
    and "BPlusTree_insert key p s txn (t, lg) = (res, t', lg')"
  shows "throws_only res" "nodes_storable t'"
proof -
  obtain t1 where t1: "BPlusTree_insert_mem key p s (t, lg) = (Inr (), t1, lg)" "tree_rel ty t1 (insert_pair key (RID p s) ps)"
    by (rule insert_mem_ok [OF assms(1-3)])
  then have m: "marks_ok {} t1"
    using safe_runD [OF safe_insert_mem [OF assms(5)] marks_start [OF assms(4)]] by (simp add: mem_dirty)
  have save: "BPlusTree_saveDirty txn (t1, lg) = (res, t', lg')" using t1(1) assms(6) by (simp add: BPlusTree_insert_def sbind_cases(1))
  show "throws_only res" using saveDirty_throws [OF m t1(2), of txn lg] save by simp
  show "nodes_storable t'" using same_shape_storable [OF keeps_shapeD [OF keeps_shape_saveDirty save]] m by (simp add: marks_ok_def)
qed

lemma update_throws:
  assumes "tree_rel ty t ps" "index_key ty key" "nodes_storable t" "BPlusTree_update key p s txn (t, lg) = (res, t', lg')"
  shows "throws_only res" "nodes_storable t'"
proof -
  obtain t1 where t1: "BPlusTree_update_mem key p s (t, lg) = (Inr (lookup_pair key ps \<noteq> None), t1, lg)" "tree_rel ty t1 (update_pair key (RID p s) ps)"
    by (rule update_mem_ok [OF assms(1,2)])
  then have m: "marks_ok {} t1"
    using safe_runD [OF safe_update_mem marks_start [OF assms(3)]] by (simp add: mem_dirty)
  obtain r2 t2 lg2 where save: "BPlusTree_saveDirty txn (t1, lg) = (r2, t2, lg2)" by (rule prod_cases3)
  have "throws_only r2" "nodes_storable t2"
    using saveDirty_throws [OF m t1(2), of txn lg] save same_shape_storable [OF keeps_shapeD [OF keeps_shape_saveDirty save]] m
    by (simp_all add: marks_ok_def)
  moreover have "throws_only res \<and> nodes_storable t' \<longleftrightarrow> (if lookup_pair key ps = None then nodes_storable t1 else throws_only r2 \<and> nodes_storable t2)"
    using t1(1) assms(4) save by (cases r2) (auto simp: BPlusTree_update_def sbind_cases sreturn_def split: if_splits)
  ultimately show "throws_only res" "nodes_storable t'" using m by (auto simp: marks_ok_def split: if_splits)
qed

end
