(* ===== verification/Table_Versions.thy ===== *)
theory Table_Versions
  imports Tables Log_Effects Tree_Safety
begin

text \<open>
  What a table holds: for every key the chain of its row versions, newest first.

  \<open>table_rel tb vs\<close> relates a table to the chains \<open>vs\<close>: the index maps a key to the head of its chain, \<open>prev_version\<close> links each version to the next
  one of the chain, every version is in the heap, and no version is in two places; the keys of the index fit their length fields. Every operation of \<open>table.cpp\<close> is described by what it does to the
  chains, and the theorems on snapshots at the level of rows follow from that and the visibility rule.
\<close>

section \<open>Chains of versions\<close>

type_synonym versions = "string \<Rightarrow> (RID \<times> Record) list"

fun back_linked :: "(RID \<times> Record) list \<Rightarrow> bool" where
  "back_linked [] = True"
| "back_linked [(rid, r)] = (\<not> Record_hasPrevVersion r)"
| "back_linked ((rid, r) # (rid', r') # vs) = (Record_hasPrevVersion r \<and> rec_prev_version r = rid' \<and> back_linked ((rid', r') # vs))"

definition stored :: "(RID \<Rightarrow> (bool \<times> byte list) option) \<Rightarrow> (RID \<times> Record) list \<Rightarrow> bool" where
  "stored heap vs \<longleftrightarrow> (\<forall>(rid, r) \<in> set vs. heap rid = Some (True, Record_bytes r) \<and> Record_fits r)"

definition apart :: "versions \<Rightarrow> bool" where
  "apart vs \<longleftrightarrow> (\<forall>k. distinct (map fst (vs k))) \<and> (\<forall>k k'. k \<noteq> k' \<longrightarrow> fst ` set (vs k) \<inter> fst ` set (vs k') = {})"

definition heads :: "(Key \<times> RID) list \<Rightarrow> versions \<Rightarrow> bool" where
  "heads ps vs \<longleftrightarrow> (\<forall>x \<in> set ps. \<exists>k. fst x = KString k)
     \<and> (\<forall>k. lookup_pair (KString k) ps = (case vs k of [] \<Rightarrow> None | v # _ \<Rightarrow> Some (fst v)))"

abbreviation table_heap :: "Table \<Rightarrow> RID \<Rightarrow> (bool \<times> byte list) option" where
  "table_heap tb \<equiv> heap_of (pool_view (tab_pool tb))"

definition table_rel :: "Table \<Rightarrow> versions \<Rightarrow> bool" where
  "table_rel tb vs \<longleftrightarrow> pool_ok (tab_pool tb) \<and> quiet (tab_pool tb) \<and> nodes_storable (tab_index tb)
     \<and> (\<exists>ps. tree_rel STRING (tab_index tb) ps \<and> heads ps vs)
     \<and> (\<forall>k. back_linked (vs k) \<and> stored (table_heap tb) (vs k)) \<and> apart vs"

text \<open>What a reader of snapshot \<open>snap\<close> sees of a chain: the first version that is visible.\<close>

definition seen :: "MVCCManager \<Rightarrow> u64 \<Rightarrow> Snapshot \<Rightarrow> (RID \<times> Record) list \<Rightarrow> Record option" where
  "seen mv reader snap vs = find (\<lambda>r. MVCCManager_isVisible mv (rec_create_txn_id r) (rec_delete_txn_id r) reader snap) (map snd vs)"

lemma index_key_string [simp]: "index_key STRING (KString k)"
  by (simp add: index_key_def)

lemma back_linked_Cons: "back_linked ((rid, r) # vs) \<longleftrightarrow> back_linked vs \<and>
    (case vs of [] \<Rightarrow> \<not> Record_hasPrevVersion r | v # _ \<Rightarrow> Record_hasPrevVersion r \<and> rec_prev_version r = fst v)"
  by (cases vs) auto

lemma back_linked_stamp: "back_linked ((rid, r) # vs) \<Longrightarrow> back_linked ((rid, r\<lparr>rec_delete_txn_id := t\<rparr>) # vs)"
  by (cases vs) (auto simp: back_linked_Cons Record_hasPrevVersion_def)

lemma stored_simps [simp]:
  "stored h []" "stored h ((rid, r) # vs) \<longleftrightarrow> h rid = Some (True, Record_bytes r) \<and> Record_fits r \<and> stored h vs"
  by (auto simp: stored_def)

lemma stored_fresh: "stored h vs \<Longrightarrow> rid \<notin> fst ` set vs \<Longrightarrow> stored (h(rid \<mapsto> x)) vs"
  by (force simp: stored_def)

lemma stored_None: "stored h vs \<Longrightarrow> h rid = None \<Longrightarrow> rid \<notin> fst ` set vs"
  by (force simp: stored_def)

lemma stored_grow: "stored h vs \<Longrightarrow> h rid = None \<Longrightarrow> stored (h(rid \<mapsto> x)) vs"
  by (rule stored_fresh [OF _ stored_None])

section \<open>How far a chain reaches\<close>

lemma Page_abs_bound: "page_wf p \<Longrightarrow> length (Page_abs p) \<le> PAGE_SIZE"
proof -
  assume wf: "page_wf p"
  show ?thesis using page_wf_bounds(3,4) [OF wf] unfolding length_Page_abs [OF wf] PAGE_SIZE_def by linarith
qed

lemma heap_bounds:
  assumes "pool_ok bp" "heap_of (pool_view bp) rid = Some x"
  shows "0 \<le> rid_page_id rid" "rid_page_id rid < bp_next_page_id bp" "0 \<le> rid_slot_id rid" "rid_slot_id rid < int PAGE_SIZE"
proof -
  obtain p where p: "pool_view bp (rid_page_id rid) = Some p" "0 \<le> rid_slot_id rid" "nat (rid_slot_id rid) < length (Page_abs p)"
    by (rule heap_ofD [OF assms(2)])
  show b: "0 \<le> rid_page_id rid" "rid_page_id rid < bp_next_page_id bp"
    using view_Some_iff [OF assms(1), of "rid_page_id rid"] p(1) by auto
  have "page_wf p" using view_in [OF assms(1) b] p(1) by auto
  then show "0 \<le> rid_slot_id rid" "rid_slot_id rid < int PAGE_SIZE" using p Page_abs_bound [of p] by auto
qed

lemma chain_bound:
  assumes "pool_ok bp" "stored (heap_of (pool_view bp)) vs" "distinct (map fst vs)"
  shows "length vs \<le> nat (bp_next_page_id bp) * PAGE_SIZE"
proof -
  let ?box = "{0..<bp_next_page_id bp} \<times> {0..<int PAGE_SIZE}"
  have "fst ` set vs \<subseteq> (\<lambda>(p, q). RID p q) ` ?box"
  proof
    fix rid assume "rid \<in> fst ` set vs"
    then obtain r where "heap_of (pool_view bp) rid = Some (True, Record_bytes r)" using assms(2) by (auto simp: stored_def)
    from heap_bounds [OF assms(1) this] show "rid \<in> (\<lambda>(p, q). RID p q) ` ?box"
      by (intro image_eqI [of _ _ "(rid_page_id rid, rid_slot_id rid)"]) auto
  qed
  then have "card (fst ` set vs) \<le> card ?box"
    by (meson card_image_le card_mono finite_SigmaI finite_atLeastLessThan_int finite_imageI le_trans)
  moreover have "card (fst ` set vs) = length vs" using assms(3) distinct_card by fastforce
  ultimately show ?thesis by (simp add: card_cartesian_product)
qed

lemma heap_rid_ok:
  assumes "pool_ok bp" "heap_of (pool_view bp) rid = Some x"
  shows "wf_rid rid" "rid_page_id rid \<ge> 0" "rid \<noteq> no_rid"
  using heap_bounds [OF assms] assms(1)
  by (auto simp: wf_rid_def int32_def pool_ok_def MAX_PAGES_def page_consts no_rid_def)

section \<open>Steps that leave transactions alone\<close>

definition same_txns :: "MVCCManager \<Rightarrow> MVCCManager \<Rightarrow> bool" where
  "same_txns mv mv' \<longleftrightarrow> mv_transactions mv' = mv_transactions mv \<and> tm_next_txn_id (mv_txns mv') = tm_next_txn_id (mv_txns mv)"

lemma same_txns_refl [simp]: "same_txns mv mv"
  by (simp add: same_txns_def)

lemma same_txns_trans [trans]: "same_txns a b \<Longrightarrow> same_txns b c \<Longrightarrow> same_txns a c"
  by (simp add: same_txns_def)

lemma with_log_fields [simp]:
  "mv_txns (with_log mv lg) = fst lg" "mv_wal (with_log mv lg) = snd lg" "mv_transactions (with_log mv lg) = mv_transactions mv"
  "mv_lock_manager (with_log mv lg) = mv_lock_manager mv" "with_log mv (mv_log mv) = mv" "mv_log (with_log mv lg) = lg"
  by (simp_all add: with_log_def mv_log_def)

lemma same_txns_log: "tm_next_txn_id (fst lg) = tm_next_txn_id (mv_txns mv) \<Longrightarrow> same_txns mv (with_log mv lg)"
  by (simp add: same_txns_def)

lemma same_txns_state: "same_txns mv mv' \<Longrightarrow> MVCCManager_stateOfLocked mv' t = MVCCManager_stateOfLocked mv t"
  by (simp add: same_txns_def MVCCManager_stateOfLocked_def)

lemma same_txns_active: "same_txns mv mv' \<Longrightarrow> MVCCManager_activeIds mv' = MVCCManager_activeIds mv"
  by (simp add: same_txns_def MVCCManager_activeIds_def)

lemma same_txns_snapshot: "same_txns mv mv' \<Longrightarrow> MVCCManager_getSnapshot mv' r = MVCCManager_getSnapshot mv r"
  by (simp add: same_txns_def MVCCManager_getSnapshot_def MVCCManager_snapshotLocked_def TransactionManager_peekNextTxnId_def
      MVCCManager_activeIds_def)

lemma same_txns_visible: "same_txns mv mv' \<Longrightarrow> MVCCManager_isVisible mv' = MVCCManager_isVisible mv"
  by (intro ext) (simp add: MVCCManager_isVisible_def same_txns_state)

lemma same_txns_seen: "same_txns mv mv' \<Longrightarrow> seen mv' = seen mv"
  by (intro ext) (simp add: seen_def same_txns_visible)

lemma same_txns_reader: "same_txns mv mv' \<Longrightarrow> reader_inv r snap mv \<Longrightarrow> reader_inv r snap mv'"
  by (simp add: reader_inv_def mvcc_inv_def snap_ok_def same_txns_state same_txns_snapshot) (simp add: same_txns_def)

text \<open>The table after a step that only reads: the same index, heap and transactions.\<close>

definition calm :: "table_state \<Rightarrow> table_state \<Rightarrow> bool" where
  "calm s s' \<longleftrightarrow> (case (s, s') of ((tb, mv), (tb', mv')) \<Rightarrow>
     tab_index tb' = tab_index tb \<and> tab_schema tb' = tab_schema tb \<and> tab_name tb' = tab_name tb
     \<and> pool_ok (tab_pool tb') \<and> quiet (tab_pool tb') \<and> table_heap tb' = table_heap tb
     \<and> bp_next_page_id (tab_pool tb') = bp_next_page_id (tab_pool tb)
     \<and> same_txns mv mv' \<and> mv_lock_manager mv' = mv_lock_manager mv)"

lemma calm_trans: "calm a b \<Longrightarrow> calm b c \<Longrightarrow> calm a c"
  by (auto simp: calm_def same_txns_def split: prod.splits)

lemma calm_refl: "pool_ok (tab_pool tb) \<Longrightarrow> quiet (tab_pool tb) \<Longrightarrow> calm (tb, mv) (tb, mv)"
  by (simp add: calm_def)

lemma calm_rel: "calm (tb, mv) (tb', mv') \<Longrightarrow> table_rel tb vs \<Longrightarrow> table_rel tb' vs"
  by (auto simp: calm_def table_rel_def)

section \<open>Reading versions\<close>

lemma on_heap_read:
  assumes "pool_ok (tab_pool tb)" "quiet (tab_pool tb)" "table_heap tb rid = Some (True, Record_bytes r)" "Record_fits r"
  obtains tb' mv' where "on_heap (RecordManager_readRecord PageManager_ops rid) (tb, mv) = (Inr r, tb', mv')" "calm (tb, mv) (tb', mv')"
proof -
  obtain bp lg where r: "RecordManager_readRecord PageManager_ops rid (tab_pool tb, mv_log mv) = (Inr r, bp, lg)"
     "store_inv (bp, lg)" "pool_view bp = pool_view (tab_pool tb)" "bp_next_page_id bp = bp_next_page_id (tab_pool tb)"
    using ps.readRecord [of "(tab_pool tb, mv_log mv)" rid r] assms by (auto simp: store_inv_def)
  have "tm_next_txn_id (fst lg) = tm_next_txn_id (mv_txns mv)"
    using keepsD [OF keeps_records(2) r(1)] by (simp add: mv_log_def)
  then show thesis
    using r by (intro that) (auto simp: on_heap_def calm_def same_txns_log store_inv_def)
qed

lemma visible_from_seen:
  assumes "pool_ok (tab_pool tb)" "quiet (tab_pool tb)" "stored (table_heap tb) ((rid, r) # vs)" "back_linked ((rid, r) # vs)" "length vs < fuel"
  shows "\<exists>s'. visible_from fuel rid t snap (tb, mv) = (Inr (seen mv t snap ((rid, r) # vs)), s') \<and> calm (tb, mv) s'"
  using assms
proof (induction vs arbitrary: rid r fuel tb mv)
  case Nil
  then obtain n where n: "fuel = Suc n" by (cases fuel) auto
  obtain tb' mv' where r: "on_heap (RecordManager_readRecord PageManager_ops rid) (tb, mv) = (Inr r, tb', mv')" "calm (tb, mv) (tb', mv')"
    by (rule on_heap_read [OF Nil(1,2)]) (use Nil in auto)
  then have "MVCCManager_isVisible mv' = MVCCManager_isVisible mv" by (intro same_txns_visible) (simp add: calm_def)
  then show ?case using r Nil(4) by (auto simp: n sbind_cases(1) seen_def method_prims)
next
  case (Cons v vs)
  then obtain n where n: "fuel = Suc n" "length vs < n" by (cases fuel) auto
  obtain rid' r' where v: "v = (rid', r')" by (cases v)
  obtain tb' mv' where r: "on_heap (RecordManager_readRecord PageManager_ops rid) (tb, mv) = (Inr r, tb', mv')" "calm (tb, mv) (tb', mv')"
    by (rule on_heap_read [OF Cons.prems(1,2)]) (use Cons.prems(3) in auto)
  then have vis: "MVCCManager_isVisible mv' = MVCCManager_isVisible mv" and sn: "seen mv' = seen mv"
    by (auto simp: calm_def intro: same_txns_visible same_txns_seen)
  have c: "pool_ok (tab_pool tb')" "quiet (tab_pool tb')" "table_heap tb' = table_heap tb" using r(2) by (auto simp: calm_def)
  obtain s' where s': "visible_from n rid' t snap (tb', mv') = (Inr (seen mv' t snap ((rid', r') # vs)), s')" "calm (tb', mv') s'"
    using Cons.IH [of tb' rid' r' n mv'] c Cons.prems(3,4) n(2) by (auto simp: v)
  show ?case
    using r s' Cons.prems(4) calm_trans [OF r(2) s'(2)] vis sn by (cases s') (auto simp: n v sbind_cases(1) seen_def method_prims)
qed

lemma findVisible_seen:
  assumes "table_rel tb vs" "vs k = (rid, r) # rest"
  shows "\<exists>s'. Table_findVisibleVersion rid t snap (tb, mv) = (Inr (seen mv t snap (vs k)), s') \<and> calm (tb, mv) s'"
proof -
  have c: "pool_ok (tab_pool tb)" "quiet (tab_pool tb)" "stored (table_heap tb) (vs k)" "back_linked (vs k)" "distinct (map fst (vs k))"
    using assms(1) by (simp_all add: table_rel_def apart_def)
  have "length rest < Suc (nat (bp_next_page_id (tab_pool tb)) * PAGE_SIZE)"
    using chain_bound [OF c(1,3,5)] assms(2) by simp
  then show ?thesis
    using visible_from_seen [OF c(1,2), of rid r rest _ t snap mv] c(3,4) assms(2)
    by (simp add: Table_findVisibleVersion_def del: visible_from.simps)
qed

section \<open>Reading rows\<close>

lemma tree_rel_ordered: "tree_rel ty t ps \<Longrightarrow> ordered ps"
  by (erule tree_relE) (auto simp: ordered_def tree_ok_def dest: ordered_pairs)

lemma on_tree_search:
  assumes "table_rel tb vs"
  shows "on_tree (BPlusTree_search (KString k)) (tb, mv) = (Inr (case vs k of [] \<Rightarrow> None | v # _ \<Rightarrow> Some (fst v)), tb, mv)"
  using assms by (auto simp: table_rel_def heads_def on_tree_def search_lookup)

lemma getByKey_seen:
  assumes "table_rel tb vs" "MVCCManager_getSnapshot mv t = Inr snap"
  shows "\<exists>s'. Table_getByKey k t (tb, mv) = (Inr (seen mv t snap (vs k)), s') \<and> calm (tb, mv) s'"
proof (cases "vs k")
  case Nil
  then show ?thesis using assms(1)
    by (auto simp: Table_getByKey_def sbind_cases(1) on_tree_search [OF assms(1)] seen_def sreturn_def table_rel_def intro: calm_refl)
next
  case (Cons v rest)
  obtain rid r where v: "v = (rid, r)" by (cases v)
  have "sbind (get_snapshot t) f (tb, mv) = f snap (tb, mv)" for f :: "_ \<Rightarrow> (table_state, Record option) effect"
    using assms(2) by (simp add: sbind_def get_snapshot_def)
  then show ?thesis
    using findVisible_seen [OF assms(1) Cons [unfolded v], of t snap mv] Cons v
    by (auto simp: Table_getByKey_def sbind_cases(1) on_tree_search [OF assms(1)])
qed

text \<open>The rows of a scan: what the reader sees of each key of the index, in the order of the index.\<close>

fun key_string :: "Key \<Rightarrow> string" where
  "key_string (KString s) = s"
| "key_string _ = []"

fun rows_of :: "(string \<Rightarrow> Record option) \<Rightarrow> (Key \<times> RID) list \<Rightarrow> (Key \<times> Record) list" where
  "rows_of see [] = []"
| "rows_of see ((k, rid) # ps) = (case see (key_string k) of None \<Rightarrow> rows_of see ps | Some r \<Rightarrow> (k, r) # rows_of see ps)"

lemma scan_pairs_rows:
  assumes "table_rel tb vs" "\<forall>(k, rid) \<in> set ps. \<exists>r rest. vs (key_string k) = (rid, r) # rest"
  shows "\<exists>s'. scan_pairs ps t snap (tb, mv) = (Inr (rows_of (\<lambda>k. seen mv t snap (vs k)) ps), s') \<and> calm (tb, mv) s'"
  using assms
proof (induction ps arbitrary: tb mv)
  case Nil
  then show ?case by (auto simp: sreturn_def table_rel_def intro: calm_refl)
next
  case (Cons x ps)
  obtain k rid where x: "x = (k, rid)" by (cases x)
  obtain r rest where v: "vs (key_string k) = (rid, r) # rest" using Cons.prems(2) by (auto simp: x)
  obtain tb1 mv1 where s1: "Table_findVisibleVersion rid t snap (tb, mv) = (Inr (seen mv t snap (vs (key_string k))), tb1, mv1)" "calm (tb, mv) (tb1, mv1)"
    using findVisible_seen [OF Cons.prems(1) v, of t snap mv] by auto
  have sn: "seen mv1 = seen mv" using s1(2) by (auto simp: calm_def intro: same_txns_seen)
  obtain s2 where s2: "scan_pairs ps t snap (tb1, mv1) = (Inr (rows_of (\<lambda>k. seen mv1 t snap (vs k)) ps), s2)" "calm (tb1, mv1) s2"
    using Cons.IH [OF calm_rel [OF s1(2) Cons.prems(1)], of mv1] Cons.prems(2) by auto
  show ?case
    using calm_trans [OF s1(2) s2(2)] by (cases s2) (auto simp: x sbind_cases(1) s1(1) s2(1) sn sreturn_def split: option.splits)
qed

definition all_rows :: "(string \<Rightarrow> 'a option) \<Rightarrow> (Key \<times> 'a) list \<Rightarrow> bool" where
  "all_rows see rows \<longleftrightarrow> sorted_wrt (<) (map (\<lambda>x. rank (fst x)) rows) \<and> set rows = {(KString k, r) | k r. see k = Some r}"

lemma all_rows_unique: "all_rows see rows \<Longrightarrow> all_rows see rows' \<Longrightarrow> rows = rows'"
proof -
  assume a: "all_rows see rows" "all_rows see rows'"
  then have "sorted (map (\<lambda>x. rank (fst x)) rows)" "distinct (map (\<lambda>x. rank (fst x)) rows)"
    "sorted (map (\<lambda>x. rank (fst x)) rows')" "distinct (map (\<lambda>x. rank (fst x)) rows')" "set rows = set rows'"
    by (auto simp: all_rows_def strict_sorted_iff)
  then show ?thesis by (intro map_sorted_distinct_set_unique [of "\<lambda>x. rank (fst x)"]) (simp_all add: distinct_map)
qed

lemma set_rows_of: "set (rows_of see ps) = {(k, r). (\<exists>rid. (k, rid) \<in> set ps) \<and> see (key_string k) = Some r}"
  by (induction see ps rule: rows_of.induct) (auto split: option.splits)

lemma rows_of_sorted: "sorted_wrt (<) (map (\<lambda>x. rank (fst x)) ps) \<Longrightarrow> sorted_wrt (<) (map (\<lambda>x. rank (fst x)) (rows_of see ps))"
  by (induction see ps rule: rows_of.induct) (auto simp: set_rows_of split: option.splits)

lemma heads_entry:
  assumes "heads ps vs" "ordered ps" "(k, rid) \<in> set ps"
  obtains s r rest where "k = KString s" "vs s = (rid, r) # rest"
proof -
  obtain s where s: "k = KString s" using assms(1,3) by (force simp: heads_def)
  have "lookup_pair k ps = Some rid"
    using assms(2,3) by (induction ps) (force simp: ordered_def)+
  then show thesis using assms(1) that s by (auto simp: heads_def split: list.splits)
qed

lemma heads_exists: "heads ps vs \<Longrightarrow> vs k \<noteq> [] \<Longrightarrow> \<exists>rid. (KString k, rid) \<in> set ps"
proof -
  assume a: "heads ps vs" "vs k \<noteq> []"
  then have "lookup_pair (KString k) ps \<noteq> None" by (auto simp: heads_def split: list.splits)
  then obtain k' rid where "(k', rid) \<in> set ps" "rank k' = rank (KString k)" by (auto simp: lookup_none)
  moreover then have "k' = KString k" using a(1) by (force simp: heads_def)
  ultimately show ?thesis by blast
qed

lemma scanAll_rows:
  assumes "table_rel tb vs" "MVCCManager_getSnapshot mv t = Inr snap"
  shows "\<exists>rows s'. Table_scanAll t (tb, mv) = (Inr rows, s') \<and> calm (tb, mv) s' \<and> all_rows (\<lambda>k. seen mv t snap (vs k)) rows"
proof -
  let ?see = "\<lambda>k. seen mv t snap (vs k)"
  obtain ps where ps: "tree_rel STRING (tab_index tb) ps" "heads ps vs" using assms(1) by (auto simp: table_rel_def)
  note ord = tree_rel_ordered [OF ps(1)]
  have entry: "\<forall>(k, rid) \<in> set ps. \<exists>r rest. vs (key_string k) = (rid, r) # rest"
  proof clarify
    fix k rid assume "(k, rid) \<in> set ps"
    then show "\<exists>r rest. vs (key_string k) = (rid, r) # rest" by (rule heads_entry [OF ps(2) ord]) simp
  qed
  obtain s' where s': "scan_pairs ps t snap (tb, mv) = (Inr (rows_of ?see ps), s')" "calm (tb, mv) s'"
    using scan_pairs_rows [OF assms(1) entry, of t snap mv] by blast
  have "on_tree BPlusTree_getAllKeyRIDPairs (tb, mv) = (Inr ps, tb, mv)" by (simp add: on_tree_def getAll_pairs [OF ps(1)])
  moreover have "get_snapshot t (tb, mv) = (Inr snap, tb, mv)" using assms(2) by (simp add: get_snapshot_def)
  ultimately have "Table_scanAll t (tb, mv) = (Inr (rows_of ?see ps), s')"
    using s'(1) by (simp add: Table_scanAll_def sbind_cases(1))
  moreover have "set (rows_of ?see ps) = {(KString k, r) | k r. ?see k = Some r}"
  proof -
    have "vs k \<noteq> []" if "?see k = Some r" for k r using that by (auto simp: seen_def)
    then have "(KString k, r) \<in> set (rows_of ?see ps)" if "?see k = Some r" for k r
      using that heads_exists [OF ps(2)] by (auto simp: set_rows_of)
    moreover have "\<exists>s. k = KString s \<and> ?see s = Some r" if kr: "(k, r) \<in> set (rows_of ?see ps)" for k r
    proof -
      obtain rid where "(k, rid) \<in> set ps" "?see (key_string k) = Some r" using kr by (auto simp: set_rows_of)
      then show ?thesis by - (rule heads_entry [OF ps(2) ord], assumption, simp)
    qed
    ultimately show ?thesis by auto
  qed
  ultimately show ?thesis using s'(2) rows_of_sorted [of ps ?see] ord by (auto simp: all_rows_def ordered_def)
qed

end
