(* ===== verification/Table_Writes.thy ===== *)
theory Table_Writes
  imports Table_Versions
begin

text \<open>
  What the writing operations of a table do to the version chains, on every way out: success, a lock that cannot be had, a record that does not
  fit a page, and a failure to save the index.
\<close>

section \<open>Changing one chain\<close>

text \<open>The part of \<open>table_rel\<close> that concerns the heap.\<close>

definition chains_ok :: "(RID \<Rightarrow> (bool \<times> byte list) option) \<Rightarrow> versions \<Rightarrow> bool" where
  "chains_ok h vs \<longleftrightarrow> (\<forall>k. back_linked (vs k) \<and> stored h (vs k)) \<and> apart vs"

lemma table_rel_chains: "table_rel tb vs \<longleftrightarrow> pool_ok (tab_pool tb) \<and> quiet (tab_pool tb) \<and> nodes_storable (tab_index tb)
    \<and> (\<exists>ps. tree_rel STRING (tab_index tb) ps \<and> heads ps vs) \<and> chains_ok (table_heap tb) vs"
  by (auto simp: table_rel_def chains_ok_def)

lemma apart_change:
  assumes "apart vs" "distinct (map fst c)" "\<And>k'. k' \<noteq> k \<Longrightarrow> fst ` set c \<inter> fst ` set (vs k') = {}"
  shows "apart (vs(k := c))"
  unfolding apart_def
proof (intro conjI allI impI)
  fix a show "distinct (map fst ((vs(k := c)) a))" using assms(1,2) by (simp add: apart_def)
next
  fix a b :: string assume "a \<noteq> b"
  then show "fst ` set ((vs(k := c)) a) \<inter> fst ` set ((vs(k := c)) b) = {}"
    using assms(1,3) by (auto simp: apart_def simp del: disjoint_iff)
qed

lemma rel_heap:
  assumes "table_rel tb vs" "pool_ok (tab_pool tb')" "quiet (tab_pool tb')" "tab_index tb' = tab_index tb"
    and "table_heap tb' = table_heap tb \<or> (\<exists>rid x. table_heap tb rid = None \<and> table_heap tb' = (table_heap tb)(rid \<mapsto> x))"
  shows "table_rel tb' vs"
proof -
  have "stored (table_heap tb') (vs k)" for k
  proof -
    have "stored (table_heap tb) (vs k)" using assms(1) by (simp add: table_rel_def)
    then show ?thesis using assms(5) stored_grow by metis
  qed
  then show ?thesis using assms by (auto simp: table_rel_def)
qed

lemma set_update_pair: "fst ` set (update_pair k rid ps) = fst ` set ps"
  by (induction k rid ps rule: update_pair.induct) simp_all

lemma heads_insert: "heads ps vs \<Longrightarrow> vs k = [] \<Longrightarrow> heads (insert_pair (KString k) rid ps) (vs(k := (rid, r) # c))"
  using arg_cong [OF mset_insert_pair [of "KString k" rid ps], of set_mset] by (auto simp: heads_def lookup_insert_pair)

lemma heads_update:
  assumes "heads ps vs" "vs k \<noteq> []"
  shows "heads (update_pair (KString k) rid ps) (vs(k := (rid, r) # c))"
proof -
  have "\<exists>k'. fst x = KString k'" if "x \<in> set (update_pair (KString k) rid ps)" for x
  proof -
    have "fst x \<in> fst ` set ps" using that set_update_pair [of "KString k" rid ps] by blast
    then show ?thesis using assms(1) by (force simp: heads_def)
  qed
  then show ?thesis using assms by (auto simp: heads_def lookup_update_pair split: list.splits)
qed

lemma heads_stamp: "heads ps vs \<Longrightarrow> vs k = (rid, r) # c \<Longrightarrow> heads ps (vs(k := (rid, r') # c))"
  by (auto simp: heads_def)

section \<open>The effect of each operation on the chains\<close>

definition stamp_head :: "u64 \<Rightarrow> (RID \<times> Record) list \<Rightarrow> (RID \<times> Record) list" where
  "stamp_head t c = (case c of [] \<Rightarrow> [] | (rid, r) # rest \<Rightarrow> (rid, r\<lparr>rec_delete_txn_id := t\<rparr>) # rest)"

definition live :: "(RID \<times> Record) list \<Rightarrow> bool" where
  "live c \<longleftrightarrow> (case c of [] \<Rightarrow> False | (rid, r) # rest \<Rightarrow> rec_delete_txn_id r = 0)"

definition add_version :: "string list \<Rightarrow> u64 \<Rightarrow> RID \<Rightarrow> (RID \<times> Record) list \<Rightarrow> (RID \<times> Record) list" where
  "add_version values t rid c = (rid, Record_new values t (case c of [] \<Rightarrow> no_rid | v # _ \<Rightarrow> fst v)) # c"

text \<open>\<open>insert\<close> chains the new version to a deleted one, and to nothing when the newest version is live.\<close>

definition inserted :: "string list \<Rightarrow> u64 \<Rightarrow> RID \<Rightarrow> versions \<Rightarrow> versions" where
  "inserted values t rid vs = vs(hd values := add_version values t rid (if live (vs (hd values)) then [] else vs (hd values)))"

definition updated :: "string \<Rightarrow> string list \<Rightarrow> u64 \<Rightarrow> RID \<Rightarrow> versions \<Rightarrow> versions" where
  "updated k values t rid vs = vs(k := add_version values t rid (stamp_head t (vs k)))"

definition deleted :: "string \<Rightarrow> u64 \<Rightarrow> versions \<Rightarrow> versions" where
  "deleted k t vs = vs(k := stamp_head t (vs k))"

lemma small_fits:
  assumes "Record_size r \<le> MAX_RECORD" "wf_rid (rec_prev_version r)"
  shows "Record_fits r"
proof -
  have "sum_list (map (\<lambda>f. 4 + length f) (rec_fields r)) \<le> 4096" using assms(1) by (simp add: Record_size_def MAX_RECORD_def page_consts)
  moreover have "length fs \<le> sum_list (map (\<lambda>f. 4 + length f) fs)" for fs :: "string list" by (induction fs) auto
  moreover have "length f \<le> sum_list (map (\<lambda>f. 4 + length f) fs)" if "f \<in> set fs" for f :: string and fs using that by (induction fs) auto
  ultimately have "length (rec_fields r) \<le> 4096" "\<forall>f \<in> set (rec_fields r). length f \<le> 4096" using le_trans by blast+
  then show ?thesis using assms(2) by (auto simp: Record_fits_def)
qed

lemma small_key: "values \<noteq> [] \<Longrightarrow> Record_size (Record_new values t p) \<le> MAX_RECORD \<Longrightarrow> key_storable (KString (hd values))"
  by (cases "values") (simp_all add: Record_size_def Record_new_def MAX_RECORD_def page_consts)

lemma chains_stamp:
  assumes "chains_ok h vs" "vs k = (rid, r) # rest"
  shows "chains_ok (h(rid \<mapsto> (True, Record_bytes (r\<lparr>rec_delete_txn_id := t\<rparr>)))) (deleted k t vs)"
proof -
  let ?h = "h(rid \<mapsto> (True, Record_bytes (r\<lparr>rec_delete_txn_id := t\<rparr>)))" and ?c = "(rid, r\<lparr>rec_delete_txn_id := t\<rparr>) # rest"
  have ap: "apart vs" and st: "back_linked (vs a)" "stored h (vs a)" for a using assms(1) by (simp_all add: chains_ok_def)
  have ids: "map fst ?c = map fst (vs k)" "fst ` set ?c = fst ` set (vs k)" by (simp_all add: assms(2))
  have c: "stored ?h ?c" "back_linked ?c"
    using st [of k] ap assms(2) by (auto simp: apart_def Record_fits_def back_linked_stamp intro: stored_fresh dest!: spec [of _ k])
  have other: "stored ?h (vs a)" if "a \<noteq> k" for a
  proof -
    have "rid \<notin> fst ` set (vs a)" using ap that assms(2) unfolding apart_def by (metis disjoint_iff fst_conv image_eqI list.set_intros(1))
    then show ?thesis by (intro stored_fresh st)
  qed
  have "apart (vs(k := ?c))"
    using ap unfolding ids by (intro apart_change) (simp_all add: ids apart_def del: list.map set_simps)
  then show ?thesis using st c other by (simp add: chains_ok_def deleted_def stamp_head_def assms(2))
qed

lemma chains_add:
  assumes "chains_ok h vs" "h rid = None" "c = [] \<or> c = vs k" "\<And>i x. h i = Some x \<Longrightarrow> wf_rid i \<and> 0 \<le> rid_page_id i"
    and new: "r = Record_new values t (case c of [] \<Rightarrow> no_rid | v # _ \<Rightarrow> fst v)" "Record_size r \<le> MAX_RECORD"
  shows "chains_ok (h(rid \<mapsto> (True, Record_bytes r))) (vs(k := add_version values t rid c))"
proof -
  let ?h = "h(rid \<mapsto> (True, Record_bytes r))"
  have ap: "apart vs" and st: "back_linked (vs a)" "stored h (vs a)" for a using assms(1) by (simp_all add: chains_ok_def)
  have c: "back_linked c" "stored h c" "distinct (map fst c)" using assms(3) st ap by (auto simp: apart_def)
  have hd: "wf_rid (fst v) \<and> 0 \<le> rid_page_id (fst v)" if "v \<in> set c" for v
    using c(2) that assms(4) by (cases v) (auto simp: stored_def)
  have fresh: "rid \<notin> fst ` set (vs a)" for a by (rule stored_None [OF st(2) assms(2)])
  have fc: "rid \<notin> fst ` set c" by (rule stored_None [OF c(2) assms(2)])
  have "wf_rid (rec_prev_version r)" using hd by (cases c) (auto simp: new(1) Record_new_def)
  then have fit: "Record_fits r" by (rule small_fits [OF new(2)])
  have "back_linked ((rid, r) # c)"
    using c(1) hd by (cases c) (auto simp: back_linked_Cons new(1) Record_new_def Record_hasPrevVersion_def no_rid_def)
  moreover have "stored ?h ((rid, r) # c)" using fit c(2) fc by (simp add: stored_fresh)
  moreover have "stored ?h (vs a)" for a by (rule stored_fresh [OF st(2) fresh])
  moreover have "apart (vs(k := (rid, r) # c))"
  proof (rule apart_change [OF ap])
    fix k' assume "k' \<noteq> k"
    then have "fst ` set c \<inter> fst ` set (vs k') = {}" using assms(3) ap unfolding apart_def by (metis Int_empty_left image_empty list.set(1))
    then show "fst ` set ((rid, r) # c) \<inter> fst ` set (vs k') = {}" using fresh [of k'] by simp
  qed (use c(3) fc in simp)
  ultimately show ?thesis using st by (simp add: chains_ok_def add_version_def new(1))
qed

section \<open>Locks\<close>

lemma acquire_throws: "LockManager_acquireIter lm rid t = (Throws e, lm') \<Longrightarrow> is_exception e"
  by (auto simp: LockManager_acquireIter_def Let_def split: if_splits option.splits)

lemma acquire_same:
  obtains res mv' where "acquireExclusive rid t (tb, mv) = (res, tb, mv')" "same_txns mv mv'" "throws_only res"
proof -
  obtain out lm where out: "LockManager_acquireIter (mv_lock_manager mv) rid t = (out, lm)" by (cases "LockManager_acquireIter (mv_lock_manager mv) rid t")
  have "\<exists>res mv'. acquireExclusive rid t (tb, mv) = (res, tb, mv') \<and> same_txns mv mv' \<and> throws_only res"
    using acquire_throws [of "mv_lock_manager mv" rid t] out by (cases out) (simp_all add: acquireExclusive_def MVCCManager_acquireExclusive_def out LockManager_timeout_def same_txns_def)
  then show thesis using that by blast
qed

section \<open>The heap\<close>

definition same_index :: "Table \<Rightarrow> Table \<Rightarrow> bool" where
  "same_index tb tb' \<longleftrightarrow> tab_index tb' = tab_index tb \<and> tab_schema tb' = tab_schema tb \<and> tab_name tb' = tab_name tb
     \<and> pool_ok (tab_pool tb') \<and> quiet (tab_pool tb') \<and> bp_next_page_id (tab_pool tb') \<le> bp_next_page_id (tab_pool tb) + 1"

text \<open>What every operation leaves of a table: its name and schema; its heap grows by one page at most.\<close>

definition kept :: "Table \<Rightarrow> Table \<Rightarrow> bool" where
  "kept tb tb' \<longleftrightarrow> tab_schema tb' = tab_schema tb \<and> tab_name tb' = tab_name tb \<and> bp_next_page_id (tab_pool tb') \<le> bp_next_page_id (tab_pool tb) + 1"

lemma kept_simps [simp]: "kept tb tb" "kept tb (tb'\<lparr>tab_index := tr\<rparr>) = kept tb tb'"
  by (simp_all add: kept_def)

lemma same_index_kept: "same_index tb tb' \<Longrightarrow> kept tb tb'"
  by (simp add: same_index_def kept_def)

lemma calm_kept: "calm (tb, mv) (tb', mv') \<Longrightarrow> kept tb' tb'' \<Longrightarrow> kept tb tb''"
  by (auto simp: calm_def kept_def)

lemma on_heap_same:
  assumes "m (tab_pool tb, mv_log mv) = (res, bp, lg)" "keeps txn_counter m" "store_inv (bp, lg)" "bp_next_page_id bp \<le> bp_next_page_id (tab_pool tb) + 1"
  shows "on_heap m (tb, mv) = (res, tb\<lparr>tab_pool := bp\<rparr>, with_log mv lg)" "same_txns mv (with_log mv lg)" "same_index tb (tb\<lparr>tab_pool := bp\<rparr>)"
  using assms(1,3,4) keepsD [OF assms(2,1)] by (simp_all add: on_heap_def same_txns_log same_index_def store_inv_def mv_log_def)

lemma on_heap_insert:
  assumes "table_rel tb vs" "bp_next_page_id (tab_pool tb) < MAX_PAGES" "t \<noteq> 0" "int_sized (rec_fields r)"
  obtains res tb' mv' where "on_heap (RecordManager_insertRecord PageManager_ops r t) (tb, mv) = (res, tb', mv')"
    "same_txns mv mv'" "same_index tb tb'"
    "case res of Inl e \<Rightarrow> is_exception e \<and> MAX_RECORD < Record_size r \<and> table_heap tb' = table_heap tb
     | Inr rid \<Rightarrow> Record_size r \<le> MAX_RECORD \<and> table_heap tb rid = None \<and> table_heap tb' = (table_heap tb)(rid \<mapsto> (True, Record_bytes r))"
proof (cases "Record_size r \<le> MAX_RECORD")
  case True
  obtain rid bp lg where i: "RecordManager_insertRecord PageManager_ops r t (tab_pool tb, mv_log mv) = (Inr rid, bp, lg)" "store_inv (bp, lg)"
      "table_heap tb rid = None" "heap_of (pool_view bp) = (table_heap tb)(rid \<mapsto> (True, Record_bytes r))" "bp_next_page_id bp \<le> bp_next_page_id (tab_pool tb) + 1"
    using ps.insertRecord [of "(tab_pool tb, mv_log mv)" r t] assms(1,2) True by (auto simp: table_rel_def store_inv_def)
  from on_heap_same [OF i(1) keeps_records(1) i(2,5)] assms(3) i(3,4) True show thesis by (intro that) auto
next
  case False
  obtain bp lg where i: "RecordManager_insertRecord PageManager_ops r t (tab_pool tb, mv_log mv) = (Inl (RuntimeError ''Record too large to fit in a page''), bp, lg)"
      "store_inv (bp, lg)" "heap_of (pool_view bp) = table_heap tb" "bp_next_page_id bp \<le> bp_next_page_id (tab_pool tb) + 1"
    using ps.insert_too_large [of "(tab_pool tb, mv_log mv)" r t] assms(1,2) assms(4) [unfolded int_sized_size] False by (auto simp: table_rel_def store_inv_def)
  from on_heap_same [OF i(1) keeps_records(1) i(2,4)] assms(3) i(3) False show thesis by (intro that) auto
qed

lemma on_heap_update:
  assumes "table_rel tb vs" "bp_next_page_id (tab_pool tb) < MAX_PAGES" "t \<noteq> 0" "vs k = (rid, r) # rest" "rec_delete_txn_id r = 0 \<Longrightarrow> int_sized fs"
  obtains res tb' mv' where "on_heap (RecordManager_updateRecord PageManager_ops rid fs t) (tb, mv) = (res, tb', mv')"
    "same_txns mv mv'" "same_index tb tb'"
    "if rec_delete_txn_id r \<noteq> 0 then res = Inr None \<and> table_heap tb' = table_heap tb
     else if Record_size (Record_new fs t rid) \<le> MAX_RECORD
     then \<exists>rid'. res = Inr (Some rid') \<and> table_heap tb rid' = None
            \<and> table_heap tb' = (table_heap tb)(rid \<mapsto> (True, Record_bytes (r\<lparr>rec_delete_txn_id := t\<rparr>)),
                                               rid' \<mapsto> (True, Record_bytes (Record_new fs t rid)))
     else res = Inl (RuntimeError ''Record too large to fit in a page'')
            \<and> table_heap tb' = (table_heap tb)(rid \<mapsto> (True, Record_bytes (r\<lparr>rec_delete_txn_id := t\<rparr>)))"
proof -
  have r: "pool_ok (tab_pool tb)" "quiet (tab_pool tb)" "stored (table_heap tb) (vs k)" using assms(1) by (simp_all add: table_rel_def)
  then have h: "table_heap tb rid = Some (True, Record_bytes r)" "Record_fits r" using assms(4) by simp_all
  obtain res bp lg where u: "RecordManager_updateRecord PageManager_ops rid fs t (tab_pool tb, mv_log mv) = (res, bp, lg)" "store_inv (bp, lg)" "bp_next_page_id bp \<le> bp_next_page_id (tab_pool tb) + 1"
    and cases: "if rec_delete_txn_id r \<noteq> 0 then res = Inr None \<and> heap_of (pool_view bp) = table_heap tb
     else if Record_size (Record_new fs t rid) \<le> MAX_RECORD
     then \<exists>rid'. res = Inr (Some rid') \<and> table_heap tb rid' = None
            \<and> heap_of (pool_view bp) = (table_heap tb)(rid \<mapsto> (True, Record_bytes (r\<lparr>rec_delete_txn_id := t\<rparr>)),
                                               rid' \<mapsto> (True, Record_bytes (Record_new fs t rid)))
     else res = Inl (RuntimeError ''Record too large to fit in a page'')
            \<and> heap_of (pool_view bp) = (table_heap tb)(rid \<mapsto> (True, Record_bytes (r\<lparr>rec_delete_txn_id := t\<rparr>)))"
    using ps.updateRecord_any [of "(tab_pool tb, mv_log mv)" rid r fs t, OF _ _ _ h(2) assms(5)] r(1,2) h(1) assms(2)
    by (metis fst_conv prod.collapse store_inv_def)
  show thesis by (rule that [OF on_heap_same [OF u(1) keeps_update_record [OF assms(3)] u(2,3)]]) (use cases in simp)
qed

lemma on_heap_mark:
  assumes "table_rel tb vs" "t \<noteq> 0" "vs k = (rid, r) # rest"
  obtains tb' mv' where "on_heap (RecordManager_markDeleted PageManager_ops rid t) (tb, mv) = (Inr (rec_delete_txn_id r = 0), tb', mv')"
    "same_txns mv mv'" "same_index tb tb'"
    "table_heap tb' = (if rec_delete_txn_id r = 0 then (table_heap tb)(rid \<mapsto> (True, Record_bytes (r\<lparr>rec_delete_txn_id := t\<rparr>))) else table_heap tb)"
proof -
  have r: "pool_ok (tab_pool tb)" "quiet (tab_pool tb)" "stored (table_heap tb) (vs k)" using assms(1) by (simp_all add: table_rel_def)
  then have h: "table_heap tb rid = Some (True, Record_bytes r)" "Record_fits r" using assms(3) by simp_all
  obtain bp lg where u: "RecordManager_markDeleted PageManager_ops rid t (tab_pool tb, mv_log mv) = (Inr (rec_delete_txn_id r = 0), bp, lg)" "store_inv (bp, lg)"
      "heap_of (pool_view bp) = (if rec_delete_txn_id r = 0 then (table_heap tb)(rid \<mapsto> (True, Record_bytes (r\<lparr>rec_delete_txn_id := t\<rparr>))) else table_heap tb)"
      "bp_next_page_id bp \<le> bp_next_page_id (tab_pool tb) + 1"
    using ps.markDeleted [of "(tab_pool tb, mv_log mv)" rid r t] r(1,2) h by (auto simp: store_inv_def)
  show thesis by (rule that [OF on_heap_same [OF u(1) keeps_records(3) [OF assms(2)] u(2,4)]]) (use u(3) in simp)
qed

section \<open>The index\<close>

lemma insert_counter:
  assumes "tree_rel ty t ps" "index_key ty key" "lookup_pair key ps = None" "txn \<noteq> 0" "BPlusTree_insert key p q txn (t, lg) = (res, t', lg')"
  shows "tm_next_txn_id (fst lg') = tm_next_txn_id (fst lg)"
proof -
  obtain t1 where "BPlusTree_insert_mem key p q (t, lg) = (Inr (), t1, lg)" by (rule insert_mem_ok [OF assms(1-3)])
  then have "BPlusTree_saveDirty txn (t1, lg) = (res, t', lg')" using assms(5) by (simp add: BPlusTree_insert_def sbind_cases(1))
  from keepsD [OF keeps_saveDirty [OF assms(4)] this] show ?thesis by simp
qed

lemma update_counter:
  assumes "tree_rel ty t ps" "index_key ty key" "txn \<noteq> 0" "BPlusTree_update key p q txn (t, lg) = (res, t', lg')"
  shows "tm_next_txn_id (fst lg') = tm_next_txn_id (fst lg)"
proof -
  obtain t1 where "BPlusTree_update_mem key p q (t, lg) = (Inr (lookup_pair key ps \<noteq> None), t1, lg)" by (rule update_mem_ok [OF assms(1,2)])
  then show ?thesis
    using assms(4) keepsD [OF keeps_saveDirty [OF assms(3)], of "(t1, lg)"]
    by (auto simp: BPlusTree_update_def sbind_def sreturn_def split: if_splits prod.splits sum.splits)
qed

lemma on_tree_insert:
  assumes "tree_rel STRING (tab_index tb) ps" "heads ps vs" "vs k = []" "t \<noteq> 0" "nodes_storable (tab_index tb)" "key_storable (KString k)"
  obtains res tr mv' where "on_tree (BPlusTree_insert (KString k) (rid_page_id rid) (rid_slot_id rid) t) (tb, mv) = (res, tb\<lparr>tab_index := tr\<rparr>, mv')"
    "same_txns mv mv'" "tree_rel STRING tr (insert_pair (KString k) rid ps)" "throws_only res" "nodes_storable tr"
proof -
  have none: "lookup_pair (KString k) ps = None" using assms(2,3) by (simp add: heads_def)
  obtain res tr lg where i: "BPlusTree_insert (KString k) (rid_page_id rid) (rid_slot_id rid) t (tab_index tb, mv_log mv) = (res, tr, lg)"
      "tree_rel STRING tr (insert_pair (KString k) (RID (rid_page_id rid) (rid_slot_id rid)) ps)"
    by (rule insert_rel [OF assms(1) index_key_string none])
  show thesis
    using i insert_counter [OF assms(1) index_key_string none assms(4) i(1)] insert_throws [OF assms(1) index_key_string none assms(5,6) i(1)]
    by (intro that [of res tr "with_log mv lg"]) (simp_all add: on_tree_def same_txns_log mv_log_def)
qed

lemma on_tree_update:
  assumes "tree_rel STRING (tab_index tb) ps" "t \<noteq> 0" "nodes_storable (tab_index tb)"
  obtains res tr mv' where "on_tree (BPlusTree_update (KString k) (rid_page_id rid) (rid_slot_id rid) t) (tb, mv) = (res, tb\<lparr>tab_index := tr\<rparr>, mv')"
    "same_txns mv mv'" "tree_rel STRING tr (update_pair (KString k) rid ps)" "throws_only res" "nodes_storable tr"
proof -
  obtain res tr lg where i: "BPlusTree_update (KString k) (rid_page_id rid) (rid_slot_id rid) t (tab_index tb, mv_log mv) = (res, tr, lg)"
      "tree_rel STRING tr (update_pair (KString k) (RID (rid_page_id rid) (rid_slot_id rid)) ps)"
    by (rule update_rel [OF assms(1) index_key_string])
  show thesis
    using i update_counter [OF assms(1) index_key_string assms(2) i(1)] update_throws [OF assms(1) index_key_string assms(3) i(1)]
    by (intro that [of res tr "with_log mv lg"]) (simp_all add: on_tree_def same_txns_log mv_log_def)
qed

section \<open>The guarded scopes\<close>

text \<open>How a scope leaves the transactions: unchanged, up to the commit of its own transaction at the end.\<close>

definition ends :: "u64 \<Rightarrow> bool \<Rightarrow> MVCCManager \<Rightarrow> ('a \<times> bool) result \<Rightarrow> MVCCManager \<Rightarrow> bool" where
  "ends t owns mv res mv' \<longleftrightarrow> (\<exists>mvw. same_txns mv mvw \<and> mv' = (if owns \<and> (\<exists>x. res = Inr (x, True)) then MVCCManager_commit mvw t else mvw))"

lemma ends_open: "same_txns mv mv' \<Longrightarrow> (\<And>x. res \<noteq> Inr (x, True)) \<Longrightarrow> ends t owns mv res mv'"
  by (auto simp: ends_def)

lemma ends_commit: "same_txns mv mvw \<Longrightarrow> ends t owns mv (Inr (x, True)) (if owns then MVCCManager_commit mvw t else mvw)"
  by (auto simp: ends_def)

lemma guard_commit_ok: "guard_commit t owns (tb, mv) = (Inr (), tb, if owns then MVCCManager_commit mv t else mv)"
  by (simp add: guard_commit_def Table_commitTxn_def smodify_def sreturn_def)

lemma table_rids: "pool_ok (tab_pool tb) \<Longrightarrow> table_heap tb i = Some x \<Longrightarrow> wf_rid i \<and> 0 \<le> rid_page_id i"
  using heap_rid_ok by blast

lemma rel_grow:
  assumes "table_rel tb vs" "same_index tb tb'" "table_heap tb rid = None" "table_heap tb' = (table_heap tb)(rid \<mapsto> x)"
  shows "table_rel tb' vs"
  by (rule rel_heap [OF assms(1)]) (use assms(2-4) in \<open>auto simp: same_index_def simp del: split_paired_Ex\<close>)

text \<open>The new version and the new index entry of \<open>insert\<close>.\<close>

lemma rel_inserted:
  assumes "table_rel tb vs" "same_index tb tb1" "table_heap tb rid = None" "c = (if live (vs (hd values)) then [] else vs (hd values))"
    and "table_heap tb1 = (table_heap tb)(rid \<mapsto> (True, Record_bytes r))" "r = Record_new values t (case c of [] \<Rightarrow> no_rid | v # _ \<Rightarrow> fst v)"
    and "Record_size r \<le> MAX_RECORD" "tree_rel STRING tr ps'" "nodes_storable tr" "heads ps' (inserted values t rid vs)"
  shows "table_rel (tb1\<lparr>tab_index := tr\<rparr>) (inserted values t rid vs)"
proof -
  have b: "pool_ok (tab_pool tb)" "chains_ok (table_heap tb) vs" using assms(1) by (simp_all add: table_rel_chains)
  have "chains_ok (table_heap tb1) (inserted values t rid vs)"
    unfolding inserted_def assms(4) [symmetric] assms(5)
    by (rule chains_add [OF b(2) assms(3) _ _ assms(6,7)]) (use assms(4) table_rids [OF b(1)] in auto)
  then show ?thesis using assms(2,8-10) by (auto simp: table_rel_chains same_index_def)
qed

lemma insert_new_scope:
  assumes rel: "table_rel tb vs" and "bp_next_page_id (tab_pool tb) < MAX_PAGES" "t \<noteq> 0" "values \<noteq> []" and sz: "int_sized values" and new: "vs (hd values) = []"
  obtains res tb' mv' vs' where "insert_scope values t owns (tb, mv) = (res, tb', mv')" "table_rel tb' vs'" "kept tb tb'" "throws_only res"
    "ends t owns mv res mv'" "vs' = vs \<or> (\<exists>rid. vs' = inserted values t rid vs)"
    "\<And>rid b. res = Inr (rid, b) \<Longrightarrow> b \<and> vs' = inserted values t rid vs"
proof -
  let ?k = "hd values" and ?r = "Record_new values t no_rid"
  obtain ps where ps: "tree_rel STRING (tab_index tb) ps" "heads ps vs" using rel by (auto simp: table_rel_def)
  have search: "on_tree (BPlusTree_search (KString ?k)) (tb, mv) = (Inr None, tb, mv)" using on_tree_search [OF rel, of ?k mv] new by simp
  obtain r1 tb1 mv1 where s1: "on_heap (RecordManager_insertRecord PageManager_ops ?r t) (tb, mv) = (r1, tb1, mv1)" "same_txns mv mv1" "same_index tb tb1"
    and h1: "case r1 of Inl e \<Rightarrow> is_exception e \<and> MAX_RECORD < Record_size ?r \<and> table_heap tb1 = table_heap tb
     | Inr rid \<Rightarrow> Record_size ?r \<le> MAX_RECORD \<and> table_heap tb rid = None \<and> table_heap tb1 = (table_heap tb)(rid \<mapsto> (True, Record_bytes ?r))"
    by (rule on_heap_insert [OF assms(1-3), of ?r]) (simp add: sz Record_new_def)
  have sch: "kept tb tb1" and idx: "tab_index tb1 = tab_index tb" using s1(3) by (simp_all add: same_index_kept same_index_def)
  show thesis
  proof (cases r1)
    case (Inl e)
    have "table_rel tb1 vs" using h1 s1(3) Inl by (intro rel_heap [OF rel]) (auto simp: same_index_def)
    moreover have "insert_scope values t owns (tb, mv) = (Inl e, tb1, mv1)"
      using Inl by (simp add: insert_scope_def Let_def sbind_cases search s1(1) sreturn_def)
    ultimately show thesis using that [of "Inl e" tb1 mv1 vs] sch s1(2) h1 Inl by (simp add: ends_open)
  next
    case (Inr rid)
    obtain r2 tr mv2 where s2: "on_tree (BPlusTree_insert (KString ?k) (rid_page_id rid) (rid_slot_id rid) t) (tb1, mv1) = (r2, tb1\<lparr>tab_index := tr\<rparr>, mv2)"
        "same_txns mv1 mv2" "tree_rel STRING tr (insert_pair (KString ?k) rid ps)" "throws_only r2" "nodes_storable tr"
    proof (rule on_tree_insert [of tb1 ps vs "hd values"])
      show "nodes_storable (tab_index tb1)" using rel idx by (simp add: table_rel_def)
      show "key_storable (KString (hd values))" using h1 Inr by (intro small_key [OF assms(4)]) auto
    qed (use ps idx new assms(3) in auto)
    have rel2: "table_rel (tb1\<lparr>tab_index := tr\<rparr>) (inserted values t rid vs)"
      by (rule rel_inserted [OF rel s1(3), where c = "[]" and r = "?r" and ps' = "insert_pair (KString ?k) rid ps"])
        (use h1 Inr new s2(3,5) heads_insert [OF ps(2) new] in \<open>auto simp: inserted_def add_version_def live_def\<close>)
    have same: "same_txns mv mv2" using same_txns_trans [OF s1(2) s2(2)] .
    show thesis
    proof (cases r2)
      case e: (Inl e)
      have eq: "insert_scope values t owns (tb, mv) = (Inl e, tb1\<lparr>tab_index := tr\<rparr>, mv2)"
        using Inr e by (simp add: insert_scope_def Let_def sbind_cases search s1(1) s2(1) sreturn_def)
      show thesis by (rule that [OF eq rel2]) (use sch same s2(4) e in \<open>auto intro: ends_open\<close>)
    next
      case u: (Inr u)
      have eq: "insert_scope values t owns (tb, mv) = (Inr (rid, True), tb1\<lparr>tab_index := tr\<rparr>, if owns then MVCCManager_commit mv2 t else mv2)"
        using Inr u by (simp add: insert_scope_def Let_def sbind_cases search s1(1) s2(1) sreturn_def guard_commit_ok)
      show thesis by (rule that [OF eq rel2 _ _ ends_commit [OF same]]) (use sch in auto)
    qed
  qed
qed

lemma insert_old_scope:
  assumes rel: "table_rel tb vs" and "bp_next_page_id (tab_pool tb) < MAX_PAGES" "t \<noteq> 0" and sz: "int_sized values" and old: "vs (hd values) = (rid0, r0) # rest"
  obtains res tb' mv' vs' where "insert_scope values t owns (tb, mv) = (res, tb', mv')" "table_rel tb' vs'" "kept tb tb'" "throws_only res"
    "ends t owns mv res mv'" "vs' = vs \<or> (\<exists>rid. vs' = inserted values t rid vs)"
    "\<And>rid b. res = Inr (rid, b) \<Longrightarrow> b \<and> vs' = inserted values t rid vs"
proof -
  let ?k = "hd values"
  let ?c = "if live (vs ?k) then [] else vs ?k"
  let ?r = "Record_new values t (if rec_delete_txn_id r0 \<noteq> 0 then rid0 else no_rid)"
  have r: "?r = Record_new values t (case ?c of [] \<Rightarrow> no_rid | v # _ \<Rightarrow> fst v)" using old by (simp add: live_def)
  have search: "on_tree (BPlusTree_search (KString ?k)) (tb, mv) = (Inr (Some rid0), tb, mv)" using on_tree_search [OF rel, of ?k mv] old by simp
  obtain ra mva where a: "acquireExclusive rid0 t (tb, mv) = (ra, tb, mva)" "same_txns mv mva" "throws_only ra" by (rule acquire_same)
  show thesis
  proof (cases ra)
    case (Inl e)
    have eq: "insert_scope values t owns (tb, mv) = (Inl e, tb, mva)" using Inl by (simp add: insert_scope_def Let_def sbind_cases search a(1))
    show thesis by (rule that [OF eq rel]) (use a(2,3) Inl in \<open>auto intro: ends_open\<close>)
  next
    case ra: (Inr u)
    have st: "pool_ok (tab_pool tb)" "quiet (tab_pool tb)" "stored (table_heap tb) (vs ?k)" using rel by (simp_all add: table_rel_def)
    obtain tb0 mv0 where s0: "on_heap (RecordManager_readRecord PageManager_ops rid0) (tb, mva) = (Inr r0, tb0, mv0)" "calm (tb, mva) (tb0, mv0)"
      by (rule on_heap_read [OF st(1,2)]) (use st(3) old in auto)
    note rel0 = calm_rel [OF s0(2) rel]
    have c0: "tab_schema tb0 = tab_schema tb" "tab_index tb0 = tab_index tb" "same_txns mva mv0" "bp_next_page_id (tab_pool tb0) < MAX_PAGES"
      using s0(2) assms(2) by (auto simp: calm_def)
    obtain r1 tb1 mv1 where s1: "on_heap (RecordManager_insertRecord PageManager_ops ?r t) (tb0, mv0) = (r1, tb1, mv1)" "same_txns mv0 mv1" "same_index tb0 tb1"
      and h1: "case r1 of Inl e \<Rightarrow> is_exception e \<and> MAX_RECORD < Record_size ?r \<and> table_heap tb1 = table_heap tb0
       | Inr rid \<Rightarrow> Record_size ?r \<le> MAX_RECORD \<and> table_heap tb0 rid = None \<and> table_heap tb1 = (table_heap tb0)(rid \<mapsto> (True, Record_bytes ?r))"
      by (rule on_heap_insert [OF rel0 c0(4) assms(3), of ?r]) (simp add: sz Record_new_def)
    have sch: "kept tb tb1" and idx: "tab_index tb1 = tab_index tb" using calm_kept [OF s0(2) same_index_kept [OF s1(3)]] s1(3) c0 by (simp_all add: same_index_def)
    have same1: "same_txns mv mv1" using a(2) c0(3) s1(2) same_txns_trans by blast
    have pre: "insert_scope values t owns (tb, mv) = (case r1 of Inl e \<Rightarrow> (Inl e, tb1, mv1) | Inr rid \<Rightarrow>
        sbind (sbind (acquireExclusive rid t) (\<lambda>_. sbind (on_tree (BPlusTree_update (KString ?k) (rid_page_id rid) (rid_slot_id rid) t)) (\<lambda>_. sreturn ())))
          (\<lambda>_. sbind (guard_commit t owns) (\<lambda>_. sreturn (rid, True))) (tb1, mv1))"
      using ra s1(1) by (cases "rec_delete_txn_id r0 = 0"; cases r1) (simp_all add: insert_scope_def Let_def sbind_cases search a(1) s0(1) sreturn_def)
    show thesis
    proof (cases r1)
      case (Inl e)
      have rel1: "table_rel tb1 vs" using h1 s1(3) Inl by (intro rel_heap [OF rel0]) (auto simp: same_index_def)
      have eq: "insert_scope values t owns (tb, mv) = (Inl e, tb1, mv1)" using pre Inl by simp
      show thesis by (rule that [OF eq rel1]) (use sch same1 h1 Inl in \<open>auto intro: ends_open\<close>)
    next
      case (Inr rid)
      then have h: "Record_size ?r \<le> MAX_RECORD" "table_heap tb0 rid = None" "table_heap tb1 = (table_heap tb0)(rid \<mapsto> (True, Record_bytes ?r))"
        using h1 by simp_all
      have rel1: "table_rel tb1 vs" by (rule rel_grow [OF rel0 s1(3) h(2,3)])
      obtain rb mvb where b: "acquireExclusive rid t (tb1, mv1) = (rb, tb1, mvb)" "same_txns mv1 mvb" "throws_only rb" by (rule acquire_same)
      note sameb = same_txns_trans [OF same1 b(2)]
      show thesis
      proof (cases rb)
        case (Inl e)
        have eq: "insert_scope values t owns (tb, mv) = (Inl e, tb1, mvb)" using pre Inr Inl by (simp add: sbind_cases b(1))
        show thesis by (rule that [OF eq rel1]) (use sch sameb b(3) Inl in \<open>auto intro: ends_open\<close>)
      next
        case rb: (Inr u)
        obtain ps where ps: "tree_rel STRING (tab_index tb) ps" "heads ps vs" using rel by (auto simp: table_rel_def)
        obtain r2 tr mv2 where s2: "on_tree (BPlusTree_update (KString ?k) (rid_page_id rid) (rid_slot_id rid) t) (tb1, mvb) = (r2, tb1\<lparr>tab_index := tr\<rparr>, mv2)"
            "same_txns mvb mv2" "tree_rel STRING tr (update_pair (KString ?k) rid ps)" "throws_only r2" "nodes_storable tr"
          by (rule on_tree_update [of tb1 ps t "hd values"]) (use ps idx assms(3) rel in \<open>auto simp: table_rel_def\<close>)
        have rel2: "table_rel (tb1\<lparr>tab_index := tr\<rparr>) (inserted values t rid vs)"
          by (rule rel_inserted [OF rel0 s1(3) h(2) refl h(3) r h(1) s2(3,5)])
            (use heads_update [OF ps(2)] old in \<open>simp add: inserted_def add_version_def\<close>)
        note same2 = same_txns_trans [OF sameb s2(2)]
        show thesis
        proof (cases r2)
          case e: (Inl e)
          have eq: "insert_scope values t owns (tb, mv) = (Inl e, tb1\<lparr>tab_index := tr\<rparr>, mv2)" using pre Inr rb e by (simp add: sbind_cases b(1) s2(1))
          show thesis by (rule that [OF eq rel2]) (use sch same2 s2(4) e in \<open>auto intro: ends_open\<close>)
        next
          case u: (Inr u)
          have eq: "insert_scope values t owns (tb, mv) = (Inr (rid, True), tb1\<lparr>tab_index := tr\<rparr>, if owns then MVCCManager_commit mv2 t else mv2)"
            using pre Inr rb u by (simp add: sbind_cases b(1) s2(1) guard_commit_ok sreturn_def)
          show thesis by (rule that [OF eq rel2 _ _ ends_commit [OF same2]]) (use sch in auto)
        qed
      qed
    qed
  qed
qed

lemma insert_scope_spec:
  assumes "table_rel tb vs" "bp_next_page_id (tab_pool tb) < MAX_PAGES" "t \<noteq> 0" "values \<noteq> []" "int_sized values"
  obtains res tb' mv' vs' where "insert_scope values t owns (tb, mv) = (res, tb', mv')" "table_rel tb' vs'" "kept tb tb'" "throws_only res"
    "ends t owns mv res mv'" "vs' = vs \<or> (\<exists>rid. vs' = inserted values t rid vs)"
    "\<And>rid b. res = Inr (rid, b) \<Longrightarrow> b \<and> vs' = inserted values t rid vs"
proof (cases "vs (hd values)")
  case Nil
  show thesis by (rule insert_new_scope [OF assms Nil, of owns mv]) (rule that)
next
  case (Cons v rest)
  obtain rid r where v: "v = (rid, r)" by (cases v)
  show thesis by (rule insert_old_scope [OF assms(1-3,5) Cons [unfolded v], of owns mv]) (rule that)
qed

lemma rel_deleted:
  assumes "table_rel tb vs" "vs k = (rid, r) # rest" "same_index tb tb'"
    and "table_heap tb' = (table_heap tb)(rid \<mapsto> (True, Record_bytes (r\<lparr>rec_delete_txn_id := t\<rparr>)))"
  shows "table_rel tb' (deleted k t vs)"
  using assms chains_stamp [of "table_heap tb" vs k rid r rest t] heads_stamp
  by (auto simp: table_rel_chains same_index_def deleted_def stamp_head_def)

text \<open>The heap after \<open>updateRecord\<close>: the new version is stored, before and after the index points at it.\<close>

lemma rel_updated:
  assumes "table_rel tb vs" "vs k = (rid, r) # rest" "same_index tb tb1" "table_heap tb rid' = None"
    and "table_heap tb1 = (table_heap tb)(rid \<mapsto> (True, Record_bytes (r\<lparr>rec_delete_txn_id := t\<rparr>)),
                                          rid' \<mapsto> (True, Record_bytes (Record_new values t rid)))"
    and "Record_size (Record_new values t rid) \<le> MAX_RECORD"
  shows "table_rel tb1 (deleted k t vs)"
    "tree_rel STRING tr ps' \<Longrightarrow> nodes_storable tr \<Longrightarrow> heads ps' (updated k values t rid' vs) \<Longrightarrow> table_rel (tb1\<lparr>tab_index := tr\<rparr>) (updated k values t rid' vs)"
proof -
  let ?h = "(table_heap tb)(rid \<mapsto> (True, Record_bytes (r\<lparr>rec_delete_txn_id := t\<rparr>)))"
  have b: "pool_ok (tab_pool tb)" "chains_ok (table_heap tb) vs" using assms(1) by (simp_all add: table_rel_chains)
  have "table_heap tb rid \<noteq> None" using assms(1,2) by (auto simp: table_rel_def dest!: spec [of _ k])
  then have fresh: "?h rid' = None" using assms(4) by auto
  have c: "chains_ok ?h (deleted k t vs)" by (rule chains_stamp [OF b(2) assms(2)])
  have rids: "wf_rid i \<and> 0 \<le> rid_page_id i" if "?h i = Some x" for i x
    using that table_rids [OF b(1)] \<open>table_heap tb rid \<noteq> None\<close> by (auto split: if_splits)
  have k: "deleted k t vs k = (rid, r\<lparr>rec_delete_txn_id := t\<rparr>) # rest" using assms(2) by (simp add: deleted_def stamp_head_def)
  have "chains_ok (table_heap tb1) (deleted k t vs)"
    using c stored_grow [of ?h _ rid'] fresh unfolding assms(5) by (auto simp: chains_ok_def simp del: fun_upd_apply)
  moreover have "\<exists>ps. tree_rel STRING (tab_index tb) ps \<and> heads ps (deleted k t vs)"
    using assms(1,2) heads_stamp by (fastforce simp: table_rel_def deleted_def stamp_head_def)
  ultimately show "table_rel tb1 (deleted k t vs)" using assms(1,3) by (auto simp: table_rel_chains same_index_def)
  have "chains_ok (table_heap tb1) ((deleted k t vs)(k := add_version values t rid' (deleted k t vs k)))"
    unfolding assms(5) by (rule chains_add [OF c fresh _ rids _ assms(6)]) (simp_all add: k)
  then have "chains_ok (table_heap tb1) (updated k values t rid' vs)" by (simp add: updated_def deleted_def)
  then show "tree_rel STRING tr ps' \<Longrightarrow> nodes_storable tr \<Longrightarrow> heads ps' (updated k values t rid' vs) \<Longrightarrow> table_rel (tb1\<lparr>tab_index := tr\<rparr>) (updated k values t rid' vs)"
    using assms(3) by (auto simp: table_rel_chains same_index_def)
qed

lemma update_scope_spec:
  assumes rel: "table_rel tb vs" and "bp_next_page_id (tab_pool tb) < MAX_PAGES" "t \<noteq> 0" and k: "vs k = (rid, r) # rest" and sz: "live (vs k) \<Longrightarrow> int_sized values"
  obtains res tb' mv' vs' where "update_scope (KString k) rid values t owns (tb, mv) = (res, tb', mv')" "table_rel tb' vs'" "kept tb tb'" "throws_only res"
    "ends t owns mv res mv'" "vs' = vs \<or> live (vs k) \<and> (vs' = deleted k t vs \<or> (\<exists>rid'. vs' = updated k values t rid' vs))"
    "\<And>b b'. res = Inr (b, b') \<Longrightarrow> b = live (vs k) \<and> b' = b \<and> (if b then \<exists>rid'. vs' = updated k values t rid' vs else vs' = vs)"
proof -
  obtain ra mva where a: "acquireExclusive rid t (tb, mv) = (ra, tb, mva)" "same_txns mv mva" "throws_only ra" by (rule acquire_same)
  show thesis
  proof (cases ra)
    case (Inl e)
    have eq: "update_scope (KString k) rid values t owns (tb, mv) = (Inl e, tb, mva)" using Inl by (simp add: update_scope_def sbind_cases a(1))
    show thesis by (rule that [OF eq rel]) (use a(2,3) Inl in \<open>auto intro: ends_open\<close>)
  next
    case ra: (Inr u)
    obtain r1 tb1 mv1 where s1: "on_heap (RecordManager_updateRecord PageManager_ops rid values t) (tb, mva) = (r1, tb1, mv1)" "same_txns mva mv1" "same_index tb tb1"
      and h1: "if rec_delete_txn_id r \<noteq> 0 then r1 = Inr None \<and> table_heap tb1 = table_heap tb
       else if Record_size (Record_new values t rid) \<le> MAX_RECORD
       then \<exists>rid'. r1 = Inr (Some rid') \<and> table_heap tb rid' = None
              \<and> table_heap tb1 = (table_heap tb)(rid \<mapsto> (True, Record_bytes (r\<lparr>rec_delete_txn_id := t\<rparr>)),
                                                 rid' \<mapsto> (True, Record_bytes (Record_new values t rid)))
       else r1 = Inl (RuntimeError ''Record too large to fit in a page'')
              \<and> table_heap tb1 = (table_heap tb)(rid \<mapsto> (True, Record_bytes (r\<lparr>rec_delete_txn_id := t\<rparr>)))"
      by (rule on_heap_update [OF rel assms(2,3) k, of "values"]) (use sz k in \<open>simp add: live_def\<close>)
    have sch: "kept tb tb1" and idx: "tab_index tb1 = tab_index tb" using s1(3) by (simp_all add: same_index_kept same_index_def)
    note same1 = same_txns_trans [OF a(2) s1(2)]
    consider (gone) "rec_delete_txn_id r \<noteq> 0" | (large) "rec_delete_txn_id r = 0" "\<not> Record_size (Record_new values t rid) \<le> MAX_RECORD"
      | (fits) "rec_delete_txn_id r = 0" "Record_size (Record_new values t rid) \<le> MAX_RECORD" by blast
    then show thesis
    proof cases
      case gone
      then have eq: "update_scope (KString k) rid values t owns (tb, mv) = (Inr (False, False), tb1, mv1)"
        using h1 ra by (simp add: update_scope_def sbind_cases a(1) s1(1) sreturn_def)
      have rel1: "table_rel tb1 vs" by (rule rel_heap [OF rel]) (use gone h1 s1(3) in \<open>auto simp: same_index_def\<close>)
      show thesis by (rule that [OF eq rel1]) (use gone sch same1 k in \<open>auto intro: ends_open simp: live_def\<close>)
    next
      case large
      then have eq: "update_scope (KString k) rid values t owns (tb, mv) = (Inl (RuntimeError ''Record too large to fit in a page''), tb1, mv1)"
        using h1 ra by (simp add: update_scope_def sbind_cases a(1) s1(1))
      have rel1: "table_rel tb1 (deleted k t vs)" by (rule rel_deleted [OF rel k s1(3)]) (use large h1 in simp)
      show thesis by (rule that [OF eq rel1]) (use large sch same1 k in \<open>auto intro: ends_open simp: live_def\<close>)
    next
      case fits
      then obtain rid' where h: "r1 = Inr (Some rid')" "table_heap tb rid' = None"
          "table_heap tb1 = (table_heap tb)(rid \<mapsto> (True, Record_bytes (r\<lparr>rec_delete_txn_id := t\<rparr>)), rid' \<mapsto> (True, Record_bytes (Record_new values t rid)))"
        using h1 by (auto simp del: fun_upd_apply)
      note rel1 = rel_updated(1) [OF rel k s1(3) h(2,3) fits(2)]
      have lv: "live (vs k)" using fits(1) k by (simp add: live_def)
      obtain rb mvb where b: "acquireExclusive rid' t (tb1, mv1) = (rb, tb1, mvb)" "same_txns mv1 mvb" "throws_only rb" by (rule acquire_same)
      note sameb = same_txns_trans [OF same1 b(2)]
      show thesis
      proof (cases rb)
        case (Inl e)
        have eq: "update_scope (KString k) rid values t owns (tb, mv) = (Inl e, tb1, mvb)"
          using ra h(1) Inl by (simp add: update_scope_def sbind_cases a(1) s1(1) b(1))
        show thesis by (rule that [OF eq rel1]) (use sch sameb lv b(3) Inl in \<open>auto intro: ends_open\<close>)
      next
        case rb: (Inr u)
        obtain ps where ps: "tree_rel STRING (tab_index tb) ps" "heads ps vs" using rel by (auto simp: table_rel_def)
        obtain r2 tr mv2 where s2: "on_tree (BPlusTree_update (KString k) (rid_page_id rid') (rid_slot_id rid') t) (tb1, mvb) = (r2, tb1\<lparr>tab_index := tr\<rparr>, mv2)"
            "same_txns mvb mv2" "tree_rel STRING tr (update_pair (KString k) rid' ps)" "throws_only r2" "nodes_storable tr"
          by (rule on_tree_update [of tb1 ps t k]) (use ps idx assms(3) rel in \<open>auto simp: table_rel_def\<close>)
        have rel2: "table_rel (tb1\<lparr>tab_index := tr\<rparr>) (updated k values t rid' vs)"
          by (rule rel_updated(2) [OF rel k s1(3) h(2,3) fits(2) s2(3,5)])
            (use heads_update [OF ps(2)] k in \<open>simp add: updated_def add_version_def\<close>)
        note same2 = same_txns_trans [OF sameb s2(2)]
        show thesis
        proof (cases r2)
          case e: (Inl e)
          have eq: "update_scope (KString k) rid values t owns (tb, mv) = (Inl e, tb1\<lparr>tab_index := tr\<rparr>, mv2)"
            using ra rb h(1) e by (simp add: update_scope_def sbind_cases a(1) s1(1) b(1) s2(1))
          show thesis by (rule that [OF eq rel2]) (use sch same2 lv s2(4) e in \<open>auto intro: ends_open\<close>)
        next
          case u: (Inr u)
          have eq: "update_scope (KString k) rid values t owns (tb, mv) = (Inr (True, True), tb1\<lparr>tab_index := tr\<rparr>, if owns then MVCCManager_commit mv2 t else mv2)"
            using ra rb h(1) u by (simp add: update_scope_def sbind_cases a(1) s1(1) b(1) s2(1) guard_commit_ok sreturn_def)
          show thesis by (rule that [OF eq rel2 _ _ ends_commit [OF same2]]) (use sch lv in auto)
        qed
      qed
    qed
  qed
qed

lemma delete_scope_spec:
  assumes rel: "table_rel tb vs" and "t \<noteq> 0" and k: "vs k = (rid, r) # rest"
  obtains res tb' mv' vs' where "delete_scope rid t owns (tb, mv) = (res, tb', mv')" "table_rel tb' vs'" "kept tb tb'" "throws_only res"
    "ends t owns mv res mv'" "vs' = vs \<or> live (vs k) \<and> vs' = deleted k t vs"
    "\<And>b b'. res = Inr (b, b') \<Longrightarrow> b = live (vs k) \<and> b' = b \<and> (if b then vs' = deleted k t vs else vs' = vs)"
proof -
  obtain ra mva where a: "acquireExclusive rid t (tb, mv) = (ra, tb, mva)" "same_txns mv mva" "throws_only ra" by (rule acquire_same)
  show thesis
  proof (cases ra)
    case (Inl e)
    have eq: "delete_scope rid t owns (tb, mv) = (Inl e, tb, mva)" using Inl by (simp add: delete_scope_def sbind_cases a(1))
    show thesis by (rule that [OF eq rel]) (use a(2,3) Inl in \<open>auto intro: ends_open\<close>)
  next
    case ra: (Inr u)
    obtain tb1 mv1 where s1: "on_heap (RecordManager_markDeleted PageManager_ops rid t) (tb, mva) = (Inr (rec_delete_txn_id r = 0), tb1, mv1)"
        "same_txns mva mv1" "same_index tb tb1"
        "table_heap tb1 = (if rec_delete_txn_id r = 0 then (table_heap tb)(rid \<mapsto> (True, Record_bytes (r\<lparr>rec_delete_txn_id := t\<rparr>))) else table_heap tb)"
      by (rule on_heap_mark [OF rel assms(2) k])
    have sch: "kept tb tb1" using s1(3) by (rule same_index_kept)
    note same1 = same_txns_trans [OF a(2) s1(2)]
    show thesis
    proof (cases "rec_delete_txn_id r = 0")
      case True
      have eq: "delete_scope rid t owns (tb, mv) = (Inr (True, True), tb1, if owns then MVCCManager_commit mv1 t else mv1)"
        using ra True by (simp add: delete_scope_def sbind_cases a(1) s1(1) guard_commit_ok sreturn_def)
      have rel1: "table_rel tb1 (deleted k t vs)" by (rule rel_deleted [OF rel k s1(3)]) (use True s1(4) in simp)
      show thesis by (rule that [OF eq rel1 _ _ ends_commit [OF same1]]) (use True sch k in \<open>auto simp: live_def\<close>)
    next
      case False
      have eq: "delete_scope rid t owns (tb, mv) = (Inr (False, False), tb1, mv1)"
        using ra False by (simp add: delete_scope_def sbind_cases a(1) s1(1) sreturn_def)
      have rel1: "table_rel tb1 vs" by (rule rel_heap [OF rel]) (use False s1(3,4) in \<open>auto simp: same_index_def\<close>)
      show thesis by (rule that [OF eq rel1]) (use False sch same1 k in \<open>auto intro: ends_open simp: live_def\<close>)
    qed
  qed
qed

end
