(* ===== verification/Table_Snapshots.thy ===== *)
theory Table_Snapshots
  imports Table_Writes
begin

text \<open>
  Table operations of concurrent transactions, one at a time in any order, as a step relation, and what a reader's snapshot
  sees of them.
\<close>

section \<open>Statements and their transactions\<close>

text \<open>The transaction a statement writes under, and what a statement does to the transactions.\<close>

definition active_txn :: "u64 \<Rightarrow> MVCCManager \<Rightarrow> u64" where
  "active_txn txn mv = (if txn = 0 then tm_next_txn_id (mv_txns mv) else txn)"

definition statement :: "u64 \<Rightarrow> MVCCManager \<Rightarrow> MVCCManager \<Rightarrow> bool" where
  "statement txn mv mv' \<longleftrightarrow> same_txns mv mv' \<or> txn = 0 \<and> (\<exists>t mv1 mvw. MVCCManager_begin mv = (t, mv1) \<and> same_txns mv1 mvw
     \<and> (mv' = MVCCManager_commit mvw t \<or> mv' = MVCCManager_abort mvw t))"

definition value_of :: "('a \<times> bool) result \<Rightarrow> 'a result" where
  "value_of res = (case res of Inl e \<Rightarrow> Inl e | Inr (x, b) \<Rightarrow> Inr x)"

lemma value_throws: "throws_only res \<Longrightarrow> throws_only (value_of res)"
  by (auto simp: value_of_def throws_only_def split: sum.splits prod.splits)

lemma auto_commit_run:
  assumes "(if txn = 0 then MVCCManager_begin mv else (txn, mv)) = (t, mv1)" "scope t (txn = 0) (tb, mv1) = (res, tb', mv2)"
  shows "auto_commit txn scope (tb, mv) =
    (value_of res, tb', if txn = 0 \<and> \<not> (\<exists>x. res = Inr (x, True)) then MVCCManager_abort mv2 t else mv2)"
  using assms
  by (cases "txn = 0")
    (auto simp: auto_commit_def AutoCommitGuard_def Table_beginTxn_def sbind_def sreturn_def value_of_def split: sum.splits prod.splits)

lemma auto_commit_statement:
  assumes "(if txn = 0 then MVCCManager_begin mv else (txn, mv)) = (t, mv1)" "scope t (txn = 0) (tb, mv1) = (res, tb', mv2)"
    and "ends t (txn = 0) mv1 res mv2"
  obtains mv' where "auto_commit txn scope (tb, mv) = (value_of res, tb', mv')" "statement txn mv mv'"
proof -
  obtain mvw where w: "same_txns mv1 mvw" "mv2 = (if txn = 0 \<and> (\<exists>x. res = Inr (x, True)) then MVCCManager_commit mvw t else mvw)"
    using assms(3) by (auto simp: ends_def)
  let ?mv' = "if txn = 0 \<and> \<not> (\<exists>x. res = Inr (x, True)) then MVCCManager_abort mv2 t else mv2"
  have "statement txn mv ?mv'"
  proof (cases "txn = 0")
    case True
    then show ?thesis using w assms(1) by (auto simp: statement_def)
  next
    case False
    then show ?thesis using w assms(1) by (auto simp: statement_def)
  qed
  then show thesis using that auto_commit_run [where scope = scope, OF assms(1,2)] by blast
qed

lemma active_start:
  assumes "mvcc_inv mv" "(if txn = 0 then MVCCManager_begin mv else (txn, mv)) = (t, mv1)"
  shows "t = active_txn txn mv" "t \<noteq> 0"
  using assms begin_fields(1) [of mv t mv1] by (auto simp: active_txn_def mvcc_inv_def split: if_splits)

section \<open>The operations\<close>

lemma insert_run:
  assumes "table_rel tb vs" "bp_next_page_id (tab_pool tb) < MAX_PAGES" "mvcc_inv mv" "int_sized values"
  obtains res tb' mv' vs' where "Table_insert values txn (tb, mv) = (res, tb', mv')" "table_rel tb' vs'" "kept tb tb'" "throws_only res"
    "statement txn mv mv'" "vs' = vs \<or> length values = length (tab_schema tb) \<and> (\<exists>rid. vs' = inserted values (active_txn txn mv) rid vs)"
    "\<And>rid. res = Inr rid \<Longrightarrow> vs' = inserted values (active_txn txn mv) rid vs"
proof (cases "values = [] \<or> length values \<noteq> length (tab_schema tb)")
  case True
  then obtain e where eq: "Table_insert values txn (tb, mv) = (Inl e, tb, mv)" "is_exception e"
    by (cases "values = []") (auto simp: Table_insert_def sthrow_def)
  show thesis by (rule that [OF eq(1) assms(1)]) (use eq(2) in \<open>auto simp: statement_def\<close>)
next
  case False
  then have op: "Table_insert values txn (tb, mv) = auto_commit txn (insert_scope values) (tb, mv)" by (simp add: Table_insert_def)
  obtain t mv1 where st: "(if txn = 0 then MVCCManager_begin mv else (txn, mv)) = (t, mv1)" by (rule prod.exhaust)
  note t = active_start [OF assms(3) st]
  obtain res tb' mv2 vs' where sc: "insert_scope values t (txn = 0) (tb, mv1) = (res, tb', mv2)" "table_rel tb' vs'" "kept tb tb'" "throws_only res" "ends t (txn = 0) mv1 res mv2" "vs' = vs \<or> (\<exists>rid. vs' = inserted values t rid vs)"
    and ok: "\<And>rid b. res = Inr (rid, b) \<Longrightarrow> b \<and> vs' = inserted values t rid vs"
    using insert_scope_spec [OF assms(1,2) t(2) _ assms(4), of "txn = 0" mv1] False by blast
  obtain mv' where mv': "auto_commit txn (insert_scope values) (tb, mv) = (value_of res, tb', mv')" "statement txn mv mv'"
    by (rule auto_commit_statement [where scope = "insert_scope values", OF st sc(1,5)])
  show thesis
    by (rule that [OF op [unfolded mv'(1)] sc(2,3) value_throws [OF sc(4)] mv'(2)]) (use sc(6) ok t(1) False in \<open>auto simp: value_of_def split: sum.splits prod.splits\<close>)
qed

lemma update_run:
  assumes "table_rel tb vs" "bp_next_page_id (tab_pool tb) < MAX_PAGES" "mvcc_inv mv" "live (vs k) \<Longrightarrow> int_sized values"
  obtains res tb' mv' vs' where "Table_updateByKey k values txn (tb, mv) = (res, tb', mv')" "table_rel tb' vs'" "kept tb tb'" "throws_only res"
    "statement txn mv mv'"
    "vs' = vs \<or> live (vs k) \<and> (vs' = deleted k (active_txn txn mv) vs
       \<or> length values = length (tab_schema tb) \<and> (\<exists>rid. vs' = updated k values (active_txn txn mv) rid vs))"
    "\<And>b. res = Inr b \<Longrightarrow> b = live (vs k) \<and> (if b then \<exists>rid. vs' = updated k values (active_txn txn mv) rid vs else vs' = vs)"
proof -
  consider (count) "length values \<noteq> length (tab_schema tb)" | (absent) "length values = length (tab_schema tb)" "vs k = []"
    | (there) rid r rest where "length values = length (tab_schema tb)" "vs k = (rid, r) # rest" by (metis list.exhaust prod.exhaust)
  then show thesis
  proof cases
    case count
    then obtain e where eq: "Table_updateByKey k values txn (tb, mv) = (Inl e, tb, mv)" "is_exception e" by (auto simp: Table_updateByKey_def sthrow_def)
    show thesis by (rule that [OF eq(1) assms(1)]) (use eq(2) in \<open>auto simp: statement_def\<close>)
  next
    case absent
    then have eq: "Table_updateByKey k values txn (tb, mv) = (Inr False, tb, mv)"
      by (simp add: Table_updateByKey_def sbind_cases(1) on_tree_search [OF assms(1)] sreturn_def)
    show thesis by (rule that [OF eq assms(1)]) (use absent in \<open>auto simp: statement_def live_def\<close>)
  next
    case there
    then have op: "Table_updateByKey k values txn (tb, mv) = auto_commit txn (update_scope (KString k) rid values) (tb, mv)"
      by (simp add: Table_updateByKey_def sbind_cases(1) on_tree_search [OF assms(1)])
    obtain t mv1 where st: "(if txn = 0 then MVCCManager_begin mv else (txn, mv)) = (t, mv1)" by (rule prod.exhaust)
    note t = active_start [OF assms(3) st]
    obtain res tb' mv2 vs' where sc: "update_scope (KString k) rid values t (txn = 0) (tb, mv1) = (res, tb', mv2)" "table_rel tb' vs'" "kept tb tb'" "throws_only res" "ends t (txn = 0) mv1 res mv2" "vs' = vs \<or> live (vs k) \<and> (vs' = deleted k t vs \<or> (\<exists>rid'. vs' = updated k values t rid' vs))"
      and ok: "\<And>b b'. res = Inr (b, b') \<Longrightarrow> b = live (vs k) \<and> b' = b \<and> (if b then \<exists>rid'. vs' = updated k values t rid' vs else vs' = vs)"
      using update_scope_spec [OF assms(1,2) t(2) there(2) assms(4), of "txn = 0" mv1] by blast
    obtain mv' where mv': "auto_commit txn (update_scope (KString k) rid values) (tb, mv) = (value_of res, tb', mv')" "statement txn mv mv'"
      by (rule auto_commit_statement [where scope = "update_scope (KString k) rid values", OF st sc(1,5)])
    have ok': "b = live (vs k) \<and> (if b then \<exists>rid. vs' = updated k values t rid vs else vs' = vs)" if v: "value_of res = Inr b" for b
    proof -
      obtain b' where "res = Inr (b, b')" using v by (cases res) (auto simp: value_of_def)
      then show ?thesis using ok by blast
    qed
    show thesis
      by (rule that [OF op [unfolded mv'(1)] sc(2,3) value_throws [OF sc(4)] mv'(2)]) (use sc(6) ok' t(1) there in blast)+
  qed
qed

lemma delete_run:
  assumes "table_rel tb vs" "mvcc_inv mv"
  obtains res tb' mv' vs' where "Table_deleteByKey k txn (tb, mv) = (res, tb', mv')" "table_rel tb' vs'" "kept tb tb'" "throws_only res"
    "statement txn mv mv'" "vs' = vs \<or> live (vs k) \<and> vs' = deleted k (active_txn txn mv) vs"
    "\<And>b. res = Inr b \<Longrightarrow> b = live (vs k) \<and> vs' = (if b then deleted k (active_txn txn mv) vs else vs)"
proof (cases "vs k")
  case Nil
  then have eq: "Table_deleteByKey k txn (tb, mv) = (Inr False, tb, mv)"
    by (simp add: Table_deleteByKey_def sbind_cases(1) on_tree_search [OF assms(1)] sreturn_def)
  show thesis by (rule that [OF eq assms(1)]) (use Nil in \<open>auto simp: statement_def live_def\<close>)
next
  case (Cons v rest)
  obtain rid r where v: "v = (rid, r)" by (cases v)
  have op: "Table_deleteByKey k txn (tb, mv) = auto_commit txn (delete_scope rid) (tb, mv)"
    using Cons v by (simp add: Table_deleteByKey_def sbind_cases(1) on_tree_search [OF assms(1)])
  obtain t mv1 where st: "(if txn = 0 then MVCCManager_begin mv else (txn, mv)) = (t, mv1)" by (rule prod.exhaust)
  note t = active_start [OF assms(2) st]
  obtain res tb' mv2 vs' where sc: "delete_scope rid t (txn = 0) (tb, mv1) = (res, tb', mv2)" "table_rel tb' vs'" "kept tb tb'" "throws_only res" "ends t (txn = 0) mv1 res mv2" "vs' = vs \<or> live (vs k) \<and> vs' = deleted k t vs"
    and ok: "\<And>b b'. res = Inr (b, b') \<Longrightarrow> b = live (vs k) \<and> b' = b \<and> (if b then vs' = deleted k t vs else vs' = vs)"
    using delete_scope_spec [OF assms(1) t(2) Cons [unfolded v], of "txn = 0" mv1] by blast
  obtain mv' where mv': "auto_commit txn (delete_scope rid) (tb, mv) = (value_of res, tb', mv')" "statement txn mv mv'"
    by (rule auto_commit_statement [where scope = "delete_scope rid", OF st sc(1,5)])
  show thesis
    by (rule that [OF op [unfolded mv'(1)] sc(2,3) value_throws [OF sc(4)] mv'(2)]) (use sc(6) ok t(1) in \<open>auto simp: value_of_def split: sum.splits prod.splits\<close>)
qed

section \<open>What a snapshot sees of another transaction's writes\<close>

text \<open>The writes of one statement to one chain: its head is stamped, a version is added, or both.\<close>

definition chain_write :: "u64 \<Rightarrow> (RID \<times> Record) list \<Rightarrow> (RID \<times> Record) list \<Rightarrow> bool" where
  "chain_write t c c' \<longleftrightarrow> c' = c \<or> live c \<and> c' = stamp_head t c \<or> (\<exists>values rid. c' = add_version values t rid c)
     \<or> live c \<and> (\<exists>values rid. c' = add_version values t rid (stamp_head t c))"

text \<open>The fields of the row a reader sees; a later deleter may still stamp the version it comes from.\<close>

definition row_of :: "Record option \<Rightarrow> string list option" where
  "row_of = map_option rec_fields"

lemma row_add: "\<not> sees mv r snap t \<Longrightarrow> seen mv r snap (add_version values t rid c) = seen mv r snap c"
  by (simp add: seen_def add_version_def Record_new_def isVisible_sees)

lemma row_stamp: "live c \<Longrightarrow> \<not> sees mv r snap t \<Longrightarrow> row_of (seen mv r snap (stamp_head t c)) = row_of (seen mv r snap c)"
  by (auto simp: row_of_def seen_def stamp_head_def live_def isVisible_sees split: list.splits prod.splits)

lemma row_write: "chain_write t c c' \<Longrightarrow> \<not> sees mv r snap t \<Longrightarrow> row_of (seen mv r snap c') = row_of (seen mv r snap c)"
  by (auto simp: chain_write_def row_add row_stamp)

lemma seen_cong: "(\<And>t. sees mv' r snap t = sees mv r snap t) \<Longrightarrow> seen mv' r snap = seen mv r snap"
  by (intro ext) (simp add: seen_def isVisible_sees)

text \<open>A statement of another transaction leaves the reader's snapshot and what it sees alone, and the reader does not see that transaction.\<close>

lemma statement_reader:
  assumes "statement txn mv mv'" "reader_inv r snap mv"
    and "if txn = 0 then tm_next_txn_id (mv_txns mv) \<noteq> - 1 else txn \<in> MVCCManager_activeIds mv \<and> txn \<noteq> r"
  shows "reader_inv r snap mv'" "seen mv' r snap = seen mv r snap" "\<not> sees mv r snap (active_txn txn mv)"
proof -
  have inv: "mvcc_inv mv" "snap_ok r snap mv" using assms(2) by (simp_all add: reader_inv_def)
  have rlt: "r \<noteq> 0 \<Longrightarrow> r < tm_next_txn_id (mv_txns mv)"
    using assms(2) by (auto simp: reader_inv_def state_active MVCCManager_activeIds_def mvcc_inv_def)
  show "\<not> sees mv r snap (active_txn txn mv)"
    using assms(3) inv(2) rlt by (auto simp: sees_def is_self_def active_txn_def snap_ok_def dest: activeIds_state split: if_splits)
  have "reader_inv r snap mv' \<and> seen mv' r snap = seen mv r snap"
  proof (cases "same_txns mv mv'")
    case True
    then show ?thesis using assms(2) same_txns_reader same_txns_seen by metis
  next
    case False
    then obtain t mv1 mvw where b: "txn = 0" "MVCCManager_begin mv = (t, mv1)" "same_txns mv1 mvw"
        and e: "mv' = MVCCManager_commit mvw t \<or> mv' = MVCCManager_abort mvw t"
      using assms(1) by (auto simp: statement_def)
    have s1: "mvcc_step mv (MBegin t) mv1" using b assms(3) by (auto intro: mvcc_step.mv_begin)
    have r1: "reader_inv r snap mv1" using mv.step_inv [OF assms(2) _ s1] by simp
    have rw: "reader_inv r snap mvw" using same_txns_reader [OF b(3) r1] .
    note f = begin_fields [OF b(2)]
    have "t \<in> MVCCManager_activeIds mvw"
      using f(3) same_txns_active [OF b(3)] by (simp add: MVCCManager_activeIds_def)
    then have s2: "\<exists>ev. mvcc_step mvw ev mv' \<and> (ev = MCommit t \<or> ev = MAbort t)" using e by (auto intro: mvcc_step.mv_commit mvcc_step.mv_abort)
    have ne: "t \<noteq> r" using rlt f(1) inv(1) unfolding mvcc_inv_def by (metis less_irrefl)
    obtain ev where ev: "mvcc_step mvw ev mv'" "\<not> (ev = MCommit r \<or> ev = MAbort r)" using s2 ne by auto
    have "sees mv' r snap x = sees mv r snap x" for x
      using snap_ok_step [OF s1 inv] snap_ok_step [OF ev(1), of r snap] rw same_txns_state [OF b(3)]
      by (simp add: reader_inv_def sees_def)
    then show ?thesis using mv.step_inv [OF rw ev(2,1)] seen_cong by blast
  qed
  then show "reader_inv r snap mv'" "seen mv' r snap = seen mv r snap" by simp_all
qed

section \<open>Interleaved operations\<close>

datatype table_event = TBegin | TCommit u64 | TAbort u64 | TInsert u64 "string list" | TUpdate u64 string "string list" | TDelete u64 string
  | TGet u64 string | TScan u64

fun table_exec :: "table_event \<Rightarrow> table_state \<Rightarrow> table_state" where
  "table_exec TBegin s = snd (Table_beginTxn s)"
| "table_exec (TCommit t) s = snd (Table_commitTxn t s)"
| "table_exec (TAbort t) s = snd (Table_abortTxn t s)"
| "table_exec (TInsert t values) s = snd (Table_insert values t s)"
| "table_exec (TUpdate t k values) s = snd (Table_updateByKey k values t s)"
| "table_exec (TDelete t k) s = snd (Table_deleteByKey k t s)"
| "table_exec (TGet t k) s = snd (Table_getByKey k t s)"
| "table_exec (TScan t) s = snd (Table_scanAll t s)"

text \<open>
  The bounds the counters and sizes must keep and the transactions a client may name. \<open>overwrites e k s\<close> is the one usage the source calls unsupported: an INSERT
  of a key whose newest version carries no delete stamp. It points the index at a version without predecessor, and the versions before it cannot be reached any more.
\<close>

definition live_key :: "string \<Rightarrow> table_state \<Rightarrow> bool" where
  "live_key k s = (case on_tree (BPlusTree_search (KString k)) s of
       (Inr (Some rid), s) \<Rightarrow> (case on_heap (RecordManager_readRecord PageManager_ops rid) s of (Inr r, _) \<Rightarrow> rec_delete_txn_id r = 0 | _ \<Rightarrow> False)
     | _ \<Rightarrow> False)"

definition may_begin :: "table_state \<Rightarrow> bool" where
  "may_begin s \<longleftrightarrow> tm_next_txn_id (mv_txns (snd s)) \<noteq> - 1"

definition may_write :: "u64 \<Rightarrow> table_state \<Rightarrow> bool" where
  "may_write t s \<longleftrightarrow> bp_next_page_id (tab_pool (fst s)) < MAX_PAGES \<and> (if t = 0 then may_begin s else t \<in> MVCCManager_activeIds (snd s))"

fun table_allowed :: "table_event \<Rightarrow> table_state \<Rightarrow> bool" where
  "table_allowed TBegin s = may_begin s"
| "table_allowed (TCommit t) s = (t \<in> MVCCManager_activeIds (snd s))"
| "table_allowed (TAbort t) s = (t \<in> MVCCManager_activeIds (snd s))"
| "table_allowed (TInsert t values) s = (may_write t s \<and> int_sized values)"
| "table_allowed (TUpdate t k values) s = (may_write t s \<and> int_sized values)"
| "table_allowed (TDelete t k) s = may_write t s"
| "table_allowed (TGet t k) s = True"
| "table_allowed (TScan t) s = True"

fun overwrites :: "table_event \<Rightarrow> string \<Rightarrow> table_state \<Rightarrow> bool" where
  "overwrites (TInsert t values) k s = (k = hd values \<and> live_key k s)"
| "overwrites e k s = False"

inductive table_step :: "table_state \<Rightarrow> table_event \<Rightarrow> table_state \<Rightarrow> bool" where
  table_stepI: "table_allowed e s \<Longrightarrow> table_step s e (table_exec e s)"

inductive_cases table_stepE: "table_step s e s'"

text \<open>The writing events of transaction \<open>r\<close> itself.\<close>

fun event_of :: "u64 \<Rightarrow> table_event \<Rightarrow> bool" where
  "event_of r (TCommit t) = (t = r)"
| "event_of r (TAbort t) = (t = r)"
| "event_of r (TInsert t values) = (t = r)"
| "event_of r (TUpdate t k values) = (t = r)"
| "event_of r (TDelete t k) = (t = r)"
| "event_of r e = False"

lemma live_key_live: "table_rel tb vs \<Longrightarrow> live_key k (tb, mv) = live (vs k)"
proof -
  assume rel: "table_rel tb vs"
  show ?thesis
  proof (cases "vs k")
    case Nil
    then show ?thesis by (simp add: live_key_def on_tree_search [OF rel] live_def)
  next
    case (Cons v rest)
    obtain rid r where v: "v = (rid, r)" by (cases v)
    have st: "pool_ok (tab_pool tb)" "quiet (tab_pool tb)" "stored (table_heap tb) (vs k)" using rel by (simp_all add: table_rel_def)
    obtain tb' mv' where "on_heap (RecordManager_readRecord PageManager_ops rid) (tb, mv) = (Inr r, tb', mv')"
      by (rule on_heap_read [OF st(1,2)]) (use st(3) Cons v in auto)
    then show ?thesis using Cons v by (simp add: live_key_def on_tree_search [OF rel] live_def)
  qed
qed

lemma getByKey_calm:
  assumes "table_rel tb vs"
  shows "calm (tb, mv) (snd (Table_getByKey k t (tb, mv)))"
proof (cases "vs k = [] \<or> (\<exists>e. MVCCManager_getSnapshot mv t = Inl e)")
  case True
  then have "snd (Table_getByKey k t (tb, mv)) = (tb, mv)"
    by (cases "vs k") (auto simp: Table_getByKey_def sbind_cases(1) on_tree_search [OF assms] sreturn_def get_snapshot_def sbind_def)
  then show ?thesis using assms by (auto simp: table_rel_def intro: calm_refl)
next
  case False
  then obtain snap where "MVCCManager_getSnapshot mv t = Inr snap" by (cases "MVCCManager_getSnapshot mv t") auto
  from getByKey_seen [OF assms this, of k] show ?thesis by auto
qed

lemma scanAll_calm:
  assumes "table_rel tb vs"
  shows "calm (tb, mv) (snd (Table_scanAll t (tb, mv)))"
proof (cases "MVCCManager_getSnapshot mv t")
  case (Inl e)
  then have "Table_scanAll t (tb, mv) = (Inl e, tb, mv)" by (simp add: Table_scanAll_def get_snapshot_def sbind_def)
  then show ?thesis using assms by (auto simp: table_rel_def intro: calm_refl)
next
  case (Inr snap)
  from scanAll_rows [OF assms this] show ?thesis by auto
qed

text \<open>The rows of the table that the reader sees.\<close>

definition reader_rows :: "u64 \<Rightarrow> Snapshot \<Rightarrow> MVCCManager \<Rightarrow> versions \<Rightarrow> string \<Rightarrow> string list option" where
  "reader_rows r snap mv vs k = row_of (seen mv r snap (vs k))"

lemma rows_write:
  assumes "statement txn mv mv'" "reader_inv r snap mv" "may_write txn (tb, mv)" "txn \<noteq> r \<or> txn = 0"
    and "\<And>k. chain_write (active_txn txn mv) (vs k) (vs' k) \<or>
      reader_rows r snap mv vs k = None \<and> (\<exists>values rid. vs' k = add_version values (active_txn txn mv) rid [])"
  shows "reader_inv r snap mv'" "reader_rows r snap mv' vs' = reader_rows r snap mv vs"
proof -
  have ok: "if txn = 0 then tm_next_txn_id (mv_txns mv) \<noteq> - 1 else txn \<in> MVCCManager_activeIds mv \<and> txn \<noteq> r"
    using assms(3,4) by (auto simp: may_write_def may_begin_def)
  note st = statement_reader [OF assms(1,2) ok]
  show "reader_inv r snap mv'" by (rule st(1))
  show "reader_rows r snap mv' vs' = reader_rows r snap mv vs"
  proof
    fix k
    have "row_of (seen mv r snap (add_version values (active_txn txn mv) rid [])) = None" for "values" rid
      by (simp add: row_add [OF st(3)]) (simp add: seen_def row_of_def)
    with assms(5) [of k] row_write [OF _ st(3)] show "reader_rows r snap mv' vs' k = reader_rows r snap mv vs k"
      by (auto simp: reader_rows_def st(2))
  qed
qed

lemma rows_calm:
  assumes "calm (tb, mv) (tb', mv')" "table_rel tb vs" "reader_inv r snap mv"
  shows "table_rel tb' vs \<and> reader_inv r snap mv' \<and> reader_rows r snap mv' vs = reader_rows r snap mv vs"
proof -
  have "same_txns mv mv'" using assms(1) by (simp add: calm_def)
  then show ?thesis using calm_rel [OF assms(1,2)] same_txns_reader [OF _ assms(3)] same_txns_seen by (simp add: reader_rows_def fun_eq_iff)
qed

lemma rows_mvcc:
  assumes "mvcc_step mv ev mv'" "\<not> (ev = MCommit r \<or> ev = MAbort r)" "reader_inv r snap mv"
  shows "reader_inv r snap mv'" "reader_rows r snap mv' vs = reader_rows r snap mv vs"
proof -
  show "reader_inv r snap mv'" by (rule mv.step_inv [OF assms(3,2,1)])
  have "mvcc_inv mv" "snap_ok r snap mv" using assms(3) by (simp_all add: reader_inv_def)
  then show "reader_rows r snap mv' vs = reader_rows r snap mv vs"
    using snap_ok_step [OF assms(1)] seen_cong [of mv' r snap mv] by (simp add: reader_rows_def fun_eq_iff)
qed

lemma chain_write_refl [simp]: "chain_write t c c"
  by (simp add: chain_write_def)

lemma chain_writes:
  "\<not> live (vs (hd values)) \<Longrightarrow> chain_write t (vs k) (inserted values t rid vs k)"
  "live (vs k) \<Longrightarrow> chain_write t (vs j) (deleted k t vs j)"
  "live (vs k) \<Longrightarrow> chain_write t (vs j) (updated k values t rid vs j)"
  by (auto simp: chain_write_def inserted_def deleted_def updated_def)

text \<open>The transaction of a writing event, and what the event does to the chains, whether it succeeds or fails on the way.\<close>

fun write_of :: "table_event \<Rightarrow> u64 option" where
  "write_of (TInsert t values) = Some t"
| "write_of (TUpdate t k values) = Some t"
| "write_of (TDelete t k) = Some t"
| "write_of e = None"

lemma table_write:
  assumes "table_rel tb vs" "mvcc_inv mv" "table_allowed e (tb, mv)" "table_exec e (tb, mv) = (tb', mv')" "write_of e = Some t"
  obtains vs' where "table_rel tb' vs'" "statement t mv mv'" "may_write t (tb, mv)"
    "\<forall>k. chain_write (active_txn t mv) (vs k) (vs' k) \<or> overwrites e k (tb, mv) \<and> (\<exists>values rid. vs' k = add_version values (active_txn t mv) rid [])"
proof -
  from assms(5) consider (insert) "values" where "e = TInsert t values" | (update) k "values" where "e = TUpdate t k values" | (delete) k where "e = TDelete t k"
    by (cases e) auto
  then show thesis
  proof cases
    case (insert "values")
    have w: "may_write t (tb, mv)" "int_sized values" using assms(3) insert by simp_all
    have cap: "bp_next_page_id (tab_pool tb) < MAX_PAGES" using w(1) by (simp add: may_write_def)
    have snd: "snd (Table_insert values t (tb, mv)) = (tb', mv')" using assms(4) insert by simp
    obtain vs' where vs': "table_rel tb' vs'" "statement t mv mv'" "vs' = vs \<or> (\<exists>rid. vs' = inserted values (active_txn t mv) rid vs)"
      by (rule insert_run [OF assms(1) cap assms(2) w(2), of t]) (metis snd snd_conv prod.inject)
    have "chain_write (active_txn t mv) (vs k) (vs' k) \<or> overwrites e k (tb, mv) \<and> (\<exists>values rid. vs' k = add_version values (active_txn t mv) rid [])" for k
    proof (cases "live (vs (hd values))")
      case True
      then show ?thesis
        using vs'(3) insert live_key_live [OF assms(1), of "hd values" mv] by (cases "k = hd values") (auto 0 4 simp: inserted_def)
    next
      case False
      then show ?thesis using vs'(3) chain_writes(1) [of vs "values"] by auto
    qed
    then show thesis by (intro that [OF vs'(1,2) w(1)]) blast
  next
    case (update k "values")
    have w: "may_write t (tb, mv)" "int_sized values" using assms(3) update by simp_all
    have cap: "bp_next_page_id (tab_pool tb) < MAX_PAGES" using w(1) by (simp add: may_write_def)
    have snd: "snd (Table_updateByKey k values t (tb, mv)) = (tb', mv')" using assms(4) update by simp
    obtain vs' where vs': "table_rel tb' vs'" "statement t mv mv'"
        "vs' = vs \<or> live (vs k) \<and> (vs' = deleted k (active_txn t mv) vs \<or> (\<exists>rid. vs' = updated k values (active_txn t mv) rid vs))"
      by (rule update_run [OF assms(1) cap assms(2), of k "values" t]) (use w(2) in \<open>metis snd snd_conv prod.inject\<close>)+
    show thesis by (rule that [OF vs'(1,2) w(1)]) (use vs'(3) chain_writes(2,3) in auto)
  next
    case (delete k)
    have w: "may_write t (tb, mv)" using assms(3) delete by simp
    have snd: "snd (Table_deleteByKey k t (tb, mv)) = (tb', mv')" using assms(4) delete by simp
    obtain vs' where vs': "table_rel tb' vs'" "statement t mv mv'" "vs' = vs \<or> live (vs k) \<and> vs' = deleted k (active_txn t mv) vs"
      by (rule delete_run [OF assms(1,2), of k t]) (metis snd snd_conv prod.inject)
    show thesis by (rule that [OF vs'(1,2) w]) (use vs'(3) chain_writes(2) in auto)
  qed
qed

lemma table_step_rows:
  assumes "table_rel tb vs" "reader_inv r snap mv" "table_step (tb, mv) e (tb', mv')" "\<not> event_of r e"
    and "\<forall>k. overwrites e k (tb, mv) \<longrightarrow> reader_rows r snap mv vs k = None"
  shows "\<exists>vs'. table_rel tb' vs' \<and> reader_inv r snap mv' \<and> reader_rows r snap mv' vs' = reader_rows r snap mv vs"
proof -
  have inv: "mvcc_inv mv" using assms(2) by (simp add: reader_inv_def)
  have ex: "table_exec e (tb, mv) = (tb', mv')" and al: "table_allowed e (tb, mv)" using assms(3) by (auto elim: table_stepE)
  have wr: ?thesis if w: "write_of e = Some t" "t \<noteq> r \<or> t = 0" for t
  proof -
    obtain vs' where vs': "table_rel tb' vs'" "statement t mv mv'" "may_write t (tb, mv)"
        "\<forall>k. chain_write (active_txn t mv) (vs k) (vs' k) \<or> overwrites e k (tb, mv) \<and> (\<exists>values rid. vs' k = add_version values (active_txn t mv) rid [])"
      by (rule table_write [OF assms(1) inv al ex w(1)])
    from rows_write [OF vs'(2) assms(2) vs'(3) w(2), of vs vs'] vs'(1,4) assms(5) show ?thesis by blast
  qed
  show ?thesis
  proof (cases e)
    case TBegin
    obtain t mv1 where b: "MVCCManager_begin mv = (t, mv1)" by (cases "MVCCManager_begin mv")
    then have "tb' = tb" "mv' = mv1" using ex TBegin by (auto simp: Table_beginTxn_def)
    moreover have "mvcc_step mv (MBegin t) mv1" using b al TBegin by (auto simp: may_begin_def intro: mvcc_step.mv_begin)
    ultimately show ?thesis using rows_mvcc [OF _ _ assms(2)] assms(1) by auto
  next
    case (TCommit t)
    then have "tb' = tb" "mvcc_step mv (MCommit t) mv'" using ex al by (auto simp: Table_commitTxn_def smodify_def intro: mvcc_step.mv_commit)
    then show ?thesis using rows_mvcc [OF _ _ assms(2)] assms(1,4) TCommit by auto
  next
    case (TAbort t)
    then have "tb' = tb" "mvcc_step mv (MAbort t) mv'" using ex al by (auto simp: Table_abortTxn_def smodify_def intro: mvcc_step.mv_abort)
    then show ?thesis using rows_mvcc [OF _ _ assms(2)] assms(1,4) TAbort by auto
  next
    case (TInsert t "values")
    then show ?thesis using wr assms(4) by simp
  next
    case (TUpdate t k "values")
    then show ?thesis using wr assms(4) by simp
  next
    case (TDelete t k)
    then show ?thesis using wr assms(4) by simp
  next
    case (TGet t k)
    then show ?thesis using rows_calm [OF _ assms(1,2)] getByKey_calm [OF assms(1), of mv k t] ex by auto
  next
    case (TScan t)
    then show ?thesis using rows_calm [OF _ assms(1,2)] scanAll_calm [OF assms(1), of mv t] ex by auto
  qed
qed

section \<open>Repeatable reads of rows\<close>

text \<open>What the reader's two read operations return, without the version stamps.\<close>

definition read_row :: "string \<Rightarrow> u64 \<Rightarrow> table_state \<Rightarrow> string list option result" where
  "read_row k r s = map_sum id row_of (fst (Table_getByKey k r s))"

definition read_rows :: "u64 \<Rightarrow> table_state \<Rightarrow> (Key \<times> string list) list result" where
  "read_rows r s = map_sum id (map (\<lambda>(k, rec). (k, rec_fields rec))) (fst (Table_scanAll r s))"

lemma all_rows_fields: "all_rows see rows \<Longrightarrow> all_rows (\<lambda>k. row_of (see k)) (map (\<lambda>(k, rec). (k, rec_fields rec)) rows)"
  by (auto simp: all_rows_def row_of_def comp_def case_prod_unfold image_def)

lemma read_rows_of:
  assumes "table_rel tb vs" "MVCCManager_getSnapshot mv r = Inr snap"
  shows "read_row k r (tb, mv) = Inr (reader_rows r snap mv vs k)"
    "\<exists>rows. read_rows r (tb, mv) = Inr rows \<and> all_rows (reader_rows r snap mv vs) rows"
proof -
  show "read_row k r (tb, mv) = Inr (reader_rows r snap mv vs k)"
    using getByKey_seen [OF assms, of k] by (auto simp: read_row_def reader_rows_def)
  obtain rows s' where "Table_scanAll r (tb, mv) = (Inr rows, s')" "all_rows (\<lambda>k. seen mv r snap (vs k)) rows"
    using scanAll_rows [OF assms] by blast
  moreover have "reader_rows r snap mv vs = (\<lambda>k. row_of (seen mv r snap (vs k)))" by (simp add: reader_rows_def fun_eq_iff)
  ultimately show "\<exists>rows. read_rows r (tb, mv) = Inr rows \<and> all_rows (reader_rows r snap mv vs) rows"
    using all_rows_fields by (fastforce simp: read_rows_def)
qed

text \<open>
  A step that does not take a row away from reader \<open>r\<close>: an INSERT over a key whose newest version carries no delete stamp is a step here only when the reader
  reads no row under the key (the key was inserted by a transaction that has been rolled back, or by one the reader does not see).
\<close>

definition reader_step :: "u64 \<Rightarrow> table_state \<Rightarrow> table_event \<Rightarrow> table_state \<Rightarrow> bool" where
  "reader_step r s e s' \<longleftrightarrow> table_step s e s' \<and> (\<forall>k. overwrites e k s \<longrightarrow> read_row k r s = Inr None)"

definition reading :: "u64 \<Rightarrow> Snapshot \<Rightarrow> table_state \<Rightarrow> bool" where
  "reading r snap s \<longleftrightarrow> r \<noteq> 0 \<and> reader_inv r snap (snd s) \<and> (\<exists>vs. table_rel (fst s) vs)"

lemma reading_step:
  assumes "reading r snap s" "\<not> event_of r e" "reader_step r s e s'"
  shows "reading r snap s' \<and> (\<forall>k. read_row k r s' = read_row k r s) \<and> read_rows r s' = read_rows r s"
proof -
  obtain tb mv where s: "s = (tb, mv)" by (cases s)
  obtain tb' mv' where s': "s' = (tb', mv')" by (cases s')
  from assms(1) obtain vs where vs: "table_rel tb vs" "reader_inv r snap mv" "r \<noteq> 0" by (auto simp: reading_def s)
  have sn1: "MVCCManager_getSnapshot mv r = Inr snap" using vs(2,3) by (simp add: reader_inv_def)
  have step: "table_step (tb, mv) e (tb', mv')" "\<forall>k. overwrites e k (tb, mv) \<longrightarrow> reader_rows r snap mv vs k = None"
    using assms(3) read_rows_of(1) [OF vs(1) sn1] by (auto simp: reader_step_def s s')
  obtain vs' where vs': "table_rel tb' vs'" "reader_inv r snap mv'" "reader_rows r snap mv' vs' = reader_rows r snap mv vs"
    using table_step_rows [OF vs(1,2) step(1) assms(2) step(2)] by blast
  have sn: "MVCCManager_getSnapshot mv r = Inr snap" "MVCCManager_getSnapshot mv' r = Inr snap"
    using sn1 vs(3) vs'(2) by (simp_all add: reader_inv_def)
  have "read_row k r s' = read_row k r s" for k
    using read_rows_of(1) [OF vs(1) sn(1)] read_rows_of(1) [OF vs'(1) sn(2)] vs'(3) by (simp add: s s')
  moreover have "read_rows r s' = read_rows r s"
  proof -
    obtain rows rows' where "read_rows r (tb, mv) = Inr rows" "all_rows (reader_rows r snap mv vs) rows"
        "read_rows r (tb', mv') = Inr rows'" "all_rows (reader_rows r snap mv' vs') rows'"
      using read_rows_of(2) [OF vs(1) sn(1)] read_rows_of(2) [OF vs'(1) sn(2)] by blast
    then show ?thesis using all_rows_unique vs'(3) by (metis s s')
  qed
  ultimately show ?thesis using vs(3) vs' by (auto simp: reading_def s')
qed

interpretation tv: stable_view "reader_step r" "reading r snap" "event_of r" "\<lambda>s. ((\<lambda>k. read_row k r s), read_rows r s)" for r snap
  by unfold_locales (use reading_step in \<open>auto simp: fun_eq_iff\<close>)

lemma begin_reading:
  assumes "table_rel tb vs" "mvcc_inv mv" "may_begin (tb, mv)" "Table_beginTxn (tb, mv) = (Inr r, s0)"
  obtains snap where "reading r snap s0"
proof -
  obtain mv0 where b: "MVCCManager_begin mv = (r, mv0)" "s0 = (tb, mv0)"
    using assms(4) by (auto simp: Table_beginTxn_def split: prod.splits)
  have "r \<noteq> 0" using begin_fields(1) [OF b(1)] assms(2) by (auto simp: mvcc_inv_def)
  then show thesis
    using begin_reader_inv [OF assms(2) _ b(1)] assms(1,3) that b(2) by (auto simp: reading_def may_begin_def)
qed

text \<open>
  C1: REPEATABLE READ on rows, without phantoms. From the moment a transaction has begun, whatever other transactions insert, update, delete, commit
  and abort in the table, in whatever order, and whether their statements succeed or fail on the way, every read by key and every full scan of the
  transaction keeps returning the same rows, until the transaction writes or ends itself. Two conditions: rows have fewer than \<open>2 ^ 31 - 5\<close> bytes, and no other
  transaction INSERTs a key under which the reader reads a row and whose newest version carries no delete stamp. The source calls that use of INSERT unsupported, and
  the reader does lose its row there, as a property of \<open>Table_Reads\<close> shows. INSERTs of new keys, of deleted keys, and of keys under which the reader reads nothing are covered.
\<close>

theorem Table_repeatable_read:
  assumes "table_rel tb vs" "mvcc_inv mv" "may_begin (tb, mv)" "Table_beginTxn (tb, mv) = (Inr r, s0)"
    and "runs (reader_step r) s0 es s'" "\<forall>e \<in> set es. \<not> event_of r e"
  shows "\<exists>row rows. (\<forall>k. read_row k r s0 = Inr (row k) \<and> read_row k r s' = Inr (row k))
    \<and> read_rows r s0 = Inr rows \<and> read_rows r s' = Inr rows \<and> all_rows row rows"
proof -
  obtain snap where rd: "reading r snap s0" by (rule begin_reading [OF assms(1-4)])
  obtain tb0 mv0 where s0: "s0 = (tb0, mv0)" by (cases s0)
  obtain vs0 where vs0: "table_rel tb0 vs0" "MVCCManager_getSnapshot mv0 r = Inr snap" using rd by (auto simp: reading_def reader_inv_def s0)
  have "read_row k r s' = read_row k r s0" "read_rows r s' = read_rows r s0" for k
    using tv.runs_stable [OF assms(5) rd assms(6)] by (auto dest: fun_cong)
  then show ?thesis using read_rows_of [OF vs0] unfolding s0 by metis
qed

text \<open>A table without rows, on an empty heap file and an index in memory.\<close>

definition empty_table :: Table where
  "empty_table = \<lparr>tab_name = ''users'', tab_schema = users_schema, tab_pool = sample_pool, tab_index = BPlusTree_new\<rparr>"

lemma empty_table_rel: "table_rel empty_table (\<lambda>_. [])"
  using sample_store new_rel [of STRING]
  by (auto simp: table_rel_def empty_table_def store_inv_def heads_def apart_def nodes_storable_def BPlusTree_new_def)

theorem Table_repeatable_read_witness:
  "\<exists>row rows. (\<forall>k. read_row k 1 (snd (Table_beginTxn (empty_table, sample_mvcc))) = Inr (row k)
      \<and> read_row k 1 (table_exec (TInsert 0 [''1'', ''ada'']) (snd (Table_beginTxn (empty_table, sample_mvcc)))) = Inr (row k))
    \<and> read_rows 1 (table_exec (TInsert 0 [''1'', ''ada'']) (snd (Table_beginTxn (empty_table, sample_mvcc)))) = Inr rows"
proof -
  let ?s0 = "snd (Table_beginTxn (empty_table, sample_mvcc))" and ?e = "TInsert 0 [''1'', ''ada'']"
  have n: "tm_next_txn_id (mv_txns sample_mvcc) = 1" by (rule sample_mvcc_inv(2))
  obtain mv1 where b: "MVCCManager_begin sample_mvcc = (1, mv1)" using begin_fields(1) [of sample_mvcc] n by (cases "MVCCManager_begin sample_mvcc") simp
  have s0: "Table_beginTxn (empty_table, sample_mvcc) = (Inr 1, empty_table, mv1)" by (simp add: Table_beginTxn_def b)
  have may: "may_begin (empty_table, sample_mvcc)" by (simp add: may_begin_def n)
  have "table_allowed ?e ?s0"
    using begin_fields(2) [OF b] sample_store(2)
    by (simp add: s0 may_write_def may_begin_def int_sized_def MVCC_HEADER_SIZE_def) (simp add: empty_table_def)
  moreover have "\<not> overwrites ?e k ?s0" for k by (simp add: s0 live_key_live [OF empty_table_rel] live_def)
  ultimately have "reader_step 1 ?s0 ?e (table_exec ?e ?s0)" unfolding reader_step_def by (blast intro: table_stepI)
  then have run: "runs (reader_step 1) ?s0 [?e] (table_exec ?e ?s0)" by (rule runs_Cons) (rule runs_Nil)
  have run': "runs (reader_step 1) (empty_table, mv1) [?e] (table_exec ?e ?s0)" using run by (simp add: s0)
  from Table_repeatable_read [OF empty_table_rel sample_mvcc_inv(1) may s0 run'] show ?thesis unfolding s0 snd_conv by auto
qed

end
