(* ===== verification/Recovery.thy ===== *)
theory Recovery
  imports Wal Pages
begin

text \<open>
  \<open>recoverymanager.hpp\<close> / \<open>recoverymanager.cpp\<close>: redo and undo on the raw heap and index files.

  The state is the tables' files as bytes and the log. Offsets are \<open>size_t\<close>, so their arithmetic is
  modulo \<open>2 ^ 64\<close>. The order in which \<open>run\<close> visits the losers is that of a hash map: it is an argument of
  the model. The walk along \<open>prev_lsn\<close> has fuel, because on a corrupt log whose chain is a cycle the code does not
  return; \<open>undo_chain\<close> shows that the length of the log is enough on every log whose chains go backwards.
  Reads and writes of the operating system do not fail.
\<close>

record TableFiles =
  tf_heap :: "byte list"
  tf_index :: "byte list"

type_synonym tables = "u32 \<rightharpoonup> TableFiles"

definition HEAP_LSN_OFFSET :: nat where "HEAP_LSN_OFFSET = 8"
definition INDEX_LSN_OFFSET :: nat where "INDEX_LSN_OFFSET = 12"

definition RecoveryManager_heapOffset :: "int \<Rightarrow> nat" where
  "RecoveryManager_heapOffset page_id = nat ((page_id * int PAGE_SIZE) mod 2 ^ 64)"

definition RecoveryManager_indexOffset :: "int \<Rightarrow> nat" where
  "RecoveryManager_indexOffset node_id = nat ((int PAGE_SIZE + node_id * int PAGE_SIZE) mod 2 ^ 64)"

definition RecoveryManager_lsnFieldOffset :: "WALStore \<Rightarrow> nat" where
  "RecoveryManager_lsnFieldOffset store = (case store of HEAP \<Rightarrow> HEAP_LSN_OFFSET | INDEX \<Rightarrow> INDEX_LSN_OFFSET)"

definition RecoveryManager_readStoredLSN :: "byte list \<Rightarrow> nat \<Rightarrow> nat \<Rightarrow> u64 result" where
  "RecoveryManager_readStoredLSN file page_offset lsn_offset =
     (if length file < (page_offset + lsn_offset + 8) mod 2 ^ 64 then Inr 0
      else if length file < page_offset + lsn_offset + 8
      then Inl (RuntimeError ''RecoveryManager: failed to read stored LSN'')
      else Inr (le_word (chunk (page_offset + lsn_offset) 8 file)))"

definition RecoveryManager_writePageBytes :: "byte list \<Rightarrow> nat \<Rightarrow> byte list \<Rightarrow> byte list result" where
  "RecoveryManager_writePageBytes file page_offset data =
     (let needed = (page_offset + length data) mod 2 ^ 64;
          file = (if length file < needed then file @ replicate (needed - length file) 0 else file) in
      if length file < page_offset then Inl (RuntimeError ''RecoveryManager: failed to write recovered page'')
      else Inr (overwrite file page_offset data))"

definition RecoveryManager_fileFor :: "tables \<Rightarrow> u32 \<Rightarrow> WALStore \<Rightarrow> byte list result" where
  "RecoveryManager_fileFor ts table_id store =
     (case ts table_id of
        None \<Rightarrow> Inl (RuntimeError (''RecoveryManager: WAL references unknown table_id '' @ string_of_nat (unat table_id)))
      | Some f \<Rightarrow> Inr (case store of HEAP \<Rightarrow> tf_heap f | INDEX \<Rightarrow> tf_index f))"

definition set_file :: "tables \<Rightarrow> u32 \<Rightarrow> WALStore \<Rightarrow> byte list \<Rightarrow> tables" where
  "set_file ts table_id store bytes =
     (case ts table_id of
        None \<Rightarrow> ts
      | Some f \<Rightarrow> ts(table_id \<mapsto> (case store of HEAP \<Rightarrow> f\<lparr>tf_heap := bytes\<rparr> | INDEX \<Rightarrow> f\<lparr>tf_index := bytes\<rparr>)))"

definition RecoveryManager_offsetFor :: "WALStore \<Rightarrow> int \<Rightarrow> nat" where
  "RecoveryManager_offsetFor store page_id =
     (case store of HEAP \<Rightarrow> RecoveryManager_heapOffset page_id | INDEX \<Rightarrow> RecoveryManager_indexOffset page_id)"

section \<open>Redo\<close>

definition redo_image :: "WALRecord \<Rightarrow> byte list" where
  "redo_image r = (if wr_type r = UPDATE then wr_new_data r else wr_old_data r)"

definition RecoveryManager_redoRecord :: "WALRecord \<Rightarrow> tables \<Rightarrow> tables result" where
  "RecoveryManager_redoRecord r ts =
     (if wr_type r \<noteq> UPDATE \<and> wr_type r \<noteq> CLR then Inr ts
      else
        bindE (RecoveryManager_fileFor ts (wr_table_id r) (wr_store r)) (\<lambda>file.
        let offset = RecoveryManager_offsetFor (wr_store r) (wr_page_id r);
            lsn_offset = RecoveryManager_lsnFieldOffset (wr_store r) in
        bindE (RecoveryManager_readStoredLSN file offset lsn_offset) (\<lambda>stored_lsn.
        if stored_lsn < wr_lsn r
        then bindE (RecoveryManager_writePageBytes file offset (redo_image r)) (\<lambda>file.
               Inr (set_file ts (wr_table_id r) (wr_store r) file))
        else Inr ts)))"

fun RecoveryManager_redo :: "WALRecord list \<Rightarrow> (tables, unit) effect" where
  "RecoveryManager_redo [] ts = (Inr (), ts)"
| "RecoveryManager_redo (r # rs) ts =
     (case RecoveryManager_redoRecord r ts of Inl e \<Rightarrow> (Inl e, ts) | Inr ts' \<Rightarrow> RecoveryManager_redo rs ts')"

section \<open>Losers\<close>

definition committed_txns :: "WALRecord list \<Rightarrow> u64 set" where
  "committed_txns rs = set (map wr_txn_id (filter (\<lambda>r. wr_type r = COMMIT) rs))"

definition last_lsn_per_txn :: "WALRecord list \<Rightarrow> u64 \<rightharpoonup> u64" where
  "last_lsn_per_txn rs = foldl (\<lambda>m r. if wr_type r \<in> {BEGIN, UPDATE, CLR} then m(wr_txn_id r \<mapsto> wr_lsn r) else m) Map.empty rs"

definition by_lsn :: "WALRecord list \<Rightarrow> u64 \<rightharpoonup> WALRecord" where
  "by_lsn rs = foldl (\<lambda>m r. m(wr_lsn r \<mapsto> r)) Map.empty rs"

section \<open>Undo\<close>

definition make_clr :: "u64 \<Rightarrow> WALRecord \<Rightarrow> WALRecord" where
  "make_clr txn_id r = WALRecord_default\<lparr>wr_txn_id := txn_id, wr_type := CLR, wr_store := wr_store r,
     wr_page_id := wr_page_id r, wr_old_data := wr_old_data r, wr_prev_lsn := wr_prev_lsn r\<rparr>"

definition patch_lsn :: "WALStore \<Rightarrow> byte list \<Rightarrow> u64 \<Rightarrow> byte list" where
  "patch_lsn store img lsn =
     (let lsn_offset = RecoveryManager_lsnFieldOffset store in
      if length img \<ge> lsn_offset + 8 then overwrite img lsn_offset (le_bytes 8 lsn) else img)"

definition RecoveryManager_undoUpdate :: "u64 \<Rightarrow> WALRecord \<Rightarrow> (tables \<times> WALWriter, unit) effect" where
  "RecoveryManager_undoUpdate txn_id r = (\<lambda>(ts, w).
     let (clr_lsn, w) = WALWriter_append w (make_clr txn_id r);
         patched = patch_lsn (wr_store r) (wr_old_data r) clr_lsn in
     case bindE (RecoveryManager_fileFor ts (wr_table_id r) (wr_store r)) (\<lambda>file.
            RecoveryManager_writePageBytes file (RecoveryManager_offsetFor (wr_store r) (wr_page_id r)) patched) of
       Inl e \<Rightarrow> (Inl e, ts, w)
     | Inr file \<Rightarrow> (Inr (), set_file ts (wr_table_id r) (wr_store r) file, w))"

fun RecoveryManager_undoTxn ::
  "nat \<Rightarrow> (u64 \<rightharpoonup> WALRecord) \<Rightarrow> u64 \<Rightarrow> u64 \<Rightarrow> tables \<times> WALWriter \<Rightarrow> (unit result \<times> tables \<times> WALWriter) option" where
  "RecoveryManager_undoTxn 0 recs txn_id cur_lsn s = None"
| "RecoveryManager_undoTxn (Suc fuel) recs txn_id cur_lsn s =
     (if cur_lsn = 0 then Some (Inr (), s)
      else case recs cur_lsn of
        None \<Rightarrow> Some (Inr (), s)
      | Some r \<Rightarrow>
          if wr_type r = BEGIN then Some (Inr (), s)
          else if wr_type r = UPDATE then
            (case RecoveryManager_undoUpdate txn_id r s of
               (Inl e, s) \<Rightarrow> Some (Inl e, s)
             | (Inr _, s) \<Rightarrow> RecoveryManager_undoTxn fuel recs txn_id (wr_prev_lsn r) s)
          else RecoveryManager_undoTxn fuel recs txn_id (wr_prev_lsn r) s)"

fun RecoveryManager_undo ::
  "nat \<Rightarrow> WALRecord list \<Rightarrow> u64 list \<Rightarrow> tables \<times> WALWriter \<Rightarrow> (unit result \<times> tables \<times> WALWriter) option" where
  "RecoveryManager_undo fuel rs [] s = Some (Inr (), s)"
| "RecoveryManager_undo fuel rs (t # order) s =
     (case last_lsn_per_txn rs t of
        None \<Rightarrow> RecoveryManager_undo fuel rs order s
      | Some last_lsn \<Rightarrow>
          if t \<in> committed_txns rs then RecoveryManager_undo fuel rs order s
          else case RecoveryManager_undoTxn fuel (by_lsn rs) t last_lsn s of
            None \<Rightarrow> None
          | Some (Inl e, s) \<Rightarrow> Some (Inl e, s)
          | Some (Inr _, s) \<Rightarrow> RecoveryManager_undo fuel rs order s)"

text \<open>\<open>order\<close> lists the keys of \<open>last_lsn_per_txn\<close> in the hash map's iteration order.\<close>

definition RecoveryManager_run ::
  "nat \<Rightarrow> u64 list \<Rightarrow> tables \<times> WALWriter \<Rightarrow> (unit result \<times> tables \<times> WALWriter) option" where
  "RecoveryManager_run fuel order = (\<lambda>(ts, w).
     let (records, w) = WALWriter_readAll w in
     if records = [] then Some (Inr (), ts, w)
     else case RecoveryManager_redo records ts of
       (Inl e, ts) \<Rightarrow> Some (Inl e, ts, w)
     | (Inr _, ts) \<Rightarrow>
         (case RecoveryManager_undo fuel records order (ts, w) of
            None \<Rightarrow> None
          | Some (Inl e, s) \<Rightarrow> Some (Inl e, s)
          | Some (Inr _, ts, w) \<Rightarrow> Some (Inr (), ts, WALWriter_flush w)))"

section \<open>Pages of a file\<close>

text \<open>
  Page \<open>k\<close> of a file; past the end of the file it counts as zeros, which is what the file holds there
  once a later page is written, and which carries LSN 0.
\<close>

definition file_page :: "byte list \<Rightarrow> nat \<Rightarrow> byte list" where
  "file_page f k = (if k * PAGE_SIZE + PAGE_SIZE \<le> length f then chunk (k * PAGE_SIZE) PAGE_SIZE f else replicate PAGE_SIZE 0)"

definition image_lsn :: "nat \<Rightarrow> byte list \<Rightarrow> u64" where
  "image_lsn lsn_offset img = le_word (chunk lsn_offset 8 img)"

definition aligned :: "byte list \<Rightarrow> bool" where
  "aligned f \<longleftrightarrow> PAGE_SIZE dvd length f"

text \<open>
  The page ids a log names: the pages of the heap from 0, the nodes of the index from 0 behind the page of the root pointer, whose id
  is \<open>-1\<close>.
\<close>

definition first_page :: "WALStore \<Rightarrow> int" where
  "first_page store = (case store of HEAP \<Rightarrow> 0 | INDEX \<Rightarrow> -1)"

definition page_slot :: "WALStore \<Rightarrow> int \<Rightarrow> nat" where
  "page_slot store pid = nat (pid - first_page store)"

definition page_ref :: "WALStore \<Rightarrow> int \<Rightarrow> bool" where
  "page_ref store pid \<longleftrightarrow> first_page store \<le> pid \<and> pid < 2 ^ 31"

lemma le_nat_zeros: "le_nat (replicate n 0) = 0"
  by (induction n) simp_all

lemma image_lsn_zeros [simp]: "image_lsn lo (replicate n 0) = 0"
  by (simp add: image_lsn_def chunk_def le_word_def le_nat_zeros)

lemma aligned_covers:
  assumes "aligned f" "k * PAGE_SIZE < length f"
  shows "k * PAGE_SIZE + PAGE_SIZE \<le> length f"
proof -
  obtain m where "length f = PAGE_SIZE * m" using assms(1) by (auto simp: aligned_def)
  with assms(2) have "k < m" by (simp add: mult.commute PAGE_SIZE_def)
  then have "Suc k * PAGE_SIZE \<le> m * PAGE_SIZE" by (intro mult_le_mono1) simp
  then show ?thesis using \<open>length f = PAGE_SIZE * m\<close> by (simp add: mult.commute add.commute)
qed

lemma readStoredLSN_page:
  assumes "aligned f" "lo + 8 \<le> PAGE_SIZE" "k * PAGE_SIZE + PAGE_SIZE < 2 ^ 64"
  shows "RecoveryManager_readStoredLSN f (k * PAGE_SIZE) lo = Inr (image_lsn lo (file_page f k))"
proof (cases "k * PAGE_SIZE + PAGE_SIZE \<le> length f")
  case True
  then have "chunk lo 8 (chunk (k * PAGE_SIZE) PAGE_SIZE f) = chunk (k * PAGE_SIZE + lo) 8 f"
    using assms(2) by (simp add: chunk_chunk)
  with True assms show ?thesis
    by (simp add: RecoveryManager_readStoredLSN_def image_lsn_def file_page_def)
next
  case False
  then have "\<not> k * PAGE_SIZE < length f" using aligned_covers assms(1) by blast
  with False assms show ?thesis by (simp add: RecoveryManager_readStoredLSN_def file_page_def)
qed

lemma pad_page:
  fixes n :: nat
  assumes "e < length f \<longrightarrow> e + sz \<le> length f"
  defines "g \<equiv> if length f < n then f @ replicate (n - length f) 0 else f"
  shows "(if e + sz \<le> length g then chunk e sz g else replicate sz 0) = (if e + sz \<le> length f then chunk e sz f else replicate sz 0)"
proof (cases "length f < n \<and> e + sz \<le> n \<and> \<not> e + sz \<le> length f")
  case True
  then have "length f \<le> e" using assms(1) by linarith
  moreover have "min sz (n - e) = sz" using True by linarith
  ultimately have "chunk e sz g = replicate sz 0"
    using True by (simp add: g_def chunk_append2 chunk_def)
  with True show ?thesis by (auto simp: g_def)
next
  case False
  then show ?thesis by (auto simp: g_def)
qed

lemma writePageBytes_page:
  assumes "aligned f" "length img = PAGE_SIZE" "k * PAGE_SIZE + PAGE_SIZE < 2 ^ 64"
  obtains f' where "RecoveryManager_writePageBytes f (k * PAGE_SIZE) img = Inr f'" "aligned f'"
    "\<And>j. file_page f' j = (if j = k then img else file_page f j)"
proof -
  let ?n = "k * PAGE_SIZE + PAGE_SIZE"
  let ?f = "if length f < ?n then f @ replicate (?n - length f) 0 else f"
  let ?g = "overwrite ?f (k * PAGE_SIZE) img"
  have len: "?n \<le> length ?f" "length ?f = (if length f < ?n then ?n else length f)" by auto
  have lg: "length ?g = length ?f" using len(1) assms(2) by simp
  have run: "RecoveryManager_writePageBytes f (k * PAGE_SIZE) img = Inr ?g"
    using assms(2,3) by (simp add: RecoveryManager_writePageBytes_def Let_def)
  have "?n = PAGE_SIZE * (k + 1)" by simp
  then have al: "aligned ?g" using assms(1) lg len(2) by (auto simp: aligned_def)
  have same: "file_page ?f j = file_page f j" for j
    unfolding file_page_def by (rule pad_page) (use aligned_covers [OF assms(1), of j] in blast)
  have "file_page ?g j = (if j = k then img else file_page ?f j)" for j
  proof (cases "j = k")
    case True
    with len(1) lg assms(2) show ?thesis by (simp add: file_page_def)
  next
    case False
    then have "j * PAGE_SIZE + PAGE_SIZE \<le> k * PAGE_SIZE \<or> k * PAGE_SIZE + PAGE_SIZE \<le> j * PAGE_SIZE"
      by (metis Suc_leI add.commute linorder_neqE_nat mult_Suc mult_le_mono1)
    with False len(1) lg assms(2) show ?thesis by (auto simp: file_page_def chunk_overwrite_disjoint)
  qed
  with run al same show thesis using that by metis
qed

lemma offset_slot:
  assumes "page_ref st pid"
  shows "RecoveryManager_offsetFor st pid = page_slot st pid * PAGE_SIZE" "page_slot st pid * PAGE_SIZE + PAGE_SIZE < 2 ^ 64"
proof -
  define k where "k = nat (pid - first_page st)"
  have "first_page st \<le> pid" "pid < 2147483648" "- 1 \<le> first_page st"
    using assms by (simp_all add: page_ref_def first_page_def split: WALStore.split)
  then have k: "pid = int k + first_page st" "k \<le> 2147483648" unfolding k_def by linarith+
  then have slot: "page_slot st pid = k" by (simp add: page_slot_def)
  have "int k * 4096 mod 18446744073709551616 = int k * 4096" using k(2) by simp
  moreover have "4096 + (int k - 1) * 4096 = int k * 4096" by simp
  ultimately show "RecoveryManager_offsetFor st pid = page_slot st pid * PAGE_SIZE"
    unfolding slot using k(1)
    by (cases st) (simp_all add: RecoveryManager_offsetFor_def RecoveryManager_heapOffset_def RecoveryManager_indexOffset_def
        first_page_def PAGE_SIZE_def nat_mult_distrib)
  show "page_slot st pid * PAGE_SIZE + PAGE_SIZE < 2 ^ 64" unfolding slot using k(2) by (simp add: PAGE_SIZE_def)
qed

lemma page_slot_inj: "page_ref st p \<Longrightarrow> page_ref st q \<Longrightarrow> page_slot st p = page_slot st q \<longleftrightarrow> p = q"
  by (auto simp: page_slot_def page_ref_def)

lemma lsnField_bound: "RecoveryManager_lsnFieldOffset st + 8 \<le> PAGE_SIZE"
  by (cases st) (simp_all add: RecoveryManager_lsnFieldOffset_def HEAP_LSN_OFFSET_def INDEX_LSN_OFFSET_def PAGE_SIZE_def)

section \<open>Redo refines a fold over each page's records\<close>

type_synonym page_key = "u32 \<times> WALStore \<times> int"

definition page_at :: "tables \<Rightarrow> page_key \<Rightarrow> byte list" where
  "page_at ts = (\<lambda>(table, st, pid). case ts table of None \<Rightarrow> []
     | Some f \<Rightarrow> file_page (case st of HEAP \<Rightarrow> tf_heap f | INDEX \<Rightarrow> tf_index f) (page_slot st pid))"

definition files_ok :: "tables \<Rightarrow> bool" where
  "files_ok ts \<longleftrightarrow> (\<forall>f \<in> ran ts. aligned (tf_heap f) \<and> aligned (tf_index f))"

definition redoable :: "WALRecord \<Rightarrow> bool" where
  "redoable r \<longleftrightarrow> wr_type r = UPDATE \<or> wr_type r = CLR"

definition rec_key :: "WALRecord \<Rightarrow> page_key" where
  "rec_key r = (wr_table_id r, wr_store r, wr_page_id r)"

definition key_ok :: "tables \<Rightarrow> page_key \<Rightarrow> bool" where
  "key_ok ts k \<longleftrightarrow> fst k \<in> dom ts \<and> page_ref (fst (snd k)) (snd (snd k))"

abbreviation lsn_of :: "page_key \<Rightarrow> byte list \<Rightarrow> u64" where
  "lsn_of k img \<equiv> image_lsn (RecoveryManager_lsnFieldOffset (fst (snd k))) img"

text \<open>What the records of one page do to it.\<close>

fun redo_page :: "(byte list \<Rightarrow> u64) \<Rightarrow> byte list \<Rightarrow> WALRecord list \<Rightarrow> byte list" where
  "redo_page lsn img [] = img"
| "redo_page lsn img (r # rs) = redo_page lsn (if lsn img < wr_lsn r then redo_image r else img) rs"

abbreviation page_records :: "page_key \<Rightarrow> WALRecord list \<Rightarrow> WALRecord list" where
  "page_records k rs \<equiv> filter (\<lambda>r. redoable r \<and> rec_key r = k) rs"

lemma store_page:
  assumes "files_ok ts" "key_ok ts k" "length img = PAGE_SIZE"
  obtains bs g' ts' where "RecoveryManager_fileFor ts (fst k) (fst (snd k)) = Inr bs"
    "aligned bs" "file_page bs (page_slot (fst (snd k)) (snd (snd k))) = page_at ts k"
    "RecoveryManager_writePageBytes bs (RecoveryManager_offsetFor (fst (snd k)) (snd (snd k))) img = Inr g'"
    "ts' = set_file ts (fst k) (fst (snd k)) g'" "files_ok ts'" "dom ts' = dom ts"
    "\<And>q. key_ok ts q \<Longrightarrow> page_at ts' q = (if q = k then img else page_at ts q)"
proof -
  obtain t st pid where k: "k = (t, st, pid)" by (cases k)
  with assms obtain f where f: "ts t = Some f" and pid: "page_ref st pid" by (auto simp: key_ok_def)
  let ?bytes = "case st of HEAP \<Rightarrow> tf_heap f | INDEX \<Rightarrow> tf_index f"
  have al: "aligned (tf_heap f)" "aligned (tf_index f)" using assms(1) f by (auto simp: files_ok_def ran_def)
  then have "aligned ?bytes" by (cases st) simp_all
  then obtain g where g: "RecoveryManager_writePageBytes ?bytes (page_slot st pid * PAGE_SIZE) img = Inr g" "aligned g"
      "\<And>j. file_page g j = (if j = page_slot st pid then img else file_page ?bytes j)"
    by (rule writePageBytes_page [OF _ assms(3) offset_slot(2) [OF pid]]) blast
  let ?ts = "set_file ts t st g"
  have ts: "?ts = ts(t \<mapsto> (case st of HEAP \<Rightarrow> f\<lparr>tf_heap := g\<rparr> | INDEX \<Rightarrow> f\<lparr>tf_index := g\<rparr>))"
    by (simp add: set_file_def f)
  have "files_ok ?ts"
    unfolding files_ok_def
  proof
    fix x assume "x \<in> ran ?ts"
    then have "x \<in> ran ts \<or> x = (case st of HEAP \<Rightarrow> f\<lparr>tf_heap := g\<rparr> | INDEX \<Rightarrow> f\<lparr>tf_index := g\<rparr>)"
      unfolding ts by (auto simp: ran_def split: if_splits)
    then show "aligned (tf_heap x) \<and> aligned (tf_index x)"
      using assms(1) al g(2) by (cases st) (auto simp: files_ok_def)
  qed
  moreover have "page_at ?ts q = (if q = k then img else page_at ts q)" if q: "key_ok ts q" for q
  proof -
    obtain t' st' pid' where q': "q = (t', st', pid')" by (cases q)
    then have "page_ref st' pid'" using q by (simp add: key_ok_def)
    then show ?thesis
      using g(3) f pid page_slot_inj [of st' pid' pid] unfolding ts q' k
      by (cases "t' = t"; cases st; cases st') (auto simp: page_at_def)
  qed
  ultimately show thesis
    using f g(1) \<open>aligned ?bytes\<close> offset_slot(1) [OF pid]
    by (intro that [of ?bytes g ?ts]) (auto simp: k RecoveryManager_fileFor_def page_at_def ts)
qed

lemma redoRecord_page:
  assumes "files_ok ts" "redoable r \<longrightarrow> key_ok ts (rec_key r) \<and> length (redo_image r) = PAGE_SIZE"
  obtains ts' where "RecoveryManager_redoRecord r ts = Inr ts'" "files_ok ts'" "dom ts' = dom ts"
    "\<And>q. key_ok ts q \<Longrightarrow> page_at ts' q =
       (if redoable r \<and> rec_key r = q \<and> lsn_of q (page_at ts q) < wr_lsn r then redo_image r else page_at ts q)"
proof (cases "redoable r")
  case True
  let ?k = "rec_key r"
  have k: "fst ?k = wr_table_id r" "fst (snd ?k) = wr_store r" "snd (snd ?k) = wr_page_id r" by (simp_all add: rec_key_def)
  have ok: "key_ok ts ?k" "length (redo_image r) = PAGE_SIZE" using assms True by simp_all
  then have pid: "page_ref (wr_store r) (wr_page_id r)" by (simp add: key_ok_def k)
  obtain bs g' ts' where s: "RecoveryManager_fileFor ts (wr_table_id r) (wr_store r) = Inr bs"
    "aligned bs" "file_page bs (page_slot (wr_store r) (wr_page_id r)) = page_at ts ?k"
    "RecoveryManager_writePageBytes bs (RecoveryManager_offsetFor (wr_store r) (wr_page_id r)) (redo_image r) = Inr g'"
    "ts' = set_file ts (wr_table_id r) (wr_store r) g'" "files_ok ts'" "dom ts' = dom ts"
    "\<And>q. key_ok ts q \<Longrightarrow> page_at ts' q = (if q = ?k then redo_image r else page_at ts q)"
    by (rule store_page [OF assms(1) ok]) (simp add: k)
  have "RecoveryManager_readStoredLSN bs (RecoveryManager_offsetFor (wr_store r) (wr_page_id r)) (RecoveryManager_lsnFieldOffset (wr_store r))
      = Inr (lsn_of ?k (page_at ts ?k))"
    unfolding offset_slot(1) [OF pid] k
    using readStoredLSN_page [OF s(2) lsnField_bound offset_slot(2) [OF pid], of "wr_store r"] s(3) by simp
  then have "RecoveryManager_redoRecord r ts = Inr (if lsn_of ?k (page_at ts ?k) < wr_lsn r then ts' else ts)"
    using True s(1,4,5) by (auto simp: RecoveryManager_redoRecord_def redoable_def Let_def)
  then show thesis
    using s(6-8) assms(1) True by (intro that [of "if lsn_of ?k (page_at ts ?k) < wr_lsn r then ts' else ts"]) auto
next
  case False
  then show thesis using assms(1) by (intro that [of ts]) (auto simp: RecoveryManager_redoRecord_def redoable_def)
qed

lemma redo_pages:
  assumes "files_ok ts" "\<forall>r \<in> set rs. redoable r \<longrightarrow> key_ok ts (rec_key r) \<and> length (redo_image r) = PAGE_SIZE"
  shows "\<exists>ts'. RecoveryManager_redo rs ts = (Inr (), ts') \<and> files_ok ts' \<and> dom ts' = dom ts
    \<and> (\<forall>k. key_ok ts k \<longrightarrow> page_at ts' k = redo_page (lsn_of k) (page_at ts k) (page_records k rs))"
  using assms
proof (induction rs arbitrary: ts)
  case (Cons r rs)
  obtain ts1 where ts1: "RecoveryManager_redoRecord r ts = Inr ts1" "files_ok ts1" "dom ts1 = dom ts"
    "\<And>q. key_ok ts q \<Longrightarrow> page_at ts1 q =
       (if redoable r \<and> rec_key r = q \<and> lsn_of q (page_at ts q) < wr_lsn r then redo_image r else page_at ts q)"
    using redoRecord_page [OF Cons.prems(1), of r] Cons.prems(2) by auto
  have dom: "key_ok ts1 k = key_ok ts k" for k using ts1(3) by (simp add: key_ok_def)
  then obtain ts' where ts': "RecoveryManager_redo rs ts1 = (Inr (), ts')" "files_ok ts'" "dom ts' = dom ts1"
    "\<forall>k. key_ok ts k \<longrightarrow> page_at ts' k = redo_page (lsn_of k) (page_at ts1 k) (page_records k rs)"
    using Cons.IH [OF ts1(2)] Cons.prems(2) by auto
  have "page_at ts' k = redo_page (lsn_of k) (page_at ts k) (page_records k (r # rs))" if "key_ok ts k" for k
    using ts'(4) [rule_format, OF that] ts1(4) [OF that] by auto
  with ts1(1,3) ts'(1-3) show ?case by (intro exI [of _ ts']) simp
qed auto

lemma redo_page_last:
  assumes "sorted_wrt (<) (map wr_lsn rs)" "\<forall>r \<in> set rs. lsn (redo_image r) < wr_lsn r"
  shows "redo_page lsn img rs = (if rs = [] \<or> wr_lsn (last rs) \<le> lsn img then img else redo_image (last rs))"
  using assms
proof (induction rs arbitrary: img)
  case (Cons r rs)
  then have above: "wr_lsn r < wr_lsn (last rs)" if "rs \<noteq> []" using that by simp
  note IH = Cons.IH [of "if lsn img < wr_lsn r then redo_image r else img"]
  show ?case
  proof (cases "rs = []")
    case False
    have "wr_lsn (last rs) \<le> lsn (if lsn img < wr_lsn r then redo_image r else img) \<longleftrightarrow> wr_lsn (last rs) \<le> lsn img"
    proof (cases "lsn img < wr_lsn r")
      case True
      moreover have "lsn (redo_image r) < wr_lsn r" using Cons.prems by simp
      ultimately have "\<not> wr_lsn (last rs) \<le> lsn img" "\<not> wr_lsn (last rs) \<le> lsn (redo_image r)"
        using above [OF False] unfolding not_le by (blast intro: less_trans)+
      with True show ?thesis by simp
    qed simp
    moreover have "wr_lsn (last rs) \<le> lsn img \<Longrightarrow> \<not> lsn img < wr_lsn r" using above [OF False] by (auto simp: not_less)
    ultimately show ?thesis using IH Cons.prems False by auto
  qed (auto simp: not_less)
qed simp

section \<open>Redo on a log\<close>

definition log_pages_ok :: "tables \<Rightarrow> WALRecord list \<Rightarrow> bool" where
  "log_pages_ok ts rs \<longleftrightarrow> (\<forall>r \<in> set rs. redoable r \<longrightarrow> key_ok ts (rec_key r) \<and> length (redo_image r) = PAGE_SIZE
     \<and> lsn_of (rec_key r) (redo_image r) < wr_lsn r)"

lemma wal_log_ascending:
  assumes "wal_log w rs" "length rs < 2 ^ 64"
  shows "sorted_wrt (<) (map wr_lsn rs)"
proof -
  have "wr_lsn (rs ! i) < wr_lsn (rs ! j)" if "i < j" "j < length rs" for i j
  proof -
    have "wr_lsn (rs ! i) = word_of_nat (Suc i)" "wr_lsn (rs ! j) = word_of_nat (Suc j)"
      using assms(1) that by (simp_all add: wal_log_def)
    moreover have "unat (word_of_nat (Suc i) :: u64) = Suc i" "unat (word_of_nat (Suc j) :: u64) = Suc j"
      using that assms(2) by (simp_all add: unat_of_nat take_bit_nat_eq_self del: of_nat_Suc)
    ultimately show ?thesis using that by (simp add: word_less_nat_alt)
  qed
  then show ?thesis by (simp add: sorted_wrt_iff_nth_less)
qed

lemma page_records_ok:
  assumes "sorted_wrt (<) (map wr_lsn rs)" "log_pages_ok ts rs"
  shows "sorted_wrt (<) (map wr_lsn (page_records k rs))" "\<forall>r \<in> set (page_records k rs). lsn_of k (redo_image r) < wr_lsn r"
  using assms by (auto simp: sorted_wrt_map log_pages_ok_def intro: sorted_wrt_filter)

text \<open>The page a redo of \<open>rs\<close> leaves at \<open>k\<close>, where it held \<open>img\<close>.\<close>

definition redone :: "WALRecord list \<Rightarrow> page_key \<Rightarrow> byte list \<Rightarrow> byte list" where
  "redone rs k img = (let own = page_records k rs in
     if own = [] \<or> wr_lsn (last own) \<le> lsn_of k img then img else redo_image (last own))"

lemma redo_redone:
  assumes "sorted_wrt (<) (map wr_lsn rs)" "files_ok ts" "log_pages_ok ts rs"
  shows "\<exists>ts'. RecoveryManager_redo rs ts = (Inr (), ts') \<and> files_ok ts' \<and> dom ts' = dom ts
    \<and> (\<forall>k. key_ok ts k \<longrightarrow> page_at ts' k = redone rs k (page_at ts k))"
proof -
  have "\<forall>r \<in> set rs. redoable r \<longrightarrow> key_ok ts (rec_key r) \<and> length (redo_image r) = PAGE_SIZE"
    using assms(3) by (simp add: log_pages_ok_def)
  from redo_pages [OF assms(2) this] show ?thesis
    using redo_page_last [OF page_records_ok [OF assms(1,3)]] by (auto simp: redone_def Let_def)
qed

lemma ascending_last:
  "sorted_wrt (<) (map f (xs @ ys)) \<Longrightarrow> xs \<noteq> [] \<Longrightarrow> ys \<noteq> [] \<Longrightarrow> f (last xs) < (f (last ys) :: u64)"
  using last_in_set [of xs] last_in_set [of ys] by (auto simp: sorted_wrt_append)

lemma redone_twice:
  assumes "sorted_wrt (<) (map wr_lsn (rs @ qs))" "log_pages_ok ts (rs @ qs)"
  shows "redone (rs @ qs) k (redone rs k img) = redone (rs @ qs) k img"
proof (cases "page_records k rs = [] \<or> wr_lsn (last (page_records k rs)) \<le> lsn_of k img")
  case True
  then show ?thesis by (auto simp: redone_def [of rs] Let_def)
next
  case False
  let ?a = "page_records k rs" and ?b = "page_records k (rs @ qs)"
  have ab: "?b = ?a @ page_records k qs" by simp
  have ok: "sorted_wrt (<) (map wr_lsn ?b)" "\<forall>r \<in> set ?b. lsn_of k (redo_image r) < wr_lsn r"
    by (rule page_records_ok [OF assms])+
  have ne: "?a \<noteq> []" "?b \<noteq> []" using False by auto
  have le: "wr_lsn (last ?a) \<le> wr_lsn (last ?b)"
  proof (cases "page_records k qs = []")
    case False
    then have "wr_lsn (last ?a) < wr_lsn (last ?b)"
      using ascending_last [of wr_lsn ?a "page_records k qs"] ok(1) ne False unfolding ab by simp
    then show ?thesis by simp
  qed (simp add: ab)
  have "lsn_of k (redo_image (last ?a)) < wr_lsn (last ?a)" using ok(2) last_in_set [OF ne(1)] by auto
  moreover have "lsn_of k img < wr_lsn (last ?a)" using False by (simp add: not_le)
  ultimately have "\<not> wr_lsn (last ?b) \<le> lsn_of k (redo_image (last ?a))" "\<not> wr_lsn (last ?b) \<le> lsn_of k img"
    using le unfolding not_le by (blast intro: less_le_trans)+
  moreover have "redone rs k img = redo_image (last ?a)" using False by (simp add: redone_def Let_def)
  ultimately show ?thesis using ne(1) unfolding redone_def [of "rs @ qs"] Let_def by simp
qed

section \<open>Undo of one transaction\<close>

text \<open>\<open>us\<close> are the records the walk from \<open>cur\<close> visits before it stops.\<close>

fun chain :: "(u64 \<rightharpoonup> WALRecord) \<Rightarrow> u64 \<Rightarrow> WALRecord list \<Rightarrow> bool" where
  "chain recs cur [] \<longleftrightarrow> cur = 0 \<or> recs cur = None \<or> (\<exists>r. recs cur = Some r \<and> wr_type r = BEGIN)"
| "chain recs cur (r # us) \<longleftrightarrow> cur \<noteq> 0 \<and> recs cur = Some r \<and> wr_type r \<noteq> BEGIN \<and> chain recs (wr_prev_lsn r) us"

lemma chain_exists:
  assumes "\<And>l r. recs l = Some r \<Longrightarrow> wr_prev_lsn r < l"
  shows "\<exists>us. chain recs cur us \<and> length us \<le> unat cur"
proof (induction "unat cur" arbitrary: cur rule: less_induct)
  case less
  show ?case
  proof (cases "chain recs cur []")
    case True
    then show ?thesis by (intro exI [of _ "[]"]) simp
  next
    case False
    then obtain r where r: "recs cur = Some r" "cur \<noteq> 0" "wr_type r \<noteq> BEGIN" by auto
    have lt: "unat (wr_prev_lsn r) < unat cur" using assms [OF r(1)] by (simp add: word_less_nat_alt)
    from less [OF lt] obtain us where "chain recs (wr_prev_lsn r) us" "length us \<le> unat (wr_prev_lsn r)" by blast
    with r lt show ?thesis by (intro exI [of _ "r # us"]) auto
  qed
qed

definition updates :: "WALRecord list \<Rightarrow> WALRecord list" where
  "updates us = filter (\<lambda>r. wr_type r = UPDATE) us"

definition undo_ok :: "tables \<Rightarrow> u64 \<Rightarrow> WALRecord list \<Rightarrow> bool" where
  "undo_ok ts t us \<longleftrightarrow> (\<forall>r \<in> set us. wr_type r = UPDATE \<longrightarrow> key_ok ts (rec_key r) \<and> length (wr_old_data r) = PAGE_SIZE
     \<and> loggable (make_clr t r))"

lemma length_patch_lsn: "length img = PAGE_SIZE \<Longrightarrow> length (patch_lsn st img l) = PAGE_SIZE"
  by (cases st) (simp_all add: patch_lsn_def Let_def RecoveryManager_lsnFieldOffset_def HEAP_LSN_OFFSET_def INDEX_LSN_OFFSET_def PAGE_SIZE_def)

text \<open>The compensation records for the updates \<open>us\<close>, numbered from \<open>n\<close>, and the pages they leave.\<close>

fun clrs :: "u64 \<Rightarrow> nat \<Rightarrow> WALRecord list \<Rightarrow> WALRecord list" where
  "clrs t n [] = []"
| "clrs t n (r # us) = (make_clr t r)\<lparr>wr_lsn := word_of_nat (Suc n)\<rparr> # clrs t (Suc n) us"

fun undone :: "nat \<Rightarrow> WALRecord list \<Rightarrow> page_key \<Rightarrow> byte list \<Rightarrow> byte list" where
  "undone n [] k img = img"
| "undone n (r # us) k img =
     undone (Suc n) us k (if rec_key r = k then patch_lsn (wr_store r) (wr_old_data r) (word_of_nat (Suc n)) else img)"

lemma undoUpdate_ok:
  assumes "files_ok ts" "wal_log w rs" "key_ok ts (rec_key r)" "length (wr_old_data r) = PAGE_SIZE" "loggable (make_clr t r)"
  shows "\<exists>ts' w'. RecoveryManager_undoUpdate t r (ts, w) = (Inr (), ts', w') \<and> files_ok ts' \<and> dom ts' = dom ts
    \<and> wal_log w' (rs @ clrs t (length rs) [r]) \<and> (\<forall>k. key_ok ts k \<longrightarrow> page_at ts' k = undone (length rs) [r] k (page_at ts k))"
proof -
  obtain l w' where a: "WALWriter_append w (make_clr t r) = (l, w')" by (rule prod.exhaust)
  note al = wal_log_append [OF assms(2,5) a]
  let ?k = "rec_key r" and ?img = "patch_lsn (wr_store r) (wr_old_data r) l"
  have k: "fst ?k = wr_table_id r" "fst (snd ?k) = wr_store r" "snd (snd ?k) = wr_page_id r" by (simp_all add: rec_key_def)
  obtain bs g ts' where s: "RecoveryManager_fileFor ts (wr_table_id r) (wr_store r) = Inr bs"
    "RecoveryManager_writePageBytes bs (RecoveryManager_offsetFor (wr_store r) (wr_page_id r)) ?img = Inr g"
    "ts' = set_file ts (wr_table_id r) (wr_store r) g" "files_ok ts'" "dom ts' = dom ts"
    "\<And>q. key_ok ts q \<Longrightarrow> page_at ts' q = (if q = ?k then ?img else page_at ts q)"
    by (rule store_page [OF assms(1,3) length_patch_lsn [OF assms(4), of "wr_store r" l]]) (simp add: k)
  have "RecoveryManager_undoUpdate t r (ts, w) = (Inr (), ts', w')"
    using s(1-3) a by (simp add: RecoveryManager_undoUpdate_def Let_def)
  with s(4-6) al show ?thesis by (intro exI [of _ ts'] exI [of _ w']) auto
qed

lemma undo_chain:
  assumes "files_ok ts" "wal_log w rs" "chain recs cur us" "undo_ok ts t us" "length us < fuel"
  shows "\<exists>ts' w'. RecoveryManager_undoTxn fuel recs t cur (ts, w) = Some (Inr (), ts', w') \<and> files_ok ts' \<and> dom ts' = dom ts
    \<and> wal_log w' (rs @ clrs t (length rs) (updates us))
    \<and> (\<forall>k. key_ok ts k \<longrightarrow> page_at ts' k = undone (length rs) (updates us) k (page_at ts k))"
  using assms
proof (induction us arbitrary: fuel cur ts w rs)
  case Nil
  then obtain n where "fuel = Suc n" by (cases fuel) auto
  with Nil show ?case by (auto simp: updates_def)
next
  case (Cons r us)
  then obtain n where n: "fuel = Suc n" "length us < n" by (cases fuel) auto
  from Cons.prems have c: "cur \<noteq> 0" "recs cur = Some r" "wr_type r \<noteq> BEGIN" "chain recs (wr_prev_lsn r) us" by simp_all
  show ?case
  proof (cases "wr_type r = UPDATE")
    case True
    then have r: "key_ok ts (rec_key r)" "length (wr_old_data r) = PAGE_SIZE" "loggable (make_clr t r)" and us: "undo_ok ts t us"
      using Cons.prems(4) by (auto simp: undo_ok_def)
    from undoUpdate_ok [OF Cons.prems(1,2) r] obtain ts1 w1 where u: "RecoveryManager_undoUpdate t r (ts, w) = (Inr (), ts1, w1)"
      "files_ok ts1" "dom ts1 = dom ts" "wal_log w1 (rs @ clrs t (length rs) [r])"
      "\<forall>k. key_ok ts k \<longrightarrow> page_at ts1 k = undone (length rs) [r] k (page_at ts k)" by blast
    have ko: "key_ok ts1 k = key_ok ts k" for k using u(3) by (simp add: key_ok_def)
    then have "undo_ok ts1 t us" using us by (simp add: undo_ok_def)
    from Cons.IH [OF u(2,4) c(4) this n(2)] ko show ?thesis
      using c n(1) u(1,3,5) True by (simp add: updates_def)
  next
    case False
    with Cons.IH [OF Cons.prems(1,2) c(4) _ n(2)] Cons.prems(4) c n(1) show ?thesis
      by (simp add: updates_def undo_ok_def)
  qed
qed

lemma undone_last:
  "\<exists>lsn. undone n us k img = (let own = filter (\<lambda>r. rec_key r = k) us in
     if own = [] then img else patch_lsn (fst (snd k)) (wr_old_data (last own)) lsn)"
proof (induction us arbitrary: n img)
  case (Cons r us)
  show ?case
  proof (cases "rec_key r = k \<and> filter (\<lambda>r. rec_key r = k) us = []")
    case True
    then have "undone (Suc n) us k x = x" for x using Cons.IH [of "Suc n" x] by (auto simp: Let_def)
    with True show ?thesis by (auto simp: rec_key_def Let_def)
  next
    case False
    with Cons.IH [of "Suc n" "if rec_key r = k then patch_lsn (wr_store r) (wr_old_data r) (word_of_nat (Suc n)) else img"]
    show ?thesis by (auto simp: Let_def)
  qed
qed simp

section \<open>Termination\<close>

lemma by_lsn_Some: "by_lsn rs l = Some r \<Longrightarrow> r \<in> set rs \<and> wr_lsn r = l"
proof -
  have "foldl (\<lambda>m r. m(wr_lsn r \<mapsto> r)) m rs l = Some r \<Longrightarrow> (r \<in> set rs \<and> wr_lsn r = l) \<or> m l = Some r" for m
  proof (induction rs arbitrary: m)
    case (Cons r rs)
    from Cons.IH [OF Cons.prems [unfolded foldl_Cons]] show ?case by (auto split: if_splits)
  qed simp
  then show "by_lsn rs l = Some r \<Longrightarrow> r \<in> set rs \<and> wr_lsn r = l" by (fastforce simp: by_lsn_def)
qed

lemma last_lsn_Some: "last_lsn_per_txn rs t = Some l \<Longrightarrow> \<exists>r \<in> set rs. wr_lsn r = l"
proof -
  have "foldl (\<lambda>m r. if wr_type r \<in> {BEGIN, UPDATE, CLR} then m(wr_txn_id r \<mapsto> wr_lsn r) else m) m rs t = Some l \<Longrightarrow>
      (\<exists>r \<in> set rs. wr_lsn r = l) \<or> m t = Some l" for m
  proof (induction rs arbitrary: m)
    case (Cons r rs)
    from Cons.IH [OF Cons.prems [unfolded foldl_Cons]] show ?case by (auto split: if_splits)
  qed simp
  then show "last_lsn_per_txn rs t = Some l \<Longrightarrow> \<exists>r \<in> set rs. wr_lsn r = l" by (fastforce simp: last_lsn_per_txn_def)
qed

lemma undoTxn_total:
  assumes "\<And>l r. recs l = Some r \<Longrightarrow> wr_prev_lsn r < l" "unat cur < fuel"
  shows "RecoveryManager_undoTxn fuel recs t cur s \<noteq> None"
  using assms(2)
proof (induction fuel arbitrary: cur s)
  case (Suc fuel)
  have "unat (wr_prev_lsn r) < fuel" if "recs cur = Some r" for r
    using assms(1) [OF that] Suc.prems by (simp add: word_less_nat_alt)
  then show ?case using Suc.IH by (auto split: option.splits prod.splits sum.splits)
qed simp

lemma undo_total:
  assumes "\<forall>r \<in> set rs. wr_prev_lsn r < wr_lsn r \<and> unat (wr_lsn r) < fuel"
  shows "RecoveryManager_undo fuel rs order s \<noteq> None"
proof (induction order arbitrary: s)
  case (Cons t order)
  have "RecoveryManager_undoTxn fuel (by_lsn rs) t l s \<noteq> None" if "last_lsn_per_txn rs t = Some l" for l
    using assms last_lsn_Some [OF that] by (intro undoTxn_total) (auto dest: by_lsn_Some)
  then show ?case using Cons.IH by (auto split: option.splits prod.splits sum.splits)
qed simp

section \<open>Logs and files to try the properties on\<close>

definition log_of :: "WALRecord list \<Rightarrow> WALWriter" where
  "log_of rs = foldl (\<lambda>w r. snd (WALWriter_append w r)) (WALWriter_open []) rs"

lemma wal_log_of:
  "\<forall>r \<in> set rs. loggable r \<Longrightarrow> \<forall>i < length rs. wr_lsn (rs ! i) = word_of_nat (Suc i) \<Longrightarrow> wal_log (log_of rs) rs"
proof (induction rs rule: rev_induct)
  case Nil
  then show ?case by (simp add: log_of_def wal_log_empty)
next
  case (snoc r rs)
  have "wr_lsn (rs ! i) = word_of_nat (Suc i)" if "i < length rs" for i
    using snoc.prems(2) [rule_format, of i] that by (simp add: nth_append)
  then have IH: "wal_log (log_of rs) rs" using snoc.IH snoc.prems(1) by simp
  obtain l w where a: "WALWriter_append (log_of rs) r = (l, w)" by (rule prod.exhaust)
  have lr: "loggable r" using snoc.prems(1) by simp
  have "wr_lsn r = word_of_nat (Suc (length rs))" using snoc.prems(2) [rule_format, of "length rs"] by simp
  then have "r\<lparr>wr_lsn := l\<rparr> = r" using wal_log_append(1) [OF IH lr a] by simp
  with wal_log_append(2) [OF IH lr a] a show ?case by (simp add: log_of_def)
qed

definition empty_tables :: tables where
  "empty_tables = (\<lambda>t. if t \<le> 1 then Some \<lparr>tf_heap = [], tf_index = []\<rparr> else None)"

abbreviation filled :: "byte \<Rightarrow> byte list" where
  "filled b \<equiv> (replicate PAGE_SIZE 0)[100 := b]"

text \<open>A header page with root \<open>i\<close>; the log of the first indexed insert: a heap page and the root pointer.\<close>

definition root_image :: "int \<Rightarrow> byte list" where
  "root_image i = overwrite (replicate PAGE_SIZE 0) 0 (le_int i)"

definition redo_log :: "WALRecord list" where
  "redo_log =
     [WALRecord_default\<lparr>wr_lsn := 1, wr_txn_id := 1, wr_type := BEGIN\<rparr>,
      WALRecord_default\<lparr>wr_lsn := 2, wr_prev_lsn := 1, wr_txn_id := 1, wr_type := UPDATE, wr_page_id := 0,
        wr_old_data := replicate PAGE_SIZE 0, wr_new_data := filled 1\<rparr>,
      WALRecord_default\<lparr>wr_lsn := 3, wr_prev_lsn := 2, wr_txn_id := 1, wr_type := UPDATE, wr_store := INDEX, wr_page_id := -1,
        wr_old_data := root_image (-1), wr_new_data := root_image 5\<rparr>]"

lemma empty_tables_ok: "files_ok empty_tables" "t \<le> 1 \<Longrightarrow> t \<in> dom empty_tables"
  by (auto simp: files_ok_def empty_tables_def ran_def aligned_def split: if_splits)

lemma filled_lsn: "image_lsn (RecoveryManager_lsnFieldOffset st) (filled b) = 0"
  by (cases st) (simp_all add: image_lsn_def chunk_def RecoveryManager_lsnFieldOffset_def HEAP_LSN_OFFSET_def INDEX_LSN_OFFSET_def
      PAGE_SIZE_def drop_update_swap take_update_swap list_update_beyond le_word_def le_nat_zeros)

lemma root_image_props: "length (root_image i) = PAGE_SIZE" "image_lsn INDEX_LSN_OFFSET (root_image i) = 0"
proof -
  show "length (root_image i) = PAGE_SIZE" by (simp add: root_image_def PAGE_SIZE_def)
  have "chunk 12 8 (root_image i) = chunk 12 8 (replicate PAGE_SIZE (0 :: byte))"
    unfolding root_image_def by (rule chunk_overwrite_disjoint) (simp_all add: PAGE_SIZE_def)
  then show "image_lsn INDEX_LSN_OFFSET (root_image i) = 0"
    by (simp add: image_lsn_def INDEX_LSN_OFFSET_def chunk_def le_word_def le_nat_zeros)
qed

lemma redo_log_ok: "wal_log (log_of redo_log) redo_log" "log_pages_ok empty_tables redo_log"
  "\<forall>r \<in> set redo_log. wr_prev_lsn r < wr_lsn r" "length redo_log < 2 ^ 64"
proof -
  show "wal_log (log_of redo_log) redo_log"
  proof (rule wal_log_of)
    show "\<forall>i < length redo_log. wr_lsn (redo_log ! i) = word_of_nat (Suc i)"
      by (auto simp: redo_log_def WALRecord_default_def less_Suc_eq)
  qed (simp add: redo_log_def WALRecord_default_def loggable_def int32_def MAX_RECORD_BODY_SIZE_def root_image_props, simp add: PAGE_SIZE_def)
  show "log_pages_ok empty_tables redo_log"
    using filled_lsn [of HEAP 1] root_image_props [of 5]
    by (simp add: RecoveryManager_lsnFieldOffset_def log_pages_ok_def redo_log_def WALRecord_default_def redoable_def key_ok_def rec_key_def page_ref_def first_page_def
        redo_image_def empty_tables_ok)
qed (simp_all add: redo_log_def WALRecord_default_def)

section \<open>Properties\<close>

text \<open>
  C9: redo brings every page of every heap and index file to its latest logged state, the header page with the root pointer of an
  index (page id \<open>-1\<close>) included. On a log in LSN order whose images are
  whole pages of known tables, each carrying an LSN older than its record (an after-image is taken before the page is
  stamped), redo succeeds, and afterwards each page is the image of the page's last record if that record is newer than the
  LSN the page carried on disk, and the page as it was on disk otherwise; pages past the end of a file count as pages with LSN 0.
\<close>
theorem RecoveryManager_redo_latest:
  assumes "wal_log w rs" "length rs < 2 ^ 64" "files_ok ts" "log_pages_ok ts rs"
  shows "\<exists>ts'. RecoveryManager_redo rs ts = (Inr (), ts') \<and> dom ts' = dom ts
    \<and> (\<forall>k. key_ok ts k \<longrightarrow> page_at ts' k =
         (let own = page_records k rs in
          if own = [] \<or> wr_lsn (last own) \<le> lsn_of k (page_at ts k) then page_at ts k else redo_image (last own)))"
  using redo_redone [OF wal_log_ascending [OF assms(1,2)] assms(3,4)] by (auto simp: redone_def)

theorem RecoveryManager_redo_latest_witness:
  "\<exists>ts'. RecoveryManager_redo redo_log empty_tables = (Inr (), ts') \<and> page_at ts' (0, HEAP, 0) = filled 1
    \<and> page_at ts' (0, INDEX, -1) = root_image 5"
proof -
  have "key_ok empty_tables (0, HEAP, 0)" "key_ok empty_tables (0, INDEX, -1)"
    by (simp_all add: key_ok_def page_ref_def first_page_def empty_tables_ok)
  moreover have "page_records (0, HEAP, 0) redo_log = [redo_log ! 1]" "redo_image (redo_log ! 1) = filled 1" "wr_lsn (redo_log ! 1) = 2"
      "page_records (0, INDEX, -1) redo_log = [redo_log ! 2]" "redo_image (redo_log ! 2) = root_image 5" "wr_lsn (redo_log ! 2) = 3"
    by (simp_all add: redo_log_def WALRecord_default_def redoable_def rec_key_def redo_image_def)
  moreover have "page_at empty_tables (0, st, p) = replicate PAGE_SIZE 0" for st p
    by (cases st) (simp_all add: page_at_def empty_tables_def file_page_def PAGE_SIZE_def)
  ultimately show ?thesis
    using RecoveryManager_redo_latest [OF redo_log_ok(1,4) empty_tables_ok(1) redo_log_ok(2)] by (force simp: Let_def)
qed

text \<open>
  C31: redo can be interrupted and repeated. If recovery crashes after redoing any prefix of the log and starts
  over, every page, the page of a root pointer included, ends up exactly as after one uninterrupted redo; in particular redoing twice is
  redoing once. The log is one of whole pages of known tables whose images carry an LSN older than their record.
\<close>
theorem RecoveryManager_redo_restartable:
  assumes "wal_log w (rs @ qs)" "length (rs @ qs) < 2 ^ 64" "files_ok ts" "log_pages_ok ts (rs @ qs)"
  shows "\<exists>ts1 ts2 ts'. RecoveryManager_redo rs ts = (Inr (), ts1) \<and> RecoveryManager_redo (rs @ qs) ts1 = (Inr (), ts2)
    \<and> RecoveryManager_redo (rs @ qs) ts = (Inr (), ts') \<and> (\<forall>k. key_ok ts k \<longrightarrow> page_at ts2 k = page_at ts' k)"
proof -
  note asc = wal_log_ascending [OF assms(1,2)]
  have sub: "sorted_wrt (<) (map wr_lsn rs)" "log_pages_ok ts rs"
    using asc assms(4) by (auto simp: sorted_wrt_append log_pages_ok_def)
  obtain ts1 where ts1: "RecoveryManager_redo rs ts = (Inr (), ts1)" "files_ok ts1" "dom ts1 = dom ts"
    "\<forall>k. key_ok ts k \<longrightarrow> page_at ts1 k = redone rs k (page_at ts k)"
    using redo_redone [OF sub(1) assms(3) sub(2)] by blast
  have ko: "key_ok ts1 k = key_ok ts k" for k using ts1(3) by (simp add: key_ok_def)
  then have "log_pages_ok ts1 (rs @ qs)" using assms(4) by (simp add: log_pages_ok_def)
  from redo_redone [OF asc ts1(2) this] obtain ts2 where ts2: "RecoveryManager_redo (rs @ qs) ts1 = (Inr (), ts2)"
    "\<forall>k. key_ok ts k \<longrightarrow> page_at ts2 k = redone (rs @ qs) k (page_at ts1 k)" unfolding ko by blast
  obtain ts' where ts': "RecoveryManager_redo (rs @ qs) ts = (Inr (), ts')"
    "\<forall>k. key_ok ts k \<longrightarrow> page_at ts' k = redone (rs @ qs) k (page_at ts k)"
    using redo_redone [OF asc assms(3,4)] by blast
  have "page_at ts2 k = page_at ts' k" if "key_ok ts k" for k
    unfolding ts2(2) [rule_format, OF that] ts'(2) [rule_format, OF that] ts1(4) [rule_format, OF that] by (rule redone_twice [OF asc assms(4)])
  with ts1(1) ts2(1) ts'(1) show ?thesis by blast
qed

theorem RecoveryManager_redo_restartable_witness:
  "\<exists>ts1 ts2. RecoveryManager_redo redo_log empty_tables = (Inr (), ts1) \<and> RecoveryManager_redo redo_log ts1 = (Inr (), ts2)
    \<and> page_at ts2 (0, HEAP, 0) = page_at ts1 (0, HEAP, 0) \<and> page_at ts2 (0, INDEX, -1) = page_at ts1 (0, INDEX, -1)"
proof -
  have "key_ok empty_tables (0, HEAP, 0)" "key_ok empty_tables (0, INDEX, -1)"
    by (simp_all add: key_ok_def page_ref_def first_page_def empty_tables_ok)
  then show ?thesis
    using RecoveryManager_redo_restartable [of "log_of redo_log" redo_log "[]" empty_tables] redo_log_ok empty_tables_ok(1) by auto
qed

text \<open>
  C32: undoing one loser reverts it. Walking its records backwards from its last one, the walk ends, every page the
  transaction updated gets the before-image of the oldest of those updates, stamped with the LSN of the compensation record, every other
  page is untouched, and the log gains one CLR per undone update, newest update first.
\<close>
theorem RecoveryManager_undo_reverts:
  assumes "files_ok ts" "wal_log w rs" "chain recs cur us" "undo_ok ts t us" "length us < fuel"
  shows "\<exists>ts' w'. RecoveryManager_undoTxn fuel recs t cur (ts, w) = Some (Inr (), ts', w')
    \<and> wal_log w' (rs @ clrs t (length rs) (updates us))
    \<and> (\<forall>k. key_ok ts k \<longrightarrow> (\<exists>lsn. page_at ts' k =
         (let own = filter (\<lambda>r. rec_key r = k) (updates us) in
          if own = [] then page_at ts k else patch_lsn (fst (snd k)) (wr_old_data (last own)) lsn)))"
  using undo_chain [OF assms] undone_last by metis

theorem RecoveryManager_undo_reverts_witness:
  "\<exists>ts' w' lsn. RecoveryManager_undoTxn 3 (by_lsn redo_log) 1 2 (empty_tables, log_of redo_log) = Some (Inr (), ts', w')
    \<and> page_at ts' (0, HEAP, 0) = patch_lsn HEAP (replicate PAGE_SIZE 0) lsn"
proof -
  let ?u = "redo_log ! 1"
  have u: "wr_type ?u = UPDATE" "rec_key ?u = (0, HEAP, 0)" "wr_old_data ?u = replicate PAGE_SIZE 0" "updates [?u] = [?u]"
    by (simp_all add: redo_log_def WALRecord_default_def rec_key_def updates_def)
  have k: "key_ok empty_tables (0, HEAP, 0)" by (simp add: key_ok_def page_ref_def first_page_def empty_tables_ok)
  have "chain (by_lsn redo_log) 2 [?u]" by (simp add: by_lsn_def redo_log_def WALRecord_default_def)
  moreover have "undo_ok empty_tables 1 [?u]"
    using k u by (simp add: undo_ok_def loggable_def make_clr_def redo_log_def WALRecord_default_def int32_def MAX_RECORD_BODY_SIZE_def PAGE_SIZE_def)
  ultimately obtain ts' w' where "RecoveryManager_undoTxn 3 (by_lsn redo_log) 1 2 (empty_tables, log_of redo_log) = Some (Inr (), ts', w')"
    "\<forall>k. key_ok empty_tables k \<longrightarrow> (\<exists>lsn. page_at ts' k =
         (let own = filter (\<lambda>r. rec_key r = k) (updates [?u]) in
          if own = [] then page_at empty_tables k else patch_lsn (fst (snd k)) (wr_old_data (last own)) lsn))"
    using RecoveryManager_undo_reverts [OF empty_tables_ok(1) redo_log_ok(1), of "by_lsn redo_log" 2 "[?u]" 1 3] by force
  with k u show ?thesis by (force simp: Let_def)
qed

text \<open>
  C33: recovery terminates on every log whose \<open>prev_lsn\<close> chains point backwards, as the transaction manager writes them, whatever the
  files hold and in whatever order the hash map lists the losers: as many steps per loser as the log has records are enough.
\<close>
theorem RecoveryManager_run_terminates:
  assumes "wal_log w rs" "length rs < 2 ^ 64" "\<forall>r \<in> set rs. wr_prev_lsn r < wr_lsn r"
  shows "\<exists>r s. RecoveryManager_run (Suc (length rs)) order (ts, w) = Some (r, s)"
proof -
  have "unat (wr_lsn r) < Suc (length rs)" if mem: "r \<in> set rs" for r
  proof -
    obtain i where i: "i < length rs" "rs ! i = r" using mem unfolding in_set_conv_nth by blast
    then have "wr_lsn r = word_of_nat (Suc i)" using assms(1) by (auto simp: wal_log_def)
    moreover have "unat (word_of_nat (Suc i) :: u64) = Suc i"
      using i(1) assms(2) by (simp add: unat_of_nat take_bit_nat_eq_self del: of_nat_Suc)
    ultimately show ?thesis using i(1) by simp
  qed
  with assms(3) have "RecoveryManager_undo (Suc (length rs)) rs order s \<noteq> None" for s by (intro undo_total) simp
  then have undo: "\<exists>r ts' w'. RecoveryManager_undo (Suc (length rs)) rs order s = Some (r, ts', w')" for s
    by (metis option.exhaust prod.exhaust)
  obtain x ts1 where redo: "RecoveryManager_redo rs ts = (x, ts1)" by (rule prod.exhaust)
  obtain r ts2 w2 where "RecoveryManager_undo (Suc (length rs)) rs order (ts1, WALWriter_flush w) = Some (r, ts2, w2)"
    using undo by blast
  then show ?thesis
    by (cases x; cases r) (simp_all add: RecoveryManager_run_def wal_log_readAll [OF assms(1)] redo)
qed

theorem RecoveryManager_run_terminates_witness:
  "\<exists>r s. RecoveryManager_run (Suc (length redo_log)) [1] (empty_tables, log_of redo_log) = Some (r, s)"
  by (rule RecoveryManager_run_terminates [OF redo_log_ok(1,4,3)])

section \<open>Two ways recovery loses committed data\<close>

text \<open>
  Two transactions change different rows of the same page; the second commits, the first does not. \<open>a\<close>, \<open>b\<close>, \<open>c\<close> are the page before, between
  and after the two changes.
\<close>

definition shared_page_log :: "byte list \<Rightarrow> byte list \<Rightarrow> byte list \<Rightarrow> WALRecord list" where
  "shared_page_log a b c =
     [WALRecord_default\<lparr>wr_lsn := 1, wr_txn_id := 1, wr_type := BEGIN\<rparr>,
      WALRecord_default\<lparr>wr_lsn := 2, wr_txn_id := 2, wr_type := BEGIN\<rparr>,
      WALRecord_default\<lparr>wr_lsn := 3, wr_prev_lsn := 1, wr_txn_id := 1, wr_type := UPDATE, wr_page_id := 0, wr_old_data := a, wr_new_data := b\<rparr>,
      WALRecord_default\<lparr>wr_lsn := 4, wr_prev_lsn := 2, wr_txn_id := 2, wr_type := UPDATE, wr_page_id := 0, wr_old_data := b, wr_new_data := c\<rparr>,
      WALRecord_default\<lparr>wr_lsn := 5, wr_prev_lsn := 4, wr_txn_id := 2, wr_type := COMMIT\<rparr>]"

text \<open>One transaction changed page 0 of table 1 and did not commit.\<close>

definition other_table_log :: "byte list \<Rightarrow> byte list \<Rightarrow> WALRecord list" where
  "other_table_log a b =
     [WALRecord_default\<lparr>wr_lsn := 1, wr_txn_id := 1, wr_type := BEGIN\<rparr>,
      WALRecord_default\<lparr>wr_lsn := 2, wr_prev_lsn := 1, wr_txn_id := 1, wr_type := UPDATE, wr_table_id := 1, wr_page_id := 0,
        wr_old_data := a, wr_new_data := b\<rparr>]"

lemmas scenario_simps = shared_page_log_def other_table_log_def WALRecord_default_def rec_key_def redoable_def redo_image_def
  key_ok_def page_ref_def first_page_def

lemma loggable_clr: "length (wr_old_data r) = PAGE_SIZE \<Longrightarrow> page_ref (wr_store r) (wr_page_id r) \<Longrightarrow> loggable (make_clr t r)"
  by (cases "wr_store r")
    (auto simp: loggable_def make_clr_def WALRecord_default_def MAX_RECORD_BODY_SIZE_def PAGE_SIZE_def page_ref_def first_page_def int32_def)

text \<open>A run whose only loser is \<open>t\<close>.\<close>

lemma run_one_loser:
  assumes log: "wal_log w rs" "rs \<noteq> []" and ts: "files_ok ts"
    and ok: "\<forall>r \<in> set rs. redoable r \<longrightarrow> key_ok ts (rec_key r) \<and> length (redo_image r) = PAGE_SIZE"
    and order: "\<forall>t' \<in> set order. t' = t \<or> t' \<in> committed_txns rs" "t \<in> set order" "distinct order"
    and t: "last_lsn_per_txn rs t = Some cur" "t \<notin> committed_txns rs" "chain (by_lsn rs) cur us" "length us < fuel"
    and us: "\<forall>r \<in> set us. wr_type r = UPDATE \<longrightarrow> key_ok ts (rec_key r) \<and> length (wr_old_data r) = PAGE_SIZE"
  shows "\<exists>ts' w'. RecoveryManager_run fuel order (ts, w) = Some (Inr (), ts', w') \<and> files_ok ts' \<and> dom ts' = dom ts
    \<and> wal_log w' (rs @ clrs t (length rs) (updates us))
    \<and> (\<forall>k. key_ok ts k \<longrightarrow> page_at ts' k =
         undone (length rs) (updates us) k (redo_page (lsn_of k) (page_at ts k) (page_records k rs)))"
proof -
  obtain ts1 where ts1: "RecoveryManager_redo rs ts = (Inr (), ts1)" "files_ok ts1" "dom ts1 = dom ts"
    "\<forall>k. key_ok ts k \<longrightarrow> page_at ts1 k = redo_page (lsn_of k) (page_at ts k) (page_records k rs)"
    using redo_pages [OF ts ok] by blast
  have ko: "key_ok ts1 k = key_ok ts k" for k using ts1(3) by (simp add: key_ok_def)
  have "undo_ok ts1 t us" unfolding undo_ok_def ko using us loggable_clr by (auto simp: key_ok_def rec_key_def)
  from undo_chain [OF ts1(2) wal_log_flush [OF log(1)] t(3) this t(4)] obtain ts' w' where u:
    "RecoveryManager_undoTxn fuel (by_lsn rs) t cur (ts1, WALWriter_flush w) = Some (Inr (), ts', w')" "files_ok ts'" "dom ts' = dom ts1"
    "wal_log w' (rs @ clrs t (length rs) (updates us))"
    "\<forall>k. key_ok ts1 k \<longrightarrow> page_at ts' k = undone (length rs) (updates us) k (page_at ts1 k)" by blast
  have skip: "RecoveryManager_undo fuel rs qs s = Some (Inr (), s)" if "\<forall>t' \<in> set qs. t' \<in> committed_txns rs" for qs s
    using that by (induction qs arbitrary: s) (auto split: option.splits)
  have "RecoveryManager_undo fuel rs order (ts1, WALWriter_flush w) = Some (Inr (), ts', w')"
    using order
  proof (induction order)
    case (Cons x order)
    show ?case
    proof (cases "x = t")
      case True
      then have "\<forall>t' \<in> set order. t' \<in> committed_txns rs" using Cons.prems by auto
      with True skip u(1) t(1,2) show ?thesis by simp
    next
      case False
      with Cons show ?thesis by (auto split: option.splits)
    qed
  qed simp
  then have "RecoveryManager_run fuel order (ts, w) = Some (Inr (), ts', WALWriter_flush w')"
    using log(2) ts1(1) by (simp add: RecoveryManager_run_def wal_log_readAll [OF log(1)])
  with u ts1 ko wal_log_flush [OF u(4)] show ?thesis by (intro exI [of _ ts'] exI [of _ "WALWriter_flush w'"]) auto
qed

text \<open>
  C34: undo is per page, locking is per row. If a transaction that did not commit and one that did have both changed a page, the committed
  one last, recovery reports success and leaves the page as it was before either of them: the committed change is gone. This holds for all page contents and for both orders in
  which the hash map can list the two transactions.
\<close>
theorem RecoveryManager_lost_committed_update:
  assumes "wal_log w (shared_page_log a b c)" "length a = PAGE_SIZE" "length b = PAGE_SIZE" "length c = PAGE_SIZE"
    and "files_ok ts" "0 \<in> dom ts" "order = [1, 2] \<or> order = [2, 1]"
  shows "\<exists>ts' w'. RecoveryManager_run 6 order (ts, w) = Some (Inr (), ts', w') \<and> page_at ts' (0, HEAP, 0) = patch_lsn HEAP a 6"
proof -
  let ?rs = "shared_page_log a b c"
  have c: "committed_txns ?rs = {2}" by (simp add: committed_txns_def shared_page_log_def WALRecord_default_def)
  have l: "last_lsn_per_txn ?rs 1 = Some 3" by (simp add: last_lsn_per_txn_def shared_page_log_def WALRecord_default_def)
  have ch: "chain (by_lsn ?rs) 3 [?rs ! 2]" by (simp add: by_lsn_def shared_page_log_def WALRecord_default_def)
  have us: "updates [?rs ! 2] = [?rs ! 2]" "rec_key (?rs ! 2) = (0, HEAP, 0)" "wr_old_data (?rs ! 2) = a" "wr_store (?rs ! 2) = HEAP" "length ?rs = 5"
    by (simp_all add: updates_def shared_page_log_def WALRecord_default_def rec_key_def)
  have ok: "\<forall>r \<in> set ?rs. redoable r \<longrightarrow> key_ok ts (rec_key r) \<and> length (redo_image r) = PAGE_SIZE"
    using assms(2-4,6) by (simp add: scenario_simps)
  have ord: "\<forall>t' \<in> set order. t' = 1 \<or> t' \<in> committed_txns ?rs" "1 \<in> set order" "distinct order" "1 \<notin> committed_txns ?rs"
    using assms(7) unfolding c by auto
  have uu: "\<forall>r \<in> set [?rs ! 2]. wr_type r = UPDATE \<longrightarrow> key_ok ts (rec_key r) \<and> length (wr_old_data r) = PAGE_SIZE" "?rs \<noteq> []" "length [?rs ! 2] < 6"
    using assms(2,6) by (simp_all add: scenario_simps)
  note run_one_loser [OF assms(1) uu(2) assms(5) ok ord(1-3) l ord(4) ch uu(3,1)]
  moreover have "key_ok ts (0, HEAP, 0)" using assms(6) by (simp add: key_ok_def page_ref_def first_page_def)
  ultimately show ?thesis unfolding us by (force simp: us)
qed

lemma shared_page_log_holds: "wal_log (log_of (shared_page_log (filled 1) (filled 2) (filled 3))) (shared_page_log (filled 1) (filled 2) (filled 3))"
proof (rule wal_log_of)
  show "\<forall>i < length (shared_page_log (filled 1) (filled 2) (filled 3)). wr_lsn (shared_page_log (filled 1) (filled 2) (filled 3) ! i) = word_of_nat (Suc i)"
    by (auto simp: shared_page_log_def WALRecord_default_def less_Suc_eq)
qed (simp add: shared_page_log_def WALRecord_default_def loggable_def int32_def MAX_RECORD_BODY_SIZE_def PAGE_SIZE_def)

theorem RecoveryManager_lost_committed_update_witness:
  "\<exists>ts' w'. RecoveryManager_run 6 [2, 1] (empty_tables, log_of (shared_page_log (filled 1) (filled 2) (filled 3))) = Some (Inr (), ts', w')
    \<and> page_at ts' (0, HEAP, 0) = patch_lsn HEAP (filled 1) 6"
  by (rule RecoveryManager_lost_committed_update [OF shared_page_log_holds]) (simp_all add: empty_tables_ok)

text \<open>
  C35: a compensation record does not carry the table it compensates in: its \<open>table_id\<close> stays 0. After recovery has undone a change to page 0 of table 1, the next
  recovery replays that before-image into page 0 of table 0, overwriting whatever committed data that page held, unless the page was changed later.
\<close>
theorem RecoveryManager_clr_wrong_table:
  assumes "wal_log w (other_table_log a b)" "length a = PAGE_SIZE" "length b = PAGE_SIZE"
    and "files_ok ts" "0 \<in> dom ts" "1 \<in> dom ts" "lsn_of (0, HEAP, 0) (page_at ts (0, HEAP, 0)) < 3"
  shows "\<exists>ts1 w1 ts2 w2. RecoveryManager_run 3 [1] (ts, w) = Some (Inr (), ts1, w1)
    \<and> page_at ts1 (1, HEAP, 0) = patch_lsn HEAP a 3 \<and> page_at ts1 (0, HEAP, 0) = page_at ts (0, HEAP, 0)
    \<and> RecoveryManager_run 4 [1] (ts1, w1) = Some (Inr (), ts2, w2) \<and> page_at ts2 (0, HEAP, 0) = a"
proof -
  let ?rs = "other_table_log a b"
  let ?clr = "(make_clr 1 (?rs ! 1))\<lparr>wr_lsn := 3\<rparr>"
  have us: "updates [?rs ! 1] = [?rs ! 1]" "rec_key (?rs ! 1) = (1, HEAP, 0)" "wr_old_data (?rs ! 1) = a" "wr_store (?rs ! 1) = HEAP" "length ?rs = 2"
    by (simp_all add: updates_def other_table_log_def WALRecord_default_def rec_key_def)
  have ko: "key_ok ts (0, HEAP, 0)" "key_ok ts (1, HEAP, 0)" using assms(5,6) by (simp_all add: key_ok_def page_ref_def first_page_def)
  have ok: "\<forall>r \<in> set ?rs. redoable r \<longrightarrow> key_ok ts (rec_key r) \<and> length (redo_image r) = PAGE_SIZE"
    using assms(2,3,6) by (simp add: scenario_simps)
  have ord: "\<forall>t' \<in> set [1]. t' = 1 \<or> t' \<in> committed_txns ?rs" "1 \<in> set [1]" "distinct [1]" "1 \<notin> committed_txns ?rs" "?rs \<noteq> []"
      "last_lsn_per_txn ?rs 1 = Some 2" "chain (by_lsn ?rs) 2 [?rs ! 1]" "length [?rs ! 1] < 3"
    by (simp_all add: committed_txns_def last_lsn_per_txn_def by_lsn_def other_table_log_def WALRecord_default_def)
  have uu: "\<forall>r \<in> set [?rs ! 1]. wr_type r = UPDATE \<longrightarrow> key_ok ts (rec_key r) \<and> length (wr_old_data r) = PAGE_SIZE"
    using assms(2,6) by (simp add: scenario_simps)
  from run_one_loser [OF assms(1) ord(5) assms(4) ok ord(1-3,6,4,7,8) uu]
  obtain ts1 w1 where r1: "RecoveryManager_run 3 [1] (ts, w) = Some (Inr (), ts1, w1)" "files_ok ts1" "dom ts1 = dom ts"
    "wal_log w1 (?rs @ [?clr])"
    "\<And>k. key_ok ts k \<Longrightarrow> page_at ts1 k = undone 2 [?rs ! 1] k (redo_page (lsn_of k) (page_at ts k) (page_records k ?rs))"
    unfolding us by auto
  have p1: "page_at ts1 (1, HEAP, 0) = patch_lsn HEAP a 3" "page_at ts1 (0, HEAP, 0) = page_at ts (0, HEAP, 0)"
    using r1(5) [OF ko(2)] r1(5) [OF ko(1)] us by (simp_all add: other_table_log_def WALRecord_default_def rec_key_def)
  let ?qs = "?rs @ [?clr]"
  have ok2: "\<forall>r \<in> set ?qs. redoable r \<longrightarrow> key_ok ts1 (rec_key r) \<and> length (redo_image r) = PAGE_SIZE"
    using assms(2,3,5,6) r1(3) by (simp add: scenario_simps make_clr_def)
  have ord2: "\<forall>t' \<in> set [1]. t' = 1 \<or> t' \<in> committed_txns ?qs" "1 \<notin> committed_txns ?qs" "?qs \<noteq> []"
      "last_lsn_per_txn ?qs 1 = Some 3" "chain (by_lsn ?qs) 3 [?clr]" "length [?clr] < 4"
      "\<forall>r \<in> set [?clr]. wr_type r = UPDATE \<longrightarrow> key_ok ts1 (rec_key r) \<and> length (wr_old_data r) = PAGE_SIZE"
    by (simp_all add: committed_txns_def last_lsn_per_txn_def by_lsn_def other_table_log_def make_clr_def WALRecord_default_def)
  note run_one_loser [OF r1(4) ord2(3) r1(2) ok2 ord2(1) ord(2,3) ord2(4,2,5-7)]
  moreover have "key_ok ts1 (0, HEAP, 0)" using ko(1) r1(3) by (simp add: key_ok_def)
  moreover have "updates [?clr] = []" "page_records (0, HEAP, 0) (?rs @ [?clr]) = [?clr]" "redo_image ?clr = a"
    by (simp_all add: updates_def make_clr_def other_table_log_def WALRecord_default_def redoable_def rec_key_def redo_image_def)
  ultimately show ?thesis using r1(1) p1 assms(7) by (force simp: p1)
qed

lemma other_table_log_holds: "wal_log (log_of (other_table_log (filled 1) (filled 2))) (other_table_log (filled 1) (filled 2))"
proof (rule wal_log_of)
  show "\<forall>i < length (other_table_log (filled 1) (filled 2)). wr_lsn (other_table_log (filled 1) (filled 2) ! i) = word_of_nat (Suc i)"
    by (auto simp: other_table_log_def WALRecord_default_def less_Suc_eq)
qed (simp add: other_table_log_def WALRecord_default_def loggable_def int32_def MAX_RECORD_BODY_SIZE_def PAGE_SIZE_def)

theorem RecoveryManager_clr_wrong_table_witness:
  "\<exists>ts1 w1 ts2 w2. RecoveryManager_run 3 [1] (empty_tables, log_of (other_table_log (filled 1) (filled 2))) = Some (Inr (), ts1, w1)
    \<and> page_at ts1 (1, HEAP, 0) = patch_lsn HEAP (filled 1) 3 \<and> page_at ts1 (0, HEAP, 0) = page_at empty_tables (0, HEAP, 0)
    \<and> RecoveryManager_run 4 [1] (ts1, w1) = Some (Inr (), ts2, w2) \<and> page_at ts2 (0, HEAP, 0) = filled 1"
  by (rule RecoveryManager_clr_wrong_table [OF other_table_log_holds])
    (simp_all add: empty_tables_ok, simp add: page_at_def empty_tables_def file_page_def PAGE_SIZE_def)

end
