(* ===== verification/Database.thy ===== *)
theory Database
  imports Table_Snapshots Recovery
begin

text \<open>
  \<open>database.hpp\<close> / \<open>database.cpp\<close>: the tables of a data directory over one log, one MVCC manager and one catalog.

  The data directory is a map from paths to contents. An open table holds its two files in its buffer pool and its index manager, the log is in the
  MVCC manager and the catalog file in the catalog manager; \<open>db_disk\<close> is the directory as it was opened, for the files no table holds. The
  order in which the two \<open>unordered_map\<close>s are iterated over is given by parameters: \<open>order\<close> for the catalog, \<open>losers\<close> for the unfinished transactions of
  recovery, with \<open>fuel\<close> as the bound of its undo loop.
\<close>

type_synonym disk = "string \<rightharpoonup> byte list"

record Database =
  db_data_dir :: string
  db_catalog :: CatalogManager
  db_mvcc :: MVCCManager
  db_tables :: "(string \<times> Table) list"
  db_disk :: disk

type_synonym iteration_order = "(string \<times> TableMeta) list \<Rightarrow> (string \<times> TableMeta) list"

section \<open>Files\<close>

definition joinPath :: "string \<Rightarrow> string \<Rightarrow> string" where
  "joinPath dir leaf = dir @ ''/'' @ leaf"

definition Database_heapFileFor :: "string \<Rightarrow> u32 \<Rightarrow> string" where
  "Database_heapFileFor dir table_id = joinPath dir (string_of_nat (unat table_id) @ ''.heap'')"

definition Database_indexFileFor :: "string \<Rightarrow> u32 \<Rightarrow> string" where
  "Database_indexFileFor dir table_id = joinPath dir (string_of_nat (unat table_id) @ ''.idx'')"

text \<open>The content of a file that is created empty when it does not exist.\<close>

definition file_content :: "disk \<Rightarrow> string \<Rightarrow> byte list" where
  "file_content disk name = (case disk name of None \<Rightarrow> [] | Some bs \<Rightarrow> bs)"

section \<open>Opening\<close>

definition Database_openTableStorage :: "string \<Rightarrow> u32 \<Rightarrow> Schema \<Rightarrow> (Database, unit) effect" where
  "Database_openTableStorage name table_id schema = (\<lambda>db.
     let pool = BufferPool_new (file_content (db_disk db) (Database_heapFileFor (db_data_dir db) table_id)) table_id
           (Clock ClockSweepPolicy_new) DEFAULT_NUM_FRAMES;
         im = IndexManager_new (file_content (db_disk db) (Database_indexFileFor (db_data_dir db) table_id)) table_id in
     case Table_new name schema pool im (db_mvcc db) of
       (Inl e, tb, mv) \<Rightarrow> (Inl e, db\<lparr>db_mvcc := mv\<rparr>)
     | (Inr _, tb, mv) \<Rightarrow> (Inr (), db\<lparr>db_mvcc := mv, db_tables := AList.update name tb (db_tables db)\<rparr>))"

text \<open>The files recovery works on, and the directory after it.\<close>

definition table_files :: "string \<Rightarrow> disk \<Rightarrow> (string \<times> TableMeta) list \<Rightarrow> tables" where
  "table_files dir disk metas =
     fold (\<lambda>(name, meta) ts. ts(tb_table_id meta \<mapsto> \<lparr>tf_heap = file_content disk (Database_heapFileFor dir (tb_table_id meta)),
        tf_index = file_content disk (Database_indexFileFor dir (tb_table_id meta))\<rparr>)) metas Map.empty"

definition write_files :: "string \<Rightarrow> tables \<Rightarrow> (string \<times> TableMeta) list \<Rightarrow> disk \<Rightarrow> disk" where
  "write_files dir ts metas disk =
     fold (\<lambda>(name, meta) d. case ts (tb_table_id meta) of
         None \<Rightarrow> d
       | Some f \<Rightarrow> d(Database_heapFileFor dir (tb_table_id meta) \<mapsto> tf_heap f, Database_indexFileFor dir (tb_table_id meta) \<mapsto> tf_index f)) metas disk"

definition Database_new :: "iteration_order \<Rightarrow> u64 list \<Rightarrow> nat \<Rightarrow> string \<Rightarrow> disk \<Rightarrow> Database result option" where
  "Database_new order losers fuel dir disk =
     (case CatalogManager_new (map_option string_of_bytes (disk (joinPath dir ''catalog.db''))) of
        Inl e \<Rightarrow> Some (Inl e)
      | Inr catalog \<Rightarrow>
          let (tm, w) = TransactionManager_new (WALWriter_open (file_content disk (joinPath dir ''wal.log'')));
              metas = order (CatalogManager_getAllTables catalog) in
          (case RecoveryManager_run fuel losers (table_files dir disk metas, w) of
             None \<Rightarrow> None
           | Some (Inl e, _) \<Rightarrow> Some (Inl e)
           | Some (Inr _, ts, w) \<Rightarrow>
               let db = \<lparr>db_data_dir = dir, db_catalog = catalog, db_mvcc = MVCCManager_new tm w, db_tables = [],
                         db_disk = write_files dir ts metas disk\<rparr> in
               (case sfor (\<lambda>(name, meta). Database_openTableStorage name (tb_table_id meta) (tb_schema meta)) metas db of
                  (Inl e, _) \<Rightarrow> Some (Inl e)
                | (Inr _, db) \<Rightarrow> Some (Inr db))))"

section \<open>Operations\<close>

definition Database_createTable :: "iteration_order \<Rightarrow> string \<Rightarrow> Schema \<Rightarrow> (Database, unit) effect" where
  "Database_createTable order name schema = (\<lambda>db.
     case CatalogManager_createTable order name schema (db_catalog db) of
       Inl e \<Rightarrow> (Inl e, db)
     | Inr (table_id, catalog) \<Rightarrow> Database_openTableStorage name table_id schema (db\<lparr>db_catalog := catalog\<rparr>))"

text \<open>\<open>getTable\<close> returns a reference: the operation \<open>m\<close> on it runs on the table in place, with the engine's MVCC manager.\<close>

definition Database_getTable :: "string \<Rightarrow> (table_state, 'a) effect \<Rightarrow> (Database, 'a) effect" where
  "Database_getTable name m = (\<lambda>db.
     case map_of (db_tables db) name of
       None \<Rightarrow> (Inl (RuntimeError (''Database::getTable: no such table: '' @ name)), db)
     | Some tb \<Rightarrow> (case m (tb, db_mvcc db) of (r, tb, mv) \<Rightarrow>
         (r, db\<lparr>db_tables := AList.update name tb (db_tables db), db_mvcc := mv\<rparr>)))"

definition Database_hasTable :: "Database \<Rightarrow> string \<Rightarrow> bool" where
  "Database_hasTable db name \<longleftrightarrow> map_of (db_tables db) name \<noteq> None"

definition Database_beginTxn :: "(Database, u64) effect" where
  "Database_beginTxn = (\<lambda>db. case MVCCManager_begin (db_mvcc db) of (txn, mv) \<Rightarrow> (Inr txn, db\<lparr>db_mvcc := mv\<rparr>))"

definition Database_commitTxn :: "u64 \<Rightarrow> (Database, unit) effect" where
  "Database_commitTxn txn = smodify (\<lambda>db. db\<lparr>db_mvcc := MVCCManager_commit (db_mvcc db) txn\<rparr>)"

definition Database_abortTxn :: "u64 \<Rightarrow> (Database, unit) effect" where
  "Database_abortTxn txn = smodify (\<lambda>db. db\<lparr>db_mvcc := MVCCManager_abort (db_mvcc db) txn\<rparr>)"

end
