(* ===== verification/Parser.thy ===== *)
theory Parser
  imports Lexer
begin

text \<open>
  \<open>ast.hpp\<close>, \<open>parser.hpp\<close> / \<open>parser.cpp\<close>: the recursive-descent SQL parser. The parser state
  is the list of tokens from the current position on, empty when the position is past the vector, where
  \<open>peek\<close> is undefined behaviour. Every parsing method returns its value with the remaining tokens, or throws.
\<close>

section \<open>Syntax trees\<close>

datatype ComparisonOp = EQ | NEQ | LT | LTE | GT | GTE

record WhereClause =
  wc_column :: string
  wc_op :: ComparisonOp
  wc_literal :: string

record ColumnDef =
  cd_name :: string
  cd_type :: string
  cd_primary_key :: bool

record CreateTableStmt =
  ct_table_name :: string
  ct_columns :: "ColumnDef list"

record InsertStmt =
  in_table_name :: string
  in_values :: "string list"

record SelectStmt =
  se_table_name :: string
  se_columns :: "string list"
  se_where :: "WhereClause option"

record DeleteStmt =
  de_table_name :: string
  de_where :: "WhereClause option"

record Assignment =
  as_column :: string
  as_value :: string

record UpdateStmt =
  up_table_name :: string
  up_assignments :: "Assignment list"
  up_where :: "WhereClause option"

datatype Stmt =
    StmtCreateTable CreateTableStmt | StmtInsert InsertStmt | StmtSelect SelectStmt
  | StmtDelete DeleteStmt | StmtUpdate UpdateStmt
  | StmtBegin | StmtCommit | StmtRollback

section \<open>The parser\<close>

definition Parser_peek :: "Token list \<Rightarrow> Token result" where
  "Parser_peek ts = (case ts of [] \<Rightarrow> Inl (UndefinedBehaviour ''token vector index'') | t # _ \<Rightarrow> Inr t)"

definition Parser_advance :: "Token list \<Rightarrow> (Token \<times> Token list) result" where
  "Parser_advance ts = bindE (Parser_peek ts) (\<lambda>t. Inr (t, if 1 < length ts then tl ts else ts))"

definition Parser_check :: "SqlTokenType \<Rightarrow> Token list \<Rightarrow> bool result" where
  "Parser_check ty ts = bindE (Parser_peek ts) (\<lambda>t. Inr (tk_type t = ty))"

definition Parser_atEnd :: "Token list \<Rightarrow> bool result" where
  "Parser_atEnd ts = bindE (Parser_peek ts) (\<lambda>t. Inr (tk_type t = END_OF_INPUT))"

text \<open>A \<open>ParseError\<close> at the current token.\<close>

definition Parser_fail :: "(Token \<Rightarrow> string) \<Rightarrow> Token list \<Rightarrow> 'a result" where
  "Parser_fail msg ts = bindE (Parser_peek ts) (\<lambda>t. Inl (ParseError (msg t) (tk_pos t)))"

definition Parser_expect :: "SqlTokenType \<Rightarrow> string \<Rightarrow> Token list \<Rightarrow> Token list result" where
  "Parser_expect ty what ts =
     bindE (Parser_check ty ts) (\<lambda>c.
     if \<not> c then Parser_fail (\<lambda>t. ''expected '' @ what @ '' but found '' @ [QUOTE] @ tk_text t @ [QUOTE]) ts
     else bindE (Parser_advance ts) (\<lambda>(t, ts). Inr ts))"

definition Parser_parseIdentifier :: "Token list \<Rightarrow> (string \<times> Token list) result" where
  "Parser_parseIdentifier ts =
     bindE (Parser_check IDENTIFIER ts) (\<lambda>c.
     if \<not> c then Parser_fail (\<lambda>t. ''expected an identifier'') ts
     else bindE (Parser_advance ts) (\<lambda>(t, ts). Inr (tk_text t, ts)))"

definition Parser_parseLiteral :: "Token list \<Rightarrow> (string \<times> Token list) result" where
  "Parser_parseLiteral ts =
     bindE (Parser_check STRING_LITERAL ts) (\<lambda>s.
     bindE (if s then Inr True else Parser_check NUMBER_LITERAL ts) (\<lambda>c.
     if c then bindE (Parser_advance ts) (\<lambda>(t, ts). Inr (tk_text t, ts))
     else Parser_fail (\<lambda>t. ''expected a literal value'') ts))"

definition Parser_takeOp :: "ComparisonOp \<Rightarrow> Token list \<Rightarrow> (ComparisonOp \<times> Token list) result" where
  "Parser_takeOp cmp ts = bindE (Parser_advance ts) (\<lambda>(t, ts). Inr (cmp, ts))"

definition Parser_parseComparisonOp :: "Token list \<Rightarrow> (ComparisonOp \<times> Token list) result" where
  "Parser_parseComparisonOp ts =
     bindE (Parser_peek ts) (\<lambda>t. case tk_type t of
       OP_EQ \<Rightarrow> Parser_takeOp EQ ts
     | OP_NEQ \<Rightarrow> Parser_takeOp NEQ ts
     | OP_LT \<Rightarrow> Parser_takeOp LT ts
     | OP_LTE \<Rightarrow> Parser_takeOp LTE ts
     | OP_GT \<Rightarrow> Parser_takeOp GT ts
     | OP_GTE \<Rightarrow> Parser_takeOp GTE ts
     | _ \<Rightarrow> Parser_fail (\<lambda>t. ''expected a comparison operator (= != < <= > >=)'') ts)"

definition Parser_parseWhereClause :: "Token list \<Rightarrow> (WhereClause \<times> Token list) result" where
  "Parser_parseWhereClause ts =
     bindE (Parser_parseIdentifier ts) (\<lambda>(col, ts).
     bindE (Parser_parseComparisonOp ts) (\<lambda>(cmp, ts).
     bindE (Parser_parseLiteral ts) (\<lambda>(lit, ts).
     Inr (\<lparr>wc_column = col, wc_op = cmp, wc_literal = lit\<rparr>, ts))))"

text \<open>The optional \<open>WHERE\<close> of SELECT, DELETE and UPDATE.\<close>

definition Parser_optWhere :: "Token list \<Rightarrow> (WhereClause option \<times> Token list) result" where
  "Parser_optWhere ts =
     bindE (Parser_check KEYWORD_WHERE ts) (\<lambda>c.
     if c then bindE (Parser_advance ts) (\<lambda>(_, ts).
       bindE (Parser_parseWhereClause ts) (\<lambda>(w, ts). Inr (Some w, ts)))
     else Inr (None, ts))"

text \<open>
  The same methods as conditions on the list: \<open>next_is ty ts\<close> when the current token has type \<open>ty\<close>, \<open>moved ts\<close> the tokens
  after \<open>advance\<close>. Every method reads the current token first, so on an empty list each one is undefined.
\<close>

abbreviation (input) "off_end \<equiv> UndefinedBehaviour ''token vector index''"

definition next_is :: "SqlTokenType \<Rightarrow> Token list \<Rightarrow> bool" where
  "next_is ty ts \<longleftrightarrow> ts \<noteq> [] \<and> tk_type (hd ts) = ty"

fun moved :: "Token list \<Rightarrow> Token list" where
  "moved (t # u # ts) = u # ts"
| "moved ts = ts"

lemma peek_eq: "Parser_peek ts = (if ts = [] then Inl off_end else Inr (hd ts))"
  by (simp add: Parser_peek_def split: list.splits)

lemma advance_eq: "Parser_advance ts = (if ts = [] then Inl off_end else Inr (hd ts, moved ts))"
  by (cases ts rule: moved.cases) (simp_all add: Parser_advance_def peek_eq)

lemma check_eq: "Parser_check ty ts = (if ts = [] then Inl off_end else Inr (next_is ty ts))"
  by (simp add: Parser_check_def peek_eq next_is_def)

lemma fail_eq: "Parser_fail msg ts = (if ts = [] then Inl off_end else Inl (ParseError (msg (hd ts)) (tk_pos (hd ts))))"
  by (simp add: Parser_fail_def peek_eq)

lemmas token_eqs = peek_eq advance_eq check_eq fail_eq

lemma expect_eq:
  "Parser_expect ty what ts =
     (if ts = [] then Inl off_end else if \<not> next_is ty ts
      then Inl (ParseError (''expected '' @ what @ '' but found '' @ [QUOTE] @ tk_text (hd ts) @ [QUOTE]) (tk_pos (hd ts)))
      else Inr (moved ts))"
  by (simp add: Parser_expect_def token_eqs)

lemma identifier_eq:
  "Parser_parseIdentifier ts =
     (if ts = [] then Inl off_end else if \<not> next_is IDENTIFIER ts then Inl (ParseError ''expected an identifier'' (tk_pos (hd ts)))
      else Inr (tk_text (hd ts), moved ts))"
  by (simp add: Parser_parseIdentifier_def token_eqs)

lemma literal_eq:
  "Parser_parseLiteral ts =
     (if ts = [] then Inl off_end else if next_is STRING_LITERAL ts \<or> next_is NUMBER_LITERAL ts
      then Inr (tk_text (hd ts), moved ts)
      else Inl (ParseError ''expected a literal value'' (tk_pos (hd ts))))"
  by (simp add: Parser_parseLiteral_def token_eqs)

lemma op_eq:
  "Parser_parseComparisonOp ts =
     (if ts = [] then Inl off_end else if next_is OP_EQ ts then Inr (EQ, moved ts)
      else if next_is OP_NEQ ts then Inr (NEQ, moved ts)
      else if next_is OP_LT ts then Inr (LT, moved ts)
      else if next_is OP_LTE ts then Inr (LTE, moved ts)
      else if next_is OP_GT ts then Inr (GT, moved ts)
      else if next_is OP_GTE ts then Inr (GTE, moved ts)
      else Inl (ParseError ''expected a comparison operator (= != < <= > >=)'' (tk_pos (hd ts))))"
  by (cases "tk_type (hd ts)") (simp_all add: Parser_parseComparisonOp_def Parser_takeOp_def token_eqs next_is_def)

lemma optWhere_eq:
  "Parser_optWhere ts =
     (if ts = [] then Inl off_end else if next_is KEYWORD_WHERE ts
      then bindE (Parser_parseWhereClause (moved ts)) (\<lambda>(w, ts). Inr (Some w, ts))
      else Inr (None, ts))"
  by (simp add: Parser_optWhere_def token_eqs)

lemma advance_length_le: "length (moved ts) \<le> length ts"
  by (cases ts rule: moved.cases) auto

lemma advance_Nil [simp]: "moved ts = [] \<longleftrightarrow> ts = []"
  by (cases ts rule: moved.cases) auto

lemma advance_stuck: "length (moved ts) = length ts \<Longrightarrow> moved ts = ts"
  by (cases ts rule: moved.cases) auto

lemma advance_moves:
  "next_is ty ts \<Longrightarrow> next_is ty' (moved ts) \<Longrightarrow> ty \<noteq> ty' \<Longrightarrow> length (moved ts) < length ts"
  using advance_length_le [of ts] advance_stuck [of ts] by (force simp: next_is_def)

text \<open>The optional \<open>PRIMARY KEY\<close> marker of one column definition.\<close>

definition Parser_primaryKey :: "bool \<Rightarrow> Token list \<Rightarrow> (bool \<times> Token list) result" where
  "Parser_primaryKey first ts =
     bindE (Parser_check KEYWORD_PRIMARY ts) (\<lambda>c.
     if c then
        bindE (Parser_peek ts) (\<lambda>marker.
        bindE (Parser_advance ts) (\<lambda>(_, ts).
        bindE (Parser_expect KEYWORD_KEY ''KEY'' ts) (\<lambda>ts.
        if \<not> first then Inl (ParseError ''PRIMARY KEY is only supported on the first column'' (tk_pos marker))
        else Inr (True, ts))))
     else Inr (False, ts))"

lemma primaryKey_eq:
  "Parser_primaryKey first ts =
     (if ts = [] then Inl off_end else if next_is KEYWORD_PRIMARY ts then
        bindE (Parser_expect KEYWORD_KEY ''KEY'' (moved ts)) (\<lambda>ts'.
        if \<not> first then Inl (ParseError ''PRIMARY KEY is only supported on the first column'' (tk_pos (hd ts)))
        else Inr (True, ts'))
      else Inr (False, ts))"
  by (simp add: Parser_primaryKey_def token_eqs)

lemma primaryKey_length: "Parser_primaryKey first ts = Inr (pk, ts') \<Longrightarrow> length ts' \<le> length ts"
  using advance_length_le [of ts] advance_length_le [of "moved ts"]
  by (auto simp: primaryKey_eq expect_eq result_simps split: if_splits)

text \<open>The loops over columns, values, select list and assignments.\<close>

lemma columns_decrease:
  assumes "Parser_parseIdentifier ts = Inr (n, ts1)" "Parser_parseIdentifier ts1 = Inr (ty, ts2)"
    and "Parser_primaryKey first ts2 = Inr (pk, ts3)" "Parser_check COMMA ts3 = Inr True" "Parser_advance ts3 = Inr (t, ts4)"
  shows "length ts4 < length ts"
proof -
  have c: "next_is COMMA ts3" "ts4 = moved ts3"
    using assms(4,5) by (auto simp: token_eqs split: if_splits)
  have id: "next_is IDENTIFIER ts" "ts1 = moved ts" "ts2 = moved ts1"
    using assms(1,2) by (auto simp: identifier_eq split: if_splits)
  have le: "length ts3 \<le> length ts2" "length ts2 \<le> length ts1" "length ts1 \<le> length ts"
      "length (moved ts3) \<le> length ts3"
    using primaryKey_length [OF assms(3)] id advance_length_le by auto
  show ?thesis
  proof (cases "length ts1 = length ts")
    case True
    then have "ts1 = ts" "ts2 = ts" using id advance_stuck [of ts] by simp_all
    then have "\<not> next_is KEYWORD_PRIMARY ts2" using id(1) by (simp add: next_is_def)
    then have "ts3 = ts" using assms(3) \<open>ts2 = ts\<close> by (simp add: primaryKey_eq split: if_splits)
    with c(1) id(1) show ?thesis by (simp add: next_is_def)
  qed (use le c(2) in simp)
qed

function Parser_columnsLoop :: "ColumnDef list \<Rightarrow> Token list \<Rightarrow> (ColumnDef list \<times> Token list) result" where
  "Parser_columnsLoop cols ts =
     bindE (Parser_parseIdentifier ts) (\<lambda>(name, ts1).
     bindE (Parser_parseIdentifier ts1) (\<lambda>(ty, ts2).
     bindE (Parser_primaryKey (cols = []) ts2) (\<lambda>(pk, ts3).
     let cols' = cols @ [\<lparr>cd_name = name, cd_type = ty, cd_primary_key = pk\<rparr>] in
     bindE (Parser_check COMMA ts3) (\<lambda>c.
     if c then bindE (Parser_advance ts3) (\<lambda>(_, ts4). Parser_columnsLoop cols' ts4)
     else Inr (cols', ts3)))))"
  by pat_completeness auto
termination
  by (relation "measure (\<lambda>(cols, ts). length ts)") (auto dest: columns_decrease)

lemma literal_decrease:
  assumes "Parser_parseLiteral ts = Inr (v, ts1)" "Parser_check COMMA ts1 = Inr True" "Parser_advance ts1 = Inr (t, ts2)"
  shows "length ts2 < length ts"
proof -
  have c: "next_is COMMA ts1" "ts2 = moved ts1"
    using assms(2,3) by (auto simp: token_eqs split: if_splits)
  then have "length ts1 < length ts"
    using assms(1) advance_moves [of STRING_LITERAL ts COMMA] advance_moves [of NUMBER_LITERAL ts COMMA]
    by (auto simp: literal_eq split: if_splits)
  then show ?thesis using advance_length_le [of ts1] c(2) by simp
qed

function Parser_valuesLoop :: "string list \<Rightarrow> Token list \<Rightarrow> (string list \<times> Token list) result" where
  "Parser_valuesLoop vals ts =
     bindE (Parser_parseLiteral ts) (\<lambda>(v, ts1).
     bindE (Parser_check COMMA ts1) (\<lambda>c.
     if c then bindE (Parser_advance ts1) (\<lambda>(_, ts2). Parser_valuesLoop (vals @ [v]) ts2)
     else Inr (vals @ [v], ts1)))"
  by pat_completeness auto
termination
  by (relation "measure (\<lambda>(vals, ts). length ts)") (auto dest: literal_decrease)

lemma select_decrease:
  assumes "Parser_check COMMA ts = Inr True" "Parser_advance ts = Inr (t, ts1)" "Parser_parseIdentifier ts1 = Inr (c, ts2)"
  shows "length ts2 < length ts"
proof -
  have c: "next_is COMMA ts" "ts1 = moved ts"
    using assms(1,2) by (auto simp: token_eqs split: if_splits)
  moreover have "next_is IDENTIFIER ts1" "ts2 = moved ts1"
    using assms(3) by (auto simp: identifier_eq split: if_splits)
  ultimately show ?thesis
    using advance_moves [OF c(1)] advance_length_le [of ts1] by fastforce
qed

function Parser_selectLoop :: "string list \<Rightarrow> Token list \<Rightarrow> (string list \<times> Token list) result" where
  "Parser_selectLoop cols ts =
     bindE (Parser_check COMMA ts) (\<lambda>c.
     if c then
        bindE (Parser_advance ts) (\<lambda>(_, ts).
        bindE (Parser_parseIdentifier ts) (\<lambda>(c, ts). Parser_selectLoop (cols @ [c]) ts))
     else Inr (cols, ts))"
  by pat_completeness auto
termination
  by (relation "measure (\<lambda>(cols, ts). length ts)") (auto dest: select_decrease)

definition Parser_assignment :: "Token list \<Rightarrow> (Assignment \<times> Token list) result" where
  "Parser_assignment ts =
     bindE (Parser_parseIdentifier ts) (\<lambda>(col, ts).
     bindE (Parser_expect OP_EQ [QUOTE, CHR ''='', QUOTE] ts) (\<lambda>ts.
     bindE (Parser_parseLiteral ts) (\<lambda>(v, ts).
     Inr (\<lparr>as_column = col, as_value = v\<rparr>, ts))))"

lemma assignment_decrease:
  assumes "Parser_assignment ts = Inr (a, ts1)" "Parser_check COMMA ts1 = Inr True" "Parser_advance ts1 = Inr (t, ts2)"
  shows "length ts2 < length ts"
proof -
  obtain v where "Parser_parseLiteral (moved (moved ts)) = Inr (v, ts1)"
    using assms(1)
    by (auto simp: Parser_assignment_def identifier_eq expect_eq result_simps split: if_splits)
  from literal_decrease [OF this assms(2,3)] show ?thesis
    using advance_length_le [of ts] advance_length_le [of "moved ts"] by linarith
qed

function Parser_assignmentsLoop :: "Assignment list \<Rightarrow> Token list \<Rightarrow> (Assignment list \<times> Token list) result" where
  "Parser_assignmentsLoop as ts =
     bindE (Parser_assignment ts) (\<lambda>(a, ts1).
     bindE (Parser_check COMMA ts1) (\<lambda>c.
     if c then bindE (Parser_advance ts1) (\<lambda>(_, ts2). Parser_assignmentsLoop (as @ [a]) ts2)
     else Inr (as @ [a], ts1)))"
  by pat_completeness auto
termination
  by (relation "measure (\<lambda>(as, ts). length ts)") (auto dest: assignment_decrease)

declare Parser_columnsLoop.simps [simp del] Parser_valuesLoop.simps [simp del]
  Parser_selectLoop.simps [simp del] Parser_assignmentsLoop.simps [simp del]

section \<open>Statements\<close>

abbreviation "quoted_semicolon \<equiv> [QUOTE, CHR '';'', QUOTE]"
abbreviation "quoted_lparen \<equiv> [QUOTE, CHR ''('', QUOTE]"
abbreviation "quoted_rparen \<equiv> [QUOTE, CHR '')'', QUOTE]"

definition Parser_parseCreateTable :: "Token list \<Rightarrow> (CreateTableStmt \<times> Token list) result" where
  "Parser_parseCreateTable ts =
     bindE (Parser_expect KEYWORD_CREATE ''CREATE'' ts) (\<lambda>ts.
     bindE (Parser_expect KEYWORD_TABLE ''TABLE'' ts) (\<lambda>ts.
     bindE (Parser_parseIdentifier ts) (\<lambda>(name, ts).
     bindE (Parser_expect LPAREN quoted_lparen ts) (\<lambda>ts.
     bindE (Parser_columnsLoop [] ts) (\<lambda>(cols, ts).
     bindE (Parser_expect RPAREN quoted_rparen ts) (\<lambda>ts.
     bindE (Parser_expect SEMICOLON quoted_semicolon ts) (\<lambda>ts.
     Inr (\<lparr>ct_table_name = name, ct_columns = cols\<rparr>, ts))))))))"

definition Parser_parseInsert :: "Token list \<Rightarrow> (InsertStmt \<times> Token list) result" where
  "Parser_parseInsert ts =
     bindE (Parser_expect KEYWORD_INSERT ''INSERT'' ts) (\<lambda>ts.
     bindE (Parser_expect KEYWORD_INTO ''INTO'' ts) (\<lambda>ts.
     bindE (Parser_parseIdentifier ts) (\<lambda>(name, ts).
     bindE (Parser_expect KEYWORD_VALUES ''VALUES'' ts) (\<lambda>ts.
     bindE (Parser_expect LPAREN quoted_lparen ts) (\<lambda>ts.
     bindE (Parser_valuesLoop [] ts) (\<lambda>(vals, ts).
     bindE (Parser_expect RPAREN quoted_rparen ts) (\<lambda>ts.
     bindE (Parser_expect SEMICOLON quoted_semicolon ts) (\<lambda>ts.
     Inr (\<lparr>in_table_name = name, in_values = vals\<rparr>, ts)))))))))"

definition Parser_selectList :: "Token list \<Rightarrow> (string list \<times> Token list) result" where
  "Parser_selectList ts =
     bindE (Parser_check STAR ts) (\<lambda>c.
     if c then bindE (Parser_advance ts) (\<lambda>(_, ts). Inr ([], ts))
     else bindE (Parser_parseIdentifier ts) (\<lambda>(c, ts). Parser_selectLoop [c] ts))"

lemma selectList_eq:
  "Parser_selectList ts =
     (if ts = [] then Inl off_end else if next_is STAR ts then Inr ([], moved ts)
      else bindE (Parser_parseIdentifier ts) (\<lambda>(c, ts). Parser_selectLoop [c] ts))"
  by (simp add: Parser_selectList_def token_eqs)

definition Parser_parseSelect :: "Token list \<Rightarrow> (SelectStmt \<times> Token list) result" where
  "Parser_parseSelect ts =
     bindE (Parser_expect KEYWORD_SELECT ''SELECT'' ts) (\<lambda>ts.
     bindE (Parser_selectList ts) (\<lambda>(cols, ts).
     bindE (Parser_expect KEYWORD_FROM ''FROM'' ts) (\<lambda>ts.
     bindE (Parser_parseIdentifier ts) (\<lambda>(name, ts).
     bindE (Parser_optWhere ts) (\<lambda>(w, ts).
     bindE (Parser_expect SEMICOLON quoted_semicolon ts) (\<lambda>ts.
     Inr (\<lparr>se_table_name = name, se_columns = cols, se_where = w\<rparr>, ts)))))))"

definition Parser_parseDelete :: "Token list \<Rightarrow> (DeleteStmt \<times> Token list) result" where
  "Parser_parseDelete ts =
     bindE (Parser_expect KEYWORD_DELETE ''DELETE'' ts) (\<lambda>ts.
     bindE (Parser_expect KEYWORD_FROM ''FROM'' ts) (\<lambda>ts.
     bindE (Parser_parseIdentifier ts) (\<lambda>(name, ts).
     bindE (Parser_optWhere ts) (\<lambda>(w, ts).
     bindE (Parser_expect SEMICOLON quoted_semicolon ts) (\<lambda>ts.
     Inr (\<lparr>de_table_name = name, de_where = w\<rparr>, ts))))))"

definition Parser_parseUpdate :: "Token list \<Rightarrow> (UpdateStmt \<times> Token list) result" where
  "Parser_parseUpdate ts =
     bindE (Parser_expect KEYWORD_UPDATE ''UPDATE'' ts) (\<lambda>ts.
     bindE (Parser_parseIdentifier ts) (\<lambda>(name, ts).
     bindE (Parser_expect KEYWORD_SET ''SET'' ts) (\<lambda>ts.
     bindE (Parser_assignmentsLoop [] ts) (\<lambda>(as, ts).
     bindE (Parser_optWhere ts) (\<lambda>(w, ts).
     bindE (Parser_expect SEMICOLON quoted_semicolon ts) (\<lambda>ts.
     Inr (\<lparr>up_table_name = name, up_assignments = as, up_where = w\<rparr>, ts)))))))"

definition Parser_keywordStmt :: "Stmt \<Rightarrow> Token list \<Rightarrow> (Stmt \<times> Token list) result" where
  "Parser_keywordStmt stmt ts =
     bindE (Parser_advance ts) (\<lambda>(_, ts).
     bindE (Parser_expect SEMICOLON quoted_semicolon ts) (\<lambda>ts. Inr (stmt, ts)))"

lemma keywordStmt_eq:
  "ts \<noteq> [] \<Longrightarrow> Parser_keywordStmt stmt ts = bindE (Parser_expect SEMICOLON quoted_semicolon (moved ts)) (\<lambda>ts. Inr (stmt, ts))"
  by (simp add: Parser_keywordStmt_def token_eqs)

definition map_stmt :: "('a \<Rightarrow> Stmt) \<Rightarrow> ('a \<times> Token list) result \<Rightarrow> (Stmt \<times> Token list) result" where
  "map_stmt f r = bindE r (\<lambda>(x, ts). Inr (f x, ts))"

definition Parser_parseStatement :: "Token list \<Rightarrow> (Stmt \<times> Token list) result" where
  "Parser_parseStatement ts =
     bindE (Parser_peek ts) (\<lambda>t. case tk_type t of
        KEYWORD_CREATE \<Rightarrow> map_stmt StmtCreateTable (Parser_parseCreateTable ts)
      | KEYWORD_INSERT \<Rightarrow> map_stmt StmtInsert (Parser_parseInsert ts)
      | KEYWORD_SELECT \<Rightarrow> map_stmt StmtSelect (Parser_parseSelect ts)
      | KEYWORD_DELETE \<Rightarrow> map_stmt StmtDelete (Parser_parseDelete ts)
      | KEYWORD_UPDATE \<Rightarrow> map_stmt StmtUpdate (Parser_parseUpdate ts)
      | KEYWORD_BEGIN \<Rightarrow> Parser_keywordStmt StmtBegin ts
      | KEYWORD_COMMIT \<Rightarrow> Parser_keywordStmt StmtCommit ts
      | KEYWORD_ROLLBACK \<Rightarrow> Parser_keywordStmt StmtRollback ts
      | _ \<Rightarrow> Parser_fail (\<lambda>t. ''expected a statement (CREATE/INSERT/SELECT/DELETE/UPDATE/BEGIN/COMMIT/ROLLBACK)'') ts)"

section \<open>Printing statements\<close>

definition ident_tok :: "string \<Rightarrow> SqlTokenType \<times> string" where "ident_tok s = (IDENTIFIER, s)"
definition lit_tok :: "string \<Rightarrow> SqlTokenType \<times> string" where "lit_tok s = (STRING_LITERAL, s)"

abbreviation "comma_tok \<equiv> (COMMA, '','')"
abbreviation "semicolon_tok \<equiv> (SEMICOLON, '';'')"

fun commas :: "(SqlTokenType \<times> string) list list \<Rightarrow> (SqlTokenType \<times> string) list" where
  "commas [] = []"
| "commas [x] = x"
| "commas (x # y # xs) = x @ comma_tok # commas (y # xs)"

fun op_tok :: "ComparisonOp \<Rightarrow> SqlTokenType \<times> string" where
  "op_tok EQ = (OP_EQ, ''='')"
| "op_tok NEQ = (OP_NEQ, ''!='')"
| "op_tok LT = (OP_LT, ''<'')"
| "op_tok LTE = (OP_LTE, ''<='')"
| "op_tok GT = (OP_GT, ''>'')"
| "op_tok GTE = (OP_GTE, ''>='')"

definition where_toks :: "WhereClause option \<Rightarrow> (SqlTokenType \<times> string) list" where
  "where_toks w = (case w of None \<Rightarrow> []
     | Some w \<Rightarrow> [(KEYWORD_WHERE, ''WHERE''), ident_tok (wc_column w), op_tok (wc_op w), lit_tok (wc_literal w)])"

definition column_toks :: "ColumnDef \<Rightarrow> (SqlTokenType \<times> string) list" where
  "column_toks c = [ident_tok (cd_name c), ident_tok (cd_type c)]
     @ (if cd_primary_key c then [(KEYWORD_PRIMARY, ''PRIMARY''), (KEYWORD_KEY, ''KEY'')] else [])"

definition assignment_toks :: "Assignment \<Rightarrow> (SqlTokenType \<times> string) list" where
  "assignment_toks a = [ident_tok (as_column a), (OP_EQ, ''=''), lit_tok (as_value a)]"

definition select_toks :: "string list \<Rightarrow> (SqlTokenType \<times> string) list" where
  "select_toks cols = (if cols = [] then [(STAR, ''*'')] else commas (map (\<lambda>c. [ident_tok c]) cols))"

fun stmt_toks :: "Stmt \<Rightarrow> (SqlTokenType \<times> string) list" where
  "stmt_toks (StmtCreateTable s) = [(KEYWORD_CREATE, ''CREATE''), (KEYWORD_TABLE, ''TABLE''),
     ident_tok (ct_table_name s), (LPAREN, ''('')] @ commas (map column_toks (ct_columns s))
     @ [(RPAREN, '')''), semicolon_tok]"
| "stmt_toks (StmtInsert s) = [(KEYWORD_INSERT, ''INSERT''), (KEYWORD_INTO, ''INTO''),
     ident_tok (in_table_name s), (KEYWORD_VALUES, ''VALUES''), (LPAREN, ''('')]
     @ commas (map (\<lambda>v. [lit_tok v]) (in_values s)) @ [(RPAREN, '')''), semicolon_tok]"
| "stmt_toks (StmtSelect s) = (KEYWORD_SELECT, ''SELECT'') # select_toks (se_columns s)
     @ [(KEYWORD_FROM, ''FROM''), ident_tok (se_table_name s)] @ where_toks (se_where s) @ [semicolon_tok]"
| "stmt_toks (StmtDelete s) = [(KEYWORD_DELETE, ''DELETE''), (KEYWORD_FROM, ''FROM''),
     ident_tok (de_table_name s)] @ where_toks (de_where s) @ [semicolon_tok]"
| "stmt_toks (StmtUpdate s) = [(KEYWORD_UPDATE, ''UPDATE''), ident_tok (up_table_name s),
     (KEYWORD_SET, ''SET'')] @ commas (map assignment_toks (up_assignments s)) @ where_toks (up_where s)
     @ [semicolon_tok]"
| "stmt_toks StmtBegin = [(KEYWORD_BEGIN, ''BEGIN''), semicolon_tok]"
| "stmt_toks StmtCommit = [(KEYWORD_COMMIT, ''COMMIT''), semicolon_tok]"
| "stmt_toks StmtRollback = [(KEYWORD_ROLLBACK, ''ROLLBACK''), semicolon_tok]"

text \<open>
  Statements that have a text: lists the grammar requires are non-empty, \<open>PRIMARY KEY\<close> only on the
  first column.
\<close>

fun wf_shape :: "Stmt \<Rightarrow> bool" where
  "wf_shape (StmtCreateTable s) \<longleftrightarrow> ct_columns s \<noteq> [] \<and> list_all (\<lambda>c. \<not> cd_primary_key c) (tl (ct_columns s))"
| "wf_shape (StmtInsert s) \<longleftrightarrow> in_values s \<noteq> []"
| "wf_shape (StmtUpdate s) \<longleftrightarrow> up_assignments s \<noteq> []"
| "wf_shape _ \<longleftrightarrow> True"

text \<open>
  The parser forgets how a literal was written and which of \<open>!=\<close> and \<open><>\<close> was used, and does not
  look at the spelling of keywords and punctuation.
\<close>

fun erase :: "SqlTokenType \<times> string \<Rightarrow> SqlTokenType \<times> string" where
  "erase (ty, s) = (if ty = NUMBER_LITERAL then (STRING_LITERAL, s)
     else if ty = IDENTIFIER \<or> ty = STRING_LITERAL then (ty, s) else (ty, []))"

definition erased :: "Token list \<Rightarrow> (SqlTokenType \<times> string) list" where
  "erased ts = map (erase \<circ> token_sig) ts"

text \<open>\<open>eoi ts\<close>: a token list that ends in \<open>END_OF_INPUT\<close>, as the lexer's output does.\<close>

definition eoi :: "Token list \<Rightarrow> bool" where
  "eoi ts \<longleftrightarrow> ts \<noteq> [] \<and> tk_type (last ts) = END_OF_INPUT"

definition took :: "Token list \<Rightarrow> Token list \<Rightarrow> (SqlTokenType \<times> string) list \<Rightarrow> bool" where
  "took ts R sg \<longleftrightarrow> (\<exists>pre. ts = pre @ R \<and> erased pre = map erase sg)"

section \<open>Each parsing method takes exactly the tokens it stands for\<close>

lemma took_Nil [simp]: "took ts R [] \<longleftrightarrow> ts = R"
  by (auto simp: took_def erased_def)

lemma took_append: "took ts R (a @ b) \<longleftrightarrow> (\<exists>R1. took ts R1 a \<and> took R1 R b)"
proof
  assume "took ts R (a @ b)"
  then obtain pre where pre: "ts = pre @ R" "map (erase \<circ> token_sig) pre = map erase a @ map erase b"
    by (auto simp: took_def erased_def)
  obtain p q where pq: "pre = p @ q" "map erase a = map (erase \<circ> token_sig) p"
      "map erase b = map (erase \<circ> token_sig) q"
    using iffD1 [OF map_eq_append_conv pre(2)] by blast
  have "took ts (q @ R) a" "took (q @ R) R b"
    using pre pq by (auto simp: took_def erased_def)
  then show "\<exists>R1. took ts R1 a \<and> took R1 R b" by blast
next
  assume "\<exists>R1. took ts R1 a \<and> took R1 R b"
  then obtain R1 p q where "ts = p @ R1" "R1 = q @ R" "erased p = map erase a" "erased q = map erase b"
    by (auto simp: took_def)
  then show "took ts R (a @ b)"
    unfolding took_def erased_def by (intro exI [of _ "p @ q"]) simp
qed

lemma took_Cons: "took ts R (x # b) \<longleftrightarrow> (\<exists>R1. took ts R1 [x] \<and> took R1 R b)"
  using took_append [of ts R "[x]" b] by simp

lemma took_Cons2: "took ts R (x # y # b) \<longleftrightarrow> (\<exists>R1. took ts R1 [x] \<and> took R1 R (y # b))"
  by (rule took_Cons)

lemma took_one: "took ts R [x] \<longleftrightarrow> (\<exists>t. ts = t # R \<and> erase (token_sig t) = erase x)"
  by (auto simp: took_def erased_def map_eq_Cons_conv)

lemma took_eoi: "took ts R sg \<Longrightarrow> eoi R \<Longrightarrow> eoi ts"
  by (auto simp: took_def eoi_def)

lemma eoi_advance:
  assumes "eoi ts" "next_is ty ts" "ty \<noteq> END_OF_INPUT"
  obtains t where "ts = t # moved ts" "tk_type t = ty" "eoi (moved ts)"
  using assms by (cases ts rule: moved.cases) (auto simp: eoi_def next_is_def)

lemma advance_eoi [simp]: "eoi R \<Longrightarrow> moved (t # R) = R"
  by (cases R) (auto simp: eoi_def)

lemma check_Cons [simp]: "next_is ty (t # R) \<longleftrightarrow> tk_type t = ty"
  by (simp add: next_is_def)

text \<open>Keywords, operators and punctuation: token types whose text the parser ignores.\<close>

definition fixed :: "SqlTokenType \<Rightarrow> bool" where
  "fixed ty \<longleftrightarrow> ty \<notin> {IDENTIFIER, STRING_LITERAL, NUMBER_LITERAL, END_OF_INPUT}"

lemma took_fixed: "fixed ty \<Longrightarrow> took ts R [(ty, s)] \<longleftrightarrow> (\<exists>t. ts = t # R \<and> tk_type t = ty)"
  by (auto simp: took_one fixed_def token_sig_def split: if_splits)

lemma expect_iff:
  assumes "eoi ts" "fixed ty"
  shows "Parser_expect ty w ts = Inr R \<longleftrightarrow> eoi R \<and> took ts R [(ty, s)]"
proof
  assume "Parser_expect ty w ts = Inr R"
  then have "next_is ty ts" "R = moved ts"
    by (auto simp: expect_eq split: if_splits)
  with assms show "eoi R \<and> took ts R [(ty, s)]"
    by (metis eoi_advance took_fixed fixed_def insertCI)
next
  assume "eoi R \<and> took ts R [(ty, s)]"
  with assms(2) show "Parser_expect ty w ts = Inr R"
    by (auto simp: took_fixed expect_eq)
qed

lemma ident_iff:
  assumes "eoi ts"
  shows "Parser_parseIdentifier ts = Inr (n, R) \<longleftrightarrow> eoi R \<and> took ts R [ident_tok n]"
proof
  assume "Parser_parseIdentifier ts = Inr (n, R)"
  then have c: "next_is IDENTIFIER ts" "R = moved ts" "n = tk_text (hd ts)"
    by (auto simp: identifier_eq split: if_splits)
  obtain t where "ts = t # R" "tk_type t = IDENTIFIER" "eoi R"
    using eoi_advance [OF assms c(1)] c(2) by auto
  with c(3) show "eoi R \<and> took ts R [ident_tok n]"
    by (simp add: took_one ident_tok_def token_sig_def)
next
  assume "eoi R \<and> took ts R [ident_tok n]"
  then show "Parser_parseIdentifier ts = Inr (n, R)"
    by (auto simp: took_one ident_tok_def token_sig_def identifier_eq split: if_splits)
qed

lemma literal_iff:
  assumes "eoi ts"
  shows "Parser_parseLiteral ts = Inr (v, R) \<longleftrightarrow> eoi R \<and> took ts R [lit_tok v]"
proof
  assume "Parser_parseLiteral ts = Inr (v, R)"
  then have c: "next_is STRING_LITERAL ts \<or> next_is NUMBER_LITERAL ts" "R = moved ts" "v = tk_text (hd ts)"
    by (auto simp: literal_eq split: if_splits)
  then obtain t where "ts = t # R" "tk_type t = STRING_LITERAL \<or> tk_type t = NUMBER_LITERAL" "eoi R"
    using eoi_advance [OF assms, of STRING_LITERAL] eoi_advance [OF assms, of NUMBER_LITERAL] by blast
  with c(3) show "eoi R \<and> took ts R [lit_tok v]"
    by (auto simp: took_one lit_tok_def token_sig_def)
next
  assume "eoi R \<and> took ts R [lit_tok v]"
  then show "Parser_parseLiteral ts = Inr (v, R)"
    by (auto simp: took_one lit_tok_def token_sig_def literal_eq split: if_splits)
qed

lemma op_iff:
  assumes "eoi ts"
  shows "Parser_parseComparisonOp ts = Inr (cmp, R) \<longleftrightarrow> eoi R \<and> took ts R [op_tok cmp]"
proof
  assume a: "Parser_parseComparisonOp ts = Inr (cmp, R)"
  then have c: "next_is (fst (op_tok cmp)) ts" "R = moved ts"
    by (auto simp: op_eq split: if_splits)
  have f: "fixed (fst (op_tok cmp))" by (cases cmp) (simp_all add: fixed_def)
  then have "took ts R [(fst (op_tok cmp), snd (op_tok cmp))]" "eoi R"
    using eoi_advance [OF assms c(1)] c(2) unfolding took_fixed [OF f] by (auto simp: fixed_def)
  then show "eoi R \<and> took ts R [op_tok cmp]" by simp
next
  assume "eoi R \<and> took ts R [op_tok cmp]"
  then show "Parser_parseComparisonOp ts = Inr (cmp, R)"
    by (cases cmp) (auto simp: took_fixed fixed_def op_eq)
qed

lemma fixed_simps [simp]:
  "fixed KEYWORD_CREATE" "fixed KEYWORD_TABLE" "fixed KEYWORD_INSERT" "fixed KEYWORD_INTO" "fixed KEYWORD_VALUES"
  "fixed KEYWORD_SELECT" "fixed KEYWORD_FROM" "fixed KEYWORD_WHERE" "fixed KEYWORD_DELETE" "fixed KEYWORD_UPDATE"
  "fixed KEYWORD_SET" "fixed KEYWORD_BEGIN" "fixed KEYWORD_COMMIT" "fixed KEYWORD_ROLLBACK"
  "fixed KEYWORD_PRIMARY" "fixed KEYWORD_KEY" "fixed OP_EQ" "fixed COMMA" "fixed LPAREN" "fixed RPAREN"
  "fixed STAR" "fixed SEMICOLON"
  by (simp_all add: fixed_def)

lemma took_check: "fixed ty \<Longrightarrow> took ts R ((ty, s) # sg) \<Longrightarrow> next_is ty' ts \<longleftrightarrow> ty' = ty"
  by (auto simp: took_Cons [of ts R] took_fixed)

lemma check_took:
  assumes "eoi ts" "fixed ty"
  shows "next_is ty ts \<longleftrightarrow> eoi (moved ts) \<and> took ts (moved ts) [(ty, s)]"
proof
  assume c: "next_is ty ts"
  have "ty \<noteq> END_OF_INPUT" using assms(2) by (auto simp: fixed_def)
  then obtain t where "ts = t # moved ts" "tk_type t = ty" "eoi (moved ts)"
    using eoi_advance [OF assms(1) c] by metis
  then show "eoi (moved ts) \<and> took ts (moved ts) [(ty, s)]"
    unfolding took_fixed [OF assms(2)] by blast
next
  assume "eoi (moved ts) \<and> took ts (moved ts) [(ty, s)]"
  then obtain t where "ts = t # moved ts" "tk_type t = ty"
    unfolding took_fixed [OF assms(2)] by blast
  then show "next_is ty ts" by (metis check_Cons)
qed

lemma took_after:
  assumes "took ts R1 [(ty, s)]" "fixed ty"
  shows "took ts R ((ty, s) # sg) \<longleftrightarrow> took R1 R sg"
proof
  assume "took ts R ((ty, s) # sg)"
  then obtain R2 where "took ts R2 [(ty, s)]" "took R2 R sg" unfolding took_Cons [of ts R] by blast
  with assms show "took R1 R sg" by (auto simp: took_fixed)
next
  assume "took R1 R sg"
  with assms(1) show "took ts R ((ty, s) # sg)" unfolding took_Cons [of ts R] by blast
qed

lemma optWhere_iff:
  assumes "eoi ts"
  shows "Parser_optWhere ts = Inr (w, R) \<longleftrightarrow>
    eoi R \<and> took ts R (where_toks w) \<and> (w = None \<longrightarrow> \<not> next_is KEYWORD_WHERE R)"
proof (cases "next_is KEYWORD_WHERE ts")
  case False
  then have "\<not> took ts R ((KEYWORD_WHERE, ''WHERE'') # sg)" for sg
    using took_check [of KEYWORD_WHERE ts R "''WHERE''" sg KEYWORD_WHERE] False by auto
  with False assms show ?thesis
    by (auto simp: optWhere_eq where_toks_def eoi_def split: option.splits)
next
  case True
  let ?a = "moved ts"
  have a: "eoi ?a" "took ts ?a [(KEYWORD_WHERE, ''WHERE'')]"
    using check_took [OF assms, of KEYWORD_WHERE] True by simp_all
  have key: "took ts R ((KEYWORD_WHERE, ''WHERE'') # sg) \<longleftrightarrow> took ?a R sg" for sg
    by (rule took_after [OF a(2)]) simp
  have "Parser_parseWhereClause ?a = Inr (v, R) \<longleftrightarrow>
      eoi R \<and> took ?a R [ident_tok (wc_column v), op_tok (wc_op v), lit_tok (wc_literal v)]" for v
    using a(1) unfolding Parser_parseWhereClause_def took_Cons [of _ _ _ "_ # _"]
    by (cases v) (auto simp: result_simps ident_iff op_iff literal_iff cong: conj_cong dest: took_eoi)
  with True a(1) show ?thesis
    by (cases w) (auto simp: eoi_def [of "[]"] optWhere_eq where_toks_def result_simps key)
qed

section \<open>Comma-separated lists\<close>

text \<open>
  The contract shared by the four loops of the grammar: an item parser that takes exactly the item's
  tokens, and a loop that continues after a comma. \<open>okay\<close> is what an item must satisfy at the
  first and at later places, \<open>follow\<close> what the item parser needs of the token after the item.
\<close>

locale comma_list =
  fixes item :: "bool \<Rightarrow> Token list \<Rightarrow> ('a \<times> Token list) result"
    and toks :: "'a \<Rightarrow> (SqlTokenType \<times> string) list"
    and okay :: "bool \<Rightarrow> 'a \<Rightarrow> bool"
    and follow :: "'a \<Rightarrow> Token list \<Rightarrow> bool"
    and loop :: "'a list \<Rightarrow> Token list \<Rightarrow> ('a list \<times> Token list) result"
  assumes item_iff: "eoi ts \<Longrightarrow> item first ts = Inr (x, R) \<longleftrightarrow> eoi R \<and> took ts R (toks x) \<and> okay first x \<and> follow x R"
    and follow_comma: "next_is COMMA R \<Longrightarrow> follow x R"
    and loop_eq: "loop xs ts = bindE (item (xs = []) ts) (\<lambda>(x, ts1).
      bindE (Parser_check COMMA ts1) (\<lambda>c.
      if c then bindE (Parser_advance ts1) (\<lambda>(_, ts2). loop (xs @ [x]) ts2) else Inr (xs @ [x], ts1)))"
begin

lemma loop_sound:
  "eoi ts \<Longrightarrow> loop xs ts = Inr (ys, R) \<Longrightarrow>
    \<exists>x new. ys = xs @ x # new \<and> eoi R \<and> took ts R (commas (map toks (x # new)))
      \<and> okay (xs = []) x \<and> list_all (okay False) new \<and> follow (last (x # new)) R \<and> \<not> next_is COMMA R"
proof (induction "length ts" arbitrary: xs ts rule: less_induct)
  case less
  then obtain x ts1 where item: "item (xs = []) ts = Inr (x, ts1)"
    and cont: "(if next_is COMMA ts1 then loop (xs @ [x]) (moved ts1) else Inr (xs @ [x], ts1)) = Inr (ys, R)"
    by (subst (asm) loop_eq) (auto simp: result_simps token_eqs split: if_splits)
  then have it: "eoi ts1" "took ts ts1 (toks x)" "okay (xs = []) x" "follow x ts1"
    using item_iff [OF less.prems(1)] by simp_all
  show ?case
  proof (cases "next_is COMMA ts1")
    case False
    with cont it show ?thesis by (intro exI [of _ x] exI [of _ "[]"]) simp
  next
    case True
    let ?a = "moved ts1"
    have a: "eoi ?a" "took ts1 ?a [comma_tok]"
      using check_took [OF it(1), of COMMA] True by simp_all
    have "length ts1 = Suc (length ?a)"
      using a(2) unfolding took_one by (metis length_Cons)
    then have "length ?a < length ts"
      using it(2) by (auto simp: took_def)
    moreover have "loop (xs @ [x]) ?a = Inr (ys, R)" using cont True by simp
    ultimately obtain y new where "ys = (xs @ [x]) @ y # new" "eoi R" "took ?a R (commas (map toks (y # new)))"
        "okay False y" "list_all (okay False) new" "follow (last (y # new)) R" "\<not> next_is COMMA R"
      using less.hyps [of ?a "xs @ [x]"] a(1) by auto
    moreover from this(3) a(2) have "took ts1 R (comma_tok # commas (map toks (y # new)))"
      unfolding took_Cons [of ts1 R] by blast
    ultimately show ?thesis
      using it by (intro exI [of _ x] exI [of _ "y # new"]) (auto simp: took_append)
  qed
qed

lemma loop_complete:
  "eoi R \<Longrightarrow> took ts R (commas (map toks (x # new))) \<Longrightarrow> okay (xs = []) x \<Longrightarrow> list_all (okay False) new \<Longrightarrow>
   follow (last (x # new)) R \<Longrightarrow> \<not> next_is COMMA R \<Longrightarrow> loop xs ts = Inr (xs @ x # new, R)"
proof (induction new arbitrary: x xs ts)
  case Nil
  then have "item (xs = []) ts = Inr (x, R)"
    using item_iff [of ts] took_eoi by simp
  moreover have "R \<noteq> []" using Nil by (simp add: eoi_def)
  ultimately show ?case using Nil by (subst loop_eq) (simp add: token_eqs)
next
  case (Cons y new)
  then obtain R1 R2 where R: "took ts R1 (toks x)" "took R1 R2 [comma_tok]" "took R2 R (commas (map toks (y # new)))"
    by (auto simp: took_append took_Cons [of _ R comma_tok])
  then have e: "eoi R2" "eoi R1" "eoi ts"
    using Cons.prems(1) took_eoi by blast+
  have c: "next_is COMMA R1" "moved R1 = R2"
    using R(2) e by (auto simp: took_fixed)
  then have "item (xs = []) ts = Inr (x, R1)"
    using item_iff [OF e(3)] R(1) e Cons.prems(3) follow_comma by simp
  moreover have "loop (xs @ [x]) R2 = Inr ((xs @ [x]) @ y # new, R)"
    using Cons.prems R(3) by (intro Cons.IH) simp_all
  moreover have "R1 \<noteq> []" using c by (simp add: next_is_def)
  ultimately show ?case using c by (subst loop_eq) (simp add: token_eqs)
qed

lemma loop_iff:
  assumes "eoi ts"
  shows "loop [] ts = Inr (ys, R) \<longleftrightarrow> ys \<noteq> [] \<and> eoi R \<and> took ts R (commas (map toks ys))
    \<and> okay True (hd ys) \<and> list_all (okay False) (tl ys) \<and> follow (last ys) R \<and> \<not> next_is COMMA R"
proof
  assume "loop [] ts = Inr (ys, R)"
  from loop_sound [OF assms this] show "ys \<noteq> [] \<and> eoi R \<and> took ts R (commas (map toks ys))
    \<and> okay True (hd ys) \<and> list_all (okay False) (tl ys) \<and> follow (last ys) R \<and> \<not> next_is COMMA R"
    by auto
next
  assume "ys \<noteq> [] \<and> eoi R \<and> took ts R (commas (map toks ys))
    \<and> okay True (hd ys) \<and> list_all (okay False) (tl ys) \<and> follow (last ys) R \<and> \<not> next_is COMMA R"
  then show "loop [] ts = Inr (ys, R)"
    using loop_complete [of R ts "hd ys" "tl ys" "[]"] by (cases ys) auto
qed

end

definition Parser_columnItem :: "bool \<Rightarrow> Token list \<Rightarrow> (ColumnDef \<times> Token list) result" where
  "Parser_columnItem first ts =
     bindE (Parser_parseIdentifier ts) (\<lambda>(name, ts1).
     bindE (Parser_parseIdentifier ts1) (\<lambda>(ty, ts2).
     bindE (Parser_primaryKey first ts2) (\<lambda>(pk, ts3).
     Inr (\<lparr>cd_name = name, cd_type = ty, cd_primary_key = pk\<rparr>, ts3))))"

lemma primaryKey_iff:
  assumes "eoi ts"
  shows "Parser_primaryKey first ts = Inr (pk, R) \<longleftrightarrow> eoi R
    \<and> took ts R (if pk then [(KEYWORD_PRIMARY, ''PRIMARY''), (KEYWORD_KEY, ''KEY'')] else [])
    \<and> (pk \<longrightarrow> first) \<and> (\<not> pk \<longrightarrow> \<not> next_is KEYWORD_PRIMARY R)"
proof (cases "next_is KEYWORD_PRIMARY ts")
  case False
  then have "\<not> took ts R ((KEYWORD_PRIMARY, ''PRIMARY'') # sg)" for sg
    using took_check [of KEYWORD_PRIMARY ts R "''PRIMARY''" sg KEYWORD_PRIMARY] by auto
  with False assms show ?thesis by (auto simp: primaryKey_eq eoi_def)
next
  case True
  let ?a = "moved ts"
  have a: "eoi ?a" "took ts ?a [(KEYWORD_PRIMARY, ''PRIMARY'')]"
    using check_took [OF assms, of KEYWORD_PRIMARY] True by simp_all
  have key: "took ts R ((KEYWORD_PRIMARY, ''PRIMARY'') # sg) \<longleftrightarrow> took ?a R sg" for sg
    by (rule took_after [OF a(2)]) simp
  from True a(1) show ?thesis
    by (auto simp: eoi_def [of "[]"] primaryKey_eq result_simps key expect_iff [where s = "''KEY''"])
qed

interpretation vl: comma_list "\<lambda>_. Parser_parseLiteral" "\<lambda>v. [lit_tok v]" "\<lambda>_ _. True" "\<lambda>_ _. True" Parser_valuesLoop
  by unfold_locales (simp_all add: literal_iff Parser_valuesLoop.simps)

interpretation al: comma_list "\<lambda>_. Parser_assignment" assignment_toks "\<lambda>_ _. True" "\<lambda>_ _. True" Parser_assignmentsLoop
proof (unfold_locales, goal_cases)
  case (1 ts first x R)
  show ?case
    using 1 unfolding Parser_assignment_def assignment_toks_def took_Cons [of _ _ _ "_ # _"]
    by (cases x) (auto simp: result_simps ident_iff expect_iff [where s = "''=''"] literal_iff cong: conj_cong dest: took_eoi)
qed (simp_all add: Parser_assignmentsLoop.simps)

interpretation sl: comma_list "\<lambda>_. Parser_parseIdentifier" "\<lambda>c. [ident_tok c]" "\<lambda>_ _. True" "\<lambda>_ _. True"
  "\<lambda>xs ts. bindE (Parser_parseIdentifier ts) (\<lambda>(c, ts1). Parser_selectLoop (xs @ [c]) ts1)"
proof (unfold_locales, goal_cases)
  case (3 xs ts)
  show ?case by (rule bindE_cong) (auto simp: Parser_selectLoop.simps)
qed (simp_all add: ident_iff)

interpretation cl: comma_list Parser_columnItem column_toks "\<lambda>first c. cd_primary_key c \<longrightarrow> first"
  "\<lambda>c R. \<not> cd_primary_key c \<longrightarrow> \<not> next_is KEYWORD_PRIMARY R" Parser_columnsLoop
proof (unfold_locales, goal_cases)
  case (1 ts first x R)
  show ?case
    using 1 unfolding Parser_columnItem_def column_toks_def took_append took_Cons [of _ _ _ "_ # _"]
    by (cases x) (auto simp: result_simps ident_iff primaryKey_iff cong: conj_cong dest: took_eoi)
next
  case (2 R x)
  then show ?case by (auto simp: next_is_def)
next
  case (3 xs ts)
  show ?case
    by (subst Parser_columnsLoop.simps) (simp add: Parser_columnItem_def bindE_assoc Let_def split_def cong: if_cong)
qed

section \<open>Statements\<close>

lemma took_text: "fixed ty \<Longrightarrow> took ts R [(ty, c # cs)] \<longleftrightarrow> took ts R [(ty, [])]"
  by (simp add: took_fixed)

lemma took_Cons_append: "took ts R (x # (a @ b)) \<longleftrightarrow> (\<exists>R1. took ts R1 [x] \<and> took R1 R (a @ b))"
  by (rule took_Cons)

lemma took_not_check: "took R R' [(ty, s)] \<Longrightarrow> fixed ty \<Longrightarrow> ty' \<noteq> ty \<Longrightarrow> \<not> next_is ty' R"
  by (simp add: took_check)

lemma took_append_eoi:
  "eoi R \<Longrightarrow> took ts R (a @ b) \<longleftrightarrow> (\<exists>R1. took ts R1 a \<and> eoi R1 \<and> took R1 R b)"
  unfolding took_append using took_eoi by blast

lemma took_Cons_eoi:
  "eoi R \<Longrightarrow> took ts R (x # y # b) \<longleftrightarrow> (\<exists>R1. took ts R1 [x] \<and> eoi R1 \<and> took R1 R (y # b))"
  "eoi R \<Longrightarrow> took ts R (x # (a @ b)) \<longleftrightarrow> (\<exists>R1. took ts R1 [x] \<and> eoi R1 \<and> took R1 R (a @ b))"
  unfolding took_Cons [of ts R] using took_eoi by blast+

lemma parse_iffs:
  assumes "eoi ts"
  shows "fixed ty \<Longrightarrow> Parser_expect ty w ts = Inr R \<longleftrightarrow> took ts R [(ty, [])] \<and> eoi R"
    "Parser_parseIdentifier ts = Inr (n, R) \<longleftrightarrow> took ts R [ident_tok n] \<and> eoi R"
    "Parser_optWhere ts = Inr (wh, R) \<longleftrightarrow> took ts R (where_toks wh) \<and> eoi R \<and> (wh = None \<longrightarrow> \<not> next_is KEYWORD_WHERE R)"
    "Parser_columnsLoop [] ts = Inr (cs, R) \<longleftrightarrow> cs \<noteq> [] \<and> list_all (\<lambda>c. \<not> cd_primary_key c) (tl cs)
      \<and> took ts R (commas (map column_toks cs)) \<and> eoi R
      \<and> (\<not> cd_primary_key (last cs) \<longrightarrow> \<not> next_is KEYWORD_PRIMARY R) \<and> \<not> next_is COMMA R"
    "Parser_valuesLoop [] ts = Inr (vs, R) \<longleftrightarrow> vs \<noteq> [] \<and> took ts R (commas (map (\<lambda>v. [lit_tok v]) vs)) \<and> eoi R
      \<and> \<not> next_is COMMA R"
    "Parser_assignmentsLoop [] ts = Inr (as, R) \<longleftrightarrow> as \<noteq> [] \<and> took ts R (commas (map assignment_toks as)) \<and> eoi R
      \<and> \<not> next_is COMMA R"
  using assms by (auto simp: expect_iff [where s = "[]"] ident_iff optWhere_iff cl.loop_iff vl.loop_iff al.loop_iff list.pred_True)

lemmas took_simps = took_append_eoi took_Cons_eoi took_text

lemma after_tokens:
  "took R R' [(RPAREN, [])] \<Longrightarrow> \<not> next_is COMMA R"
  "took R R' [(RPAREN, [])] \<Longrightarrow> \<not> next_is KEYWORD_PRIMARY R"
  "took R R' [(SEMICOLON, [])] \<Longrightarrow> \<not> next_is COMMA R"
  "took R R' [(SEMICOLON, [])] \<Longrightarrow> \<not> next_is KEYWORD_WHERE R"
  "took R R' [(KEYWORD_FROM, [])] \<Longrightarrow> \<not> next_is COMMA R"
  "took R R' [(KEYWORD_WHERE, [])] \<Longrightarrow> \<not> next_is COMMA R"
  by (erule took_not_check; simp)+

lemma create_iff:
  assumes "eoi ts"
  shows "Parser_parseCreateTable ts = Inr (s, R) \<longleftrightarrow>
    eoi R \<and> took ts R (stmt_toks (StmtCreateTable s)) \<and> wf_shape (StmtCreateTable s)"
  using assms unfolding Parser_parseCreateTable_def
  by (cases s) (simp add: result_simps parse_iffs took_simps cong: conj_cong, blast dest: after_tokens)

lemma insert_iff:
  assumes "eoi ts"
  shows "Parser_parseInsert ts = Inr (s, R) \<longleftrightarrow>
    eoi R \<and> took ts R (stmt_toks (StmtInsert s)) \<and> wf_shape (StmtInsert s)"
  using assms unfolding Parser_parseInsert_def
  by (cases s) (simp add: result_simps parse_iffs took_simps cong: conj_cong, blast dest: after_tokens)

lemma delete_iff:
  assumes "eoi ts"
  shows "Parser_parseDelete ts = Inr (s, R) \<longleftrightarrow>
    eoi R \<and> took ts R (stmt_toks (StmtDelete s)) \<and> wf_shape (StmtDelete s)"
  using assms unfolding Parser_parseDelete_def
  by (cases s) (simp add: result_simps parse_iffs took_simps cong: conj_cong, blast dest: after_tokens)

lemma selectList_iff:
  assumes "eoi ts"
  shows "Parser_selectList ts = Inr (cols, R) \<longleftrightarrow>
    took ts R (select_toks cols) \<and> eoi R \<and> (cols \<noteq> [] \<longrightarrow> \<not> next_is COMMA R)"
proof (cases "next_is STAR ts")
  case True
  then have no: "\<not> took ts R1 [ident_tok c]" for R1 c
    by (auto simp: took_one ident_tok_def token_sig_def split: if_splits)
  have "\<not> took ts R (commas (map (\<lambda>c. [ident_tok c]) cols))" if ne: "cols \<noteq> []"
  proof -
    obtain c cs where "cols = c # cs" using ne by (cases cols) auto
    then show ?thesis using no by (cases cs) (auto simp: took_Cons2)
  qed
  then show ?thesis
    using check_took [OF assms, of STAR "''*''"] True
    by (auto simp: selectList_eq select_toks_def took_fixed)
next
  case False
  then have "\<not> took ts R [(STAR, ''*'')]"
    by (auto simp: took_fixed)
  then show ?thesis
    using assms False sl.loop_iff [OF assms, of cols R]
    by (auto simp: eoi_def [of ts] selectList_eq select_toks_def list.pred_True)
qed

lemma select_iff:
  assumes "eoi ts"
  shows "Parser_parseSelect ts = Inr (s, R) \<longleftrightarrow>
    eoi R \<and> took ts R (stmt_toks (StmtSelect s)) \<and> wf_shape (StmtSelect s)"
  using assms unfolding Parser_parseSelect_def
  by (cases s) (simp add: result_simps parse_iffs selectList_iff took_simps cong: conj_cong, blast dest: after_tokens)

lemma where_not_comma:
  "took R R' (where_toks w) \<Longrightarrow> eoi R' \<Longrightarrow> took R' R'' [(SEMICOLON, [])] \<Longrightarrow> \<not> next_is COMMA R"
  by (cases w) (auto simp: where_toks_def took_simps dest: after_tokens)

lemma update_iff:
  assumes "eoi ts"
  shows "Parser_parseUpdate ts = Inr (s, R) \<longleftrightarrow>
    eoi R \<and> took ts R (stmt_toks (StmtUpdate s)) \<and> wf_shape (StmtUpdate s)"
  using assms unfolding Parser_parseUpdate_def
  by (cases s) (simp add: result_simps parse_iffs took_simps cong: conj_cong, blast dest: after_tokens where_not_comma)

lemma keyword_iff:
  assumes "eoi ts" "next_is ty ts" "fixed ty"
  shows "Parser_keywordStmt stmt ts = Inr (s, R) \<longleftrightarrow>
    s = stmt \<and> eoi R \<and> took ts R [(ty, str), semicolon_tok]"
proof -
  have a: "eoi (moved ts)" "took ts (moved ts) [(ty, str)]"
    using check_took [OF assms(1,3), of str] assms(2) by simp_all
  show ?thesis
    unfolding took_after [OF a(2) assms(3)]
    using a(1) assms(2) by (auto simp: keywordStmt_eq next_is_def result_simps expect_iff [where s = "'';''"])
qed

lemma took_head:
  "took ts R ((ty, str) # sg) \<Longrightarrow> fixed ty \<Longrightarrow> ts \<noteq> [] \<and> tk_type (hd ts) = ty"
  by (auto simp: took_Cons [of ts R] took_fixed)

lemma stmt_head:
  "\<exists>ty str sg. stmt_toks s = (ty, str) # sg \<and> fixed ty \<and> ty = (case s of
     StmtCreateTable _ \<Rightarrow> KEYWORD_CREATE | StmtInsert _ \<Rightarrow> KEYWORD_INSERT | StmtSelect _ \<Rightarrow> KEYWORD_SELECT
   | StmtDelete _ \<Rightarrow> KEYWORD_DELETE | StmtUpdate _ \<Rightarrow> KEYWORD_UPDATE | StmtBegin \<Rightarrow> KEYWORD_BEGIN
   | StmtCommit \<Rightarrow> KEYWORD_COMMIT | StmtRollback \<Rightarrow> KEYWORD_ROLLBACK)"
  by (cases s) auto

lemma parseStatement_sound:
  assumes "eoi ts" "Parser_parseStatement ts = Inr (s, R)"
  shows "eoi R \<and> took ts R (stmt_toks s) \<and> wf_shape s"
proof -
  have ne: "ts \<noteq> []" using assms(1) by (simp add: eoi_def)
  show ?thesis
    using assms ne
    by (cases "tk_type (hd ts)")
      (auto simp: Parser_parseStatement_def token_eqs map_stmt_def result_simps create_iff insert_iff select_iff delete_iff
        update_iff keyword_iff [where ty = KEYWORD_BEGIN and str = "''BEGIN''"] keyword_iff [where ty = KEYWORD_COMMIT and str = "''COMMIT''"]
        keyword_iff [where ty = KEYWORD_ROLLBACK and str = "''ROLLBACK''"] next_is_def
        simp del: stmt_toks.simps(1-5) wf_shape.simps(1-3))
qed

lemma parseStatement_complete:
  assumes "eoi ts" "eoi R" "took ts R (stmt_toks s)" "wf_shape s"
  shows "Parser_parseStatement ts = Inr (s, R)"
proof -
  obtain ty str sg where h: "stmt_toks s = (ty, str) # sg" "fixed ty" using stmt_head by blast
  have hd: "ts \<noteq> []" "tk_type (hd ts) = ty" using took_head assms(3) h by auto
  show ?thesis
    using assms hd h
    by (cases s)
      (auto simp: Parser_parseStatement_def token_eqs map_stmt_def result_simps create_iff insert_iff select_iff delete_iff
        update_iff keyword_iff [where ty = KEYWORD_BEGIN and str = "''BEGIN''"] keyword_iff [where ty = KEYWORD_COMMIT and str = "''COMMIT''"]
        keyword_iff [where ty = KEYWORD_ROLLBACK and str = "''ROLLBACK''"] next_is_def)
qed

section \<open>Errors\<close>

text \<open>
  \<open>only_parse rm r\<close>: the result \<open>r\<close> is a value that leaves a current token, \<open>rm\<close> giving the remaining tokens, or a \<open>ParseError\<close>.
\<close>

definition only_parse :: "('a \<Rightarrow> Token list) \<Rightarrow> 'a result \<Rightarrow> bool" where
  "only_parse rm r \<longleftrightarrow> (case r of Inr x \<Rightarrow> rm x \<noteq> [] | Inl e \<Rightarrow> \<exists>msg pos. e = ParseError msg pos)"

lemma only_parse_simps [simp]: "only_parse rm (Inr x) \<longleftrightarrow> rm x \<noteq> []" "only_parse rm (Inl (ParseError m p))"
  by (simp_all add: only_parse_def)

lemma only_parse_bind:
  "only_parse rm m \<Longrightarrow> (\<And>x. m = Inr x \<Longrightarrow> rm x \<noteq> [] \<Longrightarrow> only_parse rn (f x)) \<Longrightarrow> only_parse rn (bindE m f)"
  by (cases m) (auto simp: only_parse_def)

lemma only_parse_seq [intro!]:
  "only_parse snd m \<Longrightarrow> (\<And>x ts. m = Inr (x, ts) \<Longrightarrow> ts \<noteq> [] \<Longrightarrow> only_parse rn (f x ts)) \<Longrightarrow> only_parse rn (bindE m (\<lambda>(x, ts). f x ts))"
  "only_parse id m' \<Longrightarrow> (\<And>ts. m' = Inr ts \<Longrightarrow> ts \<noteq> [] \<Longrightarrow> only_parse rn (g ts)) \<Longrightarrow> only_parse rn (bindE m' g)"
  by (cases m, auto simp: only_parse_def) (cases m', auto simp: only_parse_def)

lemma only_parse_basic [simp]:
  assumes "ts \<noteq> []"
  shows "only_parse id (Parser_expect ty w ts)" "only_parse snd (Parser_parseIdentifier ts)" "only_parse snd (Parser_parseLiteral ts)"
    "only_parse snd (Parser_parseComparisonOp ts)"
  using assms by (simp_all add: expect_eq identifier_eq literal_eq op_eq)

lemma only_parse_clauses [simp]:
  assumes "ts \<noteq> []"
  shows "only_parse snd (Parser_optWhere ts)" "only_parse snd (Parser_primaryKey first ts)" "only_parse snd (Parser_assignment ts)"
  using assms by (auto simp: optWhere_eq Parser_parseWhereClause_def primaryKey_eq Parser_assignment_def)

lemma only_parse_columns [simp]: "ts \<noteq> [] \<Longrightarrow> only_parse snd (Parser_columnsLoop cols ts)"
  by (induction cols ts rule: Parser_columnsLoop.induct)
    (subst Parser_columnsLoop.simps, auto simp: Let_def token_eqs)

lemma only_parse_values [simp]: "ts \<noteq> [] \<Longrightarrow> only_parse snd (Parser_valuesLoop vs ts)"
  by (induction vs ts rule: Parser_valuesLoop.induct)
    (subst Parser_valuesLoop.simps, auto simp: token_eqs)

lemma only_parse_select [simp]: "ts \<noteq> [] \<Longrightarrow> only_parse snd (Parser_selectLoop cs ts)"
  by (induction cs ts rule: Parser_selectLoop.induct)
    (subst Parser_selectLoop.simps, auto simp: token_eqs)

lemma only_parse_assignments [simp]: "ts \<noteq> [] \<Longrightarrow> only_parse snd (Parser_assignmentsLoop as ts)"
  by (induction as ts rule: Parser_assignmentsLoop.induct)
    (subst Parser_assignmentsLoop.simps, auto simp: token_eqs)

lemma only_parse_statements [simp]:
  assumes "ts \<noteq> []"
  shows "only_parse snd (Parser_parseCreateTable ts)" "only_parse snd (Parser_parseInsert ts)" "only_parse snd (Parser_parseSelect ts)"
    "only_parse snd (Parser_parseDelete ts)" "only_parse snd (Parser_parseUpdate ts)" "only_parse snd (Parser_keywordStmt s ts)"
  using assms by (auto simp: Parser_parseCreateTable_def Parser_parseInsert_def Parser_parseSelect_def selectList_eq
      Parser_parseDelete_def Parser_parseUpdate_def keywordStmt_eq)

lemma only_parse_map [simp]: "only_parse snd r \<Longrightarrow> only_parse snd (map_stmt f r)"
  by (auto simp: map_stmt_def)

section \<open>Properties\<close>

text \<open>
  C26: the parser recognises exactly the grammar. On a token list that ends in \<open>END_OF_INPUT\<close>,
  \<open>parseStatement\<close> returns \<open>s\<close> with the tokens \<open>R\<close> left over if and only if the tokens before \<open>R\<close> are
  those of the printed statement (up to the spelling of keywords, operators and literals) and \<open>s\<close> is
  a statement of the grammar: required lists non-empty, \<open>PRIMARY KEY\<close> on the first column only.
\<close>
theorem Parser_exact:
  assumes "eoi ts" "R \<noteq> []"
  shows "Parser_parseStatement ts = Inr (s, R) \<longleftrightarrow>
    wf_shape s \<and> (\<exists>pre. ts = pre @ R \<and> erased pre = map erase (stmt_toks s))"
proof
  assume "Parser_parseStatement ts = Inr (s, R)"
  from parseStatement_sound [OF assms(1) this]
  show "wf_shape s \<and> (\<exists>pre. ts = pre @ R \<and> erased pre = map erase (stmt_toks s))"
    by (simp add: took_def)
next
  assume a: "wf_shape s \<and> (\<exists>pre. ts = pre @ R \<and> erased pre = map erase (stmt_toks s))"
  then have "eoi R" using assms by (auto simp: eoi_def)
  with a assms show "Parser_parseStatement ts = Inr (s, R)"
    by (intro parseStatement_complete) (auto simp: took_def)
qed

definition sample_tokens :: "Token list" where
  "sample_tokens = [\<lparr>tk_type = KEYWORD_BEGIN, tk_text = ''BEGIN'', tk_pos = 0\<rparr>,
     \<lparr>tk_type = SEMICOLON, tk_text = '';'', tk_pos = 5\<rparr>, \<lparr>tk_type = END_OF_INPUT, tk_text = [], tk_pos = 6\<rparr>]"

theorem Parser_exact_witness: "Parser_parseStatement sample_tokens = Inr (StmtBegin, drop 2 sample_tokens)"
  by (subst Parser_exact)
    (auto simp: sample_tokens_def eoi_def erased_def token_sig_def intro!: exI [of _ "take 2 sample_tokens"])

text \<open>
  C16: SQL text round trip, through lexer and parser: the printed text of every statement of the grammar
  whose names are identifiers tokenizes and parses back to that statement, with nothing left over.
\<close>
theorem SQL_text_roundtrip:
  assumes "wf_shape s" "list_all wf_token (stmt_toks s)"
  shows "\<exists>toks R. Lexer_tokenize (print_tokens (stmt_toks s)) = Inr toks
    \<and> Parser_parseStatement toks = Inr (s, R) \<and> Parser_atEnd R = Inr True"
proof -
  obtain toks where toks: "Lexer_tokenize (print_tokens (stmt_toks s)) = Inr toks"
      "map token_sig toks = stmt_toks s @ [(END_OF_INPUT, [])]"
    using tokenize_print [OF assms(2), of 0] by (auto simp: Lexer_tokenize_def)
  obtain pre e where pe: "toks = pre @ [e]" "map token_sig pre = stmt_toks s" "token_sig e = (END_OF_INPUT, [])"
    using iffD1 [OF map_eq_append_conv toks(2)] by auto
  have "took toks [e] (stmt_toks s)"
    using pe unfolding took_def erased_def by (auto simp flip: map_map intro!: exI [of _ pre])
  then have "Parser_parseStatement toks = Inr (s, [e])"
    using pe assms(1) by (intro parseStatement_complete) (auto simp: eoi_def token_sig_def)
  with toks(1) pe(3) show ?thesis
    by (auto simp: Parser_atEnd_def peek_eq token_sig_def)
qed

definition sample_stmt :: Stmt where
  "sample_stmt = StmtSelect \<lparr>se_table_name = ''t'', se_columns = [''a'', ''b''],
     se_where = Some \<lparr>wc_column = ''a'', wc_op = GTE, wc_literal = ''x'' @ [QUOTE]\<rparr>\<rparr>"

theorem SQL_text_roundtrip_witness:
  "\<exists>toks R. Lexer_tokenize (print_tokens (stmt_toks sample_stmt)) = Inr toks
    \<and> Parser_parseStatement toks = Inr (sample_stmt, R) \<and> Parser_atEnd R = Inr True"
  by (rule SQL_text_roundtrip)
    (simp_all add: sample_stmt_def select_toks_def where_toks_def ident_tok_def lit_tok_def wf_identifier_def
      keywordTable_def isalpha_def isdigit_def ident_char_def isalnum_def toUpper_def toupper_def)

lemma parseStatement_only: "ts \<noteq> [] \<Longrightarrow> only_parse snd (Parser_parseStatement ts)"
  unfolding Parser_parseStatement_def by (cases "tk_type (hd ts)") (simp_all add: token_eqs)

text \<open>
  C27: on a non-empty token list \<open>parseStatement\<close> always terminates; it returns a statement and leaves the position on a token of
  the vector, or throws a \<open>ParseError\<close>. Reading \<open>tokens[pos]\<close> past the end is undefined behaviour in the model, so no method of the
  parser reads outside the vector, whatever the tokens: the guard of \<open>advance\<close> keeps the position in range also when the vector
  does not end in \<open>END_OF_INPUT\<close>.
\<close>
theorem Parser_total:
  assumes "ts \<noteq> []"
  shows "(\<exists>s R. Parser_parseStatement ts = Inr (s, R) \<and> R \<noteq> []) \<or> (\<exists>msg pos. Parser_parseStatement ts = Inl (ParseError msg pos))"
  using parseStatement_only [OF assms] by (cases "Parser_parseStatement ts") (auto simp: only_parse_def)

theorem Parser_total_witness:
  "(\<exists>s R. Parser_parseStatement (take 2 sample_tokens) = Inr (s, R) \<and> R \<noteq> []) \<or>
   (\<exists>msg pos. Parser_parseStatement (take 2 sample_tokens) = Inl (ParseError msg pos))"
  by (rule Parser_total) (simp add: sample_tokens_def)

end
