(* ===== verification/Executor.thy ===== *)
theory Executor
  imports Database Parser
begin

text \<open>
  \<open>executor.hpp\<close> / \<open>executor.cpp\<close>: statements on the tables of a database.

  A statement on one table runs on the reference \<open>getTable\<close> returns, so it is an operation of that table (\<open>select_on\<close>, \<open>delete_on\<close>, \<open>update_on\<close>).
  \<open>execute\<close> turns every exception into a failed \<open>QueryResult\<close>; undefined behaviour and a loop that never ends are not exceptions and stay as they are.
\<close>

record QueryResult =
  qr_ok :: bool
  qr_message :: string
  qr_columns :: "string list"
  qr_rows :: "string list list"
  qr_affected_rows :: int

definition QueryResult_new :: QueryResult where
  "QueryResult_new = \<lparr>qr_ok = True, qr_message = [], qr_columns = [], qr_rows = [], qr_affected_rows = 0\<rparr>"

section \<open>Types, columns and conditions\<close>

definition tolower :: "char \<Rightarrow> char" where
  "tolower c = (let n = of_char c :: nat in if 65 \<le> n \<and> n \<le> 90 then char_of (n + 32) else c)"

definition normalizeType :: "string \<Rightarrow> string" where
  "normalizeType raw = map tolower raw"

definition columnIndex :: "Schema \<Rightarrow> string \<Rightarrow> nat result" where
  "columnIndex schema name =
     (case filter (\<lambda>i. co_name (schema ! i) = name) [0..<length schema] of
        [] \<Rightarrow> Inl (RuntimeError (''no such column: '' @ name))
      | i # _ \<Rightarrow> Inr i)"

text \<open>\<open>std::stoll\<close>.\<close>

definition stoll :: "string \<Rightarrow> int result" where
  "stoll s = (case parse_number s of
       None \<Rightarrow> Inl (InvalidArgument ''stoll'')
     | Some (neg, n) \<Rightarrow>
         let v = (if neg then - int n else int n) in
         if v < - (2 ^ 63) \<or> 2 ^ 63 \<le> v then Inl (OutOfRange ''stoll'') else Inr v)"

fun compare_with :: "ComparisonOp \<Rightarrow> int \<Rightarrow> int \<Rightarrow> bool" where
  "compare_with EQ a b = (a = b)"
| "compare_with NEQ a b = (a \<noteq> b)"
| "compare_with LT a b = (a < b)"
| "compare_with LTE a b = (a \<le> b)"
| "compare_with GT a b = (a > b)"
| "compare_with GTE a b = (a \<ge> b)"

definition evalWhere :: "string \<Rightarrow> ComparisonOp \<Rightarrow> string \<Rightarrow> string \<Rightarrow> bool result" where
  "evalWhere field_value cmp literal column_type =
     (if normalizeType column_type = ''int''
      then bindE (stoll field_value) (\<lambda>a. bindE (stoll literal) (\<lambda>b. Inr (compare_with cmp a b)))
      else Inr (compare_with cmp (string_compare field_value literal) 0))"

definition isPrimaryKeyEquality :: "Schema \<Rightarrow> WhereClause \<Rightarrow> bool" where
  "isPrimaryKeyEquality schema w \<longleftrightarrow> wc_op w = EQ \<and> schema \<noteq> [] \<and> co_name (hd schema) = wc_column w"

text \<open>\<open>where_idx\<close>; without a condition it is not used.\<close>

definition where_index :: "Schema \<Rightarrow> WhereClause option \<Rightarrow> nat result" where
  "where_index schema w = (case w of None \<Rightarrow> Inr 0 | Some wc \<Rightarrow> columnIndex schema (wc_column wc))"

definition row_matches :: "Schema \<Rightarrow> WhereClause option \<Rightarrow> nat \<Rightarrow> Record \<Rightarrow> bool result" where
  "row_matches schema w idx rec = (case w of
       None \<Rightarrow> Inr True
     | Some wc \<Rightarrow> bindE (vec_at (rec_fields rec) idx) (\<lambda>field. evalWhere field (wc_op wc) (wc_literal wc) (co_type (schema ! idx))))"

section \<open>CREATE TABLE and INSERT\<close>

fun create_columns :: "ColumnDef list \<Rightarrow> Column list result" where
  "create_columns [] = Inr []"
| "create_columns (col # cols) =
     (let ty = normalizeType (cd_type col) in
      if ty \<noteq> ''int'' \<and> ty \<noteq> ''string''
      then Inl (RuntimeError (''unknown column type '' @ [QUOTE] @ cd_type col @ [QUOTE] @ '' (expected int or string)''))
      else bindE (create_columns cols) (\<lambda>columns. Inr (\<lparr>co_name = cd_name col, co_type = ty\<rparr> # columns)))"

definition execCreateTable :: "iteration_order \<Rightarrow> CreateTableStmt \<Rightarrow> (Database, QueryResult) effect" where
  "execCreateTable order stmt =
     sbind (slift (create_columns (ct_columns stmt))) (\<lambda>columns.
     sbind (Database_createTable order (ct_table_name stmt) columns) (\<lambda>_. sreturn QueryResult_new))"

definition execInsert :: "InsertStmt \<Rightarrow> u64 \<Rightarrow> (Database, QueryResult) effect" where
  "execInsert stmt txn_id =
     sbind (Database_getTable (in_table_name stmt) (Table_insert (in_values stmt) txn_id)) (\<lambda>_.
     sreturn (QueryResult_new\<lparr>qr_affected_rows := 1\<rparr>))"

section \<open>SELECT\<close>

fun mapE :: "('a \<Rightarrow> 'b result) \<Rightarrow> 'a list \<Rightarrow> 'b list result" where
  "mapE f [] = Inr []"
| "mapE f (x # xs) = bindE (f x) (\<lambda>y. bindE (mapE f xs) (\<lambda>ys. Inr (y # ys)))"

definition select_projection :: "Schema \<Rightarrow> string list \<Rightarrow> nat list result" where
  "select_projection schema columns = (if columns = [] then Inr [0..<length schema] else mapE (columnIndex schema) columns)"

definition project :: "nat list \<Rightarrow> Record \<Rightarrow> string list result" where
  "project projection rec = mapE (vec_at (rec_fields rec)) projection"

fun select_loop :: "Schema \<Rightarrow> WhereClause option \<Rightarrow> nat \<Rightarrow> nat list \<Rightarrow> (Key \<times> Record) list \<Rightarrow> string list list result" where
  "select_loop schema w idx projection [] = Inr []"
| "select_loop schema w idx projection ((key, rec) # rows) =
     bindE (row_matches schema w idx rec) (\<lambda>m.
     if m then bindE (project projection rec) (\<lambda>row. bindE (select_loop schema w idx projection rows) (\<lambda>rest. Inr (row # rest)))
     else select_loop schema w idx projection rows)"

definition select_rows :: "Schema \<Rightarrow> WhereClause option \<Rightarrow> nat list \<Rightarrow> u64 \<Rightarrow> (table_state, string list list) effect" where
  "select_rows schema w projection txn_id =
     (case w of
        Some wc \<Rightarrow>
          if isPrimaryKeyEquality schema wc
          then sbind (Table_getByKey (wc_literal wc) txn_id) (\<lambda>rec. case rec of
                 None \<Rightarrow> sreturn []
               | Some r \<Rightarrow> sbind (slift (project projection r)) (\<lambda>row. sreturn [row]))
          else sbind (slift (where_index schema w)) (\<lambda>idx.
               sbind (Table_scanAll txn_id) (\<lambda>rows. slift (select_loop schema w idx projection rows)))
      | None \<Rightarrow> sbind (Table_scanAll txn_id) (\<lambda>rows. slift (select_loop schema w 0 projection rows)))"

definition select_on :: "SelectStmt \<Rightarrow> u64 \<Rightarrow> (table_state, QueryResult) effect" where
  "select_on stmt txn_id =
     sbind (sget (\<lambda>(tb, mv). Table_getSchema tb)) (\<lambda>schema.
     sbind (slift (select_projection schema (se_columns stmt))) (\<lambda>projection.
     sbind (select_rows schema (se_where stmt) projection txn_id) (\<lambda>rows.
     sreturn (QueryResult_new\<lparr>qr_columns := map (\<lambda>i. co_name (schema ! i)) projection, qr_rows := rows\<rparr>))))"

definition execSelect :: "SelectStmt \<Rightarrow> u64 \<Rightarrow> (Database, QueryResult) effect" where
  "execSelect stmt txn_id = Database_getTable (se_table_name stmt) (select_on stmt txn_id)"

section \<open>DELETE and UPDATE\<close>

fun matching_keys :: "Schema \<Rightarrow> WhereClause option \<Rightarrow> nat \<Rightarrow> (Key \<times> Record) list \<Rightarrow> string list result" where
  "matching_keys schema w idx [] = Inr []"
| "matching_keys schema w idx ((key, rec) # rows) =
     bindE (row_matches schema w idx rec) (\<lambda>m.
     bindE (matching_keys schema w idx rows) (\<lambda>keys. Inr (if m then Key_toString key # keys else keys)))"

fun delete_keys :: "string list \<Rightarrow> u64 \<Rightarrow> (table_state, int) effect" where
  "delete_keys [] txn_id = sreturn 0"
| "delete_keys (k # ks) txn_id =
     sbind (Table_deleteByKey k txn_id) (\<lambda>deleted. sbind (delete_keys ks txn_id) (\<lambda>count. sreturn (if deleted then count + 1 else count)))"

definition delete_on :: "DeleteStmt \<Rightarrow> u64 \<Rightarrow> (table_state, int) effect" where
  "delete_on stmt txn_id =
     sbind (sget (\<lambda>(tb, mv). Table_getSchema tb)) (\<lambda>schema.
     case de_where stmt of
       Some wc \<Rightarrow>
         if isPrimaryKeyEquality schema wc
         then sbind (Table_deleteByKey (wc_literal wc) txn_id) (\<lambda>deleted. sreturn (if deleted then 1 else 0))
         else sbind (slift (where_index schema (de_where stmt))) (\<lambda>idx.
              sbind (Table_scanAll txn_id) (\<lambda>rows.
              sbind (slift (matching_keys schema (de_where stmt) idx rows)) (\<lambda>keys. delete_keys keys txn_id)))
     | None \<Rightarrow>
         sbind (Table_scanAll txn_id) (\<lambda>rows.
         sbind (slift (matching_keys schema None 0 rows)) (\<lambda>keys. delete_keys keys txn_id)))"

definition execDelete :: "DeleteStmt \<Rightarrow> u64 \<Rightarrow> (Database, QueryResult) effect" where
  "execDelete stmt txn_id =
     sbind (Database_getTable (de_table_name stmt) (delete_on stmt txn_id)) (\<lambda>count. sreturn (QueryResult_new\<lparr>qr_affected_rows := count\<rparr>))"

fun applyAssignments :: "Schema \<Rightarrow> Assignment list \<Rightarrow> string list \<Rightarrow> string list result" where
  "applyAssignments schema [] vals = Inr vals"
| "applyAssignments schema (a # as) vals =
     bindE (columnIndex schema (as_column a)) (\<lambda>i.
     bindE (vec_set vals i (as_value a)) (\<lambda>vals. applyAssignments schema as vals))"

fun pending_updates :: "Schema \<Rightarrow> WhereClause option \<Rightarrow> nat \<Rightarrow> Assignment list \<Rightarrow> (Key \<times> Record) list \<Rightarrow> (string \<times> string list) list result" where
  "pending_updates schema w idx as [] = Inr []"
| "pending_updates schema w idx as ((key, rec) # rows) =
     bindE (row_matches schema w idx rec) (\<lambda>m.
     if m then bindE (applyAssignments schema as (rec_fields rec)) (\<lambda>vals.
            bindE (pending_updates schema w idx as rows) (\<lambda>rest. Inr ((Key_toString key, vals) # rest)))
     else pending_updates schema w idx as rows)"

fun update_keys :: "(string \<times> string list) list \<Rightarrow> u64 \<Rightarrow> (table_state, int) effect" where
  "update_keys [] txn_id = sreturn 0"
| "update_keys ((k, vals) # ps) txn_id =
     sbind (Table_updateByKey k vals txn_id) (\<lambda>updated. sbind (update_keys ps txn_id) (\<lambda>count. sreturn (if updated then count + 1 else count)))"

definition update_on :: "UpdateStmt \<Rightarrow> u64 \<Rightarrow> (table_state, int) effect" where
  "update_on stmt txn_id =
     sbind (sget (\<lambda>(tb, mv). Table_getSchema tb)) (\<lambda>schema.
     case up_where stmt of
       Some wc \<Rightarrow>
         if isPrimaryKeyEquality schema wc
         then sbind (Table_getByKey (wc_literal wc) txn_id) (\<lambda>rec. case rec of
                None \<Rightarrow> sreturn 0
              | Some r \<Rightarrow>
                  sbind (slift (applyAssignments schema (up_assignments stmt) (rec_fields r))) (\<lambda>vals.
                  sbind (Table_updateByKey (wc_literal wc) vals txn_id) (\<lambda>updated. sreturn (if updated then 1 else 0))))
         else sbind (slift (where_index schema (up_where stmt))) (\<lambda>idx.
              sbind (Table_scanAll txn_id) (\<lambda>rows.
              sbind (slift (pending_updates schema (up_where stmt) idx (up_assignments stmt) rows)) (\<lambda>ps. update_keys ps txn_id)))
     | None \<Rightarrow>
         sbind (Table_scanAll txn_id) (\<lambda>rows.
         sbind (slift (pending_updates schema None 0 (up_assignments stmt) rows)) (\<lambda>ps. update_keys ps txn_id)))"

definition execUpdate :: "UpdateStmt \<Rightarrow> u64 \<Rightarrow> (Database, QueryResult) effect" where
  "execUpdate stmt txn_id =
     sbind (Database_getTable (up_table_name stmt) (update_on stmt txn_id)) (\<lambda>count. sreturn (QueryResult_new\<lparr>qr_affected_rows := count\<rparr>))"

section \<open>Sessions\<close>

text \<open>The state of a connection's statements: the database and \<open>session_txn_id\<close>, passed by reference.\<close>

type_synonym session_state = "Database \<times> u64"

definition on_db :: "(Database, 'a) effect \<Rightarrow> (session_state, 'a) effect" where
  "on_db m = (\<lambda>(db, txn). case m db of (r, db) \<Rightarrow> (r, db, txn))"

definition with_txn :: "(u64 \<Rightarrow> (Database, 'a) effect) \<Rightarrow> (session_state, 'a) effect" where
  "with_txn m = (\<lambda>(db, txn). on_db (m txn) (db, txn))"

definition set_session :: "u64 \<Rightarrow> (session_state, unit) effect" where
  "set_session txn = smodify (\<lambda>(db, _). (db, txn))"

definition execBegin :: "(session_state, QueryResult) effect" where
  "execBegin =
     sbind (sget snd) (\<lambda>session_txn_id.
     if session_txn_id \<noteq> 0 then sthrow (RuntimeError ''a transaction is already in progress on this connection'')
     else sbind (on_db Database_beginTxn) (\<lambda>txn. sbind (set_session txn) (\<lambda>_. sreturn QueryResult_new)))"

definition execCommit :: "(session_state, QueryResult) effect" where
  "execCommit =
     sbind (sget snd) (\<lambda>session_txn_id.
     if session_txn_id = 0 then sthrow (RuntimeError ''no transaction is in progress on this connection'')
     else sbind (on_db (Database_commitTxn session_txn_id)) (\<lambda>_. sbind (set_session 0) (\<lambda>_. sreturn QueryResult_new)))"

definition execRollback :: "(session_state, QueryResult) effect" where
  "execRollback =
     sbind (sget snd) (\<lambda>session_txn_id.
     if session_txn_id = 0 then sthrow (RuntimeError ''no transaction is in progress on this connection'')
     else sbind (on_db (Database_abortTxn session_txn_id)) (\<lambda>_. sbind (set_session 0) (\<lambda>_. sreturn QueryResult_new)))"

text \<open>\<open>what()\<close> of an exception; \<open>None\<close> for what is not one.\<close>

fun error_what :: "error \<Rightarrow> string option" where
  "error_what (RuntimeError m) = Some m"
| "error_what (OutOfRange m) = Some m"
| "error_what (InvalidArgument m) = Some m"
| "error_what (LexError m p) = Some (m @ '' (at position '' @ string_of_nat p @ '')'')"
| "error_what (ParseError m p) = Some (m @ '' (at position '' @ string_of_nat p @ '')'')"
| "error_what (DeadlockError m) = Some m"
| "error_what (LockTimeoutError m) = Some m"
| "error_what (LengthError m) = Some m"
| "error_what (UndefinedBehaviour m) = None"
| "error_what Diverges = None"

definition scatch :: "(string \<Rightarrow> 'a) \<Rightarrow> ('s, 'a) effect \<Rightarrow> ('s, 'a) effect" where
  "scatch handler m = (\<lambda>s. case m s of
       (Inl e, s) \<Rightarrow> (case error_what e of None \<Rightarrow> (Inl e, s) | Some msg \<Rightarrow> (Inr (handler msg), s))
     | (Inr x, s) \<Rightarrow> (Inr x, s))"

definition failed_result :: "string \<Rightarrow> QueryResult" where
  "failed_result msg = QueryResult_new\<lparr>qr_ok := False, qr_message := msg\<rparr>"

definition exec_stmt :: "iteration_order \<Rightarrow> Stmt \<Rightarrow> (session_state, QueryResult) effect" where
  "exec_stmt order stmt = (case stmt of
       StmtCreateTable s \<Rightarrow> on_db (execCreateTable order s)
     | StmtInsert s \<Rightarrow> with_txn (execInsert s)
     | StmtSelect s \<Rightarrow> with_txn (execSelect s)
     | StmtDelete s \<Rightarrow> with_txn (execDelete s)
     | StmtUpdate s \<Rightarrow> with_txn (execUpdate s)
     | StmtBegin \<Rightarrow> execBegin
     | StmtCommit \<Rightarrow> execCommit
     | StmtRollback \<Rightarrow> execRollback)"

definition execute :: "iteration_order \<Rightarrow> Stmt \<Rightarrow> (session_state, QueryResult) effect" where
  "execute order stmt = scatch failed_result (exec_stmt order stmt)"

end
