(* ===== verification/Sql_Server.thy ===== *)
theory Sql_Server
  imports Executor
begin

text \<open>
  \<open>sqlserver.hpp\<close> / \<open>sqlserver.cpp\<close>: a connection of the SQL server.

  What the client sends is the list of what \<open>recv\<close> returns, a chunk per call; an empty chunk, and the end of the list, is a return value of at
  most 0, on which the connection ends. The state is the session's database and transaction and the responses handed to \<open>send\<close>. The sockets
  themselves and the threads that accept connections are not modelled.
\<close>

section \<open>Responses\<close>

abbreviation newline :: string where
  "newline \<equiv> [CHR 0x0A]"

fun join_bar :: "string list \<Rightarrow> string" where
  "join_bar [] = []"
| "join_bar [x] = x"
| "join_bar (x # xs) = x @ ''|'' @ join_bar xs"

definition formatResult :: "Stmt \<Rightarrow> QueryResult \<Rightarrow> string" where
  "formatResult stmt result =
     (if \<not> qr_ok result then ''ERROR: '' @ qr_message result @ newline
      else case stmt of
        StmtSelect _ \<Rightarrow> join_bar (qr_columns result) @ newline
          @ concat (map (\<lambda>row. join_bar row @ newline) (qr_rows result))
          @ ''OK '' @ string_of_nat (length (qr_rows result)) @ '' rows'' @ newline
      | StmtInsert _ \<Rightarrow> ''OK '' @ string_of_int (qr_affected_rows result) @ '' rows affected'' @ newline
      | StmtUpdate _ \<Rightarrow> ''OK '' @ string_of_int (qr_affected_rows result) @ '' rows affected'' @ newline
      | StmtDelete _ \<Rightarrow> ''OK '' @ string_of_int (qr_affected_rows result) @ '' rows affected'' @ newline
      | _ \<Rightarrow> ''OK'' @ newline)"

section \<open>A connection\<close>

text \<open>The body of the \<open>try\<close> block with its handler: the response to one statement.\<close>

definition respond :: "iteration_order \<Rightarrow> string \<Rightarrow> (session_state, string) effect" where
  "respond order stmt_text =
     scatch (\<lambda>msg. ''ERROR: '' @ msg @ newline)
       (sbind (slift (Lexer_tokenize stmt_text)) (\<lambda>tokens.
        sbind (slift (Parser_parseStatement tokens)) (\<lambda>(stmt, _).
        sbind (execute order stmt) (\<lambda>result. sreturn (formatResult stmt result)))))"

type_synonym connection_state = "session_state \<times> string list"

text \<open>
  \<open>send\<close> is handed the whole response. How much of it the operating system takes in one call is outside the model, as is the narrowing of its length to \<open>int\<close>, which
  matters for responses of \<open>2 ^ 31\<close> bytes and more; \<open>sent\<close> lists what the calls are handed.
\<close>

definition send_response :: "iteration_order \<Rightarrow> string \<Rightarrow> (connection_state, unit) effect" where
  "send_response order stmt_text = (\<lambda>(s, sent).
     case respond order stmt_text s of
       (Inl e, s) \<Rightarrow> (Inl e, s, sent)
     | (Inr response, s) \<Rightarrow> (Inr (), s, sent @ [response]))"

text \<open>\<open>buffer.find(';')\<close>\<close>

definition find_semi :: "string \<Rightarrow> nat option" where
  "find_semi buffer = (if CHR '';'' \<in> set buffer then Some (length (takeWhile (\<lambda>c. c \<noteq> CHR '';'') buffer)) else None)"

lemma find_semi_less: "find_semi buffer = Some semi \<Longrightarrow> semi < length buffer"
proof -
  let ?P = "\<lambda>c. c \<noteq> CHR '';''"
  assume "find_semi buffer = Some semi"
  then have s: "CHR '';'' \<in> set buffer" "semi = length (takeWhile ?P buffer)" by (auto simp: find_semi_def split: if_splits)
  then have "takeWhile ?P buffer \<noteq> buffer" by (auto simp: takeWhile_eq_all_conv)
  then have "0 < length (dropWhile ?P buffer)" using takeWhile_dropWhile_id [of ?P buffer] by fastforce
  then show ?thesis using s(2) arg_cong [OF takeWhile_dropWhile_id [of ?P buffer], of length] by (simp del: takeWhile_dropWhile_id length_greater_0_conv)
qed

function connection_loop :: "iteration_order \<Rightarrow> string \<Rightarrow> string list \<Rightarrow> (connection_state, unit) effect" where
  "connection_loop order buffer chunks =
     (case find_semi buffer of
        None \<Rightarrow> (case chunks of
            [] \<Rightarrow> sreturn ()
          | data # rest \<Rightarrow> if data = [] then sreturn () else connection_loop order (buffer @ data) rest)
      | Some semi \<Rightarrow> sbind (send_response order (take (semi + 1) buffer)) (\<lambda>_. connection_loop order (drop (semi + 1) buffer) chunks))"
  by pat_completeness auto
termination
  by (relation "measures [\<lambda>(order, buffer, chunks). length chunks, \<lambda>(order, buffer, chunks). length buffer]")
    (auto dest: find_semi_less)

declare connection_loop.simps [simp del]

definition SqlServer_handleConnection :: "iteration_order \<Rightarrow> string list \<Rightarrow> Database \<Rightarrow> unit result \<times> connection_state" where
  "SqlServer_handleConnection order chunks db = connection_loop order [] chunks ((db, 0), [])"

section \<open>Statements of a stream\<close>

text \<open>The stream the client sends, the statements it holds, and their execution one after the other: what \<open>handleConnection\<close> computes.\<close>

definition received :: "string list \<Rightarrow> string" where
  "received chunks = concat (takeWhile (\<lambda>data. data \<noteq> []) chunks)"

fun statements_from :: "string \<Rightarrow> string \<Rightarrow> string list" where
  "statements_from acc [] = []"
| "statements_from acc (c # cs) = (if c = CHR '';'' then (acc @ [c]) # statements_from [] cs else statements_from (acc @ [c]) cs)"

definition statements :: "string \<Rightarrow> string list" where
  "statements stream = statements_from [] stream"

lemma statements_from_none: "CHR '';'' \<notin> set xs \<Longrightarrow> statements_from acc (xs @ ys) = statements_from (acc @ xs) ys"
  by (induction xs arbitrary: acc) auto

lemma statements_none: "find_semi buffer = None \<Longrightarrow> statements buffer = []"
  using statements_from_none [of buffer "[]" "[]"] by (simp add: find_semi_def statements_def split: if_splits)

lemma semi_split:
  assumes "find_semi buffer = Some semi"
  shows "buffer = take semi buffer @ CHR '';'' # drop (semi + 1) buffer" "CHR '';'' \<notin> set (take semi buffer)"
    "take (semi + 1) buffer = take semi buffer @ [CHR '';'']"
proof -
  let ?P = "\<lambda>c. c \<noteq> CHR '';''"
  have s: "semi = length (takeWhile ?P buffer)" using assms by (simp add: find_semi_def split: if_splits)
  have lt: "semi < length buffer" by (rule find_semi_less [OF assms])
  have nth: "buffer ! semi = CHR '';''" using nth_length_takeWhile [of ?P buffer] lt unfolding s by simp
  show "buffer = take semi buffer @ CHR '';'' # drop (semi + 1) buffer" using id_take_nth_drop [OF lt] nth by simp
  show "CHR '';'' \<notin> set (take semi buffer)" unfolding s by (metis takeWhile_eq_take set_takeWhileD)
  show "take (semi + 1) buffer = take semi buffer @ [CHR '';'']" using take_Suc_conv_app_nth [OF lt] nth by simp
qed

lemma statements_semi:
  assumes "find_semi buffer = Some semi"
  shows "statements (buffer @ later) = take (semi + 1) buffer # statements (drop (semi + 1) buffer @ later)"
proof -
  note s = semi_split [OF assms]
  have "statements (buffer @ later) = statements_from [] (take semi buffer @ CHR '';'' # drop (semi + 1) buffer @ later)"
    using s(1) by (metis append.assoc append_Cons statements_def)
  then show ?thesis using statements_from_none [OF s(2), of "[]"] s(3) by (simp add: statements_def)
qed

lemma connection_statements:
  "connection_loop order buffer chunks = sfor (send_response order) (statements (buffer @ received chunks))"
proof (induction order buffer chunks rule: connection_loop.induct)
  case (1 order buffer chunks)
  show ?case
  proof (cases "find_semi buffer")
    case (Some semi)
    then have "connection_loop order buffer chunks = sbind (send_response order (take (semi + 1) buffer)) (\<lambda>_. connection_loop order (drop (semi + 1) buffer) chunks)"
      by (subst connection_loop.simps) simp
    then show ?thesis using 1(2) [OF Some] statements_semi [OF Some, of "received chunks"] by simp
  next
    case None
    show ?thesis
    proof (cases "chunks = [] \<or> hd chunks = []")
      case True
      then have "received chunks = []" by (cases chunks) (auto simp: received_def)
      then show ?thesis using None True statements_none [OF None]
        by (subst connection_loop.simps) (auto split: list.splits)
    next
      case False
      then obtain data rest where c: "chunks = data # rest" "data \<noteq> []" by (cases chunks) auto
      have "connection_loop order buffer chunks = connection_loop order (buffer @ data) rest"
        using None c by (subst connection_loop.simps) simp
      then show ?thesis using 1(1) [OF None c] c by (simp add: received_def)
    qed
  qed
qed

section \<open>Properties\<close>

text \<open>
  C6: a connection answers the statements of the stream, whatever chunks the stream arrives in: it runs the \<open>;\<close>-terminated statements of the received
  text one after the other, in order, and ignores an unterminated rest.
\<close>
theorem SqlServer_stream:
  "SqlServer_handleConnection order chunks db = sfor (send_response order) (statements (received chunks)) ((db, 0), [])"
  by (simp add: SqlServer_handleConnection_def connection_statements)

end
