(* ===== verification/Triples.thy ===== *)
theory Triples
  imports Prelude
begin

text \<open>
  Triples for code that may throw.

  \<open>triple P E m Q\<close>: from a state in \<open>P\<close> the code either returns, in a state \<open>Q\<close> of its result, or throws one of the engine's exceptions in a state of \<open>E\<close>; it
  never runs into undefined behaviour and never loops. \<open>triple_rules\<close> collects one rule for each construct of \<open>effect\<close>.
\<close>

definition triple :: "('s \<Rightarrow> bool) \<Rightarrow> ('s \<Rightarrow> bool) \<Rightarrow> ('s, 'a) effect \<Rightarrow> ('a \<Rightarrow> 's \<Rightarrow> bool) \<Rightarrow> bool" where
  "triple P E m Q \<longleftrightarrow> (\<forall>s. P s \<longrightarrow> (case m s of (Inl e, s') \<Rightarrow> is_exception e \<and> E s' | (Inr x, s') \<Rightarrow> Q x s'))"

named_theorems triple_rules \<open>triples of the constructs of the effect type\<close>

lemma tripleI:
  assumes "\<And>s res s'. P s \<Longrightarrow> m s = (res, s') \<Longrightarrow> (case res of Inl e \<Rightarrow> is_exception e \<and> E s' | Inr x \<Rightarrow> Q x s')"
  shows "triple P E m Q"
  unfolding triple_def
proof (intro allI impI)
  fix s assume "P s"
  moreover obtain res s' where "m s = (res, s')" by (cases "m s")
  ultimately show "case m s of (Inl e, s') \<Rightarrow> is_exception e \<and> E s' | (Inr x, s') \<Rightarrow> Q x s'"
    using assms by (auto split: sum.splits)
qed

lemma tripleD: "triple P E m Q \<Longrightarrow> P s \<Longrightarrow> m s = (res, s') \<Longrightarrow> (case res of Inl e \<Rightarrow> is_exception e \<and> E s' | Inr x \<Rightarrow> Q x s')"
  unfolding triple_def by (auto split: sum.splits dest!: spec [of _ s])

lemma triple_weaken:
  "triple P E m Q \<Longrightarrow> (\<And>s. P' s \<Longrightarrow> P s) \<Longrightarrow> (\<And>s. E s \<Longrightarrow> E' s) \<Longrightarrow> (\<And>x s. Q x s \<Longrightarrow> Q' x s) \<Longrightarrow> triple P' E' m Q'"
  by (rule tripleI) (auto dest!: tripleD [of P E m Q] split: sum.splits)

lemma triple_bind: "triple P E m R \<Longrightarrow> (\<And>x. triple (R x) E (f x) Q) \<Longrightarrow> triple P E (sbind m f) Q"
proof (rule tripleI)
  fix s res s' assume m: "triple P E m R" and f: "\<And>x. triple (R x) E (f x) Q" and "P s" "sbind m f s = (res, s')"
  moreover obtain r s1 where "m s = (r, s1)" by (cases "m s")
  ultimately show "case res of Inl e \<Rightarrow> is_exception e \<and> E s' | Inr x \<Rightarrow> Q x s'"
    using tripleD [OF m, of s r s1] tripleD [OF f] by (cases r) (auto simp: sbind_cases)
qed

lemma triple_prims [triple_rules]:
  "(\<And>s. P s \<Longrightarrow> Q x s) \<Longrightarrow> triple P E (sreturn x) Q"
  "is_exception e \<Longrightarrow> (\<And>s. P s \<Longrightarrow> E s) \<Longrightarrow> triple P E (sthrow e) Q"
  "throws_only r \<Longrightarrow> (\<And>s. P s \<Longrightarrow> E s) \<Longrightarrow> (\<And>x s. r = Inr x \<Longrightarrow> P s \<Longrightarrow> Q x s) \<Longrightarrow> triple P E (slift r) Q"
  by (auto simp: triple_def method_prims split: sum.splits)

lemma triple_lift: "throws_only r \<Longrightarrow> (\<And>s. P s \<Longrightarrow> E s) \<Longrightarrow> (\<And>x. r = Inr x \<Longrightarrow> triple P E (f x) Q) \<Longrightarrow> triple P E (sbind (slift r) f) Q"
  by (cases r) (auto simp: triple_def)

lemma triple_get: "(\<And>x. triple (\<lambda>s. P s \<and> g s = x) E (f x) Q) \<Longrightarrow> triple P E (sbind (sget g) f) Q"
  by (auto simp: triple_def)

lemma triple_branch [triple_rules]:
  "(b \<Longrightarrow> triple P E m Q) \<Longrightarrow> (\<not> b \<Longrightarrow> triple P E m' Q) \<Longrightarrow> triple P E (if b then m else m') Q"
  "(opt = None \<Longrightarrow> triple P E m Q) \<Longrightarrow> (\<And>y. opt = Some y \<Longrightarrow> triple P E (g y) Q) \<Longrightarrow> triple P E (case opt of None \<Rightarrow> m | Some y \<Rightarrow> g y) Q"
  by (auto split: option.splits)

lemma triple_pull: "(b \<Longrightarrow> triple P E m Q) \<Longrightarrow> triple (\<lambda>s. P s \<and> b) E m Q"
  by (auto simp: triple_def)

end
