(* ===== verification/Table_Safety.thy ===== *)
theory Table_Safety
  imports Table_Snapshots Triples
begin

text \<open>
  Table operations as parts of a statement: what state they need and leave, and that they throw nothing but exceptions.

  \<open>table_ready t A schema n K\<close>: the table is well formed, its rows have the columns of the schema, it has at most \<open>K\<close> keys, there is room for \<open>n\<close> more row
  operations before the page numbers or the transaction ids run out, the active transactions are \<open>A\<close>, and \<open>t\<close> is one of them or \<open>0\<close>.
\<close>

section \<open>Well-formed tables\<close>

definition rows_fit :: "Schema \<Rightarrow> versions \<Rightarrow> bool" where
  "rows_fit schema vs \<longleftrightarrow> (\<forall>k. \<forall>v \<in> set (vs k). length (rec_fields (snd v)) = length schema)"

definition table_keys :: "versions \<Rightarrow> string set" where
  "table_keys vs = {k. vs k \<noteq> []}"

definition table_ok :: "nat \<Rightarrow> Table \<Rightarrow> bool" where
  "table_ok K tb \<longleftrightarrow> (\<exists>vs. table_rel tb vs \<and> rows_fit (tab_schema tb) vs \<and> finite (table_keys vs) \<and> card (table_keys vs) \<le> K)"

definition txn_room :: "nat \<Rightarrow> MVCCManager \<Rightarrow> bool" where
  "txn_room n mv \<longleftrightarrow> mvcc_inv mv \<and> unat (tm_next_txn_id (mv_txns mv)) + n < 2 ^ 64"

definition table_ready :: "u64 \<Rightarrow> u64 set \<Rightarrow> Schema \<Rightarrow> nat \<Rightarrow> nat \<Rightarrow> table_state \<Rightarrow> bool" where
  "table_ready t A schema n K = (\<lambda>(tb, mv). table_ok K tb \<and> tab_schema tb = schema \<and> bp_next_page_id (tab_pool tb) + int n \<le> MAX_PAGES
     \<and> txn_room n mv \<and> MVCCManager_activeIds mv = A \<and> (t = 0 \<or> t \<in> A))"

lemma table_ok_mono: "table_ok K tb \<Longrightarrow> K \<le> K' \<Longrightarrow> table_ok K' tb"
  unfolding table_ok_def using le_trans by blast

lemma ready_mono: "table_ready t A schema n K s \<Longrightarrow> n' \<le> n \<Longrightarrow> K \<le> K' \<Longrightarrow> table_ready t A schema n' K' s"
  by (auto simp: table_ready_def txn_room_def intro: table_ok_mono)

section \<open>Transactions around a statement\<close>

lemma next_Suc: "unat (x :: u64) + Suc n < 2 ^ 64 \<Longrightarrow> x \<noteq> - 1 \<and> unat (x + 1) = Suc (unat x)"
proof -
  assume a: "unat x + Suc n < 2 ^ 64"
  then have "Suc (unat x) < 2 ^ 64" by simp
  moreover have "unat (- 1 :: u64) = 2 ^ 64 - 1" by (simp add: unsigned_minus_1_eq_mask mask_eq_exp_minus_1)
  ultimately have ne: "x \<noteq> - 1" by auto
  then have "1 + x \<noteq> 0" by (simp add: add_eq_0_iff)
  then show ?thesis using ne by (metis add.commute unatSuc)
qed

lemma statement_room:
  assumes "statement txn mv mv'" "txn_room (Suc n) mv" "MVCCManager_activeIds mv = A"
  shows "txn_room n mv'" "MVCCManager_activeIds mv' = A"
proof -
  have inv: "mvcc_inv mv" and room: "unat (tm_next_txn_id (mv_txns mv)) + Suc n < 2 ^ 64" using assms(2) by (simp_all add: txn_room_def)
  have "txn_room n mv' \<and> MVCCManager_activeIds mv' = A"
  proof (cases "same_txns mv mv'")
    case True
    then show ?thesis using assms(2,3) same_txns_active [OF True] by (simp add: txn_room_def mvcc_inv_def same_txns_def)
  next
    case False
    then obtain t mv1 mvw where b: "MVCCManager_begin mv = (t, mv1)" "same_txns mv1 mvw"
        and e: "mv' = MVCCManager_commit mvw t \<or> mv' = MVCCManager_abort mvw t"
      using assms(1) by (auto simp: statement_def)
    note f = begin_fields [OF b(1)]
    have nx: "unat (tm_next_txn_id (mv_txns mv1)) = Suc (unat t)" using next_Suc [OF room] f(1,2) by simp
    have new: "mv_transactions mv t = None" using inv f(1) by (auto simp: mvcc_inv_def)
    have w: "mv_transactions mvw = mv_transactions mv1" "tm_next_txn_id (mv_txns mvw) = tm_next_txn_id (mv_txns mv1)"
      using b(2) by (simp_all add: same_txns_def)
    have tr: "mv_transactions mv' = (mv_transactions mv1)(t := (if mv' = MVCCManager_commit mvw t then None else Some (the (mv_transactions mv1 t)\<lparr>tx_state := ABORTED\<rparr>)))"
      "tm_next_txn_id (mv_txns mv') = tm_next_txn_id (mv_txns mv1)"
      using e w f(3) by auto
    have "mvcc_inv mv'" using inv tr f nx by (auto simp: mvcc_inv_def word_less_nat_alt split: if_splits)
    moreover have "MVCCManager_activeIds mv' = MVCCManager_activeIds mv"
      using new by (auto simp: MVCCManager_activeIds_def tr(1) f(3) split: if_splits)
    ultimately show ?thesis using room nx f(1) tr(2) assms(3) by (simp add: txn_room_def)
  qed
  then show "txn_room n mv'" "MVCCManager_activeIds mv' = A" by simp_all
qed

section \<open>The row operations\<close>

lemma keys_of_changes:
  "table_keys (inserted values t rid vs) = insert (hd values) (table_keys vs)"
  "live (vs k) \<Longrightarrow> table_keys (updated k values t rid vs) = table_keys vs" "table_keys (deleted k t vs) = table_keys vs"
  by (auto simp: table_keys_def inserted_def updated_def deleted_def add_version_def stamp_head_def live_def split: list.splits)

lemma stamp_fit: "\<forall>v \<in> set c. length (rec_fields (snd v)) = n \<Longrightarrow> \<forall>v \<in> set (stamp_head t c). length (rec_fields (snd v)) = n"
  by (cases c) (auto simp: stamp_head_def)

lemma rows_of_changes:
  "rows_fit schema vs \<Longrightarrow> length values = length schema \<Longrightarrow> rows_fit schema (inserted values t rid vs)"
  "rows_fit schema vs \<Longrightarrow> length values = length schema \<Longrightarrow> rows_fit schema (updated k values t rid vs)"
  "rows_fit schema vs \<Longrightarrow> rows_fit schema (deleted k t vs)"
  using stamp_fit [of "vs k" "length schema" t]
  by (simp_all add: rows_fit_def inserted_def updated_def deleted_def add_version_def Record_new_def)

text \<open>A row operation takes one step of the room; \<open>new\<close> are the keys it may add.\<close>

lemma row_op_triple:
  assumes "\<And>tb mv vs. table_rel tb vs \<Longrightarrow> bp_next_page_id (tab_pool tb) < MAX_PAGES \<Longrightarrow> mvcc_inv mv \<Longrightarrow>
      \<exists>res tb' mv' vs'. m (tb, mv) = (res, tb', mv') \<and> table_rel tb' vs' \<and> kept tb tb' \<and> throws_only res \<and> statement t mv mv'
        \<and> (rows_fit (tab_schema tb) vs \<longrightarrow> rows_fit (tab_schema tb) vs') \<and> table_keys vs' \<subseteq> new \<union> table_keys vs"
    and "finite new" "K' = card new + K"
  shows "triple (table_ready t A schema (Suc n) K) (table_ready t A schema n K') m (\<lambda>_. table_ready t A schema n K')"
proof (rule tripleI)
  fix s res s' assume r: "table_ready t A schema (Suc n) K s" and run: "m s = (res, s')"
  obtain tb mv where s: "s = (tb, mv)" by (cases s)
  obtain vs where vs: "table_rel tb vs" "rows_fit schema vs" "finite (table_keys vs)" "card (table_keys vs) \<le> K" "tab_schema tb = schema"
      "bp_next_page_id (tab_pool tb) < MAX_PAGES" "mvcc_inv mv"
    using r by (auto simp: s table_ready_def table_ok_def txn_room_def)
  obtain res' tb' mv' vs' where i: "m (tb, mv) = (res', tb', mv')" "table_rel tb' vs'" "kept tb tb'" "throws_only res'" "statement t mv mv'"
      "rows_fit (tab_schema tb) vs'" "table_keys vs' \<subseteq> new \<union> table_keys vs"
    using assms(1) [OF vs(1,6,7)] vs(2,5) by blast
  have "card (table_keys vs') \<le> card (new \<union> table_keys vs)" by (rule card_mono [OF _ i(7)]) (simp add: assms(2) vs(3))
  then have "card (table_keys vs') \<le> K'" using card_Un_le [of new "table_keys vs"] vs(4) assms(3) by linarith
  moreover have "finite (table_keys vs')" by (rule finite_subset [OF i(7)]) (simp add: assms(2) vs(3))
  ultimately have "table_ready t A schema n K' (tb', mv')"
    using r i(2,3,6) vs(5) statement_room [OF i(5), of n A] by (auto simp: s table_ready_def kept_def table_ok_def)
  then show "case res of Inl e \<Rightarrow> is_exception e \<and> table_ready t A schema n K' s' | Inr x \<Rightarrow> table_ready t A schema n K' s'"
    using run i(1,4) s by (auto split: sum.splits)
qed

lemma insert_triple:
  assumes "int_sized values"
  shows "triple (table_ready t A schema (Suc n) K) (table_ready t A schema n (Suc K)) (Table_insert values t) (\<lambda>_. table_ready t A schema n (Suc K))"
proof (rule row_op_triple [where new = "{hd values}"])
  fix tb mv vs assume a: "table_rel tb vs" "bp_next_page_id (tab_pool tb) < MAX_PAGES" "mvcc_inv mv"
  obtain res tb' mv' vs' where i: "Table_insert values t (tb, mv) = (res, tb', mv')" "table_rel tb' vs'" "kept tb tb'" "throws_only res" "statement t mv mv'"
      "vs' = vs \<or> length values = length (tab_schema tb) \<and> (\<exists>rid. vs' = inserted values (active_txn t mv) rid vs)"
    by (rule insert_run [OF a assms, of t])
  have "(rows_fit (tab_schema tb) vs \<longrightarrow> rows_fit (tab_schema tb) vs') \<and> table_keys vs' \<subseteq> {hd values} \<union> table_keys vs"
    using i(6) rows_of_changes(1) by (auto simp: keys_of_changes)
  with i(1-5) show "\<exists>res tb' mv' vs'. Table_insert values t (tb, mv) = (res, tb', mv') \<and> table_rel tb' vs' \<and> kept tb tb' \<and> throws_only res \<and> statement t mv mv'
        \<and> (rows_fit (tab_schema tb) vs \<longrightarrow> rows_fit (tab_schema tb) vs') \<and> table_keys vs' \<subseteq> {hd values} \<union> table_keys vs" by blast
qed simp_all

lemma update_triple:
  assumes "int_sized values"
  shows "triple (table_ready t A schema (Suc n) K) (table_ready t A schema n K) (Table_updateByKey k values t) (\<lambda>_. table_ready t A schema n K)"
proof (rule row_op_triple [where new = "{}"])
  fix tb mv vs assume a: "table_rel tb vs" "bp_next_page_id (tab_pool tb) < MAX_PAGES" "mvcc_inv mv"
  obtain res tb' mv' vs' where i: "Table_updateByKey k values t (tb, mv) = (res, tb', mv')" "table_rel tb' vs'" "kept tb tb'" "throws_only res" "statement t mv mv'"
      "vs' = vs \<or> live (vs k) \<and> (vs' = deleted k (active_txn t mv) vs
         \<or> length values = length (tab_schema tb) \<and> (\<exists>rid. vs' = updated k values (active_txn t mv) rid vs))"
    by (rule update_run [OF a, of k "values" t]) (rule assms)
  have "(rows_fit (tab_schema tb) vs \<longrightarrow> rows_fit (tab_schema tb) vs') \<and> table_keys vs' \<subseteq> {} \<union> table_keys vs"
    using i(6) rows_of_changes(2,3) by (auto simp: keys_of_changes)
  with i(1-5) show "\<exists>res tb' mv' vs'. Table_updateByKey k values t (tb, mv) = (res, tb', mv') \<and> table_rel tb' vs' \<and> kept tb tb' \<and> throws_only res \<and> statement t mv mv'
        \<and> (rows_fit (tab_schema tb) vs \<longrightarrow> rows_fit (tab_schema tb) vs') \<and> table_keys vs' \<subseteq> {} \<union> table_keys vs" by blast
qed simp_all

lemma delete_triple:
  "triple (table_ready t A schema (Suc n) K) (table_ready t A schema n K) (Table_deleteByKey k t) (\<lambda>_. table_ready t A schema n K)"
proof (rule row_op_triple [where new = "{}"])
  fix tb mv vs assume a: "table_rel tb vs" "bp_next_page_id (tab_pool tb) < MAX_PAGES" "mvcc_inv mv"
  obtain res tb' mv' vs' where i: "Table_deleteByKey k t (tb, mv) = (res, tb', mv')" "table_rel tb' vs'" "kept tb tb'" "throws_only res" "statement t mv mv'"
      "vs' = vs \<or> live (vs k) \<and> vs' = deleted k (active_txn t mv) vs"
    by (rule delete_run [OF a(1,3), of k t])
  have "(rows_fit (tab_schema tb) vs \<longrightarrow> rows_fit (tab_schema tb) vs') \<and> table_keys vs' \<subseteq> {} \<union> table_keys vs"
    using i(6) rows_of_changes(3) by (auto simp: keys_of_changes)
  with i(1-5) show "\<exists>res tb' mv' vs'. Table_deleteByKey k t (tb, mv) = (res, tb', mv') \<and> table_rel tb' vs' \<and> kept tb tb' \<and> throws_only res \<and> statement t mv mv'
        \<and> (rows_fit (tab_schema tb) vs \<longrightarrow> rows_fit (tab_schema tb) vs') \<and> table_keys vs' \<subseteq> {} \<union> table_keys vs" by blast
qed simp_all

section \<open>Reads\<close>

lemma ready_calm:
  assumes "table_ready t A schema n K s" "calm s s'"
  shows "table_ready t A schema n K s'"
proof -
  obtain tb mv tb' mv' where s: "s = (tb, mv)" "s' = (tb', mv')" by (cases s; cases s')
  have c: "tab_schema tb' = tab_schema tb" "bp_next_page_id (tab_pool tb') = bp_next_page_id (tab_pool tb)" "same_txns mv mv'"
    using assms(2) by (simp_all add: s calm_def)
  have "table_ok K tb" using assms(1) by (simp add: s table_ready_def)
  then have "table_ok K tb'" unfolding table_ok_def c(1) using calm_rel [OF assms(2) [unfolded s]] by blast
  moreover have "txn_room n mv'" "MVCCManager_activeIds mv' = A"
    using assms(1) c(3) same_txns_active [OF c(3)] by (auto simp: s table_ready_def txn_room_def mvcc_inv_def same_txns_def)
  ultimately show ?thesis using assms(1) c(1,2) by (simp add: s table_ready_def)
qed

lemma ready_snapshot: "table_ready t A schema n K (tb, mv) \<Longrightarrow> \<exists>snap. MVCCManager_getSnapshot mv t = Inr snap"
  by (auto simp: table_ready_def MVCCManager_getSnapshot_def MVCCManager_activeIds_def)

text \<open>
  A row read from the table: it has the columns of the schema, and its record came out of a slot, whose length is a 16-bit number.
\<close>

definition row_ok :: "nat \<Rightarrow> Record \<Rightarrow> bool" where
  "row_ok n r \<longleftrightarrow> length (rec_fields r) = n \<and> Record_size r < 65536"

lemma heap_small:
  assumes "heap_of v rid = Some (b, x)"
  shows "length x < 65536"
proof -
  obtain p where p: "nat (rid_slot_id rid) < length (Page_abs p)" "Page_abs p ! nat (rid_slot_id rid) = (b, x)" by (rule heap_ofD [OF assms])
  then obtain e where "x = slot_bytes (pg_data p) e" by (auto simp: Page_abs_def)
  moreover have "unat (se_length e) < 65536" using unsigned_less [of "se_length e", where ?'a = nat] by simp
  ultimately show ?thesis by (simp add: slot_bytes_def chunk_def)
qed

lemma version_ok:
  assumes "table_rel tb vs" "rows_fit schema vs" "v \<in> set (vs k)"
  shows "row_ok (length schema) (snd v)"
proof -
  have "stored (table_heap tb) (vs k)" using assms(1) by (simp add: table_rel_def)
  then have "table_heap tb (fst v) = Some (True, Record_bytes (snd v))" using assms(3) by (auto simp: stored_def)
  then have "Record_size (snd v) < 65536" using heap_small by fastforce
  then show ?thesis using assms(2,3) by (simp add: row_ok_def rows_fit_def)
qed

lemma seen_mem: "seen mv t snap vs = Some r \<Longrightarrow> r \<in> snd ` set vs"
  by (auto simp: seen_def find_Some_iff)

lemma get_triple:
  "triple (table_ready t A schema n K) E (Table_getByKey k t)
     (\<lambda>rec s. table_ready t A schema n K s \<and> (\<forall>r. rec = Some r \<longrightarrow> row_ok (length schema) r))"
proof (rule tripleI)
  fix s res s' assume r: "table_ready t A schema n K s" and run: "Table_getByKey k t s = (res, s')"
  obtain tb mv where s: "s = (tb, mv)" by (cases s)
  obtain vs where vs: "table_rel tb vs" "rows_fit schema vs" using r by (auto simp: s table_ready_def table_ok_def)
  obtain snap where snap: "MVCCManager_getSnapshot mv t = Inr snap" using ready_snapshot [OF r [unfolded s]] by blast
  have "res = Inr (seen mv t snap (vs k)) \<and> calm s s'" using getByKey_seen [OF vs(1) snap, of k] run by (auto simp: s)
  then show "case res of Inl e \<Rightarrow> is_exception e \<and> E s'
      | Inr rec \<Rightarrow> table_ready t A schema n K s' \<and> (\<forall>r. rec = Some r \<longrightarrow> row_ok (length schema) r)"
    using ready_calm [OF r] version_ok [OF vs] by (auto dest!: seen_mem)
qed

lemma rows_length:
  assumes "all_rows (\<lambda>k. seen mv t snap (vs k)) rows" "finite (table_keys vs)"
  shows "length rows \<le> card (table_keys vs)"
proof -
  have keys: "fst ` set rows \<subseteq> KString ` table_keys vs" using assms(1) by (auto simp: all_rows_def table_keys_def seen_def)
  have "distinct (map (\<lambda>x. rank (fst x)) rows)" using assms(1) by (simp add: all_rows_def strict_sorted_iff)
  then have "distinct (map rank (map fst rows))" by (simp add: comp_def)
  then have "distinct (map fst rows)" by (simp only: distinct_map)
  then have "length rows = card (fst ` set rows)" by (metis distinct_card length_map list.set_map)
  also have "\<dots> \<le> card (KString ` table_keys vs)" using keys assms(2) by (intro card_mono) auto
  also have "\<dots> \<le> card (table_keys vs)" using assms(2) by (rule card_image_le)
  finally show ?thesis .
qed

lemma scan_triple:
  "triple (table_ready t A schema n K) E (Table_scanAll t)
     (\<lambda>rows s. table_ready t A schema n K s \<and> length rows \<le> K \<and> (\<forall>x \<in> set rows. row_ok (length schema) (snd x)))"
proof (rule tripleI)
  fix s res s' assume r: "table_ready t A schema n K s" and run: "Table_scanAll t s = (res, s')"
  obtain tb mv where s: "s = (tb, mv)" by (cases s)
  obtain vs where vs: "table_rel tb vs" "rows_fit schema vs" "finite (table_keys vs)" "card (table_keys vs) \<le> K"
    using r by (auto simp: s table_ready_def table_ok_def)
  obtain snap where snap: "MVCCManager_getSnapshot mv t = Inr snap" using ready_snapshot [OF r [unfolded s]] by blast
  obtain rows where rows: "res = Inr rows" "calm s s'" "all_rows (\<lambda>k. seen mv t snap (vs k)) rows"
    using scanAll_rows [OF vs(1) snap] run by (auto simp: s)
  have "row_ok (length schema) (snd x)" if "x \<in> set rows" for x
    using that rows(3) version_ok [OF vs(1,2)] by (fastforce simp: all_rows_def dest: seen_mem)
  then show "case res of Inl e \<Rightarrow> is_exception e \<and> E s'
      | Inr rows \<Rightarrow> table_ready t A schema n K s' \<and> length rows \<le> K \<and> (\<forall>x \<in> set rows. row_ok (length schema) (snd x))"
    using ready_calm [OF r rows(2)] rows_length [OF rows(3) vs(3)] vs(4) rows(1) by simp
qed

end
