(* ===== verification/Sql_Sizes.thy ===== *)
theory Sql_Sizes
  imports Parser
begin

text \<open>
  How much a statement can put into a row. Sizes are narrowed to \<open>int\<close> further down (\<open>record.cpp\<close>, \<open>page.cpp\<close>), so the code is safe only when the
  values of a statement are small enough; here they are bounded by the length of the statement's text, through lexer and parser.
\<close>

section \<open>Tokens are no longer than the text\<close>

lemma stringLoop_text: "Lexer_stringLoop val cs = Some (v, rest) \<Longrightarrow> length v + length rest < length val + length cs"
  by (induction val cs rule: Lexer_stringLoop.induct) (auto split: if_splits list.splits)

lemma lexToken_text:
  assumes "Lexer_lexToken start rest = Inr (t, rest')" "rest \<noteq> []"
  shows "length (tk_text t) + length rest' \<le> length rest"
proof -
  obtain c cs where rest: "rest = c # cs" using assms(2) by (cases rest) auto
  have split: "length (takeWhile P xs) + length (dropWhile P xs) = length xs" for P and xs :: string
    by (metis length_append takeWhile_dropWhile_id)
  consider (ident) "isalpha c \<or> c = CHR ''_''"
    | (number) "\<not> (isalpha c \<or> c = CHR ''_'')" "isdigit c \<or> c = CHR ''-'' \<and> isdigit (Lexer_peekNext rest)"
    | (other) "\<not> (isalpha c \<or> c = CHR ''_'')" "\<not> (isdigit c \<or> c = CHR ''-'' \<and> isdigit (Lexer_peekNext rest))"
    by blast
  then show ?thesis
  proof cases
    case ident
    then have "(t, rest') = Lexer_lexIdentifierOrKeyword start rest"
      using assms(1) by (simp add: Lexer_lexToken_def rest Lexer_peek_def Let_def)
    then show ?thesis using split [of ident_char rest]
      by (auto simp: Lexer_lexIdentifierOrKeyword_def Let_def toUpper_def split: option.splits)
  next
    case number
    then have "(t, rest') = Lexer_lexNumber start rest"
      using assms(1) by (simp add: Lexer_lexToken_def rest Lexer_peek_def Let_def)
    then show ?thesis using split [of isdigit rest] split [of isdigit cs]
      by (auto simp: Lexer_lexNumber_def rest split: if_splits)
  next
    case other
    have len: "Lexer_peek (drop 1 rest) \<noteq> NUL \<Longrightarrow> cs \<noteq> []" by (auto simp: rest Lexer_peek_def)
    show ?thesis
      using other assms(1) len
      by (cases cs) (auto simp: Lexer_lexToken_def rest Lexer_peek_def Let_def Lexer_lexString_def simple_token_def NUL_def
          simp del: Lexer_stringLoop.simps dest!: stringLoop_text split: if_splits option.splits)
  qed
qed

definition token_weight :: "Token \<Rightarrow> nat" where
  "token_weight t = 4 + length (tk_text t)"

lemma tokenize_weight: "Lexer_tokenizeLoop pos rest = Inr toks \<Longrightarrow> sum_list (map token_weight toks) \<le> 5 * length rest + 4"
proof (induction pos rest arbitrary: toks rule: Lexer_tokenizeLoop.induct)
  case (1 pos rest)
  obtain start rest1 where skip: "Lexer_skipWhitespaceAndComments pos rest = (start, rest1)" by fastforce
  have le: "length rest1 \<le> length rest" using skipWhitespace_length [of pos rest] skip by simp
  show ?case
  proof (cases "rest1 = []")
    case True
    then have "toks = [\<lparr>tk_type = END_OF_INPUT, tk_text = [], tk_pos = start\<rparr>]"
      using 1(2) skip by (simp add: Lexer_tokenizeLoop.simps [of pos rest])
    then show ?thesis by (simp add: token_weight_def)
  next
    case False
    then obtain t rest2 ts where t: "Lexer_lexToken start rest1 = Inr (t, rest2)"
        "Lexer_tokenizeLoop (start + (length rest1 - length rest2)) rest2 = Inr ts" "toks = t # ts"
      using 1(2) skip by (auto simp: Lexer_tokenizeLoop.simps [of pos rest] result_simps split: sum.splits)
    have "sum_list (map token_weight ts) \<le> 5 * length rest2 + 4" using 1(1) [OF skip [symmetric] refl False t(1) refl t(2)] .
    then show ?thesis using lexToken_text [OF t(1) False] lexToken_length [OF t(1) False] le t(3) by (simp add: token_weight_def [of t])
  qed
qed

lemma tokenize_eoi: "Lexer_tokenize src = Inr toks \<Longrightarrow> eoi toks"
  using tokenizeLoop_of [of 0 src toks src "[]"] by (auto simp: Lexer_tokenize_def tokens_of_def eoi_def token_sig_def)

section \<open>Values are tokens\<close>

text \<open>The bytes the values of a statement add to a row: an INSERT writes a length before each value, an UPDATE replaces values of a row that has them.\<close>

fun payload :: "Stmt \<Rightarrow> nat" where
  "payload (StmtInsert s) = sum_list (map (\<lambda>v. 4 + length v) (in_values s))"
| "payload (StmtUpdate s) = sum_list (map (\<lambda>a. length (as_value a)) (up_assignments s))"
| "payload _ = 0"

definition sig_weight :: "(SqlTokenType \<times> string) list \<Rightarrow> nat" where
  "sig_weight sg = sum_list (map (\<lambda>x. 4 + length (snd (erase x))) sg)"

lemma sig_weight_simps [simp]:
  "sig_weight [] = 0" "sig_weight (x # sg) = 4 + length (snd (erase x)) + sig_weight sg" "sig_weight (a @ b) = sig_weight a + sig_weight b"
  by (simp_all add: sig_weight_def)

lemma commas_weight: "sum_list (map sig_weight xs) \<le> sig_weight (commas xs)"
  by (induction xs rule: commas.induct) auto

lemma payload_weight: "payload s \<le> sig_weight (stmt_toks s)"
proof (cases s)
  case (StmtInsert i)
  have "sum_list (map (\<lambda>v. 4 + length v) (in_values i)) = sum_list (map sig_weight (map (\<lambda>v. [lit_tok v]) (in_values i)))"
    by (simp add: comp_def lit_tok_def)
  then show ?thesis using StmtInsert commas_weight [of "map (\<lambda>v. [lit_tok v]) (in_values i)"] by simp
next
  case (StmtUpdate u)
  have "sum_list (map (\<lambda>a. length (as_value a)) (up_assignments u)) \<le> sum_list (map sig_weight (map assignment_toks (up_assignments u)))"
    unfolding map_map comp_def by (rule sum_list_mono) (simp add: assignment_toks_def lit_tok_def)
  then show ?thesis using StmtUpdate commas_weight [of "map assignment_toks (up_assignments u)"] by simp
qed simp_all

lemma took_weight:
  assumes "took ts R sg"
  shows "sig_weight sg \<le> sum_list (map token_weight ts)"
proof -
  obtain pre where pre: "ts = pre @ R" "map (erase \<circ> token_sig) pre = map erase sg" using assms by (auto simp: took_def erased_def)
  have "sig_weight sg = sum_list (map (\<lambda>x. 4 + length (snd x)) (map erase sg))" by (simp add: sig_weight_def comp_def)
  also have "\<dots> = sum_list (map (\<lambda>t. 4 + length (snd (erase (token_sig t)))) pre)" by (simp flip: pre(2) add: comp_def)
  also have "\<dots> \<le> sum_list (map token_weight pre)" by (rule sum_list_mono) (simp add: token_weight_def token_sig_def)
  finally show ?thesis using pre(1) by simp
qed

text \<open>A statement text that the engine's \<open>int\<close> sizes can carry.\<close>

definition short_text :: "string \<Rightarrow> bool" where
  "short_text t \<longleftrightarrow> length t \<le> 2 ^ 28"

lemma payload_bound:
  assumes "Lexer_tokenize src = Inr toks" "Parser_parseStatement toks = Inr (s, R)" "short_text src"
  shows "payload s \<le> 2 ^ 31 - 2 ^ 17"
proof -
  have "took toks R (stmt_toks s)" using parseStatement_sound [OF tokenize_eoi [OF assms(1)] assms(2)] by simp
  then have "payload s \<le> 5 * length src + 4"
    using payload_weight [of s] took_weight tokenize_weight [of 0 src toks] assms(1) by (fastforce simp: Lexer_tokenize_def)
  then show ?thesis using assms(3) by (simp add: short_text_def)
qed

end
