(* ===== verification/Sql_Safety.thy ===== *)
theory Sql_Safety
  imports Sql_Server Table_Safety Sql_Sizes
begin

text \<open>
  The SQL layer on well-formed databases: every statement is answered, whatever it is, and leaves a well-formed database.

  \<open>db_ready t A n K\<close> lifts \<open>table_ready\<close> to all tables of a database; \<open>n\<close> also bounds the tables that may still be created. A statement on tables
  of at most \<open>K\<close> keys needs a room of \<open>K + 1\<close> at most and adds one key at most.
\<close>

section \<open>Conditions, projections and assignments\<close>

lemma columnIndex_bound: "columnIndex schema name = Inr i \<Longrightarrow> i < length schema"
proof -
  assume a: "columnIndex schema name = Inr i"
  then obtain js where "filter (\<lambda>i. co_name (schema ! i) = name) [0..<length schema] = i # js"
    by (auto simp: columnIndex_def split: list.splits)
  then have "i \<in> set (filter (\<lambda>i. co_name (schema ! i) = name) [0..<length schema])" by simp
  then show ?thesis by simp
qed

lemma columnIndex_throws: "throws_only (columnIndex schema name)"
  by (simp add: columnIndex_def split: list.splits)

lemma evalWhere_throws: "throws_only (evalWhere v op lit ty)"
  unfolding evalWhere_def by (auto simp: stoll_def Let_def intro!: throws_only_bind split: option.splits)

lemma where_index_throws: "throws_only (where_index schema w)"
  by (simp add: where_index_def columnIndex_throws split: option.splits)

lemma where_index_bound: "where_index schema (Some w) = Inr i \<Longrightarrow> i < length schema"
  by (auto simp: where_index_def dest: columnIndex_bound)

lemma mapE_throws: "(\<And>x. x \<in> set xs \<Longrightarrow> throws_only (f x)) \<Longrightarrow> throws_only (mapE f xs)"
  by (induction xs) (auto intro!: throws_only_bind)

lemma mapE_mem: "mapE f xs = Inr ys \<Longrightarrow> y \<in> set ys \<Longrightarrow> \<exists>x \<in> set xs. f x = Inr y"
  by (induction xs arbitrary: ys) (auto simp: result_simps)

lemma projection_throws: "throws_only (select_projection schema cols)"
  by (simp add: select_projection_def mapE_throws columnIndex_throws)

lemma projection_bound: "select_projection schema cols = Inr ps \<Longrightarrow> i \<in> set ps \<Longrightarrow> i < length schema"
  by (auto simp: select_projection_def split: if_splits dest!: mapE_mem columnIndex_bound)

lemma project_throws: "\<forall>i \<in> set ps. i < length (rec_fields r) \<Longrightarrow> throws_only (project ps r)"
  by (simp add: project_def mapE_throws)

lemma matches_throws: "(w \<noteq> None \<Longrightarrow> i < length (rec_fields r)) \<Longrightarrow> throws_only (row_matches schema w i r)"
  by (auto simp: row_matches_def evalWhere_throws split: option.splits)

definition rows_wide :: "nat \<Rightarrow> (Key \<times> Record) list \<Rightarrow> bool" where
  "rows_wide n rows \<longleftrightarrow> (\<forall>x \<in> set rows. row_ok n (snd x))"

lemma select_loop_throws:
  "rows_wide n rows \<Longrightarrow> (w \<noteq> None \<Longrightarrow> i < n) \<Longrightarrow> \<forall>j \<in> set ps. j < n \<Longrightarrow> throws_only (select_loop schema w i ps rows)"
  by (induction schema w i ps rows rule: select_loop.induct)
    (auto simp: rows_wide_def row_ok_def intro!: throws_only_bind matches_throws project_throws)

lemma matching_keys_throws: "rows_wide n rows \<Longrightarrow> (w \<noteq> None \<Longrightarrow> i < n) \<Longrightarrow> throws_only (matching_keys schema w i rows)"
  by (induction schema w i rows rule: matching_keys.induct) (auto simp: rows_wide_def row_ok_def intro!: throws_only_bind matches_throws)

lemma matching_keys_length: "matching_keys schema w i rows = Inr ks \<Longrightarrow> length ks \<le> length rows"
  by (induction rows arbitrary: ks) (fastforce simp: result_simps split: if_splits)+

lemma assignments_throws: "length vals = length schema \<Longrightarrow> throws_only (applyAssignments schema as vals)"
  by (induction as arbitrary: vals)
    (auto simp: columnIndex_throws vec_set_def intro!: throws_only_bind dest: columnIndex_bound split: if_splits)

lemma pending_throws: "rows_wide (length schema) rows \<Longrightarrow> (w \<noteq> None \<Longrightarrow> i < length schema) \<Longrightarrow> throws_only (pending_updates schema w i as rows)"
  by (induction schema w i as rows rule: pending_updates.induct)
    (auto simp: rows_wide_def row_ok_def intro!: throws_only_bind matches_throws assignments_throws)

lemma pending_length: "pending_updates schema w i as rows = Inr ps \<Longrightarrow> length ps \<le> length rows"
  by (induction rows arbitrary: ps) (fastforce simp: result_simps split: if_splits)+

text \<open>The sizes of the rows an UPDATE writes.\<close>

definition assigned :: "Assignment list \<Rightarrow> nat" where
  "assigned as = sum_list (map (\<lambda>a. length (as_value a)) as)"

lemma size_update: "i < length vals \<Longrightarrow> sum_list (map (\<lambda>f. 4 + length f) (vals[i := v])) \<le> sum_list (map (\<lambda>f. 4 + length f) vals) + length v"
  by (induction vals arbitrary: i) (auto split: nat.splits)

lemma assignments_size:
  "applyAssignments schema as vals = Inr vals' \<Longrightarrow> sum_list (map (\<lambda>f. 4 + length f) vals') \<le> sum_list (map (\<lambda>f. 4 + length f) vals) + assigned as"
proof (induction as arbitrary: vals)
  case (Cons a as)
  then obtain i where i: "i < length vals" "applyAssignments schema as (vals[i := as_value a]) = Inr vals'"
    by (auto simp: result_simps vec_set_def split: if_splits)
  then show ?case using Cons.IH [OF i(2)] size_update [OF i(1), of "as_value a"] by (simp add: assigned_def)
qed (simp add: assigned_def)

lemma assignments_sized:
  assumes "applyAssignments schema as (rec_fields r) = Inr vals" "row_ok n r" "assigned as \<le> 2 ^ 31 - 2 ^ 17"
  shows "int_sized vals"
  using assignments_size [OF assms(1)] assms(2,3) by (simp add: row_ok_def int_sized_def Record_size_def)

lemma pending_sized:
  "pending_updates schema w i as rows = Inr ps \<Longrightarrow> rows_wide n rows \<Longrightarrow> assigned as \<le> 2 ^ 31 - 2 ^ 17 \<Longrightarrow> \<forall>p \<in> set ps. int_sized (snd p)"
  by (induction rows arbitrary: ps) (fastforce simp: rows_wide_def result_simps split: if_splits dest: assignments_sized)+

section \<open>Statements on one table\<close>

lemma delete_keys_triple:
  "triple (table_ready t A schema (length ks + n) K) (table_ready t A schema n K) (delete_keys ks t) (\<lambda>_. table_ready t A schema n K)"
proof (induction ks)
  case (Cons k ks)
  have first: "triple (table_ready t A schema (length (k # ks) + n) K) (table_ready t A schema n K) (Table_deleteByKey k t) (\<lambda>_. table_ready t A schema (length ks + n) K)"
    by (rule triple_weaken [OF delete_triple [of t A schema "length ks + n" K k]]) (auto elim: ready_mono)
  show ?case unfolding delete_keys.simps
    by (rule triple_bind [OF first], rule triple_bind [OF Cons.IH], rule triple_prims)
qed (simp add: triple_prims)

lemma update_keys_triple:
  assumes "\<forall>p \<in> set ps. int_sized (snd p)"
  shows "triple (table_ready t A schema (length ps + n) K) (table_ready t A schema n K) (update_keys ps t) (\<lambda>_. table_ready t A schema n K)"
  using assms
proof (induction ps)
  case (Cons p ps)
  obtain k vals where p: "p = (k, vals)" by (cases p)
  have sz: "int_sized vals" using Cons.prems p by simp
  have first: "triple (table_ready t A schema (length (p # ps) + n) K) (table_ready t A schema n K) (Table_updateByKey k vals t) (\<lambda>_. table_ready t A schema (length ps + n) K)"
    by (rule triple_weaken [OF update_triple [OF sz, of t A schema "length ps + n" K k]]) (auto elim: ready_mono)
  show ?case unfolding p update_keys.simps
    by (rule triple_bind [OF first [unfolded p]], rule triple_bind [OF Cons.IH], use Cons.prems in simp, rule triple_prims)
qed (simp add: triple_prims)

text \<open>A scan whose rows are then used; the rows have the columns of the schema.\<close>

lemma scan_bind:
  assumes "\<And>rows. rows_wide (length schema) rows \<Longrightarrow> length rows \<le> K \<Longrightarrow> triple (table_ready t A schema n K) E (f rows) Q"
  shows "triple (table_ready t A schema n K) E (sbind (Table_scanAll t) f) Q"
  by (rule triple_bind [OF scan_triple], rule triple_pull, rule assms) (simp_all add: rows_wide_def)

lemma get_bind:
  assumes "triple (table_ready t A schema n K) E (f None) Q"
    and "\<And>r. row_ok (length schema) r \<Longrightarrow> triple (table_ready t A schema n K) E (f (Some r)) Q"
  shows "triple (table_ready t A schema n K) E (sbind (Table_getByKey k t) f) Q"
proof (rule triple_bind [OF get_triple], rule triple_pull)
  fix rec :: "Record option" assume "\<forall>r. rec = Some r \<longrightarrow> row_ok (length schema) r"
  then show "triple (table_ready t A schema n K) E (f rec) Q" using assms by (cases rec) auto
qed

lemma schema_bind:
  assumes "triple (table_ready t A schema n K) E (f schema) Q"
  shows "triple (table_ready t A schema n K) E (sbind (sget (\<lambda>(tb, mv). Table_getSchema tb)) f) Q"
  using assms by (auto simp: triple_def table_ready_def Table_getSchema_def)

lemma select_triple: "triple (table_ready t A schema n K) (table_ready t A schema n K) (select_on stmt t) (\<lambda>_. table_ready t A schema n K)"
proof -
  have rows: "triple (table_ready t A schema n K) (table_ready t A schema n K) (select_rows schema w ps t) (\<lambda>_. table_ready t A schema n K)"
    if ps: "\<forall>i \<in> set ps. i < length schema" for w ps
    unfolding select_rows_def
    by (cases w) (auto intro!: triple_branch get_bind scan_bind triple_lift triple_prims where_index_throws
        select_loop_throws [where n = "length schema"] project_throws dest: where_index_bound simp: ps row_ok_def)
  show ?thesis unfolding select_on_def
    by (intro schema_bind triple_lift triple_bind [OF rows] triple_prims projection_throws) (auto dest: projection_bound)
qed

lemma ready_less: "table_ready t A schema (Suc (n + m)) K s \<Longrightarrow> table_ready t A schema n K s"
  by (erule ready_mono) simp_all

lemma delete_on_triple:
  "triple (table_ready t A schema (Suc (n + K)) K) (table_ready t A schema n K) (delete_on stmt t) (\<lambda>_. table_ready t A schema n K)"
proof -
  have one: "triple (table_ready t A schema (Suc (n + K)) K) (table_ready t A schema n K) (Table_deleteByKey k t) (\<lambda>_. table_ready t A schema n K)" for k
    by (rule triple_weaken [OF delete_triple [of t A schema "n + K"]]) (auto elim: ready_mono)
  have many: "triple (table_ready t A schema (Suc (n + K)) K) (table_ready t A schema n K) (delete_keys ks t) (\<lambda>_. table_ready t A schema n K)"
    if "length ks \<le> K" for ks
    by (rule triple_weaken [OF delete_keys_triple [of t A schema ks n]]) (use that in \<open>auto elim: ready_mono\<close>)
  have scan: "triple (table_ready t A schema (Suc (n + K)) K) (table_ready t A schema n K)
      (sbind (Table_scanAll t) (\<lambda>rows. sbind (slift (matching_keys schema w i rows)) (\<lambda>keys. delete_keys keys t))) (\<lambda>_. table_ready t A schema n K)"
    if "w \<noteq> None \<Longrightarrow> i < length schema" for w i
    by (intro scan_bind triple_lift many) (use that in \<open>auto intro: matching_keys_throws ready_less dest: matching_keys_length\<close>)
  show ?thesis unfolding delete_on_def
    by (intro schema_bind, cases "de_where stmt")
      (auto intro!: scan triple_branch triple_bind [OF one] triple_prims triple_lift where_index_throws dest: where_index_bound ready_less)
qed

lemma update_on_triple:
  assumes small: "assigned (up_assignments stmt) \<le> 2 ^ 31 - 2 ^ 17"
  shows "triple (table_ready t A schema (Suc (n + K)) K) (table_ready t A schema n K) (update_on stmt t) (\<lambda>_. table_ready t A schema n K)"
proof -
  have one: "triple (table_ready t A schema (Suc (n + K)) K) (table_ready t A schema n K) (Table_updateByKey k vals t) (\<lambda>_. table_ready t A schema n K)"
    if "int_sized vals" for k vals
    by (rule triple_weaken [OF update_triple [OF that, of t A schema "n + K"]]) (auto elim: ready_mono)
  have many: "triple (table_ready t A schema (Suc (n + K)) K) (table_ready t A schema n K) (update_keys ps t) (\<lambda>_. table_ready t A schema n K)"
    if "length ps \<le> K" "\<forall>p \<in> set ps. int_sized (snd p)" for ps
    by (rule triple_weaken [OF update_keys_triple [OF that(2), of t A schema n]]) (use that(1) in \<open>auto elim: ready_mono\<close>)
  have scan: "triple (table_ready t A schema (Suc (n + K)) K) (table_ready t A schema n K)
      (sbind (Table_scanAll t) (\<lambda>rows. sbind (slift (pending_updates schema w i (up_assignments stmt) rows)) (\<lambda>ps. update_keys ps t))) (\<lambda>_. table_ready t A schema n K)"
    if "w \<noteq> None \<Longrightarrow> i < length schema" for w i
    by (intro scan_bind triple_lift many) (use that pending_sized [OF _ _ small] in \<open>auto intro: pending_throws ready_less dest: pending_length\<close>)
  show ?thesis unfolding update_on_def
    by (intro schema_bind, cases "up_where stmt")
      (auto intro!: scan triple_branch get_bind triple_bind [OF one] triple_prims triple_lift where_index_throws assignments_throws
        dest: where_index_bound ready_less assignments_sized [OF _ _ small] simp: row_ok_def)
qed

section \<open>Well-formed databases\<close>

text \<open>No file of a table that is still to be created exists.\<close>

definition new_ids :: "nat \<Rightarrow> Database \<Rightarrow> bool" where
  "new_ids n db \<longleftrightarrow> unat (cm_next_table_id (db_catalog db)) + n < 2 ^ 32 \<and> (\<forall>i \<ge> cm_next_table_id (db_catalog db).
     file_content (db_disk db) (Database_heapFileFor (db_data_dir db) i) = [] \<and> file_content (db_disk db) (Database_indexFileFor (db_data_dir db) i) = [])"

definition tables_ready :: "nat \<Rightarrow> nat \<Rightarrow> Database \<Rightarrow> bool" where
  "tables_ready n K db \<longleftrightarrow> (\<forall>(name, tb) \<in> set (db_tables db). table_ok K tb \<and> bp_next_page_id (tab_pool tb) + int n \<le> MAX_PAGES) \<and> int n \<le> MAX_PAGES"

definition db_ready :: "u64 \<Rightarrow> u64 set \<Rightarrow> nat \<Rightarrow> nat \<Rightarrow> Database \<Rightarrow> bool" where
  "db_ready t A n K db \<longleftrightarrow> tables_ready n K db \<and> new_ids n db \<and> txn_room n (db_mvcc db) \<and> MVCCManager_activeIds (db_mvcc db) = A \<and> (t = 0 \<or> t \<in> A)"

lemma tables_ready_mono: "tables_ready n K db \<Longrightarrow> n' \<le> n \<Longrightarrow> K \<le> K' \<Longrightarrow> tables_ready n' K' db"
  by (fastforce simp: tables_ready_def intro: table_ok_mono)

lemma db_ready_mono: "db_ready t A n K db \<Longrightarrow> n' \<le> n \<Longrightarrow> K \<le> K' \<Longrightarrow> db_ready t A n' K' db"
  by (auto simp: db_ready_def new_ids_def txn_room_def intro: tables_ready_mono)

lemma set_update_subset: "set (AList.update k v xs) \<subseteq> insert (k, v) (set xs)"
  by (induction xs) auto

text \<open>A statement on one table is a statement on the database.\<close>

lemma getTable_triple:
  assumes "\<And>schema. triple (table_ready t A schema n K) (table_ready t A schema n' K') m (\<lambda>_. table_ready t A schema n' K')" "n' \<le> n" "K \<le> K'"
  shows "triple (db_ready t A n K) (db_ready t A n' K') (Database_getTable name m) (\<lambda>_. db_ready t A n' K')"
proof (rule tripleI)
  fix db res db' assume r: "db_ready t A n K db" and run: "Database_getTable name m db = (res, db')"
  show "case res of Inl e \<Rightarrow> is_exception e \<and> db_ready t A n' K' db' | Inr x \<Rightarrow> db_ready t A n' K' db'"
  proof (cases "map_of (db_tables db) name")
    case None
    then show ?thesis using run db_ready_mono [OF r assms(2,3)] by (auto simp: Database_getTable_def)
  next
    case (Some tb)
    obtain x tb' mv' where x: "m (tb, db_mvcc db) = (x, tb', mv')" by (rule prod_cases3)
    have "(name, tb) \<in> set (db_tables db)" using Some by (rule map_of_SomeD)
    then have "table_ready t A (tab_schema tb) n K (tb, db_mvcc db)" using r by (auto simp: db_ready_def tables_ready_def table_ready_def)
    from tripleD [OF assms(1) this x] have tb': "table_ready t A (tab_schema tb) n' K' (tb', mv')" and th: "throws_only x" by (auto split: sum.splits)
    have db': "db' = db\<lparr>db_tables := AList.update name tb' (db_tables db), db_mvcc := mv'\<rparr>" "res = x" using run Some x by (auto simp: Database_getTable_def)
    have "tables_ready n' K' db'"
      using r tb' set_update_subset [of name tb' "db_tables db"] tables_ready_mono [of n K db n' K'] assms(2,3)
      by (auto simp: db' tables_ready_def db_ready_def table_ready_def)
    then have "db_ready t A n' K' db'" using r tb' assms(2) by (auto simp: db_ready_def db' table_ready_def new_ids_def)
    then show ?thesis using th db'(2) by (auto split: sum.splits)
  qed
qed

lemma create_columns_throws: "throws_only (create_columns cols)"
  by (induction cols) (auto simp: Let_def intro!: throws_only_bind)

text \<open>The storage of a new table.\<close>

lemma new_table:
  "\<exists>tb. Table_new name schema (BufferPool_new [] i pol DEFAULT_NUM_FRAMES) (IndexManager_new [] i) mv = (Inr (), tb, mv) \<and> table_ok 0 tb
     \<and> bp_next_page_id (tab_pool tb) = 0"
proof -
  let ?bp = "BufferPool_new [] i pol DEFAULT_NUM_FRAMES"
  define t where "t = \<lparr>bt_nodes = [BPlusTreeNode_new True], bt_root = Some 0, bt_im = Some (IndexManager_new [] i), bt_dirty = []\<rparr>"
  let ?tb = "\<lparr>tab_name = name, tab_schema = schema, tab_pool = ?bp, tab_index = t\<rparr>"
  have hdr: "int_of_le (chunk 0 4 (overwrite (replicate PAGE_SIZE 0) 0 (le_int (-1)))) = -1" by (simp add: PAGE_SIZE_def int32_def)
  have "BPlusTree_open (IndexManager_new [] i) (mv_log mv) = (Inr (), t, mv_log mv)"
    using hdr by (simp add: BPlusTree_open_def IndexManager_hasData_def IndexManager_new_def IndexManager_currentHeaderBytes_def t_def PAGE_SIZE_def Let_def)
  then have "Table_new name schema ?bp (IndexManager_new [] i) mv = (Inr (), ?tb, mv)" by (simp add: Table_new_def)
  moreover have "tree_rel STRING t []"
    using new_rel [of STRING] by (auto simp: tree_rel_def tree_ok_def BPlusTree_new_def t_def)
  then have "table_rel ?tb (\<lambda>_. [])"
    using empty_pool_ok [of i pol DEFAULT_NUM_FRAMES] empty_pool_quiet [of DEFAULT_NUM_FRAMES "[]" i pol]
    by (auto simp: table_rel_def heads_def apart_def nodes_storable_def t_def DEFAULT_NUM_FRAMES_def intro!: exI [of _ "[]"])
  then have "table_ok 0 ?tb" by (auto simp: table_ok_def rows_fit_def table_keys_def intro!: exI [of _ "\<lambda>_. []"])
  moreover have "bp_next_page_id ?bp = 0" by (simp add: BufferPool_new_def)
  ultimately show ?thesis by auto
qed

lemma create_triple: "triple (db_ready t A (Suc n) K) (db_ready t A n K) (execCreateTable order stmt) (\<lambda>_. db_ready t A n K)"
  unfolding execCreateTable_def
proof (intro triple_lift create_columns_throws triple_bind [OF tripleI] triple_prims)
  fix columns and db :: Database and res and db' :: Database
  let ?n = "cm_next_table_id (db_catalog db)"
  assume r: "db_ready t A (Suc n) K db" and run: "Database_createTable order (ct_table_name stmt) columns db = (res, db')"
  show "case res of Inl e \<Rightarrow> is_exception e \<and> db_ready t A n K db' | Inr x \<Rightarrow> db_ready t A n K db'"
  proof (cases "CatalogManager_hasTable (db_catalog db) (ct_table_name stmt)")
    case True
    then show ?thesis using run db_ready_mono [OF r, of n K] by (auto simp: Database_createTable_def CatalogManager_createTable_def)
  next
    case False
    then obtain cat where cat: "CatalogManager_createTable order (ct_table_name stmt) columns (db_catalog db) = Inr (?n, cat)" "cm_next_table_id cat = ?n + 1"
      by (simp add: CatalogManager_createTable_def CatalogManager_saveCatalog_def Let_def)
    have ids: "unat ?n + Suc n < 2 ^ 32" "file_content (db_disk db) (Database_heapFileFor (db_data_dir db) ?n) = []"
        "file_content (db_disk db) (Database_indexFileFor (db_data_dir db) ?n) = []"
      using r by (auto simp: db_ready_def new_ids_def)
    obtain tb where tb: "Table_new (ct_table_name stmt) columns (BufferPool_new [] ?n (Clock ClockSweepPolicy_new) DEFAULT_NUM_FRAMES) (IndexManager_new [] ?n) (db_mvcc db)
        = (Inr (), tb, db_mvcc db)" "table_ok 0 tb" "bp_next_page_id (tab_pool tb) = 0" using new_table by blast
    have db': "res = Inr ()" "db' = db\<lparr>db_catalog := cat, db_tables := AList.update (ct_table_name stmt) tb (db_tables db)\<rparr>"
      using run cat(1) ids(2,3) tb(1) by (auto simp: Database_createTable_def Database_openTableStorage_def)
    have "Suc (unat ?n) < 2 ^ 32" using ids(1) by simp
    then have nx: "unat (?n + 1) = Suc (unat ?n)" by (simp add: unat_word_ariths)
    have "tables_ready n K db'"
      using r tb(2,3) set_update_subset [of "ct_table_name stmt" tb "db_tables db"] table_ok_mono [of 0 tb K]
      by (fastforce simp: db' tables_ready_def db_ready_def)
    moreover have "new_ids n db'"
      using r nx ids(1) by (auto simp: new_ids_def db_ready_def db' cat(2) word_le_nat_alt)
    ultimately have "db_ready t A n K db'" using r by (auto simp: db_ready_def db' txn_room_def)
    then show ?thesis using db'(1) by simp
  qed
qed (auto intro: db_ready_mono)

section \<open>Sessions\<close>

text \<open>After a statement of the session \<open>t\<close>: the other active transactions are still active, and the session's own transaction is not one of them.\<close>

definition session_after :: "u64 \<Rightarrow> u64 set \<Rightarrow> nat \<Rightarrow> nat \<Rightarrow> session_state \<Rightarrow> bool" where
  "session_after t A n K = (\<lambda>(db, t'). \<exists>A'. db_ready t' A' n K db \<and> A - {t} \<subseteq> A' \<and> t' \<notin> A - {t})"

lemma session_same: "db_ready t A n K db \<Longrightarrow> session_after t A n K (db, t)"
  by (auto simp: session_after_def)

lemma session_mono: "session_after t A n K s \<Longrightarrow> n' \<le> n \<Longrightarrow> K \<le> K' \<Longrightarrow> session_after t A n' K' s"
  by (auto simp: session_after_def intro: db_ready_mono)

lemma on_db_after:
  assumes "triple (db_ready t A n K) (db_ready t A n' K') m (\<lambda>_. db_ready t A n' K')" "db_ready t A n K db" "on_db m (db, t) = (res, s')"
  shows "throws_only res \<and> session_after t A n' K' s'"
proof -
  obtain x db' where x: "m db = (x, db')" by (cases "m db")
  from tripleD [OF assms(1,2) this] have "throws_only x" "db_ready t A n' K' db'" by (auto split: sum.splits)
  then show ?thesis using assms(3) x by (auto simp: on_db_def intro: session_same)
qed

lemma begin_after:
  assumes "db_ready t A (Suc n) K db" "execBegin (db, t) = (res, s')"
  shows "throws_only res \<and> session_after t A n K s'"
proof (cases "t = 0")
  case False
  then show ?thesis using assms session_mono [OF session_same [OF assms(1)], of n K] by (auto simp: execBegin_def sthrow_def)
next
  case True
  obtain x mv where x: "MVCCManager_begin (db_mvcc db) = (x, mv)" by (cases "MVCCManager_begin (db_mvcc db)")
  note f = begin_fields [OF x]
  have inv: "mvcc_inv (db_mvcc db)" "unat (tm_next_txn_id (mv_txns (db_mvcc db))) + Suc n < 2 ^ 64" "MVCCManager_activeIds (db_mvcc db) = A"
    using assms(1) by (auto simp: db_ready_def txn_room_def)
  note nx = next_Suc [OF inv(2)]
  have "mvcc_step (db_mvcc db) (MBegin x) mv" using nx x by (auto intro: mvcc_step.mv_begin)
  then have "mvcc_inv mv" using mvcc_step_inv [OF _ inv(1)] by blast
  then have room: "txn_room n mv" using inv(2) nx f(1,2) by (simp add: txn_room_def)
  have act: "MVCCManager_activeIds mv = insert x A" using f(3) inv(3) by (auto simp: MVCCManager_activeIds_def)
  have "x \<notin> A" "x \<noteq> 0" using inv f(1) by (auto simp: mvcc_inv_def MVCCManager_activeIds_def)
  then have "session_after t A n K (db\<lparr>db_mvcc := mv\<rparr>, x)"
    using assms(1) room act tables_ready_mono [of "Suc n" K db n K]
    by (auto simp: session_after_def db_ready_def tables_ready_def new_ids_def intro!: exI [of _ "insert x A"])
  moreover have "execBegin (db, t) = (Inr QueryResult_new, db\<lparr>db_mvcc := mv\<rparr>, x)"
    using True x by (simp add: execBegin_def on_db_def Database_beginTxn_def set_session_def sbind_def smodify_def sreturn_def sget_def)
  ultimately show ?thesis using assms(2) by auto
qed

text \<open>\<open>COMMIT\<close> and \<open>ROLLBACK\<close>: \<open>end\<close> is the manager's operation.\<close>

lemma end_after:
  assumes "db_ready t A n K db" "t \<noteq> 0" "mv = MVCCManager_commit (db_mvcc db) t \<or> mv = MVCCManager_abort (db_mvcc db) t"
  shows "session_after t A n K (db\<lparr>db_mvcc := mv\<rparr>, 0)"
proof -
  have t: "t \<in> MVCCManager_activeIds (db_mvcc db)" "mvcc_inv (db_mvcc db)" "MVCCManager_activeIds (db_mvcc db) = A"
    using assms(1,2) by (auto simp: db_ready_def txn_room_def)
  then have "mvcc_inv mv" using assms(3) mvcc_step_inv [OF mvcc_step.mv_commit] mvcc_step_inv [OF mvcc_step.mv_abort] by blast
  moreover have "tm_next_txn_id (mv_txns mv) = tm_next_txn_id (mv_txns (db_mvcc db))" using assms(3) by auto
  ultimately have "txn_room n mv" using assms(1) by (simp add: db_ready_def txn_room_def)
  moreover have "MVCCManager_activeIds mv = A - {t}"
    using assms(3) t by (auto simp: MVCCManager_activeIds_def split: option.splits if_splits)
  moreover have "0 \<notin> A" using t by (auto simp: mvcc_inv_def MVCCManager_activeIds_def)
  ultimately show ?thesis using assms(1) by (auto simp: session_after_def db_ready_def tables_ready_def new_ids_def)
qed

lemma commit_after:
  assumes "db_ready t A n K db" "execCommit (db, t) = (res, s') \<or> execRollback (db, t) = (res, s')"
  shows "throws_only res \<and> session_after t A n K s'"
proof (cases "t = 0")
  case True
  then show ?thesis using assms session_same [OF assms(1)] by (auto simp: execCommit_def execRollback_def sthrow_def)
next
  case False
  then have "execCommit (db, t) = (Inr QueryResult_new, db\<lparr>db_mvcc := MVCCManager_commit (db_mvcc db) t\<rparr>, 0)"
    "execRollback (db, t) = (Inr QueryResult_new, db\<lparr>db_mvcc := MVCCManager_abort (db_mvcc db) t\<rparr>, 0)"
    by (simp_all add: execCommit_def execRollback_def on_db_def Database_commitTxn_def Database_abortTxn_def set_session_def sbind_def smodify_def sreturn_def sget_def)
  then show ?thesis using assms(2) end_after [OF assms(1) False] by auto
qed

lemma exec_stmt_after:
  assumes "db_ready t A (Suc (n + K)) K db" "exec_stmt order stmt (db, t) = (res, s')" "payload stmt \<le> 2 ^ 31 - 2 ^ 17"
  shows "throws_only res \<and> session_after t A n (Suc K) s'"
proof -
  note mono = session_mono [where n' = n and K' = "Suc K"]
  have table: "throws_only res \<and> session_after t A n (Suc K) s'"
    if "on_db m (db, t) = (res, s')" "triple (db_ready t A (Suc (n + K)) K) (db_ready t A n' K') m (\<lambda>_. db_ready t A n' K')" "n \<le> n'" "K' \<le> Suc K"
    for m :: "(Database, QueryResult) effect" and n' K'
    using on_db_after [OF that(2) assms(1) that(1)] mono that(3,4) by blast
  have insert: "triple (db_ready t A (Suc (n + K)) K) (db_ready t A (n + K) (Suc K)) (execInsert s t) (\<lambda>_. db_ready t A (n + K) (Suc K))"
    if "payload (StmtInsert s) \<le> 2 ^ 31 - 2 ^ 17" for s
  proof -
    have "int_sized (in_values s)" using that by (simp add: int_sized_def MVCC_HEADER_SIZE_def)
    then show ?thesis unfolding execInsert_def by (intro triple_bind [OF getTable_triple] insert_triple triple_prims) auto
  qed
  have select: "triple (db_ready t A (Suc (n + K)) K) (db_ready t A (Suc (n + K)) K) (execSelect s t) (\<lambda>_. db_ready t A (Suc (n + K)) K)" for s
    unfolding execSelect_def by (intro getTable_triple select_triple) auto
  have delete: "triple (db_ready t A (Suc (n + K)) K) (db_ready t A n K) (execDelete s t) (\<lambda>_. db_ready t A n K)" for s
    unfolding execDelete_def by (intro triple_bind [OF getTable_triple] delete_on_triple triple_prims) auto
  have update: "triple (db_ready t A (Suc (n + K)) K) (db_ready t A n K) (execUpdate s t) (\<lambda>_. db_ready t A n K)"
    if "payload (StmtUpdate s) \<le> 2 ^ 31 - 2 ^ 17" for s
    using that unfolding execUpdate_def by (intro triple_bind [OF getTable_triple] update_on_triple triple_prims) (auto simp: assigned_def)
  show ?thesis
  proof (cases stmt)
    case (StmtCreateTable s)
    then show ?thesis using assms(2) by (intro table [OF _ create_triple]) (auto simp: exec_stmt_def)
  next
    case (StmtInsert s)
    then show ?thesis using assms(2,3) by (intro table [OF _ insert]) (auto simp: exec_stmt_def with_txn_def)
  next
    case (StmtSelect s)
    then show ?thesis using assms(2) by (intro table [OF _ select]) (auto simp: exec_stmt_def with_txn_def)
  next
    case (StmtDelete s)
    then show ?thesis using assms(2) by (intro table [OF _ delete]) (auto simp: exec_stmt_def with_txn_def)
  next
    case (StmtUpdate s)
    then show ?thesis using assms(2,3) by (intro table [OF _ update]) (auto simp: exec_stmt_def with_txn_def)
  next
    case StmtBegin
    then show ?thesis using begin_after [OF assms(1)] assms(2) mono [of t A "n + K" K s'] by (auto simp: exec_stmt_def)
  next
    case StmtCommit
    then show ?thesis using commit_after [OF assms(1), of res s'] assms(2) mono [of t A "Suc (n + K)" K s'] by (auto simp: exec_stmt_def)
  next
    case StmtRollback
    then show ?thesis using commit_after [OF assms(1), of res s'] assms(2) mono [of t A "Suc (n + K)" K s'] by (auto simp: exec_stmt_def)
  qed
qed

text \<open>A \<open>catch\<close> around code that throws only exceptions returns.\<close>

lemma exception_what: "is_exception e \<Longrightarrow> \<exists>msg. error_what e = Some msg"
  by (cases e) auto

lemma scatch_returns:
  assumes "m s = (res, s')" "throws_only res"
  shows "\<exists>x. scatch h m s = (Inr x, s') \<and> (res = Inr x \<or> (\<exists>msg. x = h msg))"
proof (cases res)
  case (Inl e)
  then obtain msg where "error_what e = Some msg" using assms(2) exception_what [of e] by auto
  then show ?thesis using assms(1) Inl by (auto simp: scatch_def)
qed (use assms(1) in \<open>auto simp: scatch_def\<close>)

lemma execute_after:
  assumes "db_ready t A (Suc (n + K)) K db" "payload stmt \<le> 2 ^ 31 - 2 ^ 17"
  shows "\<exists>r s'. execute order stmt (db, t) = (Inr r, s') \<and> session_after t A n (Suc K) s'"
proof -
  obtain res s' where x: "exec_stmt order stmt (db, t) = (res, s')" by (cases "exec_stmt order stmt (db, t)")
  from exec_stmt_after [OF assms(1) x assms(2)] show ?thesis using scatch_returns [of "exec_stmt order stmt" "(db, t)" res s' failed_result] x by (cases s') (auto simp: execute_def)
qed

section \<open>Responses\<close>

lemma lexToken_throws: "throws_only (Lexer_lexToken start rest)"
  by (simp add: Lexer_lexToken_def Lexer_lexString_def simple_token_def Let_def split: option.splits prod.splits)

lemma tokenize_throws: "throws_only (Lexer_tokenizeLoop pos rest) \<and> Lexer_tokenizeLoop pos rest \<noteq> Inr []"
proof (induction pos rest rule: Lexer_tokenizeLoop.induct)
  case (1 pos rest)
  obtain start rest1 where sk: "Lexer_skipWhitespaceAndComments pos rest = (start, rest1)" by (cases "Lexer_skipWhitespaceAndComments pos rest")
  show ?case
  proof (cases "rest1 = [] \<or> (\<exists>e. Lexer_lexToken start rest1 = Inl e)")
    case True
    then show ?thesis using lexToken_throws [of start rest1] by (subst (1 2) Lexer_tokenizeLoop.simps) (auto simp: sk)
  next
    case False
    then obtain t rest2 where t: "Lexer_lexToken start rest1 = Inr (t, rest2)" by (cases "Lexer_lexToken start rest1") auto
    have "Lexer_tokenizeLoop pos rest = bindE (Lexer_tokenizeLoop (start + (length rest1 - length rest2)) rest2) (\<lambda>ts. Inr (t # ts))"
      using False t by (subst Lexer_tokenizeLoop.simps) (simp add: sk)
    then show ?thesis using 1 [OF sk [symmetric] refl _ t refl] False by (auto simp: bindE_eq_Inr intro!: throws_only_bind)
  qed
qed

lemma parse_throws: "ts \<noteq> [] \<Longrightarrow> throws_only (Parser_parseStatement ts)"
  using parseStatement_only [of ts] by (auto simp: only_parse_def throws_only_def split: sum.splits)

definition line_ended :: "string \<Rightarrow> bool" where
  "line_ended r \<longleftrightarrow> r \<noteq> [] \<and> last r = CHR 0x0A"

lemma format_ended: "line_ended (formatResult stmt r)"
  by (cases stmt) (simp_all add: formatResult_def line_ended_def)

lemma respond_after:
  assumes "db_ready t A (Suc (n + K)) K db" "short_text stmt_text"
  shows "\<exists>r s'. respond order stmt_text (db, t) = (Inr r, s') \<and> session_after t A n (Suc K) s' \<and> line_ended r"
proof -
  let ?m = "sbind (slift (Lexer_tokenize stmt_text)) (\<lambda>tokens. sbind (slift (Parser_parseStatement tokens)) (\<lambda>(stmt, _).
     sbind (execute order stmt) (\<lambda>result. sreturn (formatResult stmt result))))"
  have same: "session_after t A n (Suc K) (db, t)" by (rule session_mono [OF session_same [OF assms(1)]]) simp_all
  have "\<exists>res s'. ?m (db, t) = (res, s') \<and> throws_only res \<and> session_after t A n (Suc K) s' \<and> (\<forall>r. res = Inr r \<longrightarrow> line_ended r)"
  proof (cases "Lexer_tokenize stmt_text")
    case (Inl e)
    then show ?thesis using tokenize_throws [of 0 stmt_text] same by (simp add: Lexer_tokenize_def)
  next
    case (Inr tokens)
    then have ne: "tokens \<noteq> []" using tokenize_throws [of 0 stmt_text] by (auto simp: Lexer_tokenize_def)
    show ?thesis
    proof (cases "Parser_parseStatement tokens")
      case (Inl e)
      then show ?thesis using Inr parse_throws [OF ne] same by simp
    next
      case p: (Inr x)
      obtain stmt rest where x: "x = (stmt, rest)" by (cases x)
      obtain r s' where "execute order stmt (db, t) = (Inr r, s')" "session_after t A n (Suc K) s'"
        using execute_after [OF assms(1) payload_bound [OF Inr _ assms(2)]] p x by blast
      then show ?thesis using Inr p by (simp add: x sbind_cases sreturn_def format_ended)
    qed
  qed
  then obtain res s' where m: "?m (db, t) = (res, s')" "throws_only res" "session_after t A n (Suc K) s'" "\<forall>r. res = Inr r \<longrightarrow> line_ended r" by blast
  have "line_ended (''ERROR: '' @ msg @ newline)" for msg by (simp add: line_ended_def)
  moreover obtain r where "respond order stmt_text (db, t) = (Inr r, s')" "res = Inr r \<or> (\<exists>msg. r = ''ERROR: '' @ msg @ newline)"
    using scatch_returns [of ?m, OF m(1,2), of "\<lambda>msg. ''ERROR: '' @ msg @ newline"] unfolding respond_def by blast
  ultimately show ?thesis using m(3,4) by blast
qed

section \<open>Connections and sessions\<close>

text \<open>The room that \<open>q\<close> statements on tables of at most \<open>K\<close> keys need.\<close>

definition budget :: "nat \<Rightarrow> nat \<Rightarrow> nat" where
  "budget q K = q * (K + q)"

lemma budget_Suc: "Suc (budget q (Suc K) + K) \<le> budget (Suc q) K"
  by (simp add: budget_def algebra_simps)

lemma connection_answers:
  assumes "db_ready t A (budget (length stmts) K) K db" "list_all short_text stmts"
  shows "\<exists>db' t' A' out. sfor (send_response order) stmts ((db, t), sent) = (Inr (), (db', t'), sent @ out)
    \<and> length out = length stmts \<and> list_all line_ended out \<and> db_ready t' A' 0 (K + length stmts) db'"
  using assms
proof (induction stmts arbitrary: db t A K sent)
  case Nil
  then show ?case by (auto simp: sreturn_def budget_def)
next
  case (Cons x stmts)
  have "db_ready t A (Suc (budget (length stmts) (Suc K) + K)) K db"
    by (rule db_ready_mono [OF Cons.prems(1)]) (simp_all add: budget_Suc)
  then obtain r db1 t1 where r: "respond order x (db, t) = (Inr r, db1, t1)" "session_after t A (budget (length stmts) (Suc K)) (Suc K) (db1, t1)" "line_ended r"
    using respond_after [of t A "budget (length stmts) (Suc K)" K db x order] Cons.prems(2) by (metis list.pred_inject(2) surj_pair)
  then obtain A1 where "db_ready t1 A1 (budget (length stmts) (Suc K)) (Suc K) db1" by (auto simp: session_after_def)
  from Cons.IH [OF this, of "sent @ [r]"] Cons.prems(2) obtain db' t' A' out where o: "sfor (send_response order) stmts ((db1, t1), sent @ [r]) = (Inr (), (db', t'), (sent @ [r]) @ out)"
      "length out = length stmts" "list_all line_ended out" "db_ready t' A' 0 (Suc K + length stmts) db'" by auto
  have "sfor (send_response order) (x # stmts) ((db, t), sent) = (Inr (), (db', t'), sent @ (r # out))"
    using r(1) o(1) by (simp add: sbind_def send_response_def)
  then show ?case using o(2-4) r(3) by (intro exI [of _ db'] exI [of _ t'] exI [of _ A'] exI [of _ "r # out"]) simp
qed

text \<open>The statements of several connections, one at a time in any order: each connection has its own session.\<close>

type_synonym server_state = "Database \<times> (nat \<Rightarrow> u64)"

definition on_session :: "nat \<Rightarrow> (session_state, 'a) effect \<Rightarrow> (server_state, 'a) effect" where
  "on_session c m = (\<lambda>(db, ses). case m (db, ses c) of (r, db, t) \<Rightarrow> (r, db, ses(c := t)))"

fun serve :: "iteration_order \<Rightarrow> (nat \<times> string) list \<Rightarrow> (server_state, string list) effect" where
  "serve order [] = sreturn []"
| "serve order ((c, stmt_text) # es) = sbind (on_session c (respond order stmt_text)) (\<lambda>r. sbind (serve order es) (\<lambda>rs. sreturn (r # rs)))"

text \<open>Every open session has an active transaction of its own.\<close>

definition sessions_ok :: "nat \<Rightarrow> nat \<Rightarrow> server_state \<Rightarrow> bool" where
  "sessions_ok n K = (\<lambda>(db, ses). \<exists>A. db_ready 0 A n K db \<and> (\<forall>c. ses c = 0 \<or> ses c \<in> A) \<and> (\<forall>c d. c \<noteq> d \<longrightarrow> ses c \<noteq> 0 \<longrightarrow> ses c \<noteq> ses d))"

lemma serve_one:
  assumes "sessions_ok (Suc (n + K)) K s" "short_text x"
  shows "\<exists>r s'. on_session c (respond order x) s = (Inr r, s') \<and> sessions_ok n (Suc K) s' \<and> line_ended r"
proof -
  obtain db ses where s: "s = (db, ses)" by (cases s)
  obtain A where A: "db_ready 0 A (Suc (n + K)) K db" "\<forall>c. ses c = 0 \<or> ses c \<in> A" "\<forall>c d. c \<noteq> d \<longrightarrow> ses c \<noteq> 0 \<longrightarrow> ses c \<noteq> ses d"
    using assms(1) by (auto simp: s sessions_ok_def)
  have "db_ready (ses c) A (Suc (n + K)) K db" using A by (auto simp: db_ready_def)
  then obtain r db' t' where r: "respond order x (db, ses c) = (Inr r, db', t')" "session_after (ses c) A n (Suc K) (db', t')" "line_ended r"
    using respond_after [OF _ assms(2)] by (metis surj_pair)
  then obtain A' where A': "db_ready t' A' n (Suc K) db'" "A - {ses c} \<subseteq> A'" "t' \<notin> A - {ses c}" by (auto simp: session_after_def)
  have own: "ses d \<in> A - {ses c}" if "d \<noteq> c" "ses d \<noteq> 0" for d
    using spec [OF A(2), of d] spec [OF spec [OF A(3), of d], of c] that by blast
  have "sessions_ok n (Suc K) (db', ses(c := t'))"
    unfolding sessions_ok_def prod.case
  proof (intro exI [of _ A'] conjI allI impI)
    show "db_ready 0 A' n (Suc K) db'" using A'(1) by (simp add: db_ready_def)
    show "(ses(c := t')) d = 0 \<or> (ses(c := t')) d \<in> A'" for d using A'(1,2) own [of d] by (auto simp: db_ready_def)
    show "(ses(c := t')) d \<noteq> (ses(c := t')) e" if "d \<noteq> e" "(ses(c := t')) d \<noteq> 0" for d e
    proof -
      have ne: "x = 0 \<or> x \<noteq> ses f" if "f \<noteq> c" "x = t'" for f x using that A'(3) own [of f] by (cases "ses f = 0") auto
      show ?thesis using that ne [of d t'] ne [of e t'] spec [OF spec [OF A(3), of d], of e]
        by (cases "d = c"; cases "e = c") auto
    qed
  qed
  then show ?thesis using r by (auto simp: s on_session_def)
qed

lemma serve_all:
  assumes "sessions_ok (budget (length es) K) K s" "\<forall>e \<in> set es. short_text (snd e)"
  shows "\<exists>rs s'. serve order es s = (Inr rs, s') \<and> length rs = length es \<and> list_all line_ended rs \<and> sessions_ok 0 (K + length es) s'"
  using assms
proof (induction es arbitrary: s K)
  case Nil
  then show ?case by (auto simp: sreturn_def budget_def)
next
  case (Cons e es)
  obtain c x where e: "e = (c, x)" by (cases e)
  have "sessions_ok (Suc (budget (length es) (Suc K) + K)) K s"
    using Cons.prems(1) db_ready_mono budget_Suc [of "length es" K] by (auto simp: sessions_ok_def) blast
  then obtain r s1 where r: "on_session c (respond order x) s = (Inr r, s1)" "sessions_ok (budget (length es) (Suc K)) (Suc K) s1" "line_ended r"
    using serve_one [of "budget (length es) (Suc K)" K s x c order] Cons.prems(2) e by auto
  from Cons.IH [OF r(2)] Cons.prems(2) obtain rs s' where "serve order es s1 = (Inr rs, s')" "length rs = length es" "list_all line_ended rs" "sessions_ok 0 (Suc K + length es) s'" by auto
  then show ?case using r by (auto simp: e sbind_cases sreturn_def)
qed

section \<open>A fresh data directory\<close>

definition fresh_db :: "string \<Rightarrow> Database" where
  "fresh_db dir = \<lparr>db_data_dir = dir, db_catalog = \<lparr>cm_catalog_file = None, cm_tables = [], cm_next_table_id = 0\<rparr>,
     db_mvcc = MVCCManager_new \<lparr>tm_next_txn_id = 1, tm_last_lsn_per_txn = Map.empty\<rparr> (WALWriter_flush (WALWriter_open [])), db_tables = [], db_disk = Map.empty\<rparr>"

lemma open_fresh: "Database_new id [] fuel dir Map.empty = Some (Inr (fresh_db dir))"
proof -
  note read = wal_log_readAll [OF wal_log_empty] wal_log_readAll [OF wal_log_flush [OF wal_log_empty]]
  have tm: "TransactionManager_new (WALWriter_open []) = (\<lparr>tm_next_txn_id = 1, tm_last_lsn_per_txn = Map.empty\<rparr>, WALWriter_flush (WALWriter_open []))"
    by (simp add: TransactionManager_new_def read)
  have "RecoveryManager_run fuel [] (ts, WALWriter_flush (WALWriter_open [])) = Some (Inr (), ts, WALWriter_flush (WALWriter_open []))" for ts
    by (simp add: RecoveryManager_run_def read) (simp add: WALWriter_flush_def)
  then show ?thesis
    by (simp add: Database_new_def CatalogManager_new_def CatalogManager_loadCatalog_def CatalogManager_getAllTables_def write_files_def
        file_content_def fresh_db_def tm sreturn_def)
qed

lemma fresh_ready: "n \<le> 524288 \<Longrightarrow> db_ready 0 {} n 0 (fresh_db dir)"
  by (auto simp: db_ready_def fresh_db_def tables_ready_def new_ids_def txn_room_def mvcc_inv_def MVCCManager_new_def MVCCManager_activeIds_def
      MAX_PAGES_def file_content_def)

section \<open>Properties\<close>

text \<open>
  C2: every statement is answered. On a well-formed database a connection runs every \<open>;\<close>-terminated statement of its stream to the end, whatever text it is and whatever
  errors it meets: it sends exactly one response per statement, each ending in a newline, without undefined behaviour and without a loop that does not end, and leaves a
  well-formed database and the session with no transaction or an active one. Three bounds. A statement has at most \<open>2 ^ 28\<close> characters: rows of \<open>2 ^ 31\<close> bytes run into the
  narrowed sizes of \<open>Page::insertRecord\<close>. The database has tables of at most \<open>K\<close> keys, and room for \<open>q * (K + q)\<close> pages, transaction ids and table ids, where \<open>q\<close> is the
  number of statements: a statement may touch every key of a table, and each touch may take a page. Page numbers are bounded by 524288, so on an empty database this covers 724 statements.
\<close>
theorem SqlServer_answers:
  assumes "db_ready 0 A (budget (length (statements (received chunks))) K) K db" "list_all short_text (statements (received chunks))"
  shows "\<exists>db' t A' out. SqlServer_handleConnection order chunks db = (Inr (), (db', t), out)
    \<and> length out = length (statements (received chunks)) \<and> list_all line_ended out
    \<and> db_ready t A' 0 (K + length (statements (received chunks))) db'"
  using connection_answers [OF assms, of order "[]"] by (simp add: SqlServer_handleConnection_def connection_statements)

definition sample_chunks :: "string list" where
  "sample_chunks = [''CREATE TABLE t (i str'', ''ing); BEGIN; what'', ''; SELECT'']"

lemma sample_count: "length (statements (received sample_chunks)) = 3"
  by code_simp

lemma sample_texts: "list_all (\<lambda>t. length t < 50) (statements (received sample_chunks))"
  by code_simp

lemma sample_short: "list_all short_text (statements (received sample_chunks))"
  using sample_texts by (rule list.pred_mono_strong) (simp add: short_text_def)

theorem SqlServer_answers_witness:
  "\<exists>db' t A' out. SqlServer_handleConnection id sample_chunks (fresh_db ''data'') = (Inr (), (db', t), out)
    \<and> length out = 3 \<and> list_all line_ended out \<and> db_ready t A' 0 3 db'"
proof -
  have "db_ready 0 {} (budget (length (statements (received sample_chunks))) 0) 0 (fresh_db ''data'')"
    by (rule fresh_ready) (simp add: sample_count budget_def)
  from SqlServer_answers [OF this sample_short, of id] show ?thesis by (simp add: sample_count)
qed

text \<open>
  C7: sessions do not mix. Whatever statements of at most \<open>2 ^ 28\<close> characters any number of connections send, in any order, all of them are answered, and afterwards every open
  session has an active transaction of its own, different from those of the other sessions, over well-formed tables. The database must have room for \<open>q * (K + q)\<close> pages,
  transaction ids and table ids, where \<open>q\<close> is the number of statements of all connections together and \<open>K\<close> the number of keys a table has at most: 724 statements on an
  empty database.
\<close>
theorem Sql_sessions:
  assumes "sessions_ok (budget (length es) K) K s" "\<forall>e \<in> set es. short_text (snd e)"
  shows "\<exists>rs s'. serve order es s = (Inr rs, s') \<and> length rs = length es \<and> list_all line_ended rs \<and> sessions_ok 0 (K + length es) s'"
  by (rule serve_all [OF assms])

definition sample_events :: "(nat \<times> string) list" where
  "sample_events = [(0, ''BEGIN;''), (1, ''BEGIN;''), (1, ''BEGIN;''), (0, ''ROLLBACK;'')]"

lemma sample_events_length: "length sample_events = 4"
  by (simp add: sample_events_def)

lemma sample_events_short: "\<forall>e \<in> set sample_events. short_text (snd e)"
  by (simp add: sample_events_def short_text_def)

theorem Sql_sessions_witness:
  "\<exists>rs s'. serve id sample_events (fresh_db ''data'', \<lambda>_. 0) = (Inr rs, s')
    \<and> length rs = 4 \<and> list_all line_ended rs \<and> sessions_ok 0 4 s'"
proof -
  have "db_ready 0 {} (budget (length sample_events) 0) 0 (fresh_db ''data'')"
    by (rule fresh_ready) (simp add: sample_events_length budget_def)
  then have "sessions_ok (budget (length sample_events) 0) 0 (fresh_db ''data'', \<lambda>_. 0)"
    by (auto simp: sessions_ok_def)
  from Sql_sessions [OF this sample_events_short, of id] show ?thesis by (simp add: sample_events_length)
qed

end
