(* ===== verification/Table_Reads.thy ===== *)
theory Table_Reads
  imports Table_Snapshots
begin

text \<open>
  What a transaction's reads return after writes: its own writes, the committed writes of earlier transactions, and nothing of a transaction that
  was rolled back (\<open>table.cpp\<close>). The last property shows the one place where rolling back leaves a trace.
\<close>

section \<open>Rows seen after a write\<close>

text \<open>The transactions of a reader that has begun: it sees itself.\<close>

lemma sees_self: "t \<noteq> 0 \<Longrightarrow> sees mv t snap t"
  by (simp add: sees_def is_self_def)

lemma seen_added: "sees mv r snap t \<Longrightarrow> row_of (seen mv r snap (add_version values t rid c)) = Some values"
  by (simp add: seen_def add_version_def Record_new_def isVisible_sees row_of_def)

lemma active_known:
  assumes "mvcc_inv mv" "t \<in> MVCCManager_activeIds mv"
  shows "t < tm_next_txn_id (mv_txns mv)" "\<exists>snap. MVCCManager_getSnapshot mv t = Inr snap" "t \<noteq> 0"
  using assms by (auto simp: mvcc_inv_def MVCCManager_activeIds_def MVCCManager_getSnapshot_def split: option.splits)

text \<open>The state right after a transaction has ended and another has begun.\<close>

lemma begin_after_commit:
  assumes "mvcc_inv mv" "t \<in> MVCCManager_activeIds mv" "tm_next_txn_id (mv_txns mv) \<noteq> - 1" "MVCCManager_begin (MVCCManager_commit mv t) = (r, mv')"
  shows "\<exists>snap. reader_inv r snap mv' \<and> r \<noteq> 0 \<and> MVCCManager_getSnapshot mv' r = Inr snap \<and> sees mv' r snap t"
proof -
  note f = begin_fields [OF assms(4)]
  have inv: "mvcc_inv (MVCCManager_commit mv t)" using mvcc_step_inv [OF mv_commit [OF assms(2)] assms(1)] by blast
  have lt: "t < r" "r \<noteq> 0" "t \<noteq> r" using active_known(1) [OF assms(1,2)] f(1) assms(1) by (auto simp: mvcc_inv_def)
  let ?snap = "tx_snapshot (the (mv_transactions mv' r))"
  have rd: "reader_inv r ?snap mv'" using begin_reader_inv [OF inv _ assms(4)] assms(3) by simp
  have "t < r + 1" using less_imp_le [OF lt(1)] f(1) assms(3) max_word_Suc [of r t] by simp
  then have "sees mv' r ?snap t"
    using lt f by (simp add: sees_def MVCCManager_stateOfLocked_def MVCCManager_activeIds_def)
  then show ?thesis using rd lt(2) by (auto simp: reader_inv_def)
qed

lemma begin_after_abort:
  assumes "mvcc_inv mv" "t \<in> MVCCManager_activeIds mv" "tm_next_txn_id (mv_txns mv) \<noteq> - 1" "MVCCManager_begin (MVCCManager_abort mv t) = (r, mv')"
  shows "\<exists>snap. reader_inv r snap mv' \<and> r \<noteq> 0 \<and> MVCCManager_getSnapshot mv' r = Inr snap \<and> \<not> sees mv' r snap t"
    and "MVCCManager_stateOfLocked mv' t = ABORTED"
proof -
  note f = begin_fields [OF assms(4)]
  have inv: "mvcc_inv (MVCCManager_abort mv t)" using mvcc_step_inv [OF mv_abort [OF assms(2)] assms(1)] by blast
  have lt: "t \<noteq> r" "r \<noteq> 0" using active_known(1) [OF assms(1,2)] f(1) assms(1) by (auto simp: mvcc_inv_def)
  let ?snap = "tx_snapshot (the (mv_transactions mv' r))"
  have rd: "reader_inv r ?snap mv'" using begin_reader_inv [OF inv _ assms(4)] assms(3) by simp
  obtain tx where "mv_transactions mv t = Some tx" using assms(2) by (auto simp: MVCCManager_activeIds_def)
  then show st: "MVCCManager_stateOfLocked mv' t = ABORTED" using lt f by (simp add: MVCCManager_stateOfLocked_def)
  then have "\<not> sees mv' r ?snap t" using lt by (simp add: sees_def is_self_def)
  then show "\<exists>snap. reader_inv r snap mv' \<and> r \<noteq> 0 \<and> MVCCManager_getSnapshot mv' r = Inr snap \<and> \<not> sees mv' r snap t"
    using rd lt(2) by (auto simp: reader_inv_def)
qed

section \<open>A transaction's statements\<close>

text \<open>What a transaction that begins after the ROLLBACK of \<open>t\<close> would read under a key.\<close>

definition after_rollback :: "u64 \<Rightarrow> string \<Rightarrow> table_state \<Rightarrow> string list option result" where
  "after_rollback t k s = (case Table_beginTxn (snd (Table_abortTxn t s)) of (Inl e, _) \<Rightarrow> Inl e | (Inr r, s') \<Rightarrow> read_row k r s')"

text \<open>
  A writing statement of transaction \<open>t\<close>. An INSERT over a key whose newest version carries no delete stamp is a step here only when nobody else has a row under the key.
\<close>

definition undo_step :: "u64 \<Rightarrow> table_state \<Rightarrow> table_event \<Rightarrow> table_state \<Rightarrow> bool" where
  "undo_step t s e s' \<longleftrightarrow> table_step s e s' \<and> write_of e = Some t \<and> (\<forall>k. overwrites e k s \<longrightarrow> after_rollback t k s = Inr None)"

lemma same_txns_rollback:
  assumes "same_txns mv mv1" "MVCCManager_begin (MVCCManager_abort mv t) = (r, mvr)" "MVCCManager_begin (MVCCManager_abort mv1 t) = (r1, mvr1)"
  shows "r1 = r" "same_txns mvr mvr1"
proof -
  let ?a = "MVCCManager_abort mv t" and ?b = "MVCCManager_abort mv1 t"
  have eq: "mv_transactions ?b = mv_transactions ?a" "tm_next_txn_id (mv_txns ?b) = tm_next_txn_id (mv_txns ?a)"
    using assms(1) by (simp_all add: same_txns_def cong: option.case_cong)
  then have "MVCCManager_activeIds ?b = MVCCManager_activeIds ?a" by (simp only: MVCCManager_activeIds_def)
  then show "r1 = r" "same_txns mvr mvr1"
    using begin_fields [OF assms(2)] begin_fields [OF assms(3)] unfolding eq same_txns_def by simp_all
qed

text \<open>Any number of statements of one transaction, whether they succeed or not: the transactions stay as they are, and a reader that begins after the ROLLBACK sees the rows it would have seen before.\<close>

lemma txn_writes:
  assumes "runs (undo_step t) s es s'" "table_rel (fst s) vs" "mvcc_inv (snd s)" "t \<in> MVCCManager_activeIds (snd s)" "tm_next_txn_id (mv_txns (snd s)) \<noteq> - 1"
    and "MVCCManager_begin (MVCCManager_abort (snd s) t) = (r, mvr)" "MVCCManager_getSnapshot mvr r = Inr snap"
  shows "\<exists>vs'. table_rel (fst s') vs' \<and> same_txns (snd s) (snd s') \<and> reader_rows r snap mvr vs' = reader_rows r snap mvr vs"
  using assms
proof (induction arbitrary: vs mvr rule: runs.induct)
  case (runs_Nil s)
  then show ?case by auto
next
  case (runs_Cons s e s1 es s')
  obtain tb mv tb1 mv1 where s: "s = (tb, mv)" "s1 = (tb1, mv1)" by (metis surj_pair)
  have st: "table_allowed e (tb, mv)" "table_exec e (tb, mv) = (tb1, mv1)" "write_of e = Some t" "\<And>k. overwrites e k (tb, mv) \<Longrightarrow> after_rollback t k (tb, mv) = Inr None"
    using runs_Cons.hyps(1) s by (auto simp: undo_step_def elim: table_stepE)
  have pre: "table_rel tb vs" "mvcc_inv mv" "t \<in> MVCCManager_activeIds mv" "tm_next_txn_id (mv_txns mv) \<noteq> - 1" "MVCCManager_begin (MVCCManager_abort mv t) = (r, mvr)"
    using runs_Cons.prems s by simp_all
  note t0 = active_known(3) [OF pre(2,3)]
  obtain vs1 where vs1: "table_rel tb1 vs1" "statement t mv mv1"
      "\<forall>k. chain_write (active_txn t mv) (vs k) (vs1 k) \<or> overwrites e k (tb, mv) \<and> (\<exists>values rid. vs1 k = add_version values (active_txn t mv) rid [])"
    by (rule table_write [OF pre(1,2) st(1-3)])
  have same: "same_txns mv mv1" "active_txn t mv = t" using vs1(2) t0 by (auto simp: statement_def active_txn_def)
  have unseen: "\<not> sees mvr r snap t" using begin_after_abort(1) [OF pre(2-5)] runs_Cons.prems(6) by auto
  have row: "reader_rows r snap mvr vs k = None" if "overwrites e k (tb, mv)" for k
    using st(4) [OF that] read_rows_of(1) [OF pre(1) runs_Cons.prems(6), of k]
    by (simp add: after_rollback_def Table_beginTxn_def Table_abortTxn_def smodify_def pre(5))
  have rows: "reader_rows r snap mvr vs1 = reader_rows r snap mvr vs"
  proof
    fix k
    show "reader_rows r snap mvr vs1 k = reader_rows r snap mvr vs k"
      using vs1(3) [rule_format, of k] row [of k] row_write [OF _ unseen, of "vs k" "vs1 k"] row_add [OF unseen, of _ _ "[]"] same(2)
      by (auto simp: reader_rows_def seen_def row_of_def)
  qed
  obtain r1 mvr1 where b1: "MVCCManager_begin (MVCCManager_abort mv1 t) = (r1, mvr1)" by (rule prod.exhaust)
  note roll = same_txns_rollback [OF same(1) pre(5) b1]
  have "mvcc_inv mv1" "t \<in> MVCCManager_activeIds mv1" "tm_next_txn_id (mv_txns mv1) \<noteq> - 1" "MVCCManager_getSnapshot mvr1 r = Inr snap"
    using same(1) pre(2-4) same_txns_active [OF same(1)] same_txns_snapshot [OF roll(2)] runs_Cons.prems(6) by (auto simp: same_txns_def mvcc_inv_def)
  then obtain vs' where vs': "table_rel (fst s') vs'" "same_txns mv1 (snd s')" "reader_rows r snap mvr1 vs' = reader_rows r snap mvr1 vs1"
    using runs_Cons.IH [of vs1 mvr1] vs1(1) b1 roll(1) s by auto
  have "reader_rows r snap mvr1 = reader_rows r snap mvr" using same_txns_seen [OF roll(2)] by (intro ext) (simp add: reader_rows_def)
  then show ?case using vs' rows same_txns_trans [OF same(1) vs'(2)] s by auto
qed

text \<open>What a successful statement of an active transaction has done to the chains.\<close>

lemma statement_done:
  assumes "table_rel tb vs" "mvcc_inv mv" "t \<in> MVCCManager_activeIds mv" "bp_next_page_id (tab_pool tb) < MAX_PAGES" "int_sized values"
  shows "Table_insert values t (tb, mv) = (Inr rid, tb', mv') \<Longrightarrow> table_rel tb' (inserted values t rid vs) \<and> same_txns mv mv'"
    "Table_updateByKey k values t (tb, mv) = (Inr True, tb', mv') \<Longrightarrow> live (vs k) \<and> (\<exists>rid. table_rel tb' (updated k values t rid vs)) \<and> same_txns mv mv'"
proof -
  have t: "t \<noteq> 0" "active_txn t mv = t" using active_known(3) [OF assms(2,3)] by (auto simp: active_txn_def)
  show "table_rel tb' (inserted values t rid vs) \<and> same_txns mv mv'" if "Table_insert values t (tb, mv) = (Inr rid, tb', mv')"
    by (rule insert_run [OF assms(1,4,2,5), of t]) (use that t in \<open>auto simp: statement_def\<close>)
  show "live (vs k) \<and> (\<exists>rid. table_rel tb' (updated k values t rid vs)) \<and> same_txns mv mv'" if "Table_updateByKey k values t (tb, mv) = (Inr True, tb', mv')"
  proof (rule update_run [OF assms(1,4,2,5), of k t])
    fix res tb1 mv1 vs1 assume u: "Table_updateByKey k values t (tb, mv) = (res, tb1, mv1)" "table_rel tb1 vs1" "statement t mv mv1"
      and "\<And>b. res = Inr b \<Longrightarrow> b = live (vs k) \<and> (if b then \<exists>rid. vs1 = updated k values (active_txn t mv) rid vs else vs1 = vs)"
    from u(1) that this(4) [of True] have "live (vs k)" "\<exists>rid. vs1 = updated k values t rid vs" "tb1 = tb'" "mv1 = mv'" using t(2) by auto
    then show ?thesis using u t(1) by (auto simp: statement_def)
  qed
qed

lemma delete_done:
  assumes "table_rel tb vs" "mvcc_inv mv" "t \<in> MVCCManager_activeIds mv" "Table_deleteByKey k t (tb, mv) = (Inr True, tb', mv')"
  shows "live (vs k) \<and> table_rel tb' (deleted k t vs) \<and> same_txns mv mv'"
proof -
  note t = active_known(3) [OF assms(2,3)]
  show ?thesis
  proof (rule delete_run [OF assms(1,2), of k t])
    fix res tb1 mv1 vs1 assume u: "Table_deleteByKey k t (tb, mv) = (res, tb1, mv1)" "table_rel tb1 vs1" "statement t mv mv1"
      and "\<And>b. res = Inr b \<Longrightarrow> b = live (vs k) \<and> vs1 = (if b then deleted k (active_txn t mv) vs else vs)"
    from u(1) assms(4) this(4) [of True] have "live (vs k)" "vs1 = deleted k t vs" "tb1 = tb'" "mv1 = mv'" using t by (auto simp: active_txn_def)
    then show ?thesis using u t by (auto simp: statement_def)
  qed
qed

text \<open>A successful write of row \<open>values\<close> under key \<open>k\<close>.\<close>

definition wrote :: "string \<Rightarrow> string list \<Rightarrow> u64 \<Rightarrow> table_state \<Rightarrow> table_state \<Rightarrow> bool" where
  "wrote k values t s s' \<longleftrightarrow> k = hd values \<and> (\<exists>rid. Table_insert values t s = (Inr rid, s')) \<or> Table_updateByKey k values t s = (Inr True, s')"

lemma wrote_chain:
  assumes "table_rel tb vs" "mvcc_inv mv" "t \<in> MVCCManager_activeIds mv" "may_write t (tb, mv)" "int_sized values" "wrote k values t (tb, mv) (tb', mv')"
  obtains rid c where "table_rel tb' (vs(k := add_version values t rid c))" "same_txns mv mv'"
proof -
  have cap: "bp_next_page_id (tab_pool tb) < MAX_PAGES" using assms(4) by (simp add: may_write_def)
  show thesis
    using assms(6) that unfolding wrote_def
    by (auto dest!: statement_done(1,2) [OF assms(1-3) cap assms(5)] simp: inserted_def updated_def)
qed

section \<open>Statements that succeed\<close>

text \<open>
  A transaction that meets no row lock of another one, on a table whose index is in memory: every statement that names a row of the right size succeeds.
\<close>

definition alone :: "u64 \<Rightarrow> MVCCManager \<Rightarrow> bool" where
  "alone t mv \<longleftrightarrow> tables_agree (mv_lock_manager mv) \<and> deadlock_victims (mv_lock_manager mv) = {} \<and> (\<forall>rid. holder_of (mv_lock_manager mv) rid \<in> {None, Some t})"

lemma alone_locks: "mv_lock_manager mv' = mv_lock_manager mv \<Longrightarrow> alone t mv' = alone t mv"
  by (simp add: alone_def)

lemma alone_begin: "MVCCManager_begin mv = (r, mv') \<Longrightarrow> alone t mv' = alone t mv"
  by (rule alone_locks) (auto simp: MVCCManager_begin_def Let_def split: prod.splits)

lemma alone_end: "alone t mv \<Longrightarrow> alone r (MVCCManager_commit mv t)" "alone t mv \<Longrightarrow> alone r (MVCCManager_abort mv t)"
  by (auto simp: alone_def MVCCManager_commit_def MVCCManager_abort_def tables_agree_release releaseAll_fields releaseAll_holder split: prod.splits)

lemma acquire_alone:
  assumes "alone t mv"
  obtains mv' where "acquireExclusive rid t (tb, mv) = (Inr (), tb, mv')" "alone t mv'"
proof (cases "holder_of (mv_lock_manager mv) rid")
  case None
  let ?mv = "mv\<lparr>mv_lock_manager := LockManager_claim (mv_lock_manager mv) rid t\<rparr>"
  have "acquireExclusive rid t (tb, mv) = (Inr (), tb, ?mv)"
    using assms None by (simp add: alone_def acquireExclusive_def MVCCManager_acquireExclusive_def LockManager_acquireIter_def)
  moreover have "alone t ?mv"
    using assms tables_agree_claim [OF _ None] by (auto simp: alone_def) (auto simp: LockManager_claim_def)
  ultimately show thesis by (rule that)
next
  case (Some h)
  then have "h = t" using assms unfolding alone_def by (metis insert_iff option.distinct(1) option.inject singletonD)
  then show thesis
    by (intro that [of mv]) (use assms Some in \<open>auto simp: alone_def acquireExclusive_def MVCCManager_acquireExclusive_def LockManager_acquireIter_def\<close>)
qed

lemma on_heap_locks: "on_heap m (tb, mv) = (res, tb', mv') \<Longrightarrow> alone t mv' = alone t mv"
  by (rule alone_locks) (auto simp: on_heap_def split: prod.splits)

lemma small_sized: "Record_size (r :: Record) \<le> MAX_RECORD \<Longrightarrow> int_sized (rec_fields r)"
  unfolding int_sized_size by (rule small_counted)

lemma own_scope:
  assumes "t \<noteq> 0" "scope t False s = (Inr (x, b), tb, mv)"
  shows "auto_commit t scope s = (Inr x, tb, mv)"
  using assms auto_commit_run [of t "snd s" t "snd s" scope "fst s"] by (cases s) (simp add: value_of_def)

lemma insert_succeeds:
  assumes rel: "table_rel tb vs" and cap: "bp_next_page_id (tab_pool tb) < MAX_PAGES" and t: "t \<noteq> 0" "alone t mv"
    and v: "values \<noteq> []" "length values = length (tab_schema tb)" "Record_size (Record_new values t no_rid) \<le> MAX_RECORD"
    and new: "vs (hd values) = []" and im: "bt_im (tab_index tb) = None"
  obtains rid tb' mv' where "Table_insert values t (tb, mv) = (Inr rid, tb', mv')" "alone t mv'" "bt_im (tab_index tb') = None" "kept tb tb'"
proof -
  let ?k = "KString (hd values)"
  obtain ps where ps: "tree_rel STRING (tab_index tb) ps" "heads ps vs" using rel by (auto simp: table_rel_def)
  have none: "lookup_pair ?k ps = None" using ps(2) new by (simp add: heads_def)
  obtain rid tb1 mv1 where h: "on_heap (RecordManager_insertRecord PageManager_ops (Record_new values t no_rid) t) (tb, mv) = (Inr rid, tb1, mv1)" "same_index tb tb1"
    by (rule on_heap_insert [OF rel cap t(1), of "Record_new values t no_rid" mv]) (use v(3) small_sized [OF v(3)] in \<open>auto split: sum.splits\<close>)
  have idx: "tab_index tb1 = tab_index tb" using h(2) by (simp add: same_index_def)
  obtain tr where i: "BPlusTree_insert ?k (rid_page_id rid) (rid_slot_id rid) t (tab_index tb, mv_log mv1) = (Inr (), tr, mv_log mv1)" "bt_im tr = None"
    by (rule insert_rel [OF ps(1) index_key_string none, of "rid_page_id rid" "rid_slot_id rid" t "mv_log mv1"]) (use im in auto)
  have "insert_scope values t False (tb, mv) = (Inr (rid, True), tb1\<lparr>tab_index := tr\<rparr>, mv1)"
    using on_tree_search [OF rel, of "hd values" mv] new i(1) idx
    by (simp add: insert_scope_def Let_def sbind_cases sreturn_def h(1) on_tree_def guard_commit_ok)
  then have "Table_insert values t (tb, mv) = (Inr rid, tb1\<lparr>tab_index := tr\<rparr>, mv1)"
    using own_scope [OF t(1), of "insert_scope values"] v(1,2) by (simp add: Table_insert_def)
  then show thesis by (rule that) (use i(2) on_heap_locks [OF h(1)] t(2) same_index_kept [OF h(2)] in simp_all)
qed


lemma reinsert_succeeds:
  assumes rel: "table_rel tb vs" and cap: "bp_next_page_id (tab_pool tb) < MAX_PAGES" and t: "t \<noteq> 0" "alone t mv"
    and v: "values \<noteq> []" "length values = length (tab_schema tb)" "Record_size (Record_new values t no_rid) \<le> MAX_RECORD"
    and live: "live (vs (hd values))" and im: "bt_im (tab_index tb) = None"
  obtains rid tb' mv' where "Table_insert values t (tb, mv) = (Inr rid, tb', mv')" "alone t mv'"
proof -
  let ?k = "hd values" and ?r = "Record_new values t no_rid"
  obtain rid0 r0 rest where k: "vs ?k = (rid0, r0) # rest" "rec_delete_txn_id r0 = 0" using live by (auto simp: live_def split: list.splits)
  have st: "pool_ok (tab_pool tb)" "quiet (tab_pool tb)" "stored (table_heap tb) (vs ?k)" using rel by (simp_all add: table_rel_def)
  obtain mva where a: "acquireExclusive rid0 t (tb, mv) = (Inr (), tb, mva)" "alone t mva" by (rule acquire_alone [OF t(2)])
  obtain tb0 mv0 where s0: "on_heap (RecordManager_readRecord PageManager_ops rid0) (tb, mva) = (Inr r0, tb0, mv0)" "calm (tb, mva) (tb0, mv0)"
    by (rule on_heap_read [OF st(1,2)]) (use st(3) k in auto)
  note rel0 = calm_rel [OF s0(2) rel]
  have c0: "tab_index tb0 = tab_index tb" "bp_next_page_id (tab_pool tb0) < MAX_PAGES" using s0(2) cap by (auto simp: calm_def)
  obtain rid tb1 mv1 where h: "on_heap (RecordManager_insertRecord PageManager_ops ?r t) (tb0, mv0) = (Inr rid, tb1, mv1)" "same_index tb0 tb1"
    by (rule on_heap_insert [OF rel0 c0(2) t(1), of ?r mv0]) (use v(3) small_sized [OF v(3)] in \<open>auto split: sum.splits\<close>)
  have "alone t mv1" using on_heap_locks [OF h(1)] on_heap_locks [OF s0(1)] a(2) by simp
  then obtain mvb where b: "acquireExclusive rid t (tb1, mv1) = (Inr (), tb1, mvb)" "alone t mvb" by (rule acquire_alone)
  obtain ps where ps: "tree_rel STRING (tab_index tb) ps" "heads ps vs" using rel by (auto simp: table_rel_def)
  have found: "lookup_pair (KString ?k) ps \<noteq> None" using ps(2) k(1) by (simp add: heads_def)
  have idx: "tab_index tb1 = tab_index tb" using h(2) c0(1) by (simp add: same_index_def)
  obtain tr where i: "BPlusTree_update (KString ?k) (rid_page_id rid) (rid_slot_id rid) t (tab_index tb, mv_log mvb) = (Inr True, tr, mv_log mvb)"
    by (rule update_rel [OF ps(1) index_key_string, of ?k "rid_page_id rid" "rid_slot_id rid" t "mv_log mvb"]) (use im found in auto)
  have "insert_scope values t False (tb, mv) = (Inr (rid, True), tb1\<lparr>tab_index := tr\<rparr>, mvb)"
    using on_tree_search [OF rel, of ?k mv] k i idx
    by (simp add: insert_scope_def Let_def sbind_cases sreturn_def a(1) s0(1) h(1) b(1) on_tree_def guard_commit_ok)
  then have "Table_insert values t (tb, mv) = (Inr rid, tb1\<lparr>tab_index := tr\<rparr>, mvb)"
    using own_scope [OF t(1), of "insert_scope values"] v(1,2) by (simp add: Table_insert_def)
  then show thesis by (rule that) (rule b(2))
qed

lemma delete_succeeds:
  assumes rel: "table_rel tb vs" and t: "t \<noteq> 0" "alone t mv" and live: "live (vs k)"
  obtains tb' mv' where "Table_deleteByKey k t (tb, mv) = (Inr True, tb', mv')" "alone t mv'"
proof -
  obtain rid r rest where k: "vs k = (rid, r) # rest" "rec_delete_txn_id r = 0" using live by (auto simp: live_def split: list.splits)
  obtain mva where a: "acquireExclusive rid t (tb, mv) = (Inr (), tb, mva)" "alone t mva" by (rule acquire_alone [OF t(2)])
  obtain tb1 mv1 where h: "on_heap (RecordManager_markDeleted PageManager_ops rid t) (tb, mva) = (Inr True, tb1, mv1)"
    by (rule on_heap_mark [OF rel t(1) k(1), of mva]) (use k(2) in auto)
  have "delete_scope rid t False (tb, mv) = (Inr (True, True), tb1, mv1)"
    by (simp add: delete_scope_def sbind_cases sreturn_def a(1) h guard_commit_ok)
  then have "Table_deleteByKey k t (tb, mv) = (Inr True, tb1, mv1)"
    using own_scope [OF t(1), of "delete_scope rid"] on_tree_search [OF rel, of k mv] k(1) by (simp add: Table_deleteByKey_def sbind_cases)
  then show thesis by (rule that) (use on_heap_locks [OF h] a(2) in simp)
qed

section \<open>A first row\<close>

definition sample_txn :: MVCCManager where
  "sample_txn = snd (MVCCManager_begin sample_mvcc)"

lemma sample_txn_facts:
  "MVCCManager_begin sample_mvcc = (1, sample_txn)" "mvcc_inv sample_txn" "1 \<in> MVCCManager_activeIds sample_txn" "tm_next_txn_id (mv_txns sample_txn) = 2"
  "alone 1 sample_txn" "dom (mv_transactions sample_txn) = {1}"
proof -
  show b: "MVCCManager_begin sample_mvcc = (1, sample_txn)"
    using begin_fields(1) [OF surjective_pairing, of sample_mvcc] sample_mvcc_inv(2) by (metis prod.collapse sample_txn_def)
  note f = begin_fields [OF b]
  show "mvcc_inv sample_txn" using mvcc_step_inv [OF mv_begin [OF _ b] sample_mvcc_inv(1)] sample_mvcc_inv(2) by simp
  show "1 \<in> MVCCManager_activeIds sample_txn" "tm_next_txn_id (mv_txns sample_txn) = 2" using f by (simp_all add: MVCCManager_activeIds_def)
  have "alone 1 sample_mvcc" by (simp add: alone_def sample_mvcc_def MVCCManager_new_def LockManager_new_def tables_agree_def)
  then show "alone 1 sample_txn" using alone_begin [OF b] by simp
  show "dom (mv_transactions sample_txn) = {1}" using f(3) by (auto simp: sample_mvcc_def MVCCManager_new_def)
qed

abbreviation "ada \<equiv> [''1'', ''ada'']"
abbreviation "bob \<equiv> [''1'', ''bob'']"

lemma sample_sizes: "Record_size (Record_new ada t p) \<le> MAX_RECORD" "Record_size (Record_new bob t p) \<le> MAX_RECORD"
  by (simp_all add: Record_size_def Record_new_def MVCC_HEADER_SIZE_def MAX_RECORD_def page_consts)

lemma sample_sized: "int_sized ada" "int_sized bob"
  by (simp_all add: int_sized_def MVCC_HEADER_SIZE_def)

lemma sample_insert:
  obtains rid tb mv where "Table_insert ada 1 (empty_table, sample_txn) = (Inr rid, tb, mv)" "table_rel tb ((\<lambda>_. [])(''1'' := add_version ada 1 rid []))"
    "same_txns sample_txn mv" "alone 1 mv" "bt_im (tab_index tb) = None" "kept empty_table tb"
proof -
  have pool: "bp_next_page_id (tab_pool empty_table) < MAX_PAGES" using sample_store(2) by (simp add: empty_table_def)
  obtain rid tb mv where i: "Table_insert ada 1 (empty_table, sample_txn) = (Inr rid, tb, mv)" "alone 1 mv" "bt_im (tab_index tb) = None" "kept empty_table tb"
    by (rule insert_succeeds [OF empty_table_rel pool _ sample_txn_facts(5), of ada])
      (use sample_sizes in \<open>auto simp: empty_table_def users_schema_def BPlusTree_new_def\<close>)
  from statement_done(1) [OF empty_table_rel sample_txn_facts(2,3) pool sample_sized(1) i(1)]
  have "table_rel tb ((\<lambda>_. [])(''1'' := add_version ada 1 rid []))" "same_txns sample_txn mv" by (simp_all add: inserted_def live_def)
  with i show thesis by (intro that) auto
qed

abbreviation "ada_rows rid \<equiv> (\<lambda>_. [])(''1'' := add_version ada 1 rid [])"

text \<open>The row is committed and transaction 2 has begun.\<close>

lemma sample_committed:
  obtains rid tb mv where "table_rel tb (ada_rows rid)" "mvcc_inv mv" "2 \<in> MVCCManager_activeIds mv" "tm_next_txn_id (mv_txns mv) = 3" "mv_transactions mv 1 = None"
    "alone 2 mv" "bt_im (tab_index tb) = None" "bp_next_page_id (tab_pool tb) + 1 < MAX_PAGES" "tab_schema tb = users_schema"
    "\<exists>snap. MVCCManager_getSnapshot mv 2 = Inr snap \<and> sees mv 2 snap 1"
proof -
  obtain rid tb mv0 where i: "table_rel tb (ada_rows rid)" "same_txns sample_txn mv0" "alone 1 mv0" "bt_im (tab_index tb) = None" "kept empty_table tb"
    by (rule sample_insert)
  have act0: "mvcc_inv mv0" "1 \<in> MVCCManager_activeIds mv0" "tm_next_txn_id (mv_txns mv0) = 2"
    using i(2) sample_txn_facts(2,3,4) same_txns_active [OF i(2)] by (auto simp: same_txns_def mvcc_inv_def)
  obtain t mv where b: "MVCCManager_begin (MVCCManager_commit mv0 1) = (t, mv)" by (rule prod.exhaust)
  have t: "t = 2" "tm_next_txn_id (mv_txns mv) = 3" "mv_transactions mv 1 = None" using begin_fields [OF b] act0(3) by simp_all
  obtain snap where sn: "reader_inv 2 snap mv" "MVCCManager_getSnapshot mv 2 = Inr snap" "sees mv 2 snap 1"
    using begin_after_commit [OF act0(1,2) _ b] act0(3) t(1) by auto
  have "mvcc_inv mv" "2 \<in> MVCCManager_activeIds mv" using sn(1) by (auto simp: reader_inv_def state_active)
  moreover have "alone 2 mv" using alone_begin [OF b] alone_end(1) [OF i(3)] by simp
  moreover have "bp_next_page_id (tab_pool tb) + 1 < MAX_PAGES" "tab_schema tb = users_schema"
    using i(5) by (simp_all add: kept_def empty_table_def sample_pool_ok MAX_PAGES_def)
  ultimately show thesis using that i(1,4) t(2,3) sn(2,3) by blast
qed

text \<open>Transaction 2 has rolled back and transaction 3 has begun: it sees the row.\<close>

lemma sample_rolled_back:
  assumes "table_rel tb (ada_rows rid)" "mvcc_inv mv" "2 \<in> MVCCManager_activeIds mv" "tm_next_txn_id (mv_txns mv) = 3" "mv_transactions mv 1 = None" "same_txns mv mv1" "alone 2 mv1"
  obtains mv2 where "Table_beginTxn (snd (Table_abortTxn 2 (tb1, mv1))) = (Inr 3, tb1, mv2)" "may_begin (tb1, mv1)" "may_begin (tb1, mv2)" "alone 3 mv2" "mvcc_inv mv2"
    "read_row ''1'' 3 (tb, mv2) = Inr (Some ada)"
proof -
  have act1: "mvcc_inv mv1" "2 \<in> MVCCManager_activeIds mv1" "tm_next_txn_id (mv_txns mv1) = 3" "mv_transactions mv1 1 = None"
    using assms(2-6) same_txns_active [OF assms(6)] by (auto simp: same_txns_def mvcc_inv_def)
  obtain r mv2 where c: "MVCCManager_begin (MVCCManager_abort mv1 2) = (r, mv2)" by (rule prod.exhaust)
  have r: "r = 3" "tm_next_txn_id (mv_txns mv2) = 4" using begin_fields(1,2) [OF c] act1(3) by simp_all
  obtain snap where sn: "reader_inv 3 snap mv2" "MVCCManager_getSnapshot mv2 3 = Inr snap" using begin_after_abort(1) [OF act1(1,2) _ c] act1(3) r(1) by auto
  have "sees mv2 3 snap 1"
    using sn(2) act1(4) begin_fields(3) [OF c] r(1)
    by (auto simp: sees_def MVCCManager_getSnapshot_def MVCCManager_stateOfLocked_def MVCCManager_activeIds_def split: option.splits)
  then have "read_row ''1'' 3 (tb, mv2) = Inr (Some ada)"
    using read_rows_of(1) [OF assms(1) sn(2), of "''1''"] seen_added [of mv2 3 snap 1] by (simp add: reader_rows_def)
  moreover have "alone 3 mv2" using alone_begin [OF c] alone_end(2) [OF assms(7)] by simp
  moreover have "Table_beginTxn (snd (Table_abortTxn 2 (tb1, mv1))) = (Inr 3, tb1, mv2)" by (simp add: Table_beginTxn_def Table_abortTxn_def smodify_def c r(1))
  moreover have "may_begin (tb1, mv1)" "may_begin (tb1, mv2)" by (simp_all add: may_begin_def act1(3) r(2))
  ultimately show thesis using that sn(1) by (simp add: reader_inv_def)
qed

section \<open>Properties\<close>

text \<open>
  C4: a transaction reads its own writes, and a committed write is read by later transactions. After a successful INSERT or UPDATE of a key with a row of fewer than
  \<open>2 ^ 31 - 5\<close> bytes, the transaction
  reads exactly the new row under that key and what it read before under every other key; a transaction that begins after the commit reads the new row too.
\<close>
theorem Table_writes_read:
  assumes "table_rel tb vs" "mvcc_inv mv" "t \<in> MVCCManager_activeIds mv" "may_write t (tb, mv)" "may_begin (tb, mv)" "int_sized values" "wrote k values t (tb, mv) s'"
  shows "(\<forall>j. read_row j t s' = (if j = k then Inr (Some values) else read_row j t (tb, mv)))
    \<and> (case Table_beginTxn (snd (Table_commitTxn t s')) of (Inl _, _) \<Rightarrow> False | (Inr r, s'') \<Rightarrow> read_row k r s'' = Inr (Some values))"
proof -
  obtain tb' mv' where s': "s' = (tb', mv')" by (cases s')
  obtain rid c where w: "table_rel tb' (vs(k := add_version values t rid c))" "same_txns mv mv'"
    by (rule wrote_chain [OF assms(1-4,6), of k tb' mv']) (use assms(7) s' in auto)
  obtain snap where sn: "MVCCManager_getSnapshot mv t = Inr snap" using active_known(2) [OF assms(2,3)] by blast
  have sn': "MVCCManager_getSnapshot mv' t = Inr snap" using sn same_txns_snapshot [OF w(2)] by simp
  have "read_row j t s' = (if j = k then Inr (Some values) else read_row j t (tb, mv))" for j
    using read_rows_of(1) [OF w(1) sn', of j] read_rows_of(1) [OF assms(1) sn, of j] seen_added [OF sees_self [OF active_known(3) [OF assms(2,3)]]]
    by (auto simp: s' reader_rows_def same_txns_seen [OF w(2)])
  moreover obtain r mv2 where b: "MVCCManager_begin (MVCCManager_commit mv' t) = (r, mv2)" by (rule prod.exhaust)
  have act: "t \<in> MVCCManager_activeIds mv'" "mvcc_inv mv'" "tm_next_txn_id (mv_txns mv') \<noteq> - 1"
    using assms(2,3,5) w(2) same_txns_active [OF w(2)] by (auto simp: same_txns_def mvcc_inv_def may_begin_def)
  obtain snap2 where s2: "MVCCManager_getSnapshot mv2 r = Inr snap2" "sees mv2 r snap2 t" using begin_after_commit [OF act(2,1,3) b] by blast
  have "read_row k r (tb', mv2) = Inr (Some values)"
    using read_rows_of(1) [OF w(1) s2(1), of k] seen_added [OF s2(2)] by (simp add: reader_rows_def)
  then have "case Table_beginTxn (snd (Table_commitTxn t s')) of (Inl _, _) \<Rightarrow> False | (Inr r, s'') \<Rightarrow> read_row k r s'' = Inr (Some values)"
    by (simp add: s' Table_beginTxn_def Table_commitTxn_def smodify_def b)
  ultimately show ?thesis by blast
qed

theorem Table_writes_read_witness:
  "\<exists>s'. wrote ''1'' ada 1 (empty_table, sample_txn) s' \<and> read_row ''1'' 1 s' = Inr (Some ada) \<and> read_row ''2'' 1 s' = read_row ''2'' 1 (empty_table, sample_txn)"
proof -
  obtain rid tb mv where "Table_insert ada 1 (empty_table, sample_txn) = (Inr rid, tb, mv)" by (rule sample_insert)
  then have w: "wrote ''1'' ada 1 (empty_table, sample_txn) (tb, mv)" by (simp add: wrote_def)
  have m: "may_write 1 (empty_table, sample_txn)" "may_begin (empty_table, sample_txn)"
    using sample_store(2) sample_txn_facts(3,4) by (simp_all add: may_write_def may_begin_def empty_table_def)
  show ?thesis
    by (rule exI [of _ "(tb, mv)"]) (use Table_writes_read [OF empty_table_rel sample_txn_facts(2,3) m sample_sized(1) w] w in simp)
qed

text \<open>
  C3: a rolled-back transaction leaves no trace in what others read. Whatever statements a transaction ran, and whether they succeeded or failed on the way, a
  transaction that begins after its ROLLBACK reads, by key and by scan, the rows it would read had the statements never touched the table. Two conditions: rows have fewer
  than \<open>2 ^ 31 - 5\<close> bytes, and the transaction does not INSERT a key whose newest version carries no delete stamp while others have a row under the key. The source calls
  that use of INSERT unsupported, and the row is then lost for good, as the property after this one shows. Re-inserting a key the transaction inserted itself is covered.
\<close>
theorem Table_rollback:
  assumes "table_rel tb vs" "mvcc_inv mv" "t \<in> MVCCManager_activeIds mv" "may_begin (tb, mv)"
    and "runs (undo_step t) (tb, mv) es s1" "Table_beginTxn (snd (Table_abortTxn t s1)) = (Inr r, s2)"
  shows "\<exists>row rows. (\<forall>k. read_row k r s2 = Inr (row k) \<and> read_row k r (tb, snd s2) = Inr (row k))
    \<and> read_rows r s2 = Inr rows \<and> read_rows r (tb, snd s2) = Inr rows \<and> all_rows row rows"
proof -
  obtain tb1 mv1 where s1: "s1 = (tb1, mv1)" by (cases s1)
  obtain r0 mvr where b0: "MVCCManager_begin (MVCCManager_abort mv t) = (r0, mvr)" by (rule prod.exhaust)
  have ne: "tm_next_txn_id (mv_txns mv) \<noteq> - 1" using assms(4) by (simp add: may_begin_def)
  obtain snap where sn0: "MVCCManager_getSnapshot mvr r0 = Inr snap" using begin_after_abort(1) [OF assms(2,3) ne b0] by blast
  obtain vs1 where v: "table_rel tb1 vs1" "same_txns mv mv1" "reader_rows r0 snap mvr vs1 = reader_rows r0 snap mvr vs"
    using txn_writes [OF assms(5), of vs r0 mvr snap] assms(1-3) ne b0 sn0 s1 by auto
  obtain mv2 where b: "MVCCManager_begin (MVCCManager_abort mv1 t) = (r, mv2)" "s2 = (tb1, mv2)"
    using assms(6) by (auto simp: s1 Table_beginTxn_def Table_abortTxn_def smodify_def split: prod.splits)
  note roll = same_txns_rollback [OF v(2) b0 b(1)]
  have sn: "MVCCManager_getSnapshot mv2 r = Inr snap" using same_txns_snapshot [OF roll(2)] sn0 roll(1) by simp
  have "reader_rows r snap mv2 = reader_rows r0 snap mvr" using same_txns_seen [OF roll(2)] roll(1) by (intro ext) (simp add: reader_rows_def)
  then have "reader_rows r snap mv2 vs1 = reader_rows r snap mv2 vs" using v(3) by simp
  then show ?thesis
    using read_rows_of [OF v(1) sn] read_rows_of [OF assms(1) sn] all_rows_unique unfolding b(2) snd_conv by metis
qed

theorem Table_rollback_witness:
  "let s2 = snd (Table_beginTxn (snd (Table_abortTxn 1 (table_exec (TInsert 1 ada) (empty_table, sample_txn))))) in
     \<exists>row rows. (\<forall>k. read_row k 2 s2 = Inr (row k) \<and> read_row k 2 (empty_table, snd s2) = Inr (row k)) \<and> read_rows 2 s2 = Inr rows \<and> read_rows 2 (empty_table, snd s2) = Inr rows"
proof -
  let ?e = "TInsert 1 ada"
  obtain rid tb mv where i: "Table_insert ada 1 (empty_table, sample_txn) = (Inr rid, tb, mv)" "same_txns sample_txn mv" by (rule sample_insert)
  have m: "may_write 1 (empty_table, sample_txn)" "may_begin (empty_table, sample_txn)"
    using sample_store(2) sample_txn_facts(3,4) by (simp_all add: may_write_def may_begin_def empty_table_def)
  have "table_allowed ?e (empty_table, sample_txn)" using m(1) sample_sized(1) by simp
  moreover have "\<not> overwrites ?e k (empty_table, sample_txn)" for k by (simp add: live_key_live [OF empty_table_rel] live_def)
  ultimately have "undo_step 1 (empty_table, sample_txn) ?e (table_exec ?e (empty_table, sample_txn))" unfolding undo_step_def by (blast intro: table_stepI write_of.simps)
  then have run: "runs (undo_step 1) (empty_table, sample_txn) [?e] (tb, mv)" using runs_Cons [OF _ runs_Nil] i(1) by fastforce
  obtain r mv2 where b: "MVCCManager_begin (MVCCManager_abort mv 1) = (r, mv2)" by (rule prod.exhaust)
  have "r = 2" using begin_fields(1) [OF b] i(2) sample_txn_facts(4) by (simp add: same_txns_def)
  then have s2: "Table_beginTxn (snd (Table_abortTxn 1 (tb, mv))) = (Inr 2, tb, mv2)" by (simp add: Table_beginTxn_def Table_abortTxn_def smodify_def b)
  show ?thesis using Table_rollback [OF empty_table_rel sample_txn_facts(2,3) m(2) run s2] i(1) s2 by (simp add: Let_def) blast
qed

text \<open>
  C17: an INSERT of a key whose newest version carries no delete stamp takes the row away from everybody else, although its transaction has not committed. When
  such an INSERT succeeds, every other active transaction reads no row under the key from then on, whatever it read before, and when the inserting transaction rolls back,
  transactions that begin later read no row either.
\<close>
theorem Table_reinsert_loses_row:
  assumes "table_rel tb vs" "mvcc_inv mv" "t \<in> MVCCManager_activeIds mv" "may_write t (tb, mv)" "may_begin (tb, mv)" "int_sized values"
    and "live_key (hd values) (tb, mv)" "Table_insert values t (tb, mv) = (Inr rid, s1)"
  shows "(\<forall>r \<in> MVCCManager_activeIds mv - {t}. read_row (hd values) r s1 = Inr None) \<and> after_rollback t (hd values) s1 = Inr None"
proof -
  let ?k = "hd values"
  obtain tb1 mv1 where s1: "s1 = (tb1, mv1)" by (cases s1)
  have cap: "bp_next_page_id (tab_pool tb) < MAX_PAGES" using assms(4) by (simp add: may_write_def)
  have lv: "live (vs ?k)" using live_key_live [OF assms(1)] assms(7) by simp
  have d: "table_rel tb1 (inserted values t rid vs)" "same_txns mv mv1" using statement_done(1) [OF assms(1-3) cap assms(6)] assms(8) s1 by auto
  have chain: "inserted values t rid vs ?k = add_version values t rid []" using lv by (simp add: inserted_def)
  have gone: "read_row ?k r (tb1, m) = Inr None" if "MVCCManager_getSnapshot m r = Inr snap" "\<not> sees m r snap t" for m r snap
    using read_rows_of(1) [OF d(1) that(1), of ?k] row_add [OF that(2), of "values" rid "[]"] by (simp add: reader_rows_def chain) (simp add: seen_def row_of_def)
  have act: "mvcc_inv mv1" "MVCCManager_activeIds mv1 = MVCCManager_activeIds mv" "tm_next_txn_id (mv_txns mv1) \<noteq> - 1"
    using assms(2,5) d(2) same_txns_active [OF d(2)] by (auto simp: same_txns_def mvcc_inv_def may_begin_def)
  have "read_row ?k r s1 = Inr None" if r: "r \<in> MVCCManager_activeIds mv - {t}" for r
  proof -
    obtain snap where sn: "MVCCManager_getSnapshot mv1 r = Inr snap" using active_known(2) [OF act(1), of r] act(2) r by auto
    have "MVCCManager_stateOfLocked mv1 t = ACTIVE" using activeIds_state [of t mv1] act(2) assms(3) by simp
    then have "\<not> sees mv1 r snap t" using r by (auto simp: sees_def is_self_def)
    then show ?thesis using gone [OF sn] by (simp add: s1)
  qed
  moreover obtain r2 mv2 where b: "MVCCManager_begin (MVCCManager_abort mv1 t) = (r2, mv2)" by (rule prod.exhaust)
  have "\<exists>snap. MVCCManager_getSnapshot mv2 r2 = Inr snap \<and> \<not> sees mv2 r2 snap t" using begin_after_abort(1) [OF act(1) _ act(3) b] assms(3) act(2) by auto
  then have "after_rollback t ?k s1 = Inr None"
    using gone by (auto simp: after_rollback_def s1 Table_beginTxn_def Table_abortTxn_def smodify_def b)
  ultimately show ?thesis by blast
qed

theorem Table_reinsert_loses_row_witness:
  "\<exists>tb mv rid s1. after_rollback 2 ''1'' (tb, mv) = Inr (Some ada) \<and> Table_insert bob 2 (tb, mv) = (Inr rid, s1) \<and> after_rollback 2 ''1'' s1 = Inr None"
proof -
  obtain rid tb mv where i: "table_rel tb (ada_rows rid)" "mvcc_inv mv" "2 \<in> MVCCManager_activeIds mv" "tm_next_txn_id (mv_txns mv) = 3" "mv_transactions mv 1 = None"
    "alone 2 mv" "bt_im (tab_index tb) = None" "bp_next_page_id (tab_pool tb) + 1 < MAX_PAGES" "tab_schema tb = users_schema" by (rule sample_committed)
  have cap: "bp_next_page_id (tab_pool tb) < MAX_PAGES" using i(8) by simp
  have lv: "live (ada_rows rid (hd bob))" by (simp add: live_def add_version_def Record_new_def)
  obtain rid1 tb1 mv1 where u: "Table_insert bob 2 (tb, mv) = (Inr rid1, tb1, mv1)"
    by (rule reinsert_succeeds [OF i(1) cap _ i(6), of bob]) (use i(7,9) sample_sizes lv in \<open>auto simp: users_schema_def\<close>)
  have m: "may_write 2 (tb, mv)" "may_begin (tb, mv)" using cap i(3,4) by (simp_all add: may_write_def may_begin_def)
  have lk: "live_key (hd bob) (tb, mv)" using live_key_live [OF i(1)] lv by simp
  obtain mv2 where r: "Table_beginTxn (snd (Table_abortTxn 2 (tb, mv))) = (Inr 3, tb, mv2)" "read_row ''1'' 3 (tb, mv2) = Inr (Some ada)"
    by (rule sample_rolled_back [OF i(1-5) same_txns_refl i(6)])
  have "after_rollback 2 ''1'' (tb, mv) = Inr (Some ada)" using r by (simp add: after_rollback_def)
  moreover have "after_rollback 2 ''1'' (tb1, mv1) = Inr None" using Table_reinsert_loses_row [OF i(1-3) m sample_sized(2) lk u] by simp
  ultimately show ?thesis using u by blast
qed



text \<open>
  C40: a rolled-back DELETE freezes the row. When a transaction has deleted a row and rolled back, later transactions see the row again, but its newest version keeps the
  stamp of the deleter, and no DELETE and no UPDATE of the key by the next transaction succeeds.
\<close>
theorem Table_frozen_after_rollback:
  assumes "table_rel tb vs" "mvcc_inv mv" "t \<in> MVCCManager_activeIds mv" "Table_deleteByKey k t (tb, mv) = (Inr True, s1)"
    and "bp_next_page_id (tab_pool (fst s1)) < MAX_PAGES" "may_begin s1" "Table_beginTxn (snd (Table_abortTxn t s1)) = (Inr r, s2)"
  shows "read_row k r s2 = read_row k r (tb, snd s2) \<and> fst (Table_deleteByKey k r s2) \<noteq> Inr True \<and> fst (Table_updateByKey k values r s2) \<noteq> Inr True"
proof -
  obtain tb1 mv1 where s1: "s1 = (tb1, mv1)" by (cases s1)
  have u: "live (vs k)" "table_rel tb1 (deleted k t vs)" "same_txns mv mv1" using delete_done [OF assms(1-3), of k tb1 mv1] assms(4) s1 by auto
  obtain mv2 where b: "MVCCManager_begin (MVCCManager_abort mv1 t) = (r, mv2)" "s2 = (tb1, mv2)"
    using assms(7) by (auto simp: s1 Table_beginTxn_def Table_abortTxn_def smodify_def split: prod.splits)
  have act: "mvcc_inv mv1" "t \<in> MVCCManager_activeIds mv1" "tm_next_txn_id (mv_txns mv1) \<noteq> - 1"
    using assms(2,3,6) u(3) same_txns_active [OF u(3)] by (auto simp: same_txns_def mvcc_inv_def may_begin_def s1)
  obtain snap where sn: "reader_inv r snap mv2" "MVCCManager_getSnapshot mv2 r = Inr snap" "\<not> sees mv2 r snap t" using begin_after_abort(1) [OF act b(1)] by blast
  have inv: "mvcc_inv mv2" using sn(1) by (simp add: reader_inv_def)
  have dead: "\<not> live (deleted k t vs k)" using u(1) active_known(3) [OF assms(2,3)] by (auto simp: live_def deleted_def stamp_head_def split: list.splits prod.splits)
  have "read_row k r s2 = read_row k r (tb, snd s2)"
    using read_rows_of(1) [OF u(2) sn(2), of k] read_rows_of(1) [OF assms(1) sn(2), of k] row_stamp [OF u(1) sn(3)] by (simp add: b(2) reader_rows_def deleted_def)
  moreover have "fst (Table_deleteByKey k r s2) \<noteq> Inr True"
    by (rule delete_run [OF u(2) inv, of k r]) (use dead b(2) in auto)
  moreover have "fst (Table_updateByKey k values r s2) \<noteq> Inr True"
    by (rule update_run [OF u(2) _ inv, of k "values" r]) (use assms(5) s1 dead b(2) in auto)
  ultimately show ?thesis by blast
qed

theorem Table_frozen_after_rollback_witness:
  "\<exists>tb mv s1 s2. Table_deleteByKey ''1'' 2 (tb, mv) = (Inr True, s1) \<and> Table_beginTxn (snd (Table_abortTxn 2 s1)) = (Inr 3, s2)
     \<and> read_row ''1'' 3 s2 = Inr (Some ada) \<and> fst (Table_updateByKey ''1'' bob 3 s2) \<noteq> Inr True"
proof -
  obtain rid tb mv where i: "table_rel tb (ada_rows rid)" "mvcc_inv mv" "2 \<in> MVCCManager_activeIds mv" "tm_next_txn_id (mv_txns mv) = 3" "mv_transactions mv 1 = None"
    "alone 2 mv" "bt_im (tab_index tb) = None" "bp_next_page_id (tab_pool tb) + 1 < MAX_PAGES" by (rule sample_committed)
  obtain tb1 mv1 where d: "Table_deleteByKey ''1'' 2 (tb, mv) = (Inr True, tb1, mv1)" "alone 2 mv1"
    by (rule delete_succeeds [OF i(1) _ i(6), of "''1''"]) (simp_all add: live_def add_version_def Record_new_def)
  have d1: "same_txns mv mv1" using delete_done [OF i(1-3) d(1)] by blast
  have "kept tb tb1" by (rule delete_run [OF i(1,2), of "''1''" 2]) (use d(1) in auto)
  then have cap: "bp_next_page_id (tab_pool (fst (tb1, mv1))) < MAX_PAGES" using i(8) by (simp add: kept_def)
  obtain mv2 where r: "Table_beginTxn (snd (Table_abortTxn 2 (tb1, mv1))) = (Inr 3, tb1, mv2)" "may_begin (tb1, mv1)" "read_row ''1'' 3 (tb, mv2) = Inr (Some ada)"
    by (rule sample_rolled_back [OF i(1-5) d1 d(2)])
  show ?thesis
    using Table_frozen_after_rollback [OF i(1-3) d(1) cap r(2,1), of bob] d(1) r(1,3)
    by (intro exI [of _ tb] exI [of _ mv] exI [of _ "(tb1, mv1)"] exI [of _ "(tb1, mv2)"]) simp
qed

end
