(* ===== verification/Sql_Select.thy ===== *)
theory Sql_Select
  imports Sql_Safety Table_Reads
begin

text \<open>
  SELECT against its relational meaning (\<open>executor.cpp\<close>): the rows the transaction sees, filtered by the condition and projected on the columns, whichever
  of the two paths of \<open>execSelect\<close> computes them, the search for one key or the scan of the whole index.
\<close>

section \<open>The meaning of SELECT\<close>

text \<open>
  Conditions, independent of the comparison the executor runs: the six operators over a strict order, numbers for columns of type \<open>int\<close>, and the lexicographic order of
  the byte strings for all others.
\<close>

fun op_rel :: "ComparisonOp \<Rightarrow> ('a \<Rightarrow> 'a \<Rightarrow> bool) \<Rightarrow> 'a \<Rightarrow> 'a \<Rightarrow> bool" where
  "op_rel EQ lt a b \<longleftrightarrow> a = b"
| "op_rel NEQ lt a b \<longleftrightarrow> a \<noteq> b"
| "op_rel LT lt a b \<longleftrightarrow> lt a b"
| "op_rel LTE lt a b \<longleftrightarrow> lt a b \<or> a = b"
| "op_rel GT lt a b \<longleftrightarrow> lt b a"
| "op_rel GTE lt a b \<longleftrightarrow> lt b a \<or> a = b"

definition string_less :: "string \<Rightarrow> string \<Rightarrow> bool" where
  "string_less s t \<longleftrightarrow> (s, t) \<in> lexord {(c, d). (of_char c :: nat) < of_char d}"

lemma string_less_simps [simp, code]:
  "string_less s [] \<longleftrightarrow> False" "string_less [] (d # t) \<longleftrightarrow> True"
  "string_less (c # s) (d # t) \<longleftrightarrow> (of_char c :: nat) < of_char d \<or> c = d \<and> string_less s t"
  by (simp_all add: string_less_def)

text \<open>The value of column type \<open>ty\<close> meets the condition; \<open>comparable\<close> when the condition can be decided: the texts of an \<open>int\<close> column are 64-bit numbers.\<close>

definition comparable :: "string \<Rightarrow> WhereClause \<Rightarrow> string \<Rightarrow> bool" where
  "comparable ty wc v \<longleftrightarrow> (normalizeType ty = ''int'' \<longrightarrow> ok (stoll v) \<and> ok (stoll (wc_literal wc)))"

definition holds :: "string \<Rightarrow> WhereClause \<Rightarrow> string \<Rightarrow> bool" where
  "holds ty wc v \<longleftrightarrow> (if normalizeType ty = ''int''
     then (case (stoll v, stoll (wc_literal wc)) of (Inr a, Inr b) \<Rightarrow> op_rel (wc_op wc) (<) a b | _ \<Rightarrow> False)
     else op_rel (wc_op wc) string_less v (wc_literal wc))"

text \<open>A row meets the condition on its column \<open>i\<close>.\<close>

definition meets :: "Schema \<Rightarrow> WhereClause option \<Rightarrow> nat \<Rightarrow> string list \<Rightarrow> bool" where
  "meets schema w i row \<longleftrightarrow> (\<forall>wc. w = Some wc \<longrightarrow> holds (co_type (schema ! i)) wc (row ! i))"

definition decides :: "Schema \<Rightarrow> WhereClause option \<Rightarrow> nat \<Rightarrow> string list \<Rightarrow> bool" where
  "decides schema w i row \<longleftrightarrow> (\<forall>wc. w = Some wc \<longrightarrow> comparable (co_type (schema ! i)) wc (row ! i))"

definition relational_select :: "Schema \<Rightarrow> WhereClause option \<Rightarrow> nat \<Rightarrow> nat list \<Rightarrow> (Key \<times> string list) list \<Rightarrow> string list list" where
  "relational_select schema w i ps rows = map (\<lambda>(k, row). map ((!) row) ps) (filter (\<lambda>(k, row). meets schema w i row) rows)"

section \<open>The executor's comparison\<close>

lemma string_compare_less: "string_compare s t < 0 \<longleftrightarrow> string_less s t"
proof (induction s t rule: string_compare.induct)
  case (4 a as b bs)
  have "a = b" if "(of_char a :: nat) = of_char b" using that by simp
  then show ?case using 4 by (auto simp: not_less)
qed simp_all

lemma evalWhere_holds:
  assumes "comparable ty wc v"
  shows "evalWhere v (wc_op wc) (wc_literal wc) ty = Inr (holds ty wc v)"
proof (cases "normalizeType ty = ''int''")
  case True
  then obtain a b where "stoll v = Inr a" "stoll (wc_literal wc) = Inr b" using assms by (auto simp: comparable_def ok_def)
  then show ?thesis using True by (cases "wc_op wc") (auto simp: evalWhere_def holds_def)
next
  case False
  have gt: "string_compare v t > 0 \<longleftrightarrow> string_less t v" for t using string_compare_less [of t v] string_compare_swap [of t v] by simp
  have "compare_with cmp (string_compare v t) 0 = op_rel cmp string_less v t" for cmp t
    using string_compare_less [of v t] gt [of t] by (cases cmp) (auto simp: le_less)
  then show ?thesis using False by (simp add: evalWhere_def holds_def)
qed

section \<open>The scan path\<close>

lemma mapE_total: "(\<And>x. x \<in> set xs \<Longrightarrow> f x = Inr (g x)) \<Longrightarrow> mapE f xs = Inr (map g xs)"
  by (induction xs) auto

lemma project_total: "\<forall>i \<in> set ps. i < length (rec_fields r) \<Longrightarrow> project ps r = Inr (map ((!) (rec_fields r)) ps)"
  by (auto simp: project_def vec_at_def intro: mapE_total)

lemma matches_holds:
  assumes "where_index schema w = Inr i" "length (rec_fields r) = length schema" "decides schema w i (rec_fields r)"
  shows "row_matches schema w i r = Inr (meets schema w i (rec_fields r))"
proof (cases w)
  case (Some wc)
  then have "columnIndex schema (wc_column wc) = Inr i" using assms(1) by (simp add: where_index_def)
  then show ?thesis using Some assms(2,3) columnIndex_bound evalWhere_holds by (simp add: row_matches_def meets_def decides_def vec_at_def)
qed (simp add: row_matches_def meets_def)

lemma select_loop_relational:
  assumes "where_index schema w = Inr i" "\<forall>j \<in> set ps. j < length schema"
    and "\<forall>(k, r) \<in> set rs. length (rec_fields r) = length schema \<and> decides schema w i (rec_fields r)"
  shows "select_loop schema w i ps rs = Inr (relational_select schema w i ps (map (\<lambda>(k, r). (k, rec_fields r)) rs))"
  using assms(3)
proof (induction rs)
  case (Cons x rs)
  obtain k r where x: "x = (k, r)" by (cases x)
  then have "row_matches schema w i r = Inr (meets schema w i (rec_fields r))" "project ps r = Inr (map ((!) (rec_fields r)) ps)"
    using Cons.prems assms(2) matches_holds [OF assms(1), of r] project_total [of ps r] by auto
  then show ?case using Cons x by (simp add: relational_select_def)
qed (simp add: relational_select_def)

section \<open>The search path\<close>

lemma filter_key:
  assumes "all_rows see rows" "\<forall>(k, row) \<in> set rows. P (k, row) \<longleftrightarrow> k = KString key"
  shows "filter P rows = (case see key of None \<Rightarrow> [] | Some row \<Rightarrow> [(KString key, row)])"
proof -
  have d: "distinct (map (\<lambda>x. rank (fst x)) rows)" and set: "set rows = {(KString k, r) | k r. see k = Some r}"
    using assms(1) by (auto simp: all_rows_def strict_sorted_iff)
  have f: "set (filter P rows) = (case see key of None \<Rightarrow> {} | Some row \<Rightarrow> {(KString key, row)})"
    using assms(2) set by (auto split: option.splits)
  have "distinct (filter P rows)" using d by (simp add: distinct_map)
  then show ?thesis
  proof (cases "see key")
    case (Some row)
    then have "set (filter P rows) = set [(KString key, row)]" using f by simp
    moreover have "sorted (map (\<lambda>x. rank (fst x)) (filter P rows))" "distinct (map (\<lambda>x. rank (fst x)) (filter P rows))"
      using assms(1) by (auto simp: all_rows_def strict_sorted_iff sorted_filter distinct_map_filter)
    ultimately show ?thesis using Some map_sorted_distinct_set_unique [of "\<lambda>x. rank (fst x)" "filter P rows" "[(KString key, row)]"]
      by (simp add: distinct_map del: set_filter)
  next
    case None
    then have "set (filter P rows) = {}" using f by simp
    then show ?thesis using None by (simp only: set_empty option.case)
  qed
qed

lemma key_condition:
  assumes "isPrimaryKeyEquality schema wc" "normalizeType (co_type (hd schema)) \<noteq> ''int''" "length row = length schema"
    and "where_index schema (Some wc) = Inr i"
  shows "meets schema (Some wc) i row \<longleftrightarrow> hd row = wc_literal wc"
proof -
  have ne: "schema \<noteq> []" "row \<noteq> []" using assms by (auto simp: isPrimaryKeyEquality_def)
  have "columnIndex schema (wc_column wc) = Inr 0"
    using assms(1) ne(1) by (cases schema) (auto simp: isPrimaryKeyEquality_def columnIndex_def upt_conv_Cons simp del: upt_Suc)
  then have "i = 0" using assms(4) by (simp add: where_index_def)
  then show ?thesis using assms(1,2) ne by (simp add: meets_def holds_def isPrimaryKeyEquality_def hd_conv_nth)
qed

section \<open>Properties\<close>

text \<open>
  C5: SELECT returns its relational meaning, which is stated with an order on numbers and strings of its own. When the columns of the statement exist and the condition can be decided
  on every row the transaction sees (the values of an \<open>int\<close> column are numbers), SELECT returns, in key order, the projections of exactly those rows that meet the condition, and
  changes no row. For an equality on the first column, where the code searches the index for the literal instead of scanning, two more conditions: the column is not of type \<open>int\<close>, and
  every row is stored under the value of its first column, as INSERT stores it. Without them search and scan differ: \<open>'01'\<close> and \<open>'1'\<close> are the same number and different keys, and an UPDATE
  of the first column leaves the row under its old key.
\<close>
theorem Select_relational:
  assumes "table_rel tb vs" "MVCCManager_getSnapshot mv t = Inr snap" "read_rows t (tb, mv) = Inr rows"
    and "select_projection (tab_schema tb) (se_columns stmt) = Inr ps" "where_index (tab_schema tb) (se_where stmt) = Inr i"
    and "\<forall>(k, row) \<in> set rows. length row = length (tab_schema tb) \<and> decides (tab_schema tb) (se_where stmt) i row"
    and "\<forall>wc. se_where stmt = Some wc \<and> isPrimaryKeyEquality (tab_schema tb) wc \<longrightarrow>
        normalizeType (co_type (hd (tab_schema tb))) \<noteq> ''int'' \<and> (\<forall>(k, row) \<in> set rows. k = KString (hd row))"
  shows "\<exists>s'. select_on stmt t (tb, mv) = (Inr (QueryResult_new\<lparr>qr_columns := map (\<lambda>j. co_name (tab_schema tb ! j)) ps,
      qr_rows := relational_select (tab_schema tb) (se_where stmt) i ps rows\<rparr>), s') \<and> (\<forall>k. read_row k t s' = read_row k t (tb, mv))"
proof -
  let ?schema = "tab_schema tb" and ?see = "\<lambda>k. seen mv t snap (vs k)"
  have pl: "\<forall>j \<in> set ps. j < length ?schema" using projection_bound [OF assms(4)] by blast
  obtain rs s1 where scan: "Table_scanAll t (tb, mv) = (Inr rs, s1)" "calm (tb, mv) s1" "all_rows ?see rs" using scanAll_rows [OF assms(1,2)] by blast
  have rows: "rows = map (\<lambda>(k, r). (k, rec_fields r)) rs" using assms(3) scan(1) by (simp add: read_rows_def)
  have same: "read_row k t s' = read_row k t (tb, mv)" if "calm (tb, mv) s'" for s' k
  proof -
    obtain tb' mv' where s': "s' = (tb', mv')" by (cases s')
    have st: "same_txns mv mv'" using that s' by (simp add: calm_def)
    have "table_rel tb' vs" using that s' calm_rel assms(1) by blast
    then show ?thesis
      using read_rows_of(1) [of tb' vs mv' t snap k] read_rows_of(1) [OF assms(1,2), of k] assms(2) same_txns_snapshot [OF st] same_txns_seen [OF st]
      by (simp add: s' reader_rows_def)
  qed
  have "\<exists>s'. select_rows ?schema (se_where stmt) ps t (tb, mv) = (Inr (relational_select ?schema (se_where stmt) i ps rows), s') \<and> calm (tb, mv) s'"
  proof (cases "\<exists>wc. se_where stmt = Some wc \<and> isPrimaryKeyEquality ?schema wc")
    case True
    then obtain wc where wc: "se_where stmt = Some wc" "isPrimaryKeyEquality ?schema wc" by blast
    have key: "normalizeType (co_type (hd ?schema)) \<noteq> ''int''" "\<forall>(k, row) \<in> set rows. k = KString (hd row)" using assms(7) wc by auto
    obtain s' where g: "Table_getByKey (wc_literal wc) t (tb, mv) = (Inr (?see (wc_literal wc)), s')" "calm (tb, mv) s'" using getByKey_seen [OF assms(1,2)] by blast
    have ar: "all_rows (\<lambda>k. row_of (?see k)) rows" using all_rows_fields [OF scan(3)] rows by simp
    have "filter (\<lambda>(k, row). meets ?schema (se_where stmt) i row) rows
        = (case row_of (?see (wc_literal wc)) of None \<Rightarrow> [] | Some row \<Rightarrow> [(KString (wc_literal wc), row)])"
    proof (rule filter_key [OF ar], clarify)
      fix k row assume m: "(k, row) \<in> set rows"
      then have "k = KString (hd row)" "length row = length ?schema" using key(2) assms(6) by auto
      then show "meets ?schema (se_where stmt) i row \<longleftrightarrow> k = KString (wc_literal wc)"
        using key_condition [OF wc(2) key(1), of row i] assms(5) wc(1) by simp
    qed
    moreover have "length (rec_fields r) = length ?schema" if "?see (wc_literal wc) = Some r" for r
      using assms(6) ar that by (fastforce simp: all_rows_def row_of_def)
    ultimately have "relational_select ?schema (se_where stmt) i ps rows = (case ?see (wc_literal wc) of None \<Rightarrow> [] | Some r \<Rightarrow> [map ((!) (rec_fields r)) ps])"
        "\<forall>r. ?see (wc_literal wc) = Some r \<longrightarrow> project ps r = Inr (map ((!) (rec_fields r)) ps)"
      using pl project_total by (auto simp: relational_select_def row_of_def split: option.splits)
    then show ?thesis using g wc by (cases s') (auto simp: select_rows_def sbind_cases sreturn_def slift_def split: option.splits)
  next
    case False
    have "\<forall>(k, r) \<in> set rs. length (rec_fields r) = length ?schema \<and> decides ?schema (se_where stmt) i (rec_fields r)"
      using assms(6) rows by fastforce
    from select_loop_relational [OF assms(5) pl this] show ?thesis
      using False scan(1,2) assms(5) rows
      by (cases "se_where stmt") (auto simp: select_rows_def where_index_def sbind_cases slift_def)
  qed
  then show ?thesis
    using same assms(4) by (auto simp: select_on_def Table_getSchema_def sbind_cases sreturn_def slift_def)
qed

lemma sample_selected:
  obtains rid tb mv where "table_rel tb (ada_rows rid)" "mvcc_inv mv" "2 \<in> MVCCManager_activeIds mv" "read_rows 2 (tb, mv) = Inr [(KString ''1'', ada)]" "tab_schema tb = users_schema"
proof -
  obtain rid tb mv where i: "table_rel tb (ada_rows rid)" "mvcc_inv mv" "2 \<in> MVCCManager_activeIds mv" "tab_schema tb = users_schema"
    "\<exists>snap. MVCCManager_getSnapshot mv 2 = Inr snap \<and> sees mv 2 snap 1" by (rule sample_committed)
  then obtain snap where sn: "MVCCManager_getSnapshot mv 2 = Inr snap" "sees mv 2 snap 1" by blast
  have see: "reader_rows 2 snap mv (ada_rows rid) = (\<lambda>k. if k = ''1'' then Some ada else None)"
    using seen_added [OF sn(2)] by (simp add: reader_rows_def fun_eq_iff seen_def row_of_def)
  obtain rows where "read_rows 2 (tb, mv) = Inr rows" "all_rows (reader_rows 2 snap mv (ada_rows rid)) rows" using read_rows_of(2) [OF i(1) sn(1)] by blast
  moreover have "all_rows (reader_rows 2 snap mv (ada_rows rid)) [(KString ''1'', ada)]" unfolding see by (auto simp: all_rows_def split: if_splits)
  ultimately show thesis using that i(1-4) all_rows_unique by metis
qed

theorem Select_relational_witness:
  "\<exists>tb mv s'. select_on \<lparr>se_table_name = ''users'', se_columns = [''name''], se_where = Some \<lparr>wc_column = ''name'', wc_op = GTE, wc_literal = ''a''\<rparr>\<rparr> 2 (tb, mv)
     = (Inr (QueryResult_new\<lparr>qr_columns := [''name''], qr_rows := [[''ada'']]\<rparr>), s')"
proof -
  let ?stmt = "\<lparr>se_table_name = ''users'', se_columns = [''name''], se_where = Some \<lparr>wc_column = ''name'', wc_op = GTE, wc_literal = ''a''\<rparr>\<rparr>"
  obtain rid tb mv where i: "table_rel tb (ada_rows rid)" "mvcc_inv mv" "2 \<in> MVCCManager_activeIds mv" "read_rows 2 (tb, mv) = Inr [(KString ''1'', ada)]" "tab_schema tb = users_schema"
    by (rule sample_selected)
  obtain snap where sn: "MVCCManager_getSnapshot mv 2 = Inr snap" using active_known(2) [OF i(2,3)] by blast
  have h: "decides users_schema (se_where ?stmt) 1 ada" by (simp add: decides_def comparable_def users_schema_def normalizeType_def tolower_def)
  have p: "select_projection (tab_schema tb) (se_columns ?stmt) = Inr [1]" unfolding i(5) by code_simp
  have w: "where_index (tab_schema tb) (se_where ?stmt) = Inr 1" unfolding i(5) by code_simp
  have n: "\<not> isPrimaryKeyEquality (tab_schema tb) (the (se_where ?stmt))" unfolding i(5) by code_simp
  have m: "meets users_schema (se_where ?stmt) 1 ada" by (simp add: meets_def holds_def users_schema_def normalizeType_def tolower_def)
  have q: "relational_select users_schema (se_where ?stmt) 1 [1] [(KString ''1'', ada)] = [[''ada'']]"
    using m by (simp add: relational_select_def)
  have c: "map (\<lambda>j. co_name (users_schema ! j)) [1] = [''name'']" by code_simp
  have "\<exists>s'. select_on ?stmt 2 (tb, mv) = (Inr (QueryResult_new\<lparr>qr_columns := map (\<lambda>j. co_name (tab_schema tb ! j)) [1],
      qr_rows := relational_select (tab_schema tb) (se_where ?stmt) 1 [1] [(KString ''1'', ada)]\<rparr>), s') \<and> (\<forall>k. read_row k 2 s' = read_row k 2 (tb, mv))"
    by (rule Select_relational [OF i(1) sn i(4) p w]) (use h n in \<open>auto simp: i(5) users_schema_def\<close>)
  then show ?thesis unfolding i(5) q c by blast
qed

end
