(* ===== verification/Latches.thy ===== *)
theory Latches
  imports Prelude
begin

text \<open>
  The node latches (\<open>latch.hpp\<close>, \<open>latchhandle.hpp\<close>): the reader-writer spin latch, whose calls are cut at every access to one of its two
  atomics, and the RAII handles that call it. Any number of handles run interleaved, on any number of latches. The guards \<open>SharedLatchGuard\<close> and
  \<open>ExclusiveLatchGuard\<close> are handles whose mode never changes. The memory orders are those of a sequentially consistent execution.
  The properties are mutual exclusion, and the priority of waiting writers over new readers.
\<close>

section \<open>The latch\<close>

record RWSpinLatch =
  lt_state :: u32
  lt_waiting_writers :: u32

definition RWSpinLatch_new :: RWSpinLatch where
  "RWSpinLatch_new = \<lparr>lt_state = 0, lt_waiting_writers = 0\<rparr>"

text \<open>
  Where a call of \<open>lockShared\<close> or \<open>lock\<close> stands: before the load of \<open>waiting_writers\<close>, before the load of \<open>state\<close>, before the exchange with the
  expected value it loaded; before the announcement, before the exchange, before taking the announcement back. \<open>compare_exchange_weak\<close> may
  fail for no reason: \<open>spurious\<close> says whether it does. The result \<open>None\<close> means that the call has returned.
\<close>

datatype shared_pc = SCheck | SLoad | SCas u32
datatype exclusive_pc = XAnnounce | XCas | XRetract

definition is_positive :: "u32 \<Rightarrow> bool" where
  "is_positive w \<longleftrightarrow> 0 < sint w"

fun RWSpinLatch_lockShared :: "bool \<Rightarrow> shared_pc \<Rightarrow> RWSpinLatch \<Rightarrow> shared_pc option \<times> RWSpinLatch" where
  "RWSpinLatch_lockShared spurious SCheck l = (Some (if is_positive (lt_waiting_writers l) then SCheck else SLoad), l)"
| "RWSpinLatch_lockShared spurious SLoad l = (Some (SCas (lt_state l)), l)"
| "RWSpinLatch_lockShared spurious (SCas expected) l =
     (if 0 \<le> sint expected \<and> \<not> spurious \<and> lt_state l = expected then (None, l\<lparr>lt_state := expected + 1\<rparr>) else (Some SCheck, l))"

definition RWSpinLatch_unlockShared :: "RWSpinLatch \<Rightarrow> RWSpinLatch" where
  "RWSpinLatch_unlockShared l = l\<lparr>lt_state := lt_state l - 1\<rparr>"

fun RWSpinLatch_lock :: "bool \<Rightarrow> exclusive_pc \<Rightarrow> RWSpinLatch \<Rightarrow> exclusive_pc option \<times> RWSpinLatch" where
  "RWSpinLatch_lock spurious XAnnounce l = (Some XCas, l\<lparr>lt_waiting_writers := lt_waiting_writers l + 1\<rparr>)"
| "RWSpinLatch_lock spurious XCas l =
     (if \<not> spurious \<and> lt_state l = 0 then (Some XRetract, l\<lparr>lt_state := - 1\<rparr>) else (Some XCas, l))"
| "RWSpinLatch_lock spurious XRetract l = (None, l\<lparr>lt_waiting_writers := lt_waiting_writers l - 1\<rparr>)"

definition RWSpinLatch_tryLock :: "RWSpinLatch \<Rightarrow> bool \<times> RWSpinLatch" where
  "RWSpinLatch_tryLock l = (if lt_state l = 0 then (True, l\<lparr>lt_state := - 1\<rparr>) else (False, l))"

definition RWSpinLatch_unlock :: "RWSpinLatch \<Rightarrow> RWSpinLatch" where
  "RWSpinLatch_unlock l = l\<lparr>lt_state := 0\<rparr>"

section \<open>Handles\<close>

text \<open>A latch is named by the number of the object that embeds it. A handle whose constructor still runs is in a call of its latch.\<close>

record LatchHandle =
  lh_node :: "nat option"
  lh_exclusive :: bool

datatype handle_pc = Ready | Sharing shared_pc | Locking exclusive_pc

type_synonym latch_memory = "nat \<Rightarrow> RWSpinLatch"

definition LatchHandle_empty :: LatchHandle where
  "LatchHandle_empty = \<lparr>lh_node = None, lh_exclusive = False\<rparr>"

definition LatchHandle_new :: "nat option \<Rightarrow> bool \<Rightarrow> LatchHandle \<times> handle_pc" where
  "LatchHandle_new n exclusive =
     (\<lparr>lh_node = n, lh_exclusive = exclusive\<rparr>, if n = None then Ready else if exclusive then Locking XAnnounce else Sharing SCheck)"

definition LatchHandle_tryAcquireExclusive :: "nat option \<Rightarrow> latch_memory \<Rightarrow> LatchHandle \<times> latch_memory" where
  "LatchHandle_tryAcquireExclusive n mem = (case n of None \<Rightarrow> (LatchHandle_empty, mem) | Some a \<Rightarrow>
     (case RWSpinLatch_tryLock (mem a) of (got, l) \<Rightarrow>
       if got then (\<lparr>lh_node = n, lh_exclusive = True\<rparr>, mem(a := l)) else (LatchHandle_empty, mem(a := l))))"

definition LatchHandle_release :: "LatchHandle \<Rightarrow> latch_memory \<Rightarrow> LatchHandle \<times> latch_memory" where
  "LatchHandle_release h mem = (case lh_node h of None \<Rightarrow> (h, mem) | Some a \<Rightarrow>
     (h\<lparr>lh_node := None\<rparr>, mem(a := if lh_exclusive h then RWSpinLatch_unlock (mem a) else RWSpinLatch_unlockShared (mem a))))"

text \<open>\<open>operator=\<close> of two different handles: the target gives up its own latch and takes over the other's.\<close>

definition LatchHandle_move :: "LatchHandle \<Rightarrow> LatchHandle \<Rightarrow> latch_memory \<Rightarrow> LatchHandle \<times> LatchHandle \<times> latch_memory" where
  "LatchHandle_move h other mem = (case LatchHandle_release h mem of (h, mem) \<Rightarrow>
     (h\<lparr>lh_node := lh_node other, lh_exclusive := lh_exclusive other\<rparr>, other\<lparr>lh_node := None\<rparr>, mem))"

section \<open>Interleavings\<close>

record latch_system =
  ls_mem :: latch_memory
  ls_handle :: "nat \<Rightarrow> LatchHandle \<times> handle_pc"

definition latch_start :: latch_system where
  "latch_start = \<lparr>ls_mem = (\<lambda>_. RWSpinLatch_new), ls_handle = (\<lambda>_. (LatchHandle_empty, Ready))\<rparr>"

datatype latch_event = Construct nat "nat option" bool | Progress nat bool | TryAcquire nat "nat option" | Release nat | MoveAssign nat nat

definition advance :: "nat \<Rightarrow> bool \<Rightarrow> latch_system \<Rightarrow> latch_system option" where
  "advance h spurious s = (case ls_handle s h of (lh, pc) \<Rightarrow> (case (lh_node lh, pc) of
       (Some a, Sharing p) \<Rightarrow> (case RWSpinLatch_lockShared spurious p (ls_mem s a) of (r, l) \<Rightarrow>
          Some (s\<lparr>ls_mem := (ls_mem s)(a := l), ls_handle := (ls_handle s)(h := (lh, case r of None \<Rightarrow> Ready | Some p \<Rightarrow> Sharing p))\<rparr>))
     | (Some a, Locking p) \<Rightarrow> (case RWSpinLatch_lock spurious p (ls_mem s a) of (r, l) \<Rightarrow>
          Some (s\<lparr>ls_mem := (ls_mem s)(a := l), ls_handle := (ls_handle s)(h := (lh, case r of None \<Rightarrow> Ready | Some p \<Rightarrow> Locking p))\<rparr>))
     | _ \<Rightarrow> None))"

fun latch_exec :: "latch_event \<Rightarrow> latch_system \<Rightarrow> latch_system option" where
  "latch_exec (Construct h n exclusive) s =
     (if lh_node (fst (ls_handle s h)) = None \<and> snd (ls_handle s h) = Ready
      then Some (s\<lparr>ls_handle := (ls_handle s)(h := LatchHandle_new n exclusive)\<rparr>) else None)"
| "latch_exec (Progress h spurious) s = advance h spurious s"
| "latch_exec (TryAcquire h n) s =
     (if lh_node (fst (ls_handle s h)) = None \<and> snd (ls_handle s h) = Ready
      then (case LatchHandle_tryAcquireExclusive n (ls_mem s) of (lh, mem) \<Rightarrow>
        Some (s\<lparr>ls_mem := mem, ls_handle := (ls_handle s)(h := (lh, Ready))\<rparr>)) else None)"
| "latch_exec (Release h) s =
     (if snd (ls_handle s h) = Ready
      then (case LatchHandle_release (fst (ls_handle s h)) (ls_mem s) of (lh, mem) \<Rightarrow>
        Some (s\<lparr>ls_mem := mem, ls_handle := (ls_handle s)(h := (lh, Ready))\<rparr>)) else None)"
| "latch_exec (MoveAssign h other) s =
     (if h \<noteq> other \<and> snd (ls_handle s h) = Ready \<and> snd (ls_handle s other) = Ready
      then (case LatchHandle_move (fst (ls_handle s h)) (fst (ls_handle s other)) (ls_mem s) of (lh, oh, mem) \<Rightarrow>
        Some (s\<lparr>ls_mem := mem, ls_handle := (ls_handle s)(h := (lh, Ready), other := (oh, Ready))\<rparr>)) else None)"

fun event_handles :: "latch_event \<Rightarrow> nat set" where
  "event_handles (Construct h n exclusive) = {h}"
| "event_handles (Progress h spurious) = {h}"
| "event_handles (TryAcquire h n) = {h}"
| "event_handles (Release h) = {h}"
| "event_handles (MoveAssign h other) = {h, other}"

text \<open>Steps of a system with \<open>N\<close> handles.\<close>

inductive latch_step :: "nat \<Rightarrow> latch_system \<Rightarrow> latch_event \<Rightarrow> latch_system \<Rightarrow> bool" for N where
  latch_stepI: "latch_exec e s = Some s' \<Longrightarrow> \<forall>h \<in> event_handles e. h < N \<Longrightarrow> latch_step N s e s'"

inductive_cases latch_stepE: "latch_step N s e s'"

section \<open>The invariant\<close>

fun holds_shared :: "nat \<Rightarrow> LatchHandle \<times> handle_pc \<Rightarrow> bool" where
  "holds_shared a (lh, pc) = (lh_node lh = Some a \<and> \<not> lh_exclusive lh \<and> pc = Ready)"

fun holds_exclusive :: "nat \<Rightarrow> LatchHandle \<times> handle_pc \<Rightarrow> bool" where
  "holds_exclusive a (lh, pc) = (lh_node lh = Some a \<and> (lh_exclusive lh \<and> pc = Ready \<or> pc = Locking XRetract))"

fun announced :: "nat \<Rightarrow> LatchHandle \<times> handle_pc \<Rightarrow> bool" where
  "announced a (lh, pc) = (lh_node lh = Some a \<and> (pc = Locking XCas \<or> pc = Locking XRetract))"

text \<open>A reader that has passed the check for waiting writers.\<close>

fun past_check :: "nat \<Rightarrow> LatchHandle \<times> handle_pc \<Rightarrow> bool" where
  "past_check a (lh, pc) = (lh_node lh = Some a \<and> (case pc of Sharing p \<Rightarrow> p \<noteq> SCheck | _ \<Rightarrow> False))"

fun handle_ok :: "LatchHandle \<times> handle_pc \<Rightarrow> bool" where
  "handle_ok (lh, pc) = (case pc of Ready \<Rightarrow> True | Sharing p \<Rightarrow> lh_node lh \<noteq> None \<and> \<not> lh_exclusive lh | Locking p \<Rightarrow> lh_node lh \<noteq> None \<and> lh_exclusive lh)"

definition number :: "nat \<Rightarrow> (LatchHandle \<times> handle_pc \<Rightarrow> bool) \<Rightarrow> latch_system \<Rightarrow> nat" where
  "number N P s = card {h. h < N \<and> P (ls_handle s h)}"

definition latch_ok :: "RWSpinLatch \<Rightarrow> nat \<Rightarrow> nat \<Rightarrow> nat \<Rightarrow> bool" where
  "latch_ok l r w p \<longleftrightarrow> lt_state l = (if w = 0 then of_nat r else - 1) \<and> w \<le> 1 \<and> (w = 0 \<or> r = 0) \<and> lt_waiting_writers l = of_nat p"

definition latch_inv :: "nat \<Rightarrow> latch_system \<Rightarrow> bool" where
  "latch_inv N s \<longleftrightarrow> (\<forall>h < N. handle_ok (ls_handle s h))
     \<and> (\<forall>a. latch_ok (ls_mem s a) (number N (holds_shared a) s) (number N (holds_exclusive a) s) (number N (announced a) s))"

lemma number_update:
  assumes "h < N"
  shows "number N P (s\<lparr>ls_handle := (ls_handle s)(h := x)\<rparr>) + of_bool (P (ls_handle s h)) = number N P s + of_bool (P x)"
proof -
  have fin: "finite {h. h < N \<and> P (f h)}" for f by simp
  let ?A = "{i. i < N \<and> i \<noteq> h \<and> P (ls_handle s i)}"
  have "{i. i < N \<and> P (ls_handle s i)} = (if P (ls_handle s h) then insert h ?A else ?A)" using assms by auto
  moreover have "{i. i < N \<and> P (((ls_handle s)(h := x)) i)} = (if P x then insert h ?A else ?A)" using assms by auto
  ultimately show ?thesis by (simp add: number_def)
qed

lemma number_mem [simp]: "number N P (s\<lparr>ls_mem := m\<rparr>) = number N P s" "number N P (s\<lparr>ls_mem := m, ls_handle := f\<rparr>) = number N P (s\<lparr>ls_handle := f\<rparr>)"
  by (simp_all add: number_def)

lemma number_le: "number N P s \<le> N"
  using card_mono [of "{..< N}" "{h. h < N \<and> P (ls_handle s h)}"] by (auto simp: number_def)

lemma number_mono: "(\<And>h. h < N \<Longrightarrow> P (ls_handle s h) \<Longrightarrow> Q (ls_handle s h)) \<Longrightarrow> number N P s \<le> number N Q s"
  unfolding number_def by (rule card_mono) auto

lemma number_pos: "h < N \<Longrightarrow> P (ls_handle s h) \<Longrightarrow> 0 < number N P s"
  unfolding number_def by (subst card_gt_0_iff) auto

lemma number_two: "h < N \<Longrightarrow> h' < N \<Longrightarrow> h \<noteq> h' \<Longrightarrow> P (ls_handle s h) \<Longrightarrow> P (ls_handle s h') \<Longrightarrow> 2 \<le> number N P s"
  unfolding number_def using card_mono [of "{h. h < N \<and> P (ls_handle s h)}" "{h, h'}"] by auto

lemma u32_of_nat:
  assumes "r < 2 ^ 31"
  shows "sint (of_nat r :: u32) = int r" "(of_nat r :: u32) = 0 \<longleftrightarrow> r = 0" "(of_nat r :: u32) \<noteq> - 1"
proof -
  show s: "sint (of_nat r :: u32) = int r" using assms by (simp add: signed_of_nat signed_take_bit_int_eq_self)
  show "(of_nat r :: u32) = 0 \<longleftrightarrow> r = 0" using s by (auto dest: arg_cong [where f = sint])
  show "(of_nat r :: u32) \<noteq> - 1" using s by (auto dest: arg_cong [where f = sint])
qed

lemma latch_ok_steps:
  assumes "latch_ok l r w p"
  shows "lt_state l = e \<Longrightarrow> 0 \<le> sint e \<Longrightarrow> latch_ok (l\<lparr>lt_state := e + 1\<rparr>) (Suc r) w p"
    "0 < r \<Longrightarrow> latch_ok (RWSpinLatch_unlockShared l) (r - 1) w p"
    "lt_state l = 0 \<Longrightarrow> r < 2 ^ 31 \<Longrightarrow> latch_ok (l\<lparr>lt_state := - 1\<rparr>) r (Suc w) p"
    "0 < w \<Longrightarrow> latch_ok (RWSpinLatch_unlock l) r (w - 1) p"
    "latch_ok (l\<lparr>lt_waiting_writers := lt_waiting_writers l + 1\<rparr>) r w (Suc p)"
    "0 < p \<Longrightarrow> latch_ok (l\<lparr>lt_waiting_writers := lt_waiting_writers l - 1\<rparr>) r w (p - 1)"
  using assms u32_of_nat(2) [of r]
  by (auto simp: latch_ok_def RWSpinLatch_unlockShared_def RWSpinLatch_unlock_def algebra_simps of_nat_diff split: if_splits)

text \<open>One handle changes, and with it at most the latch \<open>a\<close>.\<close>

lemma latch_inv_update:
  assumes "latch_inv N s" "h < N" "handle_ok x"
    and "\<And>b P. P \<in> {holds_shared b, holds_exclusive b, announced b} \<Longrightarrow> b \<noteq> a \<Longrightarrow> P x = P (ls_handle s h)"
    and "\<And>r w p. latch_ok (ls_mem s a) r w p \<Longrightarrow> r \<le> N \<Longrightarrow>
        (holds_shared a (ls_handle s h) \<longrightarrow> 0 < r) \<Longrightarrow> (holds_exclusive a (ls_handle s h) \<longrightarrow> 0 < w) \<Longrightarrow> (announced a (ls_handle s h) \<longrightarrow> 0 < p) \<Longrightarrow>
        latch_ok l (r + of_bool (holds_shared a x) - of_bool (holds_shared a (ls_handle s h)))
          (w + of_bool (holds_exclusive a x) - of_bool (holds_exclusive a (ls_handle s h))) (p + of_bool (announced a x) - of_bool (announced a (ls_handle s h)))"
  shows "latch_inv N (s\<lparr>ls_mem := (ls_mem s)(a := l), ls_handle := (ls_handle s)(h := x)\<rparr>)"
proof -
  have num: "number N P (s\<lparr>ls_handle := (ls_handle s)(h := x)\<rparr>) = number N P s + of_bool (P x) - of_bool (P (ls_handle s h))" for P
    using number_update [OF assms(2), of P s x] by simp
  have "latch_ok (((ls_mem s)(a := l)) b) (number N (holds_shared b) (s\<lparr>ls_handle := (ls_handle s)(h := x)\<rparr>))
      (number N (holds_exclusive b) (s\<lparr>ls_handle := (ls_handle s)(h := x)\<rparr>)) (number N (announced b) (s\<lparr>ls_handle := (ls_handle s)(h := x)\<rparr>))" for b
  proof (cases "b = a")
    case True
    then show ?thesis
      unfolding num True fun_upd_same
      by (intro assms(5)) (use assms(1) number_pos [OF assms(2)] in \<open>simp_all add: latch_inv_def number_le\<close>)
  next
    case False
    have eq: "number N P (s\<lparr>ls_handle := (ls_handle s)(h := x)\<rparr>) = number N P s" if "P x = P (ls_handle s h)" for P
      using number_update [OF assms(2), of P s x] that by simp
    have "number N (holds_shared b) (s\<lparr>ls_handle := (ls_handle s)(h := x)\<rparr>) = number N (holds_shared b) s"
      "number N (holds_exclusive b) (s\<lparr>ls_handle := (ls_handle s)(h := x)\<rparr>) = number N (holds_exclusive b) s"
      "number N (announced b) (s\<lparr>ls_handle := (ls_handle s)(h := x)\<rparr>) = number N (announced b) s"
      by (rule eq, rule assms(4) [OF _ False], simp)+
    then show ?thesis using assms(1) False by (simp add: latch_inv_def)
  qed
  then show ?thesis using assms(1,3) by (auto simp: latch_inv_def)
qed

lemma latch_inv_local:
  assumes "latch_inv N s" "h < N" "handle_ok x"
    and "\<And>b P. P \<in> {holds_shared b, holds_exclusive b, announced b} \<Longrightarrow> P x = P (ls_handle s h)"
  shows "latch_inv N (s\<lparr>ls_handle := (ls_handle s)(h := x)\<rparr>)"
proof -
  have same: "P x = P (ls_handle s h)" if "P \<in> {holds_shared 0, holds_exclusive 0, announced 0}" for P using assms(4) that by blast
  have "latch_inv N (s\<lparr>ls_mem := (ls_mem s)(0 := ls_mem s 0), ls_handle := (ls_handle s)(h := x)\<rparr>)"
    by (rule latch_inv_update [OF assms(1-3)]) (use assms(4) same in auto)
  then show ?thesis by simp
qed

lemma advance_inv:
  assumes "latch_inv N s" "h < N" "advance h spurious s = Some s'" "N < 2 ^ 31"
  shows "latch_inv N s'"
proof -
  obtain lh pc where h: "ls_handle s h = (lh, pc)" by (cases "ls_handle s h")
  have ok: "handle_ok (lh, pc)" using assms(1,2) h by (metis latch_inv_def)
  from assms(3) h consider
      (shared) a p r l where "lh_node lh = Some a" "pc = Sharing p" "RWSpinLatch_lockShared spurious p (ls_mem s a) = (r, l)"
        "s' = s\<lparr>ls_mem := (ls_mem s)(a := l), ls_handle := (ls_handle s)(h := (lh, case r of None \<Rightarrow> Ready | Some p \<Rightarrow> Sharing p))\<rparr>"
    | (exclusive) a p r l where "lh_node lh = Some a" "pc = Locking p" "RWSpinLatch_lock spurious p (ls_mem s a) = (r, l)"
        "s' = s\<lparr>ls_mem := (ls_mem s)(a := l), ls_handle := (ls_handle s)(h := (lh, case r of None \<Rightarrow> Ready | Some p \<Rightarrow> Locking p))\<rparr>"
    by (auto simp: advance_def split: option.splits handle_pc.splits prod.splits)
  then show ?thesis
  proof cases
    case shared
    show ?thesis unfolding shared(4)
      by (rule latch_inv_update [OF assms(1,2)])
        (use shared(1-3) h ok latch_ok_steps(1) in \<open>auto split: option.splits if_splits elim!: RWSpinLatch_lockShared.elims\<close>)
  next
    case exclusive
    show ?thesis unfolding exclusive(4)
      by (rule latch_inv_update [OF assms(1,2)])
        (use exclusive(1-3) h ok latch_ok_steps(3,5,6) assms(4) in \<open>auto split: option.splits if_splits elim!: RWSpinLatch_lock.elims\<close>)
  qed
qed

lemma release_inv:
  assumes "latch_inv N s" "h < N" "ls_handle s h = (lh, Ready)" "LatchHandle_release lh (ls_mem s) = (lh', mem)"
  shows "latch_inv N (s\<lparr>ls_mem := mem, ls_handle := (ls_handle s)(h := (lh', Ready))\<rparr>)"
proof (cases "lh_node lh")
  case None
  then show ?thesis using assms by (auto simp: LatchHandle_release_def fun_upd_idem)
next
  case (Some a)
  then have mem: "mem = (ls_mem s)(a := if lh_exclusive lh then RWSpinLatch_unlock (ls_mem s a) else RWSpinLatch_unlockShared (ls_mem s a))" "lh' = lh\<lparr>lh_node := None\<rparr>"
    using assms(4) by (auto simp: LatchHandle_release_def)
  show ?thesis unfolding mem
    by (rule latch_inv_update [OF assms(1,2)]) (use Some assms(3) latch_ok_steps(2,4) in auto)
qed

lemma tryAcquire_inv:
  assumes "latch_inv N s" "h < N" "ls_handle s h = (lh, Ready)" "lh_node lh = None" "LatchHandle_tryAcquireExclusive n (ls_mem s) = (lh', mem)" "N < 2 ^ 31"
  shows "latch_inv N (s\<lparr>ls_mem := mem, ls_handle := (ls_handle s)(h := (lh', Ready))\<rparr>)"
proof (cases n)
  case None
  then have eq: "mem = ls_mem s" "lh_node lh' = None" using assms(5) by (auto simp: LatchHandle_tryAcquireExclusive_def LatchHandle_empty_def)
  have "latch_inv N (s\<lparr>ls_handle := (ls_handle s)(h := (lh', Ready))\<rparr>)"
    by (rule latch_inv_local [OF assms(1,2)]) (use assms(3,4) eq(2) in auto)
  then show ?thesis by (simp add: eq(1))
next
  case (Some a)
  let ?free = "lt_state (ls_mem s a) = 0"
  have eq: "mem = (ls_mem s)(a := if ?free then (ls_mem s a)\<lparr>lt_state := - 1\<rparr> else ls_mem s a)"
      "lh' = \<lparr>lh_node = (if ?free then Some a else None), lh_exclusive = ?free\<rparr>"
    using assms(5) Some by (auto simp: LatchHandle_tryAcquireExclusive_def RWSpinLatch_tryLock_def LatchHandle_empty_def)
  show ?thesis unfolding eq
    by (rule latch_inv_update [OF assms(1,2)]) (use assms(3,4,6) latch_ok_steps(3) in auto)
qed

lemma move_inv:
  assumes "latch_inv N s" "h < N" "other < N" "h \<noteq> other" "ls_handle s h = (lh, Ready)" "lh_node lh = None" "ls_handle s other = (oh, Ready)"
  shows "latch_inv N (s\<lparr>ls_handle := (ls_handle s)(h := (lh\<lparr>lh_node := lh_node oh, lh_exclusive := lh_exclusive oh\<rparr>, Ready), other := (oh\<lparr>lh_node := None\<rparr>, Ready))\<rparr>)"
    (is "latch_inv N ?s'")
proof -
  let ?x = "(lh\<lparr>lh_node := lh_node oh, lh_exclusive := lh_exclusive oh\<rparr>, Ready)" and ?y = "(oh\<lparr>lh_node := None\<rparr>, Ready)"
  have num: "number N P ?s' = number N P s" if "P ?x = P (ls_handle s other)" "P ?y = P (ls_handle s h)" for P
    using number_update [OF assms(2), of P s ?x] number_update [OF assms(3), of P "s\<lparr>ls_handle := (ls_handle s)(h := ?x)\<rparr>" ?y] assms(4) that by simp
  have "number N (holds_shared b) ?s' = number N (holds_shared b) s" "number N (holds_exclusive b) ?s' = number N (holds_exclusive b) s"
    "number N (announced b) ?s' = number N (announced b) s" for b
    by (rule num; use assms(5-7) in simp)+
  then show ?thesis using assms(1) by (simp add: latch_inv_def)
qed

lemma latch_step_inv:
  assumes "latch_step N s e s'" "latch_inv N s" "N < 2 ^ 31"
  shows "latch_inv N s'"
proof -
  have ex: "latch_exec e s = Some s'" "\<And>h. h \<in> event_handles e \<Longrightarrow> h < N" using assms(1) by (auto elim: latch_stepE)
  show ?thesis
  proof (cases e)
    case (Construct h n x)
    then have s': "s' = s\<lparr>ls_handle := (ls_handle s)(h := LatchHandle_new n x)\<rparr>" "lh_node (fst (ls_handle s h)) = None" using ex(1) by (auto split: if_splits)
    show ?thesis unfolding s'
      by (rule latch_inv_local [OF assms(2)]) (use ex(2) s'(2) Construct in \<open>cases "ls_handle s h"; auto simp: LatchHandle_new_def\<close>)+
  next
    case (Progress h b)
    then show ?thesis using advance_inv [OF assms(2) _ _ assms(3)] ex by simp
  next
    case (TryAcquire h n)
    then show ?thesis using tryAcquire_inv [OF assms(2) _ _ _ _ assms(3), of h] ex by (cases "ls_handle s h") (auto split: if_splits prod.splits)
  next
    case (Release h)
    then show ?thesis using release_inv [OF assms(2), of h] ex by (cases "ls_handle s h") (auto split: if_splits prod.splits)
  next
    case (MoveAssign h other)
    obtain lh oh where hs: "h \<noteq> other" "ls_handle s h = (lh, Ready)" "ls_handle s other = (oh, Ready)" using ex(1) MoveAssign by (auto split: if_splits simp: prod_eq_iff)
    obtain lh1 mem where r: "LatchHandle_release lh (ls_mem s) = (lh1, mem)" by (rule prod.exhaust)
    have n: "lh_node lh1 = None" using r by (auto simp: LatchHandle_release_def split: option.splits)
    have N: "h < N" "other < N" using ex(2) MoveAssign by auto
    show ?thesis
      using move_inv [OF release_inv [OF assms(2) N(1) hs(2) r] N hs(1), of lh1 oh] hs n ex(1) MoveAssign by (simp add: LatchHandle_move_def r)
  qed
qed

lemma latch_reachable: "runs (latch_step N) latch_start es s \<Longrightarrow> N < 2 ^ 31 \<Longrightarrow> latch_inv N s"
proof -
  have "latch_inv N latch_start"
    by (auto simp: latch_inv_def latch_start_def latch_ok_def number_def RWSpinLatch_new_def LatchHandle_empty_def)
  moreover have "runs (latch_step N) s0 es s \<Longrightarrow> N < 2 ^ 31 \<Longrightarrow> latch_inv N s0 \<Longrightarrow> latch_inv N s" for s0
    by (induction rule: runs.induct) (auto dest: latch_step_inv)
  ultimately show "runs (latch_step N) latch_start es s \<Longrightarrow> N < 2 ^ 31 \<Longrightarrow> latch_inv N s" by blast
qed

section \<open>Writer priority\<close>

fun latch_run :: "latch_event list \<Rightarrow> latch_system \<Rightarrow> latch_system option" where
  "latch_run [] s = Some s"
| "latch_run (e # es) s = (case latch_exec e s of None \<Rightarrow> None | Some s' \<Rightarrow> latch_run es s')"

lemma latch_run_runs: "latch_run es s = Some s' \<Longrightarrow> \<forall>e \<in> set es. \<forall>h \<in> event_handles e. h < N \<Longrightarrow> runs (latch_step N) s es s'"
  by (induction es arbitrary: s) (auto split: option.splits intro: runs.intros latch_stepI)

text \<open>Handle \<open>w\<close> has announced its \<open>lock\<close> of latch \<open>a\<close> and spins; a handle gets the latch in shared mode.\<close>

fun spins :: "nat \<Rightarrow> LatchHandle \<times> handle_pc \<Rightarrow> bool" where
  "spins a (lh, pc) = (lh_node lh = Some a \<and> pc = Locking XCas)"

fun grants :: "nat \<Rightarrow> latch_event \<Rightarrow> latch_system \<Rightarrow> latch_system \<Rightarrow> bool" where
  "grants a (Progress h spurious) s s' = (\<not> holds_shared a (ls_handle s h) \<and> holds_shared a (ls_handle s' h))"
| "grants a e s s' = False"

text \<open>How often \<open>lockShared\<close> gets latch \<open>a\<close> in a run, as long as \<open>w\<close> spins on it.\<close>

fun overtakes :: "nat \<Rightarrow> nat \<Rightarrow> latch_event list \<Rightarrow> latch_system \<Rightarrow> nat" where
  "overtakes a w [] s = 0"
| "overtakes a w (e # es) s = (case latch_exec e s of None \<Rightarrow> 0
     | Some s' \<Rightarrow> if spins a (ls_handle s' w) then of_bool (grants a e s s') + overtakes a w es s' else 0)"

lemma past_check_step:
  assumes "latch_inv N s" "N < 2 ^ 31" "w < N" "spins a (ls_handle s w)" "latch_exec e s = Some s'" "\<forall>h \<in> event_handles e. h < N"
  shows "number N (past_check a) s' + of_bool (grants a e s s') \<le> number N (past_check a) s"
proof (cases "\<exists>h b. e = Progress h b")
  case True
  then obtain h b where e: "e = Progress h b" "h < N" using assms(6) by auto
  obtain lh pc where h: "ls_handle s h = (lh, pc)" by (cases "ls_handle s h")
  have ok: "handle_ok (lh, pc)" using assms(1) e(2) h by (metis latch_inv_def)
  have "announced a (ls_handle s w)" using assms(4) by (cases "ls_handle s w") simp
  then have "0 < number N (announced a) s" by (rule number_pos [OF assms(3)])
  then have pos: "is_positive (lt_waiting_writers (ls_mem s a))"
    using assms(1,2) number_le [of N "announced a" s] u32_of_nat(1) [of "number N (announced a) s"] by (auto simp: latch_inv_def latch_ok_def is_positive_def)
  have s': "s' = s\<lparr>ls_mem := ls_mem s', ls_handle := (ls_handle s)(h := ls_handle s' h)\<rparr>"
    using assms(5) e h by (auto simp: advance_def split: option.splits handle_pc.splits prod.splits)
  have "of_bool (past_check a (ls_handle s' h)) + of_bool (grants a e s s') \<le> (of_bool (past_check a (lh, pc)) :: nat)"
    using assms(5) e h ok pos by (auto simp: advance_def split: option.splits handle_pc.splits prod.splits if_splits elim!: RWSpinLatch_lockShared.elims RWSpinLatch_lock.elims)
  moreover have "number N P s' = number N P (s\<lparr>ls_handle := (ls_handle s)(h := ls_handle s' h)\<rparr>)" for P by (subst s') simp
  ultimately show ?thesis using number_update [OF e(2), of "past_check a" s "ls_handle s' h"] h by simp
next
  case False
  have same: "past_check a (ls_handle s' h) \<Longrightarrow> past_check a (ls_handle s h)" for h
    using assms(5) False by (cases e) (auto simp: LatchHandle_new_def split: if_splits prod.splits)
  have "\<not> grants a e s s'" using False by (cases e) auto
  moreover have "number N (past_check a) s' \<le> number N (past_check a) s" unfolding number_def by (rule card_mono) (use same in auto)
  ultimately show ?thesis by simp
qed

lemma overtakes_bound:
  assumes "latch_inv N s" "N < 2 ^ 31" "w < N" "spins a (ls_handle s w)" "\<forall>e \<in> set es. \<forall>h \<in> event_handles e. h < N"
  shows "overtakes a w es s \<le> number N (past_check a) s"
  using assms
proof (induction es arbitrary: s)
  case (Cons e es)
  show ?case
  proof (cases "latch_exec e s")
    case (Some s')
    have "latch_inv N s'" using latch_step_inv [OF latch_stepI [OF Some] Cons.prems(1,2)] Cons.prems(5) by simp
    then have "spins a (ls_handle s' w) \<Longrightarrow> overtakes a w es s' \<le> number N (past_check a) s'" using Cons by simp
    then show ?thesis using past_check_step [OF Cons.prems(1-4) Some] Cons.prems(5) Some by auto
  qed simp
qed simp

lemma past_check_others:
  assumes "w < N" "spins a (ls_handle s w)"
  shows "number N (past_check a) s < N"
proof -
  have "{h. h < N \<and> past_check a (ls_handle s h)} \<subseteq> {..< N} - {w}" using assms(2) by (cases "ls_handle s w") auto
  from card_mono [OF _ this] show ?thesis using assms(1) by (simp add: number_def)
qed

section \<open>Properties\<close>

text \<open>
  C11: a latch is never held exclusively together with anything else. However the calls of up to \<open>2 ^ 31 - 1\<close> handles interleave, whatever spurious
  failures the weak exchanges have and whatever handles are moved, two handles hold the same latch only in shared mode, and the latch's \<open>int\<close> is
  \<open>-1\<close> or the number of its shared holders, without overflow.
\<close>
theorem RWSpinLatch_exclusive:
  assumes "N < 2 ^ 31" "runs (latch_step N) latch_start es s"
  shows "(\<forall>h h'. h < N \<and> h' < N \<and> h \<noteq> h' \<and> holds_exclusive a (ls_handle s h) \<longrightarrow> \<not> holds_exclusive a (ls_handle s h') \<and> \<not> holds_shared a (ls_handle s h'))
    \<and> sint (lt_state (ls_mem s a)) = (if \<exists>h < N. holds_exclusive a (ls_handle s h) then - 1 else int (card {h. h < N \<and> holds_shared a (ls_handle s h)}))"
proof -
  have inv: "latch_ok (ls_mem s a) (number N (holds_shared a) s) (number N (holds_exclusive a) s) (number N (announced a) s)"
    using latch_reachable [OF assms(2,1)] by (simp add: latch_inv_def)
  have "\<not> holds_exclusive a (ls_handle s h') \<and> \<not> holds_shared a (ls_handle s h')" if "h < N" "h' < N" "h \<noteq> h'" "holds_exclusive a (ls_handle s h)" for h h'
    using inv number_two [OF that(1-3), of "holds_exclusive a" s] number_pos [OF that(1), of "holds_exclusive a" s]
      number_pos [OF that(2), of "holds_shared a" s] that(4) by (auto simp: latch_ok_def)
  moreover have "number N (holds_shared a) s < 2 ^ 31" using number_le [of N "holds_shared a" s] assms(1) by simp
  moreover have "number N (holds_exclusive a) s = 0 \<longleftrightarrow> \<not> (\<exists>h < N. holds_exclusive a (ls_handle s h))" by (auto simp: number_def)
  ultimately show ?thesis
    using inv u32_of_nat(1) [of "number N (holds_shared a) s"] by (auto simp: latch_ok_def number_def)
qed

definition sample_latching :: "latch_event list" where
  "sample_latching = [Construct 0 (Some 7) False, Progress 0 False, Progress 0 False, Construct 1 (Some 7) True, Progress 1 False, Progress 1 False,
     Construct 2 (Some 7) False, Progress 2 False, Progress 0 True, Progress 1 False]"

theorem RWSpinLatch_exclusive_witness:
  "\<exists>s. latch_run sample_latching latch_start = Some s \<and> holds_exclusive 7 (ls_handle s 1) \<and> \<not> holds_shared 7 (ls_handle s 2) \<and> \<not> holds_exclusive 7 (ls_handle s 2)
     \<and> sint (lt_state (ls_mem s 7)) = - 1"
proof -
  have "case latch_run sample_latching latch_start of None \<Rightarrow> False | Some s \<Rightarrow> holds_exclusive 7 (ls_handle s 1)" by code_simp
  then obtain s where s: "latch_run sample_latching latch_start = Some s" "holds_exclusive 7 (ls_handle s 1)" by (auto split: option.splits)
  have "runs (latch_step 3) latch_start sample_latching s" by (rule latch_run_runs [OF s(1)]) (simp add: sample_latching_def)
  note ex = RWSpinLatch_exclusive [OF _ this, of 7]
  have "\<exists>h < 3. holds_exclusive 7 (ls_handle s h)" using s(2) by (intro exI [of _ 1]) simp
  moreover have "\<not> holds_exclusive 7 (ls_handle s 2) \<and> \<not> holds_shared 7 (ls_handle s 2)"
    using conjunct1 [OF ex, THEN spec, of 1, THEN spec, of 2] s(2) by simp
  ultimately show ?thesis using conjunct2 [OF ex] s by (intro exI [of _ s]) simp
qed

text \<open>
  C12: writer priority. While a \<open>lock\<close> call has announced itself and spins, \<open>lockShared\<close> gets the latch at most once for each handle that had already passed
  the check for waiting writers, and so less often than there are handles: a stream of new readers cannot starve the writer. And as soon as no handle
  holds the latch, the writer gets it with its next exchange that does not fail spuriously.
\<close>
theorem RWSpinLatch_writer_priority:
  assumes "N < 2 ^ 31" "runs (latch_step N) latch_start es s" "w < N" "spins a (ls_handle s w)" "\<forall>e \<in> set es'. \<forall>h \<in> event_handles e. h < N"
  shows "overtakes a w es' s \<le> card {h. h < N \<and> past_check a (ls_handle s h)} \<and> card {h. h < N \<and> past_check a (ls_handle s h)} < N
    \<and> ((\<forall>h < N. \<not> holds_shared a (ls_handle s h) \<and> \<not> holds_exclusive a (ls_handle s h))
        \<longrightarrow> (\<exists>s'. latch_exec (Progress w False) s = Some s' \<and> holds_exclusive a (ls_handle s' w)))"
proof -
  have inv: "latch_inv N s" by (rule latch_reachable [OF assms(2,1)])
  have "\<exists>s'. latch_exec (Progress w False) s = Some s' \<and> holds_exclusive a (ls_handle s' w)"
    if "\<forall>h < N. \<not> holds_shared a (ls_handle s h) \<and> \<not> holds_exclusive a (ls_handle s h)"
  proof -
    have "number N (holds_shared a) s = 0" "number N (holds_exclusive a) s = 0" using that by (auto simp: number_def)
    moreover have "latch_ok (ls_mem s a) (number N (holds_shared a) s) (number N (holds_exclusive a) s) (number N (announced a) s)" using inv by (simp add: latch_inv_def)
    ultimately have "lt_state (ls_mem s a) = 0" by (simp add: latch_ok_def)
    then show ?thesis using assms(4) by (cases "ls_handle s w") (auto simp: advance_def)
  qed
  then show ?thesis
    using overtakes_bound [OF inv assms(1,3,4,5)] past_check_others [OF assms(3,4)] by (auto simp: number_def)
qed

definition sample_waiting :: "latch_event list" where
  "sample_waiting = [Construct 0 (Some 7) False, Progress 0 False, Progress 0 False, Construct 1 (Some 7) True, Progress 1 False]"

theorem RWSpinLatch_writer_priority_witness:
  "\<exists>s. latch_run sample_waiting latch_start = Some s
     \<and> overtakes 7 1 [Progress 0 False, Construct 2 (Some 7) False, Progress 2 False, Progress 1 False] s = 1
     \<and> 1 \<le> card {h. h < 3 \<and> past_check 7 (ls_handle s h)} \<and> card {h. h < 3 \<and> past_check 7 (ls_handle s h)} < 3"
proof -
  let ?es = "[Progress 0 False, Construct 2 (Some 7) False, Progress 2 False, Progress 1 False]"
  have "case latch_run sample_waiting latch_start of None \<Rightarrow> False | Some s \<Rightarrow> spins 7 (ls_handle s 1) \<and> overtakes 7 1 ?es s = 1" by code_simp
  then obtain s where s: "latch_run sample_waiting latch_start = Some s" "spins 7 (ls_handle s 1)" "overtakes 7 1 ?es s = 1" by (auto split: option.splits)
  have "runs (latch_step 3) latch_start sample_waiting s" by (rule latch_run_runs [OF s(1)]) (simp add: sample_waiting_def)
  from RWSpinLatch_writer_priority [OF _ this, of 1 7 ?es] s show ?thesis by (intro exI [of _ s]) auto
qed

end
