(* ===== verification/Spec2Isabelle.thy ===== *)
theory Spec2Isabelle
  imports Sql_Select Latches
begin

text \<open>
  A model of \<open>db_engine\<close>, a relational storage engine in C++ (\<open>src/src\<close>, \<open>src/include/db_engine\<close>), and the theorems that make its parts correct.

  \<^bold>\<open>The program.\<close> A client sends SQL text to the server, which cuts it into statements. The lexer and the parser turn a statement into a syntax tree, and the
  executor runs it on the tables of the database, inside the session's transaction or a transaction of its own. A table keeps row versions
  in a heap file, reached through the record manager, the page manager and the buffer pool, and a B-link tree from keys to the newest version of each
  row, kept in an index file by the index manager. Both write page images to one write-ahead log before the page itself. The MVCC manager gives
  transactions their ids and snapshots and decides which versions a reader sees; the lock manager serialises the writers of a row. After a crash the
  recovery manager replays the log over the heap and index files.

  \<^bold>\<open>Conventions.\<close> A class is a \<open>record\<close>, a member function \<open>C::f\<close> is the definition \<open>C_f\<close>, a local piece of a function has a name of its own. Code that
  changes a state and may throw is an \<open>effect\<close>: a function from a state to a result and a state. An exception is a value of \<open>error\<close>; an access the standard
  leaves undefined is the error \<open>UndefinedBehaviour\<close>, and a loop that comes back to where it was is the error \<open>Diverges\<close>, so that both can be excluded by
  theorems. Files are byte lists, transaction ids and LSNs are 64-bit words, the latch's counters 32-bit words. A \<open>size_t\<close> stored in an \<open>int\<close> goes through
  \<open>narrow_int\<close>, which wraps as the code does. The iteration order of a hash map is an argument.

  \<^bold>\<open>Theories, sources and what is shown.\<close>
  \<^item> \<open>Prelude\<close>: results, effects, little-endian bytes, bounds-checked copies, runs of a step relation, and the locale \<open>stable_view\<close>: a view that single steps
    leave alone is left alone by runs. \<open>Mvcc\<close> and \<open>Table_Snapshots\<close> interpret it.
  \<^item> \<open>Keys\<close> (\<open>key.hpp\<close>), \<open>Records\<close> (\<open>record.cpp\<close>), \<open>Pages\<close> (\<open>page.cpp\<close>): the data on a page, byte by byte. Round trips, memory safety, slots that keep their content,
    and what the unchecked narrowing of a record's size does beyond \<open>2 ^ 31\<close> bytes.
  \<^item> \<open>Eviction\<close> (\<open>evictionpolicy.cpp\<close>), \<open>Buffer_Pool\<close> (\<open>bufferpool.cpp\<close>, \<open>pagemanager.cpp\<close>), \<open>Page_Store\<close>: the pool, and that it meets the contract
    \<open>page_store\<close> of a map from page numbers to pages, until a read fails, after which it is stuck for good. \<open>Record_Manager\<close> (\<open>recordmanager.cpp\<close>) is verified against that contract and refines a map from RIDs to records.
  \<^item> \<open>Wal\<close> (\<open>wal.cpp\<close>): record framing, scan of a torn log, the transaction manager, durability of a commit. \<open>Recovery\<close> (\<open>recoverymanager.cpp\<close>): analysis, redo
    and undo on the bytes of the files, heap pages, index nodes and the page of the root pointer alike. Undo takes fuel, one unit per record on a \<open>prev_lsn\<close> chain; one more than the log has records is enough when chains point backwards.
  \<^item> \<open>Lock_Manager\<close> (\<open>lockmanager.cpp\<close>), \<open>Mvcc\<close> (\<open>mvcc.cpp\<close>, \<open>transaction.hpp\<close>): locks and snapshots under every interleaving of the calls.
  \<^item> \<open>Latches\<close> (\<open>latch.hpp\<close>, \<open>latchhandle.hpp\<close>): the spin latch and its handles, interleaved at every access to an atomic. Mutual exclusion and writer priority.
  \<^item> \<open>Nodes\<close> (\<open>node.cpp\<close>), \<open>Index_Manager\<close> (\<open>indexmanager.cpp\<close>), \<open>BPlus_Tree\<close> (\<open>bplustree.cpp\<close>), with the invariant in \<open>Tree_Search\<close>, insertion and split
    propagation in \<open>Tree_Insert\<close> and the contract \<open>ordered_index\<close> in \<open>Tree_Map\<close>: the tree refines a sorted association list. \<open>Tree_Safety\<close>: insertion and update
    throw nothing but C++ exceptions when the keys fit a page, also when a save to the index file fails.
  \<^item> \<open>Lexer\<close> (\<open>lexer.cpp\<close>), \<open>Parser\<close> (\<open>parser.cpp\<close>, \<open>ast.hpp\<close>): SQL text to statements; the parser accepts exactly the grammar, always ends, never reads
    past its tokens, and printing is its inverse. \<open>Sql_Sizes\<close> bounds the values of a statement by the length of its text.
  \<^item> \<open>Catalog\<close> (\<open>schema.cpp\<close>, \<open>catalogmanager.cpp\<close>): schemas and the catalog file.
  \<^item> \<open>Tables\<close> (\<open>table.cpp\<close>). \<open>Table_Versions\<close> relates a table to the chain of versions of each key, \<open>Log_Effects\<close> and \<open>Table_Writes\<close> say what each operation does
    to the chains on every path, \<open>Table_Snapshots\<close> shows repeatable reads without phantoms, \<open>Table_Reads\<close> which writes are read: the transaction's own, those of
    committed ones, and none of those rolled back. These exclude an INSERT of a key whose newest version carries no delete stamp while somebody reads a row there;
    \<open>Table_Reads\<close> shows what such an INSERT does: it takes the row away from every other transaction. The walk along \<open>prev_version\<close> has fuel for as many versions as the heap's pages can hold, so running out of it
    means a cycle; \<open>Table_Versions\<close> shows that chains have none.
  \<^item> \<open>Database\<close> (\<open>database.cpp\<close>), \<open>Executor\<close> (\<open>executor.cpp\<close>), \<open>Sql_Server\<close> (\<open>sqlserver.cpp\<close>): opening a directory, every statement, a connection.
  \<^item> \<open>Triples\<close> is a small Hoare logic for effects; \<open>Table_Safety\<close> and \<open>Sql_Safety\<close> use it to show that every statement of every connection is answered and keeps
    the database well-formed. \<open>Sql_Select\<close> shows that SELECT, by either of its two paths, returns its relational meaning over the rows the transaction sees;
    for the index path of an \<open>int\<close> column, and of rows whose first column was updated, it does not hold and is not claimed.

  \<^bold>\<open>Bounds.\<close> A page number is a 32-bit \<open>int\<close> multiplied by the page size in one place of the code; \<open>MAX_PAGES\<close> = 524288 keeps that product in range and is a premise where
  pages are allocated. Transaction ids must not reach the last 64-bit word. For \<open>q\<close> statements on tables with at most \<open>K\<close> keys, \<open>budget q K = q * (K + q)\<close> pages and ids are
  enough, since a statement touches each key at most once and adds at most one. With the 524288 pages of an empty database this covers 724 statements.
  Rows have fewer than \<open>2 ^ 31 - 5\<close> bytes (\<open>int_sized\<close>), which statements of at most \<open>2 ^ 28\<close> characters (\<open>short_text\<close>) guarantee.

  \<^bold>\<open>Interleaving.\<close> The lock manager, the MVCC manager and the latches are modelled under every interleaving of their atomic pieces, the tables and sessions under every
  interleaving of whole operations. The latches that make the operations of one tree appear whole are modelled apart from the tree, whose operations run one at a time.

  \<^bold>\<open>Not modelled.\<close> The listening socket and the threads of the server (\<open>start\<close>, \<open>stop\<close>, \<open>acceptLoop\<close>), \<open>main.cpp\<close> and \<open>bench.cpp\<close>: they only call the operating system or
  drive the engine. How much of a response \<open>send\<close> transmits, and the narrowing of its length. \<open>printTree\<close> and \<open>printNode\<close>: debug output. The retries of the tree that only a concurrent change can cause, and memory orders weaker than sequential
  consistency. Real time: operations of tables and sessions run one at a time, so there a wait for a row lock is ended by its timeout and not by another session's commit. Crashes of the
  operating system: the code does not call \<open>fsync\<close>, and a crash is one of the process, which keeps what was flushed to the system. Failing memory allocations.
\<close>

end
